(* ===== verification/Prelude.thy ===== *)
theory Prelude
  imports Main "HOL-Library.Word" "HOL-Library.Monad_Syntax" "HOL-Library.Code_Target_Nat"
begin

text \<open>
  Shared vocabulary of the development: C scalar types, the failure monad in which a failed
  \<open>assert\<close> or the dereference of a NULL pointer is the value None, three-way comparison
  functions, and the generic facts on sorted lists that every tree-based component uses.
\<close>

section \<open>C vocabulary\<close>

text \<open>
  Sequence numbers (\<open>seqno_t\<close>, uint64) of data and gaps are validated by the receive path to lie in
  1 .. 2^63-1, so the components that only compare and increment them use naturals; where a
  computation can leave 32 or 64 bits the wrap-around is written out (the last number of a heartbeat is not validated).
\<close>

type_synonym seqno = nat
type_synonym u32 = "32 word"

text \<open>A three-way comparison as the C code has it: negative, zero or positive.\<close>

definition cmp3 :: "'k::linorder \<Rightarrow> 'k \<Rightarrow> int" where
  "cmp3 a b = (if a = b then 0 else if a < b then -1 else 1)"

lemma cmp3_simps [simp]:
  "cmp3 a b = 0 \<longleftrightarrow> a = b"
  "cmp3 a b < 0 \<longleftrightarrow> a < b"
  "cmp3 a b \<le> 0 \<longleftrightarrow> a \<le> b"
  "0 < cmp3 a b \<longleftrightarrow> b < a"
  "0 \<le> cmp3 a b \<longleftrightarrow> b \<le> a"
  by (auto simp: cmp3_def)

text \<open>A failed assertion is None.\<close>

definition assertion :: "bool \<Rightarrow> unit option" where
  "assertion b = (if b then Some () else None)"

lemma assertion_simps [simp]:
  "assertion True = Some ()" "assertion False = None"
  "assertion b = Some u \<longleftrightarrow> b"
  "assertion b = None \<longleftrightarrow> \<not> b"
  by (auto simp: assertion_def)

lemma option_bind_Some: "Some x \<bind> f = f x"
  by simp

section \<open>Lists sorted by a key\<close>

definition sorted_by :: "('a \<Rightarrow> 'k::linorder) \<Rightarrow> 'a list \<Rightarrow> bool" where
  "sorted_by key xs \<longleftrightarrow> sorted_wrt (\<lambda>x y. key x < key y) xs"

lemma sorted_by_Nil [simp]: "sorted_by key []"
  by (simp add: sorted_by_def)

lemma sorted_by_Cons [simp]:
  "sorted_by key (x # xs) \<longleftrightarrow> (\<forall>y\<in>set xs. key x < key y) \<and> sorted_by key xs"
  by (auto simp: sorted_by_def)

lemma sorted_by_append:
  "sorted_by key (xs @ ys) \<longleftrightarrow>
    sorted_by key xs \<and> sorted_by key ys \<and> (\<forall>x\<in>set xs. \<forall>y\<in>set ys. key x < key y)"
  by (auto simp: sorted_by_def sorted_wrt_append)

lemma sorted_by_distinct: "sorted_by key xs \<Longrightarrow> distinct xs"
  by (induction xs) auto

lemma sorted_by_key_inj:
  "sorted_by key xs \<Longrightarrow> x \<in> set xs \<Longrightarrow> y \<in> set xs \<Longrightarrow> key x = key y \<Longrightarrow> x = y"
  by (induction xs) force+

text \<open>The element with a given key splits a sorted list in only one way.\<close>

lemma sorted_by_split_unique:
  assumes "sorted_by key (xs @ x # ys)" "xs @ x # ys = xs' @ x' # ys'" "key x = key x'"
  shows "xs = xs' \<and> x = x' \<and> ys = ys'"
proof -
  have x: "x \<in> set (xs @ x # ys)" and x': "x' \<in> set (xs @ x # ys)"
    by (simp, subst assms(2), simp)
  have "x = x'" by (rule sorted_by_key_inj [OF assms(1) x x' assms(3)])
  moreover have "distinct (xs @ x # ys)" by (rule sorted_by_distinct [OF assms(1)])
  moreover from this have "distinct (xs' @ x' # ys')" by (simp add: assms(2))
  ultimately show ?thesis
    using assms(2) append_Cons_eq_iff [of x xs ys xs' ys'] by auto
qed

text \<open>The first and the last element of a list, where there is one.\<close>

definition hd_opt :: "'a list \<Rightarrow> 'a option" where
  "hd_opt xs = (case xs of [] \<Rightarrow> None | x # _ \<Rightarrow> Some x)"

definition last_opt :: "'a list \<Rightarrow> 'a option" where
  "last_opt xs = (if xs = [] then None else Some (last xs))"

definition or_else :: "'a option \<Rightarrow> 'a option \<Rightarrow> 'a option" where
  "or_else a b = (case a of None \<Rightarrow> b | Some x \<Rightarrow> Some x)"

lemma or_else_simps [simp]:
  "or_else None b = b" "or_else (Some x) b = Some x" "or_else a None = a"
  by (auto simp: or_else_def split: option.split)

lemma or_else_assoc: "or_else (or_else a b) c = or_else a (or_else b c)"
  by (cases a) simp_all

lemma hd_opt_simps [simp]:
  "hd_opt [] = None" "hd_opt (x # xs) = Some x"
  "hd_opt (xs @ ys) = or_else (hd_opt xs) (hd_opt ys)"
  by (auto simp: hd_opt_def or_else_def split: list.split)

lemma last_opt_simps [simp]:
  "last_opt [] = None" "last_opt (xs @ [x]) = Some x" "last_opt [x] = Some x"
  by (auto simp: last_opt_def)

lemma last_opt_append [simp]: "last_opt (xs @ ys) = or_else (last_opt ys) (last_opt xs)"
  by (auto simp: last_opt_def)

lemma last_opt_Cons [simp]: "last_opt (x # xs) = or_else (last_opt xs) (Some x)"
  by (auto simp: last_opt_def)

lemma hd_opt_None [simp]: "hd_opt xs = None \<longleftrightarrow> xs = []"
  by (cases xs) auto

lemma last_opt_None [simp]: "last_opt xs = None \<longleftrightarrow> xs = []"
  by (auto simp: last_opt_def)

lemma hd_opt_Some: "hd_opt xs = Some x \<longleftrightarrow> (\<exists>ys. xs = x # ys)"
  by (cases xs) auto

lemma last_opt_Some: "last_opt xs = Some x \<longleftrightarrow> (\<exists>ys. xs = ys @ [x])"
  by (cases xs rule: rev_cases) auto

text \<open>The weak form of sortedness, for trees that allow duplicate keys.\<close>

definition weakly_sorted_by :: "('a \<Rightarrow> 'k::linorder) \<Rightarrow> 'a list \<Rightarrow> bool" where
  "weakly_sorted_by key xs \<longleftrightarrow> sorted_wrt (\<lambda>x y. key x \<le> key y) xs"

lemma weakly_sorted_by_simps [simp]:
  "weakly_sorted_by key []"
  "weakly_sorted_by key (x # xs) \<longleftrightarrow> (\<forall>y\<in>set xs. key x \<le> key y) \<and> weakly_sorted_by key xs"
  "weakly_sorted_by key (xs @ ys) \<longleftrightarrow> weakly_sorted_by key xs \<and> weakly_sorted_by key ys \<and>
     (\<forall>x\<in>set xs. \<forall>y\<in>set ys. key x \<le> key y)"
  by (auto simp: weakly_sorted_by_def sorted_wrt_append)

lemma sorted_by_weak: "sorted_by key xs \<Longrightarrow> weakly_sorted_by key xs"
  by (induction xs) (auto simp: less_imp_le)

text \<open>The elements at most (below) a key form a prefix of a sorted list.\<close>

lemma filter_all [simp]: "\<forall>x\<in>set xs. P x \<Longrightarrow> filter P xs = xs"
  by (induction xs) auto

lemma filter_none [simp]: "\<forall>x\<in>set xs. \<not> P x \<Longrightarrow> filter P xs = []"
  by (induction xs) auto

lemma prefix_split_unique:
  assumes "xs @ ys = xs' @ ys'" "\<forall>x\<in>set xs. P x" "\<forall>y\<in>set ys. \<not> P y"
    "\<forall>x\<in>set xs'. P x" "\<forall>y\<in>set ys'. \<not> P y"
  shows "xs = xs' \<and> ys = ys'"
proof -
  have "filter P (xs @ ys) = xs" "filter P (xs' @ ys') = xs'" using assms(2-5) by simp_all
  with assms(1) show ?thesis by auto
qed

end
