(* ===== verification/Avl_Tree.thy ===== *)
theory Avl_Tree
  imports Prelude
begin

text \<open>
  The AVL tree of \<open>src/ddsrt/src/avl.c\<close>: the nodes with their stored heights, the tree
  definition record, rotations, rebalancing along the path, insertion, deletion, lookups,
  neighbours and iteration, in the order of the C file.

  A pointer to a node that the C code can follow upwards (through \<open>parent\<close>) or that carries
  a lookup path is a location: the subtree at that node with the list of frames from the node
  up to the root. A frame holds the direction taken at the parent, the parent's user data and
  height, and the other subtree. The NULL tree is \<open>Null\<close>; \<open>cs[0]\<close> and \<open>cs[1]\<close>
  are the first and last arguments of \<open>Node\<close>.
\<close>

section \<open>Nodes, tree definitions\<close>

datatype 'a avl = Null | Node "'a avl" 'a int "'a avl"

text \<open>
  \<open>ddsrt_avl_treedef_t\<close>: the offsets become the selector of the key, the comparison function
  is the direct or the \<open>_r\<close> form with its argument applied, the augment function is optional.
\<close>

record ('a, 'k) avl_treedef =
  td_key :: "'a \<Rightarrow> 'k"
  td_comparekk :: "'k \<Rightarrow> 'k \<Rightarrow> int"
  td_augment :: "('a \<Rightarrow> 'a option \<Rightarrow> 'a option \<Rightarrow> 'a) option"
  td_allowdups :: bool

definition comparenk :: "('a, 'k) avl_treedef \<Rightarrow> 'a \<Rightarrow> 'k \<Rightarrow> int" where
  "comparenk td a k = td_comparekk td (td_key td a) k"

type_synonym 'a frame = "bool \<times> 'a \<times> int \<times> 'a avl"
type_synonym 'a loc = "'a avl \<times> 'a frame list"

fun height :: "'a avl \<Rightarrow> int" where
  "height Null = 0"
| "height (Node _ _ h _) = h"

fun onode :: "'a avl \<Rightarrow> 'a option" where
  "onode Null = None"
| "onode (Node _ v _ _) = Some v"

fun cs :: "bool \<Rightarrow> 'a avl \<Rightarrow> 'a avl" where
  "cs dir Null = Null"
| "cs dir (Node l v h r) = (if dir then r else l)"

text \<open>A node whose child in direction \<open>dir\<close> is \<open>d\<close> and whose other child is \<open>nd\<close>.\<close>

definition mk :: "bool \<Rightarrow> 'a \<Rightarrow> int \<Rightarrow> 'a avl \<Rightarrow> 'a avl \<Rightarrow> 'a avl" where
  "mk dir v h d nd = (if dir then Node nd v h d else Node d v h nd)"

fun plug :: "'a avl \<Rightarrow> 'a frame list \<Rightarrow> 'a avl" where
  "plug t [] = t"
| "plug t ((dir, v, h, s) # c) = plug (mk dir v h t s) c"

fun inorder :: "'a avl \<Rightarrow> 'a list" where
  "inorder Null = []"
| "inorder (Node l v h r) = inorder l @ v # inorder r"

section \<open>Rotations and rebalancing\<close>

fun augment :: "('a, 'k) avl_treedef \<Rightarrow> 'a avl \<Rightarrow> 'a avl" where
  "augment td Null = Null"
| "augment td (Node l v h r) =
     (case td_augment td of
        None \<Rightarrow> Node l v h r
      | Some f \<Rightarrow> Node l (f v (onode l) (onode r)) h r)"

definition rotate_single :: "('a, 'k) avl_treedef \<Rightarrow> 'a avl \<Rightarrow> bool \<Rightarrow> 'a avl" where
  "rotate_single td node dir =
     (case (node, cs (\<not> dir) node) of
        (Node _ v _ _, Node l w h' r) \<Rightarrow>
          (let nd = Node l w h' r;
               nd_d = cs dir nd;
               h = (if nd_d = Null then 1 else 1 + height nd_d);
               node' = augment td (mk dir v h (cs dir node) nd_d)
           in augment td (mk dir w (h + 1) node' (cs (\<not> dir) nd)))
      | _ \<Rightarrow> node)"

definition rotate_double :: "('a, 'k) avl_treedef \<Rightarrow> 'a avl \<Rightarrow> bool \<Rightarrow> 'a avl" where
  "rotate_double td node dir =
     (let nd = cs (\<not> dir) node; nd_d = cs dir nd in
      case (node, nd, nd_d) of
        (Node _ v _ _, Node _ w h _, Node _ u k _) \<Rightarrow>
          (let node' = augment td (mk dir v k (cs dir node) (cs dir nd_d));
               nd' = augment td (mk dir w k (cs (\<not> dir) nd_d) (cs (\<not> dir) nd))
           in augment td (mk dir u h node' nd'))
      | _ \<Rightarrow> node)"

definition rotate :: "('a, 'k) avl_treedef \<Rightarrow> 'a avl \<Rightarrow> bool \<Rightarrow> 'a avl" where
  "rotate td node dir =
     (let nd = cs (\<not> dir) node;
          height_nd_nd = height (cs (\<not> dir) nd);
          height_nd_d = height (cs dir nd)
      in if height_nd_nd < height_nd_d then rotate_double td node dir
         else rotate_single td node dir)"

text \<open>
  \<open>rebalance_one\<close> returns the new subtree and whether the C function returns the parent
  (True, the walk goes on) or NULL (False, it stops).
\<close>

fun rebalance_one :: "('a, 'k) avl_treedef \<Rightarrow> 'a avl \<Rightarrow> 'a avl \<times> bool" where
  "rebalance_one td Null = (Null, False)"
| "rebalance_one td (Node l v h r) =
     (if height l > height r + 1 then (rotate td (Node l v h r) True, True)
      else if height l < height r - 1 then (rotate td (Node l v h r) False, True)
      else
        (let h' = (if height l < height r then height r else height l) + 1
         in if td_augment td = None \<and> h' = h then (Node l v h r, False)
            else (augment td (Node l v h' r), True)))"

text \<open>
  \<open>rebalance_path\<close> and \<open>rebalance_nopath\<close> walk up from a node, by the recorded path or by
  the parent pointers: both are the frames of the location.
\<close>

fun rebalance_path :: "('a, 'k) avl_treedef \<Rightarrow> 'a avl \<Rightarrow> 'a frame list \<Rightarrow> 'a avl" where
  "rebalance_path td node [] = fst (rebalance_one td node)"
| "rebalance_path td node ((dir, v, h, s) # c) =
     (case rebalance_one td node of
        (node', True) \<Rightarrow> rebalance_path td (mk dir v h node' s) c
      | (node', False) \<Rightarrow> plug node' ((dir, v, h, s) # c))"

section \<open>Lookup with a path\<close>

fun lookup :: "('a, 'k) avl_treedef \<Rightarrow> 'a avl \<Rightarrow> 'k \<Rightarrow> 'a option" where
  "lookup td Null key = None"
| "lookup td (Node l v h r) key =
     (let c = comparenk td v key
      in if c = 0 then Some v else if c \<le> 0 then lookup td r key else lookup td l key)"

fun lookup_path ::
  "('a, 'k) avl_treedef \<Rightarrow> 'a avl \<Rightarrow> 'k \<Rightarrow> 'a frame list \<Rightarrow> 'a loc" where
  "lookup_path td Null key p = (Null, p)"
| "lookup_path td (Node l v h r) key p =
     (let c = comparenk td v key
      in if c = 0 then (Node l v h r, p)
         else if c \<le> 0 then lookup_path td r key ((True, v, h, l) # p)
         else lookup_path td l key ((False, v, h, r) # p))"

text \<open>The do-while loop of \<open>ddsrt_avl_lookup_ipath\<close>: descend to a leaf, right on equality.\<close>

fun descend_ipath ::
  "('a, 'k) avl_treedef \<Rightarrow> 'a avl \<Rightarrow> 'k \<Rightarrow> 'a frame list \<Rightarrow> 'a frame list" where
  "descend_ipath td Null key p = p"
| "descend_ipath td (Node l v h r) key p =
     (if comparenk td v key \<le> 0 then descend_ipath td r key ((True, v, h, l) # p)
      else descend_ipath td l key ((False, v, h, r) # p))"

text \<open>The path is None when it has been invalidated (key present, no duplicates allowed).\<close>

definition lookup_ipath ::
  "('a, 'k) avl_treedef \<Rightarrow> 'a avl \<Rightarrow> 'k \<Rightarrow> 'a option \<times> 'a frame list option" where
  "lookup_ipath td t key =
     (case lookup_path td t key [] of
        (Null, p) \<Rightarrow> (None, Some p)
      | (node, p) \<Rightarrow>
          (onode node,
           if \<not> td_allowdups td then None else Some (descend_ipath td node key p)))"

section \<open>Insertion and deletion\<close>

definition insert_ipath :: "('a, 'k) avl_treedef \<Rightarrow> 'a \<Rightarrow> 'a frame list \<Rightarrow> 'a avl" where
  "insert_ipath td vnode p =
     (let node = augment td (Node Null vnode 1 Null)
      in case p of
           [] \<Rightarrow> node
         | (dir, v, h, s) # c \<Rightarrow> rebalance_path td (mk dir v h node s) c)"

text \<open>None: the assertion on the path fails, as the key is present and duplicates are not allowed.\<close>

definition avl_insert :: "('a, 'k) avl_treedef \<Rightarrow> 'a avl \<Rightarrow> 'a \<Rightarrow> 'a avl option" where
  "avl_insert td t vnode =
     map_option (insert_ipath td vnode) (snd (lookup_ipath td t (td_key td vnode)))"

text \<open>Insertion on the path that an earlier lookup of \<open>key\<close> has left.\<close>

definition insert_at :: "('a, 'k) avl_treedef \<Rightarrow> 'a avl \<Rightarrow> 'k \<Rightarrow> 'a \<Rightarrow> 'a avl option" where
  "insert_at td t key vnode = map_option (insert_ipath td vnode) (snd (lookup_ipath td t key))"

text \<open>\<open>subst = node->cs[0]; while (subst->cs[1]) subst = subst->cs[1]\<close>, with its path.\<close>

fun rightmost :: "'a avl \<Rightarrow> 'a frame list \<Rightarrow> 'a loc" where
  "rightmost Null p = (Null, p)"
| "rightmost (Node l v h r) p =
     (if r = Null then (Node l v h r, p) else rightmost r ((True, v, h, l) # p))"

text \<open>Augment and rebalance from \<open>whence\<close>, the node whose child has become \<open>t\<close>.\<close>

definition rebalance_whence :: "('a, 'k) avl_treedef \<Rightarrow> 'a avl \<Rightarrow> 'a frame list \<Rightarrow> 'a avl" where
  "rebalance_whence td t p =
     (case p of
        [] \<Rightarrow> t
      | (dir, v, h, s) # c \<Rightarrow> rebalance_path td (augment td (mk dir v h t s)) c)"

fun delete_generic :: "('a, 'k) avl_treedef \<Rightarrow> 'a loc \<Rightarrow> 'a avl option" where
  "delete_generic td (Null, p) = None"
| "delete_generic td (Node l v h r, p) =
     (if l = Null then Some (rebalance_whence td r p)
      else if r = Null then Some (rebalance_whence td l p)
      else
        (case rightmost l [] of
           (Node sl sv sh sr, q) \<Rightarrow> Some (rebalance_whence td sl (q @ (False, sv, h, r) # p))
         | (Null, q) \<Rightarrow> None))"

text \<open>Deletion of the node a pointer designates, the node being found by its key.\<close>

definition avl_delete :: "('a, 'k) avl_treedef \<Rightarrow> 'a avl \<Rightarrow> 'a \<Rightarrow> 'a avl option" where
  "avl_delete td t vnode = delete_generic td (lookup_path td t (td_key td vnode) [])"

definition swap_node :: "('a, 'k) avl_treedef \<Rightarrow> 'a avl \<Rightarrow> 'a \<Rightarrow> 'a \<Rightarrow> 'a avl option" where
  "swap_node td t vold vnew =
     (case lookup_path td t (td_key td vold) [] of
        (Null, p) \<Rightarrow> None
      | (Node l v h r, p) \<Rightarrow> Some (plug (augment td (Node l vnew h r)) p))"

text \<open>An assignment through a node pointer: user data changes, the tree structure does not.\<close>

definition write_node :: "('a, 'k) avl_treedef \<Rightarrow> 'a avl \<Rightarrow> 'a \<Rightarrow> 'a \<Rightarrow> 'a avl option" where
  "write_node td t vold vnew =
     (case lookup_path td t (td_key td vold) [] of
        (Null, p) \<Rightarrow> None
      | (Node l v h r, p) \<Rightarrow> Some (plug (Node l vnew h r) p))"

text \<open>\<open>ddsrt_avl_augment_update\<close>: recompute the summaries from a node up to the root.\<close>

fun augment_update :: "('a, 'k) avl_treedef \<Rightarrow> 'a loc \<Rightarrow> 'a avl" where
  "augment_update td (t, []) = augment td t"
| "augment_update td (t, (dir, v, h, s) # c) =
     augment_update td (mk dir v h (augment td t) s, c)"

section \<open>Neighbours and extrema\<close>

fun down_to :: "bool \<Rightarrow> 'a avl \<Rightarrow> 'a option" where
  "down_to dir Null = None"
| "down_to dir (Node l v h r) =
     (if cs dir (Node l v h r) = Null then Some v else down_to dir (if dir then r else l))"

definition find_extremum :: "'a avl \<Rightarrow> bool \<Rightarrow> 'a option" where
  "find_extremum t dir = down_to dir t"

definition find_min :: "'a avl \<Rightarrow> 'a option" where
  "find_min t = find_extremum t False"

definition find_max :: "'a avl \<Rightarrow> 'a option" where
  "find_max t = find_extremum t True"

text \<open>Up while coming from direction \<open>dir\<close>.\<close>

fun climb :: "bool \<Rightarrow> 'a frame list \<Rightarrow> 'a option" where
  "climb dir [] = None"
| "climb dir ((d, v, h, s) # c) = (if d = dir then climb dir c else Some v)"

definition find_neighbour :: "'a loc \<Rightarrow> bool \<Rightarrow> 'a option" where
  "find_neighbour n dir =
     (if cs dir (fst n) \<noteq> Null then down_to (\<not> dir) (cs dir (fst n)) else climb dir (snd n))"

definition find_pred :: "('a, 'k) avl_treedef \<Rightarrow> 'a avl \<Rightarrow> 'a option \<Rightarrow> 'a option" where
  "find_pred td t vnode =
     (case vnode of
        None \<Rightarrow> find_max t
      | Some v \<Rightarrow> find_neighbour (lookup_path td t (td_key td v) []) False)"

definition find_succ :: "('a, 'k) avl_treedef \<Rightarrow> 'a avl \<Rightarrow> 'a option \<Rightarrow> 'a option" where
  "find_succ td t vnode =
     (case vnode of
        None \<Rightarrow> find_min t
      | Some v \<Rightarrow> find_neighbour (lookup_path td t (td_key td v) []) True)"

definition is_empty :: "'a avl \<Rightarrow> bool" where
  "is_empty t = (t = Null)"

definition is_singleton :: "'a avl \<Rightarrow> bool" where
  "is_singleton t = (t \<noteq> Null \<and> height t = 1)"

section \<open>Lookup of the nearest key\<close>

text \<open>
  The four searches share the descent; on a hit they differ in the fixup. In trees that allow
  duplicates the fixup continues below the hit to reach the first or last of the equal keys.
\<close>

fun scan_eq :: "('a, 'k) avl_treedef \<Rightarrow> 'k \<Rightarrow> bool \<Rightarrow> 'a avl \<Rightarrow> 'a option \<Rightarrow> 'a option" where
  "scan_eq td key dir Null cand = cand"
| "scan_eq td key dir (Node l v h r) cand =
     (if comparenk td v key \<noteq> 0 then scan_eq td key dir (if dir then r else l) cand
      else scan_eq td key dir (if dir then l else r) (Some v))"

definition fixup_predsucceq ::
  "('a, 'k) avl_treedef \<Rightarrow> 'k \<Rightarrow> 'a avl \<Rightarrow> 'a option \<Rightarrow> bool \<Rightarrow> 'a option" where
  "fixup_predsucceq td key tmp cand dir =
     (if tmp = Null then cand
      else if \<not> td_allowdups td then onode tmp
      else scan_eq td key dir (cs (\<not> dir) tmp) (onode tmp))"

text \<open>\<open>near\<close> is the loop: the node where it stops and the candidate passed last.\<close>

fun near_pred :: "('a, 'k) avl_treedef \<Rightarrow> 'k \<Rightarrow> 'a avl \<Rightarrow> 'a option \<Rightarrow> 'a avl \<times> 'a option" where
  "near_pred td key Null cand = (Null, cand)"
| "near_pred td key (Node l v h r) cand =
     (let c = comparenk td v key
      in if c = 0 then (Node l v h r, cand)
         else if c < 0 then near_pred td key r (Some v)
         else near_pred td key l cand)"

fun near_succ :: "('a, 'k) avl_treedef \<Rightarrow> 'k \<Rightarrow> 'a avl \<Rightarrow> 'a option \<Rightarrow> 'a avl \<times> 'a option" where
  "near_succ td key Null cand = (Null, cand)"
| "near_succ td key (Node l v h r) cand =
     (let c = comparenk td v key
      in if c = 0 then (Node l v h r, cand)
         else if c > 0 then near_succ td key l (Some v)
         else near_succ td key r cand)"

definition lookup_pred_eq :: "('a, 'k) avl_treedef \<Rightarrow> 'a avl \<Rightarrow> 'k \<Rightarrow> 'a option" where
  "lookup_pred_eq td t key =
     (case near_pred td key t None of (tmp, cand) \<Rightarrow> fixup_predsucceq td key tmp cand False)"

definition lookup_succ_eq :: "('a, 'k) avl_treedef \<Rightarrow> 'a avl \<Rightarrow> 'k \<Rightarrow> 'a option" where
  "lookup_succ_eq td t key =
     (case near_succ td key t None of (tmp, cand) \<Rightarrow> fixup_predsucceq td key tmp cand True)"

fun scan_ne :: "('a, 'k) avl_treedef \<Rightarrow> 'k \<Rightarrow> bool \<Rightarrow> 'a avl \<Rightarrow> 'a option \<Rightarrow> 'a option" where
  "scan_ne td key dir Null cand = cand"
| "scan_ne td key dir (Node l v h r) cand =
     (if comparenk td v key \<noteq> 0 then scan_ne td key dir (if dir then l else r) (Some v)
      else scan_ne td key dir (if dir then r else l) cand)"

definition fixup_predsucc ::
  "('a, 'k) avl_treedef \<Rightarrow> 'k \<Rightarrow> 'a avl \<Rightarrow> 'a option \<Rightarrow> bool \<Rightarrow> 'a option" where
  "fixup_predsucc td key tmp cand dir =
     (if tmp = Null \<or> cs dir tmp = Null then cand
      else if \<not> td_allowdups td then down_to (\<not> dir) (cs dir tmp)
      else scan_ne td key dir (cs dir tmp) cand)"

definition lookup_pred :: "('a, 'k) avl_treedef \<Rightarrow> 'a avl \<Rightarrow> 'k \<Rightarrow> 'a option" where
  "lookup_pred td t key =
     (case near_pred td key t None of (tmp, cand) \<Rightarrow> fixup_predsucc td key tmp cand False)"

definition lookup_succ :: "('a, 'k) avl_treedef \<Rightarrow> 'a avl \<Rightarrow> 'k \<Rightarrow> 'a option" where
  "lookup_succ td t key =
     (case near_succ td key t None of (tmp, cand) \<Rightarrow> fixup_predsucc td key tmp cand True)"

section \<open>Iteration and walks\<close>

text \<open>
  The iterator: the stack \<open>todo\<close> with its top first (\<open>todop\<close>) and the pending right subtree.
  An empty stack stands for the NULL that the C code pushes at the end.
\<close>

record 'a avl_iter =
  it_todo :: "'a avl list"
  it_right :: "'a avl"

fun downleft :: "'a avl \<Rightarrow> 'a avl list \<Rightarrow> 'a avl list" where
  "downleft Null todo = todo"
| "downleft (Node l v h r) todo = downleft l (Node l v h r # todo)"

definition iter_top :: "'a avl_iter \<Rightarrow> 'a option" where
  "iter_top it = (case it_todo it of [] \<Rightarrow> None | n # _ \<Rightarrow> onode n)"

definition mk_iter :: "'a avl list \<Rightarrow> 'a avl_iter" where
  "mk_iter todo = \<lparr>it_todo = todo, it_right = (case todo of [] \<Rightarrow> Null | n # _ \<Rightarrow> cs True n)\<rparr>"

definition iter_first :: "'a avl \<Rightarrow> 'a avl_iter" where
  "iter_first t = mk_iter (downleft t [])"

text \<open>
  \<open>todop-- > todo+1 && right == NULL\<close>: pop; with entries left and no right subtree the new
  top is next; else the right subtree is pushed and followed down its left spine. A NULL
  pushed on a non-empty stack cannot happen, on an empty stack it ends the iteration.
\<close>

definition iter_next :: "'a avl_iter \<Rightarrow> 'a avl_iter" where
  "iter_next it =
     (let rest = tl (it_todo it)
      in if rest \<noteq> [] \<and> it_right it = Null then it\<lparr>it_todo := rest, it_right := cs True (hd rest)\<rparr>
         else mk_iter (downleft (it_right it) rest))"

text \<open>\<open>for (n = first; n; n = next)\<close>, with fuel for the number of steps.\<close>

fun iter_collect :: "nat \<Rightarrow> 'a avl_iter \<Rightarrow> 'a list option" where
  "iter_collect 0 it = None"
| "iter_collect (Suc k) it =
     (case iter_top it of
        None \<Rightarrow> Some []
      | Some v \<Rightarrow> map_option (\<lambda>vs. v # vs) (iter_collect k (iter_next it)))"

end
