(* ===== verification/Avl_Balance.thy ===== *)
theory Avl_Balance
  imports Avl_Tree
begin

text \<open>
  The balance invariant of the AVL tree: every operation keeps the stored heights right and
  sibling heights at most one apart, so the arrays of \<open>DDSRT_AVL_MAX_TREEHEIGHT\<close> entries that
  the C code uses for paths and iterators cannot overflow.
\<close>

section \<open>The invariant\<close>

fun avl :: "'a avl \<Rightarrow> bool" where
  "avl Null = True"
| "avl (Node l v h r) =
     (avl l \<and> avl r \<and> h = max (height l) (height r) + 1 \<and>
      height l \<le> height r + 1 \<and> height r \<le> height l + 1)"

lemma cs_mk [simp]:
  "cs dir (mk dir v h d nd) = d" "cs (\<not> dir) (mk dir v h d nd) = nd"
  by (auto simp: mk_def)

lemma height_mk [simp]: "height (mk dir v h d nd) = h"
  by (simp add: mk_def)

lemma mk_neq_Null [simp]: "mk dir v h d nd \<noteq> Null" "Null \<noteq> mk dir v h d nd"
  by (auto simp: mk_def)

lemma avl_mk [simp]:
  "avl (mk dir v h d nd) \<longleftrightarrow>
     avl d \<and> avl nd \<and> h = max (height d) (height nd) + 1 \<and>
     height d \<le> height nd + 1 \<and> height nd \<le> height d + 1"
  by (auto simp: mk_def)

lemma height_augment [simp]: "height (augment td t) = height t"
  by (cases t) (auto split: option.split)

lemma avl_augment [simp]: "avl (augment td t) = avl t"
  by (cases t) (auto split: option.split)

lemma augment_eq_Null [simp]: "augment td t = Null \<longleftrightarrow> t = Null"
  by (cases t) (auto split: option.split)

lemma avl_height_nonneg: "avl t \<Longrightarrow> 0 \<le> height t"
  by (induction t) auto

lemma avl_height_0: "avl t \<Longrightarrow> height t = 0 \<longleftrightarrow> t = Null"
  by (cases t) (auto dest: avl_height_nonneg)

lemma avl_height_pos: "avl t \<Longrightarrow> t \<noteq> Null \<Longrightarrow> 1 \<le> height t"
  using avl_height_nonneg [of t] avl_height_0 [of t] by linarith

lemma node_as_mk: "Node l v h r = mk dir v h (if dir then r else l) (if dir then l else r)"
  by (simp add: mk_def)

lemma node_shape:
  assumes "t \<noteq> Null"
  obtains v d nd where "t = mk dir v (height t) d nd"
proof (cases t)
  case (Node l v h r)
  then have "t = mk dir v (height t) (if dir then r else l) (if dir then l else r)"
    by (simp add: mk_def)
  with that show ?thesis by blast
qed (use assms in simp)

section \<open>Rotations\<close>

lemma rotate_single_mk:
  "rotate_single td (mk dir v h d (mk dir w k ndd ndnd)) dir =
     (let h' = (if ndd = Null then 1 else 1 + height ndd)
      in augment td (mk dir w (h' + 1) (augment td (mk dir v h' d ndd)) ndnd))"
  by (cases dir) (simp_all add: rotate_single_def mk_def Let_def del: augment.simps)

lemma rotate_double_mk:
  "rotate_double td (mk dir v h d (mk dir w k (mk dir u m a b) ndnd)) dir =
     augment td (mk dir u k (augment td (mk dir v m d a)) (augment td (mk dir w m b ndnd)))"
  by (cases dir) (simp_all add: rotate_double_def mk_def Let_def del: augment.simps)

lemma rotate_mk:
  "rotate td (mk dir v h d nd) dir =
     (if height (cs (\<not> dir) nd) < height (cs dir nd)
      then rotate_double td (mk dir v h d nd) dir else rotate_single td (mk dir v h d nd) dir)"
  by (simp add: rotate_def)

lemma avl_rotate:
  assumes "avl d" "avl nd" "height nd = height d + 2"
  shows "avl (rotate td (mk dir v h d nd) dir) \<and>
         (height (rotate td (mk dir v h d nd) dir) = height nd \<or>
          height (rotate td (mk dir v h d nd) dir) = height nd + 1)"
proof -
  have d: "0 \<le> height d" using assms(1) by (rule avl_height_nonneg)
  with assms have "nd \<noteq> Null" by auto
  then obtain w ndd ndnd where nd: "nd = mk dir w (height nd) ndd ndnd"
    by (rule node_shape)
  with assms(2) have sub: "avl ndd" "avl ndnd" "height nd = max (height ndd) (height ndnd) + 1"
    "height ndd \<le> height ndnd + 1" "height ndnd \<le> height ndd + 1"
    by (metis avl_mk)+
  show ?thesis
  proof (cases "height ndnd < height ndd")
    case True
    with d assms(3) sub have "ndd \<noteq> Null" by auto
    then obtain u a b where ndd: "ndd = mk dir u (height ndd) a b"
      by (rule node_shape)
    with sub(1) have sub': "avl a" "avl b" "height ndd = max (height a) (height b) + 1"
      "height a \<le> height b + 1" "height b \<le> height a + 1"
      by (metis avl_mk)+
    have "rotate td (mk dir v h d nd) dir =
        augment td (mk dir u (height nd) (augment td (mk dir v (height ndd) d a))
          (augment td (mk dir w (height ndd) b ndnd)))"
    proof -
      have "rotate td (mk dir v h d nd) dir = rotate_double td (mk dir v h d nd) dir"
        using True nd by (metis cs_mk rotate_mk)
      also have "\<dots> = augment td (mk dir u (height nd) (augment td (mk dir v (height ndd) d a))
          (augment td (mk dir w (height ndd) b ndnd)))"
        by (metis nd ndd rotate_double_mk)
      finally show ?thesis .
    qed
    moreover have "avl d" "avl a" "avl b" "avl ndnd" using assms sub sub' by auto
    ultimately show ?thesis using True d assms(3) sub sub' by auto
  next
    case False
    have "rotate td (mk dir v h d nd) dir = rotate_single td (mk dir v h d nd) dir"
      using False nd by (metis cs_mk rotate_mk)
    also have "\<dots> = (let h' = (if ndd = Null then 1 else 1 + height ndd)
       in augment td (mk dir w (h' + 1) (augment td (mk dir v h' d ndd)) ndnd))"
      by (metis nd rotate_single_mk)
    also have "\<dots> = augment td (mk dir w (height ndd + 2)
        (augment td (mk dir v (height ndd + 1) d ndd)) ndnd)"
      by (cases "ndd = Null") (simp_all add: Let_def add.commute)
    finally show ?thesis using False d assms sub by auto
  qed
qed

section \<open>Rebalancing\<close>

text \<open>
  One step: the subtrees are balanced and at most two apart. The result is balanced, and its
  height is at most one away from the height that a balanced node would have had before one
  of the subtrees changed by one.
\<close>

lemma rebalance_one_avl:
  assumes "avl l" "avl r" "\<bar>height l - height r\<bar> \<le> 2"
    and "rebalance_one td (Node l v h r) = (t', go)"
  shows "avl t'"
    and "height t' = max (height l) (height r) + 1 \<or>
         \<bar>height l - height r\<bar> = 2 \<and> height t' = max (height l) (height r)"
    and "\<not> go \<Longrightarrow> height t' = h"
proof -
  consider (left) "height l > height r + 1" | (right) "height l < height r - 1"
    | (flat) "height l \<le> height r + 1" "height l \<ge> height r - 1" by linarith
  then have "avl t' \<and>
    (height t' = max (height l) (height r) + 1 \<or>
         \<bar>height l - height r\<bar> = 2 \<and> height t' = max (height l) (height r)) \<and>
    (\<not> go \<longrightarrow> height t' = h)"
  proof cases
    case left
    with assms have "height l = height r + 2" by linarith
    from avl_rotate [OF assms(2,1) this, of td True v h] show ?thesis
      using left assms(4) \<open>height l = height r + 2\<close> by (auto simp: mk_def)
  next
    case right
    with assms have "height r = height l + 2" by linarith
    from avl_rotate [OF assms(1,2) this, of td False v h] show ?thesis
      using right assms(4) \<open>height r = height l + 2\<close> by (auto simp: mk_def)
  next
    case flat
    then show ?thesis using assms
      by (auto simp: Let_def max_def split: if_splits option.splits)
  qed
  then show "avl t'"
    and "height t' = max (height l) (height r) + 1 \<or>
         \<bar>height l - height r\<bar> = 2 \<and> height t' = max (height l) (height r)"
    and "\<not> go \<Longrightarrow> height t' = h"
    by auto
qed

text \<open>A subtree replaced by a balanced one of the same height leaves the tree balanced.\<close>

lemma avl_plug:
  "avl (plug t c) \<Longrightarrow> avl t"
  by (induction t c rule: plug.induct) auto

lemma avl_plug_same:
  "avl (plug t c) \<Longrightarrow> avl t' \<Longrightarrow> height t' = height t \<Longrightarrow> avl (plug t' c)"
proof (induction t c arbitrary: t' rule: plug.induct)
  case (2 t dir v h s c)
  have "avl (mk dir v h t s)" using 2(2) avl_plug [of "mk dir v h t s" c] by simp
  with 2 show ?case by simp
qed simp

text \<open>
  The walk up: a subtree of a balanced tree is replaced by a balanced one whose height differs
  by at most one, and rebalancing starts at the parent. The whole tree is balanced again.
\<close>

definition up :: "('a, 'k) avl_treedef \<Rightarrow> 'a avl \<Rightarrow> 'a frame list \<Rightarrow> 'a avl" where
  "up td t p =
     (case p of [] \<Rightarrow> t | (dir, v, h, s) # c \<Rightarrow> rebalance_path td (mk dir v h t s) c)"

lemma up_simps [simp]:
  "up td t [] = t"
  "up td t ((dir, v, h, s) # c) = rebalance_path td (mk dir v h t s) c"
  by (simp_all add: up_def)

lemma rebalance_path_alt:
  "rebalance_path td node c =
     (case rebalance_one td node of (node', go) \<Rightarrow> if go then up td node' c else plug node' c)"
proof (cases c)
  case (Cons f c')
  then show ?thesis by (cases f) (auto split: prod.split bool.split)
qed (auto split: prod.split)

lemma rebalance_one_mk:
  assumes "avl d" "avl nd" "\<bar>height d - height nd\<bar> \<le> 2"
    and "rebalance_one td (mk dir v h d nd) = (t', go)"
  shows "avl t'"
    and "height t' = max (height d) (height nd) + 1 \<or>
         \<bar>height d - height nd\<bar> = 2 \<and> height t' = max (height d) (height nd)"
    and "\<not> go \<Longrightarrow> height t' = h"
proof -
  have "avl t' \<and> (height t' = max (height d) (height nd) + 1 \<or>
         \<bar>height d - height nd\<bar> = 2 \<and> height t' = max (height d) (height nd)) \<and>
      (\<not> go \<longrightarrow> height t' = h)"
  proof (cases dir)
    case True
    then have "rebalance_one td (Node nd v h d) = (t', go)" using assms(4) by (simp add: mk_def)
    moreover have "\<bar>height nd - height d\<bar> \<le> 2" using assms(3) by linarith
    ultimately show ?thesis
      using rebalance_one_avl [OF assms(2,1)] by (metis abs_minus_commute max.commute)
  next
    case False
    then have "rebalance_one td (Node d v h nd) = (t', go)" using assms(4) by (simp add: mk_def)
    then show ?thesis using rebalance_one_avl [OF assms(1-3)] by metis
  qed
  then show "avl t'"
    and "height t' = max (height d) (height nd) + 1 \<or>
         \<bar>height d - height nd\<bar> = 2 \<and> height t' = max (height d) (height nd)"
    and "\<not> go \<Longrightarrow> height t' = h"
    by auto
qed

lemma avl_up:
  "avl (plug t c) \<Longrightarrow> avl t' \<Longrightarrow> \<bar>height t' - height t\<bar> \<le> 1 \<Longrightarrow> avl (up td t' c)"
proof (induction t c arbitrary: t' rule: plug.induct)
  case (1 t)
  then show ?case by simp
next
  case (2 t dir v h s c)
  obtain t'' go where r: "rebalance_one td (mk dir v h t' s) = (t'', go)"
    by (cases "rebalance_one td (mk dir v h t' s)")
  have old: "avl (mk dir v h t s)" using 2(2) avl_plug [of "mk dir v h t s" c] by simp
  then have "avl s" "\<bar>height t' - height s\<bar> \<le> 2" using 2(4) by auto
  note one = rebalance_one_mk [OF 2(3) this r]
  have "\<bar>height t'' - height (mk dir v h t s)\<bar> \<le> 1"
    using one(2) old 2(4) by auto
  then have "go \<Longrightarrow> avl (up td t'' c)"
    using 2(1) [of t''] 2(2) one(1) by simp
  moreover have "\<not> go \<Longrightarrow> avl (plug t'' c)"
    using 2(2) one(1,3) by (auto intro: avl_plug_same [of "mk dir v h t s"])
  ultimately show ?case by (auto simp: rebalance_path_alt r)
qed

text \<open>An extra augment at the start of the walk changes no height.\<close>

lemma rebalance_whence_up:
  "rebalance_whence td t p =
     (case p of [] \<Rightarrow> t
      | (dir, v, h, s) # c \<Rightarrow> rebalance_path td (augment td (mk dir v h t s)) c)"
  by (simp add: rebalance_whence_def)

lemma augment_mk_shape:
  obtains v' where "augment td (mk dir v h d nd) = mk dir v' h d nd"
proof -
  have "\<exists>v'. augment td (mk dir v h d nd) = mk dir v' h d nd"
    by (cases dir) (auto simp: mk_def split: option.split)
  with that show ?thesis by blast
qed

lemma avl_frame_data: "avl (plug t ((dir, v, h, s) # c)) \<Longrightarrow> avl (plug t ((dir, v', h, s) # c))"
proof -
  assume a: "avl (plug t ((dir, v, h, s) # c))"
  then have "avl (mk dir v h t s)" using avl_plug [of "mk dir v h t s" c] by simp
  then have "avl (mk dir v' h t s)" by simp
  with a show ?thesis using avl_plug_same [of "mk dir v h t s" c "mk dir v' h t s"] by simp
qed

lemma avl_rebalance_whence:
  assumes "avl (plug t c)" "avl t'" "\<bar>height t' - height t\<bar> \<le> 1"
  shows "avl (rebalance_whence td t' c)"
proof (cases c)
  case (Cons f c')
  obtain dir v h s where f: "f = (dir, v, h, s)" by (cases f)
  obtain v' where v': "augment td (mk dir v h t' s) = mk dir v' h t' s"
    by (rule augment_mk_shape)
  have "avl (plug t ((dir, v', h, s) # c'))"
    using assms(1) unfolding Cons f by (rule avl_frame_data)
  from avl_up [OF this assms(2,3)] show ?thesis
    by (simp add: Cons f rebalance_whence_def v')
qed (use assms in \<open>simp add: rebalance_whence_def\<close>)

section \<open>Insertion and deletion keep the balance\<close>

lemma plug_append: "plug t (p @ q) = plug (plug t p) q"
  by (induction t p rule: plug.induct) auto

lemma lookup_path_plug:
  "lookup_path td t key p = (t', p') \<Longrightarrow> plug t' p' = plug t p"
  by (induction td t key p rule: lookup_path.induct) (auto simp: Let_def mk_def split: if_splits)

lemma descend_ipath_plug: "plug Null (descend_ipath td t key p) = plug t p"
  by (induction td t key p rule: descend_ipath.induct) (auto simp: mk_def)

lemma lookup_ipath_plug:
  assumes "snd (lookup_ipath td t key) = Some p"
  shows "plug Null p = t"
proof -
  obtain n q where lp: "lookup_path td t key [] = (n, q)"
    by (cases "lookup_path td t key []")
  have "plug n q = t" using lookup_path_plug [OF lp] by simp
  with assms lp show ?thesis
    by (cases n) (auto simp: lookup_ipath_def descend_ipath_plug simp del: descend_ipath.simps
        split: if_splits)
qed

lemma insert_ipath_up: "insert_ipath td v p = up td (augment td (Node Null v 1 Null)) p"
  by (simp add: insert_ipath_def up_def Let_def)

lemma avl_insert_ipath: "avl (plug Null p) \<Longrightarrow> avl (insert_ipath td v p)"
proof -
  assume a: "avl (plug Null p)"
  have "avl (augment td (Node Null v 1 Null))" unfolding avl_augment by simp
  moreover have "\<bar>height (augment td (Node Null v 1 Null)) - height Null\<bar> \<le> 1"
    unfolding height_augment by simp
  ultimately show ?thesis unfolding insert_ipath_up by (rule avl_up [OF a])
qed

lemma avl_avl_insert: "avl t \<Longrightarrow> avl_insert td t v = Some t' \<Longrightarrow> avl t'"
  by (auto simp: avl_insert_def lookup_ipath_plug avl_insert_ipath)

lemma rightmost_plug: "rightmost t p = (t', p') \<Longrightarrow> plug t' p' = plug t p"
  by (induction t p rule: rightmost.induct) (auto simp: mk_def split: if_splits)

lemma rightmost_shape:
  assumes "t \<noteq> Null"
  obtains sl sv sh p' where "rightmost t p = (Node sl sv sh Null, p')"
proof -
  have "t \<noteq> Null \<Longrightarrow> \<exists>sl sv sh p'. rightmost t p = (Node sl sv sh Null, p')"
    by (induction t p rule: rightmost.induct) auto
  with assms that show ?thesis by blast
qed

lemma avl_delete_generic:
  assumes "avl (plug n p)" and "delete_generic td (n, p) = Some t'"
  shows "avl t'"
proof (cases n)
  case (Node l v h r)
  have n: "avl n" using assms(1) by (rule avl_plug)
  show ?thesis
  proof (cases "l = Null \<or> r = Null")
    case True
    define m where "m = (if l = Null then r else l)"
    have "avl m" and "\<bar>height m - height n\<bar> \<le> 1"
      using n Node True avl_height_nonneg [of l] avl_height_nonneg [of r]
      by (auto simp: m_def)
    moreover have "t' = rebalance_whence td m p"
      using assms(2) Node True by (auto simp: m_def split: if_splits)
    ultimately show ?thesis using avl_rebalance_whence [OF assms(1)] by simp
  next
    case False
    then obtain sl sv sh q where rm: "rightmost l [] = (Node sl sv sh Null, q)"
      using rightmost_shape by metis
    have pl: "plug (Node sl sv sh Null) q = l"
      using rightmost_plug [OF rm] by simp
    have t': "t' = rebalance_whence td sl (q @ (False, sv, h, r) # p)"
      using assms(2) Node False rm by simp
    have "avl (plug l ((False, sv, h, r) # p))"
      using assms(1) Node avl_frame_data [of l False v h r p sv] by (simp add: mk_def)
    then have whole: "avl (plug (Node sl sv sh Null) (q @ (False, sv, h, r) # p))"
      by (simp add: plug_append pl)
    then have "avl (Node sl sv sh Null)" by (rule avl_plug)
    then have "avl sl" and "\<bar>height sl - height (Node sl sv sh Null)\<bar> \<le> 1"
      using avl_height_nonneg [of sl] by auto
    with whole show ?thesis unfolding t' by (rule avl_rebalance_whence)
  qed
qed (use assms in simp)

lemma avl_avl_delete:
  assumes "avl t" "avl_delete td t v = Some t'"
  shows "avl t'"
proof -
  obtain n p where lp: "lookup_path td t (td_key td v) [] = (n, p)"
    by (cases "lookup_path td t (td_key td v) []")
  have "avl (plug n p)" using lookup_path_plug [OF lp] assms(1) by simp
  with assms(2) lp show ?thesis by (auto simp: avl_delete_def intro: avl_delete_generic)
qed

text \<open>Replacing the user data of a node in place.\<close>

lemma avl_plug_data:
  assumes "avl (plug (Node l v h r) p)"
  shows "avl (plug (Node l v' h r) p)" and "avl (plug (augment td (Node l v' h r)) p)"
proof -
  have n: "avl (Node l v h r)" using assms by (rule avl_plug)
  then have "avl (Node l v' h r)" by simp
  then show "avl (plug (Node l v' h r) p)" by (rule avl_plug_same [OF assms]) simp
  have "avl (augment td (Node l v' h r))" unfolding avl_augment using n by simp
  then show "avl (plug (augment td (Node l v' h r)) p)"
    by (rule avl_plug_same [OF assms]) (unfold height_augment, simp)
qed

lemma avl_swap_node:
  assumes "avl t" "swap_node td t v v' = Some t'"
  shows "avl t'"
proof -
  obtain n p where lp: "lookup_path td t (td_key td v) [] = (n, p)"
    by (cases "lookup_path td t (td_key td v) []")
  have "avl (plug n p)" using lookup_path_plug [OF lp] assms(1) by simp
  with assms(2) lp show ?thesis
    by (cases n) (auto simp: swap_node_def simp del: augment.simps intro: avl_plug_data)
qed

lemma avl_write_node:
  assumes "avl t" "write_node td t v v' = Some t'"
  shows "avl t'"
proof -
  obtain n p where lp: "lookup_path td t (td_key td v) [] = (n, p)"
    by (cases "lookup_path td t (td_key td v) []")
  have "avl (plug n p)" using lookup_path_plug [OF lp] assms(1) by simp
  with assms(2) lp show ?thesis
    by (cases n) (auto simp: write_node_def intro: avl_plug_data)
qed

end
