(* ===== verification/Avl_Order.thy ===== *)
theory Avl_Order
  imports Avl_Balance
begin

text \<open>
  The in-order contents of the AVL tree under every operation, and the lookups against their
  specification on the in-order list, with and without duplicate keys and augmentation.
\<close>

section \<open>Contents under rotations and rebalancing\<close>

text \<open>
  An augment function recomputes a summary stored in the user data. \<open>keeps td core\<close>: it leaves
  the part \<open>core\<close> of the user data alone.
\<close>

definition keeps :: "('a, 'k) avl_treedef \<Rightarrow> ('a \<Rightarrow> 'b) \<Rightarrow> bool" where
  "keeps td core \<longleftrightarrow> (\<forall>f v a b. td_augment td = Some f \<longrightarrow> core (f v a b) = core v)"

lemma keeps_no_augment [simp]: "td_augment td = None \<Longrightarrow> keeps td core"
  by (simp add: keeps_def)

lemma inorder_mk:
  "inorder (mk dir v h d nd) = (if dir then inorder nd @ v # inorder d else inorder d @ v # inorder nd)"
  by (simp add: mk_def)

lemma inorder_augment:
  "keeps td core \<Longrightarrow> map core (inorder (augment td t)) = map core (inorder t)"
  by (cases t) (auto simp: keeps_def split: option.split)

lemma inorder_rotate_single:
  "keeps td core \<Longrightarrow> map core (inorder (rotate_single td t dir)) = map core (inorder t)"
  by (cases t; cases "cs (\<not> dir) t"; cases dir)
     (auto simp: rotate_single_def Let_def inorder_augment inorder_mk simp del: augment.simps)

lemma inorder_rotate_double:
  "keeps td core \<Longrightarrow> map core (inorder (rotate_double td t dir)) = map core (inorder t)"
  by (cases t; cases "cs (\<not> dir) t"; cases "cs dir (cs (\<not> dir) t)"; cases dir)
     (auto simp: rotate_double_def Let_def inorder_augment inorder_mk simp del: augment.simps)

lemma inorder_rotate:
  "keeps td core \<Longrightarrow> map core (inorder (rotate td t dir)) = map core (inorder t)"
  by (simp add: rotate_def Let_def inorder_rotate_single inorder_rotate_double)

lemma inorder_rebalance_one:
  "keeps td core \<Longrightarrow> map core (inorder (fst (rebalance_one td t))) = map core (inorder t)"
  by (cases t) (auto simp: Let_def inorder_rotate inorder_augment simp del: augment.simps)

text \<open>What a path holds to the left and to the right of its hole.\<close>

fun lctx :: "'a frame list \<Rightarrow> 'a list" where
  "lctx [] = []"
| "lctx ((dir, v, h, s) # c) = lctx c @ (if dir then inorder s @ [v] else [])"

fun rctx :: "'a frame list \<Rightarrow> 'a list" where
  "rctx [] = []"
| "rctx ((dir, v, h, s) # c) = (if dir then [] else v # inorder s) @ rctx c"

lemma inorder_plug: "inorder (plug t c) = lctx c @ inorder t @ rctx c"
  by (induction t c rule: plug.induct) (auto simp: inorder_mk)

lemma lctx_append: "lctx (p @ q) = lctx q @ lctx p"
  by (induction p rule: lctx.induct) auto

lemma rctx_append: "rctx (p @ q) = rctx p @ rctx q"
  by (induction p rule: rctx.induct) auto

lemma inorder_rebalance_path:
  assumes "keeps td core"
  shows "map core (inorder (rebalance_path td t c)) = map core (lctx c @ inorder t @ rctx c)"
  using assms
proof (induction td t c rule: rebalance_path.induct)
  case (1 td node)
  then show ?case by (simp add: inorder_rebalance_one)
next
  case (2 td node dir v h s c)
  have one: "map core (inorder (fst (rebalance_one td node))) = map core (inorder node)"
    using 2(2) by (rule inorder_rebalance_one)
  show ?case
  proof (cases "rebalance_one td node")
    case (Pair node' go)
    with one 2 show ?thesis by (cases go) (auto simp: inorder_plug inorder_mk)
  qed
qed

lemma inorder_up:
  "keeps td core \<Longrightarrow> map core (inorder (up td t c)) = map core (lctx c @ inorder t @ rctx c)"
  by (cases c) (auto simp: up_def inorder_rebalance_path inorder_mk)

lemma inorder_rebalance_whence:
  assumes "keeps td core"
  shows "map core (inorder (rebalance_whence td t c)) = map core (lctx c @ inorder t @ rctx c)"
proof (cases c)
  case (Cons f c')
  obtain dir v h s where f: "f = (dir, v, h, s)" by (cases f)
  have "map core (inorder (augment td (mk dir v h t s))) = map core (inorder (mk dir v h t s))"
    using assms by (rule inorder_augment)
  then show ?thesis
    using assms by (auto simp: Cons f rebalance_whence_def inorder_rebalance_path inorder_mk
        simp del: augment.simps)
qed (simp add: rebalance_whence_def)

lemma inorder_insert_ipath:
  assumes "keeps td core"
  shows "map core (inorder (insert_ipath td v p)) = map core (lctx p @ v # rctx p)"
  using inorder_up [OF assms] inorder_augment [OF assms, of "Node Null v 1 Null"]
  by (simp add: insert_ipath_up del: augment.simps)

lemma inorder_delete_generic:
  assumes "keeps td core" and "delete_generic td (Node l v h r, p) = Some t'"
  shows "map core (inorder t') = map core (lctx p @ inorder l @ inorder r @ rctx p)"
proof (cases "l = Null \<or> r = Null")
  case True
  with assms show ?thesis by (auto simp: inorder_rebalance_whence split: if_splits)
next
  case False
  then obtain sl sv sh q where rm: "rightmost l [] = (Node sl sv sh Null, q)"
    using rightmost_shape by metis
  then have "plug (Node sl sv sh Null) q = l"
    using rightmost_plug [OF rm] by simp
  then have l: "inorder l = lctx q @ inorder sl @ sv # rctx q"
    using inorder_plug [of "Node sl sv sh Null" q] by simp
  have "rctx q = []"
  proof -
    have "rctx p = [] \<Longrightarrow> rightmost t p = (t', p') \<Longrightarrow> rctx p' = []" for t p and t' :: "'a avl" and p'
      by (induction t p rule: rightmost.induct) (auto split: if_splits)
    with rm show ?thesis by (metis rctx.simps(1))
  qed
  with l assms False rm show ?thesis
    by (auto simp: inorder_rebalance_whence lctx_append rctx_append)
qed

section \<open>Search paths\<close>

text \<open>The comparison function of a tree definition agrees with the order of the keys.\<close>

definition orders :: "('a, 'k::linorder) avl_treedef \<Rightarrow> bool" where
  "orders td \<longleftrightarrow> (\<forall>a b. (td_comparekk td a b < 0 \<longleftrightarrow> a < b) \<and> (td_comparekk td a b = 0 \<longleftrightarrow> a = b))"

lemma comparenk_simps:
  assumes "orders td"
  shows "comparenk td v k = 0 \<longleftrightarrow> td_key td v = k"
    and "comparenk td v k < 0 \<longleftrightarrow> td_key td v < k"
    and "comparenk td v k \<le> 0 \<longleftrightarrow> td_key td v \<le> k"
    and "0 < comparenk td v k \<longleftrightarrow> k < td_key td v"
proof -
  have a: "comparenk td v k = 0 \<longleftrightarrow> td_key td v = k" "comparenk td v k < 0 \<longleftrightarrow> td_key td v < k"
    using assms by (auto simp: orders_def comparenk_def)
  then show "comparenk td v k = 0 \<longleftrightarrow> td_key td v = k"
    and "comparenk td v k < 0 \<longleftrightarrow> td_key td v < k" by auto
  show "comparenk td v k \<le> 0 \<longleftrightarrow> td_key td v \<le> k"
    using a by (auto simp: order_le_less)
  then show "0 < comparenk td v k \<longleftrightarrow> k < td_key td v" by (auto simp: not_le [symmetric])
qed

lemma lookup_path_keys:
  assumes "orders td" "weakly_sorted_by (td_key td) (inorder t)"
    and "\<forall>x\<in>set (lctx p). td_key td x < k" "\<forall>x\<in>set (rctx p). k < td_key td x"
    and "lookup_path td t k p = (n, q)"
  shows "(\<forall>x\<in>set (lctx q). td_key td x < k) \<and> (\<forall>x\<in>set (rctx q). k < td_key td x) \<and>
         (\<forall>l v h r. n = Node l v h r \<longrightarrow> td_key td v = k)"
  using assms
proof (induction t arbitrary: p)
  case Null
  then show ?case by simp
next
  case (Node l v h r)
  note c = comparenk_simps [OF Node.prems(1)]
  have sl: "weakly_sorted_by (td_key td) (inorder l)" and sr: "weakly_sorted_by (td_key td) (inorder r)"
    and lv: "\<forall>x\<in>set (inorder l). td_key td x \<le> td_key td v"
    and vr: "\<forall>x\<in>set (inorder r). td_key td v \<le> td_key td x"
    using Node.prems(2) by auto
  consider "td_key td v = k" | "td_key td v < k" | "k < td_key td v" by force
  then show ?case
  proof cases
    case 1
    then show ?thesis using Node.prems(3-5) by (auto simp: c)
  next
    case 2
    show ?thesis
    proof (rule Node.IH(2) [OF Node.prems(1) sr])
      show "\<forall>x\<in>set (lctx ((True, v, h, l) # p)). td_key td x < k"
        using Node.prems(3) lv 2 by (auto intro: le_less_trans)
      show "\<forall>x\<in>set (rctx ((True, v, h, l) # p)). k < td_key td x"
        using Node.prems(4) by simp
      show "lookup_path td r k ((True, v, h, l) # p) = (n, q)"
        using Node.prems(5) 2 by (auto simp: Let_def c split: if_splits)
    qed
  next
    case 3
    show ?thesis
    proof (rule Node.IH(1) [OF Node.prems(1) sl])
      show "\<forall>x\<in>set (lctx ((False, v, h, r) # p)). td_key td x < k"
        using Node.prems(3) by simp
      show "\<forall>x\<in>set (rctx ((False, v, h, r) # p)). k < td_key td x"
        using Node.prems(4) vr 3 by (auto intro: less_le_trans)
      show "lookup_path td l k ((False, v, h, r) # p) = (n, q)"
        using Node.prems(5) 3 by (auto simp: Let_def c split: if_splits)
    qed
  qed
qed

lemma descend_ipath_keys:
  assumes "orders td" "weakly_sorted_by (td_key td) (inorder t)"
    and "\<forall>x\<in>set (lctx p). td_key td x \<le> k" "\<forall>x\<in>set (rctx p). k < td_key td x"
  shows "(\<forall>x\<in>set (lctx (descend_ipath td t k p)). td_key td x \<le> k) \<and>
         (\<forall>x\<in>set (rctx (descend_ipath td t k p)). k < td_key td x)"
  using assms
proof (induction t arbitrary: p)
  case Null
  then show ?case by simp
next
  case (Node l v h r)
  note c = comparenk_simps [OF Node.prems(1)]
  have sl: "weakly_sorted_by (td_key td) (inorder l)" and sr: "weakly_sorted_by (td_key td) (inorder r)"
    and lv: "\<forall>x\<in>set (inorder l). td_key td x \<le> td_key td v"
    and vr: "\<forall>x\<in>set (inorder r). td_key td v \<le> td_key td x"
    using Node.prems(2) by auto
  show ?case
  proof (cases "td_key td v \<le> k")
    case True
    have "(\<forall>x\<in>set (lctx (descend_ipath td r k ((True, v, h, l) # p))). td_key td x \<le> k) \<and>
         (\<forall>x\<in>set (rctx (descend_ipath td r k ((True, v, h, l) # p))). k < td_key td x)"
      using Node.prems(3,4) lv True
      by (intro Node.IH(2) [OF Node.prems(1) sr]) (auto intro: order_trans)
    with True show ?thesis by (simp add: c)
  next
    case False
    have "(\<forall>x\<in>set (lctx (descend_ipath td l k ((False, v, h, r) # p))). td_key td x \<le> k) \<and>
         (\<forall>x\<in>set (rctx (descend_ipath td l k ((False, v, h, r) # p))). k < td_key td x)"
      using Node.prems(3,4) vr False
      by (intro Node.IH(1) [OF Node.prems(1) sl]) (auto intro: less_le_trans)
    with False show ?thesis by (simp add: c)
  qed
qed

section \<open>Insertion\<close>

text \<open>
  The new node goes behind every node with the same or a smaller key and before every node
  with a greater key: with duplicates allowed, equal keys stay in insertion order.
\<close>

definition insert_spec :: "('a \<Rightarrow> 'k::linorder) \<Rightarrow> 'a \<Rightarrow> 'a list \<Rightarrow> 'a list" where
  "insert_spec key v xs = takeWhile (\<lambda>x. key x \<le> key v) xs @ v # dropWhile (\<lambda>x. key x \<le> key v) xs"

lemma insert_spec_split:
  "\<forall>x\<in>set xs. key x \<le> key v \<Longrightarrow> \<forall>y\<in>set ys. key v < key y \<Longrightarrow>
   insert_spec key v (xs @ ys) = xs @ v # ys"
  by (cases ys) (auto simp: insert_spec_def)

lemma ipath_split:
  assumes "orders td" "weakly_sorted_by (td_key td) (inorder t)"
    and "snd (lookup_ipath td t k) = Some p"
  shows "inorder t = lctx p @ rctx p \<and> (\<forall>x\<in>set (lctx p). td_key td x \<le> k) \<and>
         (\<forall>x\<in>set (rctx p). k < td_key td x)"
proof -
  obtain n q where lp: "lookup_path td t k [] = (n, q)"
    by (cases "lookup_path td t k []")
  have split: "inorder t = lctx p @ rctx p"
    using lookup_ipath_plug [OF assms(3)] inorder_plug [of Null p] by simp
  have tq: "inorder t = lctx q @ inorder n @ rctx q"
    using lookup_path_plug [OF lp] inorder_plug [of n q] by simp
  note keys = lookup_path_keys [OF assms(1,2) _ _ lp]
  show ?thesis
  proof (cases n)
    case Null
    then have "p = q" using assms(3) lp by (simp add: lookup_ipath_def)
    with keys Null split show ?thesis by (auto intro: less_imp_le)
  next
    case (Node l v h r)
    then have p: "p = descend_ipath td n k q" and v: "td_key td v = k"
      using assms(3) lp keys by (auto simp: lookup_ipath_def split: if_splits)
    have s: "weakly_sorted_by (td_key td) (inorder n)"
      using assms(2) tq by simp
    have "\<forall>x\<in>set (lctx q). td_key td x \<le> k" and "\<forall>x\<in>set (rctx q). k < td_key td x"
      using keys by (auto intro: less_imp_le)
    from descend_ipath_keys [OF assms(1) s this] split show ?thesis by (simp add: p)
  qed
qed

theorem avl_insert_inorder:
  assumes "orders td" "weakly_sorted_by (td_key td) (inorder t)" "keeps td core"
    and core: "\<And>a b. core a = core b \<Longrightarrow> td_key td a = td_key td b"
    and "avl_insert td t v = Some t'"
  shows "map core (inorder t') = map core (insert_spec (td_key td) v (inorder t))"
proof -
  obtain p where p: "snd (lookup_ipath td t (td_key td v)) = Some p" "t' = insert_ipath td v p"
    using assms(5) by (auto simp: avl_insert_def)
  note split = ipath_split [OF assms(1,2) p(1)]
  have "map core (inorder t') = map core (lctx p @ v # rctx p)"
    unfolding p(2) by (rule inorder_insert_ipath [OF assms(3)])
  with split insert_spec_split [of "lctx p" "td_key td" v "rctx p"] show ?thesis by simp
qed

lemma lookup_path_None_iff:
  assumes "orders td" "weakly_sorted_by (td_key td) (inorder t)"
    and "lookup_path td t k [] = (n, q)"
  shows "n = Null \<longleftrightarrow> k \<notin> td_key td ` set (inorder t)"
proof -
  have tq: "inorder t = lctx q @ inorder n @ rctx q"
    using lookup_path_plug [OF assms(3)] inorder_plug [of n q] by simp
  note keys = lookup_path_keys [OF assms(1,2) _ _ assms(3)]
  show ?thesis
  proof (cases n)
    case Null
    with keys tq show ?thesis by fastforce
  next
    case (Node l v h r)
    with keys tq show ?thesis by auto
  qed
qed

text \<open>Insertion fails only on a key that is present in a tree without duplicates.\<close>

theorem avl_insert_defined:
  assumes "orders td" "weakly_sorted_by (td_key td) (inorder t)"
  shows "avl_insert td t v = None \<longleftrightarrow>
         \<not> td_allowdups td \<and> td_key td v \<in> td_key td ` set (inorder t)"
proof -
  obtain n q where lp: "lookup_path td t (td_key td v) [] = (n, q)"
    by (cases "lookup_path td t (td_key td v) []")
  from lookup_path_None_iff [OF assms lp] show ?thesis
    by (cases n) (auto simp: avl_insert_def lookup_ipath_def lp)
qed

section \<open>Deletion and replacement in trees without duplicates\<close>

lemma lookup_path_at:
  assumes "orders td" "sorted_by (td_key td) (inorder t)" "inorder t = xs @ v # ys"
  obtains l v' h r q where "lookup_path td t (td_key td v) [] = (Node l v' h r, q)"
    "v' = v" "xs = lctx q @ inorder l" "ys = inorder r @ rctx q" "t = plug (Node l v' h r) q"
proof -
  obtain n q where lp: "lookup_path td t (td_key td v) [] = (n, q)"
    by (cases "lookup_path td t (td_key td v) []")
  have ws: "weakly_sorted_by (td_key td) (inorder t)" using assms(2) by (rule sorted_by_weak)
  have tq: "t = plug n q" using lookup_path_plug [OF lp] by simp
  have "n \<noteq> Null"
    using lookup_path_None_iff [OF assms(1) ws lp] assms(3) by simp
  then obtain l v' h r where n: "n = Node l v' h r" by (cases n) auto
  have k: "td_key td v' = td_key td v"
    using lookup_path_keys [OF assms(1) ws _ _ lp] n by simp
  have e: "xs @ v # ys = (lctx q @ inorder l) @ v' # (inorder r @ rctx q)"
    using tq assms(3) n inorder_plug [of n q] by simp
  have "sorted_by (td_key td) (xs @ v # ys)" using assms(2,3) by simp
  from sorted_by_split_unique [OF this e] k
  have "xs = lctx q @ inorder l" "v = v'" "ys = inorder r @ rctx q" by auto
  then show ?thesis using that lp n tq by blast
qed

theorem avl_delete_inorder:
  assumes "orders td" "sorted_by (td_key td) (inorder t)" "inorder t = xs @ v # ys" "keeps td core"
  shows "\<exists>t'. avl_delete td t v = Some t' \<and> map core (inorder t') = map core (xs @ ys)"
proof -
  obtain l v' h r q where lp: "lookup_path td t (td_key td v) [] = (Node l v' h r, q)"
    and xs: "xs = lctx q @ inorder l" "ys = inorder r @ rctx q"
    using lookup_path_at [OF assms(1-3)] by metis
  have "\<exists>t'. delete_generic td (Node l v' h r, q) = Some t'"
  proof (cases "l = Null \<or> r = Null")
    case False
    then obtain sl sv sh q' where "rightmost l [] = (Node sl sv sh Null, q')"
      using rightmost_shape [where p = "[]"] by metis
    with False show ?thesis by simp
  qed auto
  then obtain t' where t': "delete_generic td (Node l v' h r, q) = Some t'" ..
  with inorder_delete_generic [OF assms(4) this] lp xs show ?thesis
    by (auto simp: avl_delete_def)
qed

theorem avl_delete_None:
  assumes "orders td" "sorted_by (td_key td) (inorder t)" "td_key td v \<notin> td_key td ` set (inorder t)"
  shows "avl_delete td t v = None"
proof -
  obtain n q where lp: "lookup_path td t (td_key td v) [] = (n, q)"
    by (cases "lookup_path td t (td_key td v) []")
  with lookup_path_None_iff [OF assms(1) sorted_by_weak [OF assms(2)] lp] assms(3)
  show ?thesis by (simp add: avl_delete_def)
qed

lemma write_node_inorder:
  assumes "orders td" "sorted_by (td_key td) (inorder t)" "inorder t = xs @ v # ys"
  shows "\<exists>t'. write_node td t v v' = Some t' \<and> inorder t' = xs @ v' # ys"
proof -
  obtain l w h r q where "lookup_path td t (td_key td v) [] = (Node l w h r, q)"
    and "xs = lctx q @ inorder l" "ys = inorder r @ rctx q"
    using lookup_path_at [OF assms] by metis
  then show ?thesis by (simp add: write_node_def inorder_plug)
qed

lemma swap_node_inorder:
  assumes "orders td" "sorted_by (td_key td) (inorder t)" "inorder t = xs @ v # ys" "keeps td core"
  shows "\<exists>t'. swap_node td t v v' = Some t' \<and> map core (inorder t') = map core (xs @ v' # ys)"
proof -
  obtain l w h r q where lp: "lookup_path td t (td_key td v) [] = (Node l w h r, q)"
    and xs: "xs = lctx q @ inorder l" "ys = inorder r @ rctx q"
    using lookup_path_at [OF assms(1-3)] by metis
  have "map core (inorder (augment td (Node l v' h r))) = map core (inorder (Node l v' h r))"
    using assms(4) by (rule inorder_augment)
  then show ?thesis
    by (simp add: swap_node_def lp inorder_plug xs del: augment.simps)
qed

section \<open>Neighbours and extrema\<close>

lemma inorder_Nil [simp]: "inorder t = [] \<longleftrightarrow> t = Null"
  by (cases t) auto

lemma down_to_True: "down_to True t = last_opt (inorder t)"
  by (induction t) (auto simp: or_else_def split: option.splits)

lemma down_to_False: "down_to False t = hd_opt (inorder t)"
  by (induction t) (auto simp: or_else_def split: option.splits)

lemma find_min_inorder: "find_min t = hd_opt (inorder t)"
  by (simp add: find_min_def find_extremum_def down_to_False)

lemma find_max_inorder: "find_max t = last_opt (inorder t)"
  by (simp add: find_max_def find_extremum_def down_to_True)

lemma climb_True: "climb True p = hd_opt (rctx p)"
  by (induction "True" p rule: climb.induct) auto

lemma climb_False: "climb False p = last_opt (lctx p)"
  by (induction "False" p rule: climb.induct) auto

text \<open>The neighbours of a node are its neighbours in the in-order list, whatever the keys.\<close>

theorem find_neighbour_inorder:
  "find_neighbour (Node l v h r, p) True = hd_opt (inorder r @ rctx p)"
  "find_neighbour (Node l v h r, p) False = last_opt (lctx p @ inorder l)"
  by (auto simp: find_neighbour_def down_to_True down_to_False climb_True climb_False or_else_def
      split: option.split)

lemma find_succ_inorder:
  assumes "orders td" "sorted_by (td_key td) (inorder t)" "inorder t = xs @ v # ys"
  shows "find_succ td t (Some v) = hd_opt ys"
proof -
  obtain l w h r q where "lookup_path td t (td_key td v) [] = (Node l w h r, q)"
    and "ys = inorder r @ rctx q"
    using lookup_path_at [OF assms] by metis
  then show ?thesis by (simp add: find_succ_def find_neighbour_inorder)
qed

lemma find_pred_inorder:
  assumes "orders td" "sorted_by (td_key td) (inorder t)" "inorder t = xs @ v # ys"
  shows "find_pred td t (Some v) = last_opt xs"
proof -
  obtain l w h r q where "lookup_path td t (td_key td v) [] = (Node l w h r, q)"
    and "xs = lctx q @ inorder l"
    using lookup_path_at [OF assms] by metis
  then show ?thesis by (simp add: find_pred_def find_neighbour_inorder)
qed

lemma find_succ_None: "find_succ td t None = hd_opt (inorder t)"
  by (simp add: find_succ_def find_min_inorder)

end
