(* ===== verification/Avl_Lookup.thy ===== *)
theory Avl_Lookup
  imports Avl_Order
begin

text \<open>
  The key lookups of the AVL tree against the in-order list, the iterator, and the bound on the
  height that makes the fixed-size path and iterator arrays of the C code large enough.
\<close>

section \<open>Lookups\<close>

lemma lookup_inorder:
  assumes "orders td" "sorted_by (td_key td) (inorder t)"
  shows "lookup td t k = Some v \<longleftrightarrow> v \<in> set (inorder t) \<and> td_key td v = k"
  using assms(2)
proof (induction t)
  case (Node l w h r)
  note c = comparenk_simps [OF assms(1)]
  have "sorted_by (td_key td) (inorder l)" "sorted_by (td_key td) (inorder r)"
    "\<forall>x\<in>set (inorder l). td_key td x < td_key td w" "\<forall>x\<in>set (inorder r). td_key td w < td_key td x"
    using Node.prems by (auto simp: sorted_by_append)
  with Node.IH show ?case by (auto simp: c Let_def)
qed simp

lemma lookup_None:
  assumes "orders td" "sorted_by (td_key td) (inorder t)"
  shows "lookup td t k = None \<longleftrightarrow> k \<notin> td_key td ` set (inorder t)"
proof -
  have "lookup td t k \<noteq> None \<longleftrightarrow> (\<exists>v\<in>set (inorder t). td_key td v = k)"
    using lookup_inorder [OF assms, of k] by auto
  then show ?thesis by auto
qed

text \<open>
  The search for the nearest key returns the last element at most (below) the key, or the
  first element at least (above) it. This is the contract of the four lookups also in trees
  with duplicate keys, where the last or first of the equal ones is meant.
\<close>

lemma scan_eq_False:
  assumes "orders td"
  shows "weakly_sorted_by (td_key td) (inorder t) \<Longrightarrow> \<forall>x\<in>set (inorder t). k \<le> td_key td x \<Longrightarrow>
    scan_eq td k False t cand = or_else (last_opt (filter (\<lambda>x. td_key td x \<le> k) (inorder t))) cand"
proof (induction t arbitrary: cand)
  case (Node l v h r)
  show ?case
  proof (cases "td_key td v = k")
    case True
    with Node show ?thesis by (simp add: comparenk_simps [OF assms] or_else_assoc)
  next
    case False
    have "k \<le> td_key td v" using Node.prems(2) by simp
    with False have "k < td_key td v" by simp
    then have "\<not> td_key td v \<le> k" "\<forall>x\<in>set (inorder r). \<not> td_key td x \<le> k"
      using Node.prems(1) by force+
    with False Node show ?thesis by (simp add: comparenk_simps [OF assms])
  qed
qed simp

lemma scan_eq_True:
  assumes "orders td"
  shows "weakly_sorted_by (td_key td) (inorder t) \<Longrightarrow> \<forall>x\<in>set (inorder t). td_key td x \<le> k \<Longrightarrow>
    scan_eq td k True t cand = or_else (hd_opt (filter (\<lambda>x. k \<le> td_key td x) (inorder t))) cand"
proof (induction t arbitrary: cand)
  case (Node l v h r)
  show ?case
  proof (cases "td_key td v = k")
    case True
    with Node show ?thesis by (simp add: comparenk_simps [OF assms] or_else_assoc)
  next
    case False
    have "td_key td v \<le> k" using Node.prems(2) by simp
    with False have "td_key td v < k" by simp
    then have "\<not> k \<le> td_key td v" "\<forall>x\<in>set (inorder l). \<not> k \<le> td_key td x"
      using Node.prems(1) by force+
    with False Node show ?thesis by (simp add: comparenk_simps [OF assms])
  qed
qed simp

lemma scan_ne_False:
  assumes "orders td"
  shows "weakly_sorted_by (td_key td) (inorder t) \<Longrightarrow> \<forall>x\<in>set (inorder t). td_key td x \<le> k \<Longrightarrow>
    scan_ne td k False t cand = or_else (last_opt (filter (\<lambda>x. td_key td x < k) (inorder t))) cand"
proof (induction t arbitrary: cand)
  case (Node l v h r)
  show ?case
  proof (cases "td_key td v = k")
    case True
    then have "\<forall>x\<in>set (inorder r). \<not> td_key td x < k" using Node.prems(1) by force
    with True Node show ?thesis by (simp add: comparenk_simps [OF assms])
  next
    case False
    have "td_key td v \<le> k" using Node.prems(2) by simp
    with False have "td_key td v < k" by simp
    with False Node show ?thesis by (simp add: comparenk_simps [OF assms] or_else_assoc)
  qed
qed simp

lemma scan_ne_True:
  assumes "orders td"
  shows "weakly_sorted_by (td_key td) (inorder t) \<Longrightarrow> \<forall>x\<in>set (inorder t). k \<le> td_key td x \<Longrightarrow>
    scan_ne td k True t cand = or_else (hd_opt (filter (\<lambda>x. k < td_key td x) (inorder t))) cand"
proof (induction t arbitrary: cand)
  case (Node l v h r)
  show ?case
  proof (cases "td_key td v = k")
    case True
    then have "\<forall>x\<in>set (inorder l). \<not> k < td_key td x" using Node.prems(1) by force
    with True Node show ?thesis by (simp add: comparenk_simps [OF assms])
  next
    case False
    have "k \<le> td_key td v" using Node.prems(2) by simp
    with False have "k < td_key td v" by simp
    with False Node show ?thesis by (simp add: comparenk_simps [OF assms] or_else_assoc)
  qed
qed simp

text \<open>With the keys unique (strictly sorted) or with duplicates allowed.\<close>

definition well_ordered :: "('a, 'k::linorder) avl_treedef \<Rightarrow> 'a avl \<Rightarrow> bool" where
  "well_ordered td t \<longleftrightarrow> orders td \<and>
     (if td_allowdups td then weakly_sorted_by (td_key td) (inorder t)
      else sorted_by (td_key td) (inorder t))"

lemma well_ordered_weak: "well_ordered td t \<Longrightarrow> weakly_sorted_by (td_key td) (inorder t)"
  by (auto simp: well_ordered_def sorted_by_weak split: if_splits)

lemma well_ordered_Node:
  assumes "well_ordered td (Node l v h r)"
  shows "well_ordered td l" "well_ordered td r"
    "\<forall>x\<in>set (inorder l). td_key td x \<le> td_key td v" "\<forall>x\<in>set (inorder r). td_key td v \<le> td_key td x"
    "\<not> td_allowdups td \<Longrightarrow> \<forall>x\<in>set (inorder l). td_key td x < td_key td v"
    "\<not> td_allowdups td \<Longrightarrow> \<forall>x\<in>set (inorder r). td_key td v < td_key td x"
  using assms well_ordered_weak [OF assms]
  by (auto simp: well_ordered_def sorted_by_append split: if_splits)

lemma near_pred_pred_eq:
  assumes "well_ordered td t"
  shows "(case near_pred td k t cand of (tmp, c) \<Rightarrow> fixup_predsucceq td k tmp c False) =
    or_else (last_opt (filter (\<lambda>x. td_key td x \<le> k) (inorder t))) cand"
  using assms
proof (induction t arbitrary: cand)
  case Null
  then show ?case by (simp add: fixup_predsucceq_def)
next
  case (Node l v h r)
  have o: "orders td" using Node.prems by (simp add: well_ordered_def)
  note c = comparenk_simps [OF o] and w = well_ordered_Node [OF Node.prems]
  consider "td_key td v = k" | "td_key td v < k" | "k < td_key td v" by force
  then show ?case
  proof cases
    case 1
    show ?thesis
    proof (cases "td_allowdups td")
      case True
      have "scan_eq td k False r (Some v) =
          or_else (last_opt (filter (\<lambda>x. td_key td x \<le> k) (inorder r))) (Some v)"
        using scan_eq_False [OF o] w 1 well_ordered_weak [OF w(2)] by auto
      with 1 True show ?thesis by (simp add: c fixup_predsucceq_def or_else_assoc)
    next
      case False
      then have "\<forall>x\<in>set (inorder r). \<not> td_key td x \<le> k" using w(6) 1 by auto
      with 1 False show ?thesis by (simp add: c fixup_predsucceq_def)
    qed
  next
    case 2
    then have "td_key td v \<noteq> k" by simp
    with 2 Node.IH(2) [OF w(2), of "Some v"] show ?thesis
      by (simp add: c Let_def or_else_assoc less_imp_le)
  next
    case 3
    then have "td_key td v \<noteq> k" "\<not> td_key td v < k" "\<not> td_key td v \<le> k" by auto
    moreover have "\<forall>x\<in>set (inorder r). \<not> td_key td x \<le> k" using w(4) 3 by force
    ultimately show ?thesis using Node.IH(1) [OF w(1), of cand] by (simp add: c Let_def)
  qed
qed

lemma near_pred_pred:
  assumes "well_ordered td t"
  shows "(case near_pred td k t cand of (tmp, c) \<Rightarrow> fixup_predsucc td k tmp c False) =
    or_else (last_opt (filter (\<lambda>x. td_key td x < k) (inorder t))) cand"
  using assms
proof (induction t arbitrary: cand)
  case Null
  then show ?case by (simp add: fixup_predsucc_def)
next
  case (Node l v h r)
  have o: "orders td" using Node.prems by (simp add: well_ordered_def)
  note c = comparenk_simps [OF o] and w = well_ordered_Node [OF Node.prems]
  consider "td_key td v = k" | "td_key td v < k" | "k < td_key td v" by force
  then show ?case
  proof cases
    case 1
    have r: "\<forall>x\<in>set (inorder r). \<not> td_key td x < k" using w(4) 1 by force
    show ?thesis
    proof (cases "td_allowdups td")
      case True
      have "scan_ne td k False l cand =
          or_else (last_opt (filter (\<lambda>x. td_key td x < k) (inorder l))) cand"
        using scan_ne_False [OF o] w 1 well_ordered_weak [OF w(1)] by auto
      with 1 True r show ?thesis by (cases l) (auto simp: c fixup_predsucc_def)
    next
      case False
      have "\<forall>x\<in>set (inorder l). td_key td x < k" using w(5) [OF False] 1 by simp
      with 1 False r show ?thesis
        by (cases "l = Null") (auto simp: c fixup_predsucc_def down_to_True or_else_def
            split: option.split)
    qed
  next
    case 2
    then have "td_key td v \<noteq> k" by simp
    with 2 Node.IH(2) [OF w(2), of "Some v"] show ?thesis
      by (simp add: c Let_def or_else_assoc)
  next
    case 3
    then have "td_key td v \<noteq> k" "\<not> td_key td v < k" by auto
    moreover have "\<forall>x\<in>set (inorder r). \<not> td_key td x < k" using w(4) 3 by force
    ultimately show ?thesis using Node.IH(1) [OF w(1), of cand] by (simp add: c Let_def)
  qed
qed

lemma near_succ_succ_eq:
  assumes "well_ordered td t"
  shows "(case near_succ td k t cand of (tmp, c) \<Rightarrow> fixup_predsucceq td k tmp c True) =
    or_else (hd_opt (filter (\<lambda>x. k \<le> td_key td x) (inorder t))) cand"
  using assms
proof (induction t arbitrary: cand)
  case Null
  then show ?case by (simp add: fixup_predsucceq_def)
next
  case (Node l v h r)
  have o: "orders td" using Node.prems by (simp add: well_ordered_def)
  note c = comparenk_simps [OF o] and w = well_ordered_Node [OF Node.prems]
  consider "td_key td v = k" | "td_key td v < k" | "k < td_key td v" by force
  then show ?case
  proof cases
    case 1
    show ?thesis
    proof (cases "td_allowdups td")
      case True
      have "scan_eq td k True l (Some v) =
          or_else (hd_opt (filter (\<lambda>x. k \<le> td_key td x) (inorder l))) (Some v)"
        using scan_eq_True [OF o] w 1 well_ordered_weak [OF w(1)] by auto
      with 1 True show ?thesis by (simp add: c fixup_predsucceq_def or_else_assoc)
    next
      case False
      then have "\<forall>x\<in>set (inorder l). \<not> k \<le> td_key td x" using w(5) 1 by auto
      with 1 False show ?thesis by (simp add: c fixup_predsucceq_def)
    qed
  next
    case 2
    then have "td_key td v \<noteq> k" "\<not> k < td_key td v" "\<not> k \<le> td_key td v" by auto
    moreover have "\<forall>x\<in>set (inorder l). \<not> k \<le> td_key td x" using w(3) 2 by force
    ultimately show ?thesis using Node.IH(2) [OF w(2), of cand] by (simp add: c Let_def)
  next
    case 3
    then have "td_key td v \<noteq> k" by simp
    with 3 Node.IH(1) [OF w(1), of "Some v"] show ?thesis
      by (simp add: c Let_def or_else_assoc less_imp_le)
  qed
qed

lemma near_succ_succ:
  assumes "well_ordered td t"
  shows "(case near_succ td k t cand of (tmp, c) \<Rightarrow> fixup_predsucc td k tmp c True) =
    or_else (hd_opt (filter (\<lambda>x. k < td_key td x) (inorder t))) cand"
  using assms
proof (induction t arbitrary: cand)
  case Null
  then show ?case by (simp add: fixup_predsucc_def)
next
  case (Node l v h r)
  have o: "orders td" using Node.prems by (simp add: well_ordered_def)
  note c = comparenk_simps [OF o] and w = well_ordered_Node [OF Node.prems]
  consider "td_key td v = k" | "td_key td v < k" | "k < td_key td v" by force
  then show ?case
  proof cases
    case 1
    have l: "\<forall>x\<in>set (inorder l). \<not> k < td_key td x" using w(3) 1 by force
    show ?thesis
    proof (cases "td_allowdups td")
      case True
      have "scan_ne td k True r cand =
          or_else (hd_opt (filter (\<lambda>x. k < td_key td x) (inorder r))) cand"
        using scan_ne_True [OF o] w 1 well_ordered_weak [OF w(2)] by auto
      with 1 True l show ?thesis by (cases r) (auto simp: c fixup_predsucc_def)
    next
      case False
      have "\<forall>x\<in>set (inorder r). k < td_key td x" using w(6) [OF False] 1 by simp
      with 1 False l show ?thesis
        by (cases "r = Null") (auto simp: c fixup_predsucc_def down_to_False or_else_def
            split: option.split)
    qed
  next
    case 2
    then have "td_key td v \<noteq> k" "\<not> k < td_key td v" by auto
    moreover have "\<forall>x\<in>set (inorder l). \<not> k < td_key td x" using w(3) 2 by force
    ultimately show ?thesis using Node.IH(2) [OF w(2), of cand] by (simp add: c Let_def)
  next
    case 3
    then have "td_key td v \<noteq> k" by simp
    with 3 Node.IH(1) [OF w(1), of "Some v"] show ?thesis
      by (simp add: c Let_def or_else_assoc)
  qed
qed

theorem lookup_near_spec:
  assumes "well_ordered td t"
  shows "lookup_pred_eq td t k = last_opt (filter (\<lambda>x. td_key td x \<le> k) (inorder t))"
    and "lookup_pred td t k = last_opt (filter (\<lambda>x. td_key td x < k) (inorder t))"
    and "lookup_succ_eq td t k = hd_opt (filter (\<lambda>x. k \<le> td_key td x) (inorder t))"
    and "lookup_succ td t k = hd_opt (filter (\<lambda>x. k < td_key td x) (inorder t))"
  using near_pred_pred_eq [OF assms, of k None] near_pred_pred [OF assms, of k None]
    near_succ_succ_eq [OF assms, of k None] near_succ_succ [OF assms, of k None]
  by (simp_all add: lookup_pred_eq_def lookup_pred_def lookup_succ_eq_def lookup_succ_def)

section \<open>Iteration\<close>

text \<open>What an iterator still has to visit.\<close>

fun todo_list :: "'a avl list \<Rightarrow> 'a list" where
  "todo_list [] = []"
| "todo_list (Null # ts) = todo_list ts"
| "todo_list (Node l v h r # ts) = v # inorder r @ todo_list ts"

definition iter_inv :: "'a avl_iter \<Rightarrow> bool" where
  "iter_inv it \<longleftrightarrow> Null \<notin> set (it_todo it) \<and>
     it_right it = (case it_todo it of [] \<Rightarrow> Null | n # _ \<Rightarrow> cs True n)"

lemma todo_downleft: "todo_list (downleft t ts) = inorder t @ todo_list ts"
  by (induction t ts rule: downleft.induct) auto

lemma downleft_Null: "Null \<in> set (downleft t ts) \<longleftrightarrow> Null \<in> set ts"
  by (induction t ts rule: downleft.induct) auto

lemma mk_iter_inv: "Null \<notin> set ts \<Longrightarrow> iter_inv (mk_iter ts)"
  by (auto simp: mk_iter_def iter_inv_def split: list.split)

lemma iter_next_step:
  assumes "iter_inv it" "it_todo it \<noteq> []"
  shows "iter_inv (iter_next it)"
    and "todo_list (it_todo it) = the (iter_top it) # todo_list (it_todo (iter_next it))"
    and "iter_top it \<noteq> None"
proof -
  obtain n ts where todo: "it_todo it = n # ts" using assms(2) by (cases "it_todo it") auto
  then obtain l v h r where n: "n = Node l v h r" using assms(1)
    by (cases n) (auto simp: iter_inv_def)
  have r: "it_right it = r" and ts: "Null \<notin> set ts"
    using assms(1) todo n by (auto simp: iter_inv_def)
  have "iter_inv (iter_next it) \<and>
        todo_list (it_todo it) = the (iter_top it) # todo_list (it_todo (iter_next it))"
  proof (cases "ts \<noteq> [] \<and> r = Null")
    case True
    then show ?thesis using todo n r ts
      by (cases ts) (auto simp: iter_next_def iter_inv_def iter_top_def)
  next
    case False
    then have "iter_next it = mk_iter (downleft r ts)"
      using todo r by (auto simp: iter_next_def Let_def)
    moreover have "it_todo (mk_iter ns) = ns" for ns :: "'a avl list"
      by (simp add: mk_iter_def)
    ultimately show ?thesis using todo n ts
      by (simp add: mk_iter_inv downleft_Null todo_downleft iter_top_def)
  qed
  then show "iter_inv (iter_next it)"
    and "todo_list (it_todo it) = the (iter_top it) # todo_list (it_todo (iter_next it))"
    by auto
  show "iter_top it \<noteq> None" using todo n by (simp add: iter_top_def)
qed

lemma iter_collect_todo:
  "iter_inv it \<Longrightarrow> length (todo_list (it_todo it)) < k \<Longrightarrow>
   iter_collect k it = Some (todo_list (it_todo it))"
proof (induction k arbitrary: it)
  case (Suc k)
  show ?case
  proof (cases "it_todo it")
    case Nil
    then show ?thesis by (simp add: iter_top_def)
  next
    case (Cons n ts)
    then have ne: "it_todo it \<noteq> []" by simp
    note step = iter_next_step [OF Suc.prems(1) ne]
    have "iter_collect k (iter_next it) = Some (todo_list (it_todo (iter_next it)))"
      using Suc.IH [OF step(1)] Suc.prems(2) step(2) by simp
    with step(2,3) show ?thesis by (auto split: option.split)
  qed
qed simp

text \<open>The \<open>for\<close> loop over an iterator visits every node once, in order, and ends.\<close>

theorem iter_visits_inorder:
  "length (inorder t) < k \<Longrightarrow> iter_collect k (iter_first t) = Some (inorder t)"
  using iter_collect_todo [OF mk_iter_inv, of "downleft t []" k]
  by (simp add: iter_first_def downleft_Null todo_downleft mk_iter_def)

section \<open>The height bound\<close>

text \<open>The fewest nodes of a balanced tree of height \<open>n\<close>, and its evaluation by iteration.\<close>

fun min_nodes :: "nat \<Rightarrow> nat" where
  "min_nodes 0 = 0"
| "min_nodes (Suc 0) = 1"
| "min_nodes (Suc (Suc n)) = min_nodes (Suc n) + min_nodes n + 1"

fun min_nodes_iter :: "nat \<Rightarrow> int \<Rightarrow> int \<Rightarrow> int" where
  "min_nodes_iter 0 a b = a"
| "min_nodes_iter (Suc n) a b = min_nodes_iter n b (a + b + 1)"

lemma min_nodes_iter:
  "min_nodes_iter n (int (min_nodes k)) (int (min_nodes (Suc k))) = int (min_nodes (n + k))"
proof (induction n arbitrary: k)
  case (Suc n)
  have "int (min_nodes k) + int (min_nodes (Suc k)) + 1 = int (min_nodes (Suc (Suc k)))" by simp
  with Suc.IH [of "Suc k"] show ?case by (simp del: min_nodes.simps)
qed simp

lemma min_nodes_Suc_le: "min_nodes n \<le> min_nodes (Suc n)"
  by (induction n rule: min_nodes.induct) auto

lemma min_nodes_mono: "m \<le> n \<Longrightarrow> min_nodes m \<le> min_nodes n"
  by (rule lift_Suc_mono_le [of min_nodes]) (auto intro: min_nodes_Suc_le)

lemma avl_min_nodes: "avl t \<Longrightarrow> min_nodes (nat (height t)) \<le> length (inorder t)"
proof (induction t)
  case (Node l v h r)
  have nn: "0 \<le> height l" "0 \<le> height r" using Node.prems by (auto intro: avl_height_nonneg)
  have le: "min_nodes (nat (height l)) + min_nodes (nat (height r)) + 1 \<le> length (inorder (Node l v h r))"
    using Node by simp
  define m where "m = nat (max (height l) (height r))"
  have h: "nat h = Suc m" using Node.prems nn by (simp add: m_def)
  show ?case
  proof (cases m)
    case 0
    with h show ?thesis by simp
  next
    case (Suc k)
    have a: "(nat (height l) = m \<and> k \<le> nat (height r)) \<or> (nat (height r) = m \<and> k \<le> nat (height l))"
      using Node.prems nn Suc by (auto simp: m_def max_def split: if_splits)
    have "min_nodes (nat h) = min_nodes m + min_nodes k + 1"
      using h Suc by simp
    also have "\<dots> \<le> min_nodes (nat (height l)) + min_nodes (nat (height r)) + 1"
      using a min_nodes_mono [of k "nat (height l)"] min_nodes_mono [of k "nat (height r)"] by auto
    finally show ?thesis using le by simp
  qed
qed simp

lemma min_nodes_iter_numeral:
  "min_nodes_iter (numeral k) a b = min_nodes_iter (pred_numeral k) b (a + b + 1)"
  by (simp add: numeral_eq_Suc)

lemma min_nodes_92: "2 ^ 64 \<le> min_nodes 92"
proof -
  have "(2::int) ^ 64 \<le> min_nodes_iter 92 0 1" by (simp add: min_nodes_iter_numeral)
  also have "\<dots> = int (min_nodes 92)" using min_nodes_iter [of 92 0] by simp
  finally show ?thesis by simp
qed

text \<open>Depth of a node: the number of frames of its location.\<close>

lemma plug_depth: "avl (plug t c) \<Longrightarrow> int (length c) \<le> height (plug t c) - height t"
proof (induction t c rule: plug.induct)
  case (2 t dir v h s c)
  have "avl (mk dir v h t s)" using 2(2) avl_plug [of "mk dir v h t s" c] by simp
  then have "height t + 1 \<le> h" by simp
  with 2 show ?case by simp
qed simp

text \<open>\<open>DDSRT_AVL_MAX_TREEHEIGHT\<close> with 8-byte pointers.\<close>

definition max_treeheight :: nat where
  "max_treeheight = 12 * 8"

theorem path_fits:
  assumes "avl t" "length (inorder t) < 2 ^ 64" "t = plug n p"
  shows "length p < max_treeheight"
proof -
  have "min_nodes (nat (height t)) < min_nodes 92"
    using avl_min_nodes [OF assms(1)] assms(2) min_nodes_92 by (rule order.strict_trans2 [OF le_less_trans])
  then have "\<not> 92 \<le> nat (height t)"
    using min_nodes_mono [of 92 "nat (height t)"] not_le by blast
  moreover have "avl n" using assms(1) unfolding assms(3) by (rule avl_plug)
  then have "0 \<le> height n" by (rule avl_height_nonneg)
  moreover have "int (length p) \<le> height t - height n"
    using plug_depth [of n p] assms by simp
  ultimately show ?thesis unfolding max_treeheight_def by linarith
qed

end
