(* ===== verification/Avl_Index.thy ===== *)
theory Avl_Index
  imports Avl_Lookup
begin

text \<open>
  The interface between the AVL tree and the components that index their data with it: an
  ordered index without duplicate keys. The laws speak of the in-order list, split at the
  element or at the gap that an operation concerns; None is a failed assertion. Facts that
  several clients need are proved once from the laws.
\<close>

section \<open>The contract\<close>

locale ordered_index =
  fixes key :: "'a \<Rightarrow> 'k::linorder"
    and elems :: "'t \<Rightarrow> 'a list"
    and ok :: "'t \<Rightarrow> bool"
    and empty :: 't
    and ins :: "'t \<Rightarrow> 'a \<Rightarrow> 't option"
    and ins_at :: "'t \<Rightarrow> 'k \<Rightarrow> 'a \<Rightarrow> 't option"
    and del :: "'t \<Rightarrow> 'a \<Rightarrow> 't option"
    and wr :: "'t \<Rightarrow> 'a \<Rightarrow> 'a \<Rightarrow> 't option"
    and get :: "'t \<Rightarrow> 'k \<Rightarrow> 'a option"
    and pred_eq :: "'t \<Rightarrow> 'k \<Rightarrow> 'a option"
    and succ_eq :: "'t \<Rightarrow> 'k \<Rightarrow> 'a option"
    and succ :: "'t \<Rightarrow> 'k \<Rightarrow> 'a option"
    and minimum :: "'t \<Rightarrow> 'a option"
    and maximum :: "'t \<Rightarrow> 'a option"
    and following :: "'t \<Rightarrow> 'a option \<Rightarrow> 'a option"
  assumes ok_sorted: "ok t \<Longrightarrow> sorted_by key (elems t)"
    and ok_empty: "ok empty" and elems_empty: "elems empty = []"
    and ins_law: "ok t \<Longrightarrow> elems t = xs @ ys \<Longrightarrow> \<forall>x\<in>set xs. key x < key v \<Longrightarrow>
      \<forall>y\<in>set ys. key v < key y \<Longrightarrow> \<exists>t'. ins t v = Some t' \<and> ok t' \<and> elems t' = xs @ v # ys"
    and ins_at_law: "ok t \<Longrightarrow> elems t = xs @ ys \<Longrightarrow> \<forall>x\<in>set xs. key x < k \<Longrightarrow>
      \<forall>y\<in>set ys. k < key y \<Longrightarrow> \<forall>x\<in>set xs. key x < key v \<Longrightarrow>
      \<forall>y\<in>set ys. key v < key y \<Longrightarrow> \<exists>t'. ins_at t k v = Some t' \<and> ok t' \<and> elems t' = xs @ v # ys"
    and del_law: "ok t \<Longrightarrow> elems t = xs @ v # ys \<Longrightarrow>
      \<exists>t'. del t v = Some t' \<and> ok t' \<and> elems t' = xs @ ys"
    and wr_law: "ok t \<Longrightarrow> elems t = xs @ v # ys \<Longrightarrow> \<forall>x\<in>set xs. key x < key v' \<Longrightarrow>
      \<forall>y\<in>set ys. key v' < key y \<Longrightarrow> \<exists>t'. wr t v v' = Some t' \<and> ok t' \<and> elems t' = xs @ v' # ys"
    and get_law: "ok t \<Longrightarrow> get t k = Some v \<longleftrightarrow> v \<in> set (elems t) \<and> key v = k"
    and pred_eq_law: "ok t \<Longrightarrow> pred_eq t k = last_opt (filter (\<lambda>x. key x \<le> k) (elems t))"
    and succ_eq_law: "ok t \<Longrightarrow> succ_eq t k = hd_opt (filter (\<lambda>x. k \<le> key x) (elems t))"
    and succ_law: "ok t \<Longrightarrow> succ t k = hd_opt (filter (\<lambda>x. k < key x) (elems t))"
    and minimum_law: "minimum t = hd_opt (elems t)"
    and maximum_law: "maximum t = last_opt (elems t)"
    and following_law: "ok t \<Longrightarrow> elems t = xs @ v # ys \<Longrightarrow> following t (Some v) = hd_opt ys"
    and following_None: "following t None = hd_opt (elems t)"
begin

lemma get_None: "ok t \<Longrightarrow> get t k = None \<longleftrightarrow> k \<notin> key ` set (elems t)"
proof -
  assume "ok t"
  then have "get t k \<noteq> None \<longleftrightarrow> (\<exists>v\<in>set (elems t). key v = k)" using get_law [of t k] by auto
  then show ?thesis by auto
qed

lemma get_split:
  assumes "ok t" "get t k = Some v"
  obtains xs ys where "elems t = xs @ v # ys" "key v = k"
proof -
  have "v \<in> set (elems t)" "key v = k" using get_law [OF assms(1)] assms(2) by auto
  with that show ?thesis by (meson split_list)
qed

lemma split_keys:
  assumes "ok t" "elems t = xs @ v # ys"
  shows "\<forall>x\<in>set xs. key x < key v" "\<forall>y\<in>set ys. key v < key y" "sorted_by key xs" "sorted_by key ys"
  using ok_sorted [OF assms(1)] assms(2) by (auto simp: sorted_by_append)

lemma split_unique:
  assumes "ok t" "elems t = xs @ v # ys" "elems t = xs' @ v' # ys'" "key v = key v'"
  shows "xs = xs' \<and> v = v' \<and> ys = ys'"
proof (rule sorted_by_split_unique [of key])
  show "sorted_by key (xs @ v # ys)" using ok_sorted [OF assms(1)] unfolding assms(2) .
  show "xs @ v # ys = xs' @ v' # ys'" using trans [OF sym [OF assms(2)] assms(3)] .
qed (rule assms(4))

lemma get_at: "ok t \<Longrightarrow> elems t = xs @ v # ys \<Longrightarrow> get t (key v) = Some v"
  using get_law by simp

text \<open>The element at a gap: it is the first one behind the gap, or there is none.\<close>

lemma get_gap:
  assumes "ok t" "elems t = xs @ ys" "\<forall>x\<in>set xs. key x < k" "\<forall>y\<in>set ys. k \<le> key y"
  shows "case get t k of None \<Rightarrow> \<forall>y\<in>set ys. k < key y | Some m \<Rightarrow> key m = k \<and> (\<exists>zs. ys = m # zs)"
proof (cases "get t k")
  case None
  then have "k \<notin> key ` set ys" using get_None [OF assms(1)] assms(2) by auto
  with assms(4) have "\<forall>y\<in>set ys. k < key y" by (force simp: order_less_le)
  with None show ?thesis by simp
next
  case (Some m)
  then have m: "m \<in> set (elems t)" "key m = k" using get_law [OF assms(1)] by simp_all
  then have mem: "m \<in> set ys" using assms(2,3) by auto
  then obtain z zs where ys: "ys = z # zs" by (cases ys) auto
  have "sorted_by key (z # zs)" using ok_sorted [OF assms(1)] assms(2) ys by (simp add: sorted_by_append)
  moreover have "k \<le> key z" using assms(4) ys by simp
  ultimately have "m = z" using mem m(2) ys by auto
  with Some m ys show ?thesis by simp
qed

text \<open>The nearest element at or below a key, where the list splits.\<close>

lemma pred_eq_split:
  assumes "ok t" "pred_eq t k = Some p"
  obtains xs ys where "elems t = xs @ p # ys" "key p \<le> k" "\<forall>y\<in>set ys. k < key y"
proof -
  from assms have "last_opt (filter (\<lambda>x. key x \<le> k) (elems t)) = Some p"
    by (simp add: pred_eq_law)
  then obtain zs where z: "filter (\<lambda>x. key x \<le> k) (elems t) = zs @ [p]"
    by (auto simp: last_opt_Some)
  then have "p \<in> set (filter (\<lambda>x. key x \<le> k) (elems t))" by simp
  then have p: "p \<in> set (elems t)" "key p \<le> k" by auto
  then obtain xs ys where e: "elems t = xs @ p # ys" by (meson split_list)
  have "\<not> key y \<le> k" if y: "y \<in> set ys" for y
  proof
    assume "key y \<le> k"
    with y e have "y \<in> set (zs @ [p])" unfolding z [symmetric] by simp
    moreover have "key p < key y"
      using ok_sorted [OF assms(1)] e y by (simp add: sorted_by_append)
    moreover have "sorted_by key (zs @ [p])"
      using ok_sorted [OF assms(1)] unfolding z [symmetric] sorted_by_def by (rule sorted_wrt_filter)
    ultimately show False by (auto simp: sorted_by_append)
  qed
  with e p(2) that show ?thesis by (meson not_le)
qed

lemma pred_eq_None: "ok t \<Longrightarrow> pred_eq t k = None \<longleftrightarrow> (\<forall>x\<in>set (elems t). k < key x)"
  by (auto simp: pred_eq_law filter_empty_conv not_le)

lemma pred_eq_at:
  assumes "ok t" "elems t = xs @ p # ys" "key p \<le> k" "\<forall>y\<in>set ys. k < key y"
  shows "pred_eq t k = Some p"
proof -
  have "filter (\<lambda>x. key x \<le> k) ys = []" using assms(4) by (simp add: filter_empty_conv not_le)
  then show ?thesis using assms(1,2,3) by (simp add: pred_eq_law)
qed

lemma succ_eq_split:
  assumes "ok t" "succ_eq t k = Some p"
  obtains xs ys where "elems t = xs @ p # ys" "k \<le> key p" "\<forall>x\<in>set xs. key x < k"
proof -
  from assms have "hd_opt (filter (\<lambda>x. k \<le> key x) (elems t)) = Some p"
    by (simp add: succ_eq_law)
  then obtain zs where z: "filter (\<lambda>x. k \<le> key x) (elems t) = p # zs"
    by (auto simp: hd_opt_Some)
  then obtain xs ys where "elems t = xs @ p # ys" "k \<le> key p" "\<forall>x\<in>set xs. \<not> k \<le> key x"
    by (metis (no_types, lifting) filter_eq_ConsD)
  with that show ?thesis by (meson not_le)
qed

lemma succ_eq_None: "ok t \<Longrightarrow> succ_eq t k = None \<longleftrightarrow> (\<forall>x\<in>set (elems t). key x < k)"
  by (auto simp: succ_eq_law filter_empty_conv not_le)

lemma succ_split:
  assumes "ok t" "succ t k = Some p"
  obtains xs ys where "elems t = xs @ p # ys" "k < key p" "\<forall>x\<in>set xs. key x \<le> k"
proof -
  from assms have "hd_opt (filter (\<lambda>x. k < key x) (elems t)) = Some p"
    by (simp add: succ_law)
  then obtain zs where z: "filter (\<lambda>x. k < key x) (elems t) = p # zs"
    by (auto simp: hd_opt_Some)
  then obtain xs ys where "elems t = xs @ p # ys" "k < key p" "\<forall>x\<in>set xs. \<not> k < key x"
    by (metis (no_types, lifting) filter_eq_ConsD)
  with that show ?thesis by (meson not_less)
qed

lemma succ_None: "ok t \<Longrightarrow> succ t k = None \<longleftrightarrow> (\<forall>x\<in>set (elems t). key x \<le> k)"
  by (auto simp: succ_law filter_empty_conv not_less)

lemma minimum_split: "minimum t = Some v \<Longrightarrow> \<exists>ys. elems t = v # ys"
  by (auto simp: minimum_law hd_opt_Some)

lemma maximum_split: "maximum t = Some v \<Longrightarrow> \<exists>xs. elems t = xs @ [v]"
  by (auto simp: maximum_law last_opt_Some)

lemma maximum_greatest: "ok t \<Longrightarrow> maximum t = Some v \<Longrightarrow> x \<in> set (elems t) \<Longrightarrow> key x \<le> key v"
  using maximum_split [of t v] ok_sorted [of t] by (auto simp: sorted_by_append less_imp_le)

text \<open>Insertion of a key that is not there, wherever it belongs.\<close>

lemma gap_split:
  assumes "ok t" "k \<notin> key ` set (elems t)"
  obtains xs ys where "elems t = xs @ ys" "\<forall>x\<in>set xs. key x < k" "\<forall>y\<in>set ys. k < key y"
proof -
  have "\<exists>as bs. zs = as @ bs \<and> (\<forall>x\<in>set as. key x < k) \<and> (\<forall>y\<in>set bs. k < key y)"
    if "sorted_by key zs" "k \<notin> key ` set zs" for zs
    using that
  proof (induction zs)
    case (Cons z zs)
    then obtain as bs where s: "zs = as @ bs" "\<forall>x\<in>set as. key x < k" "\<forall>y\<in>set bs. k < key y"
      by auto
    show ?case
    proof (cases "key z < k")
      case True
      with s have "z # zs = (z # as) @ bs \<and> (\<forall>x\<in>set (z # as). key x < k) \<and> (\<forall>y\<in>set bs. k < key y)"
        by simp
      then show ?thesis by blast
    next
      case False
      then have "k < key z" using Cons.prems(2) by force
      then have "\<forall>y\<in>set (z # zs). k < key y" using Cons.prems(1) by auto
      then have "z # zs = [] @ (z # zs) \<and> (\<forall>x\<in>set []. key x < k) \<and> (\<forall>y\<in>set (z # zs). k < key y)"
        by simp
      then show ?thesis by blast
    qed
  qed simp
  with ok_sorted [OF assms(1)] assms(2) that show ?thesis by blast
qed

lemma ins_new:
  assumes "ok t" "key v \<notin> key ` set (elems t)"
  obtains t' xs ys where "ins t v = Some t'" "ok t'" "elems t = xs @ ys" "elems t' = xs @ v # ys"
    "\<forall>x\<in>set xs. key x < key v" "\<forall>y\<in>set ys. key v < key y"
  using gap_split [OF assms] ins_law [OF assms(1)] by metis

lemma ins_last:
  assumes "ok t" "\<forall>x\<in>set (elems t). key x < key v"
  shows "\<exists>t'. ins t v = Some t' \<and> ok t' \<and> elems t' = elems t @ [v]"
  using ins_law [OF assms(1), of "elems t" "[]" v] assms(2) by simp

lemma elems_inj_key: "ok t \<Longrightarrow> inj_on key (set (elems t))"
  by (rule inj_onI) (rule sorted_by_key_inj [OF ok_sorted])

end

section \<open>The AVL tree keeps the contract\<close>

text \<open>
  A tree definition whose comparison orders the keys, without the flag for duplicates and
  without an augment function: what the trees of the receive administration use.
\<close>

definition index_ok :: "('a, 'k::linorder) avl_treedef \<Rightarrow> 'a avl \<Rightarrow> bool" where
  "index_ok td t \<longleftrightarrow> avl t \<and> sorted_by (td_key td) (inorder t)"

locale avl_index =
  fixes td :: "('a, 'k::linorder) avl_treedef"
  assumes orders: "orders td" and no_dups: "\<not> td_allowdups td" and no_augment: "td_augment td = None"
begin

lemma keeps_id: "keeps td id"
  using no_augment by simp

lemma well_ordered: "index_ok td t \<Longrightarrow> well_ordered td t"
  using orders no_dups by (simp add: index_ok_def well_ordered_def)

lemma insert_law:
  assumes "index_ok td t" "inorder t = xs @ ys" "\<forall>x\<in>set xs. td_key td x < td_key td v"
    "\<forall>y\<in>set ys. td_key td v < td_key td y"
  shows "\<exists>t'. avl_insert td t v = Some t' \<and> index_ok td t' \<and> inorder t' = xs @ v # ys"
proof -
  have ws: "weakly_sorted_by (td_key td) (inorder t)"
    using assms(1) by (simp add: index_ok_def sorted_by_weak)
  have "td_key td v \<notin> td_key td ` set (inorder t)" using assms(2-4) by auto
  then obtain t' where t': "avl_insert td t v = Some t'"
    using avl_insert_defined [OF orders ws] by blast
  have "inorder t' = insert_spec (td_key td) v (inorder t)"
    using avl_insert_inorder [OF orders ws keeps_id _ t'] by simp
  then have "inorder t' = xs @ v # ys"
    using assms(2-4) insert_spec_split [of xs "td_key td" v ys] by (simp add: less_imp_le)
  moreover from this have "index_ok td t'"
    using assms avl_avl_insert [OF _ t'] by (auto simp: index_ok_def sorted_by_append)
  ultimately show ?thesis using t' by blast
qed

lemma insert_at_law:
  assumes "index_ok td t" "inorder t = xs @ ys" "\<forall>x\<in>set xs. td_key td x < k"
    "\<forall>y\<in>set ys. k < td_key td y" "\<forall>x\<in>set xs. td_key td x < td_key td v"
    "\<forall>y\<in>set ys. td_key td v < td_key td y"
  shows "\<exists>t'. insert_at td t k v = Some t' \<and> index_ok td t' \<and> inorder t' = xs @ v # ys"
proof -
  have ws: "weakly_sorted_by (td_key td) (inorder t)"
    using assms(1) by (simp add: index_ok_def sorted_by_weak)
  have k: "k \<notin> td_key td ` set (inorder t)" using assms(2-4) by auto
  obtain n q where lp: "lookup_path td t k [] = (n, q)" by (cases "lookup_path td t k []")
  have "n = Null" using lookup_path_None_iff [OF orders ws lp] k by simp
  then have p: "snd (lookup_ipath td t k) = Some q" using lp by (simp add: lookup_ipath_def)
  note split = ipath_split [OF orders ws p]
  have "xs = lctx q \<and> ys = rctx q"
  proof (rule prefix_split_unique)
    show "xs @ ys = lctx q @ rctx q" using split assms(2) by simp
    show "\<forall>x\<in>set xs. td_key td x \<le> k" using assms(3) by (simp add: less_imp_le)
    show "\<forall>y\<in>set ys. \<not> td_key td y \<le> k" using assms(4) by (simp add: not_le)
    show "\<forall>x\<in>set (lctx q). td_key td x \<le> k" "\<forall>y\<in>set (rctx q). \<not> td_key td y \<le> k"
      using split by (simp_all add: not_le)
  qed
  then have i: "inorder (insert_ipath td v q) = xs @ v # ys"
    using inorder_insert_ipath [OF keeps_id, of v q] by simp
  have "avl (insert_ipath td v q)"
    using assms(1) lookup_ipath_plug [OF p] by (simp add: index_ok_def avl_insert_ipath)
  then have "index_ok td (insert_ipath td v q)"
    using assms i by (auto simp: index_ok_def sorted_by_append)
  with i p show ?thesis by (simp add: insert_at_def)
qed

lemma delete_law:
  assumes "index_ok td t" "inorder t = xs @ v # ys"
  shows "\<exists>t'. avl_delete td t v = Some t' \<and> index_ok td t' \<and> inorder t' = xs @ ys"
proof -
  have s: "sorted_by (td_key td) (inorder t)" using assms(1) by (simp add: index_ok_def)
  obtain t' where t': "avl_delete td t v = Some t'" "inorder t' = xs @ ys"
    using avl_delete_inorder [OF orders s assms(2) keeps_id] by auto
  moreover from this have "index_ok td t'"
    using assms avl_avl_delete [OF _ t'(1)] by (auto simp: index_ok_def sorted_by_append)
  ultimately show ?thesis by blast
qed

lemma write_law:
  assumes "index_ok td t" "inorder t = xs @ v # ys" "\<forall>x\<in>set xs. td_key td x < td_key td v'"
    "\<forall>y\<in>set ys. td_key td v' < td_key td y"
  shows "\<exists>t'. write_node td t v v' = Some t' \<and> index_ok td t' \<and> inorder t' = xs @ v' # ys"
proof -
  have s: "sorted_by (td_key td) (inorder t)" using assms(1) by (simp add: index_ok_def)
  obtain t' where t': "write_node td t v v' = Some t'" "inorder t' = xs @ v' # ys"
    using write_node_inorder [OF orders s assms(2)] by blast
  moreover from this have "index_ok td t'"
    using assms s avl_write_node [OF _ t'(1)] by (auto simp: index_ok_def sorted_by_append)
  ultimately show ?thesis by blast
qed

lemma swap_law:
  assumes "index_ok td t" "inorder t = xs @ v # ys" "\<forall>x\<in>set xs. td_key td x < td_key td v'"
    "\<forall>y\<in>set ys. td_key td v' < td_key td y"
  shows "\<exists>t'. swap_node td t v v' = Some t' \<and> index_ok td t' \<and> inorder t' = xs @ v' # ys"
proof -
  have s: "sorted_by (td_key td) (inorder t)" using assms(1) by (simp add: index_ok_def)
  obtain t' where t': "swap_node td t v v' = Some t'" "inorder t' = xs @ v' # ys"
    using swap_node_inorder [OF orders s assms(2) keeps_id, of v'] by auto
  moreover from this have "index_ok td t'"
    using assms s avl_swap_node [OF _ t'(1)] by (auto simp: index_ok_def sorted_by_append)
  ultimately show ?thesis by blast
qed

end

sublocale avl_index \<subseteq> ordered_index "td_key td" inorder "index_ok td" Null "avl_insert td"
  "insert_at td" "avl_delete td" "write_node td" "lookup td" "lookup_pred_eq td" "lookup_succ_eq td"
  "lookup_succ td" find_min find_max "find_succ td"
proof unfold_locales
  fix t :: "'a avl" and xs ys :: "'a list" and v v' :: 'a and k :: 'k
  show "index_ok td t \<Longrightarrow> sorted_by (td_key td) (inorder t)" by (simp add: index_ok_def)
  show "index_ok td Null" by (simp add: index_ok_def)
  show "inorder Null = ([] :: 'a list)" by simp
  show "index_ok td t \<Longrightarrow> inorder t = xs @ ys \<Longrightarrow> \<forall>x\<in>set xs. td_key td x < td_key td v \<Longrightarrow>
    \<forall>y\<in>set ys. td_key td v < td_key td y \<Longrightarrow>
    \<exists>t'. avl_insert td t v = Some t' \<and> index_ok td t' \<and> inorder t' = xs @ v # ys"
    by (rule insert_law)
  show "index_ok td t \<Longrightarrow> inorder t = xs @ ys \<Longrightarrow> \<forall>x\<in>set xs. td_key td x < k \<Longrightarrow>
    \<forall>y\<in>set ys. k < td_key td y \<Longrightarrow> \<forall>x\<in>set xs. td_key td x < td_key td v \<Longrightarrow>
    \<forall>y\<in>set ys. td_key td v < td_key td y \<Longrightarrow>
    \<exists>t'. insert_at td t k v = Some t' \<and> index_ok td t' \<and> inorder t' = xs @ v # ys"
    by (rule insert_at_law)
  show "index_ok td t \<Longrightarrow> inorder t = xs @ v # ys \<Longrightarrow>
    \<exists>t'. avl_delete td t v = Some t' \<and> index_ok td t' \<and> inorder t' = xs @ ys"
    by (rule delete_law)
  show "index_ok td t \<Longrightarrow> inorder t = xs @ v # ys \<Longrightarrow> \<forall>x\<in>set xs. td_key td x < td_key td v' \<Longrightarrow>
    \<forall>y\<in>set ys. td_key td v' < td_key td y \<Longrightarrow>
    \<exists>t'. write_node td t v v' = Some t' \<and> index_ok td t' \<and> inorder t' = xs @ v' # ys"
    by (rule write_law)
  show "index_ok td t \<Longrightarrow> lookup td t k = Some v \<longleftrightarrow> v \<in> set (inorder t) \<and> td_key td v = k"
    using lookup_inorder [OF orders] by (simp add: index_ok_def)
  show "index_ok td t \<Longrightarrow> lookup_pred_eq td t k = last_opt (filter (\<lambda>x. td_key td x \<le> k) (inorder t))"
    using lookup_near_spec(1) [OF well_ordered] by simp
  show "index_ok td t \<Longrightarrow> lookup_succ_eq td t k = hd_opt (filter (\<lambda>x. k \<le> td_key td x) (inorder t))"
    using lookup_near_spec(3) [OF well_ordered] by simp
  show "index_ok td t \<Longrightarrow> lookup_succ td t k = hd_opt (filter (\<lambda>x. k < td_key td x) (inorder t))"
    using lookup_near_spec(4) [OF well_ordered] by simp
  show "find_min t = hd_opt (inorder t)" by (rule find_min_inorder)
  show "find_max t = last_opt (inorder t)" by (rule find_max_inorder)
  show "index_ok td t \<Longrightarrow> inorder t = xs @ v # ys \<Longrightarrow> find_succ td t (Some v) = hd_opt ys"
    unfolding index_ok_def by (elim conjE) (rule find_succ_inorder [OF orders])
  show "find_succ td t None = hd_opt (inorder t)" by (rule find_succ_None)
qed

end
