(* ===== verification/Avl_Augment.thy ===== *)
theory Avl_Augment
  imports Avl_Lookup
begin

text \<open>
  Augmented AVL trees: insertion, deletion, node replacement and explicit updates keep the
  summary of every node equal to what the augment function computes from its children.
\<close>

section \<open>Augmentation\<close>

text \<open>
  Every node's summary is the augment function applied to its data and its children's. The
  augment function recomputes: applying it twice to one node is applying it once with the
  children of the second.
\<close>

definition recomputes :: "('a \<Rightarrow> 'a option \<Rightarrow> 'a option \<Rightarrow> 'a) \<Rightarrow> bool" where
  "recomputes f \<longleftrightarrow> (\<forall>v a b c d. f (f v a b) c d = f v c d)"

fun augmented :: "('a \<Rightarrow> 'a option \<Rightarrow> 'a option \<Rightarrow> 'a) \<Rightarrow> 'a avl \<Rightarrow> bool" where
  "augmented f Null = True"
| "augmented f (Node l v h r) = (augmented f l \<and> augmented f r \<and> f v (onode l) (onode r) = v)"

text \<open>All subtrees hanging off a path are augmented; the nodes on the path need not be.\<close>

fun augmented_ctx :: "('a \<Rightarrow> 'a option \<Rightarrow> 'a option \<Rightarrow> 'a) \<Rightarrow> 'a frame list \<Rightarrow> bool" where
  "augmented_ctx f [] = True"
| "augmented_ctx f ((dir, v, h, s) # c) = (augmented f s \<and> augmented_ctx f c)"

lemma augmented_augment:
  "td_augment td = Some f \<Longrightarrow> recomputes f \<Longrightarrow> augmented f l \<Longrightarrow> augmented f r \<Longrightarrow>
   augmented f (augment td (Node l v h r))"
  by (simp add: recomputes_def)

lemma augmented_augment_mk:
  "td_augment td = Some f \<Longrightarrow> recomputes f \<Longrightarrow> augmented f d \<Longrightarrow> augmented f nd \<Longrightarrow>
   augmented f (augment td (mk dir v h d nd))"
  by (cases dir) (simp_all add: mk_def recomputes_def)

lemma augmented_mk: "augmented f (mk dir v h d nd) \<Longrightarrow> augmented f d \<and> augmented f nd"
  by (cases dir) (auto simp: mk_def)

text \<open>A rotation rebuilds the summaries of the nodes it moves.\<close>

lemma augmented_rotate:
  assumes f: "td_augment td = Some f" "recomputes f"
    and d: "augmented f d" and nd: "augmented f nd" "nd \<noteq> Null" "avl nd"
  shows "augmented f (rotate td (mk dir v h d nd) dir)"
proof -
  obtain w ndd ndnd where w: "nd = mk dir w (height nd) ndd ndnd"
    using nd(2) by (rule node_shape)
  have sub: "augmented f ndd" "augmented f ndnd" "avl ndd" "avl ndnd"
    using nd(1,3) w augmented_mk avl_mk by metis+
  show ?thesis
  proof (cases "height ndnd < height ndd")
    case True
    then have "ndd \<noteq> Null" using avl_height_nonneg [OF sub(4)] by auto
    then obtain u a b where u: "ndd = mk dir u (height ndd) a b"
      by (rule node_shape)
    have ab: "augmented f a" "augmented f b"
      using sub(1) u augmented_mk by metis+
    have "rotate td (mk dir v h d nd) dir = rotate_double td (mk dir v h d nd) dir"
      using True w by (metis cs_mk rotate_mk)
    also have "\<dots> = augment td (mk dir u (height nd) (augment td (mk dir v (height ndd) d a))
        (augment td (mk dir w (height ndd) b ndnd)))"
      by (metis w u rotate_double_mk)
    finally show ?thesis using augmented_augment_mk [OF f] ab d sub by simp
  next
    case False
    have "rotate td (mk dir v h d nd) dir = rotate_single td (mk dir v h d nd) dir"
      using False w by (metis cs_mk rotate_mk)
    also have "\<dots> = (let h' = (if ndd = Null then 1 else 1 + height ndd)
       in augment td (mk dir w (h' + 1) (augment td (mk dir v h' d ndd)) ndnd))"
      by (metis w rotate_single_mk)
    finally show ?thesis using augmented_augment_mk [OF f] d sub by (simp add: Let_def)
  qed
qed

lemma augmented_rebalance_one:
  assumes f: "td_augment td = Some f" "recomputes f"
    and l: "augmented f l" "avl l" and r: "augmented f r" "avl r"
  shows "augmented f (fst (rebalance_one td (Node l v h r)))"
    and "snd (rebalance_one td (Node l v h r))"
proof -
  have l0: "0 \<le> height l" and r0: "0 \<le> height r" using l r by (auto intro: avl_height_nonneg)
  consider "height l > height r + 1" | "height l < height r - 1"
    | "height l \<le> height r + 1" "height l \<ge> height r - 1" by linarith
  then have "augmented f (fst (rebalance_one td (Node l v h r))) \<and>
      snd (rebalance_one td (Node l v h r))"
  proof cases
    case 1
    then have "l \<noteq> Null" using r0 by auto
    with 1 augmented_rotate [OF f r(1) l(1) _ l(2), of True v h] show ?thesis
      by (simp add: mk_def)
  next
    case 2
    then have "r \<noteq> Null" using l0 by auto
    with 2 augmented_rotate [OF f l(1) r(1) _ r(2), of False v h] show ?thesis
      by (simp add: mk_def)
  next
    case 3
    then show ?thesis using f augmented_augment [OF f l(1) r(1)]
      by (auto simp: Let_def simp del: augment.simps)
  qed
  then show "augmented f (fst (rebalance_one td (Node l v h r)))"
    and "snd (rebalance_one td (Node l v h r))" by auto
qed

lemma augmented_rebalance_one_mk:
  assumes f: "td_augment td = Some f" "recomputes f"
    and d: "augmented f d" "avl d" and nd: "augmented f nd" "avl nd"
  shows "augmented f (fst (rebalance_one td (mk dir v h d nd))) \<and>
         snd (rebalance_one td (mk dir v h d nd))"
  using augmented_rebalance_one [OF f d nd] augmented_rebalance_one [OF f nd d]
  by (cases dir) (auto simp: mk_def)

text \<open>
  With an augment function the walk never stops early, so every node on the path is rebuilt:
  only the subtrees off the path need to be right beforehand.
\<close>

lemma augmented_up:
  assumes f: "td_augment td = Some f" "recomputes f"
  shows "avl (plug t c) \<Longrightarrow> augmented_ctx f c \<Longrightarrow> augmented f t' \<Longrightarrow> avl t' \<Longrightarrow>
    \<bar>height t' - height t\<bar> \<le> 1 \<Longrightarrow> augmented f (up td t' c)"
proof (induction t c arbitrary: t' rule: plug.induct)
  case (1 t)
  then show ?case by simp
next
  case (2 t dir v h s c)
  have old: "avl (mk dir v h t s)" using 2(2) avl_plug [of "mk dir v h t s" c] by simp
  have s: "augmented f s" "avl s" and c: "augmented_ctx f c" using old 2(3) by auto
  have lim: "\<bar>height t' - height s\<bar> \<le> 2" using old 2(6) by auto
  obtain t'' go where r: "rebalance_one td (mk dir v h t' s) = (t'', go)"
    by (cases "rebalance_one td (mk dir v h t' s)")
  note one = rebalance_one_mk [OF 2(5) s(2) lim r]
  have "augmented f t''" and go: "go"
    using augmented_rebalance_one_mk [OF f 2(4,5) s, of dir v h] r by auto
  moreover have "\<bar>height t'' - height (mk dir v h t s)\<bar> \<le> 1"
    using one(2) old 2(6) by auto
  ultimately have "augmented f (up td t'' c)"
    using 2(1) [of t''] 2(2) one(1) c by simp
  then show ?case by (simp add: rebalance_path_alt r go)
qed

lemma augmented_plug: "augmented f (plug t c) \<Longrightarrow> augmented f t \<and> augmented_ctx f c"
  by (induction t c rule: plug.induct) (auto simp: mk_def split: if_splits)

theorem augmented_insert:
  assumes f: "td_augment td = Some f" "recomputes f"
    and "avl t" "augmented f t" "avl_insert td t v = Some t'"
  shows "augmented f t'"
proof -
  obtain p where p: "snd (lookup_ipath td t (td_key td v)) = Some p" "t' = insert_ipath td v p"
    using assms(5) by (auto simp: avl_insert_def)
  have t: "plug Null p = t" using p(1) by (rule lookup_ipath_plug)
  have new: "augmented f (augment td (Node Null v 1 Null))"
    using augmented_augment [OF f, of Null Null] by simp
  have "avl (augment td (Node Null v 1 Null))" unfolding avl_augment by simp
  moreover have "\<bar>height (augment td (Node Null v 1 Null)) - height Null\<bar> \<le> 1"
    unfolding height_augment by simp
  ultimately show ?thesis
    unfolding p(2) insert_ipath_up using t assms(3,4) new augmented_plug [of f Null p]
    by (intro augmented_up [OF f]) auto
qed

lemma augmented_rebalance_whence:
  assumes f: "td_augment td = Some f" "recomputes f"
    and "avl (plug t c)" "augmented_ctx f c" "augmented f t'" "avl t'" "\<bar>height t' - height t\<bar> \<le> 1"
  shows "augmented f (rebalance_whence td t' c)"
proof (cases c)
  case Nil
  with assms show ?thesis by (simp add: rebalance_whence_def)
next
  case (Cons fr c')
  obtain dir v h s where fr: "fr = (dir, v, h, s)" by (cases fr)
  obtain v' where v': "augment td (mk dir v h t' s) = mk dir v' h t' s"
    by (rule augment_mk_shape)
  have "avl (plug t ((dir, v', h, s) # c'))"
    using assms(3) unfolding Cons fr by (rule avl_frame_data)
  from augmented_up [OF f this _ assms(5-7)] assms(4) show ?thesis
    by (simp add: Cons fr rebalance_whence_def v')
qed

lemma augmented_rightmost:
  "rightmost t p = (t', p') \<Longrightarrow> augmented f t \<Longrightarrow> augmented_ctx f p \<Longrightarrow>
   augmented f t' \<and> augmented_ctx f p'"
  by (induction t p rule: rightmost.induct) (auto split: if_splits)

lemma augmented_ctx_append: "augmented_ctx f (p @ q) \<longleftrightarrow> augmented_ctx f p \<and> augmented_ctx f q"
  by (induction f p rule: augmented_ctx.induct) auto

theorem augmented_delete:
  assumes f: "td_augment td = Some f" "recomputes f"
    and "avl t" "augmented f t" "avl_delete td t v = Some t'"
  shows "augmented f t'"
proof -
  obtain n p where lp: "lookup_path td t (td_key td v) [] = (n, p)"
    by (cases "lookup_path td t (td_key td v) []")
  have t: "plug n p = t" using lookup_path_plug [OF lp] by simp
  obtain l w h r where n: "n = Node l w h r"
    using assms(5) lp by (cases n) (auto simp: avl_delete_def)
  have del: "delete_generic td (Node l w h r, p) = Some t'"
    using assms(5) lp n by (simp add: avl_delete_def)
  have an: "avl (Node l w h r)" using assms(3) t n avl_plug by metis
  have ag: "augmented f (Node l w h r)" "augmented_ctx f p"
    using assms(4) t n augmented_plug by metis+
  show ?thesis
  proof (cases "l = Null \<or> r = Null")
    case True
    define m where "m = (if l = Null then r else l)"
    have m: "avl m" "augmented f m" "\<bar>height m - height n\<bar> \<le> 1"
      using an ag n True avl_height_nonneg [of l] avl_height_nonneg [of r] by (auto simp: m_def)
    have "t' = rebalance_whence td m p"
      using del True by (auto simp: m_def split: if_splits)
    then show ?thesis using augmented_rebalance_whence [OF f _ ag(2) m(2,1,3)] assms(3) t by simp
  next
    case False
    then obtain sl sv sh q where rm: "rightmost l [] = (Node sl sv sh Null, q)"
      using rightmost_shape by metis
    have pl: "plug (Node sl sv sh Null) q = l" using rightmost_plug [OF rm] by simp
    have t': "t' = rebalance_whence td sl (q @ (False, sv, h, r) # p)"
      using del False rm by simp
    have "avl (plug l ((False, sv, h, r) # p))"
      using assms(3) t n avl_frame_data [of l False w h r p sv] by (simp add: mk_def)
    then have whole: "avl (plug (Node sl sv sh Null) (q @ (False, sv, h, r) # p))"
      by (simp add: plug_append pl)
    then have "avl (Node sl sv sh Null)" by (rule avl_plug)
    then have sl: "avl sl" "\<bar>height sl - height (Node sl sv sh Null)\<bar> \<le> 1"
      using avl_height_nonneg [of sl] by auto
    have "augmented f sl" "augmented_ctx f (q @ (False, sv, h, r) # p)"
      using augmented_rightmost [OF rm, of f] ag by (auto simp: augmented_ctx_append)
    then show ?thesis unfolding t'
      using augmented_rebalance_whence [OF f whole] sl by blast
  qed
qed

text \<open>
  After the data of one node has changed, \<open>ddsrt_avl_augment_update\<close> from that node restores
  the summaries of the whole tree.
\<close>

theorem augmented_update:
  assumes f: "td_augment td = Some f" "recomputes f"
    and "augmented_ctx f c" "augmented f l" "augmented f r"
  shows "augmented f (augment_update td (Node l v h r, c))"
  using assms(3-5)
proof (induction c arbitrary: l v h r)
  case Nil
  then show ?case using augmented_augment [OF f, of l r v h] by (simp del: augment.simps)
next
  case (Cons fr c)
  obtain dir w k s where fr: "fr = (dir, w, k, s)" by (cases fr)
  have a: "augmented f (augment td (Node l v h r))"
    using augmented_augment [OF f Cons.prems(2,3)] .
  have s: "augmented f s" "augmented_ctx f c" using Cons.prems(1) fr by auto
  show ?case
    using Cons.IH [OF s(2)] a s(1)
    by (cases dir) (simp_all add: fr mk_def del: augment.simps)
qed

lemma augment_update_inorder:
  assumes "keeps td core"
  shows "map core (inorder (augment_update td (t, c))) = map core (inorder (plug t c))"
proof (induction c arbitrary: t)
  case Nil
  then show ?case using inorder_augment [OF assms] by simp
next
  case (Cons fr c)
  obtain dir w k s where fr: "fr = (dir, w, k, s)" by (cases fr)
  show ?case
    using Cons.IH inorder_augment [OF assms, of t]
    by (simp add: fr inorder_plug inorder_mk)
qed

end
