(* ===== verification/Inverse_Set.thy ===== *)
theory Inverse_Set
  imports Avl_Index
begin

text \<open>
  The allocator of entity ids, \<open>src/core/ddsi/src/q_inverse_uint32_set.c\<close>: the ids that are
  free, as a tree of non-adjacent intervals, with a cursor that makes allocation go round.
  The tree is the AVL tree of the model, used through its index contract.
\<close>

section \<open>State\<close>

record iset_node =
  nd_min :: nat
  nd_max :: nat

record inverse_uint32_set =
  ids :: "iset_node avl"
  cursor :: nat
  set_min :: nat
  set_max :: nat

definition uint32_t_cmp :: "nat \<Rightarrow> nat \<Rightarrow> int" where
  "uint32_t_cmp a b = (if a = b then 0 else if a < b then -1 else 1)"

definition inverse_uint32_set_td :: "(iset_node, nat) avl_treedef" where
  "inverse_uint32_set_td =
     \<lparr>td_key = nd_min, td_comparekk = uint32_t_cmp, td_augment = None, td_allowdups = False\<rparr>"

interpretation iset: avl_index inverse_uint32_set_td
  by unfold_locales (auto simp: inverse_uint32_set_td_def orders_def uint32_t_cmp_def)

text \<open>\<open>id + 1\<close> on uint32.\<close>

definition inc32 :: "nat \<Rightarrow> nat" where
  "inc32 x = (x + 1) mod 2 ^ 32"

text \<open>The debug check: the walk over the tree with the previous node \<open>pn\<close>.\<close>

fun check_nodes :: "nat \<Rightarrow> nat \<Rightarrow> iset_node option \<Rightarrow> iset_node list \<Rightarrow> bool" where
  "check_nodes lo hi pn [] = True"
| "check_nodes lo hi pn (n # ns) =
     (nd_min n \<le> nd_max n \<and> lo \<le> nd_min n \<and> nd_max n \<le> hi \<and>
      (case pn of None \<Rightarrow> True | Some p \<Rightarrow> inc32 (nd_max p) < nd_min n) \<and>
      check_nodes lo hi (Some n) ns)"

definition check :: "inverse_uint32_set \<Rightarrow> bool" where
  "check S \<longleftrightarrow> set_min S \<le> set_max S \<and> set_min S \<le> cursor S \<and> cursor S \<le> set_max S \<and>
     check_nodes (set_min S) (set_max S) None (inorder (ids S))"

section \<open>Operations\<close>

definition inverse_uint32_set_init :: "nat \<Rightarrow> nat \<Rightarrow> inverse_uint32_set option" where
  "inverse_uint32_set_init lo hi = do {
     t \<leftarrow> avl_insert inverse_uint32_set_td Null \<lparr>nd_min = lo, nd_max = hi\<rparr>;
     let S = \<lparr>ids = t, cursor = lo, set_min = lo, set_max = hi\<rparr>;
     _ \<leftarrow> assertion (check S);
     Some S }"

definition inverse_uint32_set_alloc_use_min ::
  "iset_node avl \<Rightarrow> iset_node \<Rightarrow> (nat \<times> iset_node avl) option" where
  "inverse_uint32_set_alloc_use_min t n = do {
     let id = nd_min n;
     t' \<leftarrow> (if nd_min n = nd_max n then avl_delete inverse_uint32_set_td t n
           else write_node inverse_uint32_set_td t n (n\<lparr>nd_min := inc32 (nd_min n)\<rparr>));
     Some (id, t') }"

text \<open>The first branch: the cursor itself is free, in the interval \<open>n\<close>.\<close>

definition alloc_at_cursor ::
  "inverse_uint32_set \<Rightarrow> iset_node \<Rightarrow> (nat \<times> iset_node avl) option" where
  "alloc_at_cursor S n =
     (if nd_min n = cursor S then inverse_uint32_set_alloc_use_min (ids S) n
      else if cursor S = nd_max n then do {
        _ \<leftarrow> assertion (nd_min n < nd_max n);
        t \<leftarrow> write_node inverse_uint32_set_td (ids S) n (n\<lparr>nd_max := nd_max n - 1\<rparr>);
        Some (cursor S, t) }
      else do {
        _ \<leftarrow> assertion (nd_min n < cursor S \<and> cursor S < nd_max n);
        let n1 = \<lparr>nd_min = inc32 (cursor S), nd_max = nd_max n\<rparr>;
        t \<leftarrow> write_node inverse_uint32_set_td (ids S) n (n\<lparr>nd_max := cursor S - 1\<rparr>);
        t' \<leftarrow> avl_insert inverse_uint32_set_td t n1;
        Some (cursor S, t') })"

text \<open>The other branches: the first free id above the cursor, or else the first one of all.\<close>

definition alloc_elsewhere ::
  "inverse_uint32_set \<Rightarrow> (nat \<times> iset_node avl) option option" where
  "alloc_elsewhere S =
     (case lookup_succ inverse_uint32_set_td (ids S) (cursor S) of
        Some n \<Rightarrow> map_option Some (inverse_uint32_set_alloc_use_min (ids S) n)
      | None \<Rightarrow>
          (case find_min (ids S) of
             Some n \<Rightarrow> do {
               _ \<leftarrow> assertion (nd_max n < cursor S);
               map_option Some (inverse_uint32_set_alloc_use_min (ids S) n) }
           | None \<Rightarrow> Some None))"

definition alloc_pick :: "inverse_uint32_set \<Rightarrow> (nat \<times> iset_node avl) option option" where
  "alloc_pick S =
     (case lookup_pred_eq inverse_uint32_set_td (ids S) (cursor S) of
        Some n \<Rightarrow>
          if cursor S \<le> nd_max n then map_option Some (alloc_at_cursor S n) else alloc_elsewhere S
      | None \<Rightarrow> alloc_elsewhere S)"

text \<open>
  The outer option is failure of an assertion; \<open>(None, S)\<close> is the return value 0 (no id
  left), \<open>(Some i, S')\<close> the return value 1 with \<open>*id = i\<close>.
\<close>

definition inverse_uint32_set_alloc ::
  "inverse_uint32_set \<Rightarrow> (nat option \<times> inverse_uint32_set) option" where
  "inverse_uint32_set_alloc S = do {
     r \<leftarrow> alloc_pick S;
     (case r of
        None \<Rightarrow> Some (None, S)
      | Some (i, t) \<Rightarrow> do {
          _ \<leftarrow> assertion (set_min S \<le> i);
          let S' = S\<lparr>ids := t, cursor := (if i < set_max S then i + 1 else set_min S)\<rparr>;
          _ \<leftarrow> assertion (check S');
          Some (Some i, S') }) }"

text \<open>Returning an id: already free, growing an interval at either end, or a new interval.\<close>

definition free_finish :: "inverse_uint32_set \<Rightarrow> iset_node avl \<Rightarrow> inverse_uint32_set option" where
  "free_finish S t = do { _ \<leftarrow> assertion (check (S\<lparr>ids := t\<rparr>)); Some (S\<lparr>ids := t\<rparr>) }"

definition free_apart :: "inverse_uint32_set \<Rightarrow> nat \<Rightarrow> inverse_uint32_set option" where
  "free_apart S i =
     (case lookup inverse_uint32_set_td (ids S) (inc32 i) of
        Some n \<Rightarrow>
          write_node inverse_uint32_set_td (ids S) n (n\<lparr>nd_min := i\<rparr>) \<bind> free_finish S
      | None \<Rightarrow>
          insert_at inverse_uint32_set_td (ids S) (inc32 i) \<lparr>nd_min = i, nd_max = i\<rparr>
            \<bind> free_finish S)"

definition inverse_uint32_set_free ::
  "inverse_uint32_set \<Rightarrow> nat \<Rightarrow> inverse_uint32_set option" where
  "inverse_uint32_set_free S i =
     (case lookup_pred_eq inverse_uint32_set_td (ids S) i of
        Some n \<Rightarrow>
          if i \<le> inc32 (nd_max n) then
            (if i \<le> nd_max n then Some S
             else (case lookup inverse_uint32_set_td (ids S) (inc32 i) of
                     None \<Rightarrow>
                       write_node inverse_uint32_set_td (ids S) n (n\<lparr>nd_max := i\<rparr>)
                         \<bind> free_finish S
                   | Some n1 \<Rightarrow> do {
                       t \<leftarrow> write_node inverse_uint32_set_td (ids S) n (n\<lparr>nd_max := nd_max n1\<rparr>);
                       t' \<leftarrow> avl_delete inverse_uint32_set_td t n1;
                       free_finish S t' }))
          else free_apart S i
      | None \<Rightarrow> free_apart S i)"

section \<open>Specification and invariant\<close>

text \<open>The free ids.\<close>

definition covers :: "iset_node list \<Rightarrow> nat set" where
  "covers ns = (\<Union>n\<in>set ns. {nd_min n..nd_max n})"

definition avail :: "inverse_uint32_set \<Rightarrow> nat set" where
  "avail S = covers (inorder (ids S))"

definition spaced :: "nat \<Rightarrow> nat \<Rightarrow> iset_node list \<Rightarrow> bool" where
  "spaced lo hi ns \<longleftrightarrow> sorted_wrt (\<lambda>a b. nd_max a + 1 < nd_min b) ns \<and>
     (\<forall>n\<in>set ns. nd_min n \<le> nd_max n \<and> lo \<le> nd_min n \<and> nd_max n \<le> hi)"

definition iset_inv :: "inverse_uint32_set \<Rightarrow> bool" where
  "iset_inv S \<longleftrightarrow> index_ok inverse_uint32_set_td (ids S) \<and>
     spaced (set_min S) (set_max S) (inorder (ids S)) \<and>
     set_min S \<le> cursor S \<and> cursor S \<le> set_max S \<and> set_max S + 1 < 2 ^ 32"

lemma td_key_iset [simp]: "td_key inverse_uint32_set_td = nd_min"
  by (simp add: inverse_uint32_set_td_def)

lemma inc32_small [simp]: "x + 1 < 2 ^ 32 \<Longrightarrow> inc32 x = x + 1"
  by (simp add: inc32_def)

lemma spaced_simps [simp]:
  "spaced lo hi []"
  "spaced lo hi (n # ns) \<longleftrightarrow> nd_min n \<le> nd_max n \<and> lo \<le> nd_min n \<and> nd_max n \<le> hi \<and>
     (\<forall>m\<in>set ns. nd_max n + 1 < nd_min m) \<and> spaced lo hi ns"
  "spaced lo hi (ns @ ms) \<longleftrightarrow> spaced lo hi ns \<and> spaced lo hi ms \<and>
     (\<forall>n\<in>set ns. \<forall>m\<in>set ms. nd_max n + 1 < nd_min m)"
  by (auto simp: spaced_def sorted_wrt_append)

lemma spaced_before:
  assumes "spaced lo hi (xs @ n # ys)" "x \<in> set xs"
  shows "nd_min x \<le> nd_max x" "nd_max x + 1 < nd_min n" "nd_min x < nd_min n"
proof -
  show "nd_min x \<le> nd_max x" "nd_max x + 1 < nd_min n"
    using assms by (auto simp: spaced_def sorted_wrt_append)
  then show "nd_min x < nd_min n" by simp
qed

lemma covers_simps [simp]:
  "covers [] = {}" "covers (n # ns) = {nd_min n..nd_max n} \<union> covers ns"
  "covers (ns @ ms) = covers ns \<union> covers ms"
  by (auto simp: covers_def)

lemma spaced_check_nodes:
  "spaced lo hi ns \<Longrightarrow> hi + 1 < 2 ^ 32 \<Longrightarrow>
   (\<forall>p. pn = Some p \<longrightarrow> nd_max p \<le> hi \<and> (\<forall>n\<in>set ns. nd_max p + 1 < nd_min n)) \<Longrightarrow>
   check_nodes lo hi pn ns"
  by (induction ns arbitrary: pn) (auto split: option.split)

lemma iset_inv_check: "iset_inv S \<Longrightarrow> check S"
  by (auto simp: iset_inv_def check_def intro!: spaced_check_nodes)

lemma covers_below: "spaced lo hi ns \<Longrightarrow> \<forall>n\<in>set ns. nd_max n < k \<Longrightarrow> i \<in> covers ns \<Longrightarrow> i < k"
  by (auto simp: covers_def intro: le_less_trans)

lemma covers_above: "\<forall>n\<in>set ns. k < nd_min n \<Longrightarrow> i \<in> covers ns \<Longrightarrow> k < i"
  by (auto simp: covers_def intro: less_le_trans)

lemma covers_range: "spaced lo hi ns \<Longrightarrow> i \<in> covers ns \<Longrightarrow> lo \<le> i \<and> i \<le> hi"
  by (fastforce simp: covers_def spaced_def)

section \<open>Allocation\<close>

text \<open>Taking the least id of an interval.\<close>

lemma alloc_use_min:
  assumes "index_ok inverse_uint32_set_td t" "spaced lo hi (inorder t)" "hi + 1 < 2 ^ 32"
    and "inorder t = xs @ n # ys"
  shows "\<exists>t'. inverse_uint32_set_alloc_use_min t n = Some (nd_min n, t') \<and>
    index_ok inverse_uint32_set_td t' \<and> spaced lo hi (inorder t') \<and>
    covers (inorder t') = covers (inorder t) - {nd_min n}"
proof -
  have n: "nd_min n \<le> nd_max n" "nd_max n \<le> hi" and
    out: "nd_min n \<notin> covers xs" "nd_min n \<notin> covers ys"
    using assms(2) unfolding assms(4) by (fastforce simp: covers_def)+
  show ?thesis
  proof (cases "nd_min n = nd_max n")
    case True
    obtain t' where t': "avl_delete inverse_uint32_set_td t n = Some t'"
      "index_ok inverse_uint32_set_td t'" "inorder t' = xs @ ys"
      using iset.del_law [OF assms(1,4)] by blast
    have "covers (xs @ ys) = covers (inorder t) - {nd_min n}"
      unfolding assms(4) using True out by auto
    with t' True assms(2) show ?thesis
      unfolding assms(4) by (simp add: inverse_uint32_set_alloc_use_min_def)
  next
    case False
    let ?n' = "n\<lparr>nd_min := nd_min n + 1\<rparr>"
    have inc: "inc32 (nd_min n) = nd_min n + 1" using n assms(3) by simp
    have s: "spaced lo hi (xs @ ?n' # ys)" using assms(2) False unfolding assms(4) by auto
    have "\<forall>x\<in>set xs. nd_min x < nd_min ?n'"
      using spaced_before [OF assms(2) [unfolded assms(4)]] by (simp add: less_Suc_eq)
    moreover have "\<forall>y\<in>set ys. nd_min ?n' < nd_min y"
      using assms(2) False n unfolding assms(4) by fastforce
    ultimately obtain t' where t': "write_node inverse_uint32_set_td t n ?n' = Some t'"
      "index_ok inverse_uint32_set_td t'" "inorder t' = xs @ ?n' # ys"
      using iset.wr_law [OF assms(1,4), of ?n'] by auto
    have "covers (xs @ ?n' # ys) = covers (inorder t) - {nd_min n}"
      unfolding assms(4) using n False out by auto
    with t' s False show ?thesis by (simp add: inverse_uint32_set_alloc_use_min_def inc)
  qed
qed

text \<open>What a pick from the tree may return: a free id, removed from the tree.\<close>

definition picked :: "inverse_uint32_set \<Rightarrow> nat \<times> iset_node avl \<Rightarrow> bool" where
  "picked S r \<longleftrightarrow> fst r \<in> avail S \<and> index_ok inverse_uint32_set_td (snd r) \<and>
     spaced (set_min S) (set_max S) (inorder (snd r)) \<and>
     covers (inorder (snd r)) = avail S - {fst r}"

lemma use_min_picked:
  assumes "iset_inv S" "inorder (ids S) = xs @ n # ys"
  shows "\<exists>t'. inverse_uint32_set_alloc_use_min (ids S) n = Some (nd_min n, t') \<and> picked S (nd_min n, t')"
proof -
  have "nd_min n \<in> avail S" using assms by (auto simp: avail_def iset_inv_def)
  then show ?thesis using alloc_use_min [of "ids S" _ _ xs n ys] assms
    by (auto simp: iset_inv_def picked_def avail_def)
qed

lemma alloc_at_cursor_picked:
  assumes inv: "iset_inv S" and e: "inorder (ids S) = xs @ n # ys"
    and c: "nd_min n \<le> cursor S" "cursor S \<le> nd_max n"
  shows "\<exists>t'. alloc_at_cursor S n = Some (cursor S, t') \<and> picked S (cursor S, t')"
proof -
  have ok: "index_ok inverse_uint32_set_td (ids S)" and hi: "set_max S + 1 < 2 ^ 32"
    and sp: "spaced (set_min S) (set_max S) (xs @ n # ys)"
    using inv e by (auto simp: iset_inv_def)
  have av: "cursor S \<in> avail S" using e c by (simp add: avail_def)
  have out: "cursor S \<notin> covers xs" "cursor S \<notin> covers ys"
    using sp c by (fastforce simp: covers_def)+
  consider "nd_min n = cursor S" | "nd_min n < cursor S" "cursor S = nd_max n"
    | "nd_min n < cursor S" "cursor S < nd_max n" using c by linarith
  then show ?thesis
  proof cases
    case 1
    with use_min_picked [OF inv e] show ?thesis by (auto simp: alloc_at_cursor_def)
  next
    case 2
    let ?n = "n\<lparr>nd_max := nd_max n - 1\<rparr>"
    have key: "\<forall>x\<in>set xs. nd_min x < nd_min ?n" "\<forall>y\<in>set ys. nd_min ?n < nd_min y"
      using iset.split_keys [OF ok e] by auto
    obtain t' where t': "write_node inverse_uint32_set_td (ids S) n ?n = Some t'"
      "index_ok inverse_uint32_set_td t'" "inorder t' = xs @ ?n # ys"
      using iset.wr_law [OF ok e, of ?n] key by auto
    have s: "spaced (set_min S) (set_max S) (xs @ ?n # ys)" using sp 2 by fastforce
    have "covers (xs @ ?n # ys) = avail S - {cursor S}"
      using e 2 out by (auto simp: avail_def)
    with t' s av 2 show ?thesis by (auto simp: alloc_at_cursor_def picked_def)
  next
    case 3
    let ?n = "n\<lparr>nd_max := cursor S - 1\<rparr>"
    let ?n1 = "\<lparr>nd_min = cursor S + 1, nd_max = nd_max n\<rparr>"
    have inc: "inc32 (cursor S) = cursor S + 1" using 3 sp hi by simp
    have key: "\<forall>x\<in>set xs. nd_min x < nd_min ?n" "\<forall>y\<in>set ys. nd_min ?n < nd_min y"
      using iset.split_keys [OF ok e] by auto
    obtain t1 where t1: "write_node inverse_uint32_set_td (ids S) n ?n = Some t1"
      "index_ok inverse_uint32_set_td t1" "inorder t1 = xs @ ?n # ys"
      using iset.wr_law [OF ok e, of ?n] key by auto
    have s: "spaced (set_min S) (set_max S) ((xs @ [?n]) @ ?n1 # ys)"
      using sp 3 by fastforce
    have "inorder t1 = (xs @ [?n]) @ ys" using t1 by simp
    moreover have "nd_min x < cursor S + 1" if "x \<in> set xs" for x
      using spaced_before [OF sp that] 3 by linarith
    then have "\<forall>x\<in>set (xs @ [?n]). nd_min x < nd_min ?n1" using 3 by auto
    moreover have "\<forall>y\<in>set ys. nd_min ?n1 < nd_min y"
      using sp 3 by fastforce
    ultimately obtain t' where t': "avl_insert inverse_uint32_set_td t1 ?n1 = Some t'"
      "index_ok inverse_uint32_set_td t'" "inorder t' = (xs @ [?n]) @ ?n1 # ys"
      using iset.ins_law [OF t1(2), of "xs @ [?n]" ys ?n1] by auto
    have "covers ((xs @ [?n]) @ ?n1 # ys) = avail S - {cursor S}"
      using e 3 out by (auto simp: avail_def)
    with t1 t' s av 3 show ?thesis by (auto simp: alloc_at_cursor_def picked_def inc)
  qed
qed

text \<open>
  The round-robin choice: the least free id from the cursor on, or else the least free id.
\<close>

definition next_free :: "inverse_uint32_set \<Rightarrow> nat \<Rightarrow> bool" where
  "next_free S i \<longleftrightarrow> i \<in> avail S \<and>
     (if \<exists>j\<in>avail S. cursor S \<le> j then cursor S \<le> i \<and> (\<forall>j\<in>avail S. cursor S \<le> j \<longrightarrow> i \<le> j)
      else \<forall>j\<in>avail S. i \<le> j)"

lemma alloc_elsewhere_picked:
  assumes inv: "iset_inv S" and free: "cursor S \<notin> avail S"
  shows "(avail S = {} \<and> alloc_elsewhere S = Some None) \<or>
    (\<exists>i t'. alloc_elsewhere S = Some (Some (i, t')) \<and> picked S (i, t') \<and> next_free S i)"
proof (cases "lookup_succ inverse_uint32_set_td (ids S) (cursor S)")
  case (Some n)
  have ok: "index_ok inverse_uint32_set_td (ids S)" using inv by (simp add: iset_inv_def)
  obtain xs ys where e: "inorder (ids S) = xs @ n # ys" "cursor S < nd_min n"
    "\<forall>x\<in>set xs. nd_min x \<le> cursor S"
    using iset.succ_split [OF ok Some] by auto
  have sp: "spaced (set_min S) (set_max S) (xs @ n # ys)" using inv e by (simp add: iset_inv_def)
  have below: "j < cursor S" if "j \<in> covers xs" for j
  proof -
    obtain x where x: "x \<in> set xs" "nd_min x \<le> j" "j \<le> nd_max x"
      using \<open>j \<in> covers xs\<close> by (auto simp: covers_def)
    have "\<not> cursor S \<le> nd_max x"
      using free x e by (auto simp: avail_def covers_def)
    with x show ?thesis by simp
  qed
  have above: "nd_min n \<le> j" if "j \<in> covers (n # ys)" for j
    using that sp by (force simp: covers_def)
  have av: "avail S = covers xs \<union> covers (n # ys)" using e(1) by (simp add: avail_def)
  have "nd_min n \<in> avail S" using sp av by simp
  moreover have "nd_min n \<le> j" if "j \<in> avail S" "cursor S \<le> j" for j
    using that below [of j] above [of j] unfolding av by fastforce
  ultimately have "next_free S (nd_min n)"
    using e(2) by (auto simp: next_free_def)
  with use_min_picked [OF inv e(1)] Some show ?thesis by (auto simp: alloc_elsewhere_def)
next
  case None
  have ok: "index_ok inverse_uint32_set_td (ids S)" using inv by (simp add: iset_inv_def)
  have le: "\<forall>x\<in>set (inorder (ids S)). nd_min x \<le> cursor S"
    using iset.succ_None [OF ok] None by simp
  show ?thesis
  proof (cases "find_min (ids S)")
    case None': None
    then have "inorder (ids S) = []" by (simp add: find_min_inorder)
    with None None' show ?thesis by (simp add: alloc_elsewhere_def avail_def)
  next
    case (Some n)
    then obtain ys where e: "inorder (ids S) = [] @ n # ys"
      by (auto simp: find_min_inorder hd_opt_Some)
    have sp: "spaced (set_min S) (set_max S) (n # ys)" using inv e by (simp add: iset_inv_def)
    have lt: "nd_max x < cursor S" if "x \<in> set (n # ys)" for x
    proof -
      have "nd_min x \<le> cursor S" using le that e by auto
      moreover have "\<not> (nd_min x \<le> cursor S \<and> cursor S \<le> nd_max x)"
        using free that e by (auto simp: avail_def covers_def)
      ultimately show ?thesis by simp
    qed
    have "j < cursor S" if j: "j \<in> avail S" for j
    proof -
      obtain x where "x \<in> set (n # ys)" "j \<le> nd_max x"
        using j e by (auto simp: avail_def covers_def)
      with lt [of x] show ?thesis by simp
    qed
    moreover have "nd_min n \<le> j" if "j \<in> avail S" for j
      using that sp e by (force simp: avail_def covers_def)
    moreover have "nd_min n \<in> avail S" using sp e by (simp add: avail_def)
    ultimately have "next_free S (nd_min n)" by (meson next_free_def not_le)
    with use_min_picked [OF inv e] None Some lt [of n] show ?thesis
      by (auto simp: alloc_elsewhere_def)
  qed
qed

lemma alloc_pick_picked:
  assumes inv: "iset_inv S"
  shows "(avail S = {} \<and> alloc_pick S = Some None) \<or>
    (\<exists>i t'. alloc_pick S = Some (Some (i, t')) \<and> picked S (i, t') \<and> next_free S i)"
proof -
  have ok: "index_ok inverse_uint32_set_td (ids S)" using inv by (simp add: iset_inv_def)
  show ?thesis
  proof (cases "cursor S \<in> avail S")
    case True
    then obtain n where n: "n \<in> set (inorder (ids S))" "nd_min n \<le> cursor S" "cursor S \<le> nd_max n"
      by (auto simp: avail_def covers_def)
    then obtain xs ys where e: "inorder (ids S) = xs @ n # ys" by (meson split_list)
    have "\<forall>y\<in>set ys. cursor S < nd_min y"
      using inv n e by (fastforce simp: iset_inv_def)
    then have "lookup_pred_eq inverse_uint32_set_td (ids S) (cursor S) = Some n"
      using iset.pred_eq_at [OF ok e, of "cursor S"] n by simp
    moreover have "next_free S (cursor S)" using True by (auto simp: next_free_def)
    ultimately show ?thesis
      using alloc_at_cursor_picked [OF inv e n(2,3)] n(3) by (auto simp: alloc_pick_def)
  next
    case False
    have "alloc_pick S = alloc_elsewhere S"
    proof (cases "lookup_pred_eq inverse_uint32_set_td (ids S) (cursor S)")
      case (Some n)
      obtain xs ys where "inorder (ids S) = xs @ n # ys" "nd_min n \<le> cursor S"
        by (rule iset.pred_eq_split [OF ok Some]) simp
      with False have "\<not> cursor S \<le> nd_max n" by (auto simp: avail_def)
      with Some show ?thesis by (simp add: alloc_pick_def)
    qed (simp add: alloc_pick_def)
    with alloc_elsewhere_picked [OF inv False] show ?thesis by simp
  qed
qed

text \<open>What an allocation may do to the allocator.\<close>

definition allocated ::
  "inverse_uint32_set \<Rightarrow> nat option \<Rightarrow> inverse_uint32_set \<Rightarrow> bool" where
  "allocated S r S' \<longleftrightarrow> iset_inv S' \<and> set_min S' = set_min S \<and> set_max S' = set_max S \<and>
    (case r of
       None \<Rightarrow> avail S = {} \<and> S' = S
     | Some i \<Rightarrow> next_free S i \<and> avail S' = avail S - {i} \<and>
         cursor S' = (if i < set_max S then i + 1 else set_min S))"

lemma alloc_allocated:
  assumes "iset_inv S"
  shows "\<exists>r S'. inverse_uint32_set_alloc S = Some (r, S') \<and> allocated S r S'"
proof -
  consider "avail S = {}" "alloc_pick S = Some None"
    | i t where "alloc_pick S = Some (Some (i, t))" "picked S (i, t)" "next_free S i"
    using alloc_pick_picked [OF assms] by blast
  then show ?thesis
  proof cases
    case 1
    with assms show ?thesis by (simp add: inverse_uint32_set_alloc_def allocated_def)
  next
    case 2
    let ?S = "S\<lparr>ids := t, cursor := (if i < set_max S then i + 1 else set_min S)\<rparr>"
    have i: "set_min S \<le> i \<and> i \<le> set_max S"
      using 2(2) assms covers_range by (auto simp: picked_def avail_def iset_inv_def)
    then have inv: "iset_inv ?S" using 2(2) assms by (auto simp: picked_def iset_inv_def)
    then have "inverse_uint32_set_alloc S = Some (Some i, ?S)"
      using 2(1) i iset_inv_check [OF inv] by (simp add: inverse_uint32_set_alloc_def)
    moreover have "avail ?S = avail S - {i}" using 2(2) by (simp add: picked_def avail_def)
    ultimately show ?thesis using inv 2(3) by (auto simp: allocated_def)
  qed
qed

section \<open>Release\<close>

text \<open>What each branch ends in: the tree with the id added, as the specification has it.\<close>

definition freed :: "inverse_uint32_set \<Rightarrow> nat \<Rightarrow> inverse_uint32_set \<Rightarrow> bool" where
  "freed S i S' \<longleftrightarrow> iset_inv S' \<and> avail S' = insert i (avail S) \<and> cursor S' = cursor S \<and>
     set_min S' = set_min S \<and> set_max S' = set_max S"

lemma free_finish_freed:
  assumes "iset_inv S" "index_ok inverse_uint32_set_td t"
    and "spaced (set_min S) (set_max S) (inorder t)" "covers (inorder t) = insert i (avail S)"
  shows "\<exists>S'. free_finish S t = Some S' \<and> freed S i S'"
proof -
  have inv: "iset_inv (S\<lparr>ids := t\<rparr>)" using assms by (simp add: iset_inv_def)
  then show ?thesis using iset_inv_check [OF inv] assms
    by (simp add: free_finish_def freed_def avail_def)
qed

lemma lookup_next:
  assumes ok: "index_ok inverse_uint32_set_td t" and e: "inorder t = xs @ ys"
    and "\<forall>x\<in>set xs. nd_min x \<le> i" "\<forall>y\<in>set ys. i < nd_min y"
  shows "case lookup inverse_uint32_set_td t (i + 1) of
    None \<Rightarrow> \<forall>y\<in>set ys. i + 1 < nd_min y
  | Some m \<Rightarrow> nd_min m = i + 1 \<and> (\<exists>zs. ys = m # zs)"
proof -
  have "\<forall>x\<in>set xs. nd_min x < i + 1" "\<forall>y\<in>set ys. i + 1 \<le> nd_min y"
    using assms(3,4) by (auto simp: less_Suc_eq_le Suc_le_eq)
  from iset.get_gap [OF ok e, unfolded td_key_iset, OF this] show ?thesis .
qed

lemma free_apart_freed:
  assumes inv: "iset_inv S" and i: "set_min S \<le> i" "i \<le> set_max S"
    and e: "inorder (ids S) = xs @ ys"
    and below: "\<forall>x\<in>set xs. nd_max x + 1 < i" and above: "\<forall>y\<in>set ys. i < nd_min y"
  shows "\<exists>S'. free_apart S i = Some S' \<and> freed S i S'"
proof -
  have ok: "index_ok inverse_uint32_set_td (ids S)" and hi: "set_max S + 1 < 2 ^ 32"
    and sp: "spaced (set_min S) (set_max S) (xs @ ys)"
    using inv e by (auto simp: iset_inv_def)
  have inc: "inc32 i = i + 1" using i hi by simp
  have lt: "nd_min x < i" if "x \<in> set xs" for x
  proof -
    have "nd_min x \<le> nd_max x" using sp that by (auto simp: spaced_def)
    with below that show ?thesis by fastforce
  qed
  then have le: "\<forall>x\<in>set xs. nd_min x \<le> i" by (simp add: less_imp_le)
  note nx = lookup_next [OF ok e le above]
  show ?thesis
  proof (cases "lookup inverse_uint32_set_td (ids S) (i + 1)")
    case None
    let ?n = "\<lparr>nd_min = i, nd_max = i\<rparr>"
    have gt: "\<forall>y\<in>set ys. i + 1 < nd_min y" using nx None by simp
    obtain t where t: "insert_at inverse_uint32_set_td (ids S) (i + 1) ?n = Some t"
      "index_ok inverse_uint32_set_td t" "inorder t = xs @ ?n # ys"
      using iset.ins_at_law [OF ok e, of "i + 1" ?n] lt gt above by (auto simp: less_Suc_eq)
    have s: "spaced (set_min S) (set_max S) (inorder t)"
      using t(3) sp i below gt by auto
    have "covers (inorder t) = insert i (avail S)" using t(3) e by (auto simp: avail_def)
    from free_finish_freed [OF inv t(2) s this] t(1) None show ?thesis
      by (simp add: free_apart_def inc)
  next
    case (Some m)
    then obtain zs where ys: "ys = m # zs" and m: "nd_min m = i + 1" using nx by auto
    let ?n = "m\<lparr>nd_min := i\<rparr>"
    have e': "inorder (ids S) = xs @ m # zs" using e ys by simp
    obtain t where t: "write_node inverse_uint32_set_td (ids S) m ?n = Some t"
      "index_ok inverse_uint32_set_td t" "inorder t = xs @ ?n # zs"
      using iset.wr_law [OF ok e', of ?n] lt above ys by auto
    have s: "spaced (set_min S) (set_max S) (inorder t)"
      using t(3) sp i below m by (auto simp: ys)
    have mm: "nd_min m \<le> nd_max m" using sp ys by simp
    have "{i..nd_max m} = insert i {nd_min m..nd_max m}" using m mm by auto
    then have "covers (inorder t) = insert i (avail S)" using t(3) e' by (auto simp: avail_def)
    from free_finish_freed [OF inv t(2) s this] t(1) Some show ?thesis
      by (simp add: free_apart_def inc)
  qed
qed

lemma free_grow_freed:
  assumes inv: "iset_inv S" and i: "i \<le> set_max S" and e: "inorder (ids S) = xs @ n # ys"
    and n: "i = nd_max n + 1" and above: "\<forall>y\<in>set ys. i < nd_min y"
    and pe: "lookup_pred_eq inverse_uint32_set_td (ids S) i = Some n"
  shows "\<exists>S'. inverse_uint32_set_free S i = Some S' \<and> freed S i S'"
proof -
  have ok: "index_ok inverse_uint32_set_td (ids S)" and hi: "set_max S + 1 < 2 ^ 32"
    and sp: "spaced (set_min S) (set_max S) (xs @ n # ys)"
    using inv e by (auto simp: iset_inv_def)
  have inc: "inc32 i = i + 1" "inc32 (nd_max n) = i" using i n hi by simp_all
  have nn: "nd_min n \<le> nd_max n" using sp by simp
  have ni: "\<not> i \<le> nd_max n" using n by simp
  note key = iset.split_keys(1,2) [OF ok e, simplified]
  have "\<forall>x\<in>set (xs @ [n]). nd_min x \<le> i" using key nn n by auto
  from lookup_next [OF ok _ this above] e
  have nx: "case lookup inverse_uint32_set_td (ids S) (i + 1) of
      None \<Rightarrow> \<forall>y\<in>set ys. i + 1 < nd_min y
    | Some m \<Rightarrow> nd_min m = i + 1 \<and> (\<exists>zs. ys = m # zs)" by simp
  show ?thesis
  proof (cases "lookup inverse_uint32_set_td (ids S) (i + 1)")
    case None
    let ?n = "n\<lparr>nd_max := i\<rparr>"
    obtain t where t: "write_node inverse_uint32_set_td (ids S) n ?n = Some t"
      "index_ok inverse_uint32_set_td t" "inorder t = xs @ ?n # ys"
      using iset.wr_law [OF ok e, of ?n] key by auto
    have s: "spaced (set_min S) (set_max S) (inorder t)"
      using t(3) sp i nx None n by auto
    have "{nd_min n..i} = insert i {nd_min n..nd_max n}" using n nn by auto
    then have "covers (inorder t) = insert i (avail S)" using t(3) e by (auto simp: avail_def)
    from free_finish_freed [OF inv t(2) s this] t(1) None pe ni show ?thesis
      by (simp add: inverse_uint32_set_free_def inc)
  next
    case (Some m)
    then obtain zs where ys: "ys = m # zs" and m: "nd_min m = i + 1" using nx by auto
    let ?n = "n\<lparr>nd_max := nd_max m\<rparr>"
    obtain t where t: "write_node inverse_uint32_set_td (ids S) n ?n = Some t"
      "index_ok inverse_uint32_set_td t" "inorder t = xs @ ?n # ys"
      using iset.wr_law [OF ok e, of ?n] key by auto
    have e1: "inorder t = (xs @ [?n]) @ m # zs" using t(3) ys by simp
    obtain t' where t': "avl_delete inverse_uint32_set_td t m = Some t'"
      "index_ok inverse_uint32_set_td t'" "inorder t' = (xs @ [?n]) @ zs"
      using iset.del_law [OF t(2) e1] by blast
    have mm: "nd_min m \<le> nd_max m" using sp ys by simp
    have s: "spaced (set_min S) (set_max S) (inorder t')"
      using t'(3) sp n nn m mm by (auto simp: ys)
    have "{nd_min n..nd_max m} = insert i ({nd_min n..nd_max n} \<union> {nd_min m..nd_max m})"
      using n nn m mm by auto
    then have "covers (inorder t') = insert i (avail S)"
      using t'(3) e ys by (auto simp: avail_def)
    from free_finish_freed [OF inv t'(2) s this] t(1) t'(1) Some pe ni show ?thesis
      by (simp add: inverse_uint32_set_free_def inc)
  qed
qed

lemma free_freed:
  assumes inv: "iset_inv S" and i: "set_min S \<le> i" "i \<le> set_max S"
  shows "\<exists>S'. inverse_uint32_set_free S i = Some S' \<and> freed S i S'"
proof -
  have ok: "index_ok inverse_uint32_set_td (ids S)" and hi: "set_max S + 1 < 2 ^ 32"
    using inv by (auto simp: iset_inv_def)
  show ?thesis
  proof (cases "lookup_pred_eq inverse_uint32_set_td (ids S) i")
    case None
    then have "\<forall>y\<in>set (inorder (ids S)). i < nd_min y" using iset.pred_eq_None [OF ok] by simp
    from free_apart_freed [OF inv i _ _ this, of "[]"] None show ?thesis
      by (simp add: inverse_uint32_set_free_def)
  next
    case (Some n)
    obtain xs ys where e: "inorder (ids S) = xs @ n # ys" and n: "nd_min n \<le> i"
      and above: "\<forall>y\<in>set ys. i < nd_min y"
      by (rule iset.pred_eq_split [OF ok Some]) simp
    have sp: "spaced (set_min S) (set_max S) (xs @ n # ys)" using inv e by (simp add: iset_inv_def)
    then have inc: "inc32 (nd_max n) = nd_max n + 1" using hi by simp
    consider "i \<le> nd_max n" | "i = nd_max n + 1" | "nd_max n + 1 < i" by linarith
    then show ?thesis
    proof cases
      case 1
      with n have "i \<in> avail S" using e by (simp add: avail_def)
      with 1 inv Some show ?thesis
        by (auto simp: inverse_uint32_set_free_def freed_def inc)
    next
      case 2
      from free_grow_freed [OF inv i(2) e 2 above Some] show ?thesis .
    next
      case 3
      have "nd_max x + 1 < i" if "x \<in> set xs" for x
        using spaced_before(2) [OF sp that] n by linarith
      with 3 have "\<forall>x\<in>set (xs @ [n]). nd_max x + 1 < i" by auto
      from free_apart_freed [OF inv i _ this above] e 3 Some show ?thesis
        by (simp add: inverse_uint32_set_free_def inc)
    qed
  qed
qed

section \<open>Histories\<close>

lemma init_inv:
  assumes "lo \<le> hi" "hi + 1 < 2 ^ 32"
  shows "\<exists>S. inverse_uint32_set_init lo hi = Some S \<and> iset_inv S \<and> avail S = {lo..hi} \<and>
    set_min S = lo \<and> set_max S = hi"
proof -
  let ?n = "\<lparr>nd_min = lo, nd_max = hi\<rparr>"
  obtain t where t: "avl_insert inverse_uint32_set_td Null ?n = Some t"
    "index_ok inverse_uint32_set_td t" "inorder t = [?n]"
    using iset.ins_last [OF iset.ok_empty, of ?n] by auto
  let ?S = "\<lparr>ids = t, cursor = lo, set_min = lo, set_max = hi\<rparr>"
  have inv: "iset_inv ?S" using t assms by (simp add: iset_inv_def)
  then have "check ?S" by (rule iset_inv_check)
  with t inv show ?thesis by (simp add: inverse_uint32_set_init_def avail_def)
qed

text \<open>
  The states an allocator goes through, with the ids that clients hold: an id is held from its
  allocation until its holder releases it.
\<close>

inductive iset_reach :: "nat \<Rightarrow> nat \<Rightarrow> inverse_uint32_set \<Rightarrow> nat set \<Rightarrow> bool" for lo hi where
  init: "inverse_uint32_set_init lo hi = Some S \<Longrightarrow> iset_reach lo hi S {}"
| alloc: "iset_reach lo hi S held \<Longrightarrow> inverse_uint32_set_alloc S = Some (Some i, S') \<Longrightarrow>
    iset_reach lo hi S' (insert i held)"
| free: "iset_reach lo hi S held \<Longrightarrow> i \<in> held \<Longrightarrow> inverse_uint32_set_free S i = Some S' \<Longrightarrow>
    iset_reach lo hi S' (held - {i})"

lemma next_free_avail: "next_free S i \<Longrightarrow> i \<in> avail S"
  by (simp add: next_free_def)

lemma iset_reach_inv:
  assumes "iset_reach lo hi S held" "lo \<le> hi" "hi + 1 < 2 ^ 32"
  shows "iset_inv S \<and> set_min S = lo \<and> set_max S = hi \<and> held \<subseteq> {lo..hi} \<and>
    avail S = {lo..hi} - held"
  using assms(1)
proof induction
  case (init S)
  with init_inv [OF assms(2,3)] show ?case by auto
next
  case (alloc S held i S')
  then have "allocated S (Some i) S'" using alloc_allocated [of S] by auto
  with alloc.IH show ?case using next_free_avail [of S i] by (auto simp: allocated_def)
next
  case (free S held i S')
  then have "freed S i S'" using free_freed [of S i] by auto
  with free show ?case by (auto simp: freed_def)
qed

text \<open>
  C26. No entity id is ever handed out while someone holds it: after any history of allocations and
  releases of held ids, allocation fails no assertion, reports exhaustion exactly when every id of
  the range is held, and otherwise returns an id of the range that nobody holds.
\<close>

theorem inverse_uint32_set_never_duplicates:
  assumes "iset_reach lo hi S held" "lo \<le> hi" "hi + 1 < 2 ^ 32"
  shows "\<exists>r S'. inverse_uint32_set_alloc S = Some (r, S') \<and>
    (case r of
       None \<Rightarrow> held = {lo..hi} \<and> S' = S
     | Some i \<Rightarrow> lo \<le> i \<and> i \<le> hi \<and> i \<notin> held \<and> iset_reach lo hi S' (insert i held))"
proof -
  note inv = iset_reach_inv [OF assms]
  obtain r S' where a: "inverse_uint32_set_alloc S = Some (r, S')" "allocated S r S'"
    using alloc_allocated inv by blast
  show ?thesis
  proof (cases r)
    case None
    with a inv show ?thesis by (auto simp: allocated_def)
  next
    case (Some i)
    with a inv next_free_avail [of S i] have "i \<in> {lo..hi} - held" by (auto simp: allocated_def)
    moreover have "iset_reach lo hi S' (insert i held)"
      using iset_reach.alloc [OF assms(1)] a Some by simp
    ultimately show ?thesis using a(1) Some by auto
  qed
qed

text \<open>A history: three ids of 1..3, the second returned, the next allocation takes it again.\<close>

definition iset_example :: "inverse_uint32_set" where
  "iset_example = \<lparr>ids = Node Null \<lparr>nd_min = 2, nd_max = 2\<rparr> 1 Null, cursor = 1, set_min = 1, set_max = 3\<rparr>"

lemma iset_example_reach: "iset_reach 1 3 iset_example {1, 3}"
proof -
  have 0: "inverse_uint32_set_init 1 3 =
      Some \<lparr>ids = Node Null \<lparr>nd_min = 1, nd_max = 3\<rparr> 1 Null, cursor = 1, set_min = 1, set_max = 3\<rparr>"
    by code_simp
  note r0 = iset_reach.init [OF 0]
  have 1: "inverse_uint32_set_alloc \<lparr>ids = Node Null \<lparr>nd_min = 1, nd_max = 3\<rparr> 1 Null, cursor = 1, set_min = 1, set_max = 3\<rparr>
     = Some (Some 1, \<lparr>ids = Node Null \<lparr>nd_min = 2, nd_max = 3\<rparr> 1 Null, cursor = 2, set_min = 1, set_max = 3\<rparr>)"
    by code_simp
  note r1 = iset_reach.alloc [OF r0 1]
  have 2: "inverse_uint32_set_alloc \<lparr>ids = Node Null \<lparr>nd_min = 2, nd_max = 3\<rparr> 1 Null, cursor = 2, set_min = 1, set_max = 3\<rparr>
     = Some (Some 2, \<lparr>ids = Node Null \<lparr>nd_min = 3, nd_max = 3\<rparr> 1 Null, cursor = 3, set_min = 1, set_max = 3\<rparr>)"
    by code_simp
  note r2 = iset_reach.alloc [OF r1 2]
  have 3: "inverse_uint32_set_alloc \<lparr>ids = Node Null \<lparr>nd_min = 3, nd_max = 3\<rparr> 1 Null, cursor = 3, set_min = 1, set_max = 3\<rparr>
     = Some (Some 3, \<lparr>ids = Null, cursor = 1, set_min = 1, set_max = 3\<rparr>)"
    by code_simp
  note r3 = iset_reach.alloc [OF r2 3]
  have 4: "inverse_uint32_set_free \<lparr>ids = Null, cursor = 1, set_min = 1, set_max = 3\<rparr> 2 = Some iset_example"
    by code_simp
  have "iset_reach 1 3 iset_example ({3, 2, 1} - {2})"
    by (rule iset_reach.free [OF _ _ 4]) (use r3 in simp_all)
  moreover have "{3, 2, 1} - {2} = {1, 3 :: nat}" by auto
  ultimately show ?thesis by simp
qed

lemma inverse_uint32_set_never_duplicates_witness:
  "\<exists>r S'. inverse_uint32_set_alloc iset_example = Some (r, S') \<and>
    (case r of
       None \<Rightarrow> {1, 3} = {1..3 :: nat} \<and> S' = iset_example
     | Some i \<Rightarrow> 1 \<le> i \<and> i \<le> 3 \<and> i \<notin> {1, 3} \<and> iset_reach 1 3 S' (insert i {1, 3}))"
  by (rule inverse_uint32_set_never_duplicates [OF iset_example_reach]) simp_all

text \<open>
  Allocation is round-robin: it takes the first free id from the cursor on, or else the first
  free id at all, removes just that id, and moves the cursor behind it.
\<close>

theorem inverse_uint32_set_alloc_round_robin:
  assumes "iset_inv S" "avail S \<noteq> {}"
  shows "\<exists>i S'. inverse_uint32_set_alloc S = Some (Some i, S') \<and> iset_inv S' \<and>
    next_free S i \<and> avail S' = avail S - {i} \<and>
    cursor S' = (if i < set_max S then i + 1 else set_min S)"
  using alloc_allocated [OF assms(1)] assms(2) by (fastforce simp: allocated_def split: option.splits)

lemma inverse_uint32_set_alloc_round_robin_witness:
  "\<exists>i S'. inverse_uint32_set_alloc iset_example = Some (Some i, S') \<and> iset_inv S' \<and>
    next_free iset_example i \<and> avail S' = avail iset_example - {i} \<and>
    cursor S' = (if i < set_max iset_example then i + 1 else set_min iset_example)"
proof (rule inverse_uint32_set_alloc_round_robin)
  show "iset_inv iset_example"
    using iset_reach_inv [OF iset_example_reach] by simp
  show "avail iset_example \<noteq> {}" by (simp add: avail_def iset_example_def)
qed

end
