(* ===== verification/Avl_Properties.thy ===== *)
theory Avl_Properties
  imports Avl_Index Avl_Augment Inverse_Set
begin

text \<open>
  What the AVL tree promises its users, as properties over the operations of \<open>avl.c\<close>; the
  witnesses take the tree definition of the entity id allocator.
\<close>

section \<open>Insertion and deletion\<close>

definition example_tree :: "iset_node avl" where
  "example_tree = Node (Node Null \<lparr>nd_min = 1, nd_max = 2\<rparr> 1 Null) \<lparr>nd_min = 4, nd_max = 4\<rparr> 2
     (Node Null \<lparr>nd_min = 6, nd_max = 9\<rparr> 1 Null)"

lemma iset_td [simp]: "orders inverse_uint32_set_td" "td_augment inverse_uint32_set_td = None"
  by (rule iset.orders) (rule iset.no_augment)

lemma example_tree_ok [simp]:
  "avl example_tree" "sorted_by nd_min (inorder example_tree)"
  "weakly_sorted_by nd_min (inorder example_tree)"
  by (simp_all add: example_tree_def weakly_sorted_by_def)

text \<open>
  C24. Insertion into a balanced search tree: it fails (the assertion on the insertion path) exactly
  when the key is present in a tree without duplicates; otherwise the new tree is balanced, with
  right stored heights, and its in-order list is the old one with the new element behind every
  element of the same or a smaller key.
\<close>

theorem avl_insert_correct:
  assumes "orders td" "td_augment td = None" "avl t" "weakly_sorted_by (td_key td) (inorder t)"
  shows "case avl_insert td t v of
      None \<Rightarrow> \<not> td_allowdups td \<and> td_key td v \<in> td_key td ` set (inorder t)
    | Some t' \<Rightarrow> (td_allowdups td \<or> td_key td v \<notin> td_key td ` set (inorder t)) \<and>
        avl t' \<and> inorder t' = insert_spec (td_key td) v (inorder t)"
proof (cases "avl_insert td t v")
  case None
  with avl_insert_defined [OF assms(1,4), of v] show ?thesis by simp
next
  case (Some t')
  have "map id (inorder t') = map id (insert_spec (td_key td) v (inorder t))"
    by (rule avl_insert_inorder [OF assms(1,4) _ _ Some]) (simp_all add: assms(2))
  with Some avl_insert_defined [OF assms(1,4), of v] avl_avl_insert [OF assms(3) Some]
  show ?thesis by auto
qed

lemma avl_insert_correct_witness:
  "case avl_insert inverse_uint32_set_td example_tree \<lparr>nd_min = 11, nd_max = 12\<rparr> of
      None \<Rightarrow> \<not> td_allowdups inverse_uint32_set_td \<and>
        td_key inverse_uint32_set_td \<lparr>nd_min = 11, nd_max = 12\<rparr>
          \<in> td_key inverse_uint32_set_td ` set (inorder example_tree)
    | Some t' \<Rightarrow> (td_allowdups inverse_uint32_set_td \<or>
        td_key inverse_uint32_set_td \<lparr>nd_min = 11, nd_max = 12\<rparr>
          \<notin> td_key inverse_uint32_set_td ` set (inorder example_tree)) \<and>
        avl t' \<and> inorder t' =
          insert_spec (td_key inverse_uint32_set_td) \<lparr>nd_min = 11, nd_max = 12\<rparr> (inorder example_tree)"
  by (rule avl_insert_correct) simp_all

text \<open>
  C25. Deletion from a balanced search tree without duplicates: the node of the key leaves, every
  other element keeps its place, and the tree is balanced again.
\<close>

theorem avl_delete_correct:
  assumes "orders td" "td_augment td = None" "avl t" "sorted_by (td_key td) (inorder t)"
  shows "case avl_delete td t v of
      None \<Rightarrow> td_key td v \<notin> td_key td ` set (inorder t)
    | Some t' \<Rightarrow> td_key td v \<in> td_key td ` set (inorder t) \<and> avl t' \<and>
        inorder t' = filter (\<lambda>x. td_key td x \<noteq> td_key td v) (inorder t)"
proof (cases "td_key td v \<in> td_key td ` set (inorder t)")
  case False
  with avl_delete_None [OF assms(1,4)] show ?thesis by simp
next
  case True
  then obtain w where "w \<in> set (inorder t)" and w: "td_key td w = td_key td v" by force
  then obtain xs ys where e: "inorder t = xs @ w # ys" by (meson split_list)
  have "avl_delete td t v = avl_delete td t w" by (simp add: avl_delete_def w)
  moreover obtain t' where t': "avl_delete td t w = Some t'" "map id (inorder t') = map id (xs @ ys)"
    using avl_delete_inorder [OF assms(1,4) e, of id] assms(2) by auto
  moreover have "filter (\<lambda>x. td_key td x \<noteq> td_key td v) (inorder t) = xs @ ys"
  proof -
    have "sorted_by (td_key td) (xs @ w # ys)" using assms(4) e by simp
    then have "filter (\<lambda>x. td_key td x \<noteq> td_key td v) xs = xs"
      "filter (\<lambda>x. td_key td x \<noteq> td_key td v) ys = ys"
      by (auto simp: filter_id_conv sorted_by_append w)
    then show ?thesis by (simp add: e w)
  qed
  ultimately show ?thesis using True avl_avl_delete [OF assms(3) t'(1)] by simp
qed

lemma avl_delete_correct_witness:
  "case avl_delete inverse_uint32_set_td example_tree \<lparr>nd_min = 4, nd_max = 4\<rparr> of
      None \<Rightarrow> td_key inverse_uint32_set_td \<lparr>nd_min = 4, nd_max = 4\<rparr>
          \<notin> td_key inverse_uint32_set_td ` set (inorder example_tree)
    | Some t' \<Rightarrow> td_key inverse_uint32_set_td \<lparr>nd_min = 4, nd_max = 4\<rparr>
          \<in> td_key inverse_uint32_set_td ` set (inorder example_tree) \<and> avl t' \<and>
        inorder t' = filter (\<lambda>x. td_key inverse_uint32_set_td x \<noteq>
          td_key inverse_uint32_set_td \<lparr>nd_min = 4, nd_max = 4\<rparr>) (inorder example_tree)"
  by (rule avl_delete_correct) simp_all

section \<open>Searches\<close>

text \<open>
  C38. The five searches of a balanced search tree: the element of the key, and the nearest
  elements at or below, below, at or above and above it in the in-order list.
\<close>

theorem avl_lookup_correct:
  assumes "orders td" "\<not> td_allowdups td" "avl t" "sorted_by (td_key td) (inorder t)"
  shows "(\<forall>v. lookup td t k = Some v \<longleftrightarrow> v \<in> set (inorder t) \<and> td_key td v = k) \<and>
    lookup_pred_eq td t k = last_opt (filter (\<lambda>x. td_key td x \<le> k) (inorder t)) \<and>
    lookup_pred td t k = last_opt (filter (\<lambda>x. td_key td x < k) (inorder t)) \<and>
    lookup_succ_eq td t k = hd_opt (filter (\<lambda>x. k \<le> td_key td x) (inorder t)) \<and>
    lookup_succ td t k = hd_opt (filter (\<lambda>x. k < td_key td x) (inorder t))"
proof -
  have "well_ordered td t" using assms by (auto simp: well_ordered_def intro: sorted_by_weak)
  from lookup_near_spec [OF this, of k] lookup_inorder [OF assms(1,4)] show ?thesis by simp
qed

lemma avl_lookup_correct_witness:
  "(\<forall>v. lookup inverse_uint32_set_td example_tree 5 = Some v \<longleftrightarrow>
      v \<in> set (inorder example_tree) \<and> td_key inverse_uint32_set_td v = 5) \<and>
    lookup_pred_eq inverse_uint32_set_td example_tree 5 =
      last_opt (filter (\<lambda>x. td_key inverse_uint32_set_td x \<le> 5) (inorder example_tree)) \<and>
    lookup_pred inverse_uint32_set_td example_tree 5 =
      last_opt (filter (\<lambda>x. td_key inverse_uint32_set_td x < 5) (inorder example_tree)) \<and>
    lookup_succ_eq inverse_uint32_set_td example_tree 5 =
      hd_opt (filter (\<lambda>x. 5 \<le> td_key inverse_uint32_set_td x) (inorder example_tree)) \<and>
    lookup_succ inverse_uint32_set_td example_tree 5 =
      hd_opt (filter (\<lambda>x. 5 < td_key inverse_uint32_set_td x) (inorder example_tree))"
  by (rule avl_lookup_correct) (simp_all add: iset.no_dups)

section \<open>Iteration and bounds\<close>

text \<open>
  The loop over an iterator ends after as many steps as there are nodes and visits every node
  once, in order, without using parent pointers.
\<close>

theorem avl_iter_complete:
  "iter_collect (Suc (length (inorder t) + k)) (iter_first t) = Some (inorder t)"
  by (rule iter_visits_inorder) simp

text \<open>
  C39. The fixed arrays of \<open>DDSRT_AVL_MAX_TREEHEIGHT\<close> node pointers (insertion paths, the stack of
  an iterator) are long enough: in a balanced tree of fewer than 2^64 nodes, every location is
  less deep than that.
\<close>

theorem avl_path_bound:
  assumes "avl t" "length (inorder t) < 2 ^ 64" "t = plug n p"
  shows "length p < max_treeheight"
  using assms by (rule path_fits)

lemma avl_path_bound_witness:
  "length [(True, \<lparr>nd_min = 4, nd_max = 4\<rparr>, 2 :: int, Node Null \<lparr>nd_min = 1, nd_max = 2\<rparr> 1 Null)] < max_treeheight"
  by (rule avl_path_bound [of example_tree "Node Null \<lparr>nd_min = 6, nd_max = 9\<rparr> 1 Null"])
    (simp_all add: example_tree_def mk_def)

end
