(* ===== verification/Radmin_Data.thy ===== *)
theory Radmin_Data
  imports Avl_Index
begin

text \<open>
  The data of the receive administration, \<open>src/core/ddsi/src/q_radmin.c\<close> and
  \<open>q_radmin.h\<close>: fragments (rdata) chained through \<open>nextfrag\<close>, the samples built from
  them, and the reference counts of the messages (rmsg) that hold the fragments. A chain is the
  list of its fragments. Memory inside a message is assumed to be available. Of the checks of debug builds two are not
  modelled, that of the thread (\<open>ASSERT_RBUFPOOL_OWNER\<close>) and that of \<open>refcount_bias_added\<close>.
\<close>

section \<open>Fragments, sample information, samples\<close>

record rdata =
  rd_rmsg :: nat
  rd_min :: nat
  rd_maxp1 :: nat

text \<open>\<open>si_dst\<close> is the destination prefix in the receiver state \<open>rst\<close>.\<close>

record rsample_info =
  si_seq :: seqno
  si_dst :: nat
  si_size :: nat
  si_fragsize :: nat
  si_timestamp :: int
  si_statusinfo :: nat

text \<open>The order of the sequence numbers that index the trees.\<close>

definition compare_seqno :: "seqno \<Rightarrow> seqno \<Rightarrow> int" where
  "compare_seqno a b = (if a = b then 0 else if a < b then -1 else 1)"

text \<open>A gap has no sample information.\<close>

record rsample_chain_elem =
  sce_fragchain :: "rdata list"
  sce_sampleinfo :: "rsample_info option"

record rsample =
  rs_sc :: "rsample_chain_elem list"
  rs_min :: seqno
  rs_maxp1 :: seqno
  rs_n_samples :: nat

section \<open>Reference counts\<close>

text \<open>
  The reference count of every message; a count of zero means that the message is freed. A count is a \<open>uint32_t\<close>: it gets its
  first value when the message is made, only \<open>nn_rmsg_addbias\<close> adds to it, modulo \<open>2 ^ 32\<close>, and every subtraction is
  preceded by the assertion that it does not go below zero. While a message is being received its count has
  \<open>RMSG_REFCOUNT_UNCOMMITTED_BIAS\<close>; only then may a bias be added.
\<close>

type_synonym refs = "nat \<Rightarrow> nat"

definition RMSG_REFCOUNT_UNCOMMITTED_BIAS :: nat where
  "RMSG_REFCOUNT_UNCOMMITTED_BIAS = 2 ^ 31"

definition RMSG_REFCOUNT_RDATA_BIAS :: nat where
  "RMSG_REFCOUNT_RDATA_BIAS = 2 ^ 20"

abbreviation BIAS :: nat where
  "BIAS \<equiv> RMSG_REFCOUNT_RDATA_BIAS"

definition nn_rmsg_addbias :: "refs \<Rightarrow> nat \<Rightarrow> refs option" where
  "nn_rmsg_addbias R m = do {
     _ \<leftarrow> assertion (RMSG_REFCOUNT_UNCOMMITTED_BIAS \<le> R m);
     Some (R(m := (R m + RMSG_REFCOUNT_RDATA_BIAS) mod 2 ^ 32)) }"

definition nn_rmsg_rmbias_and_adjust :: "refs \<Rightarrow> nat \<Rightarrow> int \<Rightarrow> refs option" where
  "nn_rmsg_rmbias_and_adjust R m adjust = do {
     _ \<leftarrow> assertion (0 \<le> adjust);
     _ \<leftarrow> assertion (nat adjust < RMSG_REFCOUNT_RDATA_BIAS);
     let sub = RMSG_REFCOUNT_RDATA_BIAS - nat adjust;
     _ \<leftarrow> assertion (sub \<le> R m);
     Some (R(m := R m - sub)) }"

definition nn_rmsg_unref :: "refs \<Rightarrow> nat \<Rightarrow> refs option" where
  "nn_rmsg_unref R m = do { _ \<leftarrow> assertion (0 < R m); Some (R(m := R m - 1)) }"

definition nn_rdata_addbias :: "refs \<Rightarrow> rdata \<Rightarrow> refs option" where
  "nn_rdata_addbias R rd = nn_rmsg_addbias R (rd_rmsg rd)"

definition nn_rdata_rmbias_and_adjust :: "refs \<Rightarrow> rdata \<Rightarrow> int \<Rightarrow> refs option" where
  "nn_rdata_rmbias_and_adjust R rd adjust = nn_rmsg_rmbias_and_adjust R (rd_rmsg rd) adjust"

definition nn_rdata_unref :: "refs \<Rightarrow> rdata \<Rightarrow> refs option" where
  "nn_rdata_unref R rd = nn_rmsg_unref R (rd_rmsg rd)"

fun nn_fragchain_adjust_refcount :: "refs \<Rightarrow> rdata list \<Rightarrow> int \<Rightarrow> refs option" where
  "nn_fragchain_adjust_refcount R [] adjust = Some R"
| "nn_fragchain_adjust_refcount R (frag # frags) adjust = do {
     R' \<leftarrow> nn_rdata_rmbias_and_adjust R frag adjust;
     nn_fragchain_adjust_refcount R' frags adjust }"

definition nn_fragchain_rmbias :: "refs \<Rightarrow> rdata list \<Rightarrow> refs option" where
  "nn_fragchain_rmbias R frags = nn_fragchain_adjust_refcount R frags 0"

fun nn_fragchain_unref :: "refs \<Rightarrow> rdata list \<Rightarrow> refs option" where
  "nn_fragchain_unref R [] = Some R"
| "nn_fragchain_unref R (frag # frags) = do {
     R' \<leftarrow> nn_rdata_unref R frag;
     nn_fragchain_unref R' frags }"

text \<open>How many fragments of a chain lie in message \<open>m\<close>.\<close>

definition held_in :: "nat \<Rightarrow> rdata list \<Rightarrow> nat" where
  "held_in m frags = length (filter (\<lambda>f. rd_rmsg f = m) frags)"

lemma held_in_simps [simp]:
  "held_in m [] = 0"
  "held_in m (f # fs) = (if rd_rmsg f = m then 1 else 0) + held_in m fs"
  "held_in m (fs @ gs) = held_in m fs + held_in m gs"
  by (simp_all add: held_in_def)

lemma BIAS_pos [simp]: "0 < BIAS"
  by (simp add: RMSG_REFCOUNT_RDATA_BIAS_def)

text \<open>
  A message that is being received, of whose count \<open>h\<close> is held besides, with room for one more bias. Then the count is the sum.
\<close>

definition receives :: "refs \<Rightarrow> nat \<Rightarrow> nat \<Rightarrow> bool" where
  "receives R h m \<longleftrightarrow> RMSG_REFCOUNT_UNCOMMITTED_BIAS + h \<le> R m \<and> R m + BIAS < 2 ^ 32"

definition with_bias :: "refs \<Rightarrow> rdata \<Rightarrow> refs" where
  "with_bias R rd = R(rd_rmsg rd := R (rd_rmsg rd) + BIAS)"

lemma with_bias_apply [simp]:
  "with_bias R rd m = R m + (if rd_rmsg rd = m then BIAS else 0)"
  by (simp add: with_bias_def)

lemma addbias: "receives R h (rd_rmsg rd) \<Longrightarrow> nn_rdata_addbias R rd = Some (with_bias R rd)"
  by (simp add: receives_def nn_rdata_addbias_def nn_rmsg_addbias_def with_bias_def)

text \<open>Whatever the count is, what an addition leaves is at most the sum.\<close>

lemma addbias_le: "nn_rdata_addbias R rd = Some R' \<Longrightarrow> R' m \<le> R m + (if rd_rmsg rd = m then BIAS else 0)"
  by (auto simp: nn_rdata_addbias_def nn_rmsg_addbias_def split: bind_splits if_splits)

text \<open>
  The 2048th bias of a message takes its count from the greatest multiple of the bias to zero, as if it had been freed, and the
  next one is refused by the assertion.
\<close>

fun add_biases :: "nat \<Rightarrow> refs \<Rightarrow> nat \<Rightarrow> refs option" where
  "add_biases 0 R m = Some R"
| "add_biases (Suc n) R m = nn_rmsg_addbias R m \<bind> (\<lambda>R'. add_biases n R' m)"

lemma add_biases_sum:
  "RMSG_REFCOUNT_UNCOMMITTED_BIAS \<le> R m \<Longrightarrow> R m + n * BIAS < 2 ^ 32 \<Longrightarrow> add_biases n R m = Some (R(m := R m + n * BIAS))"
  by (induction n arbitrary: R) (auto simp: nn_rmsg_addbias_def algebra_simps)

lemma add_biases_add: "add_biases (a + b) R m = add_biases a R m \<bind> (\<lambda>R'. add_biases b R' m)"
  by (induction a arbitrary: R) (simp_all add: bind_assoc)

lemma biases_wrap:
  assumes "R m = RMSG_REFCOUNT_UNCOMMITTED_BIAS"
  shows "add_biases 2048 R m = Some (R(m := 0))" "add_biases 2049 R m = None"
proof -
  have a: "add_biases 2047 R m = Some (R(m := R m + 2047 * BIAS))"
    by (rule add_biases_sum) (simp_all add: assms RMSG_REFCOUNT_UNCOMMITTED_BIAS_def RMSG_REFCOUNT_RDATA_BIAS_def)
  then show b: "add_biases 2048 R m = Some (R(m := 0))"
    using add_biases_add [of 2047 1 R m] assms
    by (simp add: nn_rmsg_addbias_def RMSG_REFCOUNT_UNCOMMITTED_BIAS_def RMSG_REFCOUNT_RDATA_BIAS_def)
  then show "add_biases 2049 R m = None"
    using add_biases_add [of 2048 1 R m] by (simp add: nn_rmsg_addbias_def RMSG_REFCOUNT_UNCOMMITTED_BIAS_def)
qed

text \<open>Every fragment of the chain trades its bias for \<open>adjust\<close> references.\<close>

lemma adjust_refcount:
  assumes "0 \<le> adjust" "nat adjust < BIAS" "\<And>m. held_in m frags * (BIAS - nat adjust) \<le> R m"
  shows "\<exists>R'. nn_fragchain_adjust_refcount R frags adjust = Some R' \<and>
    (\<forall>m. R' m + held_in m frags * (BIAS - nat adjust) = R m)"
  using assms(3)
proof (induction frags arbitrary: R)
  case Nil
  then show ?case by simp
next
  case (Cons f fs)
  let ?d = "BIAS - nat adjust"
  let ?R = "R(rd_rmsg f := R (rd_rmsg f) - ?d)"
  have d: "?d \<le> R (rd_rmsg f)" using Cons.prems [of "rd_rmsg f"] by simp
  then have "nn_rdata_rmbias_and_adjust R f adjust = Some ?R"
    using assms(1,2) by (simp add: nn_rdata_rmbias_and_adjust_def nn_rmsg_rmbias_and_adjust_def)
  moreover have "held_in m fs * ?d \<le> ?R m" for m
    using Cons.prems [of m] by (auto simp: algebra_simps)
  from Cons.IH [OF this] obtain R' where "nn_fragchain_adjust_refcount ?R fs adjust = Some R'"
    and R': "\<forall>m. R' m + held_in m fs * ?d = ?R m" by blast
  moreover have "R' m + held_in m (f # fs) * ?d = R m" for m
  proof (cases "rd_rmsg f = m")
    case True
    have "a + k = r - b \<Longrightarrow> b \<le> r \<Longrightarrow> a + (b + k) = r" for a b k r :: nat by simp
    from this [OF _ d, of "R' m" "held_in m fs * ?d"] R' [rule_format, of m] True
    show ?thesis by (simp add: add_mult_distrib)
  next
    case False
    with R' [rule_format, of m] show ?thesis by simp
  qed
  ultimately show ?case by simp
qed

lemma rmbias:
  assumes "\<And>m. held_in m frags * BIAS \<le> R m"
  shows "\<exists>R'. nn_fragchain_rmbias R frags = Some R' \<and> (\<forall>m. R' m + held_in m frags * BIAS = R m)"
  using adjust_refcount [of 0 frags R] assms by (simp add: nn_fragchain_rmbias_def)

lemma unref:
  assumes "\<And>m. held_in m frags \<le> R m"
  shows "\<exists>R'. nn_fragchain_unref R frags = Some R' \<and> (\<forall>m. R' m + held_in m frags = R m)"
  using assms
proof (induction frags arbitrary: R)
  case (Cons f fs)
  let ?R = "R(rd_rmsg f := R (rd_rmsg f) - 1)"
  have d: "0 < R (rd_rmsg f)" using Cons.prems [of "rd_rmsg f"] by simp
  then have "nn_rdata_unref R f = Some ?R"
    by (simp add: nn_rdata_unref_def nn_rmsg_unref_def)
  moreover have "held_in m fs \<le> ?R m" for m using Cons.prems [of m] by auto
  from Cons.IH [OF this] obtain R' where "nn_fragchain_unref ?R fs = Some R'"
    and R': "\<forall>m. R' m + held_in m fs = ?R m" by blast
  moreover have "R' m + held_in m (f # fs) = R m" for m
    using R' [rule_format, of m] d by (cases "rd_rmsg f = m") auto
  ultimately show ?case by simp
qed simp

section \<open>Reading a chain\<close>

text \<open>
  The deserializers walk a chain with the offset reached so far: each fragment must start at or
  before that offset, and takes it to its end if that is further. \<open>consume\<close> is that walk; None
  is a hole in the chain.
\<close>

fun consume :: "nat \<Rightarrow> rdata list \<Rightarrow> nat option" where
  "consume off [] = Some off"
| "consume off (f # fs) = (if rd_min f \<le> off then consume (max off (rd_maxp1 f)) fs else None)"

lemma consume_append [simp]: "consume off (fs @ gs) = consume off fs \<bind> (\<lambda>off'. consume off' gs)"
  by (induction fs arbitrary: off) auto

lemma consume_mono: "consume off fs = Some r \<Longrightarrow> off \<le> off' \<Longrightarrow> consume off' fs = Some (max off' r)"
proof (induction fs arbitrary: off off')
  case (Cons f fs)
  then have "consume (max off (rd_maxp1 f)) fs = Some r" "rd_min f \<le> off'"
    by (auto split: if_splits)
  with Cons.IH [of "max off (rd_maxp1 f)" "max off' (rd_maxp1 f)"] Cons.prems(2)
  have "consume (max off' (rd_maxp1 f)) fs = Some (max (max off' (rd_maxp1 f)) r)" by simp
  moreover have "rd_maxp1 f \<le> r" using \<open>consume (max off (rd_maxp1 f)) fs = Some r\<close>
  proof (induction fs arbitrary: off f)
    case (Cons g gs)
    then have "consume (max (max off (rd_maxp1 f)) (rd_maxp1 g)) gs = Some r" by (auto split: if_splits)
    from Cons.IH [of _ "f\<lparr>rd_maxp1 := max (rd_maxp1 f) (rd_maxp1 g)\<rparr>" ] this
    show ?case by (simp add: max.assoc)
  qed simp
  ultimately show ?case using \<open>rd_min f \<le> off'\<close> by (simp add: max.absorb2 max.assoc max.left_commute)
qed auto

text \<open>The chain covers everything from \<open>lo\<close> to \<open>hi\<close> without a hole.\<close>

definition reaches :: "nat \<Rightarrow> nat \<Rightarrow> rdata list \<Rightarrow> bool" where
  "reaches lo hi fs \<longleftrightarrow> (\<exists>r. consume lo fs = Some r \<and> hi \<le> r)"

lemma reaches_single: "lo = rd_min f \<Longrightarrow> hi = rd_maxp1 f \<Longrightarrow> reaches lo hi [f]"
  by (simp add: reaches_def)

lemma reaches_append:
  assumes "reaches lo hi fs" "reaches lo' hi' gs" "lo' \<le> hi"
  shows "reaches lo hi' (fs @ gs)" "reaches lo hi (fs @ gs)"
proof -
  obtain r where r: "consume lo fs = Some r" "hi \<le> r" using assms(1) by (auto simp: reaches_def)
  obtain q where q: "consume lo' gs = Some q" "hi' \<le> q" using assms(2) by (auto simp: reaches_def)
  have "consume r gs = Some (max r q)" using consume_mono [OF q(1), of r] assms(3) r by simp
  with r q show "reaches lo hi' (fs @ gs)" "reaches lo hi (fs @ gs)"
    by (auto simp: reaches_def)
qed

end
