(* ===== verification/Bitset.thy ===== *)
theory Bitset
  imports Prelude
begin

text \<open>
  The bit sets of ACKNACK and NACKFRAG messages, \<open>src/core/ddsi/include/dds/ddsi/q_bitset.h\<close>:
  an array of 32-bit words, bit 0 being the most significant bit of the first word. An access
  outside the array is None.
\<close>

unbundle bit_operations_syntax

section \<open>Operations\<close>

definition bit_mask :: "nat \<Rightarrow> 32 word" where
  "bit_mask idx = push_bit (31 - idx mod 32) 1"

definition nn_bitset_isset :: "nat \<Rightarrow> 32 word list \<Rightarrow> nat \<Rightarrow> bool option" where
  "nn_bitset_isset numbits bits idx =
     (if idx < numbits then do {
        _ \<leftarrow> assertion (idx div 32 < length bits);
        Some (bits ! (idx div 32) AND bit_mask idx \<noteq> 0) }
      else Some False)"

definition nn_bitset_set :: "nat \<Rightarrow> 32 word list \<Rightarrow> nat \<Rightarrow> 32 word list option" where
  "nn_bitset_set numbits bits idx = do {
     _ \<leftarrow> assertion (idx < numbits);
     _ \<leftarrow> assertion (idx div 32 < length bits);
     Some (bits[idx div 32 := bits ! (idx div 32) OR bit_mask idx]) }"

definition nn_bitset_clear :: "nat \<Rightarrow> 32 word list \<Rightarrow> nat \<Rightarrow> 32 word list option" where
  "nn_bitset_clear numbits bits idx = do {
     _ \<leftarrow> assertion (idx < numbits);
     _ \<leftarrow> assertion (idx div 32 < length bits);
     Some (bits[idx div 32 := bits ! (idx div 32) AND NOT (bit_mask idx)]) }"

definition nn_bitset_zero :: "nat \<Rightarrow> 32 word list \<Rightarrow> 32 word list option" where
  "nn_bitset_zero numbits bits = do {
     let n = (numbits + 31) div 32;
     _ \<leftarrow> assertion (n \<le> length bits);
     Some (replicate n 0 @ drop n bits) }"

definition nn_bitset_one :: "nat \<Rightarrow> 32 word list \<Rightarrow> 32 word list option" where
  "nn_bitset_one numbits bits = do {
     let n = (numbits + 31) div 32;
     _ \<leftarrow> assertion (n \<le> length bits);
     let ones = replicate n (NOT 0) @ drop n bits;
     Some (if numbits mod 32 \<noteq> 0
           then let k = numbits div 32 in
                ones[k := ones ! k AND NOT (drop_bit (numbits mod 32) (NOT 0))]
           else ones) }"

section \<open>The set a bit array stands for\<close>

definition isset :: "32 word list \<Rightarrow> nat \<Rightarrow> bool" where
  "isset bits idx \<longleftrightarrow> idx div 32 < length bits \<and> bit (bits ! (idx div 32)) (31 - idx mod 32)"

lemma bit_bit_mask: "bit (bit_mask idx) n \<longleftrightarrow> n = 31 - idx mod 32"
  by (auto simp: bit_mask_def bit_exp_iff)

lemma and_bit_mask: "w AND bit_mask idx \<noteq> 0 \<longleftrightarrow> bit w (31 - idx mod 32)"
proof
  assume "w AND bit_mask idx \<noteq> 0"
  then obtain n where "bit (w AND bit_mask idx) n" using bit_eqI [of "w AND bit_mask idx" 0] by auto
  then show "bit w (31 - idx mod 32)" by (auto simp: bit_and_iff bit_bit_mask)
next
  assume "bit w (31 - idx mod 32)"
  then have "bit (w AND bit_mask idx) (31 - idx mod 32)" by (simp add: bit_and_iff bit_bit_mask)
  then show "w AND bit_mask idx \<noteq> 0" by auto
qed

lemma nn_bitset_isset_iff:
  "numbits \<le> 32 * length bits \<Longrightarrow> nn_bitset_isset numbits bits idx = Some (idx < numbits \<and> isset bits idx)"
proof (cases "idx < numbits")
  case True
  assume "numbits \<le> 32 * length bits"
  with True have "idx div 32 < length bits" by auto
  with True show ?thesis by (simp add: nn_bitset_isset_def isset_def and_bit_mask)
qed (simp add: nn_bitset_isset_def)

text \<open>Two indices that share a word and a bit are equal.\<close>

lemma same_bit: "i div 32 = j div 32 \<Longrightarrow> 31 - i mod 32 = 31 - j mod 32 \<Longrightarrow> i = (j :: nat)"
proof -
  assume d: "i div 32 = j div 32" and m: "31 - i mod 32 = 31 - j mod 32"
  have "i mod 32 < 32" "j mod 32 < 32" by simp_all
  with m have "i mod 32 = j mod 32" by linarith
  with d show "i = j" by (metis div_mult_mod_eq)
qed

lemma nn_bitset_set_spec:
  assumes "idx < numbits" "numbits \<le> 32 * length bits"
  shows "\<exists>bits'. nn_bitset_set numbits bits idx = Some bits' \<and> length bits' = length bits \<and>
    (\<forall>i. isset bits' i \<longleftrightarrow> i = idx \<or> isset bits i)"
proof -
  have i: "idx div 32 < length bits" using assms by auto
  let ?b = "bits[idx div 32 := bits ! (idx div 32) OR bit_mask idx]"
  have "isset ?b j \<longleftrightarrow> j = idx \<or> isset bits j" for j
    using i same_bit [of j idx]
    by (auto simp: isset_def nth_list_update bit_or_iff bit_bit_mask)
  with i assms show ?thesis by (auto simp: nn_bitset_set_def)
qed

lemma nn_bitset_clear_spec:
  assumes "idx < numbits" "numbits \<le> 32 * length bits"
  shows "\<exists>bits'. nn_bitset_clear numbits bits idx = Some bits' \<and> length bits' = length bits \<and>
    (\<forall>i. isset bits' i \<longleftrightarrow> i \<noteq> idx \<and> isset bits i)"
proof -
  have i: "idx div 32 < length bits" using assms by auto
  let ?b = "bits[idx div 32 := bits ! (idx div 32) AND NOT (bit_mask idx)]"
  have "isset ?b j \<longleftrightarrow> j \<noteq> idx \<and> isset bits j" for j
    using i same_bit [of j idx]
    by (auto simp: isset_def nth_list_update bit_and_iff bit_not_iff bit_bit_mask)
  with i assms show ?thesis by (auto simp: nn_bitset_clear_def)
qed

lemma words_enough: "numbits \<le> 32 * length bits \<Longrightarrow> (numbits + 31) div 32 \<le> length (bits :: 'a list)"
  by auto

lemma nn_bitset_zero_spec:
  assumes "numbits \<le> 32 * length bits"
  shows "\<exists>bits'. nn_bitset_zero numbits bits = Some bits' \<and> length bits' = length bits \<and>
    (\<forall>i<numbits. \<not> isset bits' i)"
proof -
  have n: "(numbits + 31) div 32 \<le> length bits" using assms by (rule words_enough)
  have "i div 32 < (numbits + 31) div 32" if "i < numbits" for i using that by auto
  with n show ?thesis by (auto simp: nn_bitset_zero_def isset_def nth_append Let_def)
qed

lemma nn_bitset_one_spec:
  assumes "numbits \<le> 32 * length bits"
  shows "\<exists>bits'. nn_bitset_one numbits bits = Some bits' \<and> length bits' = length bits \<and>
    (\<forall>i<numbits. isset bits' i)"
proof -
  let ?n = "(numbits + 31) div 32"
  let ?ones = "replicate ?n (NOT 0) @ drop ?n bits :: 32 word list"
  let ?b = "if numbits mod 32 \<noteq> 0
    then ?ones[numbits div 32 := ?ones ! (numbits div 32) AND NOT (drop_bit (numbits mod 32) (NOT 0))]
    else ?ones"
  have n: "?n \<le> length bits" using assms by (rule words_enough)
  have "isset ?b i" if i: "i < numbits" for i
  proof -
    have w: "i div 32 < ?n" using i by auto
    have lt: "i div 32 < numbits div 32 \<or> i div 32 = numbits div 32 \<and> i mod 32 < numbits mod 32"
    proof (cases "i div 32 = numbits div 32")
      case True
      then show ?thesis using i by (metis div_mult_mod_eq nat_add_left_cancel_less)
    next
      case False
      then show ?thesis using i by (meson div_le_mono less_imp_le nat_less_le)
    qed
    have b: "31 - i mod 32 < 32" by linarith
    show ?thesis
    proof (cases "i div 32 = numbits div 32")
      case True
      then have "i mod 32 < numbits mod 32" using lt by simp
      then have "\<not> 31 - i mod 32 < 32 - numbits mod 32" by linarith
      with True w n b show ?thesis
        by (auto simp: isset_def nth_append bit_and_iff bit_not_iff bit_mask_iff simp del: diff_less)
    next
      case False
      with w n show ?thesis by (auto simp: isset_def nth_append bit_not_iff)
    qed
  qed
  with n show ?thesis by (auto simp: nn_bitset_one_def Let_def)
qed

end
