(* ===== verification/Defrag_Model.thy ===== *)
theory Defrag_Model
  imports Radmin_Data Bitset
begin

text \<open>
  The defragmenter of the receive administration, the DEFRAG part of
  \<open>src/core/ddsi/src/q_radmin.c\<close>. The fragments of one sample are kept as a tree of intervals
  of bytes, each with the chain of its fragments; the samples being defragmented are kept in a
  tree by sequence number. A node pointer that is stored (\<open>lastfrag\<close>, \<open>max_sample\<close>) is the
  key of the node; a write through a pointer replaces the node of that key. Every operation
  threads the reference counts of the messages. None is a failed assertion or the dereference
  of a NULL pointer.
\<close>

section \<open>State\<close>

record nn_defrag_iv =
  iv_min :: nat
  iv_maxp1 :: nat
  iv_chain :: "rdata list"

record nn_rsample_defrag =
  fragtree :: "nn_defrag_iv avl"
  lastfrag :: "nat option"
  ds_sampleinfo :: rsample_info
  ds_seq :: seqno

datatype nn_defrag_drop_mode = NN_DEFRAG_DROP_OLDEST | NN_DEFRAG_DROP_LATEST

record nn_defrag =
  sampletree :: "nn_rsample_defrag avl"
  max_sample :: "seqno option"
  df_n_samples :: nat
  df_max_samples :: nat
  drop_mode :: nn_defrag_drop_mode
  df_discarded_bytes :: nat

definition compare_uint32 :: "nat \<Rightarrow> nat \<Rightarrow> int" where
  "compare_uint32 a b = (if a = b then 0 else if a < b then -1 else 1)"

definition defrag_sampletree_treedef :: "(nn_rsample_defrag, seqno) avl_treedef" where
  "defrag_sampletree_treedef =
     \<lparr>td_key = ds_seq, td_comparekk = compare_seqno, td_augment = None, td_allowdups = False\<rparr>"

definition rsample_defrag_fragtree_treedef :: "(nn_defrag_iv, nat) avl_treedef" where
  "rsample_defrag_fragtree_treedef =
     \<lparr>td_key = iv_min, td_comparekk = compare_uint32, td_augment = None, td_allowdups = False\<rparr>"

abbreviation "stree \<equiv> defrag_sampletree_treedef"
abbreviation "ftree \<equiv> rsample_defrag_fragtree_treedef"

interpretation samples: avl_index defrag_sampletree_treedef
  by unfold_locales (auto simp: defrag_sampletree_treedef_def orders_def compare_seqno_def)

interpretation ivs: avl_index rsample_defrag_fragtree_treedef
  by unfold_locales (auto simp: rsample_defrag_fragtree_treedef_def orders_def compare_uint32_def)

lemma treedef_keys [simp]: "td_key stree = ds_seq" "td_key ftree = iv_min"
  by (simp_all add: defrag_sampletree_treedef_def rsample_defrag_fragtree_treedef_def)

definition nn_defrag_new :: "nn_defrag_drop_mode \<Rightarrow> nat \<Rightarrow> nn_defrag option" where
  "nn_defrag_new mode maxs = do {
     _ \<leftarrow> assertion (1 \<le> maxs);
     Some \<lparr>sampletree = Null, max_sample = None, df_n_samples = 0, df_max_samples = maxs,
           drop_mode = mode, df_discarded_bytes = 0\<rparr> }"

definition nn_defrag_stats :: "nn_defrag \<Rightarrow> nat" where
  "nn_defrag_stats d = df_discarded_bytes d"

section \<open>Dropping samples\<close>

text \<open>The walk over the intervals of a sample; only the sentinel has an empty chain.\<close>

fun rmbias_ivs :: "refs \<Rightarrow> nn_defrag_iv list \<Rightarrow> refs option" where
  "rmbias_ivs R [] = Some R"
| "rmbias_ivs R (iv # rest) = do {
     R' \<leftarrow> (if iv_chain iv \<noteq> [] then nn_fragchain_rmbias R (iv_chain iv) else Some R);
     rmbias_ivs R' rest }"

definition defrag_rsample_drop ::
  "nn_defrag \<Rightarrow> refs \<Rightarrow> nn_rsample_defrag \<Rightarrow> (nn_defrag \<times> refs) option" where
  "defrag_rsample_drop d R s = do {
     t \<leftarrow> avl_delete stree (sampletree d) s;
     _ \<leftarrow> assertion (0 < df_n_samples d);
     R' \<leftarrow> rmbias_ivs R (inorder (fragtree s));
     Some (d\<lparr>sampletree := t, df_n_samples := df_n_samples d - 1\<rparr>, R') }"

partial_function (option) nn_defrag_free :: "nn_defrag \<Rightarrow> refs \<Rightarrow> (nn_defrag \<times> refs) option" where
  "nn_defrag_free d R =
     (case find_min (sampletree d) of
        Some s \<Rightarrow> do {
          (d', R') \<leftarrow> defrag_rsample_drop d R s;
          nn_defrag_free d' R' }
      | None \<Rightarrow> do { _ \<leftarrow> assertion (df_n_samples d = 0); Some (d, R) })"

section \<open>Adding a fragment to a sample\<close>

text \<open>The result is the return value, the sample and the node as it is afterwards.\<close>

definition defrag_try_merge_with_succ ::
  "nn_rsample_defrag \<Rightarrow> nn_defrag_iv \<Rightarrow> (bool \<times> nn_rsample_defrag \<times> nn_defrag_iv) option" where
  "defrag_try_merge_with_succ sample node =
     (if lastfrag sample = Some (iv_min node) then Some (False, sample, node)
      else do {
        succ \<leftarrow> find_succ ftree (fragtree sample) (Some node);
        if iv_maxp1 node < iv_min succ then Some (False, sample, node)
        else do {
          let succ_maxp1 = iv_maxp1 succ;
          t \<leftarrow> avl_delete ftree (fragtree sample) succ;
          let last = (if lastfrag sample = Some (iv_min succ) then Some (iv_min node)
                      else lastfrag sample);
          _ \<leftarrow> assertion (iv_chain node \<noteq> [] \<and> iv_chain succ \<noteq> []);
          let node' = node\<lparr>iv_chain := iv_chain node @ iv_chain succ, iv_maxp1 := succ_maxp1\<rparr>;
          t' \<leftarrow> write_node ftree t node node';
          Some (succ_maxp1 < iv_maxp1 node', sample\<lparr>fragtree := t', lastfrag := last\<rparr>, node') } })"

text \<open>\<open>while (defrag_try_merge_with_succ (...)) ;\<close>\<close>

partial_function (option) merge_loop ::
  "nn_rsample_defrag \<Rightarrow> nn_defrag_iv \<Rightarrow> nn_rsample_defrag option" where
  "merge_loop sample node = do {
     (again, sample', node') \<leftarrow> defrag_try_merge_with_succ sample node;
     if again then merge_loop sample' node' else Some sample' }"

definition defrag_rsample_addiv ::
  "nn_rsample_defrag \<Rightarrow> refs \<Rightarrow> rdata \<Rightarrow> (nn_rsample_defrag \<times> refs) option" where
  "defrag_rsample_addiv sample R rdata = do {
     let newiv = \<lparr>iv_min = rd_min rdata, iv_maxp1 = rd_maxp1 rdata, iv_chain = [rdata]\<rparr>;
     R' \<leftarrow> nn_rdata_addbias R rdata;
     t \<leftarrow> insert_at ftree (fragtree sample) (rd_min rdata) newiv;
     let last = (case lastfrag sample of
                   None \<Rightarrow> Some (rd_min rdata)
                 | Some l \<Rightarrow> if l < rd_min rdata then Some (rd_min rdata) else Some l);
     Some (sample\<lparr>fragtree := t, lastfrag := last\<rparr>, R') }"

definition defrag_rsample_new ::
  "refs \<Rightarrow> rdata \<Rightarrow> rsample_info \<Rightarrow> (nn_rsample_defrag \<times> refs) option" where
  "defrag_rsample_new R rdata sampleinfo = do {
     t \<leftarrow> (if 0 < rd_min rdata
           then insert_at ftree Null 0 \<lparr>iv_min = 0, iv_maxp1 = 0, iv_chain = []\<rparr>
           else Some Null);
     let dfsample = \<lparr>fragtree = t, lastfrag = None, ds_sampleinfo = sampleinfo,
                     ds_seq = si_seq sampleinfo\<rparr>;
     defrag_rsample_addiv dfsample R rdata }"

definition reorder_rsample_new :: "refs \<Rightarrow> rdata \<Rightarrow> rsample_info \<Rightarrow> (rsample \<times> refs) option" where
  "reorder_rsample_new R rdata sampleinfo = do {
     R' \<leftarrow> nn_rdata_addbias R rdata;
     Some (\<lparr>rs_sc = [\<lparr>sce_fragchain = [rdata], sce_sampleinfo = Some sampleinfo\<rparr>],
       rs_min = si_seq sampleinfo, rs_maxp1 = si_seq sampleinfo + 1, rs_n_samples = 1\<rparr>, R') }"

definition is_complete :: "nn_rsample_defrag \<Rightarrow> bool option" where
  "is_complete sample = do {
     iv \<leftarrow> onode (fragtree sample);
     if iv_min iv = 0 \<and> si_size (ds_sampleinfo sample) \<le> iv_maxp1 iv then do {
       _ \<leftarrow> assertion (is_singleton (fragtree sample));
       Some True }
     else Some False }"

definition rsample_convert_defrag_to_reorder :: "nn_rsample_defrag \<Rightarrow> rsample option" where
  "rsample_convert_defrag_to_reorder sample = do {
     iv \<leftarrow> onode (fragtree sample);
     Some \<lparr>rs_sc = [\<lparr>sce_fragchain = iv_chain iv, sce_sampleinfo = Some (ds_sampleinfo sample)\<rparr>],
           rs_min = ds_seq sample, rs_maxp1 = ds_seq sample + 1, rs_n_samples = 1\<rparr> }"

text \<open>The three ways of taking in a fragment that adds data, in the order of the code.\<close>

definition grow_predeq ::
  "nn_rsample_defrag \<Rightarrow> refs \<Rightarrow> nn_defrag_iv \<Rightarrow> rdata \<Rightarrow> rsample_info \<Rightarrow>
   (bool \<times> nn_rsample_defrag \<times> refs) option" where
  "grow_predeq sample R predeq rdata sampleinfo = do {
     R' \<leftarrow> nn_rdata_addbias R rdata;
     let info = (if iv_chain predeq \<noteq> [] then ds_sampleinfo sample else sampleinfo);
     let predeq' = predeq\<lparr>iv_chain := iv_chain predeq @ [rdata], iv_maxp1 := rd_maxp1 rdata\<rparr>;
     t \<leftarrow> write_node ftree (fragtree sample) predeq predeq';
     sample' \<leftarrow> merge_loop (sample\<lparr>fragtree := t, ds_sampleinfo := info\<rparr>) predeq';
     c \<leftarrow> is_complete sample';
     Some (c, sample', R') }"

definition extend_succ ::
  "nn_rsample_defrag \<Rightarrow> refs \<Rightarrow> nn_defrag_iv \<Rightarrow> rdata \<Rightarrow> (nn_rsample_defrag \<times> refs) option" where
  "extend_succ sample R succ rdata = do {
     R' \<leftarrow> nn_rdata_addbias R rdata;
     let succ1 = succ\<lparr>iv_chain := rdata # iv_chain succ, iv_min := rd_min rdata\<rparr>;
     let last = (if lastfrag sample = Some (iv_min succ) then Some (rd_min rdata)
                 else lastfrag sample);
     sample' \<leftarrow>
       (if iv_maxp1 succ < rd_maxp1 rdata then do {
          let succ2 = succ1\<lparr>iv_maxp1 := rd_maxp1 rdata\<rparr>;
          t \<leftarrow> write_node ftree (fragtree sample) succ succ2;
          merge_loop (sample\<lparr>fragtree := t, lastfrag := last\<rparr>) succ2 }
        else do {
          t \<leftarrow> write_node ftree (fragtree sample) succ succ1;
          Some (sample\<lparr>fragtree := t, lastfrag := last\<rparr>) });
     c \<leftarrow> is_complete sample';
     _ \<leftarrow> assertion (\<not> c);
     Some (sample', R') }"

definition new_interval ::
  "nn_rsample_defrag \<Rightarrow> refs \<Rightarrow> rdata \<Rightarrow> (nn_rsample_defrag \<times> refs) option" where
  "new_interval sample R rdata = do {
     _ \<leftarrow> assertion (fst (lookup_ipath ftree (fragtree sample) (rd_min rdata)) = None);
     defrag_rsample_addiv sample R rdata }"

text \<open>
  The result: whether the sample is returned (complete) or NULL is, the sample, the references
  and the bytes discarded.
\<close>

definition defrag_add_fragment ::
  "nn_rsample_defrag \<Rightarrow> refs \<Rightarrow> rdata \<Rightarrow> rsample_info \<Rightarrow>
   (bool \<times> nn_rsample_defrag \<times> refs \<times> nat) option" where
  "defrag_add_fragment sample R rdata sampleinfo = do {
     let min = rd_min rdata;
     let maxp1 = rd_maxp1 rdata;
     _ \<leftarrow> assertion (min < maxp1);
     _ \<leftarrow> assertion (ds_seq sample = si_seq sampleinfo);
     last \<leftarrow> lastfrag sample;
     _ \<leftarrow> assertion (map_option iv_min (find_max (fragtree sample)) = Some last);
     predeq \<leftarrow> (if last \<le> min then lookup ftree (fragtree sample) last
                else lookup_pred_eq ftree (fragtree sample) min);
     if maxp1 \<le> iv_maxp1 predeq then Some (False, sample, R, maxp1 - min)
     else if min \<le> iv_maxp1 predeq then do {
       (c, sample', R') \<leftarrow> grow_predeq sample R predeq rdata sampleinfo;
       Some (c, sample', R', 0) }
     else
       (case (if iv_min predeq \<noteq> last then find_succ ftree (fragtree sample) (Some predeq)
              else None) of
          Some succ \<Rightarrow>
            if iv_min succ \<le> maxp1 then do {
              (sample', R') \<leftarrow> extend_succ sample R succ rdata;
              Some (False, sample', R', 0) }
            else do {
              (sample', R') \<leftarrow> new_interval sample R rdata;
              Some (False, sample', R', 0) }
        | None \<Rightarrow> do {
            (sample', R') \<leftarrow> new_interval sample R rdata;
            Some (False, sample', R', 0) }) }"

section \<open>The defragmenter\<close>

definition nn_rdata_is_fragment :: "rdata \<Rightarrow> rsample_info \<Rightarrow> bool option" where
  "nn_rdata_is_fragment rdata sampleinfo = do {
     _ \<leftarrow> assertion (rd_min rdata \<le> rd_maxp1 rdata);
     _ \<leftarrow> assertion (rd_maxp1 rdata \<le> si_size sampleinfo);
     Some (\<not> (rd_min rdata = 0 \<and> rd_maxp1 rdata = si_size sampleinfo)) }"

definition seq_or_0 :: "seqno option \<Rightarrow> seqno" where
  "seq_or_0 m = (case m of None \<Rightarrow> 0 | Some q \<Rightarrow> q)"

definition max_key :: "nn_rsample_defrag avl \<Rightarrow> seqno option" where
  "max_key t = map_option ds_seq (find_max t)"

text \<open>The result is the return value, the defragmenter, the references and \<open>*max_seq\<close>.\<close>

definition defrag_limit_samples ::
  "nn_defrag \<Rightarrow> refs \<Rightarrow> seqno \<Rightarrow> seqno \<Rightarrow> (bool \<times> nn_defrag \<times> refs \<times> seqno) option" where
  "defrag_limit_samples d R seq max_seq =
     (if df_n_samples d < df_max_samples d then Some (True, d, R, max_seq)
      else do {
        m \<leftarrow> max_sample d;
        to_drop \<leftarrow>
          (case drop_mode d of
             NN_DEFRAG_DROP_LATEST \<Rightarrow>
               if m < seq then Some None else map_option Some (lookup stree (sampletree d) m)
           | NN_DEFRAG_DROP_OLDEST \<Rightarrow> do {
               s \<leftarrow> find_min (sampletree d);
               Some (if seq < ds_seq s then None else Some s) });
        (case to_drop of
           None \<Rightarrow> Some (False, d, R, max_seq)
         | Some s \<Rightarrow> do {
             (d', R') \<leftarrow> defrag_rsample_drop d R s;
             if ds_seq s = m then
               (let mx = max_key (sampletree d')
                in Some (True, d'\<lparr>max_sample := mx\<rparr>, R', seq_or_0 mx))
             else Some (True, d', R', max_seq) }) })"

text \<open>Add to a known sample (\<open>known\<close>), and take the sample out when it has become complete.\<close>

definition defrag_known_sample ::
  "nn_defrag \<Rightarrow> refs \<Rightarrow> nn_rsample_defrag \<Rightarrow> rdata \<Rightarrow> rsample_info \<Rightarrow>
   (rsample option \<times> nn_defrag \<times> refs) option" where
  "defrag_known_sample d R known rdata sampleinfo = do {
     (c, s', R', disc) \<leftarrow> defrag_add_fragment known R rdata sampleinfo;
     t \<leftarrow> write_node stree (sampletree d) known s';
     let d' = d\<lparr>sampletree := t, df_discarded_bytes := df_discarded_bytes d + disc\<rparr>;
     if \<not> c then Some (None, d', R')
     else do {
       t' \<leftarrow> avl_delete stree (sampletree d') s';
       _ \<leftarrow> assertion (0 < df_n_samples d');
       let mx = (if max_sample d' = Some (ds_seq s') then max_key t' else max_sample d');
       rs \<leftarrow> rsample_convert_defrag_to_reorder s';
       Some (Some rs,
         d'\<lparr>sampletree := t', df_n_samples := df_n_samples d' - 1, max_sample := mx\<rparr>, R') } }"

definition nn_defrag_rsample ::
  "nn_defrag \<Rightarrow> refs \<Rightarrow> rdata \<Rightarrow> rsample_info \<Rightarrow> (rsample option \<times> nn_defrag \<times> refs) option" where
  "nn_defrag_rsample d R rdata sampleinfo = do {
     _ \<leftarrow> assertion (df_n_samples d \<le> df_max_samples d);
     frag \<leftarrow> nn_rdata_is_fragment rdata sampleinfo;
     if \<not> frag then
       do {
         (rs, R') \<leftarrow> reorder_rsample_new R rdata sampleinfo;
         Some (Some rs, d, R') }
     else do {
       _ \<leftarrow> assertion (max_sample d = max_key (sampletree d));
       let max_seq = seq_or_0 (max_sample d);
       (result, d', R') \<leftarrow>
         (if si_seq sampleinfo = max_seq then do {
            m \<leftarrow> max_sample d;
            known \<leftarrow> lookup stree (sampletree d) m;
            defrag_known_sample d R known rdata sampleinfo }
          else do {
            (go, d1, R1, max_seq') \<leftarrow> defrag_limit_samples d R (si_seq sampleinfo) max_seq;
            if \<not> go then Some (None, d1, R1)
            else if max_seq' < si_seq sampleinfo then do {
              (s, R2) \<leftarrow> defrag_rsample_new R1 rdata sampleinfo;
              t \<leftarrow> insert_at stree (sampletree d1) (si_seq sampleinfo) s;
              Some (None, d1\<lparr>sampletree := t, max_sample := Some (ds_seq s),
                             df_n_samples := df_n_samples d1 + 1\<rparr>, R2) }
            else
              (case fst (lookup_ipath stree (sampletree d1) (si_seq sampleinfo)) of
                 None \<Rightarrow> do {
                   _ \<leftarrow> assertion (si_seq sampleinfo < max_seq');
                   (s, R2) \<leftarrow> defrag_rsample_new R1 rdata sampleinfo;
                   t \<leftarrow> insert_at stree (sampletree d1) (si_seq sampleinfo) s;
                   Some (None, d1\<lparr>sampletree := t, df_n_samples := df_n_samples d1 + 1\<rparr>, R2) }
               | Some known \<Rightarrow> defrag_known_sample d1 R1 known rdata sampleinfo) });
       _ \<leftarrow> assertion (max_sample d' = max_key (sampletree d'));
       Some (result, d', R') } }"

partial_function (option) notegap_loop ::
  "nn_defrag \<Rightarrow> refs \<Rightarrow> seqno \<Rightarrow> nn_rsample_defrag option \<Rightarrow> (nn_defrag \<times> refs) option" where
  "notegap_loop d R maxp1 s =
     (if s \<noteq> None \<and> ds_seq (the s) < maxp1 then do {
        (s1, d', R') \<leftarrow> map_option (Pair (find_succ stree (sampletree d) s))
          (defrag_rsample_drop d R (the s));
        notegap_loop d' R' maxp1 s1 }
      else Some (d, R))"

definition nn_defrag_notegap ::
  "nn_defrag \<Rightarrow> refs \<Rightarrow> seqno \<Rightarrow> seqno \<Rightarrow> (nn_defrag \<times> refs) option" where
  "nn_defrag_notegap d R lo maxp1 = do {
     (d', R') \<leftarrow> notegap_loop d R maxp1 (lookup_succ_eq stree (sampletree d) lo);
     Some (d'\<lparr>max_sample := max_key (sampletree d')\<rparr>, R') }"

partial_function (option) prune_loop ::
  "nn_defrag \<Rightarrow> refs \<Rightarrow> nat \<Rightarrow> nn_rsample_defrag option \<Rightarrow> (nn_defrag \<times> refs) option" where
  "prune_loop d R dst s =
     (if s \<noteq> None then do {
        (s1, d', R') \<leftarrow> map_option (Pair (find_succ stree (sampletree d) s))
          (if si_dst (ds_sampleinfo (the s)) = dst then defrag_rsample_drop d R (the s)
           else Some (d, R));
        prune_loop d' R' dst s1 }
      else Some (d, R))"

definition nn_defrag_prune ::
  "nn_defrag \<Rightarrow> refs \<Rightarrow> nat \<Rightarrow> seqno \<Rightarrow> (nn_defrag \<times> refs) option" where
  "nn_defrag_prune d R dst lo = do {
     (d', R') \<leftarrow> prune_loop d R dst (lookup_succ_eq stree (sampletree d) lo);
     Some (d'\<lparr>max_sample := max_key (sampletree d')\<rparr>, R') }"

declare nn_defrag_free.simps [code] merge_loop.simps [code] notegap_loop.simps [code]
  prune_loop.simps [code]

end
