(* ===== verification/Defrag_Sample.thy ===== *)
theory Defrag_Sample
  imports Defrag_Model "HOL-Library.Multiset"
begin

text \<open>
  One sample in the defragmenter: the invariant of its interval tree, and what
  \<open>defrag_add_fragment\<close> does to the bytes received, the fragments kept and the order of the
  chains.
\<close>

section \<open>The invariant of a sample\<close>

definition iv_ok :: "nat \<Rightarrow> nn_defrag_iv \<Rightarrow> bool" where
  "iv_ok sz iv \<longleftrightarrow> reaches (iv_min iv) (iv_maxp1 iv) (iv_chain iv) \<and> iv_maxp1 iv \<le> sz \<and>
     (if iv_chain iv = [] then iv_min iv = 0 \<and> iv_maxp1 iv = 0 else iv_min iv < iv_maxp1 iv)"

text \<open>Between two intervals there is a gap.\<close>

definition apart :: "nn_defrag_iv list \<Rightarrow> bool" where
  "apart = sorted_wrt (\<lambda>a b. iv_maxp1 a < iv_min b)"

definition ivs_ok :: "nat \<Rightarrow> nn_defrag_iv list \<Rightarrow> bool" where
  "ivs_ok sz ivs \<longleftrightarrow> apart ivs \<and> (\<forall>iv\<in>set ivs. iv_ok sz iv) \<and>
     (\<exists>iv rest. ivs = iv # rest \<and> iv_min iv = 0)"

abbreviation intervals :: "nn_rsample_defrag \<Rightarrow> nn_defrag_iv list" where
  "intervals s \<equiv> inorder (fragtree s)"

abbreviation ds_size :: "nn_rsample_defrag \<Rightarrow> nat" where
  "ds_size s \<equiv> si_size (ds_sampleinfo s)"

definition frag_ok :: "nn_rsample_defrag \<Rightarrow> bool" where
  "frag_ok s \<longleftrightarrow> index_ok ftree (fragtree s) \<and> ivs_ok (ds_size s) (intervals s) \<and>
     lastfrag s = map_option iv_min (last_opt (intervals s))"

text \<open>The bytes received, and the fragments kept, in the order of the chains.\<close>

definition ivbytes :: "nn_defrag_iv list \<Rightarrow> nat set" where
  "ivbytes ivs = (\<Union>iv\<in>set ivs. {iv_min iv..<iv_maxp1 iv})"

definition bytes :: "nn_rsample_defrag \<Rightarrow> nat set" where
  "bytes s = ivbytes (intervals s)"

definition ivfrags :: "nn_defrag_iv list \<Rightarrow> rdata list" where
  "ivfrags ivs = concat (map iv_chain ivs)"

definition frags :: "nn_rsample_defrag \<Rightarrow> rdata list" where
  "frags s = ivfrags (intervals s)"

definition complete :: "nn_rsample_defrag \<Rightarrow> bool" where
  "complete s \<longleftrightarrow> (\<exists>iv. intervals s = [iv] \<and> iv_maxp1 iv = ds_size s)"

lemma apart_simps [simp]:
  "apart []"
  "apart (a # ivs) \<longleftrightarrow> (\<forall>b\<in>set ivs. iv_maxp1 a < iv_min b) \<and> apart ivs"
  "apart (ivs @ jvs) \<longleftrightarrow> apart ivs \<and> apart jvs \<and> (\<forall>a\<in>set ivs. \<forall>b\<in>set jvs. iv_maxp1 a < iv_min b)"
  by (auto simp: apart_def sorted_wrt_append)

lemma ivbytes_simps [simp]:
  "ivbytes [] = {}" "ivbytes (a # ivs) = {iv_min a..<iv_maxp1 a} \<union> ivbytes ivs"
  "ivbytes (ivs @ jvs) = ivbytes ivs \<union> ivbytes jvs"
  by (auto simp: ivbytes_def)

lemma ivfrags_simps [simp]:
  "ivfrags [] = []" "ivfrags (a # ivs) = iv_chain a @ ivfrags ivs"
  "ivfrags (ivs @ jvs) = ivfrags ivs @ ivfrags jvs"
  by (auto simp: ivfrags_def)

lemma iv_ok_le: "iv_ok sz iv \<Longrightarrow> iv_min iv \<le> iv_maxp1 iv \<and> iv_maxp1 iv \<le> sz"
  by (auto simp: iv_ok_def split: if_splits)

lemma iv_ok_pos: "iv_ok sz iv \<Longrightarrow> 0 < iv_min iv \<Longrightarrow> iv_chain iv \<noteq> [] \<and> iv_min iv < iv_maxp1 iv"
  by (auto simp: iv_ok_def split: if_splits)

lemma frag_okD:
  assumes "frag_ok s"
  shows "index_ok ftree (fragtree s)" "apart (intervals s)" "\<forall>iv\<in>set (intervals s). iv_ok (ds_size s) iv"
    "\<exists>iv rest. intervals s = iv # rest \<and> iv_min iv = 0"
    "lastfrag s = map_option iv_min (last_opt (intervals s))"
  using assms by (auto simp: frag_ok_def ivs_ok_def)

text \<open>Only the first interval can be the sentinel.\<close>

lemma not_sentinel:
  assumes "frag_ok s" "intervals s = xs @ p # ys" "y \<in> set ys"
  shows "iv_chain y \<noteq> []" "iv_min y < iv_maxp1 y" "iv_maxp1 p < iv_min y"
proof -
  have "iv_maxp1 p < iv_min y" "iv_ok (ds_size s) y"
    using frag_okD(2,3) [OF assms(1)] assms(2,3) by auto
  then show "iv_chain y \<noteq> []" "iv_min y < iv_maxp1 y" "iv_maxp1 p < iv_min y"
    using iv_ok_pos [of "ds_size s" y] by auto
qed

section \<open>Completeness\<close>

lemma avl_height_1:
  assumes "avl (Node l v h r)"
  shows "h = 1 \<longleftrightarrow> l = Null \<and> r = Null"
proof -
  have l: "height l = 0 \<longleftrightarrow> l = Null" "0 \<le> height l" and r: "height r = 0 \<longleftrightarrow> r = Null" "0 \<le> height r"
    using assms by (simp_all only: avl.simps avl_height_0 avl_height_nonneg)
  have "h = max (height l) (height r) + 1" using assms by simp
  then have "h = 1 \<longleftrightarrow> height l = 0 \<and> height r = 0" using l(2) r(2) by linarith
  with l(1) r(1) show ?thesis by simp
qed

lemma is_complete_iff:
  assumes "frag_ok s"
  shows "is_complete s = Some (complete s)"
proof -
  note ok = frag_okD [OF assms]
  obtain l v h r where t: "fragtree s = Node l v h r" using ok(4) by (cases "fragtree s") auto
  have e: "intervals s = inorder l @ v # inorder r" by (simp add: t)
  have avl: "avl (Node l v h r)" using ok(1) t by (simp add: index_ok_def)
  have v: "iv_ok (ds_size s) v" using ok(3) e by simp
  show ?thesis
  proof (cases "iv_min v = 0 \<and> ds_size s \<le> iv_maxp1 v")
    case True
    have "set (inorder l) = {}"
    proof (rule equals0I)
      fix x
      assume "x \<in> set (inorder l)"
      then have "iv_maxp1 x < iv_min v" using ok(2) e by simp
      with True show False by simp
    qed
    moreover have "set (inorder r) = {}"
    proof (rule equals0I)
      fix y
      assume y: "y \<in> set (inorder r)"
      then have "iv_maxp1 v < iv_min y" "iv_min y < iv_maxp1 y" "iv_maxp1 y \<le> ds_size s"
        using not_sentinel [OF assms e y] ok(3) e iv_ok_le [of "ds_size s" y] by auto
      with True show False by linarith
    qed
    ultimately have "l = Null \<and> r = Null" by simp
    moreover from this have "h = 1" using avl_height_1 [OF avl] by simp
    ultimately show ?thesis using True t v iv_ok_le [OF v]
      by (simp add: is_complete_def complete_def is_singleton_def)
  next
    case False
    have "\<not> complete s"
    proof
      assume c: "complete s"
      then obtain iv where iv: "intervals s = [iv]" "iv_maxp1 iv = ds_size s" by (auto simp: complete_def)
      then have "v = iv" using e by (cases "inorder l") simp_all
      moreover have "iv_min iv = 0" using ok(4) iv(1) by simp
      ultimately show False using iv(2) False by simp
    qed
    with False t show ?thesis by (auto simp: is_complete_def)
  qed
qed

text \<open>A sample is complete exactly when every byte of it has been received.\<close>

lemma complete_bytes:
  assumes "frag_ok s" "0 < ds_size s"
  shows "complete s \<longleftrightarrow> bytes s = {0..<ds_size s}"
proof
  assume "complete s"
  then show "bytes s = {0..<ds_size s}"
    using frag_okD(4) [OF assms(1)] by (auto simp: complete_def bytes_def)
next
  assume b: "bytes s = {0..<ds_size s}"
  note ok = frag_okD [OF assms(1)]
  obtain iv rest where e: "intervals s = iv # rest" "iv_min iv = 0" using ok(4) by auto
  have e': "intervals s = [] @ iv # rest" using e by simp
  have iv: "iv_ok (ds_size s) iv" using ok(3) e by simp
  show "complete s"
  proof (cases "iv_maxp1 iv < ds_size s")
    case True
    then have "iv_maxp1 iv \<in> bytes s" using b by simp
    then obtain j where "j \<in> set (iv # rest)" "iv_min j \<le> iv_maxp1 iv" "iv_maxp1 iv < iv_maxp1 j"
      using e by (auto simp: bytes_def ivbytes_def)
    moreover from this have "j \<in> set rest" by auto
    ultimately show ?thesis using not_sentinel(3) [OF assms(1) e', of j] by simp
  next
    case False
    have "rest = []"
    proof (cases rest)
      case (Cons j js)
      then have "iv_maxp1 iv < iv_min j" "iv_min j < iv_maxp1 j" "iv_maxp1 j \<le> ds_size s"
        using not_sentinel [OF assms(1) e', of j] ok(3) e iv_ok_le [of "ds_size s" j] by auto
      with False show ?thesis by linarith
    qed simp
    moreover have "iv_maxp1 iv = ds_size s" using False iv_ok_le [OF iv] by simp
    ultimately show ?thesis using e by (simp add: complete_def)
  qed
qed

section \<open>Merging with the successor\<close>

text \<open>What the loop does to the list: one interval at most is absorbed.\<close>

fun absorb :: "nn_defrag_iv \<Rightarrow> nn_defrag_iv list \<Rightarrow> nn_defrag_iv list" where
  "absorb node [] = [node]"
| "absorb node (u # us) =
     (if iv_maxp1 node < iv_min u then node # u # us
      else node\<lparr>iv_chain := iv_chain node @ iv_chain u, iv_maxp1 := iv_maxp1 u\<rparr> # us)"

lemma absorb_neq_Nil [simp]: "absorb node ys \<noteq> []"
  by (cases ys) auto

lemma merge_loop_spec:
  assumes ok: "index_ok ftree (fragtree s)" and e: "intervals s = xs @ node # ys"
    and last: "lastfrag s = Some (iv_min (last (node # ys)))"
    and "iv_chain node \<noteq> []" "\<forall>y\<in>set ys. iv_chain y \<noteq> []"
  shows "\<exists>t. merge_loop s node =
      Some (s\<lparr>fragtree := t, lastfrag := Some (iv_min (last (absorb node ys)))\<rparr>) \<and>
    index_ok ftree t \<and> inorder t = xs @ absorb node ys"
proof (cases ys)
  case Nil
  then have "defrag_try_merge_with_succ s node = Some (False, s, node)"
    using last by (simp add: defrag_try_merge_with_succ_def)
  then have "merge_loop s node = Some s" by (subst merge_loop.simps) simp
  with ok e last Nil show ?thesis by (intro exI [of _ "fragtree s"]) simp
next
  case (Cons u us)
  have key: "iv_min node < iv_min u" "\<forall>y\<in>set us. iv_min u < iv_min y"
    using ivs.ok_sorted [OF ok] e Cons by (auto simp: sorted_by_append)
  then have "iv_min node < iv_min (last (u # us))" by (cases us rule: rev_cases) auto
  then have nl: "lastfrag s \<noteq> Some (iv_min node)" using last Cons by simp
  have succ: "find_succ ftree (fragtree s) (Some node) = Some u"
    using ivs.following_law [OF ok e] Cons by simp
  show ?thesis
  proof (cases "iv_maxp1 node < iv_min u")
    case True
    then have "defrag_try_merge_with_succ s node = Some (False, s, node)"
      using nl succ by (simp add: defrag_try_merge_with_succ_def)
    then have "merge_loop s node = Some s" by (subst merge_loop.simps) simp
    with ok e last Cons True show ?thesis by (intro exI [of _ "fragtree s"]) simp
  next
    case False
    let ?n = "node\<lparr>iv_chain := iv_chain node @ iv_chain u, iv_maxp1 := iv_maxp1 u\<rparr>"
    have "intervals s = (xs @ [node]) @ u # us" using e Cons by simp
    from ivs.del_law [OF ok this] obtain t1 where t1: "avl_delete ftree (fragtree s) u = Some t1"
      "index_ok ftree t1" "inorder t1 = xs @ node # us" by auto
    have "\<forall>x\<in>set xs. iv_min x < iv_min ?n" "\<forall>y\<in>set us. iv_min ?n < iv_min y"
      using ivs.ok_sorted [OF ok] e Cons by (auto simp: sorted_by_append)
    with ivs.wr_law [OF t1(2,3), of ?n] obtain t2 where t2: "write_node ftree t1 node ?n = Some t2"
      "index_ok ftree t2" "inorder t2 = xs @ ?n # us" by auto
    have l: "(if lastfrag s = Some (iv_min u) then Some (iv_min node) else lastfrag s) =
        Some (iv_min (last (?n # us)))"
    proof (cases us rule: rev_cases)
      case Nil
      then show ?thesis using last Cons by simp
    next
      case (snoc zs z)
      then show ?thesis using last \<open>ys = u # us\<close> key by auto
    qed
    let ?s = "s\<lparr>fragtree := t2, lastfrag := Some (iv_min (last (?n # us)))\<rparr>"
    have "defrag_try_merge_with_succ s node = Some (False, ?s, ?n)"
      unfolding defrag_try_merge_with_succ_def Let_def l [symmetric]
      using nl succ False t1(1) t2(1) assms(4,5) Cons by simp
    then have "merge_loop s node = Some ?s" by (subst merge_loop.simps) simp
    with t2(2,3) False Cons show ?thesis by (intro exI [of _ t2]) simp
  qed
qed

section \<open>Absorbing keeps the invariant\<close>

lemma absorb_frags: "ivfrags (absorb node ys) = iv_chain node @ ivfrags ys"
  by (cases ys) auto

lemma absorb_hd_min: "\<exists>n rest. absorb node ys = n # rest \<and> iv_min n = iv_min node"
  by (cases ys) auto

lemma absorb_ivs_ok:
  assumes xs: "apart xs" "\<forall>x\<in>set xs. iv_ok sz x \<and> iv_maxp1 x < iv_min node"
    and hd0: "xs = [] \<longrightarrow> iv_min node = 0" "\<forall>x rest. xs = x # rest \<longrightarrow> iv_min x = 0"
    and node: "iv_ok sz node" "iv_chain node \<noteq> []"
    and ys: "apart ys" "\<forall>y\<in>set ys. iv_ok sz y \<and> iv_chain y \<noteq> [] \<and> iv_min node < iv_min y"
  shows "ivs_ok sz (xs @ absorb node ys)"
proof -
  have "apart (absorb node ys) \<and> (\<forall>a\<in>set (absorb node ys). iv_ok sz a \<and> iv_min node \<le> iv_min a)"
  proof (cases ys)
    case Nil
    with node show ?thesis by simp
  next
    case (Cons u us)
    have u: "iv_ok sz u" "iv_chain u \<noteq> []" "iv_min node < iv_min u" using ys(2) Cons by auto
    have us: "iv_maxp1 u < iv_min a" if "a \<in> set us" for a using ys(1) Cons that by simp
    show ?thesis
    proof (cases "iv_maxp1 node < iv_min u")
      case True
      then have "iv_maxp1 node < iv_min a" if "a \<in> set us" for a
        using us [OF that] iv_ok_le [OF u(1)] by linarith
      with True node ys Cons show ?thesis by (auto intro: less_imp_le)
    next
      case False
      have "reaches (iv_min node) (iv_maxp1 u) (iv_chain node @ iv_chain u)"
        using node(1) u(1) False by (intro reaches_append(1)) (auto simp: iv_ok_def)
      moreover have "iv_min node < iv_maxp1 u" using iv_ok_le [OF u(1)] u(3) by linarith
      ultimately have "iv_ok sz (node\<lparr>iv_chain := iv_chain node @ iv_chain u, iv_maxp1 := iv_maxp1 u\<rparr>)"
        using u node(2) by (simp add: iv_ok_def)
      with False us ys Cons show ?thesis by (auto intro: less_imp_le)
    qed
  qed
  then have ab: "apart (absorb node ys)"
    "\<forall>a\<in>set (absorb node ys). iv_ok sz a \<and> iv_min node \<le> iv_min a" by simp_all
  have "iv_maxp1 x < iv_min a" if "x \<in> set xs" "a \<in> set (absorb node ys)" for x a
    using xs(2) ab(2) that by (meson less_le_trans)
  moreover have "\<exists>iv rest. xs @ absorb node ys = iv # rest \<and> iv_min iv = 0"
    using absorb_hd_min [of node ys] hd0 by (cases xs) auto
  ultimately show ?thesis using xs ab by (auto simp: ivs_ok_def)
qed

text \<open>No byte is lost; the part of the node beyond the interval it absorbs is, if there is one.\<close>

lemma absorb_bytes:
  assumes "\<forall>y\<in>set ys. iv_min y \<le> iv_maxp1 y \<and> iv_min node < iv_min y" "apart ys"
  shows "ivbytes (absorb node ys) \<subseteq> {iv_min node..<iv_maxp1 node} \<union> ivbytes ys"
    and "ivbytes ys \<subseteq> ivbytes (absorb node ys)"
    and "\<forall>y\<in>set ys. k < iv_min y \<Longrightarrow> k \<le> iv_maxp1 node \<Longrightarrow> {iv_min node..<k} \<subseteq> ivbytes (absorb node ys)"
    and "\<forall>y\<in>set ys. iv_min y \<le> iv_maxp1 node \<longrightarrow> iv_maxp1 node \<le> iv_maxp1 y \<Longrightarrow>
      ivbytes (absorb node ys) = {iv_min node..<iv_maxp1 node} \<union> ivbytes ys"
proof -
  show "ivbytes (absorb node ys) \<subseteq> {iv_min node..<iv_maxp1 node} \<union> ivbytes ys"
    by (cases ys) auto
  show "ivbytes ys \<subseteq> ivbytes (absorb node ys)"
    using assms by (cases ys) (auto dest: less_imp_le intro: order_trans)
  show "\<forall>y\<in>set ys. k < iv_min y \<Longrightarrow> k \<le> iv_maxp1 node \<Longrightarrow> {iv_min node..<k} \<subseteq> ivbytes (absorb node ys)"
    using assms by (cases ys) auto
  show "\<forall>y\<in>set ys. iv_min y \<le> iv_maxp1 node \<longrightarrow> iv_maxp1 node \<le> iv_maxp1 y \<Longrightarrow>
      ivbytes (absorb node ys) = {iv_min node..<iv_maxp1 node} \<union> ivbytes ys"
    using assms by (cases ys) auto
qed

section \<open>Adding a fragment\<close>

abbreviation fbytes :: "rdata \<Rightarrow> nat set" where
  "fbytes f \<equiv> {rd_min f..<rd_maxp1 f}"

text \<open>
  The fragment does not reach beyond the end of an interval that begins inside it or right
  behind it. Fragments of one size on a grid, which is what a writer sends, always fit.
\<close>

definition fits :: "rdata \<Rightarrow> nn_rsample_defrag \<Rightarrow> bool" where
  "fits f s \<longleftrightarrow> (\<forall>iv\<in>set (intervals s). rd_min f < iv_min iv \<and> iv_min iv \<le> rd_maxp1 f \<longrightarrow>
     rd_maxp1 f \<le> iv_maxp1 iv)"

text \<open>The contract of a branch that keeps the fragment.\<close>

definition kept :: "nn_rsample_defrag \<Rightarrow> rdata \<Rightarrow> rsample_info \<Rightarrow> nn_rsample_defrag \<Rightarrow> bool" where
  "kept s f info s' \<longleftrightarrow> frag_ok s' \<and> ds_seq s' = ds_seq s \<and>
     ds_sampleinfo s' = (if 0 \<notin> bytes s \<and> rd_min f = 0 then info else ds_sampleinfo s) \<and>
     bytes s \<subseteq> bytes s' \<and> bytes s' \<subseteq> bytes s \<union> fbytes f \<and>
     (fits f s \<longrightarrow> bytes s' = bytes s \<union> fbytes f) \<and>
     mset (frags s') = add_mset f (mset (frags s))"

lemma split_ok:
  assumes "frag_ok s" "intervals s = xs @ p # ys"
  shows "apart xs" "\<forall>x\<in>set xs. iv_ok (ds_size s) x \<and> iv_maxp1 x < iv_min p"
    "iv_ok (ds_size s) p" "apart ys"
    "\<forall>y\<in>set ys. iv_ok (ds_size s) y \<and> iv_chain y \<noteq> [] \<and> iv_maxp1 p < iv_min y \<and> iv_min y < iv_maxp1 y"
    "xs = [] \<longrightarrow> iv_min p = 0" "\<forall>x rest. xs = x # rest \<longrightarrow> iv_min x = 0"
    "lastfrag s = Some (iv_min (last (p # ys)))"
proof -
  note ok = frag_okD [OF assms(1)]
  show "apart xs" "\<forall>x\<in>set xs. iv_ok (ds_size s) x \<and> iv_maxp1 x < iv_min p"
    "iv_ok (ds_size s) p" "apart ys"
    using ok(2,3) assms(2) by auto
  show "\<forall>y\<in>set ys. iv_ok (ds_size s) y \<and> iv_chain y \<noteq> [] \<and> iv_maxp1 p < iv_min y \<and> iv_min y < iv_maxp1 y"
    using not_sentinel [OF assms] ok(3) assms(2) by auto
  show "xs = [] \<longrightarrow> iv_min p = 0" "\<forall>x rest. xs = x # rest \<longrightarrow> iv_min x = 0"
    using ok(4) assms(2) by auto
  have "last_opt (p # ys) = Some (last (p # ys))" by (simp only: last_opt_def list.distinct if_False)
  then show "lastfrag s = Some (iv_min (last (p # ys)))"
    using ok(5) assms(2) by (simp only: last_opt_append or_else_simps option.map)
qed

text \<open>Bytes of a sample, split at an interval.\<close>

lemma bytes_split: "intervals s = xs @ p # ys \<Longrightarrow>
    bytes s = ivbytes xs \<union> {iv_min p..<iv_maxp1 p} \<union> ivbytes ys"
  by (auto simp: bytes_def)

lemma zero_in_bytes:
  assumes "frag_ok s" "intervals s = xs @ p # ys" "iv_min p = 0"
  shows "0 \<in> bytes s \<longleftrightarrow> iv_chain p \<noteq> []"
proof -
  have "xs = []" using split_ok(2) [OF assms(1,2)] assms(3) by (cases xs) auto
  moreover have "0 \<notin> ivbytes ys" using split_ok(5) [OF assms(1,2)] by (fastforce simp: ivbytes_def)
  ultimately show ?thesis using split_ok(3) [OF assms(1,2)] assms(2,3)
    by (auto simp: bytes_def iv_ok_def split: if_splits)
qed

lemma grow_predeq_kept:
  assumes ok: "frag_ok s" and e: "intervals s = xs @ p # ys"
    and f: "rd_maxp1 f \<le> ds_size s" "iv_min p \<le> rd_min f" "rd_min f \<le> iv_maxp1 p" "iv_maxp1 p < rd_maxp1 f"
    and above: "\<forall>y\<in>set ys. rd_min f < iv_min y"
    and info: "si_size info = ds_size s" and rc: "receives R h (rd_rmsg f)"
  shows "\<exists>s'. grow_predeq s R p f info = Some (complete s', s', with_bias R f) \<and> kept s f info s'"
proof -
  note sp = split_ok [OF ok e]
  note idx = frag_okD(1) [OF ok]
  let ?p = "p\<lparr>iv_chain := iv_chain p @ [f], iv_maxp1 := rd_maxp1 f\<rparr>"
  let ?info = "if iv_chain p \<noteq> [] then ds_sampleinfo s else info"
  have sz: "si_size ?info = ds_size s" using info by simp
  obtain t where t: "write_node ftree (fragtree s) p ?p = Some t"
    "index_ok ftree t" "inorder t = xs @ ?p # ys"
    using ivs.wr_law [OF idx e, of ?p] ivs.split_keys(1,2) [OF idx e] by auto
  let ?s = "s\<lparr>fragtree := t, ds_sampleinfo := ?info\<rparr>"
  have last: "lastfrag ?s = Some (iv_min (last (?p # ys)))" using sp(8) by (cases ys) auto
  have ch: "iv_chain ?p \<noteq> []" "\<forall>y\<in>set ys. iv_chain y \<noteq> []" using sp(5) by auto
  have t': "index_ok ftree (fragtree ?s)" "intervals ?s = xs @ ?p # ys" using t by simp_all
  obtain t2 where t2: "merge_loop ?s ?p =
      Some (?s\<lparr>fragtree := t2, lastfrag := Some (iv_min (last (absorb ?p ys)))\<rparr>)"
    "index_ok ftree t2" "inorder t2 = xs @ absorb ?p ys"
    using merge_loop_spec [OF t' last ch] by auto
  let ?s' = "?s\<lparr>fragtree := t2, lastfrag := Some (iv_min (last (absorb ?p ys)))\<rparr>"
  have pok: "iv_ok (ds_size s) ?p"
  proof -
    have "reaches (rd_min f) (rd_maxp1 f) [f]" by (rule reaches_single) simp_all
    with sp(3) f have "reaches (iv_min p) (rd_maxp1 f) (iv_chain p @ [f])"
      by (intro reaches_append(1) [of _ "iv_maxp1 p"]) (auto simp: iv_ok_def)
    with f show ?thesis by (simp add: iv_ok_def)
  qed
  have iok: "ivs_ok (ds_size s) (xs @ absorb ?p ys)"
    by (rule absorb_ivs_ok) (use sp pok above f iv_ok_le [OF sp(3)] in auto)
  have ok': "frag_ok ?s'"
    using t2 iok sz by (auto simp: frag_ok_def last_opt_def)
  have ab: "\<forall>y\<in>set ys. iv_min y \<le> iv_maxp1 y \<and> iv_min ?p < iv_min y"
    using sp(5) above f(2) by auto
  note ab = absorb_bytes [OF ab sp(4)]
  have b: "bytes s = ivbytes xs \<union> {iv_min p..<iv_maxp1 p} \<union> ivbytes ys" by (rule bytes_split [OF e])
  have b': "bytes ?s' = ivbytes xs \<union> ivbytes (absorb ?p ys)" using t2(3) by (simp add: bytes_def)
  have pf: "{iv_min ?p..<iv_maxp1 ?p} = {iv_min p..<iv_maxp1 p} \<union> fbytes f" using f by auto
  have "{iv_min ?p..<iv_maxp1 p} \<subseteq> ivbytes (absorb ?p ys)"
    by (rule ab(3)) (use sp(5) f in auto)
  then have mono: "bytes s \<subseteq> bytes ?s'" using ab(2) b b' by auto
  have sub: "bytes ?s' \<subseteq> bytes s \<union> fbytes f" using ab(1) b b' unfolding pf by blast
  have eq: "bytes ?s' = bytes s \<union> fbytes f" if "fits f s"
  proof -
    have "ivbytes (absorb ?p ys) = {iv_min ?p..<iv_maxp1 ?p} \<union> ivbytes ys"
      using that e above by (intro ab(4)) (auto simp: fits_def)
    then show ?thesis using b b' unfolding pf by blast
  qed
  have "?info = (if 0 \<notin> bytes s \<and> rd_min f = 0 then info else ds_sampleinfo s)"
  proof (cases "iv_min p = 0")
    case True
    then show ?thesis using zero_in_bytes [OF ok e] sp(3) f(2,3) by (auto simp: iv_ok_def)
  next
    case False
    then show ?thesis using sp(3) f(2) by (auto simp: iv_ok_def)
  qed
  moreover have "mset (frags ?s') = add_mset f (mset (frags s))"
    using t2(3) e by (simp add: frags_def absorb_frags)
  ultimately have "kept s f info ?s'"
    using ok' mono sub eq by (simp add: kept_def)
  moreover have "grow_predeq s R p f info = Some (complete ?s', ?s', with_bias R f)"
    using t(1) t2(1) is_complete_iff [OF ok'] addbias [OF rc] by (simp add: grow_predeq_def Let_def)
  ultimately show ?thesis by blast
qed

lemma reaches_Cons:
  "reaches lo hi fs \<Longrightarrow> lo \<le> rd_maxp1 f \<Longrightarrow> rd_min f \<le> lo \<Longrightarrow> reaches (rd_min f) hi (f # fs)"
  using reaches_append(1) [OF reaches_single [of "rd_min f" f "rd_maxp1 f"], of lo hi fs] by simp

lemma reaches_more:
  assumes "reaches lo hi fs" "rd_min f \<le> lo" "lo \<le> rd_maxp1 f"
  shows "reaches (rd_min f) (rd_maxp1 f) (f # fs)"
  using reaches_append(2) [OF reaches_single [of "rd_min f" f "rd_maxp1 f"] assms(1)] assms(3) by simp

lemma extend_succ_kept:
  assumes ok: "frag_ok s" and e: "intervals s = xs @ p # u # us"
    and f: "rd_min f < rd_maxp1 f" "rd_maxp1 f \<le> ds_size s" "iv_maxp1 p < rd_min f"
      "rd_min f < iv_min u" "iv_min u \<le> rd_maxp1 f"
    and rc: "receives R h (rd_rmsg f)"
  shows "\<exists>s'. extend_succ s R u f = Some (s', with_bias R f) \<and> kept s f info s' \<and> \<not> complete s'"
proof -
  have e': "intervals s = (xs @ [p]) @ u # us" using e by simp
  note sp = split_ok [OF ok e']
  have pok: "iv_ok (ds_size s) p" using frag_okD(3) [OF ok] e by simp
  note idx = frag_okD(1) [OF ok]
  let ?m = "max (iv_maxp1 u) (rd_maxp1 f)"
  let ?u = "u\<lparr>iv_chain := f # iv_chain u, iv_min := rd_min f, iv_maxp1 := ?m\<rparr>"
  let ?last = "if lastfrag s = Some (iv_min u) then Some (rd_min f) else lastfrag s"
  have u: "iv_ok (ds_size s) u" "iv_chain u \<noteq> []" "iv_min u < iv_maxp1 u"
    using split_ok(3,5) [OF ok e'] split_ok(5) [OF ok e] by auto
  have us: "\<forall>y\<in>set us. iv_ok (ds_size s) y \<and> iv_chain y \<noteq> [] \<and> iv_maxp1 u < iv_min y \<and> iv_min y < iv_maxp1 y"
    by (rule sp(5))
  have "reaches (iv_min u) (iv_maxp1 u) (iv_chain u)" using u(1) by (simp add: iv_ok_def)
  then have r: "reaches (rd_min f) ?m (f # iv_chain u)"
    using reaches_Cons [of _ _ _ f] reaches_more [of _ _ _ f] f by (simp add: max_def)
  then have uok: "iv_ok (ds_size s) ?u" using u f by (auto simp: iv_ok_def)
  have keys: "\<forall>x\<in>set (xs @ [p]). iv_min x < iv_min ?u" "\<forall>y\<in>set us. iv_min ?u < iv_min y"
  proof -
    have "iv_min x < iv_min p" if "x \<in> set xs" for x
      using ivs.split_keys(1) [OF idx e] that by simp
    then show "\<forall>x\<in>set (xs @ [p]). iv_min x < iv_min ?u"
      using iv_ok_le [OF pok] f(3) by fastforce
    show "\<forall>y\<in>set us. iv_min ?u < iv_min y" using us f(4) u(3) by auto
  qed
  obtain t where t: "write_node ftree (fragtree s) u ?u = Some t"
    "index_ok ftree t" "inorder t = (xs @ [p]) @ ?u # us"
    using ivs.wr_law [OF idx e', of ?u] keys by auto
  let ?s = "s\<lparr>fragtree := t, lastfrag := ?last\<rparr>"
  have last: "?last = Some (iv_min (last (?u # us)))"
  proof (cases us rule: rev_cases)
    case Nil
    then show ?thesis using sp(8) by simp
  next
    case (snoc zs z)
    then have "iv_min u < iv_min z" using us u(3) by fastforce
    with snoc sp(8) show ?thesis by simp
  qed
  let ?ivs = "if iv_maxp1 u < rd_maxp1 f then absorb ?u us else ?u # us"
  have ab0: "?ivs = absorb ?u us" if "\<not> iv_maxp1 u < rd_maxp1 f"
    using that us by (cases us) auto
  then have ivs: "?ivs = absorb ?u us" by simp
  have "\<exists>t2. (if iv_maxp1 u < rd_maxp1 f then merge_loop ?s ?u else Some ?s) =
      Some (s\<lparr>fragtree := t2, lastfrag := Some (iv_min (last ?ivs))\<rparr>) \<and>
      index_ok ftree t2 \<and> inorder t2 = (xs @ [p]) @ ?ivs"
  proof (cases "iv_maxp1 u < rd_maxp1 f")
    case True
    have "\<exists>t2. merge_loop ?s ?u =
        Some (?s\<lparr>fragtree := t2, lastfrag := Some (iv_min (last (absorb ?u us)))\<rparr>) \<and>
        index_ok ftree t2 \<and> inorder t2 = (xs @ [p]) @ absorb ?u us"
      by (rule merge_loop_spec) (use t last us in simp_all)
    with True show ?thesis by simp
  next
    case False
    with t last show ?thesis by (intro exI [of _ t]) simp
  qed
  then obtain t2 where t2: "(if iv_maxp1 u < rd_maxp1 f then merge_loop ?s ?u else Some ?s) =
      Some (s\<lparr>fragtree := t2, lastfrag := Some (iv_min (last (absorb ?u us)))\<rparr>)"
    "index_ok ftree t2" "inorder t2 = (xs @ [p]) @ absorb ?u us"
    unfolding ivs by blast
  let ?s' = "s\<lparr>fragtree := t2, lastfrag := Some (iv_min (last (absorb ?u us)))\<rparr>"
  have iok: "ivs_ok (ds_size s) ((xs @ [p]) @ absorb ?u us)"
  proof (rule absorb_ivs_ok)
    show "apart (xs @ [p])" by (rule sp(1))
    have "iv_maxp1 x < iv_min p" if "x \<in> set xs" for x
      using split_ok(2) [OF ok e] that by simp
    then show "\<forall>x\<in>set (xs @ [p]). iv_ok (ds_size s) x \<and> iv_maxp1 x < iv_min ?u"
      using sp(2) f(3) iv_ok_le [OF pok] by fastforce
    show "\<forall>y\<in>set us. iv_ok (ds_size s) y \<and> iv_chain y \<noteq> [] \<and> iv_min ?u < iv_min y"
      using us keys(2) by simp
  qed (use sp uok in simp_all)
  have ok': "frag_ok ?s'" using t2 iok by (auto simp: frag_ok_def last_opt_def)
  have ab: "\<forall>y\<in>set us. iv_min y \<le> iv_maxp1 y \<and> iv_min ?u < iv_min y"
    using us keys(2) by (auto intro: less_imp_le)
  note ab = absorb_bytes [OF ab sp(4)]
  have b: "bytes s = ivbytes (xs @ [p]) \<union> {iv_min u..<iv_maxp1 u} \<union> ivbytes us" by (rule bytes_split [OF e'])
  have b': "bytes ?s' = ivbytes (xs @ [p]) \<union> ivbytes (absorb ?u us)"
  proof -
    have "intervals ?s' = (xs @ [p]) @ absorb ?u us" using t2(3) by simp
    then show ?thesis unfolding bytes_def by (simp only: ivbytes_simps(3))
  qed
  have pf: "{iv_min ?u..<iv_maxp1 ?u} = {iv_min u..<iv_maxp1 u} \<union> fbytes f" using f u(3) by auto
  have "{iv_min ?u..<iv_maxp1 u} \<subseteq> ivbytes (absorb ?u us)"
    by (rule ab(3)) (use us in auto)
  moreover have "{iv_min u..<iv_maxp1 u} \<subseteq> {iv_min ?u..<iv_maxp1 u}" using f(4) by auto
  ultimately have mono: "bytes s \<subseteq> bytes ?s'" using ab(2) unfolding b b' by blast
  have sub: "bytes ?s' \<subseteq> bytes s \<union> fbytes f" using ab(1) b b' unfolding pf by blast
  have eq: "bytes ?s' = bytes s \<union> fbytes f" if "fits f s"
  proof -
    have "ivbytes (absorb ?u us) = {iv_min ?u..<iv_maxp1 ?u} \<union> ivbytes us"
    proof (rule ab(4), intro ballI impI)
      fix y assume y: "y \<in> set us" "iv_min y \<le> iv_maxp1 ?u"
      then have "iv_maxp1 u < iv_min y" "iv_min y < iv_maxp1 y" "rd_min f < iv_min y"
        using us keys(2) by auto
      moreover from this y have "rd_maxp1 f \<le> iv_maxp1 y"
        using that e by (auto simp: fits_def)
      ultimately show "iv_maxp1 ?u \<le> iv_maxp1 y" by simp
    qed
    then show ?thesis using b b' unfolding pf by blast
  qed
  have "mset (frags ?s') = add_mset f (mset (frags s))"
    using t2(3) e by (simp add: frags_def absorb_frags)
  moreover have "rd_min f \<noteq> 0" using f(3) by simp
  ultimately have "kept s f info ?s'" using ok' mono sub eq by (simp add: kept_def)
  moreover have nc: "\<not> complete ?s'"
  proof -
    obtain a as where "absorb ?u us = a # as" using absorb_neq_Nil [of ?u us] by (cases "absorb ?u us") auto
    then have "length (intervals ?s') \<noteq> 1" using t2(3) by simp
    then have "\<nexists>iv. intervals ?s' = [iv]" by (metis length_Cons list.size(3) One_nat_def)
    then show ?thesis unfolding complete_def by blast
  qed
  moreover have "extend_succ s R u f = Some (?s', with_bias R f)"
  proof (cases "iv_maxp1 u < rd_maxp1 f")
    case True
    then have m: "?m = rd_maxp1 f" by simp
    show ?thesis using t(1) t2(1) True is_complete_iff [OF ok'] nc addbias [OF rc] unfolding m
      by (simp add: extend_succ_def Let_def)
  next
    case False
    then have m: "u\<lparr>iv_chain := f # iv_chain u, iv_min := rd_min f\<rparr> = ?u" by simp
    have "write_node ftree (fragtree s) u (u\<lparr>iv_chain := f # iv_chain u, iv_min := rd_min f\<rparr>) = Some t"
      using t(1) m by simp
    with t2(1) False is_complete_iff [OF ok'] nc addbias [OF rc] show ?thesis
      by (simp add: extend_succ_def Let_def)
  qed
  ultimately show ?thesis by blast
qed

text \<open>The interval of a new fragment, inserted on the path of its start.\<close>

lemma addiv_spec:
  assumes "index_ok ftree (fragtree s)" "intervals s = xs @ ys"
    and "\<forall>x\<in>set xs. iv_min x < rd_min f" "\<forall>y\<in>set ys. rd_min f < iv_min y"
    and last: "lastfrag s = map_option iv_min (last_opt (xs @ ys)) \<or> lastfrag s = None \<and> ys = []"
    and rc: "receives R h (rd_rmsg f)"
  shows "\<exists>t. defrag_rsample_addiv s R f =
      Some (s\<lparr>fragtree := t,
              lastfrag := map_option iv_min (last_opt (inorder t))\<rparr>, with_bias R f) \<and>
    index_ok ftree t \<and>
    inorder t = xs @ \<lparr>iv_min = rd_min f, iv_maxp1 = rd_maxp1 f, iv_chain = [f]\<rparr> # ys"
proof -
  let ?n = "\<lparr>iv_min = rd_min f, iv_maxp1 = rd_maxp1 f, iv_chain = [f]\<rparr>"
  obtain t where t: "insert_at ftree (fragtree s) (rd_min f) ?n = Some t"
    "index_ok ftree t" "inorder t = xs @ ?n # ys"
    using ivs.ins_at_law [OF assms(1,2), of "rd_min f" ?n] assms(3,4) by auto
  have l: "(case lastfrag s of None \<Rightarrow> Some (rd_min f)
      | Some l \<Rightarrow> if l < rd_min f then Some (rd_min f) else Some l) =
    map_option iv_min (last_opt (xs @ ?n # ys))"
  proof (cases ys rule: rev_cases)
    case Nil
    then show ?thesis using last assms(3) by (cases xs rule: rev_cases) auto
  next
    case (snoc zs z)
    then show ?thesis using last assms(4) by auto
  qed
  have "defrag_rsample_addiv s R f =
      Some (s\<lparr>fragtree := t, lastfrag := map_option iv_min (last_opt (inorder t))\<rparr>, with_bias R f)"
    unfolding defrag_rsample_addiv_def Let_def addbias [OF rc] option_bind_Some t(1) t(3) l by simp
  with t(2,3) show ?thesis by blast
qed

lemma new_interval_kept:
  assumes ok: "frag_ok s" and e: "intervals s = xs @ p # ys"
    and f: "rd_min f < rd_maxp1 f" "rd_maxp1 f \<le> ds_size s" "iv_maxp1 p < rd_min f"
    and above: "\<forall>y\<in>set ys. rd_maxp1 f < iv_min y" and rc: "receives R h (rd_rmsg f)"
  shows "\<exists>s'. new_interval s R f = Some (s', with_bias R f) \<and> kept s f info s' \<and> \<not> complete s'"
proof -
  note sp = split_ok [OF ok e]
  note idx = frag_okD(1) [OF ok]
  let ?n = "\<lparr>iv_min = rd_min f, iv_maxp1 = rd_maxp1 f, iv_chain = [f]\<rparr>"
  have e': "intervals s = (xs @ [p]) @ ys" using e by simp
  have le: "iv_min p \<le> iv_maxp1 p" using iv_ok_le [OF sp(3)] by simp
  have xlt: "iv_maxp1 x < rd_min f" if "x \<in> set (xs @ [p])" for x
    using sp(2) that f(3) le by fastforce
  have lt: "\<forall>x\<in>set (xs @ [p]). iv_min x < rd_min f"
    using ivs.split_keys(1) [OF idx e] f(3) le by fastforce
  have gt: "\<forall>y\<in>set ys. rd_min f < iv_min y" using above f(1) by auto
  have "lastfrag s = map_option iv_min (last_opt ((xs @ [p]) @ ys)) \<or> lastfrag s = None \<and> ys = []"
    using frag_okD(5) [OF ok] e' by simp
  then obtain t where t: "defrag_rsample_addiv s R f =
      Some (s\<lparr>fragtree := t, lastfrag := map_option iv_min (last_opt (inorder t))\<rparr>, with_bias R f)"
    "index_ok ftree t" "inorder t = (xs @ [p]) @ ?n # ys"
    using addiv_spec [OF idx e' lt gt _ rc] by blast
  let ?s' = "s\<lparr>fragtree := t, lastfrag := map_option iv_min (last_opt (inorder t))\<rparr>"
  have k: "rd_min f \<notin> iv_min ` set (intervals s)"
    using lt gt e' by fastforce
  have "fst (lookup_ipath ftree (fragtree s) (rd_min f)) = None"
  proof -
    obtain n q where lp: "lookup_path ftree (fragtree s) (rd_min f) [] = (n, q)"
      by (cases "lookup_path ftree (fragtree s) (rd_min f) []")
    have "weakly_sorted_by (td_key ftree) (intervals s)"
      using ivs.ok_sorted [OF idx] by (rule sorted_by_weak)
    from lookup_path_None_iff [OF ivs.orders this lp] k have "n = Null" by simp
    with lp show ?thesis by (simp add: lookup_ipath_def)
  qed
  then have r: "new_interval s R f = Some (?s', with_bias R f)"
    using t(1) by (simp add: new_interval_def)
  have "iv_ok (ds_size s) ?n"
    using f(1,2) reaches_single [of "rd_min f" f "rd_maxp1 f"] by (simp add: iv_ok_def)
  moreover have "apart ((xs @ [p]) @ ?n # ys)"
    using frag_okD(2) [OF ok] xlt above unfolding e' by simp
  ultimately have "ivs_ok (ds_size s) (inorder t)"
    unfolding t(3) ivs_ok_def using frag_okD(3,4) [OF ok] e' by (cases xs) auto
  then have ok': "frag_ok ?s'" using t(2) by (simp add: frag_ok_def)
  have b: "bytes ?s' = bytes s \<union> fbytes f"
    using t(3) e' by (auto simp: bytes_def)
  moreover have "mset (frags ?s') = add_mset f (mset (frags s))"
    using t(3) e' by (simp add: frags_def)
  moreover have "rd_min f \<noteq> 0" using f(3) by simp
  ultimately have "kept s f info ?s'" using ok' by (auto simp: kept_def)
  moreover have "\<not> complete ?s'" using t(3) by (auto simp: complete_def)
  ultimately show ?thesis using r by blast
qed

text \<open>The interval that the code finds for a fragment, and its successor.\<close>

lemma predeq_split:
  assumes ok: "frag_ok s"
  obtains p xs ys l where "intervals s = xs @ p # ys" "iv_min p \<le> m" "\<forall>y\<in>set ys. m < iv_min y"
    and "lastfrag s = Some l"
      "(if l \<le> m then lookup ftree (fragtree s) l else lookup_pred_eq ftree (fragtree s) m) = Some p"
      "(if iv_min p \<noteq> l then find_succ ftree (fragtree s) (Some p) else None) = hd_opt ys"
proof -
  note idx = frag_okD(1) [OF ok]
  obtain iv rest where e0: "intervals s = iv # rest" "iv_min iv = 0" using frag_okD(4) [OF ok] by auto
  then obtain us u where e1: "intervals s = us @ [u]"
    using rev_exhaust [of "intervals s"] by (metis list.distinct(1))
  have l: "lastfrag s = Some (iv_min u)" using frag_okD(5) [OF ok] e1 by simp
  have "lookup_pred_eq ftree (fragtree s) m \<noteq> None"
    using ivs.pred_eq_None [OF idx, of m] e0 by auto
  then obtain p where p: "lookup_pred_eq ftree (fragtree s) m = Some p" by auto
  from ivs.pred_eq_split [OF idx p] obtain xs ys where
    e: "intervals s = xs @ p # ys" "iv_min p \<le> m" "\<forall>y\<in>set ys. m < iv_min y" by auto
  have find: "(if iv_min u \<le> m then lookup ftree (fragtree s) (iv_min u)
      else lookup_pred_eq ftree (fragtree s) m) = Some p"
  proof (cases "iv_min u \<le> m")
    case True
    have "ys = []"
    proof (rule ccontr)
      assume "ys \<noteq> []"
      then have "u \<in> set ys" using e(1) e1 by (metis last_ConsR last_appendR last_in_set last_snoc list.distinct(1))
      with e(3) True show False by auto
    qed
    with e(1) e1 have "p = u" by simp
    with ivs.get_at [OF idx e(1)] True show ?thesis by simp
  next
    case False
    with p show ?thesis by simp
  qed
  have succ: "(if iv_min p \<noteq> iv_min u then find_succ ftree (fragtree s) (Some p) else None) = hd_opt ys"
  proof (cases "iv_min p = iv_min u")
    case True
    have "ys = []"
      using ivs.split_unique [OF idx e(1) e1] True by simp
    with True show ?thesis by simp
  next
    case False
    with ivs.following_law [OF idx e(1)] show ?thesis by simp
  qed
  from that [OF e l find succ] show ?thesis .
qed

text \<open>
  The result of \<open>defrag_add_fragment\<close>: either the fragment adds nothing and is discarded, or it
  is kept.
\<close>

definition added ::
  "nn_rsample_defrag \<Rightarrow> refs \<Rightarrow> rdata \<Rightarrow> rsample_info \<Rightarrow> bool \<times> nn_rsample_defrag \<times> refs \<times> nat \<Rightarrow> bool" where
  "added s R f info r \<longleftrightarrow>
     (case r of (c, s', R', disc) \<Rightarrow>
        (c = complete s' \<and> kept s f info s' \<and> R' = with_bias R f \<and> disc = 0) \<or>
        (\<not> c \<and> s' = s \<and> R' = R \<and> disc = rd_maxp1 f - rd_min f \<and> fbytes f \<subseteq> bytes s))"

lemma add_fragment_code:
  assumes "rd_min f < rd_maxp1 f" "ds_seq s = si_seq info" "lastfrag s = Some l"
    "map_option iv_min (find_max (fragtree s)) = Some l"
    "(if l \<le> rd_min f then lookup ftree (fragtree s) l
       else lookup_pred_eq ftree (fragtree s) (rd_min f)) = Some p"
    "(if iv_min p \<noteq> l then find_succ ftree (fragtree s) (Some p) else None) = su"
  shows "defrag_add_fragment s R f info =
    (if rd_maxp1 f \<le> iv_maxp1 p then Some (False, s, R, rd_maxp1 f - rd_min f)
     else if rd_min f \<le> iv_maxp1 p then do {
       (c, sample', R') \<leftarrow> grow_predeq s R p f info;
       Some (c, sample', R', 0) }
     else
       (case su of
          Some succ \<Rightarrow>
            if iv_min succ \<le> rd_maxp1 f then do {
              (sample', R') \<leftarrow> extend_succ s R succ f;
              Some (False, sample', R', 0) }
            else do {
              (sample', R') \<leftarrow> new_interval s R f;
              Some (False, sample', R', 0) }
        | None \<Rightarrow> do {
            (sample', R') \<leftarrow> new_interval s R f;
            Some (False, sample', R', 0) }))"
proof -
  have a: "assertion (rd_min f < rd_maxp1 f) = Some ()" "assertion (ds_seq s = si_seq info) = Some ()"
    "assertion (map_option iv_min (find_max (fragtree s)) = Some l) = Some ()"
    using assms(1,2,4) by simp_all
  show ?thesis
    unfolding defrag_add_fragment_def Let_def a assms(3) option_bind_Some assms(5,6) ..
qed

lemma add_fragment_added:
  assumes ok: "frag_ok s" and f: "rd_min f < rd_maxp1 f" "rd_maxp1 f \<le> ds_size s"
    and info: "si_size info = ds_size s" "si_seq info = ds_seq s" and rc: "receives R h (rd_rmsg f)"
  shows "\<exists>r. defrag_add_fragment s R f info = Some r \<and> added s R f info r"
proof -
  obtain p xs ys l where e: "intervals s = xs @ p # ys" "iv_min p \<le> rd_min f"
    "\<forall>y\<in>set ys. rd_min f < iv_min y" and l: "lastfrag s = Some l"
    and find: "(if l \<le> rd_min f then lookup ftree (fragtree s) l
       else lookup_pred_eq ftree (fragtree s) (rd_min f)) = Some p"
    and succ: "(if iv_min p \<noteq> l then find_succ ftree (fragtree s) (Some p) else None) = hd_opt ys"
    by (rule predeq_split [OF ok, of "rd_min f"])
  note sp = split_ok [OF ok e(1)]
  have mx: "map_option iv_min (find_max (fragtree s)) = Some l"
    using frag_okD(5) [OF ok] l by (simp add: find_max_inorder)
  note code = add_fragment_code [OF f(1) info(2) [symmetric] l mx find succ]
  consider "rd_maxp1 f \<le> iv_maxp1 p" | "iv_maxp1 p < rd_maxp1 f" "rd_min f \<le> iv_maxp1 p"
    | "iv_maxp1 p < rd_min f" by linarith
  then show ?thesis
  proof cases
    case 1
    then have "defrag_add_fragment s R f info = Some (False, s, R, rd_maxp1 f - rd_min f)"
      unfolding code by (simp only: if_True)
    moreover have "fbytes f \<subseteq> bytes s" unfolding bytes_split [OF e(1)] using 1 e(2) by fastforce
    ultimately show ?thesis by (simp add: added_def)
  next
    case 2
    obtain s' where "grow_predeq s R p f info = Some (complete s', s', with_bias R f)" "kept s f info s'"
      using grow_predeq_kept [OF ok e(1) f(2) e(2) 2(2,1) e(3) info(1) rc] by blast
    moreover from this have "defrag_add_fragment s R f info = Some (complete s', s', with_bias R f, 0)"
      using 2 by (simp add: code)
    ultimately show ?thesis by (simp add: added_def)
  next
    case 3
    have n: "\<not> rd_maxp1 f \<le> iv_maxp1 p" "\<not> rd_min f \<le> iv_maxp1 p" using 3 f(1) by auto
    consider u us where "ys = u # us" "iv_min u \<le> rd_maxp1 f"
      | "hd_opt ys = None \<or> (\<exists>u. hd_opt ys = Some u \<and> \<not> iv_min u \<le> rd_maxp1 f)"
        "\<forall>y\<in>set ys. rd_maxp1 f < iv_min y"
    proof (cases ys)
      case (Cons u us)
      show ?thesis
      proof (cases "iv_min u \<le> rd_maxp1 f")
        case True
        then show ?thesis using that(1) Cons by blast
      next
        case False
        have "rd_maxp1 f < iv_min y" if "y \<in> set us" for y
        proof -
          have "iv_maxp1 u < iv_min y" "iv_min u < iv_maxp1 u" using sp(4,5) Cons that by auto
          with False show ?thesis by linarith
        qed
        with False Cons show ?thesis using that(2) by simp
      qed
    qed (use that(2) in simp)
    then show ?thesis
    proof cases
      case (1 u us)
      have e': "intervals s = xs @ p # u # us" "rd_min f < iv_min u" using e 1 by auto
      obtain s' where "extend_succ s R u f = Some (s', with_bias R f)" "kept s f info s'"
        "\<not> complete s'"
        using extend_succ_kept [OF ok e'(1) f 3 e'(2) 1(2) rc] by blast
      moreover from this have "defrag_add_fragment s R f info = Some (False, s', with_bias R f, 0)"
        using n 1 by (simp add: code)
      ultimately show ?thesis by (simp add: added_def)
    next
      case 2
      obtain s' where "new_interval s R f = Some (s', with_bias R f)" "kept s f info s'"
        "\<not> complete s'"
        using new_interval_kept [OF ok e(1) f 3 2(2) rc] by blast
      moreover from this have "defrag_add_fragment s R f info = Some (False, s', with_bias R f, 0)"
        using n 2(1) by (auto simp: code)
      ultimately show ?thesis by (simp add: added_def)
    qed
  qed
qed

section \<open>A new sample\<close>

lemma defrag_rsample_new_spec:
  assumes f: "rd_min f < rd_maxp1 f" "rd_maxp1 f \<le> si_size info" "\<not> (rd_min f = 0 \<and> rd_maxp1 f = si_size info)"
    and rc: "receives R h (rd_rmsg f)"
  shows "\<exists>s. defrag_rsample_new R f info = Some (s, with_bias R f) \<and> frag_ok s \<and>
    ds_seq s = si_seq info \<and> ds_sampleinfo s = info \<and> bytes s = fbytes f \<and> frags s = [f] \<and>
    \<not> complete s"
proof -
  let ?n = "\<lparr>iv_min = rd_min f, iv_maxp1 = rd_maxp1 f, iv_chain = [f]\<rparr>"
  let ?z = "\<lparr>iv_min = 0, iv_maxp1 = 0, iv_chain = []\<rparr>"
  let ?xs = "if 0 < rd_min f then [?z] else []"
  have "\<exists>t. (if 0 < rd_min f then insert_at ftree Null 0 ?z else Some Null) = Some t \<and>
      index_ok ftree t \<and> inorder t = ?xs"
    using ivs.ins_at_law [OF ivs.ok_empty, of "[]" "[]" 0 ?z] ivs.ok_empty by auto
  then obtain t where t: "(if 0 < rd_min f then insert_at ftree Null 0 ?z else Some Null) = Some t"
    "index_ok ftree t" "inorder t = ?xs" by blast
  let ?s = "\<lparr>fragtree = t, lastfrag = None, ds_sampleinfo = info, ds_seq = si_seq info\<rparr>"
  have a: "index_ok ftree (fragtree ?s)" "intervals ?s = ?xs @ []" using t(2,3) by simp_all
  have b: "\<forall>x\<in>set ?xs. iv_min x < rd_min f" "\<forall>y\<in>set []. rd_min f < iv_min y" by simp_all
  have c: "lastfrag ?s = map_option iv_min (last_opt (?xs @ [])) \<or> lastfrag ?s = None \<and> [] = []" by simp
  obtain t' where t': "defrag_rsample_addiv ?s R f =
      Some (?s\<lparr>fragtree := t', lastfrag := map_option iv_min (last_opt (inorder t'))\<rparr>, with_bias R f)"
    "index_ok ftree t'" "inorder t' = ?xs @ [?n]"
    using addiv_spec [OF a b c rc] by blast
  let ?s' = "?s\<lparr>fragtree := t', lastfrag := map_option iv_min (last_opt (inorder t'))\<rparr>"
  have "iv_ok (si_size info) ?n" using f(1,2) reaches_single [of "rd_min f" f "rd_maxp1 f"]
    by (simp add: iv_ok_def)
  moreover have "iv_ok (si_size info) ?z" by (simp add: iv_ok_def reaches_def)
  ultimately have "frag_ok ?s'" using t'(2,3) by (simp add: frag_ok_def ivs_ok_def)
  moreover have "bytes ?s' = fbytes f" "frags ?s' = [f]"
    using t'(3) by (auto simp: bytes_def frags_def)
  moreover have "\<not> complete ?s'" using t'(3) f(3) by (auto simp: complete_def)
  moreover have "defrag_rsample_new R f info = Some (?s', with_bias R f)"
    unfolding defrag_rsample_new_def t(1) option_bind_Some Let_def by (rule t'(1))
  ultimately show ?thesis by (intro exI [of _ ?s']) simp
qed

text \<open>A fragment that has been received as a whole or not at all fits.\<close>

lemma fits_whole:
  assumes ok: "frag_ok s" and "fbytes f \<subseteq> bytes s \<or> fbytes f \<inter> bytes s = {}"
  shows "fits f s"
  unfolding fits_def
proof (intro ballI impI)
  fix iv assume iv: "iv \<in> set (intervals s)" and m: "rd_min f < iv_min iv \<and> iv_min iv \<le> rd_maxp1 f"
  obtain xs ys where e: "intervals s = xs @ iv # ys" using iv by (meson split_list)
  have ok_iv: "iv_min iv < iv_maxp1 iv"
    using iv_ok_pos [of "ds_size s" iv] frag_okD(3) [OF ok] iv m by auto
  have gap: "iv_min iv - 1 \<notin> bytes s"
  proof
    assume "iv_min iv - 1 \<in> bytes s"
    then obtain j where j: "j \<in> set (intervals s)" "iv_min j \<le> iv_min iv - 1" "iv_min iv - 1 < iv_maxp1 j"
      by (auto simp: bytes_def ivbytes_def)
    then consider "j \<in> set xs" | "j = iv" | "j \<in> set ys" using e by auto
    then show False
    proof cases
      case 1
      then have "iv_maxp1 j < iv_min iv" using split_ok(2) [OF ok e] by simp
      with j(3) show False by simp
    next
      case 3
      then have "iv_maxp1 iv < iv_min j" using split_ok(5) [OF ok e] by simp
      with j(2) ok_iv show False by simp
    qed (use j m in auto)
  qed
  have "iv_min iv \<in> bytes s" using ok_iv iv by (auto simp: bytes_def ivbytes_def)
  moreover have "iv_min iv - 1 \<in> fbytes f \<and> iv_min iv \<in> fbytes f" if "iv_min iv < rd_maxp1 f"
    using m that by auto
  ultimately have "\<not> iv_min iv < rd_maxp1 f" using gap assms(2) by blast
  with m ok_iv show "rd_maxp1 f \<le> iv_maxp1 iv" by simp
qed

end
