(* ===== verification/Defrag.thy ===== *)
theory Defrag
  imports Defrag_Sample
begin

text \<open>
  The defragmenter as a whole: its invariant, what a fragment does to it, and that the reference
  counts of the messages account for every fragment kept or returned. Seen from outside it is a
  map from sequence numbers to the bytes received.
\<close>

section \<open>Invariant and abstraction\<close>

abbreviation samples_of :: "nn_defrag \<Rightarrow> nn_rsample_defrag list" where
  "samples_of d \<equiv> inorder (sampletree d)"

definition allfrags :: "nn_rsample_defrag list \<Rightarrow> rdata list" where
  "allfrags ss = concat (map frags ss)"

definition sample_ok :: "nn_rsample_defrag \<Rightarrow> bool" where
  "sample_ok s \<longleftrightarrow> frag_ok s \<and> \<not> complete s \<and> 0 < ds_seq s \<and> si_seq (ds_sampleinfo s) = ds_seq s"

definition defrag_core :: "nn_defrag \<Rightarrow> refs \<Rightarrow> bool" where
  "defrag_core d R \<longleftrightarrow> index_ok stree (sampletree d) \<and> (\<forall>s\<in>set (samples_of d). sample_ok s) \<and>
     df_n_samples d = length (samples_of d) \<and>
     (\<forall>m. held_in m (allfrags (samples_of d)) * BIAS \<le> R m)"

definition defrag_ok :: "nn_defrag \<Rightarrow> refs \<Rightarrow> bool" where
  "defrag_ok d R \<longleftrightarrow> defrag_core d R \<and> max_sample d = max_key (sampletree d) \<and>
     df_n_samples d \<le> df_max_samples d \<and> 1 \<le> df_max_samples d"

text \<open>The bytes received of every sample that is being defragmented.\<close>

definition abs_defrag :: "nn_defrag \<Rightarrow> seqno \<rightharpoonup> nat set" where
  "abs_defrag d = map_of (map (\<lambda>s. (ds_seq s, bytes s)) (samples_of d))"

text \<open>
  Accounting: fragments that leave the defragmenter without being returned give up their bias,
  and no other count changes.
\<close>

definition conserved :: "nn_defrag \<Rightarrow> refs \<Rightarrow> rdata list \<Rightarrow> nn_defrag \<Rightarrow> refs \<Rightarrow> bool" where
  "conserved d R out d' R' \<longleftrightarrow> (\<forall>m. R' m + held_in m (allfrags (samples_of d)) * BIAS =
     R m + (held_in m (allfrags (samples_of d')) + held_in m out) * BIAS)"

lemma allfrags_simps [simp]:
  "allfrags [] = []" "allfrags (s # ss) = frags s @ allfrags ss"
  "allfrags (ss @ ts) = allfrags ss @ allfrags ts"
  by (simp_all add: allfrags_def)

lemma max_key_last: "max_key t = map_option ds_seq (last_opt (inorder t))"
  by (simp add: max_key_def find_max_inorder)

lemma held_in_mset: "mset fs = mset gs \<Longrightarrow> held_in m fs = held_in m gs"
  unfolding held_in_def by (metis mset_filter size_mset)

lemma abs_defrag_Some:
  assumes "index_ok stree (sampletree d)"
  shows "abs_defrag d q = Some b \<longleftrightarrow> (\<exists>s\<in>set (samples_of d). ds_seq s = q \<and> b = bytes s)"
proof -
  have "sorted_by ds_seq (samples_of d)" using samples.ok_sorted [OF assms] by simp
  then have "distinct (map ds_seq (samples_of d))"
    by (simp add: distinct_map sorted_by_distinct inj_on_def sorted_by_key_inj)
  then have "distinct (map fst (map (\<lambda>s. (ds_seq s, bytes s)) (samples_of d)))" by (simp add: comp_def)
  then show ?thesis unfolding abs_defrag_def by (subst map_of_eq_Some_iff) auto
qed

lemma abs_defrag_None:
  "abs_defrag d q = None \<longleftrightarrow> (\<forall>s\<in>set (samples_of d). ds_seq s \<noteq> q)"
  by (auto simp: abs_defrag_def map_of_eq_None_iff image_iff)

text \<open>The abstraction, as the sample list splits.\<close>

lemma abs_split:
  assumes "index_ok stree (sampletree d)" "samples_of d = xs @ s # ys"
  shows "abs_defrag d (ds_seq s) = Some (bytes s)"
    and "\<And>d'. samples_of d' = xs @ s' # ys \<Longrightarrow> ds_seq s' = ds_seq s \<Longrightarrow>
      abs_defrag d' = (abs_defrag d)(ds_seq s \<mapsto> bytes s')"
    and "\<And>d'. samples_of d' = xs @ ys \<Longrightarrow> abs_defrag d' = (abs_defrag d)(ds_seq s := None)"
proof -
  have "ds_seq s \<notin> ds_seq ` set xs" "ds_seq s \<notin> ds_seq ` set ys"
    using samples.split_keys(1,2) [OF assms] by auto
  then have n: "map_of (map (\<lambda>s. (ds_seq s, bytes s)) xs) (ds_seq s) = None"
    "map_of (map (\<lambda>s. (ds_seq s, bytes s)) ys) (ds_seq s) = None"
    by (simp_all add: map_of_eq_None_iff image_comp comp_def)
  show "abs_defrag d (ds_seq s) = Some (bytes s)"
    using n assms(2) by (simp add: abs_defrag_def map_add_def)
  show "abs_defrag d' = (abs_defrag d)(ds_seq s \<mapsto> bytes s')"
    if "samples_of d' = xs @ s' # ys" "ds_seq s' = ds_seq s" for d'
    using n assms(2) that by (auto simp: abs_defrag_def map_add_def fun_eq_iff split: option.split)
  show "abs_defrag d' = (abs_defrag d)(ds_seq s := None)" if "samples_of d' = xs @ ys" for d'
    using n assms(2) that by (auto simp: abs_defrag_def map_add_def fun_eq_iff split: option.split)
qed

lemma abs_insert:
  assumes "samples_of d = xs @ ys" "samples_of d' = xs @ s # ys" "\<forall>x\<in>set (samples_of d). ds_seq x \<noteq> ds_seq s"
  shows "abs_defrag d' = (abs_defrag d)(ds_seq s \<mapsto> bytes s)"
proof -
  have "map_of (map (\<lambda>s. (ds_seq s, bytes s)) xs) (ds_seq s) = None"
    using assms(1,3) by (auto simp: map_of_eq_None_iff image_iff)
  then show ?thesis using assms(1,2) by (auto simp: abs_defrag_def map_add_def fun_eq_iff split: option.split)
qed

section \<open>Dropping a sample\<close>

lemma rmbias_ivs_spec:
  assumes "\<And>m. held_in m (ivfrags is) * BIAS \<le> R m"
  shows "\<exists>R'. rmbias_ivs R is = Some R' \<and> (\<forall>m. R' m + held_in m (ivfrags is) * BIAS = R m)"
  using assms
proof (induction "is" arbitrary: R)
  case (Cons iv rest)
  have "held_in m (iv_chain iv) * BIAS \<le> R m" for m
    using Cons.prems [of m] by (simp add: add_mult_distrib)
  from rmbias [OF this] obtain R1 where R1: "nn_fragchain_rmbias R (iv_chain iv) = Some R1"
    "\<forall>m. R1 m + held_in m (iv_chain iv) * BIAS = R m" by blast
  have "held_in m (ivfrags rest) * BIAS \<le> R1 m" for m
    using Cons.prems [of m] R1(2) [rule_format, of m] by (simp add: add_mult_distrib)
  from Cons.IH [OF this] obtain R' where R': "rmbias_ivs R1 rest = Some R'"
    "\<forall>m. R' m + held_in m (ivfrags rest) * BIAS = R1 m" by blast
  have e: "(if iv_chain iv \<noteq> [] then nn_fragchain_rmbias R (iv_chain iv) else Some R) = Some R1"
    using R1(1) by (auto simp: nn_fragchain_rmbias_def)
  have "R' m + held_in m (ivfrags (iv # rest)) * BIAS = R m" for m
    using R1(2) [rule_format, of m] R'(2) [rule_format, of m] by (simp add: add_mult_distrib)
  with R'(1) show ?case unfolding rmbias_ivs.simps e by simp
qed simp

lemma defrag_rsample_drop_spec:
  assumes core: "defrag_core d R" and e: "samples_of d = xs @ s # ys"
  shows "\<exists>t R'. defrag_rsample_drop d R s =
      Some (d\<lparr>sampletree := t, df_n_samples := df_n_samples d - 1\<rparr>, R') \<and> inorder t = xs @ ys \<and>
    defrag_core (d\<lparr>sampletree := t, df_n_samples := df_n_samples d - 1\<rparr>) R' \<and>
    (\<forall>m. R' m + held_in m (frags s) * BIAS = R m)"
proof -
  have idx: "index_ok stree (sampletree d)" and n: "df_n_samples d = length (samples_of d)"
    and sok: "\<forall>s\<in>set (samples_of d). sample_ok s"
    and h: "\<And>m. held_in m (allfrags (samples_of d)) * BIAS \<le> R m"
    using core by (auto simp: defrag_core_def)
  obtain t where t: "avl_delete stree (sampletree d) s = Some t" "index_ok stree t" "inorder t = xs @ ys"
    using samples.del_law [OF idx e] by blast
  have "held_in m (ivfrags (intervals s)) * BIAS \<le> R m" for m
    using h [of m] unfolding e by (simp add: add_mult_distrib frags_def)
  from rmbias_ivs_spec [OF this] obtain R' where R': "rmbias_ivs R (intervals s) = Some R'"
    "\<forall>m. R' m + held_in m (frags s) * BIAS = R m" by (auto simp: frags_def)
  have "held_in m (allfrags (xs @ ys)) * BIAS \<le> R' m" for m
    using h [of m] R'(2) [rule_format, of m] unfolding e by (simp add: add_mult_distrib)
  then have "defrag_core (d\<lparr>sampletree := t, df_n_samples := df_n_samples d - 1\<rparr>) R'"
    using t(2,3) sok n e by (simp add: defrag_core_def)
  moreover have "defrag_rsample_drop d R s =
      Some (d\<lparr>sampletree := t, df_n_samples := df_n_samples d - 1\<rparr>, R')"
    using t(1) R'(1) n e by (simp add: defrag_rsample_drop_def)
  ultimately show ?thesis using t(3) R'(2) by blast
qed

lemma dropped_conserved:
  assumes "samples_of d = xs @ s # ys" "samples_of d' = xs @ ys"
    "\<forall>m. R' m + held_in m (frags s) * BIAS = R m"
  shows "conserved d R [] d' R'"
  unfolding conserved_def
proof
  fix m
  show "R' m + held_in m (allfrags (samples_of d)) * BIAS =
      R m + (held_in m (allfrags (samples_of d')) + held_in m []) * BIAS"
    using assms(3) [rule_format, of m] by (simp add: assms(1,2) add_mult_distrib)
qed

section \<open>A fragment adds at most its own bias\<close>

text \<open>
  Whatever the state, a count goes up only by the bias of the fragment that is taken in; everything else lowers it.
\<close>

lemma adjust_le: "nn_fragchain_adjust_refcount R fs a = Some R' \<Longrightarrow> R' m \<le> R m"
proof (induction fs arbitrary: R)
  case (Cons f fs)
  then obtain R1 where R1: "nn_rdata_rmbias_and_adjust R f a = Some R1" "R' m \<le> R1 m"
    by (auto split: bind_splits)
  then have "R1 m \<le> R m"
    by (auto simp: nn_rdata_rmbias_and_adjust_def nn_rmsg_rmbias_and_adjust_def Let_def split: bind_splits)
  with R1(2) show ?case by simp
qed simp

lemma unref_le: "nn_fragchain_unref R fs = Some R' \<Longrightarrow> R' m \<le> R m"
proof (induction fs arbitrary: R)
  case (Cons f fs)
  then obtain R1 where R1: "nn_rdata_unref R f = Some R1" "R' m \<le> R1 m" by (auto split: bind_splits)
  then have "R1 m \<le> R m" by (auto simp: nn_rdata_unref_def nn_rmsg_unref_def split: bind_splits)
  with R1(2) show ?case by simp
qed simp

lemma rmbias_ivs_le: "rmbias_ivs R ivs = Some R' \<Longrightarrow> R' m \<le> R m"
proof (induction ivs arbitrary: R)
  case (Cons iv ivs)
  then obtain R1 where "(if iv_chain iv \<noteq> [] then nn_fragchain_rmbias R (iv_chain iv) else Some R) = Some R1" "R' m \<le> R1 m"
    by (auto split: bind_splits)
  moreover from this(1) have "R1 m \<le> R m" by (auto simp: nn_fragchain_rmbias_def intro: adjust_le split: if_splits)
  ultimately show ?case by simp
qed simp

lemma drop_le: "defrag_rsample_drop d R s = Some (d', R') \<Longrightarrow> R' m \<le> R m"
  by (auto simp: defrag_rsample_drop_def intro: rmbias_ivs_le split: bind_splits)

lemma limit_le: "defrag_limit_samples d R q mx = Some (go, d', R', mx') \<Longrightarrow> R' m \<le> R m"
  by (auto simp: defrag_limit_samples_def Let_def dest: drop_le [of _ _ _ _ _ m]
      split: bind_splits if_splits option.splits nn_defrag_drop_mode.splits)

abbreviation one_bias :: "rdata \<Rightarrow> nat \<Rightarrow> nat" where
  "one_bias f m \<equiv> (if rd_rmsg f = m then BIAS else 0)"

lemma addiv_le: "defrag_rsample_addiv s R f = Some (s', R') \<Longrightarrow> R' m \<le> R m + one_bias f m"
  by (auto simp: defrag_rsample_addiv_def Let_def dest: addbias_le [of _ _ _ m] split: bind_splits)

lemma sample_new_le: "defrag_rsample_new R f info = Some (s', R') \<Longrightarrow> R' m \<le> R m + one_bias f m"
  by (auto simp: defrag_rsample_new_def Let_def dest: addiv_le [of _ _ _ _ _ m] split: bind_splits)

lemma grow_le: "grow_predeq s R p f info = Some (c, s', R') \<Longrightarrow> R' m \<le> R m + one_bias f m"
  by (auto simp: grow_predeq_def Let_def dest: addbias_le [of _ _ _ m] split: bind_splits)

lemma extend_le: "extend_succ s R u f = Some (s', R') \<Longrightarrow> R' m \<le> R m + one_bias f m"
  by (auto simp: extend_succ_def Let_def bind_eq_Some_conv simp del: fun_upd_apply dest: addbias_le [of _ _ _ m])

text \<open>What a computation leaves, when it leaves something.\<close>

lemma leaves_bind: "(\<And>a. x = Some a \<Longrightarrow> pred_option P (g a)) \<Longrightarrow> pred_option P (x \<bind> g)"
  by (cases x) auto

lemma leaves_if: "(c \<Longrightarrow> pred_option P x) \<Longrightarrow> (\<not> c \<Longrightarrow> pred_option P y) \<Longrightarrow> pred_option P (if c then x else y)"
  by simp

lemma leaves_case:
  "(x = None \<Longrightarrow> pred_option P n) \<Longrightarrow> (\<And>a. x = Some a \<Longrightarrow> pred_option P (g a)) \<Longrightarrow>
   pred_option P (case x of None \<Rightarrow> n | Some a \<Rightarrow> g a)"
  by (cases x) auto

lemmas leaves = leaves_bind leaves_if leaves_case

lemma pred_option_Some: "pred_option P x \<Longrightarrow> x = Some a \<Longrightarrow> P a"
  by simp

lemma add_fragment_le:
  assumes "defrag_add_fragment s R f info = Some (c, s', R', disc)"
  shows "R' m \<le> R m + one_bias f m"
proof -
  have n: "new_interval s R f = Some (s', R') \<Longrightarrow> R' m \<le> R m + one_bias f m" for s' R'
    by (auto simp: new_interval_def bind_eq_Some_conv dest: addiv_le [of _ _ _ _ _ m])
  have "pred_option (\<lambda>(c, s', R', disc). R' m \<le> R m + one_bias f m) (defrag_add_fragment s R f info)"
    unfolding defrag_add_fragment_def Let_def case_prod_beta
    by (intro leaves) (auto dest: n grow_le [of _ _ _ _ _ _ _ _ m] extend_le [of _ _ _ _ _ _ m] simp del: if_split)
  from pred_option_Some [OF this assms] show ?thesis by simp
qed

lemma known_le: "defrag_known_sample d R s f info = Some (res, d', R') \<Longrightarrow> R' m \<le> R m + one_bias f m"
  by (auto simp: defrag_known_sample_def Let_def bind_eq_Some_conv simp del: if_split
      dest: add_fragment_le [of _ _ _ _ _ _ _ _ m] split: if_split_asm)

lemma nn_defrag_rsample_le:
  assumes "nn_defrag_rsample d R f info = Some (res, d', R')"
  shows "R' m \<le> R m + one_bias f m"
proof -
  have w: "reorder_rsample_new R f info = Some (rs, R') \<Longrightarrow> R' m \<le> R m + one_bias f m" for rs R'
    by (auto simp: reorder_rsample_new_def bind_eq_Some_conv dest: addbias_le [of _ _ _ m])
  have k: "pred_option (\<lambda>p. snd (snd p) m \<le> R m + one_bias f m) (defrag_known_sample d1 R1 s f info)"
    if "R1 m \<le> R m" for d1 R1 s
    using known_le [of d1 R1 s f info _ _ _ m] that by (force simp: pred_option_def)
  have a: "R2 m \<le> R m + one_bias f m"
    if "defrag_rsample_new R1 f info = Some (s', R2)" "R1 m \<le> R m" for R1 s' R2
    using sample_new_le [OF that(1), of m] that(2) by simp
  have b: "pred_option (\<lambda>p. snd (snd p) m \<le> B) (x \<bind> (\<lambda>p. assertion (Q p) \<bind> (\<lambda>_. Some (fst p, fst (snd p), snd (snd p)))))"
    if "pred_option (\<lambda>p. snd (snd p) m \<le> B) x" for B :: nat and Q and x :: "('a \<times> 'b \<times> refs) option"
    using that by (cases x) (simp_all add: assertion_def)
  have "pred_option (\<lambda>p. snd (snd p) m \<le> R m + one_bias f m) (nn_defrag_rsample d R f info)"
    unfolding nn_defrag_rsample_def Let_def case_prod_beta
    by (intro leaves b k) (auto dest: w limit_le [of _ _ _ _ _ _ _ _ m] split del: if_split intro: a trans_le_add1)
  from pred_option_Some [OF this assms] show ?thesis by simp
qed

section \<open>Making room\<close>

lemma max_key_split:
  assumes "max_key (sampletree d) = Some m"
  obtains xs s where "samples_of d = xs @ [s]" "ds_seq s = m"
  using assms by (auto simp: max_key_last last_opt_Some)

definition made_room :: "nn_defrag \<Rightarrow> refs \<Rightarrow> bool \<Rightarrow> nn_defrag \<Rightarrow> refs \<Rightarrow> bool" where
  "made_room d R go d' R' \<longleftrightarrow> defrag_ok d' R' \<and> conserved d R [] d' R' \<and>
     df_max_samples d' = df_max_samples d \<and>
     set (samples_of d') \<subseteq> set (samples_of d) \<and> (\<forall>m. R' m \<le> R m) \<and>
     (if go then df_n_samples d' < df_max_samples d' else d' = d \<and> R' = R) \<and>
     (df_n_samples d < df_max_samples d \<longrightarrow> go \<and> d' = d \<and> R' = R)"

lemma conserved_refl: "conserved d R [] d R"
  by (simp add: conserved_def)

lemma max_key_delete:
  assumes "inorder t = xs @ s # ys" "inorder t' = xs @ ys" "max_key t = Some m" "ds_seq s \<noteq> m"
  shows "max_key t' = Some m"
proof (cases ys rule: rev_cases)
  case Nil
  then show ?thesis using assms by (simp add: max_key_last)
next
  case (snoc zs z)
  then show ?thesis using assms by (simp add: max_key_last)
qed

lemma defrag_limit_samples_spec:
  assumes ok: "defrag_ok d R"
  shows "\<exists>go d' R'. defrag_limit_samples d R seq (seq_or_0 (max_sample d)) =
      Some (go, d', R', seq_or_0 (max_sample d')) \<and> made_room d R go d' R'"
proof (cases "df_n_samples d < df_max_samples d")
  case True
  then show ?thesis using ok conserved_refl
    by (auto simp: defrag_limit_samples_def made_room_def)
next
  case full: False
  have core: "defrag_core d R" and mx: "max_sample d = max_key (sampletree d)"
    and n: "df_n_samples d = length (samples_of d)" "df_n_samples d = df_max_samples d" "1 \<le> df_max_samples d"
    and idx: "index_ok stree (sampletree d)"
    using ok full by (auto simp: defrag_ok_def defrag_core_def)
  then have "samples_of d \<noteq> []" by auto
  then obtain xs l where last: "samples_of d = xs @ [l]" using rev_exhaust by blast
  obtain f ys where first: "samples_of d = f # ys" using \<open>samples_of d \<noteq> []\<close> by (cases "samples_of d") auto
  have m: "max_sample d = Some (ds_seq l)" using mx last by (simp add: max_key_last)
  have lk: "lookup stree (sampletree d) (ds_seq l) = Some l"
    using samples.get_at [OF idx, of xs l "[]"] last by simp
  have fm: "find_min (sampletree d) = Some f" using first by (simp add: find_min_inorder)
  have drop: "\<exists>d' R'. (do { (d', R') \<leftarrow> defrag_rsample_drop d R s;
             if ds_seq s = ds_seq l then
               (let mx = max_key (sampletree d')
                in Some (True, d'\<lparr>max_sample := mx\<rparr>, R', seq_or_0 mx))
             else Some (True, d', R', seq_or_0 (max_sample d)) }) =
      Some (True, d', R', seq_or_0 (max_sample d')) \<and> made_room d R True d' R'"
    if s: "samples_of d = us @ s # vs" for us s vs
  proof -
    obtain t R' where t: "defrag_rsample_drop d R s =
        Some (d\<lparr>sampletree := t, df_n_samples := df_n_samples d - 1\<rparr>, R')" "inorder t = us @ vs"
      "defrag_core (d\<lparr>sampletree := t, df_n_samples := df_n_samples d - 1\<rparr>) R'"
      "\<forall>m. R' m + held_in m (frags s) * BIAS = R m"
      using defrag_rsample_drop_spec [OF core s] by blast
    let ?d = "d\<lparr>sampletree := t, df_n_samples := df_n_samples d - 1\<rparr>"
    let ?d' = "if ds_seq s = ds_seq l then ?d\<lparr>max_sample := max_key t\<rparr> else ?d"
    have mk: "max_sample ?d' = max_key t"
    proof (cases "ds_seq s = ds_seq l")
      case False
      then have "max_key t = Some (ds_seq l)"
        using max_key_delete [OF s t(2), of "ds_seq l"] mx m by simp
      with False m show ?thesis by simp
    qed simp
    have so: "samples_of ?d' = us @ vs" using t(2) by simp
    have "defrag_core ?d' R'" using t(3) by (auto simp: defrag_core_def)
    then have "defrag_ok ?d' R'" using mk n(2,3) by (auto simp: defrag_ok_def)
    moreover have "conserved d R [] ?d' R'" by (rule dropped_conserved [OF s so t(4)])
    moreover have "set (us @ vs) \<subseteq> set (samples_of d)" using s by auto
    moreover have "\<forall>m. R' m \<le> R m" using t(4) by (metis le_add1)
    ultimately have "made_room d R True ?d' R'" using so n by (auto simp: made_room_def)
    moreover have "(do { (d', R') \<leftarrow> defrag_rsample_drop d R s;
             if ds_seq s = ds_seq l then
               (let mx = max_key (sampletree d')
                in Some (True, d'\<lparr>max_sample := mx\<rparr>, R', seq_or_0 mx))
             else Some (True, d', R', seq_or_0 (max_sample d)) }) =
        Some (True, ?d', R', seq_or_0 (max_sample ?d'))"
      using t(1) by (simp add: Let_def)
    ultimately show ?thesis by blast
  qed
  have no: "made_room d R False d R" using ok conserved_refl n by (auto simp: made_room_def)
  show ?thesis
  proof (cases "drop_mode d")
    case NN_DEFRAG_DROP_LATEST
    show ?thesis
    proof (cases "ds_seq l < seq")
      case True
      then show ?thesis using full m NN_DEFRAG_DROP_LATEST no
        by (intro exI [of _ False] exI [of _ d] exI [of _ R]) (simp add: defrag_limit_samples_def)
    next
      case False
      with drop [of xs l "[]"] last full m lk NN_DEFRAG_DROP_LATEST show ?thesis
        by (auto simp: defrag_limit_samples_def)
    qed
  next
    case NN_DEFRAG_DROP_OLDEST
    show ?thesis
    proof (cases "seq < ds_seq f")
      case True
      then show ?thesis using full m fm NN_DEFRAG_DROP_OLDEST no
        by (intro exI [of _ False] exI [of _ d] exI [of _ R]) (simp add: defrag_limit_samples_def)
    next
      case False
      obtain d' R' where "(do { (d', R') \<leftarrow> defrag_rsample_drop d R f;
             if ds_seq f = ds_seq l then
               (let mx = max_key (sampletree d')
                in Some (True, d'\<lparr>max_sample := mx\<rparr>, R', seq_or_0 mx))
             else Some (True, d', R', seq_or_0 (max_sample d)) }) =
          Some (True, d', R', seq_or_0 (max_sample d'))" "made_room d R True d' R'"
        using drop [of "[]" f ys] first by auto
      moreover from this(1) [unfolded m] have "defrag_limit_samples d R seq (seq_or_0 (max_sample d)) =
          Some (True, d', R', seq_or_0 (max_sample d'))"
        using False full m fm NN_DEFRAG_DROP_OLDEST by (simp add: defrag_limit_samples_def)
      ultimately show ?thesis by blast
    qed
  qed
qed

section \<open>One fragment\<close>

text \<open>The fragments of a sample chain, and a well-formed sample handed on to reordering.\<close>

definition outfrags :: "rsample option \<Rightarrow> rdata list" where
  "outfrags res = (case res of None \<Rightarrow> [] | Some rs \<Rightarrow> concat (map sce_fragchain (rs_sc rs)))"

definition delivered :: "rdata \<Rightarrow> rsample_info \<Rightarrow> rsample \<Rightarrow> bool" where
  "delivered f info rs \<longleftrightarrow> (\<exists>chain inf. rs = \<lparr>rs_sc = [\<lparr>sce_fragchain = chain, sce_sampleinfo = Some inf\<rparr>],
       rs_min = si_seq info, rs_maxp1 = si_seq info + 1, rs_n_samples = 1\<rparr> \<and>
     si_seq inf = si_seq info \<and> si_size inf = si_size info \<and> f \<in> set chain \<and> reaches 0 (si_size info) chain)"

text \<open>A fragment as the receive path hands it over: non-empty and inside the sample.\<close>

definition valid_frag :: "rdata \<Rightarrow> rsample_info \<Rightarrow> bool" where
  "valid_frag f info \<longleftrightarrow> rd_min f < rd_maxp1 f \<and> rd_maxp1 f \<le> si_size info \<and> 0 < si_seq info"

definition sizes :: "nn_defrag \<Rightarrow> (seqno \<times> nat) set" where
  "sizes d = (\<lambda>s. (ds_seq s, ds_size s)) ` set (samples_of d)"

definition infos :: "nn_defrag \<Rightarrow> rsample_info set" where
  "infos d = ds_sampleinfo ` set (samples_of d)"

definition defrag_post ::
  "nn_defrag \<Rightarrow> refs \<Rightarrow> rdata \<Rightarrow> rsample_info \<Rightarrow> rsample option \<Rightarrow> nn_defrag \<Rightarrow> refs \<Rightarrow> bool" where
  "defrag_post d R f info res d' R' \<longleftrightarrow> defrag_core d' R' \<and>
     max_sample d' = max_key (sampletree d') \<and> df_max_samples d' = df_max_samples d \<and>
     conserved d R (outfrags res) d' R' \<and>
     sizes d' \<subseteq> insert (si_seq info, si_size info) (sizes d) \<and> infos d' \<subseteq> insert info (infos d) \<and>
     (case res of None \<Rightarrow> True | Some rs \<Rightarrow> delivered f info rs \<and> abs_defrag d' (si_seq info) = None)"

lemma conserved_trans:
  "conserved d R [] d' R' \<Longrightarrow> conserved d' R' out d'' R'' \<Longrightarrow> conserved d R out d'' R''"
  unfolding conserved_def
proof
  fix m assume a: "\<forall>m. R' m + held_in m (allfrags (samples_of d)) * BIAS =
     R m + (held_in m (allfrags (samples_of d')) + held_in m []) * BIAS"
   and b: "\<forall>m. R'' m + held_in m (allfrags (samples_of d')) * BIAS =
     R' m + (held_in m (allfrags (samples_of d'')) + held_in m out) * BIAS"
  from a [rule_format, of m] b [rule_format, of m]
  show "R'' m + held_in m (allfrags (samples_of d)) * BIAS =
     R m + (held_in m (allfrags (samples_of d'')) + held_in m out) * BIAS"
    by (simp add: add_mult_distrib)
qed

lemma max_key_replace:
  "inorder t = xs @ s # ys \<Longrightarrow> inorder t' = xs @ s' # ys \<Longrightarrow> ds_seq s' = ds_seq s \<Longrightarrow>
   max_key t' = max_key t"
  by (cases ys rule: rev_cases) (simp_all add: max_key_last)

lemma held_le_trans: "conserved d R [] d' R' \<Longrightarrow>
    \<forall>m. held_in m (allfrags (samples_of d)) * BIAS \<le> R m \<Longrightarrow>
    \<forall>m. held_in m (allfrags (samples_of d')) * BIAS \<le> R' m"
  unfolding conserved_def
proof
  fix m assume a: "\<forall>m. R' m + held_in m (allfrags (samples_of d)) * BIAS =
     R m + (held_in m (allfrags (samples_of d')) + held_in m []) * BIAS"
   and b: "\<forall>m. held_in m (allfrags (samples_of d)) * BIAS \<le> R m"
  from a [rule_format, of m] b [rule_format, of m]
  show "held_in m (allfrags (samples_of d')) * BIAS \<le> R' m" by (simp add: add_mult_distrib)
qed

lemma known_sample_spec:
  assumes core: "defrag_core d R" and mx: "max_sample d = max_key (sampletree d)"
    and e: "samples_of d = xs @ s # ys" and f: "valid_frag f info"
    and info: "si_size info = ds_size s" "si_seq info = ds_seq s" and rc: "receives R h (rd_rmsg f)"
  shows "\<exists>res d' R' c s' disc. defrag_known_sample d R s f info = Some (res, d', R') \<and>
    df_n_samples d' \<le> df_n_samples d \<and>
    defrag_post d R f info res d' R' \<and> added s R f info (c, s', R', disc) \<and>
    (if c then (\<exists>rs. res = Some rs) \<and> samples_of d' = xs @ ys
     else res = None \<and> samples_of d' = xs @ s' # ys)"
proof -
  have idx: "index_ok stree (sampletree d)" and n: "df_n_samples d = length (samples_of d)"
    and sok: "\<forall>s\<in>set (samples_of d). sample_ok s"
    and h: "\<And>m. held_in m (allfrags (samples_of d)) * BIAS \<le> R m"
    using core by (auto simp: defrag_core_def)
  have s: "frag_ok s" "\<not> complete s" "0 < ds_seq s" "si_seq (ds_sampleinfo s) = ds_seq s" using sok e by (auto simp: sample_ok_def)
  have v: "rd_min f < rd_maxp1 f" "rd_maxp1 f \<le> ds_size s" using f info(1) by (auto simp: valid_frag_def)
  obtain r where r0: "defrag_add_fragment s R f info = Some r" "added s R f info r"
    using add_fragment_added [OF s(1) v info rc] by blast
  obtain c s' R' disc where r: "defrag_add_fragment s R f info = Some (c, s', R', disc)"
    "added s R f info (c, s', R', disc)"
    using r0 by (cases r) blast
  have s': "frag_ok s'" "ds_seq s' = ds_seq s" "ds_size s' = ds_size s" "c = complete s'"
    "si_seq (ds_sampleinfo s') = ds_seq s'" "c \<Longrightarrow> f \<in> set (frags s')" "ds_sampleinfo s' \<in> {info, ds_sampleinfo s}"
    and cons: "\<And>m. R' m + held_in m (frags s) * BIAS = R m + held_in m (frags s') * BIAS"
  proof -
    show "frag_ok s'" "ds_seq s' = ds_seq s" "ds_size s' = ds_size s" "c = complete s'"
      "si_seq (ds_sampleinfo s') = ds_seq s'" "ds_sampleinfo s' \<in> {info, ds_sampleinfo s}"
      using r(2) s info by (auto simp: added_def kept_def)
    show "f \<in> set (frags s')" if "c"
      using r(2) that by (auto simp: added_def kept_def simp flip: set_mset_mset)
    fix m
    show "R' m + held_in m (frags s) * BIAS = R m + held_in m (frags s') * BIAS"
    proof (cases "R' = R \<and> s' = s")
      case False
      then have k: "R' = with_bias R f" "mset (frags s') = add_mset f (mset (frags s))"
        using r(2) by (auto simp: added_def kept_def)
      have "mset (frags s') = mset (f # frags s)" using k(2) by simp
      from held_in_mset [OF this, of m] k(1) show ?thesis by (simp add: add_mult_distrib)
    qed simp
  qed
  have keys: "\<forall>x\<in>set xs. ds_seq x < ds_seq s'" "\<forall>y\<in>set ys. ds_seq s' < ds_seq y"
    using samples.split_keys(1,2) [OF idx e] s'(2) by simp_all
  obtain t where t: "write_node stree (sampletree d) s s' = Some t" "index_ok stree t"
    "inorder t = xs @ s' # ys"
    using samples.wr_law [OF idx e, of s'] keys by auto
  let ?d = "d\<lparr>sampletree := t, df_discarded_bytes := df_discarded_bytes d + disc\<rparr>"
  show ?thesis
  proof (cases c)
    case False
    have code: "defrag_known_sample d R s f info = Some (None, ?d, R')"
      using r(1) t(1) False by (simp add: defrag_known_sample_def Let_def)
    have cons': "conserved d R [] ?d R'"
      unfolding conserved_def
    proof
      fix m
      show "R' m + held_in m (allfrags (samples_of d)) * BIAS =
          R m + (held_in m (allfrags (samples_of ?d)) + held_in m []) * BIAS"
        using cons [of m] t(3) e by (simp add: add_mult_distrib)
    qed
    have "\<forall>m. held_in m (allfrags (samples_of ?d)) * BIAS \<le> R' m"
      using held_le_trans [OF cons'] h by blast
    moreover have "sample_ok s'" using s s' False by (simp add: sample_ok_def)
    ultimately have "defrag_core ?d R'" using t(2,3) sok n e by (simp add: defrag_core_def)
    moreover have "sizes ?d \<subseteq> insert (si_seq info, si_size info) (sizes d)"
      using t(3) e s'(2,3) by (auto simp: sizes_def)
    moreover have "infos ?d \<subseteq> insert info (infos d)"
      using t(3) e s'(7) by (auto simp: infos_def)
    moreover have "max_key t = max_sample d" using max_key_replace [OF e t(3) s'(2)] mx by simp
    ultimately have "defrag_post d R f info None ?d R'"
      using cons' by (simp add: defrag_post_def outfrags_def)
    with code r(2) False t(3) show ?thesis by (intro exI [of _ None] exI [of _ ?d] exI [of _ R'] exI [of _ c] exI [of _ s'] exI [of _ disc]) simp
  next
    case True
    obtain t' where t': "avl_delete stree t s' = Some t'" "index_ok stree t'" "inorder t' = xs @ ys"
      using samples.del_law [OF t(2,3)] by blast
    obtain iv where iv: "intervals s' = [iv]" "iv_maxp1 iv = ds_size s" "iv_min iv = 0"
      using True s'(3,4) frag_okD(4) [OF s'(1)] by (auto simp: complete_def)
    then obtain h where node: "fragtree s' = Node Null iv h Null"
      by (cases "fragtree s'") (auto simp: append_eq_Cons_conv)
    let ?rs = "\<lparr>rs_sc = [\<lparr>sce_fragchain = iv_chain iv, sce_sampleinfo = Some (ds_sampleinfo s')\<rparr>],
           rs_min = ds_seq s', rs_maxp1 = ds_seq s' + 1, rs_n_samples = 1\<rparr>"
    have conv: "rsample_convert_defrag_to_reorder s' = Some ?rs"
      by (simp add: rsample_convert_defrag_to_reorder_def node)
    let ?mx = "if max_sample d = Some (ds_seq s') then max_key t' else max_sample d"
    let ?d' = "?d\<lparr>sampletree := t', df_n_samples := df_n_samples d - 1, max_sample := ?mx\<rparr>"
    have code: "defrag_known_sample d R s f info = Some (Some ?rs, ?d', R')"
      using r(1) t(1) t'(1) True n e conv by (simp add: defrag_known_sample_def Let_def)
    have fr: "frags s' = iv_chain iv" using iv(1) by (simp add: frags_def)
    have cons': "conserved d R (iv_chain iv) ?d' R'"
      unfolding conserved_def
    proof
      fix m
      show "R' m + held_in m (allfrags (samples_of d)) * BIAS =
          R m + (held_in m (allfrags (samples_of ?d')) + held_in m (iv_chain iv)) * BIAS"
        using cons [of m] t'(3) e fr by (simp add: add_mult_distrib)
    qed
    have "held_in m (allfrags (xs @ ys)) * BIAS \<le> R' m" for m
      using cons [of m] h [of m] e by (simp add: add_mult_distrib)
    then have core': "defrag_core ?d' R'" using t'(2,3) sok n e by (simp add: defrag_core_def)
    have mk: "?mx = max_key t'"
    proof (cases "max_sample d = Some (ds_seq s')")
      case False
      obtain q where q: "max_key (sampletree d) = Some q"
        using e by (cases ys rule: rev_cases) (simp_all add: max_key_last)
      then have "max_key t' = Some q"
        using max_key_delete [OF e t'(3) q] mx False s'(2) by auto
      with False q mx show ?thesis by simp
    qed simp
    have "iv_ok (ds_size s') iv" using frag_okD(3) [OF s'(1)] iv(1) by simp
    then have "reaches 0 (ds_size s) (iv_chain iv)" using iv by (simp add: iv_ok_def)
    then have "delivered f info ?rs" using info s' fr True by (simp add: delivered_def)
    moreover have "abs_defrag ?d' (si_seq info) = None"
      using t'(3) keys s'(2) info(2) by (auto simp: abs_defrag_None)
    moreover have "sizes ?d' \<subseteq> insert (si_seq info, si_size info) (sizes d)"
      using t'(3) e by (auto simp: sizes_def)
    moreover have "infos ?d' \<subseteq> insert info (infos d)"
      using t'(3) e by (auto simp: infos_def)
    ultimately have "defrag_post d R f info (Some ?rs) ?d' R'"
      using core' mk cons' by (simp add: defrag_post_def outfrags_def)
    with code r(2) True t'(3) show ?thesis
      by (intro exI [of _ "Some ?rs"] exI [of _ ?d'] exI [of _ R'] exI [of _ c] exI [of _ s'] exI [of _ disc]) simp
  qed
qed

lemma new_sample_spec:
  assumes core: "defrag_core d R" and f: "valid_frag f info"
    and frag: "\<not> (rd_min f = 0 \<and> rd_maxp1 f = si_size info)"
    and new: "\<forall>s\<in>set (samples_of d). ds_seq s \<noteq> si_seq info" and rc: "receives R h (rd_rmsg f)"
  shows "\<exists>s t xs ys. defrag_rsample_new R f info = Some (s, with_bias R f) \<and> ds_seq s = si_seq info \<and>
    insert_at stree (sampletree d) (si_seq info) s = Some t \<and>
    defrag_core (d\<lparr>sampletree := t, df_n_samples := df_n_samples d + 1\<rparr>) (with_bias R f) \<and>
    conserved d R [] (d\<lparr>sampletree := t\<rparr>) (with_bias R f) \<and>
    samples_of d = xs @ ys \<and> inorder t = xs @ s # ys \<and> bytes s = fbytes f \<and> ds_sampleinfo s = info \<and>
    (\<forall>y\<in>set ys. si_seq info < ds_seq y)"
proof -
  have idx: "index_ok stree (sampletree d)" and n: "df_n_samples d = length (samples_of d)"
    and sok: "\<forall>s\<in>set (samples_of d). sample_ok s"
    and h: "\<forall>m. held_in m (allfrags (samples_of d)) * BIAS \<le> R m"
    using core by (auto simp: defrag_core_def)
  obtain s where s: "defrag_rsample_new R f info = Some (s, with_bias R f)" "frag_ok s"
    "ds_seq s = si_seq info" "bytes s = fbytes f" "frags s = [f]" "\<not> complete s" "ds_sampleinfo s = info"
    using defrag_rsample_new_spec [OF _ _ frag rc] f by (auto simp: valid_frag_def)
  have "si_seq info \<notin> td_key stree ` set (samples_of d)" using new by auto
  from samples.gap_split [OF idx this] obtain xs ys where e: "samples_of d = xs @ ys"
    "\<forall>x\<in>set xs. ds_seq x < si_seq info" "\<forall>y\<in>set ys. si_seq info < ds_seq y" by auto
  obtain t where t: "insert_at stree (sampletree d) (si_seq info) s = Some t" "index_ok stree t"
    "inorder t = xs @ s # ys"
    using samples.ins_at_law [OF idx e(1), of "si_seq info" s] e(2,3) s(3) by auto
  have cons: "conserved d R [] (d\<lparr>sampletree := t\<rparr>) (with_bias R f)"
    unfolding conserved_def using e(1) t(3) s(5) by (simp add: add_mult_distrib)
  have "\<forall>m. held_in m (allfrags (samples_of (d\<lparr>sampletree := t\<rparr>))) * BIAS \<le> with_bias R f m"
    using held_le_trans [OF cons h] .
  moreover have "sample_ok s" using s f by (simp add: sample_ok_def valid_frag_def)
  ultimately have "defrag_core (d\<lparr>sampletree := t, df_n_samples := df_n_samples d + 1\<rparr>) (with_bias R f)"
    using t(2,3) sok n e(1) by (simp add: defrag_core_def)
  with s t e cons show ?thesis by blast
qed

section \<open>The defragmenter refines a map of byte sets\<close>

text \<open>
  The specification: the bytes of the fragment are added to those of its sample; when that makes
  the sample whole, it is handed on and forgotten.
\<close>

definition abs_step ::
  "(seqno \<rightharpoonup> nat set) \<Rightarrow> rdata \<Rightarrow> rsample_info \<Rightarrow> rsample option \<Rightarrow> (seqno \<rightharpoonup> nat set) \<Rightarrow> bool" where
  "abs_step A f info res A' \<longleftrightarrow>
     (let q = si_seq info;
          B = (case A q of None \<Rightarrow> {} | Some b \<Rightarrow> b) \<union> fbytes f
      in if B = {0..<si_size info} then res \<noteq> None \<and> A' = A(q := None)
         else res = None \<and> A' = A(q \<mapsto> B))"

text \<open>All the fragments of a sample announce the same size.\<close>

definition consistent :: "nn_defrag \<Rightarrow> rsample_info \<Rightarrow> bool" where
  "consistent d info \<longleftrightarrow> (\<forall>s\<in>set (samples_of d). ds_seq s = si_seq info \<longrightarrow> ds_size s = si_size info)"

text \<open>Received as a whole before, or not at all.\<close>

definition whole :: "(seqno \<rightharpoonup> nat set) \<Rightarrow> rdata \<Rightarrow> rsample_info \<Rightarrow> bool" where
  "whole A f info \<longleftrightarrow> (case A (si_seq info) of None \<Rightarrow> True | Some b \<Rightarrow> fbytes f \<subseteq> b \<or> fbytes f \<inter> b = {})"

text \<open>No sample has to make way.\<close>

definition room :: "nn_defrag \<Rightarrow> rsample_info \<Rightarrow> bool" where
  "room d info \<longleftrightarrow> df_n_samples d < df_max_samples d \<or> max_sample d = Some (si_seq info)"

lemma abs_step_known:
  assumes idx: "index_ok stree (sampletree d)" and e: "samples_of d = xs @ s # ys"
    and s: "frag_ok s" "\<not> complete s" and size: "ds_size s = si_size info" "0 < ds_size s" "ds_seq s = si_seq info"
    and a: "added s R f info (c, s', R', disc)" and w: "whole (abs_defrag d) f info"
    and res: "if c then (\<exists>rs. res = Some rs) \<and> samples_of d' = xs @ ys
     else res = None \<and> samples_of d' = xs @ s' # ys"
  shows "abs_step (abs_defrag d) f info res (abs_defrag d')"
proof -
  have A: "abs_defrag d (si_seq info) = Some (bytes s)"
    using abs_split(1) [OF idx e] size(3) by simp
  then have "fits f s" using w fits_whole [OF s(1)] by (simp add: whole_def)
  then have b: "bytes s' = bytes s \<union> fbytes f" and s': "frag_ok s'" "ds_seq s' = ds_seq s"
    "ds_size s' = ds_size s" "c = complete s'"
    using a s size by (auto simp: added_def kept_def)
  have c: "c \<longleftrightarrow> bytes s \<union> fbytes f = {0..<si_size info}"
    using complete_bytes [OF s'(1)] s'(3,4) b size by simp
  show ?thesis
  proof (cases c)
    case True
    then have "abs_defrag d' = (abs_defrag d)(ds_seq s := None)"
      using res abs_split(3) [OF idx e, of d'] by simp
    with True res c A size show ?thesis by (auto simp: abs_step_def)
  next
    case False
    then have "abs_defrag d' = (abs_defrag d)(ds_seq s \<mapsto> bytes s')"
      using res abs_split(2) [OF idx e, of d' s'] s'(2) by simp
    with False res c A size b show ?thesis by (simp add: abs_step_def)
  qed
qed

text \<open>
  What \<open>nn_defrag_rsample\<close> guarantees for a fragment (as opposed to a whole sample).
\<close>

definition defrag_step ::
  "nn_defrag \<Rightarrow> refs \<Rightarrow> rdata \<Rightarrow> rsample_info \<Rightarrow> rsample option \<times> nn_defrag \<times> refs \<Rightarrow> bool" where
  "defrag_step d R f info r \<longleftrightarrow> (case r of (res, d', R') \<Rightarrow>
     defrag_ok d' R' \<and> defrag_post d R f info res d' R' \<and>
     (room d info \<and> whole (abs_defrag d) f info \<longrightarrow> abs_step (abs_defrag d) f info res (abs_defrag d')))"

lemma defrag_step_known:
  assumes ok: "defrag_ok d R" and e: "samples_of d = xs @ s # ys" and f: "valid_frag f info"
    and info: "si_size info = ds_size s" "si_seq info = ds_seq s" and rc: "receives R h (rd_rmsg f)"
  shows "\<exists>r. defrag_known_sample d R s f info = Some r \<and> defrag_step d R f info r"
proof -
  have core: "defrag_core d R" and mx: "max_sample d = max_key (sampletree d)"
    and n: "df_n_samples d \<le> df_max_samples d" "1 \<le> df_max_samples d"
    and idx: "index_ok stree (sampletree d)" and s: "frag_ok s" "\<not> complete s"
    using ok e by (auto simp: defrag_ok_def defrag_core_def sample_ok_def)
  obtain res d' R' c s' disc where r: "defrag_known_sample d R s f info = Some (res, d', R')"
    "df_n_samples d' \<le> df_n_samples d" "defrag_post d R f info res d' R'"
    "added s R f info (c, s', R', disc)"
    "if c then (\<exists>rs. res = Some rs) \<and> samples_of d' = xs @ ys
     else res = None \<and> samples_of d' = xs @ s' # ys"
    using known_sample_spec [OF core mx e f info rc] by blast
  have "0 < ds_size s" using f info by (auto simp: valid_frag_def)
  then have "abs_step (abs_defrag d) f info res (abs_defrag d')" if "whole (abs_defrag d) f info"
    using abs_step_known [OF idx e s _ _ _ r(4) that r(5)] info by simp
  moreover have "defrag_ok d' R'" using r(2,3) n by (auto simp: defrag_ok_def defrag_post_def)
  ultimately show ?thesis using r(1,3) by (auto simp: defrag_step_def)
qed

lemma defrag_step_new:
  assumes ok: "defrag_ok d R" and f: "valid_frag f info"
    and frag: "\<not> (rd_min f = 0 \<and> rd_maxp1 f = si_size info)"
    and new: "\<forall>s\<in>set (samples_of d). ds_seq s \<noteq> si_seq info"
    and n: "df_n_samples d < df_max_samples d" and rc: "receives R h (rd_rmsg f)"
  shows "\<exists>s t. defrag_rsample_new R f info = Some (s, with_bias R f) \<and> ds_seq s = si_seq info \<and>
    insert_at stree (sampletree d) (si_seq info) s = Some t \<and>
    (let mx = (if seq_or_0 (max_sample d) < si_seq info then Some (ds_seq s) else max_sample d) in
     max_key t = mx \<and>
     defrag_step d R f info (None,
       d\<lparr>sampletree := t, max_sample := mx, df_n_samples := df_n_samples d + 1\<rparr>, with_bias R f))"
proof -
  have core: "defrag_core d R" and mx: "max_sample d = max_key (sampletree d)"
    and idx: "index_ok stree (sampletree d)"
    using ok by (auto simp: defrag_ok_def defrag_core_def)
  let ?R = "with_bias R f"
  obtain s t xs ys where s: "defrag_rsample_new R f info = Some (s, ?R)" "ds_seq s = si_seq info"
    and t: "insert_at stree (sampletree d) (si_seq info) s = Some t"
    and core': "defrag_core (d\<lparr>sampletree := t, df_n_samples := df_n_samples d + 1\<rparr>) ?R"
    and cons: "conserved d R [] (d\<lparr>sampletree := t\<rparr>) ?R"
    and e: "samples_of d = xs @ ys" "inorder t = xs @ s # ys" "bytes s = fbytes f"
      "\<forall>y\<in>set ys. si_seq info < ds_seq y" "ds_sampleinfo s = info"
    using new_sample_spec [OF core f frag new rc] by blast
  let ?mx = "if seq_or_0 (max_sample d) < si_seq info then Some (ds_seq s) else max_sample d"
  let ?d = "d\<lparr>sampletree := t, max_sample := ?mx, df_n_samples := df_n_samples d + 1\<rparr>"
  have mk: "max_key t = ?mx"
  proof (cases ys rule: rev_cases)
    case Nil
    have "seq_or_0 (max_sample d) \<le> si_seq info"
    proof (cases xs rule: rev_cases)
      case (snoc us u)
      have "sorted_by ds_seq (inorder t)"
        using core' samples.ok_sorted [of t] by (simp add: defrag_core_def)
      with snoc e(2) s(2) have "ds_seq u < si_seq info" by (simp add: sorted_by_append)
      with snoc Nil e(1) mx show ?thesis by (simp add: max_key_last seq_or_0_def)
    qed (use Nil e(1) mx in \<open>simp add: max_key_last seq_or_0_def\<close>)
    moreover have "max_sample d \<noteq> Some (si_seq info)"
      using new mx by (auto simp: max_key_last last_opt_Some)
    ultimately have "seq_or_0 (max_sample d) < si_seq info"
      using f by (cases "max_sample d") (auto simp: seq_or_0_def valid_frag_def)
    with Nil e(2) show ?thesis by (simp add: max_key_last)
  next
    case (snoc us u)
    with e mx have "max_sample d = Some (ds_seq u)" "si_seq info < ds_seq u" by (auto simp: max_key_last)
    with snoc e(2) show ?thesis by (simp add: max_key_last seq_or_0_def)
  qed
  have "defrag_core ?d ?R" using core' by (simp add: defrag_core_def)
  then have ok': "defrag_ok ?d ?R" using mk n ok by (simp add: defrag_ok_def)
  have "sizes ?d \<subseteq> insert (si_seq info, si_size info) (sizes d)"
    using e(1,2,5) s(2) by (auto simp: sizes_def)
  moreover have "infos ?d \<subseteq> insert info (infos d)"
    using e(1,2,5) by (auto simp: infos_def)
  moreover note \<open>defrag_core ?d ?R\<close> mk cons
  ultimately have "defrag_post d R f info None ?d ?R" by (simp add: defrag_post_def outfrags_def conserved_def)
  moreover have "abs_step (abs_defrag d) f info None (abs_defrag ?d)"
  proof -
    have "abs_defrag d (si_seq info) = None" using new by (simp add: abs_defrag_None)
    moreover have "abs_defrag ?d = (abs_defrag d)(ds_seq s \<mapsto> bytes s)"
      by (rule abs_insert [OF e(1)]) (use e(2) new s(2) in simp_all)
    moreover have "fbytes f \<noteq> {0..<si_size info}"
    proof
      assume "fbytes f = {0..<si_size info}"
      with f frag show False by (auto simp: valid_frag_def atLeastLessThan_eq_iff)
    qed
    ultimately show ?thesis using s(2) e(3) by (simp add: abs_step_def)
  qed
  ultimately have "defrag_step d R f info (None, ?d, ?R)" using ok' by (simp add: defrag_step_def)
  with s t mk show ?thesis unfolding Let_def by blast
qed

lemma defrag_step_room:
  assumes "made_room d R True d1 R1" "defrag_step d1 R1 f info r" "max_sample d \<noteq> Some (si_seq info)"
  shows "defrag_step d R f info r"
proof -
  obtain res d' R' where r: "r = (res, d', R')" by (cases r)
  have c: "conserved d R [] d1 R1" and m: "df_max_samples d1 = df_max_samples d"
    and same: "room d info \<Longrightarrow> d1 = d" and sz: "sizes d1 \<subseteq> sizes d" "infos d1 \<subseteq> infos d"
    using assms(1,3) by (auto simp: made_room_def room_def sizes_def infos_def)
  have "defrag_post d R f info res d' R'"
    using assms(2) conserved_trans [OF c] m sz by (auto simp: r defrag_step_def defrag_post_def)
  with assms(2) same show ?thesis by (auto simp: r defrag_step_def)
qed

lemma lookup_ipath_find:
  assumes "index_ok stree t"
  shows "fst (lookup_ipath stree t q) = None \<longleftrightarrow> (\<forall>s\<in>set (inorder t). ds_seq s \<noteq> q)"
    and "fst (lookup_ipath stree t q) = Some s \<Longrightarrow> s \<in> set (inorder t) \<and> ds_seq s = q"
proof -
  obtain n p where lp: "lookup_path stree t q [] = (n, p)" by (cases "lookup_path stree t q []")
  have ws: "weakly_sorted_by (td_key stree) (inorder t)"
    using samples.ok_sorted [OF assms] by (rule sorted_by_weak)
  have n: "fst (lookup_ipath stree t q) = onode n"
    by (cases n) (simp_all add: lookup_ipath_def lp)
  show "fst (lookup_ipath stree t q) = None \<longleftrightarrow> (\<forall>s\<in>set (inorder t). ds_seq s \<noteq> q)"
    using lookup_path_None_iff [OF samples.orders ws lp] by (cases n) (auto simp: n)
  show "fst (lookup_ipath stree t q) = Some s \<Longrightarrow> s \<in> set (inorder t) \<and> ds_seq s = q"
    using lookup_path_keys [OF samples.orders ws _ _ lp] lookup_path_plug [OF lp] inorder_plug [of n p]
    by (cases n) (auto simp: n)
qed

text \<open>
  The message of the fragment is being received: its count has the uncommitted bias besides the biases of the fragments stored here,
  and room for \<open>n\<close> more. Dropping a sample to make room leaves it so.
\<close>

definition receiving :: "nn_defrag \<Rightarrow> refs \<Rightarrow> nat \<Rightarrow> nat \<Rightarrow> bool" where
  "receiving d R n m \<longleftrightarrow> RMSG_REFCOUNT_UNCOMMITTED_BIAS + held_in m (allfrags (samples_of d)) * BIAS \<le> R m \<and>
     R m + n * BIAS < 2 ^ 32"

lemma receiving_receives:
  "receiving d R 1 (rd_rmsg f) \<Longrightarrow> receives R (held_in (rd_rmsg f) (allfrags (samples_of d)) * BIAS) (rd_rmsg f)"
  by (simp add: receiving_def receives_def)

lemma receiving_conserved:
  assumes "receiving d R n m" "conserved d R [] d' R'" "R' m + n' * BIAS \<le> R m + n * BIAS"
  shows "receiving d' R' n' m"
  using assms(1,3) assms(2) [unfolded conserved_def, rule_format, of m] by (simp add: receiving_def add_mult_distrib)

lemma receiving_le: "receiving d R n m \<Longrightarrow> k \<le> n \<Longrightarrow> receiving d R k m"
  unfolding receiving_def using mult_le_mono1 [of k n BIAS] by linarith

text \<open>The code of \<open>nn_defrag_rsample\<close> beyond the test for a whole sample.\<close>

lemma nn_defrag_rsample_frag:
  assumes ok: "defrag_ok d R" and f: "valid_frag f info" and con: "consistent d info"
    and frag: "\<not> (rd_min f = 0 \<and> rd_maxp1 f = si_size info)" and rc: "receiving d R 1 (rd_rmsg f)"
  shows "\<exists>r. nn_defrag_rsample d R f info = Some r \<and> defrag_step d R f info r"
proof -
  let ?q = "si_seq info"
  have core: "defrag_core d R" and mx: "max_sample d = max_key (sampletree d)"
    and n: "df_n_samples d \<le> df_max_samples d" "1 \<le> df_max_samples d"
    and idx: "index_ok stree (sampletree d)"
    using ok by (auto simp: defrag_ok_def defrag_core_def)
  have v: "nn_rdata_is_fragment f info = Some True"
    using f frag by (simp add: nn_rdata_is_fragment_def valid_frag_def)
  have fin: "nn_defrag_rsample d R f info = Some r" if "defrag_step d R f info r" and
    "(if ?q = seq_or_0 (max_sample d) then do {
            m \<leftarrow> max_sample d;
            known \<leftarrow> lookup stree (sampletree d) m;
            defrag_known_sample d R known f info }
          else do {
            (go, d1, R1, max_seq') \<leftarrow> defrag_limit_samples d R ?q (seq_or_0 (max_sample d));
            if \<not> go then Some (None, d1, R1)
            else if max_seq' < ?q then do {
              (s, R2) \<leftarrow> defrag_rsample_new R1 f info;
              t \<leftarrow> insert_at stree (sampletree d1) ?q s;
              Some (None, d1\<lparr>sampletree := t, max_sample := Some (ds_seq s),
                             df_n_samples := df_n_samples d1 + 1\<rparr>, R2) }
            else
              (case fst (lookup_ipath stree (sampletree d1) ?q) of
                 None \<Rightarrow> do {
                   _ \<leftarrow> assertion (?q < max_seq');
                   (s, R2) \<leftarrow> defrag_rsample_new R1 f info;
                   t \<leftarrow> insert_at stree (sampletree d1) ?q s;
                   Some (None, d1\<lparr>sampletree := t, df_n_samples := df_n_samples d1 + 1\<rparr>, R2) }
               | Some known \<Rightarrow> defrag_known_sample d1 R1 known f info) }) = Some r" for r
  proof -
    obtain res d' R' where r: "r = (res, d', R')" by (cases r)
    have a: "assertion (df_n_samples d \<le> df_max_samples d) = Some ()"
      "assertion (max_sample d = max_key (sampletree d)) = Some ()"
      "assertion (max_sample d' = max_key (sampletree d')) = Some ()"
      using n mx that(1) by (simp_all add: r defrag_step_def defrag_ok_def)
    show ?thesis
      unfolding nn_defrag_rsample_def Let_def v a(1,2) option_bind_Some that(2)
      by (simp only: not_True_eq_False if_False option_bind_Some r prod.case a(3))
  qed
  show ?thesis
  proof (cases "?q = seq_or_0 (max_sample d)")
    case True
    then have m: "max_sample d = Some ?q"
      using f by (cases "max_sample d") (auto simp: seq_or_0_def valid_frag_def)
    obtain xs s where e: "samples_of d = xs @ [s]" "ds_seq s = ?q"
      using m mx by (metis max_key_split)
    have lk: "lookup stree (sampletree d) ?q = Some s"
      using samples.get_at [OF idx, of xs s "[]"] e by simp
    have sz: "si_size info = ds_size s" using con e by (simp add: consistent_def)
    obtain r where r: "defrag_known_sample d R s f info = Some r" "defrag_step d R f info r"
    proof -
      have "samples_of d = xs @ s # []" using e(1) by simp
      from defrag_step_known [OF ok this f sz _ receiving_receives [OF rc]] e(2) that show thesis by (metis (lifting))
    qed
    have "nn_defrag_rsample d R f info = Some r"
      by (rule fin [OF r(2)]) (use m lk r(1) in \<open>simp add: seq_or_0_def\<close>)
    with r(2) show ?thesis by blast
  next
    case False
    then have nm: "max_sample d \<noteq> Some ?q" by (auto simp: seq_or_0_def)
    obtain go d1 R1 where lim: "defrag_limit_samples d R ?q (seq_or_0 (max_sample d)) =
        Some (go, d1, R1, seq_or_0 (max_sample d1))" "made_room d R go d1 R1"
      using defrag_limit_samples_spec [OF ok] by blast
    show ?thesis
    proof (cases go)
      case no: False
      then have same: "d1 = d" "R1 = R" "\<not> df_n_samples d < df_max_samples d"
        using lim(2) by (auto simp: made_room_def)
      have "defrag_step d R f info (None, d, R)"
        using ok nm same(3) by (auto simp: defrag_step_def defrag_post_def defrag_ok_def outfrags_def
            conserved_refl room_def)
      then have "nn_defrag_rsample d R f info = Some (None, d, R)"
        by (rule fin) (use False lim(1) no same in simp)
      with \<open>defrag_step d R f info (None, d, R)\<close> show ?thesis by blast
    next
      case True
      have ok1: "defrag_ok d1 R1" and room1: "df_n_samples d1 < df_max_samples d1"
        and sub: "set (samples_of d1) \<subseteq> set (samples_of d)"
        using lim(2) True by (auto simp: made_room_def)
      have "receiving d1 R1 1 (rd_rmsg f)"
        by (rule receiving_conserved [OF rc]) (use lim(2) in \<open>auto simp: made_room_def\<close>)
      note rc1 = receiving_receives [OF this]
      have idx1: "index_ok stree (sampletree d1)" and mx1: "max_sample d1 = max_key (sampletree d1)"
        using ok1 by (auto simp: defrag_ok_def defrag_core_def)
      have lift: "defrag_step d R f info r" if "defrag_step d1 R1 f info r" for r
        using defrag_step_room [OF _ that nm] lim(2) True by simp
      show ?thesis
      proof (cases "fst (lookup_ipath stree (sampletree d1) ?q)")
        case None
        have new: "\<forall>s\<in>set (samples_of d1). ds_seq s \<noteq> ?q"
          using lookup_ipath_find(1) [OF idx1] None by simp
        obtain s t where s: "defrag_rsample_new R1 f info = Some (s, with_bias R1 f)"
            "ds_seq s = ?q" "insert_at stree (sampletree d1) ?q s = Some t"
          and st: "defrag_step d1 R1 f info (None,
            d1\<lparr>sampletree := t,
               max_sample := (if seq_or_0 (max_sample d1) < ?q then Some (ds_seq s) else max_sample d1),
               df_n_samples := df_n_samples d1 + 1\<rparr>, with_bias R1 f)"
          using defrag_step_new [OF ok1 f frag new room1 rc1] unfolding Let_def by blast
        let ?d = "d1\<lparr>sampletree := t,
               max_sample := (if seq_or_0 (max_sample d1) < ?q then Some (ds_seq s) else max_sample d1),
               df_n_samples := df_n_samples d1 + 1\<rparr>"
        have ne: "?q \<noteq> seq_or_0 (max_sample d1)"
        proof
          assume q: "?q = seq_or_0 (max_sample d1)"
          then have "max_sample d1 = Some ?q"
            using f by (cases "max_sample d1") (auto simp: seq_or_0_def valid_frag_def)
          with mx1 have "max_key (sampletree d1) = Some ?q" by simp
          then obtain us u where "samples_of d1 = us @ [u]" "ds_seq u = ?q" by (rule max_key_split)
          with new show False by simp
        qed
        have "nn_defrag_rsample d R f info = Some (None, ?d, with_bias R1 f)"
          by (rule fin [OF lift [OF st]]) (use False lim(1) True s None ne in simp)
        with lift [OF st] show ?thesis by blast
      next
        case (Some s)
        then have s: "s \<in> set (samples_of d1)" "ds_seq s = ?q"
          using lookup_ipath_find(2) [OF idx1] by simp_all
        then obtain xs ys where e: "samples_of d1 = xs @ s # ys" by (meson split_list)
        have "s \<in> set (samples_of d)" using s(1) sub by auto
        with con s(2) have sz: "si_size info = ds_size s" by (simp add: consistent_def)
        obtain r where r: "defrag_known_sample d1 R1 s f info = Some r" "defrag_step d1 R1 f info r"
          using defrag_step_known [OF ok1 e f sz _ rc1] s(2) by (metis (lifting))
        have "?q \<le> seq_or_0 (max_sample d1)"
        proof -
          obtain us u where u: "samples_of d1 = us @ [u]" using e rev_exhaust
            by (metis append_is_Nil_conv list.distinct(1))
          then have "find_max (sampletree d1) = Some u" by (simp add: find_max_inorder)
          from samples.maximum_greatest [OF idx1 this s(1)] s(2) u mx1
          show ?thesis by (simp add: max_key_last seq_or_0_def)
        qed
        then have "nn_defrag_rsample d R f info = Some r"
          by (intro fin [OF lift [OF r(2)]]) (use False lim(1) True r(1) Some in simp)
        with lift [OF r(2)] show ?thesis by blast
      qed
    qed
  qed
qed

section \<open>Feeding a sequence of fragments\<close>

fun feed ::
  "nn_defrag \<Rightarrow> refs \<Rightarrow> (rdata \<times> rsample_info) list \<Rightarrow> (rsample option list \<times> nn_defrag \<times> refs) option" where
  "feed d R [] = Some ([], d, R)"
| "feed d R ((f, info) # fs) = do {
     (res, d', R') \<leftarrow> nn_defrag_rsample d R f info;
     (rest, d'', R'') \<leftarrow> feed d' R' fs;
     Some (res # rest, d'', R'') }"

lemma dom_abs: "dom (abs_defrag d) = ds_seq ` set (samples_of d)"
  by (simp add: abs_defrag_def dom_map_of_conv_image_fst image_comp comp_def)

lemma card_abs: "defrag_core d R \<Longrightarrow> df_n_samples d = card (dom (abs_defrag d))"
proof -
  assume "defrag_core d R"
  then have "index_ok stree (sampletree d)" "df_n_samples d = length (samples_of d)"
    by (auto simp: defrag_core_def)
  moreover from this have "sorted_by ds_seq (samples_of d)" using samples.ok_sorted by simp
  then have "distinct (samples_of d)" "inj_on ds_seq (set (samples_of d))"
    by (auto simp: sorted_by_distinct inj_on_def sorted_by_key_inj)
  ultimately show ?thesis by (simp add: dom_abs card_image distinct_card)
qed

text \<open>There is room for one sample \<open>q\<close>, for as long as it takes to complete.\<close>

definition roomy :: "nn_defrag \<Rightarrow> seqno \<Rightarrow> bool" where
  "roomy d q \<longleftrightarrow> card (insert q (dom (abs_defrag d))) < df_max_samples d \<or>
     card (insert q (dom (abs_defrag d))) \<le> df_max_samples d \<and> (\<forall>p\<in>dom (abs_defrag d). p \<le> q)"

lemma roomy_room:
  assumes ok: "defrag_ok d R" and "roomy d (si_seq info)"
  shows "room d info"
proof -
  have core: "defrag_core d R" and mx: "max_sample d = max_key (sampletree d)"
    and idx: "index_ok stree (sampletree d)"
    using ok by (auto simp: defrag_ok_def defrag_core_def)
  have n: "df_n_samples d = card (dom (abs_defrag d))" by (rule card_abs [OF core])
  have fin: "finite (dom (abs_defrag d))" by (simp add: dom_abs)
  show ?thesis
  proof (cases "si_seq info \<in> dom (abs_defrag d)")
    case False
    then have "card (insert (si_seq info) (dom (abs_defrag d))) = df_n_samples d + 1"
      using fin n by simp
    with assms(2) show ?thesis by (auto simp: roomy_def room_def)
  next
    case True
    then have i: "insert (si_seq info) (dom (abs_defrag d)) = dom (abs_defrag d)" by auto
    show ?thesis
    proof (cases "df_n_samples d < df_max_samples d")
      case False
      with assms(2) i n have le: "\<forall>p\<in>dom (abs_defrag d). p \<le> si_seq info" by (auto simp: roomy_def)
      from True obtain s where s: "s \<in> set (samples_of d)" "ds_seq s = si_seq info"
        by (auto simp: dom_abs)
      then obtain us u where u: "samples_of d = us @ [u]" using rev_exhaust
        by (metis empty_iff list.set(1))
      then have "find_max (sampletree d) = Some u" by (simp add: find_max_inorder)
      from samples.maximum_greatest [OF idx this s(1)] s(2) have "si_seq info \<le> ds_seq u" by simp
      moreover have "ds_seq u \<le> si_seq info" using le u by (simp add: dom_abs)
      ultimately show ?thesis using u mx by (simp add: room_def max_key_last)
    qed (simp add: room_def)
  qed
qed

text \<open>The fragments of one sample, all of which lie in one partition of its bytes.\<close>

definition pieces :: "seqno \<Rightarrow> nat \<Rightarrow> (rdata \<times> rsample_info) list \<Rightarrow> bool" where
  "pieces q sz fs \<longleftrightarrow> (\<forall>(f, info)\<in>set fs. valid_frag f info \<and> si_seq info = q \<and> si_size info = sz \<and>
       \<not> (rd_min f = 0 \<and> rd_maxp1 f = sz)) \<and>
     (\<forall>(f, _)\<in>set fs. \<forall>(g, _)\<in>set fs. fbytes f = fbytes g \<or> fbytes f \<inter> fbytes g = {})"

definition union_bytes :: "(rdata \<times> rsample_info) list \<Rightarrow> nat set" where
  "union_bytes fs = (\<Union>(f, _)\<in>set fs. fbytes f)"

lemma pieces_Cons:
  "pieces q sz ((f, info) # fs) \<Longrightarrow> valid_frag f info \<and> si_seq info = q \<and> si_size info = sz \<and>
     \<not> (rd_min f = 0 \<and> rd_maxp1 f = sz)"
  by (simp add: pieces_def)

text \<open>The last piece to arrive completes the sample; all the earlier ones are kept.\<close>

lemma feed_pieces:
  assumes "pieces q sz (gs0 @ gs @ [(f, info)])" "defrag_ok d R" "roomy d q"
    and "\<forall>(p, z)\<in>sizes d. p = q \<longrightarrow> z = sz"
    and "abs_defrag d = (if gs0 = [] then A else A(q \<mapsto> union_bytes gs0))" "q \<notin> dom A"
    and "fbytes f \<inter> union_bytes (gs0 @ gs) = {}" "union_bytes (gs0 @ gs @ [(f, info)]) = {0..<sz}"
    and "\<forall>(g, _)\<in>set (gs @ [(f, info)]). receiving d R (Suc (length gs)) (rd_rmsg g)"
  shows "\<exists>rs d' R'. feed d R (gs @ [(f, info)]) = Some (replicate (length gs) None @ [Some rs], d', R') \<and>
    defrag_ok d' R' \<and> delivered f info rs \<and> abs_defrag d' = A"
  using assms
proof (induction gs arbitrary: gs0 d R)
  case Nil
  then have f: "valid_frag f info" "si_seq info = q" "si_size info = sz"
    "\<not> (rd_min f = 0 \<and> rd_maxp1 f = si_size info)"
    by (auto simp: pieces_def)
  have con: "consistent d info" using Nil.prems(4) f(2,3) by (auto simp: consistent_def sizes_def)
  obtain res d' R' where r: "nn_defrag_rsample d R f info = Some (res, d', R')"
    "defrag_step d R f info (res, d', R')"
    using nn_defrag_rsample_frag [OF Nil.prems(2) f(1) con f(4)] Nil.prems(9) by auto
  have Aq: "A q = None" using Nil.prems(6) by auto
  have "whole (abs_defrag d) f info"
    using Nil.prems(5,7) Aq f(2) by (simp add: whole_def)
  moreover have "room d info" using roomy_room [OF Nil.prems(2)] Nil.prems(3) f(2) by simp
  ultimately have "abs_step (abs_defrag d) f info res (abs_defrag d')"
    using r(2) by (simp add: defrag_step_def)
  moreover have "(case abs_defrag d q of None \<Rightarrow> {} | Some b \<Rightarrow> b) \<union> fbytes f = {0..<sz}"
    using Nil.prems(5,8) Aq by (auto simp: union_bytes_def)
  ultimately have "res \<noteq> None" "abs_defrag d' = (abs_defrag d)(q := None)"
    using f(2,3) by (auto simp: abs_step_def)
  moreover have "(abs_defrag d)(q := None) = A" using Nil.prems(5) Aq by (auto simp: fun_eq_iff)
  ultimately show ?case using r by (auto simp: defrag_step_def defrag_post_def)
next
  case (Cons g gs)
  obtain h hinfo where g: "g = (h, hinfo)" by (cases g)
  have f: "valid_frag h hinfo" "si_seq hinfo = q" "si_size hinfo = sz"
    "\<not> (rd_min h = 0 \<and> rd_maxp1 h = si_size hinfo)"
    using Cons.prems(1) by (auto simp: pieces_def g)
  have con: "consistent d hinfo" using Cons.prems(4) f(2,3) by (auto simp: consistent_def sizes_def)
  obtain res d' R' where r: "nn_defrag_rsample d R h hinfo = Some (res, d', R')"
    "defrag_step d R h hinfo (res, d', R')"
    using nn_defrag_rsample_frag [OF Cons.prems(2) f(1) con f(4)] receiving_le [of d R _ _ 1] Cons.prems(9) by (auto simp: g)
  have Aq: "A q = None" using Cons.prems(6) by auto
  have parts: "fbytes h = fbytes k \<or> fbytes h \<inter> fbytes k = {}" if "(k, kinfo) \<in> set gs0" for k kinfo
  proof -
    have "(h, hinfo) \<in> set (gs0 @ (g # gs) @ [(f, info)])" "(k, kinfo) \<in> set (gs0 @ (g # gs) @ [(f, info)])"
      using that by (simp_all add: g)
    with Cons.prems(1) show ?thesis unfolding pieces_def by blast
  qed
  have "fbytes h \<subseteq> union_bytes gs0 \<or> fbytes h \<inter> union_bytes gs0 = {}"
  proof (cases "\<exists>(k, kinfo)\<in>set gs0. fbytes h = fbytes k")
    case True
    then show ?thesis by (auto simp: union_bytes_def)
  next
    case False
    with parts have "fbytes h \<inter> fbytes k = {}" if "(k, kinfo) \<in> set gs0" for k kinfo
      using that by blast
    then show ?thesis unfolding union_bytes_def by blast
  qed
  then have "whole (abs_defrag d) h hinfo"
    using Cons.prems(5) Aq f(2) by (simp add: whole_def)
  moreover have "room d hinfo" using roomy_room [OF Cons.prems(2)] Cons.prems(3) f(2) by simp
  ultimately have st: "abs_step (abs_defrag d) h hinfo res (abs_defrag d')"
    using r(2) by (simp add: defrag_step_def)
  have B: "(case abs_defrag d q of None \<Rightarrow> {} | Some b \<Rightarrow> b) \<union> fbytes h = union_bytes (gs0 @ [g])"
    using Cons.prems(5) Aq by (auto simp: union_bytes_def g)
  have fv: "rd_min f < rd_maxp1 f" "rd_maxp1 f \<le> sz"
    using Cons.prems(1) by (auto simp: pieces_def valid_frag_def)
  have "union_bytes (gs0 @ [g]) \<noteq> {0..<sz}"
  proof
    assume u: "union_bytes (gs0 @ [g]) = {0..<sz}"
    have "union_bytes (gs0 @ [g]) \<subseteq> union_bytes (gs0 @ g # gs)" by (auto simp: union_bytes_def)
    moreover have "rd_min f \<in> fbytes f" "rd_min f \<in> {0..<sz}" using fv by auto
    ultimately show False using u Cons.prems(7) by blast
  qed
  with st B f(2,3) have res: "res = None" "abs_defrag d' = (abs_defrag d)(q \<mapsto> union_bytes (gs0 @ [g]))"
    by (auto simp: abs_step_def)
  have d': "defrag_ok d' R'" "sizes d' \<subseteq> insert (q, sz) (sizes d)" "df_max_samples d' = df_max_samples d"
    using r(2) f(2,3) by (auto simp: defrag_step_def defrag_post_def)
  have "roomy d' q" using Cons.prems(3) res(2) d'(3) by (simp add: roomy_def)
  moreover have "\<forall>(p, z)\<in>sizes d'. p = q \<longrightarrow> z = sz" using d'(2) Cons.prems(4) by auto
  moreover have "abs_defrag d' = (if gs0 @ [g] = [] then A else A(q \<mapsto> union_bytes (gs0 @ [g])))"
    using res(2) Cons.prems(5) by (auto simp: fun_eq_iff)
  moreover have "\<forall>(k, _)\<in>set (gs @ [(f, info)]). receiving d' R' (Suc (length gs)) (rd_rmsg k)"
  proof -
    have c: "conserved d R [] d' R'" using r(2) res(1) by (simp add: defrag_step_def defrag_post_def outfrags_def)
    have "R' m + Suc (length gs) * BIAS \<le> R m + Suc (length (g # gs)) * BIAS" for m
      using nn_defrag_rsample_le [OF r(1), of m] by (auto split: if_splits)
    then show ?thesis using Cons.prems(9) receiving_conserved [OF _ c] by fastforce
  qed
  ultimately obtain rs d'' R'' where
    "feed d' R' (gs @ [(f, info)]) = Some (replicate (length gs) None @ [Some rs], d'', R'')"
    "defrag_ok d'' R''" "delivered f info rs" "abs_defrag d'' = A"
    using Cons.IH [of "gs0 @ [g]" d' R'] Cons.prems(1,6,7,8) d'(1) by auto
  with r(1) res(1) show ?case by (auto simp: g)
qed

section \<open>Gaps, pruning and release\<close>

text \<open>Samples have been dropped, and nothing else has happened; \<open>max_sample\<close> is stale.\<close>

definition shed :: "nn_defrag \<Rightarrow> refs \<Rightarrow> nn_rsample_defrag list \<Rightarrow> nn_defrag \<Rightarrow> refs \<Rightarrow> bool" where
  "shed d R ss d' R' \<longleftrightarrow> defrag_core d' R' \<and> samples_of d' = ss \<and> conserved d R [] d' R' \<and>
     df_max_samples d' = df_max_samples d \<and> df_n_samples d' \<le> df_n_samples d"

lemma shed_refl: "defrag_core d R \<Longrightarrow> shed d R (samples_of d) d R"
  by (simp add: shed_def conserved_refl)

lemma shed_trans: "shed d R ss d' R' \<Longrightarrow> shed d' R' ts d'' R'' \<Longrightarrow> shed d R ts d'' R''"
  using conserved_trans by (auto simp: shed_def intro: order_trans)

lemma drop_shed:
  assumes "defrag_core d R" "samples_of d = xs @ s # ys"
  shows "\<exists>d' R'. defrag_rsample_drop d R s = Some (d', R') \<and> shed d R (xs @ ys) d' R'"
proof -
  obtain t R' where t: "defrag_rsample_drop d R s =
      Some (d\<lparr>sampletree := t, df_n_samples := df_n_samples d - 1\<rparr>, R')" "inorder t = xs @ ys"
    "defrag_core (d\<lparr>sampletree := t, df_n_samples := df_n_samples d - 1\<rparr>) R'"
    "\<forall>m. R' m + held_in m (frags s) * BIAS = R m"
    using defrag_rsample_drop_spec [OF assms] by blast
  moreover have "conserved d R [] (d\<lparr>sampletree := t, df_n_samples := df_n_samples d - 1\<rparr>) R'"
    by (rule dropped_conserved [OF assms(2) _ t(4)]) (simp add: t(2))
  ultimately show ?thesis by (auto simp: shed_def)
qed

lemma shed_ok:
  assumes "defrag_ok d R" "shed d R ss d' R'"
  shows "defrag_ok (d'\<lparr>max_sample := max_key (sampletree d')\<rparr>) R'"
    and "conserved d R [] (d'\<lparr>max_sample := max_key (sampletree d')\<rparr>) R'"
  using assms by (auto simp: defrag_ok_def shed_def defrag_core_def conserved_def)

lemma notegap_loop_spec:
  assumes "defrag_core d R" "samples_of d = xs @ ys"
  shows "\<exists>d' R'. notegap_loop d R hi (hd_opt ys) = Some (d', R') \<and>
    shed d R (xs @ dropWhile (\<lambda>s. ds_seq s < hi) ys) d' R'"
  using assms
proof (induction ys arbitrary: d R)
  case Nil
  then show ?case using shed_refl [OF Nil.prems(1)] by (subst notegap_loop.simps) simp
next
  case (Cons y ys)
  show ?case
  proof (cases "ds_seq y < hi")
    case False
    then show ?thesis using Cons.prems shed_refl [OF Cons.prems(1)]
      by (subst notegap_loop.simps) simp
  next
    case True
    obtain d1 R1 where d1: "defrag_rsample_drop d R y = Some (d1, R1)" "shed d R (xs @ ys) d1 R1"
      using drop_shed [OF Cons.prems] by blast
    have "index_ok stree (sampletree d)" using Cons.prems(1) by (simp add: defrag_core_def)
    from samples.following_law [OF this Cons.prems(2)]
    have nxt: "find_succ stree (sampletree d) (Some y) = hd_opt ys" .
    have "defrag_core d1 R1" "samples_of d1 = xs @ ys" using d1(2) by (simp_all add: shed_def)
    from Cons.IH [OF this] obtain d2 R2 where d2: "notegap_loop d1 R1 hi (hd_opt ys) = Some (d2, R2)"
      "shed d1 R1 (xs @ dropWhile (\<lambda>s. ds_seq s < hi) ys) d2 R2" by blast
    have "notegap_loop d R hi (hd_opt (y # ys)) = Some (d2, R2)"
      using True d1(1) d2(1) nxt by (subst notegap_loop.simps) simp
    with True shed_trans [OF d1(2) d2(2)] show ?thesis by auto
  qed
qed

lemma prune_loop_spec:
  assumes "defrag_core d R" "samples_of d = xs @ ys"
  shows "\<exists>d' R'. prune_loop d R dst (hd_opt ys) = Some (d', R') \<and>
    shed d R (xs @ filter (\<lambda>s. si_dst (ds_sampleinfo s) \<noteq> dst) ys) d' R'"
  using assms
proof (induction ys arbitrary: d R xs)
  case Nil
  then show ?case using shed_refl [OF Nil.prems(1)] by (subst prune_loop.simps) simp
next
  case (Cons y ys)
  have "index_ok stree (sampletree d)" using Cons.prems(1) by (simp add: defrag_core_def)
  from samples.following_law [OF this Cons.prems(2)]
  have nxt: "find_succ stree (sampletree d) (Some y) = hd_opt ys" .
  show ?case
  proof (cases "si_dst (ds_sampleinfo y) = dst")
    case False
    have "samples_of d = (xs @ [y]) @ ys" using Cons.prems(2) by simp
    from Cons.IH [OF Cons.prems(1) this] obtain d2 R2 where d2: "prune_loop d R dst (hd_opt ys) = Some (d2, R2)"
      "shed d R ((xs @ [y]) @ filter (\<lambda>s. si_dst (ds_sampleinfo s) \<noteq> dst) ys) d2 R2" by blast
    have "prune_loop d R dst (hd_opt (y # ys)) = Some (d2, R2)"
      using False d2(1) nxt by (subst prune_loop.simps) simp
    with False d2(2) show ?thesis by auto
  next
    case True
    obtain d1 R1 where d1: "defrag_rsample_drop d R y = Some (d1, R1)" "shed d R (xs @ ys) d1 R1"
      using drop_shed [OF Cons.prems] by blast
    have "defrag_core d1 R1" "samples_of d1 = xs @ ys" using d1(2) by (simp_all add: shed_def)
    from Cons.IH [OF this] obtain d2 R2 where d2: "prune_loop d1 R1 dst (hd_opt ys) = Some (d2, R2)"
      "shed d1 R1 (xs @ filter (\<lambda>s. si_dst (ds_sampleinfo s) \<noteq> dst) ys) d2 R2" by blast
    have "prune_loop d R dst (hd_opt (y # ys)) = Some (d2, R2)"
      using True d1(1) d2(1) nxt by (subst prune_loop.simps) simp
    with True shed_trans [OF d1(2) d2(2)] show ?thesis by auto
  qed
qed

lemma free_spec:
  assumes "defrag_core d R"
  shows "\<exists>d' R'. nn_defrag_free d R = Some (d', R') \<and> shed d R [] d' R'"
  using assms
proof (induction "samples_of d" arbitrary: d R)
  case Nil
  then have "find_min (sampletree d) = None" "df_n_samples d = 0"
    by (simp_all add: find_min_inorder defrag_core_def)
  then have "nn_defrag_free d R = Some (d, R)" by (subst nn_defrag_free.simps) simp
  then show ?case using shed_refl [OF Nil.prems] Nil.hyps by auto
next
  case (Cons s ss)
  have e: "samples_of d = [] @ s # ss" using Cons.hyps(2) by simp
  obtain d1 R1 where d1: "defrag_rsample_drop d R s = Some (d1, R1)" "shed d R ss d1 R1"
    using drop_shed [OF Cons.prems e] by auto
  have "ss = samples_of d1" "defrag_core d1 R1" using d1(2) by (simp_all add: shed_def)
  from Cons.hyps(1) [OF this] obtain d2 R2 where d2: "nn_defrag_free d1 R1 = Some (d2, R2)"
    "shed d1 R1 [] d2 R2" by blast
  have "find_min (sampletree d) = Some s" using e by (simp add: find_min_inorder)
  then have "nn_defrag_free d R = Some (d2, R2)"
    using d1(1) d2(1) by (subst nn_defrag_free.simps) simp
  with shed_trans [OF d1(2) d2(2)] show ?case by blast
qed

text \<open>Where the walks start: the samples from \<open>lo\<close> on.\<close>

lemma start_split:
  assumes "index_ok stree t"
  obtains xs ys where "inorder t = xs @ ys" "\<forall>x\<in>set xs. ds_seq x < lo" "\<forall>y\<in>set ys. lo \<le> ds_seq y"
    "lookup_succ_eq stree t lo = hd_opt ys"
proof (cases "lookup_succ_eq stree t lo")
  case None
  then have "\<forall>x\<in>set (inorder t). ds_seq x < lo" using samples.succ_eq_None [OF assms] by simp
  with None that [of "inorder t" "[]"] show ?thesis by simp
next
  case (Some p)
  from samples.succ_eq_split [OF assms Some] obtain xs ys where
    e: "inorder t = xs @ p # ys" "lo \<le> ds_seq p" "\<forall>x\<in>set xs. ds_seq x < lo" by auto
  have "\<forall>y\<in>set (p # ys). lo \<le> ds_seq y"
    using samples.split_keys(2) [OF assms e(1)] e(2) by (auto intro: order_trans less_imp_le)
  with e Some that [of xs "p # ys"] show ?thesis by simp
qed

lemma abs_filter:
  assumes "index_ok stree (sampletree d)" "samples_of d' = filter P (samples_of d)"
  shows "abs_defrag d' = abs_defrag d |` {q. \<exists>s\<in>set (samples_of d). ds_seq s = q \<and> P s}"
proof
  fix q
  have idx: "sorted_by ds_seq (samples_of d)" using samples.ok_sorted [OF assms(1)] by simp
  let ?f = "\<lambda>ss. map_of (map (\<lambda>s. (ds_seq s, bytes s)) ss)"
  have "?f (filter P ss) q = (?f ss |` {q. \<exists>s\<in>set ss. ds_seq s = q \<and> P s}) q" if "sorted_by ds_seq ss" for ss
    using that
  proof (induction ss)
    case (Cons s ss)
    then have n: "ds_seq s \<notin> ds_seq ` set ss" by auto
    then have "?f ss (ds_seq s) = None" by (simp add: map_of_eq_None_iff image_comp comp_def)
    with Cons n show ?case by (auto simp: restrict_map_def map_of_eq_None_iff split: if_splits)
  qed simp
  from this [OF idx] assms(2) show "abs_defrag d' q = (abs_defrag d |` {q. \<exists>s\<in>set (samples_of d). ds_seq s = q \<and> P s}) q"
    by (simp add: abs_defrag_def)
qed

end
