(* ===== verification/Defrag_Nackmap.thy ===== *)
theory Defrag_Nackmap
  imports Defrag
begin

text \<open>
  The request for missing fragments, \<open>nn_defrag_nackmap\<close>: which fragments of a sample have not
  been received, as a bit set that starts at the first missing one.
\<close>

section \<open>Model\<close>

text \<open>Arithmetic on uint32.\<close>

definition u32 :: "nat \<Rightarrow> nat" where
  "u32 x = x mod 2 ^ 32"

definition sub32 :: "nat \<Rightarrow> nat \<Rightarrow> nat" where
  "sub32 x y = (x + 2 ^ 32 - y) mod 2 ^ 32"

definition UINT32_MAX :: nat where
  "UINT32_MAX = 2 ^ 32 - 1"

datatype nn_defrag_nackmap_result =
  DEFRAG_NACKMAP_UNKNOWN_SAMPLE
| DEFRAG_NACKMAP_ALL_ADVERTISED_FRAGMENTS_KNOWN
| DEFRAG_NACKMAP_FRAGMENTS_MISSING

record nn_fragment_number_set_header =
  bitmap_base :: nat
  numbits :: nat

text \<open>\<open>for (; i < bitmap_base + numbits \<and> i < bound; i++) nn_bitset_set (...)\<close>\<close>

function set_loop ::
  "nn_fragment_number_set_header \<Rightarrow> 32 word list \<Rightarrow> nat \<Rightarrow> nat \<Rightarrow> (32 word list \<times> nat) option" where
  "set_loop hdr bits i bound =
     (if i < bitmap_base hdr + numbits hdr \<and> i < bound then do {
        bits' \<leftarrow> nn_bitset_set (numbits hdr) bits (sub32 i (bitmap_base hdr));
        set_loop hdr bits' (i + 1) bound }
      else Some (bits, i))"
  by pat_completeness auto
termination
  by (relation "measure (\<lambda>(hdr, bits, i, bound). bitmap_base hdr + numbits hdr - i)") auto

declare set_loop.simps [simp del]

definition iv_bound :: "nat \<Rightarrow> nn_defrag_iv \<Rightarrow> nat" where
  "iv_bound fragsz iv = iv_min iv div fragsz + (if iv_min iv mod fragsz \<noteq> 0 then 1 else 0)"

text \<open>\<open>while (iv \<and> i < bitmap_base + numbits) ...\<close>\<close>

partial_function (option) iv_loop ::
  "nn_defrag_iv avl \<Rightarrow> nat \<Rightarrow> nn_fragment_number_set_header \<Rightarrow> 32 word list \<Rightarrow> nat \<Rightarrow>
   nn_defrag_iv option \<Rightarrow> (32 word list \<times> nat) option" where
  "iv_loop t fragsz hdr bits i iv =
     (if iv \<noteq> None \<and> i < bitmap_base hdr + numbits hdr then do {
        (bits', _) \<leftarrow> set_loop hdr bits i (iv_bound fragsz (the iv));
        iv_loop t fragsz hdr bits' (iv_maxp1 (the iv) div fragsz) (find_succ ftree t iv) }
      else Some (bits, i))"

declare iv_loop.simps [code]

definition nn_defrag_nackmap ::
  "nn_defrag \<Rightarrow> seqno \<Rightarrow> nat \<Rightarrow> nn_fragment_number_set_header \<Rightarrow> 32 word list \<Rightarrow> nat \<Rightarrow>
   (nn_defrag_nackmap_result \<times> nn_fragment_number_set_header \<times> 32 word list) option" where
  "nn_defrag_nackmap d seq maxfragnum hdr mapbits maxsz = do {
     _ \<leftarrow> assertion (maxsz \<le> 256);
     case lookup stree (sampletree d) seq of
       None \<Rightarrow>
         if maxfragnum = UINT32_MAX then Some (DEFRAG_NACKMAP_UNKNOWN_SAMPLE, hdr, mapbits)
         else do {
           let n = (if maxsz < maxfragnum + 1 then maxsz else maxfragnum + 1);
           bits \<leftarrow> nn_bitset_one n mapbits;
           Some (DEFRAG_NACKMAP_FRAGMENTS_MISSING, \<lparr>bitmap_base = 0, numbits = n\<rparr>, bits) }
     | Some s \<Rightarrow> do {
         let fragsz = si_fragsize (ds_sampleinfo s);
         let size = si_size (ds_sampleinfo s);
         _ \<leftarrow> assertion (fragsz \<noteq> 0);
         let nfrags = u32 (size + fragsz - 1) div fragsz;
         let maxfrag = (if nfrags \<le> maxfragnum then sub32 nfrags 1 else maxfragnum);
         l \<leftarrow> lastfrag s;
         liv \<leftarrow> lookup ftree (fragtree s) l;
         iv \<leftarrow> find_min (fragtree s);
         let base = iv_maxp1 iv div fragsz;
         let map_end =
           (if iv_maxp1 liv < u32 ((maxfrag + 1) * fragsz) \<and> iv_maxp1 liv < size then maxfrag
            else if 0 < iv_min liv then (iv_min liv - 1) div fragsz
            else 0);
         if map_end < base then
           Some (DEFRAG_NACKMAP_ALL_ADVERTISED_FRAGMENTS_KNOWN, hdr\<lparr>bitmap_base := base\<rparr>, mapbits)
         else do {
           let n0 = u32 (map_end - base + 1);
           let n = (if maxsz < n0 then maxsz else n0);
           let hdr' = \<lparr>bitmap_base = base, numbits = n\<rparr>;
           bits0 \<leftarrow> nn_bitset_zero n mapbits;
           (bits1, i) \<leftarrow> iv_loop (fragtree s) fragsz hdr' bits0 base (find_succ ftree (fragtree s) (Some iv));
           (bits2, _) \<leftarrow> set_loop hdr' bits1 i (base + n);
           Some (DEFRAG_NACKMAP_FRAGMENTS_MISSING, hdr', bits2) } } }"

section \<open>The fragments of a sample\<close>

text \<open>The bytes of fragment \<open>k\<close>, and a sample that has received just the fragments \<open>K\<close>.\<close>

definition cell :: "nat \<Rightarrow> nat \<Rightarrow> nat \<Rightarrow> nat set" where
  "cell fragsz sz k = {k * fragsz..<min ((k + 1) * fragsz) sz}"

definition received :: "nn_rsample_defrag \<Rightarrow> nat set \<Rightarrow> bool" where
  "received s K \<longleftrightarrow> (let fs = si_fragsize (ds_sampleinfo s) in
     0 < fs \<and> ds_size s + fs < 2 ^ 32 \<and> (\<forall>k\<in>K. k * fs < ds_size s) \<and>
     bytes s = (\<Union>k\<in>K. cell fs (ds_size s) k))"

lemma mem_cell: "0 < fs \<Longrightarrow> x \<in> cell fs sz k \<longleftrightarrow> k = x div fs \<and> x < sz"
proof -
  assume "0 < fs"
  then have "k * fs \<le> x \<and> x < (k + 1) * fs \<longleftrightarrow> k = x div fs"
    by (metis Suc_eq_plus1 div_less_iff_less_mult less_Suc_eq_le less_eq_div_iff_mult_less_eq order_antisym order_refl)
  then show ?thesis by (auto simp: cell_def)
qed

lemma received_mem:
  assumes "received s K"
  shows "x \<in> bytes s \<longleftrightarrow> x < ds_size s \<and> x div si_fragsize (ds_sampleinfo s) \<in> K"
  using assms by (auto simp: received_def Let_def mem_cell)

text \<open>Interval bounds lie on the grid.\<close>

lemma gap_after:
  assumes ok: "frag_ok s" and e: "intervals s = xs @ p # ys"
  shows "iv_maxp1 p \<notin> bytes s" "0 < iv_min p \<Longrightarrow> iv_min p - 1 \<notin> bytes s"
    "\<forall>y. hd_opt ys = Some y \<longrightarrow> (\<forall>x. iv_maxp1 p \<le> x \<and> x < iv_min y \<longrightarrow> x \<notin> bytes s)"
proof -
  note sp = split_ok [OF ok e]
  have le: "iv_min p \<le> iv_maxp1 p" using iv_ok_le [OF sp(3)] by simp
  have xs: "x \<notin> ivbytes xs" if "iv_min p - 1 \<le> x" "0 < iv_min p" for x
    using sp(2) that by (fastforce simp: ivbytes_def)
  have xs0: "ivbytes xs = {}" if "iv_min p = 0"
  proof -
    have "xs = []" using sp(2) that by (cases xs) auto
    then show ?thesis by simp
  qed
  have ys: "x \<notin> ivbytes ys" if "x \<le> iv_maxp1 p" for x
    using sp(5) that by (fastforce simp: ivbytes_def)
  show "iv_maxp1 p \<notin> bytes s"
    unfolding bytes_split [OF e] using xs [of "iv_maxp1 p"] xs0 ys [of "iv_maxp1 p"] le
    by (cases "iv_min p = 0") auto
  show "0 < iv_min p \<Longrightarrow> iv_min p - 1 \<notin> bytes s"
    unfolding bytes_split [OF e] using xs [of "iv_min p - 1"] ys [of "iv_min p - 1"] le by auto
  show "\<forall>y. hd_opt ys = Some y \<longrightarrow> (\<forall>x. iv_maxp1 p \<le> x \<and> x < iv_min y \<longrightarrow> x \<notin> bytes s)"
  proof (intro allI impI)
    fix y x assume y: "hd_opt ys = Some y" and x: "iv_maxp1 p \<le> x \<and> x < iv_min y"
    then obtain zs where zs: "ys = y # zs" by (auto simp: hd_opt_Some)
    have "iv_min y \<le> iv_min j" if "j \<in> set ys" for j
      using sp(4,5) zs that by (force simp: less_imp_le)
    then have "x \<notin> ivbytes ys" using x by (fastforce simp: ivbytes_def)
    moreover have "iv_min p - 1 \<le> x" using x le by linarith
    then have "x \<notin> ivbytes xs" using xs [of x] xs0 by (cases "iv_min p = 0") auto
    moreover have "\<not> x < iv_maxp1 p" using x by simp
    ultimately show "x \<notin> bytes s" unfolding bytes_split [OF e] by simp
  qed
qed

lemma grid:
  assumes ok: "frag_ok s" and rec: "received s K" and iv: "iv \<in> set (intervals s)"
  defines "fs \<equiv> si_fragsize (ds_sampleinfo s)"
  shows "fs dvd iv_min iv" "fs dvd iv_maxp1 iv \<or> iv_maxp1 iv = ds_size s"
proof -
  obtain xs ys where e: "intervals s = xs @ iv # ys" using iv by (meson split_list)
  note sp = split_ok [OF ok e] and gap = gap_after [OF ok e]
  have le: "iv_min iv \<le> iv_maxp1 iv" "iv_maxp1 iv \<le> ds_size s" using iv_ok_le [OF sp(3)] by auto
  have inside: "x \<in> bytes s" if "iv_min iv \<le> x" "x < iv_maxp1 iv" for x
    using that e by (auto simp: bytes_def)
  have fs: "0 < fs" using rec by (simp add: received_def fs_def Let_def)
  have same: "(x - 1) div fs = x div fs" if d: "\<not> fs dvd x" and p: "0 < x" for x
  proof -
    obtain y where y: "x = Suc y" using p gr0_implies_Suc by blast
    with d show ?thesis by (simp add: dvd_eq_mod_eq_0 div_Suc)
  qed
  note mem = received_mem [OF rec, folded fs_def]
  show "fs dvd iv_min iv"
  proof (rule ccontr)
    assume n: "\<not> fs dvd iv_min iv"
    then have pos: "0 < iv_min iv" using gr0I by fastforce
    then have "iv_min iv < iv_maxp1 iv" using iv_ok_pos [OF sp(3)] by simp
    then have "iv_min iv \<in> bytes s" using inside by simp
    then have "iv_min iv - 1 \<in> bytes s"
      unfolding mem same [OF n pos] by (simp add: less_imp_diff_less)
    with gap(2) pos show False by simp
  qed
  show "fs dvd iv_maxp1 iv \<or> iv_maxp1 iv = ds_size s"
  proof (rule ccontr)
    assume n: "\<not> (fs dvd iv_maxp1 iv \<or> iv_maxp1 iv = ds_size s)"
    then have nd: "\<not> fs dvd iv_maxp1 iv" and lt: "iv_maxp1 iv < ds_size s" using le(2) by auto
    then have pos: "0 < iv_maxp1 iv" using gr0I by fastforce
    have ne: "iv_min iv < iv_maxp1 iv"
      using sp(3) pos by (auto simp: iv_ok_def split: if_splits)
    then have "iv_maxp1 iv - 1 \<in> bytes s" using inside [of "iv_maxp1 iv - 1"] by simp
    then have "iv_maxp1 iv \<in> bytes s"
      unfolding mem same [OF nd pos] using lt by simp
    with gap(1) show False by simp
  qed
qed

section \<open>The loops\<close>

lemma sub32_small: "y \<le> x \<Longrightarrow> x < 2 ^ 32 \<Longrightarrow> sub32 x y = x - y"
proof -
  assume a: "y \<le> x" "x < 2 ^ 32"
  then have "x + 2 ^ 32 - y = (x - y) + 2 ^ 32" by simp
  then have "sub32 x y = ((x - y) + 2 ^ 32) mod 2 ^ 32" unfolding sub32_def by (rule arg_cong)
  also have "\<dots> = (x - y) mod 2 ^ 32" by (rule mod_add_self2)
  also have "\<dots> = x - y" using a(2) by (intro mod_less) linarith
  finally show ?thesis .
qed

lemma set_loop_spec:
  assumes "numbits hdr \<le> 32 * length bits" "bitmap_base hdr \<le> i" "bitmap_base hdr + numbits hdr < 2 ^ 32"
  shows "\<exists>bits'. set_loop hdr bits i bound = Some (bits', max i (min bound (bitmap_base hdr + numbits hdr))) \<and>
    length bits' = length bits \<and>
    (\<forall>j<numbits hdr. isset bits' j \<longleftrightarrow>
       isset bits j \<or> i \<le> bitmap_base hdr + j \<and> bitmap_base hdr + j < bound)"
  using assms
proof (induction hdr bits i bound rule: set_loop.induct)
  case (1 hdr bits i bound)
  show ?case
  proof (cases "i < bitmap_base hdr + numbits hdr \<and> i < bound")
    case False
    then have "set_loop hdr bits i bound = Some (bits, i)" by (subst set_loop.simps) auto
    with False show ?thesis by auto
  next
    case True
    let ?x = "i - bitmap_base hdr"
    have x: "sub32 i (bitmap_base hdr) = ?x" "?x < numbits hdr"
      using True 1(3,4) sub32_small [of "bitmap_base hdr" i] by auto
    obtain b where b: "nn_bitset_set (numbits hdr) bits ?x = Some b" "length b = length bits"
      "\<forall>j. isset b j \<longleftrightarrow> j = ?x \<or> isset bits j"
      using nn_bitset_set_spec [OF x(2) 1(2)] by blast
    obtain b' where b': "set_loop hdr b (i + 1) bound =
        Some (b', max (i + 1) (min bound (bitmap_base hdr + numbits hdr)))" "length b' = length b"
      "\<forall>j<numbits hdr. isset b' j \<longleftrightarrow> isset b j \<or> i + 1 \<le> bitmap_base hdr + j \<and> bitmap_base hdr + j < bound"
    proof -
      have "numbits hdr \<le> 32 * length b" "bitmap_base hdr \<le> i + 1" using 1(2,3) b(2) by simp_all
      from 1(1) [OF True b(1) [folded x(1)] this 1(4)] that show thesis by blast
    qed
    have "set_loop hdr bits i bound = Some (b', max i (min bound (bitmap_base hdr + numbits hdr)))"
      using True b'(1) b(1) by (subst set_loop.simps) (simp add: x(1))
    moreover have "isset b' j \<longleftrightarrow> isset bits j \<or> i \<le> bitmap_base hdr + j \<and> bitmap_base hdr + j < bound"
      if "j < numbits hdr" for j
      using b'(3) b(3) that True 1(3) by (cases "j = ?x") auto
    ultimately show ?thesis using b'(2) b(2) by auto
  qed
qed

lemma cell_K:
  assumes rec: "received s K" and k: "k * si_fragsize (ds_sampleinfo s) < ds_size s"
  shows "k \<in> K \<longleftrightarrow> k * si_fragsize (ds_sampleinfo s) \<in> bytes s"
  using received_mem [OF rec] k rec by (simp add: received_def Let_def)

lemma K_small: "received s K \<Longrightarrow> k \<in> K \<Longrightarrow> k * si_fragsize (ds_sampleinfo s) < ds_size s"
  by (simp add: received_def Let_def)

text \<open>The bits below \<open>i\<close> are right and those from \<open>i\<close> on are clear.\<close>

definition upto_i :: "nn_fragment_number_set_header \<Rightarrow> 32 word list \<Rightarrow> nat \<Rightarrow> nat set \<Rightarrow> bool" where
  "upto_i hdr bits i K \<longleftrightarrow> numbits hdr \<le> 32 * length bits \<and>
     (\<forall>j<numbits hdr. isset bits j \<longleftrightarrow> bitmap_base hdr + j < i \<and> bitmap_base hdr + j \<notin> K)"

text \<open>Up to the next interval everything is missing, and then everything is there.\<close>

lemma interval_cells:
  assumes ok: "frag_ok s" and rec: "received s K" and e: "intervals s = xs @ p # y # ys"
  defines "fs \<equiv> si_fragsize (ds_sampleinfo s)"
  shows "iv_bound fs y = iv_min y div fs" "iv_maxp1 p div fs \<le> iv_min y div fs"
    "iv_min y div fs \<le> iv_maxp1 y div fs"
    "\<And>k. iv_maxp1 p div fs \<le> k \<Longrightarrow> k < iv_min y div fs \<Longrightarrow> k \<notin> K"
    "\<And>k. iv_min y div fs \<le> k \<Longrightarrow> k < iv_maxp1 y div fs \<Longrightarrow> k \<in> K"
proof -
  have fs: "0 < fs" using rec by (simp add: received_def fs_def Let_def)
  have mem: "p \<in> set (intervals s)" "y \<in> set (intervals s)" using e by auto
  note sp = split_ok [OF ok e]
  have lt: "iv_maxp1 p < iv_min y" "iv_min y < iv_maxp1 y" "iv_maxp1 y \<le> ds_size s"
    using sp(5) iv_ok_le [of "ds_size s" y] by auto
  have dv: "fs dvd iv_min y" "fs dvd iv_maxp1 p"
    using grid [OF ok rec mem(2)] grid(2) [OF ok rec mem(1)] lt by (auto simp: fs_def)
  show "iv_bound fs y = iv_min y div fs" using dv(1) by (simp add: iv_bound_def dvd_eq_mod_eq_0)
  show "iv_maxp1 p div fs \<le> iv_min y div fs" "iv_min y div fs \<le> iv_maxp1 y div fs"
    using lt by (simp_all add: div_le_mono)
  fix k
  show "k \<notin> K" if a: "iv_maxp1 p div fs \<le> k" and b: "k < iv_min y div fs"
  proof -
    have "iv_maxp1 p \<le> k * fs" using a dv(2) fs by (metis dvd_div_mult_self mult_le_mono1)
    moreover have "(k + 1) * fs \<le> iv_min y"
      using b fs by (metis Suc_eq_plus1 Suc_leI div_times_less_eq_dividend mult_le_mono1 order_trans)
    then have k: "k * fs < iv_min y" using fs by simp
    ultimately have "k * fs \<notin> bytes s" using gap_after(3) [OF ok e] by simp
    with cell_K [OF rec, of k] k lt show ?thesis by (simp add: fs_def)
  qed
  show "k \<in> K" if a: "iv_min y div fs \<le> k" and b: "k < iv_maxp1 y div fs"
  proof -
    have "iv_min y \<le> k * fs" using a dv(1) fs by (metis dvd_div_mult_self mult_le_mono1)
    moreover have "(k + 1) * fs \<le> iv_maxp1 y"
      using b fs by (metis Suc_eq_plus1 Suc_leI div_times_less_eq_dividend mult_le_mono1 order_trans)
    then have k: "k * fs < iv_maxp1 y" using fs by simp
    ultimately have "k * fs \<in> bytes s" using mem(2) by (auto simp: bytes_def ivbytes_def)
    with cell_K [OF rec, of k] k lt show ?thesis by (simp add: fs_def)
  qed
qed

lemma iv_loop_spec:
  assumes ok: "frag_ok s" and rec: "received s K" and "intervals s = xs @ p # ys"
    and "i = iv_maxp1 p div si_fragsize (ds_sampleinfo s)" "upto_i hdr bits i K"
    and "bitmap_base hdr \<le> i" "bitmap_base hdr + numbits hdr < 2 ^ 32"
  shows "\<exists>bits' i'. iv_loop (fragtree s) (si_fragsize (ds_sampleinfo s)) hdr bits i (hd_opt ys) = Some (bits', i') \<and>
    upto_i hdr bits' i' K \<and> bitmap_base hdr \<le> i' \<and>
    (bitmap_base hdr + numbits hdr \<le> i' \<or>
     i' = iv_maxp1 (last (p # ys)) div si_fragsize (ds_sampleinfo s))"
  using assms(3-)
proof (induction ys arbitrary: xs p bits i)
  case Nil
  then show ?case by (subst iv_loop.simps) simp
next
  case (Cons y ys)
  let ?fs = "si_fragsize (ds_sampleinfo s)"
  let ?fin = "bitmap_base hdr + numbits hdr"
  note c = interval_cells [OF ok rec Cons.prems(1)]
  show ?case
  proof (cases "i < ?fin")
    case False
    then show ?thesis using Cons.prems by (subst iv_loop.simps) auto
  next
    case True
    have len: "numbits hdr \<le> 32 * length bits" using Cons.prems(3) by (simp add: upto_i_def)
    obtain b where b: "set_loop hdr bits i (iv_bound ?fs y) = Some (b, max i (min (iv_bound ?fs y) ?fin))"
      "length b = length bits" "\<forall>j<numbits hdr. isset b j \<longleftrightarrow>
       isset bits j \<or> i \<le> bitmap_base hdr + j \<and> bitmap_base hdr + j < iv_bound ?fs y"
      using set_loop_spec [OF len Cons.prems(4,5)] by blast
    let ?i = "iv_maxp1 y div ?fs"
    have le: "i \<le> iv_min y div ?fs" "i \<le> ?i" using c(2,3) Cons.prems(2) by simp_all
    have up: "upto_i hdr b ?i K"
    proof -
      have "isset b j \<longleftrightarrow> bitmap_base hdr + j < ?i \<and> bitmap_base hdr + j \<notin> K" if j: "j < numbits hdr" for j
      proof -
        let ?k = "bitmap_base hdr + j"
        have bits: "isset bits j \<longleftrightarrow> ?k < i \<and> ?k \<notin> K" using Cons.prems(3) j by (simp add: upto_i_def)
        have b': "isset b j \<longleftrightarrow> isset bits j \<or> i \<le> ?k \<and> ?k < iv_min y div ?fs"
          using b(3) j c(1) by simp
        consider "?k < i" | "i \<le> ?k" "?k < iv_min y div ?fs" | "iv_min y div ?fs \<le> ?k" "?k < ?i" | "?i \<le> ?k"
          by linarith
        then show ?thesis
        proof cases
          case 2
          then show ?thesis using bits b' c(3) c(4) [of ?k] Cons.prems(2) by auto
        next
          case 3
          then show ?thesis using bits b' c(5) [of ?k] by auto
        qed (use bits b' le c(3) in auto)
      qed
      with len b(2) show ?thesis by (simp add: upto_i_def)
    qed
    have "intervals s = (xs @ [p]) @ y # ys" using Cons.prems(1) by simp
    from Cons.IH [OF this refl up _ Cons.prems(5)] le Cons.prems(4)
    obtain b' i' where r: "iv_loop (fragtree s) ?fs hdr b ?i (hd_opt ys) = Some (b', i')"
      "upto_i hdr b' i' K" "bitmap_base hdr \<le> i'"
      "?fin \<le> i' \<or> i' = iv_maxp1 (last (y # ys)) div ?fs" by auto
    have nxt: "find_succ ftree (fragtree s) (Some y) = hd_opt ys"
      using ivs.following_law [OF frag_okD(1) [OF ok] \<open>intervals s = (xs @ [p]) @ y # ys\<close>] .
    have "iv_loop (fragtree s) ?fs hdr bits i (hd_opt (y # ys)) = Some (b', i')"
      using True b(1) r(1) nxt by (subst iv_loop.simps) simp
    with r(2-4) show ?thesis by simp
  qed
qed

section \<open>Correctness\<close>

text \<open>The extreme intervals of an incomplete sample, in units of fragments.\<close>

lemma first_cells:
  assumes ok: "frag_ok s" and rec: "received s K" and nc: "\<not> complete s"
    and e: "intervals s = p # ys"
  defines "fs \<equiv> si_fragsize (ds_sampleinfo s)"
  shows "\<forall>k<iv_maxp1 p div fs. k \<in> K" "iv_maxp1 p div fs \<notin> K" "fs dvd iv_maxp1 p" "iv_maxp1 p < ds_size s"
proof -
  have fs: "0 < fs" using rec by (simp add: received_def fs_def Let_def)
  have e': "intervals s = [] @ p # ys" using e by simp
  note sp = split_ok [OF ok e']
  have m: "iv_min p = 0" using sp(6) by simp
  show lt: "iv_maxp1 p < ds_size s"
  proof (rule ccontr)
    assume "\<not> iv_maxp1 p < ds_size s"
    then have "iv_maxp1 p = ds_size s" using iv_ok_le [OF sp(3)] by simp
    moreover from this have "ys = []" using sp(5) iv_ok_le by (cases ys) fastforce+
    ultimately show False using nc e by (simp add: complete_def)
  qed
  have dv: "fs dvd iv_maxp1 p" using grid(2) [OF ok rec, of p] e lt by (auto simp: fs_def)
  then show "fs dvd iv_maxp1 p" .
  then have eq: "iv_maxp1 p div fs * fs = iv_maxp1 p" by simp
  show "iv_maxp1 p div fs \<notin> K"
    using gap_after(1) [OF ok e'] cell_K [OF rec, of "iv_maxp1 p div fs"] eq lt by (simp add: fs_def)
  show "\<forall>k<iv_maxp1 p div fs. k \<in> K"
  proof (intro allI impI)
    fix k assume "k < iv_maxp1 p div fs"
    then have "k * fs < iv_maxp1 p" using fs eq by (metis mult_less_mono1)
    moreover from this have "k * fs \<in> bytes s" using e m by (auto simp: bytes_def)
    ultimately show "k \<in> K" using cell_K [OF rec, of k] lt by (simp add: fs_def)
  qed
qed

lemma last_cells:
  assumes ok: "frag_ok s" and rec: "received s K" and e: "intervals s = xs @ [p]"
  defines "fs \<equiv> si_fragsize (ds_sampleinfo s)"
  shows "fs dvd iv_min p"
    "\<And>k. iv_min p div fs \<le> k \<Longrightarrow> k * fs < iv_maxp1 p \<Longrightarrow> k \<in> K"
    "\<And>k. iv_maxp1 p < ds_size s \<Longrightarrow> iv_maxp1 p div fs \<le> k \<Longrightarrow> k \<notin> K"
proof -
  have fs: "0 < fs" using rec by (simp add: received_def fs_def Let_def)
  have mem: "p \<in> set (intervals s)" using e by simp
  note sp = split_ok [OF ok e]
  show dv: "fs dvd iv_min p" using grid(1) [OF ok rec mem] by (simp add: fs_def)
  fix k
  show "k \<in> K" if a: "iv_min p div fs \<le> k" and b: "k * fs < iv_maxp1 p"
  proof -
    have "iv_min p \<le> k * fs" using a dv by (metis dvd_div_mult_self mult_le_mono1)
    then have "k * fs \<in> bytes s" using b mem by (auto simp: bytes_def ivbytes_def)
    with cell_K [OF rec, of k] b iv_ok_le [OF sp(3)] show ?thesis by (simp add: fs_def)
  qed
  show "k \<notin> K" if lt: "iv_maxp1 p < ds_size s" and k: "iv_maxp1 p div fs \<le> k"
  proof
    assume "k \<in> K"
    then have sz: "k * fs < ds_size s" using K_small [OF rec] by (simp add: fs_def)
    have "fs dvd iv_maxp1 p" using grid(2) [OF ok rec mem] lt by (auto simp: fs_def)
    then have "iv_maxp1 p \<le> k * fs" using k by (metis dvd_div_mult_self mult_le_mono1)
    moreover have "x \<notin> ivbytes xs" if "iv_maxp1 p \<le> x" for x
      using sp(2) iv_ok_le [OF sp(3)] that by (fastforce simp: ivbytes_def)
    ultimately have "k * fs \<notin> bytes s" using bytes_split [of s xs p "[]"] e by auto
    with cell_K [OF rec, of k] sz \<open>k \<in> K\<close> show False by (simp add: fs_def)
  qed
qed

text \<open>The number of fragments, and the highest one the caller can be told about.\<close>

definition nfragments :: "nn_rsample_defrag \<Rightarrow> nat" where
  "nfragments s = (ds_size s + si_fragsize (ds_sampleinfo s) - 1) div si_fragsize (ds_sampleinfo s)"

definition nackmap_ok ::
  "nat set \<Rightarrow> nat \<Rightarrow> nat \<Rightarrow> nat \<Rightarrow>
   nn_defrag_nackmap_result \<times> nn_fragment_number_set_header \<times> 32 word list \<Rightarrow> bool" where
  "nackmap_ok K nf mx maxsz r \<longleftrightarrow> (case r of (res, hdr, bits) \<Rightarrow>
     (case res of
        DEFRAG_NACKMAP_UNKNOWN_SAMPLE \<Rightarrow> False
      | DEFRAG_NACKMAP_ALL_ADVERTISED_FRAGMENTS_KNOWN \<Rightarrow> \<forall>k\<le>mx. k \<in> K
      | DEFRAG_NACKMAP_FRAGMENTS_MISSING \<Rightarrow>
          numbits hdr \<le> maxsz \<and> (0 < maxsz \<longrightarrow> 0 < numbits hdr) \<and> bitmap_base hdr + numbits hdr \<le> nf \<and>
          (\<forall>k<bitmap_base hdr. k \<in> K) \<and> bitmap_base hdr \<notin> K \<and>
          (\<forall>j<numbits hdr. isset bits j \<longleftrightarrow> bitmap_base hdr + j \<notin> K) \<and>
          (numbits hdr = maxsz \<or> (\<forall>k\<le>mx. bitmap_base hdr + numbits hdr \<le> k \<longrightarrow> k \<in> K))))"

lemma le_nfragments:
  assumes rec: "received s K"
  defines "fs \<equiv> si_fragsize (ds_sampleinfo s)"
  shows "k < nfragments s \<longleftrightarrow> k * fs < ds_size s" "nfragments s * fs < 2 ^ 32"
    "u32 (ds_size s + fs - 1) div fs = nfragments s" "nfragments s < 2 ^ 32"
proof -
  have fs: "0 < fs" and sz: "ds_size s + fs < 2 ^ 32" using rec by (simp_all add: received_def fs_def Let_def)
  have nf: "nfragments s = (ds_size s + fs - 1) div fs" by (simp add: nfragments_def fs_def)
  have "k < nfragments s \<longleftrightarrow> (k + 1) * fs \<le> ds_size s + fs - 1"
    unfolding nf using fs by (metis Suc_eq_plus1 Suc_le_eq less_eq_div_iff_mult_less_eq)
  also have "\<dots> \<longleftrightarrow> k * fs < ds_size s" using fs by auto
  finally show "k < nfragments s \<longleftrightarrow> k * fs < ds_size s" .
  have "nfragments s * fs \<le> ds_size s + fs - 1" unfolding nf by (rule div_times_less_eq_dividend)
  with sz show "nfragments s * fs < 2 ^ 32" by linarith
  then show "nfragments s < 2 ^ 32" using fs by (metis Suc_leI le_less_trans mult.right_neutral mult_le_mono2 One_nat_def)
  have "u32 (ds_size s + fs - 1) = ds_size s + fs - 1" unfolding u32_def using sz by (intro mod_less) linarith
  then show "u32 (ds_size s + fs - 1) div fs = nfragments s" by (simp add: nf)
qed

text \<open>The end of the bitmap is right: nothing advertised beyond it is missing.\<close>

lemma map_end_ok:
  assumes ok: "frag_ok s" and rec: "received s K" and nc: "\<not> complete s"
    and e: "intervals s = p # ys" and l: "liv = last (p # ys)" and mx: "mx < nfragments s"
  defines "fs \<equiv> si_fragsize (ds_sampleinfo s)"
  defines "map_end \<equiv> (if iv_maxp1 liv < (mx + 1) * fs \<and> iv_maxp1 liv < ds_size s then mx
            else if 0 < iv_min liv then (iv_min liv - 1) div fs else 0)"
  shows "map_end < nfragments s"
    and "map_end < iv_maxp1 p div fs \<Longrightarrow> k \<le> mx \<Longrightarrow> k \<in> K"
    and "iv_maxp1 p div fs \<le> map_end \<Longrightarrow> map_end < k \<Longrightarrow> k \<le> mx \<Longrightarrow> k \<in> K"
    and "iv_maxp1 liv = ds_size s \<Longrightarrow> map_end < iv_maxp1 liv div fs"
proof -
  have fs: "0 < fs" using rec by (simp add: received_def fs_def Let_def)
  note nf = le_nfragments [OF rec, folded fs_def]
  note fc = first_cells [OF ok rec nc e, folded fs_def]
  obtain xs where e': "intervals s = xs @ [liv]"
    using append_butlast_last_id [of "p # ys"] e l by (metis list.distinct(1))
  note lc = last_cells [OF ok rec e', folded fs_def]
  note sp = split_ok [OF ok e']
  have lle: "iv_min liv \<le> iv_maxp1 liv" "iv_maxp1 liv \<le> ds_size s" using iv_ok_le [OF sp(3)] by auto
  have sole: "liv = p" if "iv_min liv = 0"
    using sp(2) that e e' by (cases xs) auto
  have below: "(iv_min liv - 1) div fs + 1 = iv_min liv div fs" if pos: "0 < iv_min liv"
  proof -
    obtain y where y: "iv_min liv = Suc y" using pos gr0_implies_Suc by blast
    have "Suc y mod fs = 0" using lc(1) y by simp
    then show ?thesis unfolding y by (simp add: div_Suc)
  qed
  have pl: "iv_maxp1 p div fs < iv_min liv div fs" if "0 < iv_min liv"
  proof -
    have "liv \<noteq> p" using that split_ok(6) [OF ok, of "[]" p ys] e by auto
    then have "p \<in> set xs" using e e' by (cases xs) auto
    then have "iv_maxp1 p < iv_min liv" using sp(2) by simp
    moreover obtain a b where "iv_maxp1 p = fs * a" "iv_min liv = fs * b"
      using fc(3) lc(1) by (auto elim!: dvdE)
    ultimately show ?thesis using fs by simp
  qed
  have pos: "0 < ds_size s" using fc(4) by simp
  show "map_end < nfragments s"
  proof (cases "iv_maxp1 liv < (mx + 1) * fs \<and> iv_maxp1 liv < ds_size s")
    case False
    have "(iv_min liv - 1) div fs * fs < ds_size s" if "0 < iv_min liv"
      using div_times_less_eq_dividend [of "iv_min liv - 1" fs] that lle by linarith
    then show ?thesis using False pos nf(1) by (auto simp: map_end_def)
  qed (use mx in \<open>simp add: map_end_def\<close>)
  show "k \<in> K" if a: "map_end < iv_maxp1 p div fs" and k: "k \<le> mx"
  proof -
    have "mx < iv_maxp1 p div fs"
    proof (cases "iv_maxp1 liv < (mx + 1) * fs \<and> iv_maxp1 liv < ds_size s")
      case True
      with a show ?thesis by (simp add: map_end_def)
    next
      case False
      have "\<not> 0 < iv_min liv"
      proof
        assume z: "0 < iv_min liv"
        have "map_end + 1 = iv_min liv div fs"
          unfolding map_end_def if_not_P [OF False] if_P [OF z] by (rule below [OF z])
        with a pl [OF z] show False by simp
      qed
      then have "liv = p" using sole by simp
      then have "(mx + 1) * fs \<le> iv_maxp1 p" using False fc(4) by auto
      then have "mx + 1 \<le> iv_maxp1 p div fs" using fs by (simp add: less_eq_div_iff_mult_less_eq)
      then show ?thesis by simp
    qed
    with k fc(1) show ?thesis by auto
  qed
  show "k \<in> K" if a: "iv_maxp1 p div fs \<le> map_end" and b: "map_end < k" and k: "k \<le> mx"
  proof (cases "iv_maxp1 liv < (mx + 1) * fs \<and> iv_maxp1 liv < ds_size s")
    case True
    with b k show ?thesis by (simp add: map_end_def)
  next
    case False
    have "k * fs \<le> mx * fs" using k by simp
    moreover have "mx * fs < ds_size s" using mx nf(1) by simp
    moreover have "mx * fs < iv_maxp1 liv" using False fs \<open>mx * fs < ds_size s\<close> by auto
    ultimately have "k * fs < iv_maxp1 liv" by linarith
    moreover have "iv_min liv div fs \<le> k"
    proof (cases "0 < iv_min liv")
      case True
      with False b below [OF True] show ?thesis by (simp add: map_end_def split: if_splits)
    qed simp
    ultimately show ?thesis using lc(2) by blast
  qed
  show "map_end < iv_maxp1 liv div fs" if full: "iv_maxp1 liv = ds_size s"
  proof -
    have "0 < iv_min liv" using sole fc(4) full by fastforce
    moreover from this have "map_end + 1 = iv_min liv div fs"
      using below full by (simp add: map_end_def)
    moreover have "iv_min liv div fs \<le> iv_maxp1 liv div fs" by (rule div_le_mono [OF lle(1)])
    ultimately show ?thesis by simp
  qed
qed

lemma nackmap_bits:
  assumes ok: "frag_ok s" and rec: "received s K" and nc: "\<not> complete s" and e: "intervals s = p # ys"
    and l: "liv = last (p # ys)"
  defines "fs \<equiv> si_fragsize (ds_sampleinfo s)"
  assumes b: "bitmap_base hdr = iv_maxp1 p div fs" "bitmap_base hdr + numbits hdr < 2 ^ 32"
    and full: "iv_maxp1 liv = ds_size s \<Longrightarrow> bitmap_base hdr + numbits hdr \<le> iv_maxp1 liv div fs"
    and len: "numbits hdr \<le> 32 * length mapbits"
  shows "\<exists>bits0 bits1 i bits2 i2. nn_bitset_zero (numbits hdr) mapbits = Some bits0 \<and>
    iv_loop (fragtree s) fs hdr bits0 (bitmap_base hdr) (find_succ ftree (fragtree s) (Some p)) = Some (bits1, i) \<and>
    set_loop hdr bits1 i (bitmap_base hdr + numbits hdr) = Some (bits2, i2) \<and>
    (\<forall>j<numbits hdr. isset bits2 j \<longleftrightarrow> bitmap_base hdr + j \<notin> K)"
proof -
  let ?fin = "bitmap_base hdr + numbits hdr"
  have e0: "intervals s = [] @ p # ys" using e by simp
  obtain xs where e': "intervals s = xs @ [liv]"
    using append_butlast_last_id [of "p # ys"] e l by (metis list.distinct(1))
  obtain bits0 where b0: "nn_bitset_zero (numbits hdr) mapbits = Some bits0" "length bits0 = length mapbits"
    "\<forall>i<numbits hdr. \<not> isset bits0 i"
    using nn_bitset_zero_spec [OF len] by blast
  have up0: "upto_i hdr bits0 (bitmap_base hdr) K"
    using b0(2,3) len by (simp add: upto_i_def)
  have nxt: "find_succ ftree (fragtree s) (Some p) = hd_opt ys"
    using ivs.following_law [OF frag_okD(1) [OF ok] e0] .
  obtain bits1 i where b1: "iv_loop (fragtree s) fs hdr bits0 (bitmap_base hdr) (hd_opt ys) = Some (bits1, i)"
    "upto_i hdr bits1 i K" "bitmap_base hdr \<le> i" "?fin \<le> i \<or> i = iv_maxp1 liv div fs"
    using iv_loop_spec [OF ok rec e0 b(1) [unfolded fs_def] up0 order_refl b(2)] l by (auto simp: fs_def)
  have len1: "numbits hdr \<le> 32 * length bits1" using b1(2) by (simp add: upto_i_def)
  obtain bits2 i2 where b2: "set_loop hdr bits1 i ?fin = Some (bits2, i2)"
    "\<forall>j<numbits hdr. isset bits2 j \<longleftrightarrow> isset bits1 j \<or> i \<le> bitmap_base hdr + j \<and> bitmap_base hdr + j < ?fin"
    using set_loop_spec [OF len1 b1(3) b(2), of ?fin] by blast
  have "isset bits2 j \<longleftrightarrow> bitmap_base hdr + j \<notin> K" if j: "j < numbits hdr" for j
  proof -
    have 1: "isset bits1 j \<longleftrightarrow> bitmap_base hdr + j < i \<and> bitmap_base hdr + j \<notin> K"
      using b1(2) j by (simp add: upto_i_def)
    have "bitmap_base hdr + j \<notin> K" if i: "i \<le> bitmap_base hdr + j"
    proof -
      have i': "i = iv_maxp1 liv div fs" using b1(4) i j by linarith
      have "iv_maxp1 liv \<noteq> ds_size s" using full i i' j by linarith
      then have "iv_maxp1 liv < ds_size s" using iv_ok_le [OF split_ok(3) [OF ok e']] by simp
      then show ?thesis using last_cells(3) [OF ok rec e'] i i' by (simp add: fs_def)
    qed
    with 1 b2(2) j show ?thesis by (cases "bitmap_base hdr + j < i") auto
  qed
  with b0(1) b1(1) b2(1) nxt show ?thesis by auto
qed

lemma nackmap_spec:
  assumes dok: "defrag_ok d R" and s: "s \<in> set (samples_of d)" "ds_seq s = q" and rec: "received s K"
    and sz: "maxsz \<le> 256" "maxsz \<le> 32 * length mapbits"
  shows "\<exists>r. nn_defrag_nackmap d q maxfragnum hdr mapbits maxsz = Some r \<and>
    nackmap_ok K (nfragments s) (min maxfragnum (nfragments s - 1)) maxsz r"
proof -
  let ?fs = "si_fragsize (ds_sampleinfo s)"
  have idx: "index_ok stree (sampletree d)" and ok: "frag_ok s" and nc: "\<not> complete s"
    using dok s by (auto simp: defrag_ok_def defrag_core_def sample_ok_def)
  have lk: "lookup stree (sampletree d) q = Some s" using samples.get_law [OF idx] s by simp
  have fs: "0 < ?fs" using rec by (simp add: received_def Let_def)
  obtain p ys where e: "intervals s = p # ys" using frag_okD(4) [OF ok] by auto
  define liv where l: "liv = last (p # ys)"
  obtain xs where e': "intervals s = xs @ [liv]"
    using append_butlast_last_id [of "p # ys"] e l by (metis list.distinct(1))
  have lf: "lastfrag s = Some (iv_min liv)" using split_ok(8) [OF ok e'] by simp
  have lv: "lookup ftree (fragtree s) (iv_min liv) = Some liv"
    using ivs.get_at [OF frag_okD(1) [OF ok], of xs liv "[]"] e' by simp
  have fm: "find_min (fragtree s) = Some p" using e by (simp add: find_min_inorder)
  note nf = le_nfragments [OF rec]
  note fc = first_cells [OF ok rec nc e]
  have nfpos: "0 < nfragments s" using nf(1) [of 0] fc(4) by simp
  define mx where "mx = min maxfragnum (nfragments s - 1)"
  have mx: "mx < nfragments s" using nfpos by (simp add: mx_def)
  have mxc: "(if nfragments s \<le> maxfragnum then sub32 (nfragments s) 1 else maxfragnum) = mx"
    using sub32_small [of 1 "nfragments s"] nfpos nf(4) by (simp add: mx_def)
  have mul: "u32 ((mx + 1) * ?fs) = (mx + 1) * ?fs"
  proof -
    have "(mx + 1) * ?fs \<le> nfragments s * ?fs" using mx by (intro mult_le_mono1) simp
    with nf(2) show ?thesis unfolding u32_def by (intro mod_less) linarith
  qed
  define map_end where "map_end = (if iv_maxp1 liv < (mx + 1) * ?fs \<and> iv_maxp1 liv < ds_size s then mx
            else if 0 < iv_min liv then (iv_min liv - 1) div ?fs else 0)"
  note me = map_end_ok [OF ok rec nc e l mx, folded map_end_def]
  let ?base = "iv_maxp1 p div ?fs"
  let ?full = "u32 (map_end - ?base + 1)"
  let ?n = "if maxsz < ?full then maxsz else ?full"
  let ?hdr = "\<lparr>bitmap_base = ?base, numbits = ?n\<rparr>"
  have a: "assertion (maxsz \<le> 256) = Some ()" "assertion (?fs \<noteq> 0) = Some ()" using sz fs by simp_all
  have code: "nn_defrag_nackmap d q maxfragnum hdr mapbits maxsz =
    (if map_end < ?base then
       Some (DEFRAG_NACKMAP_ALL_ADVERTISED_FRAGMENTS_KNOWN, hdr\<lparr>bitmap_base := ?base\<rparr>, mapbits)
     else do {
       bits0 \<leftarrow> nn_bitset_zero ?n mapbits;
       (bits1, i) \<leftarrow> iv_loop (fragtree s) ?fs ?hdr bits0 ?base (find_succ ftree (fragtree s) (Some p));
       (bits2, _) \<leftarrow> set_loop ?hdr bits1 i (?base + ?n);
       Some (DEFRAG_NACKMAP_FRAGMENTS_MISSING, ?hdr, bits2) })"
    unfolding nn_defrag_nackmap_def Let_def a option_bind_Some lk option.case nf(3) mxc lf lv fm mul
      map_end_def [symmetric] ..
  show ?thesis
  proof (cases "map_end < ?base")
    case True
    then have "\<forall>k\<le>mx. k \<in> K" using me(2) by blast
    with code True show ?thesis by (simp add: nackmap_ok_def mx_def)
  next
    case False
    have n0: "?full = map_end - ?base + 1"
      unfolding u32_def using me(1) nf(4) by (intro mod_less) linarith
    have n: "?base + ?n \<le> map_end + 1" using False n0 by auto
    have "?base + ?n < 2 ^ 32" using n me(1) nf(4) by linarith
    moreover have "?n \<le> 32 * length mapbits" using sz(2) by auto
    moreover have "?base + ?n \<le> iv_maxp1 liv div ?fs" if "iv_maxp1 liv = ds_size s"
      using me(4) [OF that] n by linarith
    ultimately obtain bits0 bits1 i bits2 i2 where r: "nn_bitset_zero ?n mapbits = Some bits0"
      "iv_loop (fragtree s) ?fs ?hdr bits0 ?base (find_succ ftree (fragtree s) (Some p)) = Some (bits1, i)"
      "set_loop ?hdr bits1 i (?base + ?n) = Some (bits2, i2)"
      "\<forall>j<?n. isset bits2 j \<longleftrightarrow> ?base + j \<notin> K"
      using nackmap_bits [OF ok rec nc e l, of ?hdr mapbits] by auto
    have "nn_defrag_nackmap d q maxfragnum hdr mapbits maxsz =
        Some (DEFRAG_NACKMAP_FRAGMENTS_MISSING, ?hdr, bits2)"
      unfolding code using False r(1-3) by simp
    moreover have "nackmap_ok K (nfragments s) mx maxsz (DEFRAG_NACKMAP_FRAGMENTS_MISSING, ?hdr, bits2)"
    proof -
      have "?base + ?n \<le> nfragments s" using n me(1) by linarith
      moreover have "?n = maxsz \<or> (\<forall>k\<le>mx. ?base + ?n \<le> k \<longrightarrow> k \<in> K)"
      proof (cases "maxsz < ?full")
        case f: False
        then have "?base + ?n = map_end + 1" using n0 False by simp
        then show ?thesis using me(3) False by (metis Suc_eq_plus1 Suc_le_eq not_le)
      qed simp
      moreover have "0 < maxsz \<longrightarrow> 0 < ?n" using n0 by simp
      ultimately show ?thesis using r(4) fc(1,2) by (simp add: nackmap_ok_def)
    qed
    ultimately show ?thesis by (auto simp: mx_def)
  qed
qed

end
