(* ===== verification/Defrag_Properties.thy ===== *)
theory Defrag_Properties
  imports Defrag_Nackmap
begin

text \<open>
  What the defragmenter promises: the states it goes through, and the properties of its
  operations over these states, with their witnesses.
\<close>

section \<open>Dropping ranges\<close>

lemma sorted_dropWhile_filter:
  "sorted_by key xs \<Longrightarrow> dropWhile (\<lambda>x. key x < k) xs = filter (\<lambda>x. k \<le> key x) xs"
proof (induction xs)
  case (Cons x xs)
  show ?case
  proof (cases "key x < k")
    case False
    then have "\<forall>y\<in>set (x # xs). k \<le> key y" using Cons.prems by (fastforce simp: not_less)
    then have "filter (\<lambda>x. k \<le> key x) (x # xs) = x # xs" by (rule filter_True)
    with False show ?thesis by simp
  qed (use Cons in simp)
qed simp

lemma filter_split:
  "\<forall>x\<in>set xs. P x \<Longrightarrow> \<forall>y\<in>set ys. P y = Q y \<Longrightarrow> filter P (xs @ ys) = xs @ filter Q ys"
  by (simp cong: filter_cong)

lemma notegap_spec:
  assumes ok: "defrag_ok d R"
  shows "\<exists>d' R'. nn_defrag_notegap d R lo hi = Some (d', R') \<and> defrag_ok d' R' \<and> conserved d R [] d' R' \<and>
    samples_of d' = filter (\<lambda>s. ds_seq s < lo \<or> hi \<le> ds_seq s) (samples_of d)"
proof -
  have core: "defrag_core d R" and idx: "index_ok stree (sampletree d)"
    using ok by (auto simp: defrag_ok_def defrag_core_def)
  obtain xs ys where e: "samples_of d = xs @ ys" "\<forall>x\<in>set xs. ds_seq x < lo" "\<forall>y\<in>set ys. lo \<le> ds_seq y"
    "lookup_succ_eq stree (sampletree d) lo = hd_opt ys"
    using start_split [OF idx] by blast
  obtain d' R' where d': "notegap_loop d R hi (hd_opt ys) = Some (d', R')"
    "shed d R (xs @ dropWhile (\<lambda>s. ds_seq s < hi) ys) d' R'"
    using notegap_loop_spec [OF core e(1)] by blast
  have "sorted_by ds_seq (xs @ ys)" using samples.ok_sorted [OF idx] e(1) by simp
  then have "sorted_by ds_seq ys" by (simp add: sorted_by_append)
  then have "xs @ dropWhile (\<lambda>s. ds_seq s < hi) ys = filter (\<lambda>s. ds_seq s < lo \<or> hi \<le> ds_seq s) (xs @ ys)"
    using e(2,3) by (subst filter_split [of _ _ _ "\<lambda>s. hi \<le> ds_seq s"]) (auto simp: sorted_dropWhile_filter)
  with d' e(1,4) shed_ok [OF ok d'(2)] show ?thesis by (simp add: nn_defrag_notegap_def shed_def)
qed

lemma prune_spec:
  assumes ok: "defrag_ok d R"
  shows "\<exists>d' R'. nn_defrag_prune d R dst lo = Some (d', R') \<and> defrag_ok d' R' \<and> conserved d R [] d' R' \<and>
    samples_of d' = filter (\<lambda>s. ds_seq s < lo \<or> si_dst (ds_sampleinfo s) \<noteq> dst) (samples_of d)"
proof -
  have core: "defrag_core d R" and idx: "index_ok stree (sampletree d)"
    using ok by (auto simp: defrag_ok_def defrag_core_def)
  obtain xs ys where e: "samples_of d = xs @ ys" "\<forall>x\<in>set xs. ds_seq x < lo" "\<forall>y\<in>set ys. lo \<le> ds_seq y"
    "lookup_succ_eq stree (sampletree d) lo = hd_opt ys"
    using start_split [OF idx] by blast
  obtain d' R' where d': "prune_loop d R dst (hd_opt ys) = Some (d', R')"
    "shed d R (xs @ filter (\<lambda>s. si_dst (ds_sampleinfo s) \<noteq> dst) ys) d' R'"
    using prune_loop_spec [OF core e(1)] by blast
  have "filter (\<lambda>s. ds_seq s < lo \<or> si_dst (ds_sampleinfo s) \<noteq> dst) (xs @ ys) =
      xs @ filter (\<lambda>s. si_dst (ds_sampleinfo s) \<noteq> dst) ys"
    using e(2,3) by (intro filter_split) auto
  with d' e(1,4) shed_ok [OF ok d'(2)] show ?thesis by (simp add: nn_defrag_prune_def shed_def)
qed

section \<open>The states of a defragmenter\<close>

text \<open>
  The sender announces one size per sequence number, \<open>sz\<close>, and a fragment is taken in while its message is being received,
  with room for one more bias in the 32 bits of its count. Others may do with the reference
  counts what they want, as long as the biases of the stored fragments remain.
\<close>

inductive defrag_run :: "(seqno \<Rightarrow> nat) \<Rightarrow> nn_defrag \<Rightarrow> refs \<Rightarrow> bool" for sz where
  new: "nn_defrag_new mode maxs = Some d \<Longrightarrow> defrag_run sz d R"
| rsample: "defrag_run sz d R \<Longrightarrow> valid_frag f info \<Longrightarrow> si_size info = sz (si_seq info) \<Longrightarrow>
    receiving d R 1 (rd_rmsg f) \<Longrightarrow> nn_defrag_rsample d R f info = Some (res, d', R') \<Longrightarrow> defrag_run sz d' R'"
| notegap: "defrag_run sz d R \<Longrightarrow> nn_defrag_notegap d R lo hi = Some (d', R') \<Longrightarrow> defrag_run sz d' R'"
| prune: "defrag_run sz d R \<Longrightarrow> nn_defrag_prune d R dst lo = Some (d', R') \<Longrightarrow> defrag_run sz d' R'"
| others: "defrag_run sz d R \<Longrightarrow> \<forall>m. held_in m (allfrags (samples_of d)) * BIAS \<le> R' m \<Longrightarrow>
    defrag_run sz d R'"

definition sized :: "(seqno \<Rightarrow> nat) \<Rightarrow> nn_defrag \<Rightarrow> bool" where
  "sized sz d \<longleftrightarrow> (\<forall>s\<in>set (samples_of d). ds_size s = sz (ds_seq s))"

lemma sized_consistent: "sized sz d \<Longrightarrow> si_size info = sz (si_seq info) \<Longrightarrow> consistent d info"
  by (auto simp: sized_def consistent_def)

lemma new_ok: "nn_defrag_new mode maxs = Some d \<Longrightarrow> defrag_ok d R \<and> samples_of d = []"
  by (auto simp: nn_defrag_new_def defrag_ok_def defrag_core_def max_key_last samples.ok_empty
      split: bind_splits)

text \<open>One whole sample, which may be empty.\<close>

lemma whole_spec:
  assumes ok: "defrag_ok d R" and f: "rd_min f = 0" "rd_maxp1 f = si_size info" and rc: "receives R h (rd_rmsg f)"
  shows "\<exists>rs R'. nn_defrag_rsample d R f info = Some (Some rs, d, R') \<and> defrag_ok d R' \<and>
    conserved d R (outfrags (Some rs)) d R' \<and> delivered f info rs"
proof -
  let ?rs = "\<lparr>rs_sc = [\<lparr>sce_fragchain = [f], sce_sampleinfo = Some info\<rparr>],
       rs_min = si_seq info, rs_maxp1 = si_seq info + 1, rs_n_samples = 1\<rparr>" and ?R = "with_bias R f"
  have n: "df_n_samples d \<le> df_max_samples d" using ok by (simp add: defrag_ok_def)
  have r: "nn_defrag_rsample d R f info = Some (Some ?rs, d, ?R)"
    using f n addbias [OF rc] by (simp add: nn_defrag_rsample_def nn_rdata_is_fragment_def reorder_rsample_new_def)
  have R: "?R m = R m + held_in m [f] * BIAS" for m
    by simp
  have "defrag_ok d ?R" using ok R by (auto simp: defrag_ok_def defrag_core_def intro: trans_le_add1)
  moreover have "conserved d R (outfrags (Some ?rs)) d ?R"
    using R by (simp add: conserved_def outfrags_def algebra_simps)
  moreover have "delivered f info ?rs"
    using f reaches_single [of 0 f "si_size info"] by (simp add: delivered_def)
  ultimately show ?thesis using r by blast
qed

text \<open>One fragment, or one whole sample.\<close>

lemma rsample_spec:
  assumes ok: "defrag_ok d R" and f: "valid_frag f info" and con: "consistent d info" and rc: "receiving d R 1 (rd_rmsg f)"
  shows "\<exists>res d' R'. nn_defrag_rsample d R f info = Some (res, d', R') \<and> defrag_ok d' R' \<and>
    conserved d R (outfrags res) d' R' \<and> (\<forall>rs. res = Some rs \<longrightarrow> delivered f info rs) \<and>
    sizes d' \<subseteq> insert (si_seq info, si_size info) (sizes d) \<and> infos d' \<subseteq> insert info (infos d)"
proof (cases "rd_min f = 0 \<and> rd_maxp1 f = si_size info")
  case False
  with nn_defrag_rsample_frag [OF ok f con _ rc] show ?thesis
    by (fastforce simp: defrag_step_def defrag_post_def split: option.splits)
next
  case True
  with whole_spec [OF ok _ _ receiving_receives [OF rc], of info] show ?thesis by (fastforce simp del: split_paired_Ex)
qed

lemma sized_sizes: "sized sz d \<longleftrightarrow> (\<forall>(q, z)\<in>sizes d. z = sz q)"
  by (auto simp: sized_def sizes_def)

lemma defrag_run_ok: "defrag_run sz d R \<Longrightarrow> defrag_ok d R \<and> sized sz d"
proof (induction rule: defrag_run.induct)
  case (new mode maxs d R)
  then show ?case using new_ok by (simp add: sized_def)
next
  case (rsample d R f info res d' R')
  then have con: "consistent d info" using sized_consistent by blast
  with rsample rsample_spec [OF _ rsample.hyps(2) con rsample.hyps(4)] show ?case by (fastforce simp: sized_sizes)
next
  case (notegap d R lo hi d' R')
  then show ?case using notegap_spec [of d R lo hi] by (auto simp: sized_def)
next
  case (prune d R dst lo d' R')
  then show ?case using prune_spec [of d R dst lo] by (auto simp: sized_def)
next
  case (others d R R')
  then show ?case by (auto simp: defrag_ok_def defrag_core_def)
qed

section \<open>Examples\<close>

definition ex_info :: "seqno \<Rightarrow> nat \<Rightarrow> rsample_info" where
  "ex_info q sz = \<lparr>si_seq = q, si_dst = 0, si_size = sz, si_fragsize = 10, si_timestamp = 0, si_statusinfo = 0\<rparr>"

definition ex_frag :: "nat \<Rightarrow> nat \<Rightarrow> rdata" where
  "ex_frag lo hi = \<lparr>rd_rmsg = lo, rd_min = lo, rd_maxp1 = hi\<rparr>"

definition ex_new :: "nn_defrag_drop_mode \<Rightarrow> nat \<Rightarrow> nn_defrag" where
  "ex_new mode maxs =
     \<lparr>sampletree = Null, max_sample = None, df_n_samples = 0, df_max_samples = maxs, drop_mode = mode,
      df_discarded_bytes = 0\<rparr>"

lemma ex_new_run: "1 \<le> maxs \<Longrightarrow> defrag_run sz (ex_new mode maxs) R"
  by (rule defrag_run.new [of mode maxs]) (simp add: nn_defrag_new_def ex_new_def)

text \<open>The middle fragment of sample 4, of thirty bytes, has arrived.\<close>

definition ex_mid :: nn_defrag where
  "ex_mid = fst (snd (the (nn_defrag_rsample (ex_new NN_DEFRAG_DROP_LATEST 2) (\<lambda>_. 2 ^ 31) (ex_frag 10 20) (ex_info 4 30))))"

definition ex_refs :: refs where
  "ex_refs = snd (snd (the (nn_defrag_rsample (ex_new NN_DEFRAG_DROP_LATEST 2) (\<lambda>_. 2 ^ 31) (ex_frag 10 20) (ex_info 4 30))))"

lemma ex_valid: "valid_frag (ex_frag 10 20) (ex_info 4 30)" "valid_frag (ex_frag 0 10) (ex_info 4 30)"
  "valid_frag (ex_frag 20 30) (ex_info 4 30)"
  by (simp_all add: valid_frag_def ex_frag_def ex_info_def)

lemma ex_mid_eq: "ex_mid = \<lparr>sampletree = Node Null
     \<lparr>fragtree = Node Null \<lparr>iv_min = 0, iv_maxp1 = 0, iv_chain = []\<rparr> 2
        (Node Null \<lparr>iv_min = 10, iv_maxp1 = 20, iv_chain = [ex_frag 10 20]\<rparr> 1 Null),
      lastfrag = Some 10, ds_sampleinfo = ex_info 4 30, ds_seq = 4\<rparr> 1 Null,
    max_sample = Some 4, df_n_samples = 1, df_max_samples = 2, drop_mode = NN_DEFRAG_DROP_LATEST,
    df_discarded_bytes = 0\<rparr>"
  by code_simp

lemma ex_mid_run: "defrag_run (\<lambda>_. 30) ex_mid ex_refs"
proof (rule defrag_run.rsample [OF ex_new_run ex_valid(1)])
  let ?r = "nn_defrag_rsample (ex_new NN_DEFRAG_DROP_LATEST 2) (\<lambda>_. 2 ^ 31) (ex_frag 10 20) (ex_info 4 30)"
  have "?r \<noteq> None" by code_simp
  then obtain res d R where "?r = Some (res, d, R)" by auto
  then show "?r = Some (fst (the ?r), ex_mid, ex_refs)" by (simp add: ex_mid_def ex_refs_def)
qed (simp_all add: ex_info_def ex_new_def receiving_def RMSG_REFCOUNT_UNCOMMITTED_BIAS_def RMSG_REFCOUNT_RDATA_BIAS_def)

lemma ex_mid_abs: "abs_defrag ex_mid = [4 \<mapsto> {10..<20}]"
  by (auto simp: ex_mid_eq abs_defrag_def bytes_def ivbytes_def)

lemma ex_roomy: "roomy ex_mid 4"
  by (simp add: roomy_def ex_mid_abs, simp add: ex_mid_eq)

lemma ex_receiving: "receiving ex_mid ex_refs 1 (rd_rmsg (ex_frag 0 10))"
  by code_simp

section \<open>Properties\<close>

text \<open>
  C9. From any state of a run in which the fragments of a sample number all announced the same size, a non-empty fragment inside
  its sample that announces that size too, and whose message is being received with room for one more bias in its 32-bit count
  (\<open>receiving\<close>), is taken in without a failing assertion or NULL dereference, be it a whole sample or a part, in a state that
  keeps the invariant of the run and the limit on the number of samples. What is returned for the reorder administration is one sample with the number of the fragment, whose chain has the fragment in it and covers
  all the bytes in order, each fragment starting at or before the end of what precedes it; and the
  biases of the reference counts are those of the fragments stored and returned.
\<close>

theorem nn_defrag_rsample_safe:
  assumes "defrag_run sz d R" "valid_frag f info" "si_size info = sz (si_seq info)" "receiving d R 1 (rd_rmsg f)"
  shows "\<exists>res d' R'. nn_defrag_rsample d R f info = Some (res, d', R') \<and> defrag_run sz d' R' \<and>
    df_n_samples d' \<le> df_max_samples d' \<and> conserved d R (outfrags res) d' R' \<and>
    (\<forall>rs. res = Some rs \<longrightarrow> delivered f info rs)"
proof -
  have "defrag_ok d R" "consistent d info"
    using defrag_run_ok [OF assms(1)] sized_consistent [of sz d info] assms(3) by auto
  from rsample_spec [OF this(1) assms(2) this(2) assms(4)] obtain res d' R' where
    r: "nn_defrag_rsample d R f info = Some (res, d', R')" "defrag_ok d' R'"
    "conserved d R (outfrags res) d' R'" "\<forall>rs. res = Some rs \<longrightarrow> delivered f info rs" by blast
  moreover have "defrag_run sz d' R'" using assms r(1) by (rule defrag_run.rsample)
  moreover have "df_n_samples d' \<le> df_max_samples d'" using r(2) by (simp add: defrag_ok_def)
  ultimately show ?thesis by blast
qed

lemma nn_defrag_rsample_safe_witness:
  "\<exists>res d' R'. nn_defrag_rsample ex_mid ex_refs (ex_frag 0 10) (ex_info 4 30) = Some (res, d', R') \<and>
    defrag_run (\<lambda>_. 30) d' R' \<and> df_n_samples d' \<le> df_max_samples d' \<and>
    conserved ex_mid ex_refs (outfrags res) d' R' \<and>
    (\<forall>rs. res = Some rs \<longrightarrow> delivered (ex_frag 0 10) (ex_info 4 30) rs)"
  by (rule nn_defrag_rsample_safe [OF ex_mid_run ex_valid(2) _ ex_receiving]) (simp add: ex_info_def)

text \<open>
  C16. The defragmenter implements a map from sequence numbers to sets of received bytes: with room
  for the sample, a fragment that overlaps none of the received bytes partially adds just its bytes;
  the sample is returned and leaves the map exactly when all its bytes are there. The message of the fragment is being received
  and has room for its bias.
\<close>

theorem nn_defrag_rsample_refines:
  assumes "defrag_run sz d R" "valid_frag f info" "si_size info = sz (si_seq info)"
    and "\<not> (rd_min f = 0 \<and> rd_maxp1 f = si_size info)"
    and "roomy d (si_seq info)" "whole (abs_defrag d) f info" "receiving d R 1 (rd_rmsg f)"
  shows "\<exists>res d' R'. nn_defrag_rsample d R f info = Some (res, d', R') \<and>
    abs_step (abs_defrag d) f info res (abs_defrag d')"
proof -
  have ok: "defrag_ok d R" and con: "consistent d info"
    using defrag_run_ok [OF assms(1)] sized_consistent [of sz d info] assms(3) by auto
  from nn_defrag_rsample_frag [OF ok assms(2) con assms(4,7)] roomy_room [OF ok assms(5)] assms(6)
  show ?thesis by (auto simp: defrag_step_def)
qed

lemma nn_defrag_rsample_refines_witness:
  "\<exists>res d' R'. nn_defrag_rsample ex_mid ex_refs (ex_frag 0 10) (ex_info 4 30) = Some (res, d', R') \<and>
    abs_step (abs_defrag ex_mid) (ex_frag 0 10) (ex_info 4 30) res (abs_defrag d')"
  by (rule nn_defrag_rsample_refines [OF ex_mid_run ex_valid(2)])
    (use ex_roomy ex_receiving in \<open>auto simp: ex_info_def ex_frag_def whole_def ex_mid_abs\<close>)

text \<open>
  C15. The order of the fragments does not matter, and neither do duplicates: pieces that do not
  overlap partially and together make up the sample are all kept, and the piece that closes the last
  hole returns the sample, whose chain covers all the bytes, and leaves all other samples as they were. The messages of the pieces
  are being received, and each has room for the biases of them all.
\<close>

theorem fragments_in_any_order:
  assumes "defrag_run sz d R" "pieces q (sz q) (gs @ [(f, info)])" "roomy d q"
    and "abs_defrag d q = None" "fbytes f \<inter> union_bytes gs = {}"
    and "union_bytes (gs @ [(f, info)]) = {0..<sz q}"
    and "\<forall>(g, _)\<in>set (gs @ [(f, info)]). receiving d R (Suc (length gs)) (rd_rmsg g)"
  shows "\<exists>rs d' R'. feed d R (gs @ [(f, info)]) = Some (replicate (length gs) None @ [Some rs], d', R') \<and>
    delivered f info rs \<and> abs_defrag d' = abs_defrag d"
proof -
  have ok: "defrag_ok d R" "sized sz d" using defrag_run_ok [OF assms(1)] by auto
  have "\<forall>(p, z)\<in>sizes d. p = q \<longrightarrow> z = sz q" using ok(2) by (auto simp: sized_sizes)
  from feed_pieces [of q "sz q" "[]" gs f info d R "abs_defrag d", OF _ ok(1) assms(3) this] assms(2,4-7)
  show ?thesis by (auto simp: domIff)
qed

lemma fragments_in_any_order_witness:
  "\<exists>rs d' R'. feed (ex_new NN_DEFRAG_DROP_OLDEST 2) (\<lambda>_. 2 ^ 31)
      ([(ex_frag 20 30, ex_info 4 30), (ex_frag 0 10, ex_info 4 30), (ex_frag 20 30, ex_info 4 30)] @
        [(ex_frag 10 20, ex_info 4 30)]) =
      Some (replicate (length [(ex_frag 20 30, ex_info 4 30), (ex_frag 0 10, ex_info 4 30),
        (ex_frag 20 30, ex_info 4 30)]) None @ [Some rs], d', R') \<and>
    delivered (ex_frag 10 20) (ex_info 4 30) rs \<and> abs_defrag d' = abs_defrag (ex_new NN_DEFRAG_DROP_OLDEST 2)"
proof (rule fragments_in_any_order [OF ex_new_run])
  have "abs_defrag (ex_new NN_DEFRAG_DROP_OLDEST 2) = Map.empty"
    by (simp add: abs_defrag_def ex_new_def)
  then show "roomy (ex_new NN_DEFRAG_DROP_OLDEST 2) 4" "abs_defrag (ex_new NN_DEFRAG_DROP_OLDEST 2) 4 = None"
    by (simp_all add: roomy_def ex_new_def)
qed (auto simp: pieces_def union_bytes_def valid_frag_def ex_info_def ex_frag_def ex_new_def receiving_def
    RMSG_REFCOUNT_UNCOMMITTED_BIAS_def RMSG_REFCOUNT_RDATA_BIAS_def)

text \<open>
  A gap: the samples of the range are dropped with the references they hold, and all other
  samples stay as they are.
\<close>

theorem nn_defrag_notegap_drops_range:
  assumes "defrag_run sz d R"
  shows "\<exists>d' R'. nn_defrag_notegap d R lo hi = Some (d', R') \<and> defrag_run sz d' R' \<and>
    abs_defrag d' = abs_defrag d |` (- {lo..<hi}) \<and> conserved d R [] d' R'"
proof -
  have ok: "defrag_ok d R" using defrag_run_ok [OF assms] by simp
  then have idx: "index_ok stree (sampletree d)" by (simp add: defrag_ok_def defrag_core_def)
  obtain d' R' where d': "nn_defrag_notegap d R lo hi = Some (d', R')" "conserved d R [] d' R'"
    "samples_of d' = filter (\<lambda>s. ds_seq s < lo \<or> hi \<le> ds_seq s) (samples_of d)"
    using notegap_spec [OF ok] by blast
  have "abs_defrag d' q = (abs_defrag d |` (- {lo..<hi})) q" for q
  proof (cases "q \<in> dom (abs_defrag d)")
    case True
    then show ?thesis unfolding abs_filter [OF idx d'(3)] by (auto simp: restrict_map_def dom_abs)
  next
    case False
    then show ?thesis unfolding abs_filter [OF idx d'(3)] by (auto simp: restrict_map_def domIff)
  qed
  with d' defrag_run.notegap [OF assms d'(1)] show ?thesis by blast
qed

lemma nn_defrag_notegap_drops_range_witness:
  "\<exists>d' R'. nn_defrag_notegap ex_mid ex_refs 2 5 = Some (d', R') \<and> defrag_run (\<lambda>_. 30) d' R' \<and>
    abs_defrag d' = abs_defrag ex_mid |` (- {2..<5}) \<and> conserved ex_mid ex_refs [] d' R'"
  by (rule nn_defrag_notegap_drops_range [OF ex_mid_run])

text \<open>
  Pruning for a reader that has gone drops just the samples from a number on that are addressed
  to it, with the references they hold.
\<close>

theorem nn_defrag_prune_drops_addressed:
  assumes "defrag_run sz d R"
  shows "\<exists>d' R'. nn_defrag_prune d R dst lo = Some (d', R') \<and> defrag_run sz d' R' \<and>
    samples_of d' = filter (\<lambda>s. \<not> (lo \<le> ds_seq s \<and> si_dst (ds_sampleinfo s) = dst)) (samples_of d) \<and>
    conserved d R [] d' R'"
proof -
  have ok: "defrag_ok d R" using defrag_run_ok [OF assms] by simp
  obtain d' R' where d': "nn_defrag_prune d R dst lo = Some (d', R')" "conserved d R [] d' R'"
    "samples_of d' = filter (\<lambda>s. ds_seq s < lo \<or> si_dst (ds_sampleinfo s) \<noteq> dst) (samples_of d)"
    using prune_spec [OF ok] by blast
  have "filter (\<lambda>s. ds_seq s < lo \<or> si_dst (ds_sampleinfo s) \<noteq> dst) (samples_of d) =
      filter (\<lambda>s. \<not> (lo \<le> ds_seq s \<and> si_dst (ds_sampleinfo s) = dst)) (samples_of d)"
    by (rule filter_cong) auto
  then show ?thesis using d' defrag_run.prune [OF assms d'(1)] by simp
qed

lemma nn_defrag_prune_drops_addressed_witness:
  "\<exists>d' R'. nn_defrag_prune ex_mid ex_refs 0 3 = Some (d', R') \<and> defrag_run (\<lambda>_. 30) d' R' \<and>
    samples_of d' = filter (\<lambda>s. \<not> (3 \<le> ds_seq s \<and> si_dst (ds_sampleinfo s) = 0)) (samples_of ex_mid) \<and>
    conserved ex_mid ex_refs [] d' R'"
  by (rule nn_defrag_prune_drops_addressed [OF ex_mid_run])

text \<open>
  C36. Freeing the defragmenter ends, drops every sample, and gives up exactly the biases that its
  fragments held: no reference leaks and none is released twice.
\<close>

theorem nn_defrag_free_releases_all:
  assumes "defrag_run sz d R"
  shows "\<exists>d' R'. nn_defrag_free d R = Some (d', R') \<and> samples_of d' = [] \<and>
    (\<forall>m. R' m + held_in m (allfrags (samples_of d)) * BIAS = R m)"
proof -
  have "defrag_core d R" using defrag_run_ok [OF assms] by (simp add: defrag_ok_def)
  from free_spec [OF this] show ?thesis by (auto simp: shed_def conserved_def)
qed

lemma nn_defrag_free_releases_all_witness:
  "\<exists>d' R'. nn_defrag_free ex_mid ex_refs = Some (d', R') \<and> samples_of d' = [] \<and>
    (\<forall>m. R' m + held_in m (allfrags (samples_of ex_mid)) * BIAS = ex_refs m)"
  by (rule nn_defrag_free_releases_all [OF ex_mid_run])

text \<open>
  C33. The fragment NACK map of a sample that has received just the fragments \<open>K\<close>: either all
  advertised fragments are known, or the map starts at the first missing fragment, has a bit for
  exactly the missing fragments of its range, stays inside the sample and the buffer, and ends early
  only where nothing advertised is missing beyond it.
\<close>

theorem nn_defrag_nackmap_requests_missing:
  assumes "defrag_run sz d R" "s \<in> set (samples_of d)" "ds_seq s = q" "received s K"
    and "maxsz \<le> 256" "maxsz \<le> 32 * length mapbits"
  shows "\<exists>r. nn_defrag_nackmap d q maxfragnum hdr mapbits maxsz = Some r \<and>
    nackmap_ok K (nfragments s) (min maxfragnum (nfragments s - 1)) maxsz r"
proof -
  have "defrag_ok d R" using defrag_run_ok [OF assms(1)] by simp
  from nackmap_spec [OF this assms(2-6)] show ?thesis .
qed

lemma nn_defrag_nackmap_requests_missing_witness:
  "\<exists>r. nn_defrag_nackmap ex_mid 4 5 \<lparr>bitmap_base = 0, numbits = 0\<rparr> [0] 32 = Some r \<and>
    nackmap_ok {1} (nfragments (hd (samples_of ex_mid))) (min 5 (nfragments (hd (samples_of ex_mid)) - 1)) 32 r"
proof (rule nn_defrag_nackmap_requests_missing [OF ex_mid_run])
  show "received (hd (samples_of ex_mid)) {1}"
    by (simp add: received_def ex_mid_eq ex_info_def bytes_def ivbytes_def cell_def)
qed (simp_all add: ex_mid_eq)

section \<open>Corner cases of the code\<close>

definition fed :: "nn_defrag \<Rightarrow> (rdata \<times> rsample_info) list \<Rightarrow> nn_rsample_defrag list option" where
  "fed d fs = map_option (\<lambda>(_, d', _). samples_of d') (feed d (\<lambda>_. 2 ^ 31) fs)"

definition spans :: "nn_rsample_defrag \<Rightarrow> (nat \<times> nat) list" where
  "spans s = map (\<lambda>iv. (iv_min iv, iv_maxp1 iv)) (intervals s)"

text \<open>
  A fragment that reaches beyond the interval behind it: \<open>defrag_try_merge_with_succ\<close> assigns the
  end of that interval, so the bytes 30 to 40, which have arrived, do not count as received.
\<close>

lemma merge_forgets_bytes:
  "map_option (map spans) (fed (ex_new NN_DEFRAG_DROP_LATEST 2)
     [(ex_frag 0 10, ex_info 4 60), (ex_frag 20 30, ex_info 4 60), (ex_frag 40 50, ex_info 4 60),
      (ex_frag 10 40, ex_info 4 60)]) = Some [[(0, 30), (40, 50)]]"
  by code_simp

text \<open>
  A full defragmenter that drops the oldest sample: a fragment of that very sample first drops what
  it already has of it.
\<close>

lemma full_drops_own_sample:
  "map_option (map spans) (fed (ex_new NN_DEFRAG_DROP_OLDEST 2)
     [(ex_frag 0 10, ex_info 4 30), (ex_frag 0 10, ex_info 5 30), (ex_frag 10 20, ex_info 4 30)]) =
   Some [[(0, 0), (10, 20)], [(0, 10)]]"
  by code_simp

text \<open>
  Fragments that announce different sizes: the first fragment replaces the sample information, and
  the assertion in \<open>is_complete\<close> fails on the interval left beyond the new size.
\<close>

lemma sizes_disagree_fails:
  "feed (ex_new NN_DEFRAG_DROP_LATEST 2) (\<lambda>_. 2 ^ 31)
     [(ex_frag 50 60, ex_info 4 100), (ex_frag 0 15, ex_info 4 16), (ex_frag 15 16, ex_info 4 16)] = None"
  by code_simp

end
