(* ===== verification/Reorder_Model.thy ===== *)
theory Reorder_Model
  imports Radmin_Data Bitset
begin

text \<open>
  The reorder administration, the REORDER part of \<open>src/core/ddsi/src/q_radmin.c\<close>: the samples
  that have arrived ahead of the next one to be delivered, as a tree of intervals of sequence
  numbers, each with the chain of its samples. The node pointer \<open>max_sampleiv\<close> is the key of
  the node; a write through a pointer replaces the node of that key. None is a failed assertion
  or the dereference of a NULL pointer.
\<close>

section \<open>State\<close>

datatype nn_reorder_mode =
  NN_REORDER_MODE_NORMAL
| NN_REORDER_MODE_MONOTONICALLY_INCREASING
| NN_REORDER_MODE_ALWAYS_DELIVER

record nn_reorder =
  sampleivtree :: "rsample avl"
  max_sampleiv :: "seqno option"
  next_seq :: seqno
  ro_mode :: nn_reorder_mode
  ro_max_samples :: nat
  ro_n_samples :: nat
  ro_discarded_bytes :: nat
  late_ack_mode :: bool

definition reorder_sampleivtree_treedef :: "(rsample, seqno) avl_treedef" where
  "reorder_sampleivtree_treedef =
     \<lparr>td_key = rs_min, td_comparekk = compare_seqno, td_augment = None, td_allowdups = False\<rparr>"

abbreviation "rtree \<equiv> reorder_sampleivtree_treedef"

interpretation rivs: avl_index reorder_sampleivtree_treedef
  by unfold_locales (auto simp: reorder_sampleivtree_treedef_def orders_def compare_seqno_def)

lemma rtree_key [simp]: "td_key rtree = rs_min"
  by (simp add: reorder_sampleivtree_treedef_def)

text \<open>Results: the number of samples to deliver, or one of these.\<close>

definition NN_REORDER_ACCEPT :: int where "NN_REORDER_ACCEPT = 0"
definition NN_REORDER_TOO_OLD :: int where "NN_REORDER_TOO_OLD = -1"
definition NN_REORDER_REJECT :: int where "NN_REORDER_REJECT = -2"

definition nn_reorder_new :: "nn_reorder_mode \<Rightarrow> nat \<Rightarrow> bool \<Rightarrow> nn_reorder" where
  "nn_reorder_new mode maxs late =
     \<lparr>sampleivtree = Null, max_sampleiv = None, next_seq = 1, ro_mode = mode,
      ro_max_samples = maxs, ro_n_samples = 0, ro_discarded_bytes = 0, late_ack_mode = late\<rparr>"

definition nn_reorder_stats :: "nn_reorder \<Rightarrow> nat" where
  "nn_reorder_stats r = ro_discarded_bytes r"

text \<open>Releasing the references of a chain of samples.\<close>

fun unref_chain :: "refs \<Rightarrow> rsample_chain_elem list \<Rightarrow> refs option" where
  "unref_chain R [] = Some R"
| "unref_chain R (e # es) = do {
     R' \<leftarrow> nn_fragchain_unref R (sce_fragchain e);
     unref_chain R' es }"

partial_function (option) nn_reorder_free :: "nn_reorder \<Rightarrow> refs \<Rightarrow> refs option" where
  "nn_reorder_free r R =
     (if find_min (sampleivtree r) \<noteq> None then do {
        iv \<leftarrow> find_min (sampleivtree r);
        t \<leftarrow> avl_delete rtree (sampleivtree r) iv;
        R' \<leftarrow> unref_chain R (rs_sc iv);
        nn_reorder_free (r\<lparr>sampleivtree := t\<rparr>) R' }
      else Some R)"

definition reorder_add_rsampleiv :: "rsample avl \<Rightarrow> rsample \<Rightarrow> rsample avl option" where
  "reorder_add_rsampleiv t rsample = do {
     _ \<leftarrow> assertion (fst (lookup_ipath rtree t (rs_min rsample)) = None);
     insert_at rtree t (rs_min rsample) rsample }"

definition rsample_is_singleton :: "rsample \<Rightarrow> bool option" where
  "rsample_is_singleton s = do {
     _ \<leftarrow> assertion (rs_min s < rs_maxp1 s);
     if rs_n_samples s \<noteq> 1 then Some False
     else do {
       _ \<leftarrow> assertion (rs_min s + 1 = rs_maxp1 s);
       _ \<leftarrow> assertion (rs_min s + rs_n_samples s \<le> rs_maxp1 s);
       _ \<leftarrow> assertion (rs_sc s \<noteq> []);
       _ \<leftarrow> assertion (length (rs_sc s) = 1);
       Some True } }"

definition append_rsample_interval :: "rsample \<Rightarrow> rsample \<Rightarrow> rsample" where
  "append_rsample_interval a b =
     a\<lparr>rs_sc := rs_sc a @ rs_sc b, rs_maxp1 := rs_maxp1 b, rs_n_samples := rs_n_samples a + rs_n_samples b\<rparr>"

text \<open>
  The result: whether \<open>max_sampleiv\<close> was discarded, the tree and the interval appended to. The
  caller writes that interval back when it is in the tree.
\<close>

definition reorder_try_append_and_discard ::
  "nn_reorder \<Rightarrow> rsample avl \<Rightarrow> rsample \<Rightarrow> rsample option \<Rightarrow> (bool \<times> rsample avl \<times> rsample) option" where
  "reorder_try_append_and_discard r t appendto todiscard =
     (case todiscard of
        None \<Rightarrow> Some (False, t, appendto)
      | Some d \<Rightarrow>
          if rs_maxp1 appendto < rs_min d then Some (False, t, appendto)
          else do {
            _ \<leftarrow> assertion (rs_min d = rs_maxp1 appendto);
            t' \<leftarrow> avl_delete rtree t d;
            Some (max_sampleiv r = Some (rs_min d), t', append_rsample_interval appendto d) })"

definition nn_reorder_rsample_dup_first :: "nat \<Rightarrow> rsample \<Rightarrow> rsample option" where
  "nn_reorder_rsample_dup_first rmsg rsampleiv = do {
     e \<leftarrow> hd_opt (rs_sc rsampleiv);
     _ \<leftarrow> assertion (\<exists>d\<in>set (sce_fragchain e). rd_rmsg d = rmsg);
     Some \<lparr>rs_sc = [e], rs_min = rs_min rsampleiv, rs_maxp1 = rs_min rsampleiv + 1, rs_n_samples = 1\<rparr> }"

definition nn_rsample_fragchain :: "rsample \<Rightarrow> rdata list option" where
  "nn_rsample_fragchain rsample = do {
     one \<leftarrow> rsample_is_singleton rsample;
     _ \<leftarrow> assertion one;
     e \<leftarrow> hd_opt (rs_sc rsample);
     Some (sce_fragchain e) }"

definition max_iv :: "rsample avl \<Rightarrow> seqno option" where
  "max_iv t = map_option rs_min (find_max t)"

definition info_size :: "rsample_chain_elem \<Rightarrow> nat" where
  "info_size e = (case sce_sampleinfo e of None \<Rightarrow> 0 | Some i \<Rightarrow> si_size i)"

definition delete_last_sample :: "nn_reorder \<Rightarrow> refs \<Rightarrow> (nn_reorder \<times> refs) option" where
  "delete_last_sample r R = do {
     _ \<leftarrow> assertion (0 < ro_n_samples r);
     m \<leftarrow> max_sampleiv r;
     last \<leftarrow> lookup rtree (sampleivtree r) m;
     e \<leftarrow> last_opt (rs_sc last);
     let disc = ro_discarded_bytes r + info_size e;
     r' \<leftarrow>
       (if length (rs_sc last) = 1 then do {
          t \<leftarrow> avl_delete rtree (sampleivtree r) last;
          _ \<leftarrow> assertion (max_iv t \<noteq> None);
          Some (r\<lparr>sampleivtree := t, max_sampleiv := max_iv t, ro_discarded_bytes := disc\<rparr>) }
        else do {
          _ \<leftarrow> assertion (1 \<le> rs_n_samples last);
          _ \<leftarrow> assertion (rs_min last + rs_n_samples last \<le> rs_maxp1 last);
          pe \<leftarrow> last_opt (butlast (rs_sc last));
          _ \<leftarrow> assertion (case sce_sampleinfo pe of None \<Rightarrow> True
                          | Some i \<Rightarrow> si_seq i + 1 < rs_maxp1 last);
          t \<leftarrow> write_node rtree (sampleivtree r) last
                 (last\<lparr>rs_sc := butlast (rs_sc last), rs_maxp1 := rs_maxp1 last - 1,
                       rs_n_samples := rs_n_samples last - 1\<rparr>);
          Some (r\<lparr>sampleivtree := t, ro_discarded_bytes := disc\<rparr>) });
     R' \<leftarrow> nn_fragchain_unref R (sce_fragchain e);
     Some (r', R') }"

section \<open>A sample\<close>

text \<open>
  The result of the two operations: the return value, the chain to deliver, the state, the
  references and the increment of \<open>*refcount_adjust\<close>.
\<close>

type_synonym reorder_result =
  "int \<times> rsample_chain_elem list \<times> nn_reorder \<times> refs \<times> nat"

text \<open>\<open>reorder->discarded_bytes += s->sc.first->sampleinfo->size\<close>, and return.\<close>

definition discard_sample :: "nn_reorder \<Rightarrow> refs \<Rightarrow> rsample \<Rightarrow> int \<Rightarrow> reorder_result option" where
  "discard_sample r R s res = do {
     e \<leftarrow> hd_opt (rs_sc s);
     i \<leftarrow> sce_sampleinfo e;
     Some (res, [], r\<lparr>ro_discarded_bytes := ro_discarded_bytes r + si_size i\<rparr>, R, 0) }"

definition INT32_MAX :: nat where
  "INT32_MAX = 2 ^ 31 - 1"

text \<open>The sample is the next one: deliver it with what follows it directly.\<close>

definition deliver_sample :: "nn_reorder \<Rightarrow> refs \<Rightarrow> rsample \<Rightarrow> reorder_result option" where
  "deliver_sample r R s = do {
     (r1, s') \<leftarrow>
       (if max_sampleiv r \<noteq> None then do {
          (mx, t, s') \<leftarrow> reorder_try_append_and_discard r (sampleivtree r) s (find_min (sampleivtree r));
          Some (r\<lparr>sampleivtree := t, max_sampleiv := (if mx then None else max_sampleiv r)\<rparr>, s') }
        else Some (r, s));
     _ \<leftarrow> assertion (1 \<le> rs_maxp1 s' - rs_min s');
     _ \<leftarrow> assertion (rs_maxp1 s' - rs_min s' \<le> INT32_MAX);
     _ \<leftarrow> assertion (rs_min s' + rs_n_samples s' \<le> rs_maxp1 s');
     _ \<leftarrow> assertion (rs_n_samples s' - 1 \<le> ro_n_samples r1);
     Some (int (rs_n_samples s'), rs_sc s',
       r1\<lparr>next_seq := rs_maxp1 s', ro_n_samples := ro_n_samples r1 - (rs_n_samples s' - 1)\<rparr>, R, 1) }"

text \<open>Store a sample beyond or in front of the others: the empty and the two cases at the end.\<close>

definition store_at_end :: "nn_reorder \<Rightarrow> refs \<Rightarrow> rsample \<Rightarrow> reorder_result option" where
  "store_at_end r R s = do {
     t \<leftarrow> reorder_add_rsampleiv (sampleivtree r) s;
     Some (NN_REORDER_ACCEPT, [], r\<lparr>sampleivtree := t, max_sampleiv := Some (rs_min s),
             ro_n_samples := ro_n_samples r + 1\<rparr>, R, 1) }"

definition grow_last :: "nn_reorder \<Rightarrow> refs \<Rightarrow> rsample \<Rightarrow> rsample \<Rightarrow> reorder_result option" where
  "grow_last r R liv s = do {
     t \<leftarrow> write_node rtree (sampleivtree r) liv (append_rsample_interval liv s);
     Some (NN_REORDER_ACCEPT, [], r\<lparr>sampleivtree := t, ro_n_samples := ro_n_samples r + 1\<rparr>, R, 1) }"

text \<open>The hard case, after the test for a duplicate: where the sample goes.\<close>

definition insert_apart :: "nn_reorder \<Rightarrow> rsample \<Rightarrow> rsample option \<Rightarrow> nn_reorder option" where
  "insert_apart r s immsucc =
     (case immsucc of
        Some u \<Rightarrow> do {
          let merged = u\<lparr>rs_sc := rs_sc s @ rs_sc u, rs_min := rs_min s,
                         rs_n_samples := rs_n_samples u + rs_n_samples s\<rparr>;
          t1 \<leftarrow> write_node rtree (sampleivtree r) u merged;
          t2 \<leftarrow> swap_node rtree t1 merged merged;
          Some (r\<lparr>sampleivtree := t2,
                  max_sampleiv := (if max_sampleiv r = Some (rs_min u) then Some (rs_min s)
                                   else max_sampleiv r)\<rparr>) }
      | None \<Rightarrow> do {
          t \<leftarrow> reorder_add_rsampleiv (sampleivtree r) s;
          Some (r\<lparr>sampleivtree := t\<rparr>) })"

definition insert_sample ::
  "nn_reorder \<Rightarrow> rsample \<Rightarrow> rsample option \<Rightarrow> rsample option \<Rightarrow> nn_reorder option" where
  "insert_sample r s predeq immsucc =
     (case predeq of
        Some p \<Rightarrow>
          if rs_min s = rs_maxp1 p then do {
            let p1 = append_rsample_interval p s;
            t1 \<leftarrow> write_node rtree (sampleivtree r) p p1;
            (mx, t2, p2) \<leftarrow> reorder_try_append_and_discard r t1 p1 immsucc;
            t3 \<leftarrow> write_node rtree t2 p1 p2;
            Some (r\<lparr>sampleivtree := t3,
                    max_sampleiv := (if mx then Some (rs_min p2) else max_sampleiv r)\<rparr>) }
          else insert_apart r s immsucc
      | None \<Rightarrow> insert_apart r s immsucc)"

definition reorder_asserts :: "nn_reorder \<Rightarrow> bool" where
  "reorder_asserts r \<longleftrightarrow>
     (case find_min (sampleivtree r) of None \<Rightarrow> True | Some m \<Rightarrow> next_seq r < rs_min m) \<and>
     (max_sampleiv r = None \<longleftrightarrow> find_min (sampleivtree r) = None) \<and>
     (is_empty (sampleivtree r) \<longleftrightarrow> max_sampleiv r = None) \<and>
     (max_sampleiv r = None \<or> max_sampleiv r = max_iv (sampleivtree r)) \<and>
     ro_n_samples r \<le> ro_max_samples r"

definition hard_case :: "nn_reorder \<Rightarrow> refs \<Rightarrow> rsample \<Rightarrow> bool \<Rightarrow> reorder_result option" where
  "hard_case r R s full =
     (if late_ack_mode r \<and> full then discard_sample r R s NN_REORDER_REJECT
      else
        (let predeq = lookup_pred_eq rtree (sampleivtree r) (rs_min s) in
         if (case predeq of None \<Rightarrow> False
             | Some p \<Rightarrow> rs_min p \<le> rs_min s \<and> rs_min s < rs_maxp1 p)
         then discard_sample r R s NN_REORDER_REJECT
         else do {
           r1 \<leftarrow> insert_sample r s predeq (lookup rtree (sampleivtree r) (rs_maxp1 s));
           (r2, R2) \<leftarrow> (if ro_n_samples r1 < ro_max_samples r1
                       then Some (r1\<lparr>ro_n_samples := ro_n_samples r1 + 1\<rparr>, R)
                       else delete_last_sample r1 R);
           Some (NN_REORDER_ACCEPT, [], r2, R2, 1) }))"

definition nn_reorder_rsample :: "nn_reorder \<Rightarrow> refs \<Rightarrow> rsample \<Rightarrow> bool \<Rightarrow> reorder_result option" where
  "nn_reorder_rsample r R s full = do {
     one \<leftarrow> rsample_is_singleton s;
     _ \<leftarrow> assertion one;
     _ \<leftarrow> assertion (reorder_asserts r);
     if rs_min s = next_seq r \<or>
        (next_seq r < rs_min s \<and> ro_mode r = NN_REORDER_MODE_MONOTONICALLY_INCREASING) \<or>
        ro_mode r = NN_REORDER_MODE_ALWAYS_DELIVER then
       (if full then discard_sample r R s NN_REORDER_REJECT else deliver_sample r R s)
     else if rs_min s < next_seq r then discard_sample r R s NN_REORDER_TOO_OLD
     else if is_empty (sampleivtree r) then do {
       _ \<leftarrow> assertion (ro_n_samples r = 0);
       if ro_max_samples r = 0 then discard_sample r R s NN_REORDER_REJECT
       else store_at_end r R s }
     else do {
       m \<leftarrow> max_sampleiv r;
       last \<leftarrow> lookup rtree (sampleivtree r) m;
       if rs_min s = rs_maxp1 last then
         (if full then discard_sample r R s NN_REORDER_REJECT
          else if ro_n_samples r < ro_max_samples r then grow_last r R last s
          else discard_sample r R s NN_REORDER_REJECT)
       else if rs_maxp1 last < rs_min s then
         (if full then discard_sample r R s NN_REORDER_REJECT
          else if ro_n_samples r < ro_max_samples r then store_at_end r R s
          else discard_sample r R s NN_REORDER_REJECT)
       else hard_case r R s full } }"

section \<open>A gap\<close>

text \<open>Append the successors that begin at or before \<open>maxp1\<close>; the flag is \<open>*valuable\<close>.\<close>

partial_function (option) coalesce_loop ::
  "rsample avl \<Rightarrow> rsample \<Rightarrow> seqno \<Rightarrow> bool \<Rightarrow> (rsample avl \<times> rsample \<times> bool) option" where
  "coalesce_loop t s maxp1 valuable =
     (if find_succ rtree t (Some s) \<noteq> None \<and> rs_min (the (find_succ rtree t (Some s))) \<le> maxp1 then do {
        u \<leftarrow> find_succ rtree t (Some s);
        t1 \<leftarrow> avl_delete rtree t u;
        _ \<leftarrow> assertion (rs_min u + rs_n_samples u \<le> rs_maxp1 u);
        t2 \<leftarrow> write_node rtree t1 s (append_rsample_interval s u);
        coalesce_loop t2 (append_rsample_interval s u) maxp1 True }
      else Some (t, s, valuable))"

text \<open>The first interval that touches the range, if there is one.\<close>

definition first_touching :: "rsample avl \<Rightarrow> seqno \<Rightarrow> seqno \<Rightarrow> rsample option option" where
  "first_touching t mn maxp1 =
     (let s = lookup_pred_eq rtree t mn in
      if (case s of None \<Rightarrow> False | Some s0 \<Rightarrow> mn \<le> rs_maxp1 s0) then do {
        _ \<leftarrow> assertion (case find_pred rtree t s of None \<Rightarrow> True | Some q \<Rightarrow> rs_maxp1 q < mn);
        Some s }
      else
        (case find_succ rtree t s of
           None \<Rightarrow> Some None
         | Some u \<Rightarrow> Some (if rs_min u \<le> maxp1 then Some u else None)))"

definition coalesce_intervals_touching_range ::
  "rsample avl \<Rightarrow> seqno \<Rightarrow> seqno \<Rightarrow> (rsample avl \<times> rsample option \<times> bool) option" where
  "coalesce_intervals_touching_range t mn maxp1 = do {
     first \<leftarrow> first_touching t mn maxp1;
     (case first of
        None \<Rightarrow> Some (t, None, False)
      | Some s \<Rightarrow> do {
          _ \<leftarrow> assertion (rs_min s + rs_n_samples s \<le> rs_maxp1 s);
          (t1, s1, v1) \<leftarrow> coalesce_loop t s maxp1 False;
          let s2 = (if mn < rs_min s1 then s1\<lparr>rs_min := mn\<rparr> else s1);
          let s3 = (if rs_maxp1 s2 < maxp1 then s2\<lparr>rs_maxp1 := maxp1\<rparr> else s2);
          t2 \<leftarrow> write_node rtree t1 s1 s3;
          Some (t2, Some s3, v1 \<or> mn < rs_min s1 \<or> rs_maxp1 s2 < maxp1) }) }"

definition nn_rdata_newgap :: "refs \<Rightarrow> nat \<Rightarrow> (rdata \<times> refs) option" where
  "nn_rdata_newgap R rmsg = do {
     let d = \<lparr>rd_rmsg = rmsg, rd_min = 0, rd_maxp1 = 0\<rparr>;
     R' \<leftarrow> nn_rdata_addbias R d;
     Some (d, R') }"

definition gap_interval :: "rdata \<Rightarrow> seqno \<Rightarrow> seqno \<Rightarrow> rsample" where
  "gap_interval rdata mn maxp1 =
     \<lparr>rs_sc = [\<lparr>sce_fragchain = [rdata], sce_sampleinfo = None\<rparr>], rs_min = mn, rs_maxp1 = maxp1,
      rs_n_samples = 1\<rparr>"

definition reorder_insert_gap :: "rsample avl \<Rightarrow> rdata \<Rightarrow> seqno \<Rightarrow> seqno \<Rightarrow> rsample avl option" where
  "reorder_insert_gap t rdata mn maxp1 = do {
     _ \<leftarrow> assertion (fst (lookup_ipath rtree t mn) = None);
     insert_at rtree t mn (gap_interval rdata mn maxp1) }"

definition nn_reorder_gap ::
  "nn_reorder \<Rightarrow> refs \<Rightarrow> rdata \<Rightarrow> seqno \<Rightarrow> seqno \<Rightarrow> reorder_result option" where
  "nn_reorder_gap r R rdata mn maxp1 =
     (if maxp1 \<le> next_seq r then Some (NN_REORDER_TOO_OLD, [], r, R, 0)
      else if ro_mode r \<noteq> NN_REORDER_MODE_NORMAL then Some (NN_REORDER_REJECT, [], r, R, 0)
      else do {
        (t, coalesced, valuable) \<leftarrow> coalesce_intervals_touching_range (sampleivtree r) mn maxp1;
        (case coalesced of
           None \<Rightarrow> do {
             (res, r1, R1, adj) \<leftarrow>
               (if mn \<le> next_seq r then
                  Some (NN_REORDER_ACCEPT, r\<lparr>next_seq := maxp1\<rparr>, R, 0)
                else do {
                  at_end \<leftarrow>
                    (if ro_n_samples r = ro_max_samples r then
                       (case max_sampleiv r of
                          None \<Rightarrow> Some True
                        | Some m \<Rightarrow>
                            map_option (\<lambda>last. rs_maxp1 last < mn) (lookup rtree (sampleivtree r) m))
                     else Some False);
                  if at_end then Some (NN_REORDER_REJECT, r, R, 0)
                  else do {
                    t1 \<leftarrow> reorder_insert_gap (sampleivtree r) rdata mn maxp1;
                    let r1 = r\<lparr>sampleivtree := t1\<rparr>;
                    (r2, R2) \<leftarrow> (if ro_n_samples r1 < ro_max_samples r1
                                then Some (r1\<lparr>ro_n_samples := ro_n_samples r1 + 1\<rparr>, R)
                                else delete_last_sample r1 R);
                    Some (NN_REORDER_ACCEPT, r2, R2, 1) } });
             Some (res, [], r1\<lparr>max_sampleiv := max_iv (sampleivtree r1)\<rparr>, R1, adj) }
         | Some c \<Rightarrow>
             if rs_min c \<le> next_seq r then do {
               t1 \<leftarrow> avl_delete rtree t c;
               _ \<leftarrow> assertion (mn \<le> next_seq r);
               _ \<leftarrow> assertion (rs_min c + rs_n_samples c \<le> rs_maxp1 c);
               _ \<leftarrow> assertion (rs_n_samples c \<le> ro_n_samples r);
               Some (int (rs_n_samples c), rs_sc c,
                 r\<lparr>sampleivtree := t1, next_seq := rs_maxp1 c, max_sampleiv := max_iv t1,
                   ro_n_samples := ro_n_samples r - rs_n_samples c\<rparr>, R, 0) }
             else
               Some (if valuable then NN_REORDER_ACCEPT else NN_REORDER_REJECT, [],
                 r\<lparr>sampleivtree := t, max_sampleiv := max_iv t\<rparr>, R, 0)) })"

definition nn_reorder_drop_upto :: "nn_reorder \<Rightarrow> refs \<Rightarrow> seqno \<Rightarrow> (nn_reorder \<times> refs) option" where
  "nn_reorder_drop_upto r R maxp1 = do {
     ok \<leftarrow> (case max_sampleiv r of
               None \<Rightarrow> Some True
             | Some m \<Rightarrow> map_option (\<lambda>last. rs_maxp1 last \<le> maxp1) (lookup rtree (sampleivtree r) m));
     _ \<leftarrow> assertion ok;
     let gap = \<lparr>rd_rmsg = 0, rd_min = 0, rd_maxp1 = 0\<rparr>;
     (res, sc, r1, R1, adj) \<leftarrow> nn_reorder_gap r R gap 1 maxp1;
     R2 \<leftarrow> (if 0 < res then unref_chain R1 sc else Some R1);
     _ \<leftarrow> assertion (adj = 0);
     _ \<leftarrow> assertion (maxp1 \<le> next_seq r1);
     Some (r1, R2) }"

section \<open>Queries\<close>

definition nn_reorder_wantsample :: "nn_reorder \<Rightarrow> seqno \<Rightarrow> bool" where
  "nn_reorder_wantsample r seq =
     (if seq < next_seq r then False
      else (case lookup_pred_eq rtree (sampleivtree r) seq of
              None \<Rightarrow> True
            | Some s \<Rightarrow> rs_maxp1 s \<le> seq))"

definition nn_reorder_next_seq :: "nn_reorder \<Rightarrow> seqno" where
  "nn_reorder_next_seq r = next_seq r"

definition nn_reorder_set_next_seq :: "nn_reorder \<Rightarrow> seqno \<Rightarrow> nn_reorder" where
  "nn_reorder_set_next_seq r seq = r\<lparr>next_seq := seq\<rparr>"

record nn_sequence_number_set_header =
  sn_bitmap_base :: seqno
  sn_numbits :: nat

text \<open>\<open>for (; i < base + numbits \<and> i < bound; i++) nn_bitset_set (...)\<close>\<close>

function set_seqs ::
  "seqno \<Rightarrow> nat \<Rightarrow> 32 word list \<Rightarrow> seqno \<Rightarrow> seqno \<Rightarrow> (32 word list \<times> seqno) option" where
  "set_seqs base n bits i bound =
     (if i < base + n \<and> i < bound then do {
        bits' \<leftarrow> nn_bitset_set n bits (i - base);
        set_seqs base n bits' (i + 1) bound }
      else Some (bits, i))"
  by pat_completeness auto
termination
  by (relation "measure (\<lambda>(base, n, bits, i, bound). base + n - i)") auto

declare set_seqs.simps [simp del]

partial_function (option) nack_loop ::
  "rsample avl \<Rightarrow> seqno \<Rightarrow> nat \<Rightarrow> 32 word list \<Rightarrow> seqno \<Rightarrow> rsample option \<Rightarrow> (32 word list \<times> seqno) option" where
  "nack_loop t base n bits i iv =
     (if iv \<noteq> None \<and> i < base + n then do {
        (bits', _) \<leftarrow> set_seqs base n bits i (rs_min (the iv));
        nack_loop t base n bits' (rs_maxp1 (the iv)) (find_succ rtree t iv) }
      else Some (bits, i))"

definition nn_reorder_nackmap ::
  "nn_reorder \<Rightarrow> seqno \<Rightarrow> seqno \<Rightarrow> 32 word list \<Rightarrow> nat \<Rightarrow> bool \<Rightarrow>
   (nn_sequence_number_set_header \<times> 32 word list) option" where
  "nn_reorder_nackmap r base0 maxseq0 mapbits maxsz0 notail = do {
     _ \<leftarrow> assertion (maxsz0 \<le> 256);
     let maxsz = (if ro_max_samples r < maxsz0 then ro_max_samples r else maxsz0);
     let base = (if next_seq r < base0 then next_seq r else base0);
     let maxseq = (if maxseq0 + 1 < base then base - 1 else maxseq0);
     let n = (if maxsz < maxseq + 1 - base then maxsz else maxseq + 1 - base);
     bits0 \<leftarrow> nn_bitset_zero n mapbits;
     let iv = find_min (sampleivtree r);
     _ \<leftarrow> assertion (case iv of None \<Rightarrow> True | Some v \<Rightarrow> base < rs_min v);
     (bits1, i) \<leftarrow> nack_loop (sampleivtree r) base n bits0 base iv;
     if notail \<and> i < base + n then
       Some (\<lparr>sn_bitmap_base = base, sn_numbits = i - base\<rparr>, bits1)
     else do {
       (bits2, _) \<leftarrow> set_seqs base n bits1 i (base + n);
       Some (\<lparr>sn_bitmap_base = base, sn_numbits = n\<rparr>, bits2) } }"

declare nn_reorder_free.simps [code] coalesce_loop.simps [code] nack_loop.simps [code]

end
