(* ===== verification/Reorder.thy ===== *)
theory Reorder
  imports Reorder_Model
begin

text \<open>
  The reorder administration: its invariant, the effect of every branch of
  \<open>nn_reorder_rsample\<close> and \<open>nn_reorder_gap\<close> on the intervals, and that no assertion fails.
\<close>

section \<open>Chains and intervals\<close>

text \<open>
  The elements of a chain take increasing sequence numbers from \<open>lo\<close> to below \<open>hi\<close>; a gap
  element, which has no sample information, takes some number of its own.
\<close>

fun placed :: "seqno \<Rightarrow> seqno \<Rightarrow> rsample_chain_elem list \<Rightarrow> bool" where
  "placed lo hi [] \<longleftrightarrow> lo \<le> hi"
| "placed lo hi (e # es) \<longleftrightarrow>
     (case sce_sampleinfo e of
        None \<Rightarrow> placed (lo + 1) hi es
      | Some i \<Rightarrow> lo \<le> si_seq i \<and> placed (si_seq i + 1) hi es)"

definition seqs :: "rsample_chain_elem list \<Rightarrow> seqno set" where
  "seqs es = {q. \<exists>e\<in>set es. \<exists>i. sce_sampleinfo e = Some i \<and> si_seq i = q}"

definition iv_wf :: "rsample \<Rightarrow> bool" where
  "iv_wf iv \<longleftrightarrow> rs_sc iv \<noteq> [] \<and> rs_n_samples iv = length (rs_sc iv) \<and>
     placed (rs_min iv) (rs_maxp1 iv) (rs_sc iv)"

text \<open>Non-overlapping, non-consecutive intervals above the next sequence number.\<close>

definition ivs_wf :: "seqno \<Rightarrow> rsample list \<Rightarrow> bool" where
  "ivs_wf nxt ivs \<longleftrightarrow> sorted_wrt (\<lambda>a b. rs_maxp1 a < rs_min b) ivs \<and>
     (\<forall>iv\<in>set ivs. iv_wf iv \<and> nxt < rs_min iv)"

definition chains :: "rsample list \<Rightarrow> rsample_chain_elem list" where
  "chains ivs = concat (map rs_sc ivs)"

definition cov :: "rsample list \<Rightarrow> seqno set" where
  "cov ivs = (\<Union>iv\<in>set ivs. {rs_min iv..<rs_maxp1 iv})"

definition chain_frags :: "rsample_chain_elem list \<Rightarrow> rdata list" where
  "chain_frags es = concat (map sce_fragchain es)"

abbreviation ivs_of :: "nn_reorder \<Rightarrow> rsample list" where
  "ivs_of r \<equiv> inorder (sampleivtree r)"

definition reorder_ok :: "nn_reorder \<Rightarrow> bool" where
  "reorder_ok r \<longleftrightarrow> index_ok rtree (sampleivtree r) \<and> ivs_wf (next_seq r) (ivs_of r) \<and>
     max_sampleiv r = max_iv (sampleivtree r) \<and>
     ro_n_samples r = length (chains (ivs_of r)) \<and> ro_n_samples r \<le> ro_max_samples r \<and>
     (ro_mode r \<noteq> NN_REORDER_MODE_NORMAL \<longrightarrow> ivs_of r = [])"

text \<open>Every fragment stored holds a reference.\<close>

definition refs_cover :: "nn_reorder \<Rightarrow> refs \<Rightarrow> bool" where
  "refs_cover r R \<longleftrightarrow> (\<forall>m. held_in m (chain_frags (chains (ivs_of r))) \<le> R m)"

lemma placed_le: "placed lo hi es \<Longrightarrow> lo + length es \<le> hi"
  by (induction es arbitrary: lo) (fastforce split: option.splits)+

lemma placed_mono: "placed lo hi es \<Longrightarrow> lo' \<le> lo \<Longrightarrow> hi \<le> hi' \<Longrightarrow> placed lo' hi' es"
  by (induction es arbitrary: lo lo') (auto split: option.splits)

lemma placed_append: "placed lo m es \<Longrightarrow> placed m' hi fs \<Longrightarrow> m \<le> m' \<Longrightarrow> placed lo hi (es @ fs)"
  by (induction es arbitrary: lo) (auto split: option.splits intro: placed_mono)

lemma placed_butlast: "placed lo hi (es @ [e]) \<Longrightarrow> placed lo (hi - 1) es"
  by (induction es arbitrary: lo) (auto split: option.splits)

lemma placed_last2: "placed lo hi (es @ [a, b]) \<Longrightarrow> sce_sampleinfo a = Some i \<Longrightarrow> si_seq i + 1 < hi"
  by (induction es arbitrary: lo) (auto split: option.splits)

lemma placed_seqs: "placed lo hi es \<Longrightarrow> q \<in> seqs es \<Longrightarrow> lo \<le> q \<and> q < hi"
proof (induction es arbitrary: lo)
  case (Cons e es)
  then show ?case
  proof (cases "sce_sampleinfo e")
    case None
    with Cons.prems have "placed (lo + 1) hi es" "q \<in> seqs es" by (auto simp: seqs_def)
    from Cons.IH [OF this] show ?thesis by simp
  next
    case (Some i)
    with Cons.prems have p: "lo \<le> si_seq i" "placed (si_seq i + 1) hi es" by auto
    show ?thesis
    proof (cases "q = si_seq i")
      case True
      with p placed_le [OF p(2)] show ?thesis by simp
    next
      case False
      with Cons.prems(2) Some have "q \<in> seqs es" by (auto simp: seqs_def)
      from Cons.IH [OF p(2) this] p(1) show ?thesis by simp
    qed
  qed
qed (simp add: seqs_def)

lemma seqs_simps [simp]:
  "seqs [] = {}" "seqs (es @ fs) = seqs es \<union> seqs fs"
  "seqs (e # es) = (case sce_sampleinfo e of None \<Rightarrow> {} | Some i \<Rightarrow> {si_seq i}) \<union> seqs es"
  by (auto simp: seqs_def split: option.splits)

lemma chains_simps [simp]:
  "chains [] = []" "chains (v # vs) = rs_sc v @ chains vs" "chains (us @ vs) = chains us @ chains vs"
  by (simp_all add: chains_def)

lemma cov_simps [simp]:
  "cov [] = {}" "cov (v # vs) = {rs_min v..<rs_maxp1 v} \<union> cov vs" "cov (us @ vs) = cov us \<union> cov vs"
  by (auto simp: cov_def)

lemma chain_frags_simps [simp]:
  "chain_frags [] = []" "chain_frags (e # es) = sce_fragchain e @ chain_frags es"
  "chain_frags (es @ fs) = chain_frags es @ chain_frags fs"
  by (simp_all add: chain_frags_def)

lemma ivs_wf_simps [simp]:
  "ivs_wf nxt []"
  "ivs_wf nxt (v # vs) \<longleftrightarrow> iv_wf v \<and> nxt < rs_min v \<and> (\<forall>u\<in>set vs. rs_maxp1 v < rs_min u) \<and> ivs_wf nxt vs"
  "ivs_wf nxt (us @ vs) \<longleftrightarrow> ivs_wf nxt us \<and> ivs_wf nxt vs \<and> (\<forall>u\<in>set us. \<forall>v\<in>set vs. rs_maxp1 u < rs_min v)"
  by (auto simp: ivs_wf_def sorted_wrt_append)

lemma iv_wf_bounds:
  "iv_wf iv \<Longrightarrow> rs_min iv + rs_n_samples iv \<le> rs_maxp1 iv \<and> rs_min iv < rs_maxp1 iv \<and> 1 \<le> rs_n_samples iv"
  using placed_le [of "rs_min iv" "rs_maxp1 iv" "rs_sc iv"]
  by (cases "rs_sc iv") (auto simp: iv_wf_def)

lemma ivs_wf_mono: "ivs_wf nxt ivs \<Longrightarrow> \<forall>v\<in>set ivs. nxt' < rs_min v \<Longrightarrow> ivs_wf nxt' ivs"
  by (auto simp: ivs_wf_def)

lemma max_iv_last: "max_iv t = map_option rs_min (last_opt (inorder t))"
  by (simp add: max_iv_def find_max_inorder)

text \<open>Two intervals joined.\<close>

lemma append_wf:
  assumes "iv_wf a" "iv_wf b" "rs_maxp1 a \<le> rs_min b"
  shows "iv_wf (append_rsample_interval a b)"
  using assms placed_append [of "rs_min a" "rs_maxp1 a" "rs_sc a" "rs_min b" "rs_maxp1 b" "rs_sc b"]
  by (auto simp: iv_wf_def append_rsample_interval_def)

text \<open>The sample that comes in: one element, with its information.\<close>

definition sample_in :: "rsample \<Rightarrow> bool" where
  "sample_in s \<longleftrightarrow> (\<exists>e i. s = \<lparr>rs_sc = [e], rs_min = si_seq i, rs_maxp1 = si_seq i + 1, rs_n_samples = 1\<rparr> \<and>
     sce_sampleinfo e = Some i)"

lemma sample_inD:
  assumes "sample_in s"
  obtains e i where "rs_sc s = [e]" "sce_sampleinfo e = Some i" "rs_min s = si_seq i"
    "rs_maxp1 s = si_seq i + 1" "rs_n_samples s = 1"
  using assms by (auto simp: sample_in_def)

lemma sample_in_wf: "sample_in s \<Longrightarrow> iv_wf s \<and> rsample_is_singleton s = Some True"
  by (auto simp: sample_in_def iv_wf_def rsample_is_singleton_def)

lemma reorder_okD:
  assumes "reorder_ok r"
  shows "index_ok rtree (sampleivtree r)" "ivs_wf (next_seq r) (ivs_of r)"
    "max_sampleiv r = max_iv (sampleivtree r)" "ro_n_samples r = length (chains (ivs_of r))"
    "ro_n_samples r \<le> ro_max_samples r"
  using assms by (auto simp: reorder_ok_def)

lemma reorder_asserts: "reorder_ok r \<Longrightarrow> reorder_asserts r"
  using reorder_okD [of r]
  by (auto simp: reorder_asserts_def find_min_inorder max_iv_last is_empty_def hd_opt_Some
      split: option.split)

section \<open>Discarding and delivering\<close>

lemma discard_sample_eq:
  assumes "sample_in s"
  shows "\<exists>b. discard_sample r R s res = Some (res, [], r\<lparr>ro_discarded_bytes := b\<rparr>, R, 0)"
proof -
  obtain e i where "rs_sc s = [e]" "sce_sampleinfo e = Some i" using assms by (auto simp: sample_in_def)
  then show ?thesis by (auto simp: discard_sample_def)
qed

lemma reorder_ok_discard: "reorder_ok (r\<lparr>ro_discarded_bytes := b\<rparr>) = reorder_ok r"
  by (simp add: reorder_ok_def)

text \<open>The first interval, where it follows the sample directly, goes out with it.\<close>

lemma deliver_sample_spec:
  assumes ok: "reorder_ok r" and s: "sample_in s"
    and nxt: "rs_min s = next_seq r \<or> ivs_of r = []"
    and span: "\<forall>v\<in>set (ivs_of r). rs_maxp1 v - next_seq r \<le> INT32_MAX"
  shows "\<exists>us vs r'. ivs_of r = us @ vs \<and> (us = [] \<or> (\<exists>u. us = [u] \<and> rs_min u = rs_maxp1 s)) \<and>
    deliver_sample r R s = Some (int (length (rs_sc s @ chains us)), rs_sc s @ chains us, r', R, 1) \<and>
    ivs_of r' = vs \<and> next_seq r' = (if us = [] then rs_maxp1 s else rs_maxp1 (hd us)) \<and>
    placed (rs_min s) (next_seq r') (rs_sc s @ chains us) \<and> reorder_ok r' \<and>
    ro_max_samples r' = ro_max_samples r"
proof -
  note rok = reorder_okD [OF ok]
  have wf: "iv_wf s" and one: "rs_maxp1 s = rs_min s + 1" "rs_n_samples s = 1"
    using sample_in_wf [OF s] s by (auto simp: sample_in_def)
  have i32: "1 \<le> INT32_MAX" by (simp add: INT32_MAX_def)
  have pl: "placed (rs_min s) (rs_maxp1 s) (rs_sc s)" "length (rs_sc s) = 1" using wf one(2) by (auto simp: iv_wf_def)
  show ?thesis
  proof (cases "ivs_of r")
    case Nil
    then have mx: "max_sampleiv r = None" using rok(3) by (simp add: max_iv_last)
    then have "deliver_sample r R s = Some (1, rs_sc s, r\<lparr>next_seq := rs_maxp1 s\<rparr>, R, 1)"
      using one i32 by (simp add: deliver_sample_def)
    moreover have "reorder_ok (r\<lparr>next_seq := rs_maxp1 s\<rparr>)" using ok Nil by (simp add: reorder_ok_def)
    ultimately show ?thesis using Nil pl by (intro exI [of _ "[]"] exI [of _ "[]"] exI [of _ "r\<lparr>next_seq := rs_maxp1 s\<rparr>"]) simp
  next
    case (Cons u us)
    have mx: "max_sampleiv r \<noteq> None"
      using rok(3) Cons by (cases us rule: rev_cases) (auto simp: max_iv_last)
    have fm: "find_min (sampleivtree r) = Some u" using Cons by (simp add: find_min_inorder)
    have q: "rs_min s = next_seq r" using nxt Cons by simp
    have u: "iv_wf u" "rs_maxp1 s \<le> rs_min u" "\<forall>v\<in>set us. rs_maxp1 u < rs_min v" "ivs_wf (next_seq r) us"
      using rok(2) Cons q one(1) by auto
    show ?thesis
    proof (cases "rs_maxp1 s < rs_min u")
      case True
      let ?r = "r\<lparr>next_seq := rs_maxp1 s\<rparr>"
      have "deliver_sample r R s = Some (1, rs_sc s, ?r, R, 1)"
        using mx fm True one i32 by (simp add: deliver_sample_def reorder_try_append_and_discard_def)
      moreover have "ivs_wf (rs_maxp1 s) (ivs_of r)"
      proof (rule ivs_wf_mono [OF rok(2)])
        show "\<forall>v\<in>set (ivs_of r). rs_maxp1 s < rs_min v"
          using Cons u(3) True iv_wf_bounds [OF u(1)] by fastforce
      qed
      then have "reorder_ok ?r" using ok by (simp add: reorder_ok_def)
      ultimately show ?thesis using Cons pl
        by (intro exI [of _ "[]"] exI [of _ "u # us"] exI [of _ ?r]) simp
    next
      case False
      then have eq: "rs_min u = rs_maxp1 s" using u(2) by simp
      obtain t where t: "avl_delete rtree (sampleivtree r) u = Some t" "index_ok rtree t" "inorder t = us"
        using rivs.del_law [OF rok(1), of "[]" u us] Cons by auto
      let ?mx = "if max_sampleiv r = Some (rs_min u) then None else max_sampleiv r"
      have mx': "?mx = max_iv t"
      proof (cases us rule: rev_cases)
        case Nil
        then show ?thesis using rok(3) Cons t(3) by (simp add: max_iv_last)
      next
        case (snoc ws w)
        then have "rs_min u < rs_min w" using u(3) iv_wf_bounds [OF u(1)] by fastforce
        then show ?thesis using rok(3) Cons t(3) snoc by (simp add: max_iv_last)
      qed
      let ?s = "append_rsample_interval s u"
      let ?r = "r\<lparr>sampleivtree := t, max_sampleiv := ?mx, next_seq := rs_maxp1 u,
                  ro_n_samples := ro_n_samples r - rs_n_samples u\<rparr>"
      have s': "rs_min ?s = next_seq r" "rs_maxp1 ?s = rs_maxp1 u" "rs_n_samples ?s = 1 + rs_n_samples u"
        "rs_sc ?s = rs_sc s @ rs_sc u"
        using q one(2) by (simp_all add: append_rsample_interval_def)
      have wf': "iv_wf ?s" by (rule append_wf [OF wf u(1)]) (simp add: eq)
      note b = iv_wf_bounds [OF wf']
      have n: "rs_n_samples u \<le> ro_n_samples r" "rs_n_samples u = length (rs_sc u)"
        using rok(4) Cons u(1) by (auto simp: iv_wf_def)
      have a: "assertion (1 \<le> rs_maxp1 ?s - rs_min ?s) = Some ()"
        "assertion (rs_maxp1 ?s - rs_min ?s \<le> INT32_MAX) = Some ()"
        "assertion (rs_min ?s + rs_n_samples ?s \<le> rs_maxp1 ?s) = Some ()"
        "assertion (rs_n_samples ?s - 1 \<le> ro_n_samples r) = Some ()"
        using span Cons b n(1) s' by auto
      have tr: "reorder_try_append_and_discard r (sampleivtree r) s (Some u) =
          Some (max_sampleiv r = Some (rs_min u), t, ?s)"
        using eq t(1) by (simp add: reorder_try_append_and_discard_def)
      have code: "deliver_sample r R s = Some (int (rs_n_samples ?s), rs_sc ?s, ?r, R, 1)"
        unfolding deliver_sample_def fm tr if_P [OF mx] using a s'
        by (simp del: assertion_simps)
      have "ivs_wf (rs_maxp1 u) us" by (rule ivs_wf_mono [OF u(4) u(3)])
      then have "reorder_ok ?r"
        using ok t(2,3) mx' Cons rok(4,5) n(2) by (auto simp: reorder_ok_def)
      moreover have "placed (rs_min s) (rs_maxp1 u) (rs_sc s @ rs_sc u)"
        using wf' s' q by (simp add: iv_wf_def)
      ultimately show ?thesis using code Cons t(3) eq s' n(2) pl(2)
        by (intro exI [of _ "[u]"] exI [of _ us] exI [of _ ?r]) simp
    qed
  qed
qed

section \<open>Storing\<close>

text \<open>The interval with the greatest numbers.\<close>

lemma max_lookup:
  assumes "reorder_ok r" "ivs_of r = us @ [l]"
  shows "max_sampleiv r = Some (rs_min l)" "lookup rtree (sampleivtree r) (rs_min l) = Some l"
  using reorder_okD [OF assms(1)] assms(2) rivs.get_at [of "sampleivtree r" us l "[]"]
  by (simp_all add: max_iv_last)

lemma add_rsampleiv_spec:
  assumes idx: "index_ok rtree t" and e: "inorder t = xs @ ys"
    and k: "\<forall>x\<in>set xs. rs_min x < rs_min s" "\<forall>y\<in>set ys. rs_min s < rs_min y"
  shows "\<exists>t'. reorder_add_rsampleiv t s = Some t' \<and> index_ok rtree t' \<and> inorder t' = xs @ s # ys"
proof -
  obtain n q where lp: "lookup_path rtree t (rs_min s) [] = (n, q)"
    by (cases "lookup_path rtree t (rs_min s) []")
  have ws: "weakly_sorted_by (td_key rtree) (inorder t)"
    using rivs.ok_sorted [OF idx] by (rule sorted_by_weak)
  have "rs_min s \<notin> rs_min ` set (inorder t)" using k unfolding e by auto
  then have "n = Null" using lookup_path_None_iff [OF rivs.orders ws lp] by simp
  then have "fst (lookup_ipath rtree t (rs_min s)) = None" by (simp add: lookup_ipath_def lp)
  moreover obtain t' where "insert_at rtree t (rs_min s) s = Some t'" "index_ok rtree t'"
    "inorder t' = xs @ s # ys"
    using rivs.ins_at_law [OF idx e, of "rs_min s" s] k by auto
  ultimately show ?thesis by (simp add: reorder_add_rsampleiv_def)
qed

lemma store_at_end_spec:
  assumes ok: "reorder_ok r" and s: "sample_in s" and n: "ro_n_samples r < ro_max_samples r"
    and gap: "\<forall>v\<in>set (ivs_of r). rs_maxp1 v < rs_min s" "next_seq r < rs_min s"
    and mode: "ro_mode r = NN_REORDER_MODE_NORMAL"
  shows "\<exists>r'. store_at_end r R s = Some (NN_REORDER_ACCEPT, [], r', R, 1) \<and> reorder_ok r' \<and>
    ivs_of r' = ivs_of r @ [s] \<and> next_seq r' = next_seq r \<and> ro_max_samples r' = ro_max_samples r"
proof -
  note rok = reorder_okD [OF ok]
  have wf: "iv_wf s" using sample_in_wf [OF s] by simp
  have "rs_min v < rs_min s" if "v \<in> set (ivs_of r)" for v
  proof -
    have "iv_wf v" using rok(2) that by (simp add: ivs_wf_def)
    with gap(1) that iv_wf_bounds [of v] show ?thesis by fastforce
  qed
  then obtain t where t: "reorder_add_rsampleiv (sampleivtree r) s = Some t" "index_ok rtree t"
    "inorder t = ivs_of r @ [s]"
    using add_rsampleiv_spec [OF rok(1), of "ivs_of r" "[]" s] by auto
  let ?r = "r\<lparr>sampleivtree := t, max_sampleiv := Some (rs_min s), ro_n_samples := ro_n_samples r + 1\<rparr>"
  have "reorder_ok ?r"
    using t wf gap rok n mode s by (auto simp: reorder_ok_def max_iv_last sample_in_def)
  with t show ?thesis by (auto simp: store_at_end_def)
qed

lemma grow_last_spec:
  assumes ok: "reorder_ok r" and s: "sample_in s" and n: "ro_n_samples r < ro_max_samples r"
    and e: "ivs_of r = us @ [l]" and q: "rs_min s = rs_maxp1 l"
  shows "\<exists>r'. grow_last r R l s = Some (NN_REORDER_ACCEPT, [], r', R, 1) \<and> reorder_ok r' \<and>
    ivs_of r' = us @ [append_rsample_interval l s] \<and> next_seq r' = next_seq r \<and>
    ro_max_samples r' = ro_max_samples r"
proof -
  note rok = reorder_okD [OF ok]
  let ?l = "append_rsample_interval l s"
  have l: "iv_wf l" "next_seq r < rs_min l" "\<forall>u\<in>set us. rs_maxp1 u < rs_min l"
    using rok(2) e by auto
  have wf: "iv_wf ?l" using append_wf [OF l(1)] sample_in_wf [OF s] q by simp
  have m: "rs_min ?l = rs_min l" "rs_sc ?l = rs_sc l @ rs_sc s" by (simp_all add: append_rsample_interval_def)
  have key: "\<forall>x\<in>set us. rs_min x < rs_min ?l"
    using rivs.split_keys(1) [OF rok(1), of us l "[]"] e m(1) by simp
  obtain t where t: "write_node rtree (sampleivtree r) l ?l = Some t" "index_ok rtree t"
    "inorder t = us @ [?l]"
    using rivs.wr_law [OF rok(1), of us l "[]" ?l] e key by auto
  let ?r = "r\<lparr>sampleivtree := t, ro_n_samples := ro_n_samples r + 1\<rparr>"
  have "reorder_ok ?r"
    using t wf l rok n e m s ok by (auto simp: reorder_ok_def max_iv_last sample_in_def)
  with t show ?thesis by (auto simp: grow_last_def)
qed

text \<open>Where a sample in front of the last interval's end goes.\<close>

definition inserted :: "seqno \<Rightarrow> rsample list \<Rightarrow> rsample \<Rightarrow> rsample list \<Rightarrow> bool" where
  "inserted nxt ivs s ivs' \<longleftrightarrow> ivs_wf nxt ivs' \<and> cov ivs' = insert (rs_min s) (cov ivs) \<and>
     (\<exists>as bs. chains ivs = as @ bs \<and> chains ivs' = as @ rs_sc s @ bs) \<and>
     (\<exists>us l vs l'. ivs = us @ [l] \<and> ivs' = vs @ [l'] \<and> rs_maxp1 l' = rs_maxp1 l \<and>
        last (rs_sc l') = last (rs_sc l) \<and> (vs \<noteq> [] \<or> length (rs_sc l') \<noteq> 1))"

text \<open>The last interval of a list, as a pair of end and last element.\<close>

lemma inserted_tail:
  assumes "vs \<noteq> []"
  shows "\<exists>us l ws l'. xs @ vs = us @ [l] \<and> ys @ vs = ws @ [l'] \<and> rs_maxp1 l' = rs_maxp1 l \<and>
    last (rs_sc l') = last (rs_sc l) \<and> (ys \<noteq> [] \<longrightarrow> ws \<noteq> [])"
proof -
  obtain zs z where "vs = zs @ [z]" using assms rev_exhaust by blast
  then show ?thesis by (intro exI [of _ "xs @ zs"] exI [of _ z] exI [of _ "ys @ zs"] exI [of _ z]) simp
qed

lemma insert_apart_spec:
  assumes ok: "reorder_ok r" and s: "sample_in s" and e: "ivs_of r = xs @ ys" and "ys \<noteq> []"
    and below: "\<forall>x\<in>set xs. rs_maxp1 x < rs_min s" and above: "\<forall>y\<in>set ys. rs_maxp1 s \<le> rs_min y"
    and nxt: "next_seq r < rs_min s"
  shows "\<exists>t m. insert_apart r s (lookup rtree (sampleivtree r) (rs_maxp1 s)) =
      Some (r\<lparr>sampleivtree := t, max_sampleiv := m\<rparr>) \<and>
    index_ok rtree t \<and> m = max_iv t \<and> inserted (next_seq r) (ivs_of r) s (inorder t)"
proof -
  note rok = reorder_okD [OF ok]
  have wf: "iv_wf s" and s1: "rs_maxp1 s = rs_min s + 1" "rs_n_samples s = 1" "length (rs_sc s) = 1"
    using sample_in_wf [OF s] s by (auto simp: sample_in_def)
  have xs: "rs_min x < rs_min s" if "x \<in> set xs" for x
  proof -
    have "iv_wf x" using rok(2) e that by (simp add: ivs_wf_def)
    with below that iv_wf_bounds [of x] show ?thesis by fastforce
  qed
  then have xs1: "\<forall>x\<in>set xs. rs_min x < rs_maxp1 s" using s1(1) by (auto simp: less_Suc_eq)
  note nx = rivs.get_gap [OF rok(1) e, unfolded rtree_key, OF xs1 above]
  show ?thesis
  proof (cases "lookup rtree (sampleivtree r) (rs_maxp1 s)")
    case None
    then have gt: "\<forall>y\<in>set ys. rs_maxp1 s < rs_min y" using nx by simp
    have "\<forall>y\<in>set ys. rs_min s < rs_min y" using gt s1(1) by auto
    then obtain t where t: "reorder_add_rsampleiv (sampleivtree r) s = Some t" "index_ok rtree t"
      "inorder t = xs @ s # ys"
      using add_rsampleiv_spec [OF rok(1) e] xs by blast
    have "ivs_wf (next_seq r) (inorder t)" using rok(2) t(3) e wf below gt nxt by auto
    moreover have "cov (inorder t) = insert (rs_min s) (cov (ivs_of r))"
      using t(3) e s1(1) by (auto simp: less_Suc_eq)
    moreover have "\<exists>as bs. chains (ivs_of r) = as @ bs \<and> chains (inorder t) = as @ rs_sc s @ bs"
      using t(3) e by (intro exI [of _ "chains xs"] exI [of _ "chains ys"]) simp
    moreover have "\<exists>us l vs l'. ivs_of r = us @ [l] \<and> inorder t = vs @ [l'] \<and> rs_maxp1 l' = rs_maxp1 l \<and>
        last (rs_sc l') = last (rs_sc l) \<and> (vs \<noteq> [] \<or> length (rs_sc l') \<noteq> 1)"
      using inserted_tail [OF assms(4), of xs "xs @ [s]"] t(3) e by fastforce
    ultimately have "inserted (next_seq r) (ivs_of r) s (inorder t)" by (simp add: inserted_def)
    moreover have "max_sampleiv r = max_iv t"
      using rok(3) e t(3) assms(4) by (cases ys rule: rev_cases) (simp_all add: max_iv_last)
    ultimately show ?thesis using t None
      by (intro exI [of _ t] exI [of _ "max_sampleiv r"]) (simp add: insert_apart_def)
  next
    case (Some u)
    then obtain zs where u: "rs_min u = rs_maxp1 s" "ys = u # zs" using nx by auto
    let ?m = "u\<lparr>rs_sc := rs_sc s @ rs_sc u, rs_min := rs_min s, rs_n_samples := rs_n_samples u + rs_n_samples s\<rparr>"
    have e': "ivs_of r = xs @ u # zs" using e u(2) by simp
    have uwf: "iv_wf u" "\<forall>z\<in>set zs. rs_maxp1 u < rs_min z" "ivs_wf (next_seq r) xs" "ivs_wf (next_seq r) zs"
      "\<forall>x\<in>set xs. \<forall>z\<in>set zs. rs_maxp1 x < rs_min z"
      using rok(2) e' by auto
    have mwf: "iv_wf ?m"
      using append_wf [OF wf uwf(1)] u(1) by (simp add: iv_wf_def append_rsample_interval_def)
    have key: "\<forall>x\<in>set xs. rs_min x < rs_min ?m" "\<forall>y\<in>set zs. rs_min ?m < rs_min y"
      using xs uwf(2) iv_wf_bounds [OF uwf(1)] u(1) s1(1) by auto
    obtain t1 where t1: "write_node rtree (sampleivtree r) u ?m = Some t1" "index_ok rtree t1"
      "inorder t1 = xs @ ?m # zs"
      using rivs.wr_law [OF rok(1) e', of ?m] key by auto
    obtain t2 where t2: "swap_node rtree t1 ?m ?m = Some t2" "index_ok rtree t2"
      "inorder t2 = xs @ ?m # zs"
      using rivs.swap_law [OF t1(2,3), of ?m] key by auto
    let ?mx = "if max_sampleiv r = Some (rs_min u) then Some (rs_min s) else max_sampleiv r"
    have "ivs_wf (next_seq r) (inorder t2)"
      using t2(3) mwf below uwf nxt by simp
    moreover have "cov (inorder t2) = insert (rs_min s) (cov (ivs_of r))"
      using t2(3) e' u(1) s1(1) iv_wf_bounds [OF uwf(1)] by auto
    moreover have "\<exists>as bs. chains (ivs_of r) = as @ bs \<and> chains (inorder t2) = as @ rs_sc s @ bs"
      using t2(3) e' by (intro exI [of _ "chains xs"] exI [of _ "chains ys"]) (simp add: u(2))
    moreover have "\<exists>us l vs l'. ivs_of r = us @ [l] \<and> inorder t2 = vs @ [l'] \<and> rs_maxp1 l' = rs_maxp1 l \<and>
        last (rs_sc l') = last (rs_sc l) \<and> (vs \<noteq> [] \<or> length (rs_sc l') \<noteq> 1)"
    proof (cases "zs = []")
      case True
      have "rs_sc u \<noteq> []" using uwf(1) by (simp add: iv_wf_def)
      with True e' t2(3) s1(3) show ?thesis
        by (intro exI [of _ xs] exI [of _ u] exI [of _ xs] exI [of _ ?m]) auto
    next
      case False
      from inserted_tail [OF this, of "xs @ [u]" "xs @ [?m]"] e' t2(3) show ?thesis by fastforce
    qed
    ultimately have "inserted (next_seq r) (ivs_of r) s (inorder t2)" by (simp add: inserted_def)
    moreover have "?mx = max_iv t2"
    proof (cases zs rule: rev_cases)
      case Nil
      then show ?thesis using rok(3) e' t2(3) by (simp add: max_iv_last)
    next
      case (snoc ws w)
      then have "rs_min u < rs_min w" using uwf(1,2) iv_wf_bounds [OF uwf(1)] by fastforce
      then show ?thesis using rok(3) e' t2(3) snoc by (simp add: max_iv_last)
    qed
    ultimately show ?thesis using t1(1) t2(1,2) Some
      by (intro exI [of _ t2] exI [of _ ?mx]) (simp add: insert_apart_def Let_def)
  qed
qed

lemma insert_grow_spec:
  assumes ok: "reorder_ok r" and s: "sample_in s" and e: "ivs_of r = xs @ p # ys" and "ys \<noteq> []"
    and q: "rs_min s = rs_maxp1 p" and above: "\<forall>y\<in>set ys. rs_maxp1 s \<le> rs_min y"
  shows "\<exists>t m. insert_sample r s (Some p) (lookup rtree (sampleivtree r) (rs_maxp1 s)) =
      Some (r\<lparr>sampleivtree := t, max_sampleiv := m\<rparr>) \<and>
    index_ok rtree t \<and> m = max_iv t \<and> inserted (next_seq r) (ivs_of r) s (inorder t)"
proof -
  note rok = reorder_okD [OF ok]
  have wf: "iv_wf s" and s1: "rs_maxp1 s = rs_min s + 1" "rs_n_samples s = 1" "length (rs_sc s) = 1"
    using sample_in_wf [OF s] s by (auto simp: sample_in_def)
  let ?p = "append_rsample_interval p s"
  have p': "rs_min ?p = rs_min p" "rs_maxp1 ?p = rs_maxp1 s" "rs_sc ?p = rs_sc p @ rs_sc s"
    by (simp_all add: append_rsample_interval_def)
  have pwf: "iv_wf p" "next_seq r < rs_min p" "\<forall>x\<in>set xs. rs_maxp1 x < rs_min p" "ivs_wf (next_seq r) xs"
    "ivs_wf (next_seq r) ys" "\<forall>x\<in>set xs. \<forall>y\<in>set ys. rs_maxp1 x < rs_min y"
    using rok(2) e by auto
  have pwf': "iv_wf ?p" using append_wf [OF pwf(1) wf] q by simp
  have pl: "rs_min p < rs_maxp1 s" using iv_wf_bounds [OF pwf(1)] q s1(1) by simp
  note key = rivs.split_keys(1,2) [OF rok(1) e, simplified]
  obtain t1 where t1: "write_node rtree (sampleivtree r) p ?p = Some t1" "index_ok rtree t1"
    "inorder t1 = xs @ ?p # ys"
    using rivs.wr_law [OF rok(1) e, of ?p] key p'(1) by auto
  have e2: "ivs_of r = (xs @ [p]) @ ys" using e by simp
  have xs1: "\<forall>x\<in>set (xs @ [p]). rs_min x < rs_maxp1 s" using key(1) pl by auto
  note nx = rivs.get_gap [OF rok(1) e2, unfolded rtree_key, OF xs1 above]
  show ?thesis
  proof (cases "lookup rtree (sampleivtree r) (rs_maxp1 s)")
    case None
    then have gt: "\<forall>y\<in>set ys. rs_maxp1 s < rs_min y" using nx by simp
    obtain t3 where t3: "write_node rtree t1 ?p ?p = Some t3" "index_ok rtree t3"
      "inorder t3 = xs @ ?p # ys"
      using rivs.wr_law [OF t1(2,3), of ?p] key p'(1) by auto
    have "ivs_wf (next_seq r) (inorder t3)" using t3(3) pwf pwf' gt p' by simp
    moreover have "cov (inorder t3) = insert (rs_min s) (cov (ivs_of r))"
      using t3(3) e s1(1) q p' iv_wf_bounds [OF pwf(1)] by auto
    moreover have "\<exists>as bs. chains (ivs_of r) = as @ bs \<and> chains (inorder t3) = as @ rs_sc s @ bs"
      using t3(3) e p' by (intro exI [of _ "chains (xs @ [p])"] exI [of _ "chains ys"]) simp
    moreover have "\<exists>us l vs l'. ivs_of r = us @ [l] \<and> inorder t3 = vs @ [l'] \<and> rs_maxp1 l' = rs_maxp1 l \<and>
        last (rs_sc l') = last (rs_sc l) \<and> (vs \<noteq> [] \<or> length (rs_sc l') \<noteq> 1)"
      using inserted_tail [OF assms(4), of "xs @ [p]" "xs @ [?p]"] e t3(3) by fastforce
    ultimately have "inserted (next_seq r) (ivs_of r) s (inorder t3)" by (simp add: inserted_def)
    moreover have "max_sampleiv r = max_iv t3"
      using rok(3) e t3(3) assms(4) by (cases ys rule: rev_cases) (simp_all add: max_iv_last)
    ultimately show ?thesis using t1(1) t3(1,2) None q
      by (intro exI [of _ t3] exI [of _ "max_sampleiv r"])
        (simp add: insert_sample_def reorder_try_append_and_discard_def Let_def)
  next
    case (Some u)
    then obtain zs where u: "rs_min u = rs_maxp1 s" "ys = u # zs" using nx by auto
    let ?m = "append_rsample_interval ?p u"
    have m': "rs_min ?m = rs_min p" "rs_maxp1 ?m = rs_maxp1 u" "rs_sc ?m = rs_sc p @ rs_sc s @ rs_sc u"
      by (simp_all add: append_rsample_interval_def)
    have uwf: "iv_wf u" "\<forall>z\<in>set zs. rs_maxp1 u < rs_min z" "ivs_wf (next_seq r) zs"
      using pwf(5) u(2) by auto
    have mwf: "iv_wf ?m" using append_wf [OF pwf' uwf(1)] u(1) p'(2) by simp
    have e3: "inorder t1 = (xs @ [?p]) @ u # zs" using t1(3) u(2) by simp
    obtain t2 where t2: "avl_delete rtree t1 u = Some t2" "index_ok rtree t2" "inorder t2 = xs @ ?p # zs"
      using rivs.del_law [OF t1(2) e3] by auto
    obtain t3 where t3: "write_node rtree t2 ?p ?m = Some t3" "index_ok rtree t3"
      "inorder t3 = xs @ ?m # zs"
      using rivs.wr_law [OF t2(2,3), of ?m] key u(2) m'(1) by auto
    let ?mx = "if max_sampleiv r = Some (rs_min u) then Some (rs_min ?m) else max_sampleiv r"
    have "ivs_wf (next_seq r) (inorder t3)" using t3(3) pwf mwf uwf m' u(2) by simp
    moreover have "cov (inorder t3) = insert (rs_min s) (cov (ivs_of r))"
      using t3(3) e u s1(1) q m' iv_wf_bounds [OF pwf(1)] iv_wf_bounds [OF uwf(1)] by auto
    moreover have "\<exists>as bs. chains (ivs_of r) = as @ bs \<and> chains (inorder t3) = as @ rs_sc s @ bs"
      using t3(3) e u(2) m' by (intro exI [of _ "chains (xs @ [p])"] exI [of _ "chains ys"]) simp
    moreover have "\<exists>us l vs l'. ivs_of r = us @ [l] \<and> inorder t3 = vs @ [l'] \<and> rs_maxp1 l' = rs_maxp1 l \<and>
        last (rs_sc l') = last (rs_sc l) \<and> (vs \<noteq> [] \<or> length (rs_sc l') \<noteq> 1)"
    proof (cases "zs = []")
      case True
      have "rs_sc u \<noteq> []" using uwf(1) by (simp add: iv_wf_def)
      with True e u(2) t3(3) s1(3) m' show ?thesis
        by (intro exI [of _ "xs @ [p]"] exI [of _ u] exI [of _ xs] exI [of _ ?m]) auto
    next
      case False
      from inserted_tail [OF this, of "xs @ [p, u]" "xs @ [?m]"] e u(2) t3(3) show ?thesis by fastforce
    qed
    ultimately have "inserted (next_seq r) (ivs_of r) s (inorder t3)" by (simp add: inserted_def)
    moreover have "?mx = max_iv t3"
    proof (cases zs rule: rev_cases)
      case Nil
      then show ?thesis using rok(3) e u(2) t3(3) by (simp add: max_iv_last)
    next
      case (snoc ws w)
      then have "rs_min u < rs_min w" using uwf(1,2) iv_wf_bounds [OF uwf(1)] by fastforce
      then show ?thesis using rok(3) e u(2) t3(3) snoc by (simp add: max_iv_last)
    qed
    ultimately show ?thesis using t1(1) t2(1) t3(1,2) Some q u(1) p'(2)
      by (intro exI [of _ t3] exI [of _ ?mx])
        (simp add: insert_sample_def reorder_try_append_and_discard_def Let_def)
  qed
qed

section \<open>Deleting the last sample\<close>

definition trim :: "rsample \<Rightarrow> rsample" where
  "trim l = l\<lparr>rs_sc := butlast (rs_sc l), rs_maxp1 := rs_maxp1 l - 1, rs_n_samples := rs_n_samples l - 1\<rparr>"

definition drop_last :: "rsample list \<Rightarrow> rsample list" where
  "drop_last ivs = butlast ivs @ (if length (rs_sc (last ivs)) = 1 then [] else [trim (last ivs)])"

lemma chains_drop_last: "iv_wf l \<Longrightarrow> chains (drop_last (us @ [l])) = butlast (chains (us @ [l]))"
  by (cases "rs_sc l" rule: rev_cases) (auto simp: drop_last_def trim_def iv_wf_def butlast_append)

lemma drop_last_wf:
  assumes "ivs_wf nxt (us @ [l])"
  shows "ivs_wf nxt (drop_last (us @ [l]))"
proof (cases "length (rs_sc l) = 1")
  case True
  with assms show ?thesis by (simp add: drop_last_def)
next
  case False
  have l: "iv_wf l" using assms by simp
  then obtain es e where sc: "rs_sc l = es @ [e]" by (cases "rs_sc l" rule: rev_cases) (auto simp: iv_wf_def)
  have "placed (rs_min l) (rs_maxp1 l - 1) es" using l sc placed_butlast [of "rs_min l" "rs_maxp1 l" es e] by (simp add: iv_wf_def)
  then have "iv_wf (trim l)" using l sc False by (auto simp: iv_wf_def trim_def)
  with assms False show ?thesis by (simp add: drop_last_def trim_def)
qed

lemma delete_last_spec:
  assumes idx: "index_ok rtree (sampleivtree r)" and wf: "ivs_wf nxt (ivs_of r)"
    and mx: "max_sampleiv r = Some (rs_min l)" and n: "0 < ro_n_samples r"
    and e: "ivs_of r = us @ [l]" and two: "us \<noteq> [] \<or> length (rs_sc l) \<noteq> 1"
    and refs: "\<And>m. held_in m (sce_fragchain (last (rs_sc l))) \<le> R m"
  shows "\<exists>t b R'. delete_last_sample r R =
      Some (r\<lparr>sampleivtree := t, max_sampleiv := max_iv t, ro_discarded_bytes := b\<rparr>, R') \<and>
    index_ok rtree t \<and> inorder t = drop_last (us @ [l]) \<and>
    (\<forall>m. R' m + held_in m (sce_fragchain (last (rs_sc l))) = R m)"
proof -
  let ?e = "last (rs_sc l)"
  have l: "iv_wf l" using wf e by simp
  then have ne: "rs_sc l \<noteq> []" by (simp add: iv_wf_def)
  then have le: "last_opt (rs_sc l) = Some ?e" by (simp add: last_opt_def)
  have lk: "lookup rtree (sampleivtree r) (rs_min l) = Some l"
    using rivs.get_at [OF idx, of us l "[]"] e by simp
  obtain R' where R': "nn_fragchain_unref R (sce_fragchain ?e) = Some R'"
    "\<forall>m. R' m + held_in m (sce_fragchain ?e) = R m"
    using unref [OF refs] by blast
  let ?b = "ro_discarded_bytes r + info_size ?e"
  have an: "assertion (0 < ro_n_samples r) = Some ()" using n by simp
  show ?thesis
  proof (cases "length (rs_sc l) = 1")
    case True
    obtain t where t: "avl_delete rtree (sampleivtree r) l = Some t" "index_ok rtree t" "inorder t = us"
      using rivs.del_law [OF idx, of us l "[]"] e by auto
    have "max_iv t \<noteq> None" using two True t(3) by (simp add: max_iv_last)
    then have "delete_last_sample r R =
        Some (r\<lparr>sampleivtree := t, max_sampleiv := max_iv t, ro_discarded_bytes := ?b\<rparr>, R')"
      using mx lk le t(1) R'(1) an True by (simp add: delete_last_sample_def Let_def)
    with t R'(2) True show ?thesis by (auto simp: drop_last_def)
  next
    case False
    obtain es a where sc: "rs_sc l = es @ [a, ?e]"
      using ne False by (metis append_butlast_last_id append.assoc append_Cons append_Nil length_append_singleton
          list.size(3) One_nat_def)
    have "butlast (rs_sc l) = es @ [a]" by (subst sc) (simp add: butlast_append)
    then have pe: "last_opt (butlast (rs_sc l)) = Some a" by simp
    have key: "\<forall>x\<in>set us. rs_min x < rs_min (trim l)"
      using rivs.split_keys(1) [OF idx, of us l "[]"] e by (simp add: trim_def)
    obtain t where t: "write_node rtree (sampleivtree r) l (trim l) = Some t" "index_ok rtree t"
      "inorder t = us @ [trim l]"
      using rivs.wr_law [OF idx, of us l "[]" "trim l"] e key by auto
    have "case sce_sampleinfo a of None \<Rightarrow> True | Some i \<Rightarrow> si_seq i + 1 < rs_maxp1 l"
      using l sc placed_last2 [of "rs_min l" "rs_maxp1 l" es a ?e] by (auto simp: iv_wf_def split: option.split)
    moreover have "1 \<le> rs_n_samples l" "rs_min l + rs_n_samples l \<le> rs_maxp1 l"
      using iv_wf_bounds [OF l] by simp_all
    ultimately have as: "assertion (1 \<le> rs_n_samples l) = Some ()"
      "assertion (rs_min l + rs_n_samples l \<le> rs_maxp1 l) = Some ()"
      "assertion (case sce_sampleinfo a of None \<Rightarrow> True | Some i \<Rightarrow> si_seq i + 1 < rs_maxp1 l) = Some ()"
      by simp_all
    have mt: "max_iv t = max_sampleiv r" using t(3) mx by (simp add: max_iv_last trim_def)
    have "delete_last_sample r R = Some (r\<lparr>sampleivtree := t, ro_discarded_bytes := ?b\<rparr>, R')"
      unfolding delete_last_sample_def Let_def an mx option_bind_Some lk le if_not_P [OF False] as pe
      using t(1) R'(1) by (simp add: trim_def)
    moreover have "r\<lparr>sampleivtree := t, ro_discarded_bytes := ?b\<rparr> =
        r\<lparr>sampleivtree := t, max_sampleiv := max_iv t, ro_discarded_bytes := ?b\<rparr>"
      using mt by simp
    ultimately show ?thesis using t(2,3) R'(2) False by (auto simp: drop_last_def)
  qed
qed

section \<open>A sample, whatever its number\<close>

text \<open>What can happen to a sample: refused, delivered, stored, stored at the expense of the last.\<close>

definition refused :: "nn_reorder \<Rightarrow> refs \<Rightarrow> rsample \<Rightarrow> bool \<Rightarrow> reorder_result \<Rightarrow> bool" where
  "refused r R s full res \<longleftrightarrow> (case res of (c, sc, r', R', adj) \<Rightarrow>
     c < 0 \<and> sc = [] \<and> adj = 0 \<and> R' = R \<and> (\<exists>b. r' = r\<lparr>ro_discarded_bytes := b\<rparr>) \<and>
     (if c = NN_REORDER_TOO_OLD then rs_min s < next_seq r
      else full \<or> rs_min s \<in> cov (ivs_of r) \<or> ro_n_samples r = ro_max_samples r))"

definition sent :: "nn_reorder \<Rightarrow> refs \<Rightarrow> rsample \<Rightarrow> reorder_result \<Rightarrow> bool" where
  "sent r R s res \<longleftrightarrow> (case res of (c, sc, r', R', adj) \<Rightarrow>
     \<exists>us vs. ivs_of r = us @ vs \<and> (us = [] \<or> (\<exists>u. us = [u] \<and> rs_min u = rs_maxp1 s)) \<and>
       c = int (length sc) \<and> sc = rs_sc s @ chains us \<and> R' = R \<and> adj = 1 \<and> ivs_of r' = vs \<and>
       next_seq r' = (if us = [] then rs_maxp1 s else rs_maxp1 (hd us)) \<and>
       placed (rs_min s) (next_seq r') sc \<and> (rs_min s = next_seq r \<or> ro_mode r \<noteq> NN_REORDER_MODE_NORMAL))"

definition kept_sample :: "nn_reorder \<Rightarrow> refs \<Rightarrow> rsample \<Rightarrow> reorder_result \<Rightarrow> bool" where
  "kept_sample r R s res \<longleftrightarrow> (case res of (c, sc, r', R', adj) \<Rightarrow>
     c = NN_REORDER_ACCEPT \<and> sc = [] \<and> adj = 1 \<and> next_seq r' = next_seq r \<and> next_seq r < rs_min s \<and>
     rs_min s \<notin> cov (ivs_of r) \<and>
     ((R' = R \<and> ro_n_samples r < ro_max_samples r \<and> cov (ivs_of r') = insert (rs_min s) (cov (ivs_of r)) \<and>
       (\<exists>as bs. chains (ivs_of r) = as @ bs \<and> chains (ivs_of r') = as @ rs_sc s @ bs)) \<or>
      (ro_n_samples r = ro_max_samples r \<and>
       (\<exists>mid. inserted (next_seq r) (ivs_of r) s mid \<and> ivs_of r' = drop_last mid \<and>
         (\<forall>m. R' m + held_in m (sce_fragchain (last (chains mid))) = R m)))))"

definition outcome :: "nn_reorder \<Rightarrow> refs \<Rightarrow> rsample \<Rightarrow> bool \<Rightarrow> reorder_result \<Rightarrow> bool" where
  "outcome r R s full res \<longleftrightarrow> (case res of (c, sc, r', R', adj) \<Rightarrow>
     reorder_ok r' \<and> ro_max_samples r' = ro_max_samples r \<and> ro_mode r' = ro_mode r) \<and>
     (refused r R s full res \<or> sent r R s res \<or> kept_sample r R s res)"

lemma codes [simp]:
  "NN_REORDER_TOO_OLD < 0" "NN_REORDER_REJECT < 0" "NN_REORDER_REJECT \<noteq> NN_REORDER_TOO_OLD"
  by (simp_all add: NN_REORDER_TOO_OLD_def NN_REORDER_REJECT_def)

lemma refuse:
  assumes "reorder_ok r" "sample_in s" "c = NN_REORDER_TOO_OLD \<or> c = NN_REORDER_REJECT"
    and "if c = NN_REORDER_TOO_OLD then rs_min s < next_seq r
      else full \<or> rs_min s \<in> cov (ivs_of r) \<or> ro_n_samples r = ro_max_samples r"
  shows "\<exists>res. discard_sample r R s c = Some res \<and> outcome r R s full res"
proof -
  obtain b where b: "discard_sample r R s c = Some (c, [], r\<lparr>ro_discarded_bytes := b\<rparr>, R, 0)"
    using discard_sample_eq [OF assms(2)] by blast
  have "outcome r R s full (c, [], r\<lparr>ro_discarded_bytes := b\<rparr>, R, 0)"
    using assms(1,3,4) by (auto simp: outcome_def refused_def reorder_ok_discard)
  with b show ?thesis by blast
qed

lemma last_chains: "iv_wf l \<Longrightarrow> last (chains (us @ [l])) = last (rs_sc l)"
  by (simp add: iv_wf_def)

lemma held_last: "es \<noteq> [] \<Longrightarrow> held_in m (sce_fragchain (last es)) \<le> held_in m (chain_frags es)"
  by (cases es rule: rev_cases) simp_all

lemma not_cov:
  assumes "ivs_wf nxt (xs @ ys)" "\<forall>x\<in>set xs. rs_maxp1 x \<le> q" "\<forall>y\<in>set ys. q < rs_min y"
  shows "q \<notin> cov (xs @ ys)"
  using assms by (auto simp: cov_def ivs_wf_def not_less)

text \<open>Where the number falls, in front of the end of the last interval.\<close>

lemma insert_sample_spec:
  assumes ok: "reorder_ok r" and s: "sample_in s" and e: "ivs_of r = us @ [l]"
    and q: "rs_min s < rs_maxp1 l" "next_seq r < rs_min s"
    and free: "case lookup_pred_eq rtree (sampleivtree r) (rs_min s) of None \<Rightarrow> True
      | Some p \<Rightarrow> \<not> (rs_min p \<le> rs_min s \<and> rs_min s < rs_maxp1 p)"
  shows "\<exists>t m. insert_sample r s (lookup_pred_eq rtree (sampleivtree r) (rs_min s))
        (lookup rtree (sampleivtree r) (rs_maxp1 s)) =
      Some (r\<lparr>sampleivtree := t, max_sampleiv := m\<rparr>) \<and> index_ok rtree t \<and> m = max_iv t \<and>
    inserted (next_seq r) (ivs_of r) s (inorder t) \<and> rs_min s \<notin> cov (ivs_of r)"
proof -
  note rok = reorder_okD [OF ok]
  have s1: "rs_maxp1 s = rs_min s + 1" using s by (auto simp: sample_in_def)
  show ?thesis
  proof (cases "lookup_pred_eq rtree (sampleivtree r) (rs_min s)")
    case None
    then have gt: "\<forall>y\<in>set (ivs_of r). rs_min s < rs_min y" using rivs.pred_eq_None [OF rok(1)] by simp
    then have "rs_min s \<notin> cov (ivs_of r)" using not_cov [of "next_seq r" "[]" "ivs_of r"] rok(2) by simp
    moreover have "\<forall>y\<in>set (ivs_of r). rs_maxp1 s \<le> rs_min y" using gt s1 by auto
    from insert_apart_spec [OF ok s, of "[]" "ivs_of r", OF _ _ _ this q(2)] e obtain t m where
      "insert_apart r s (lookup rtree (sampleivtree r) (rs_maxp1 s)) =
        Some (r\<lparr>sampleivtree := t, max_sampleiv := m\<rparr>)" "index_ok rtree t" "m = max_iv t"
      "inserted (next_seq r) (ivs_of r) s (inorder t)" by auto
    ultimately show ?thesis using None by (auto simp: insert_sample_def)
  next
    case (Some p)
    from rivs.pred_eq_split [OF rok(1) Some] obtain xs ys where
      p: "ivs_of r = xs @ p # ys" "rs_min p \<le> rs_min s" "\<forall>y\<in>set ys. rs_min s < rs_min y" by auto
    have pm: "rs_maxp1 p \<le> rs_min s" using free Some p(2) by simp
    have ne: "ys \<noteq> []"
    proof
      assume "ys = []"
      with p(1) e have "p = l" by simp
      with pm q(1) show False by simp
    qed
    have wf: "iv_wf p" "\<forall>x\<in>set xs. rs_maxp1 x < rs_min p" using rok(2) p(1) by auto
    have above: "\<forall>y\<in>set ys. rs_maxp1 s \<le> rs_min y" using p(3) s1 by auto
    have e2: "ivs_of r = (xs @ [p]) @ ys" using p(1) by simp
    have xs: "\<forall>x\<in>set (xs @ [p]). rs_maxp1 x \<le> rs_min s"
      using wf iv_wf_bounds [OF wf(1)] pm by fastforce
    have nc: "rs_min s \<notin> cov (ivs_of r)"
      using not_cov [of "next_seq r" "xs @ [p]" ys "rs_min s"] rok(2) xs p(3) e2 by simp
    show ?thesis
    proof (cases "rs_min s = rs_maxp1 p")
      case True
      from insert_grow_spec [OF ok s p(1) ne True above] nc Some show ?thesis by auto
    next
      case False
      have "\<forall>x\<in>set (xs @ [p]). rs_maxp1 x < rs_min s"
        using wf iv_wf_bounds [OF wf(1)] pm False by fastforce
      from insert_apart_spec [OF ok s e2 ne this above q(2)] nc Some False show ?thesis
        by (auto simp: insert_sample_def)
    qed
  qed
qed

text \<open>Counting the new sample, or dropping the last one in its place.\<close>

definition tail_kept :: "rsample list \<Rightarrow> rsample list \<Rightarrow> bool" where
  "tail_kept ivs ivs' \<longleftrightarrow> (\<exists>us l vs l'. ivs = us @ [l] \<and> ivs' = vs @ [l'] \<and> rs_maxp1 l' = rs_maxp1 l \<and>
     last (rs_sc l') = last (rs_sc l) \<and> (vs \<noteq> [] \<or> length (rs_sc l') \<noteq> 1))"

lemma insertedD:
  assumes "inserted nxt ivs s mid" "length (rs_sc s) = 1"
  shows "ivs_wf nxt mid" "length (chains mid) = length (chains ivs) + 1" "tail_kept ivs mid"
    "cov mid = insert (rs_min s) (cov ivs)"
    "\<exists>as bs. chains ivs = as @ bs \<and> chains mid = as @ rs_sc s @ bs"
proof -
  show ex: "\<exists>as bs. chains ivs = as @ bs \<and> chains mid = as @ rs_sc s @ bs"
    using assms(1) unfolding inserted_def by (elim conjE)
  show "length (chains mid) = length (chains ivs) + 1" using ex assms(2) by auto
  show "tail_kept ivs mid" using assms(1) unfolding inserted_def tail_kept_def by (elim conjE)
  show "ivs_wf nxt mid" using assms(1) unfolding inserted_def by (elim conjE)
  show "cov mid = insert (rs_min s) (cov ivs)" using assms(1) unfolding inserted_def by (elim conjE)
qed

lemma make_room_spec:
  assumes ok: "reorder_ok r" and refs: "refs_cover r R" and mode: "ro_mode r = NN_REORDER_MODE_NORMAL"
    and idx: "index_ok rtree t" and wf: "ivs_wf (next_seq r) (inorder t)"
    and len: "length (chains (inorder t)) = ro_n_samples r + 1"
    and tail: "ro_n_samples r < ro_max_samples r \<or> tail_kept (ivs_of r) (inorder t)"
  defines "r1 \<equiv> r\<lparr>sampleivtree := t, max_sampleiv := max_iv t\<rparr>"
  shows "\<exists>r2 R2. (if ro_n_samples r1 < ro_max_samples r1
        then Some (r1\<lparr>ro_n_samples := ro_n_samples r1 + 1\<rparr>, R) else delete_last_sample r1 R) = Some (r2, R2) \<and>
    reorder_ok r2 \<and> next_seq r2 = next_seq r \<and> ro_max_samples r2 = ro_max_samples r \<and> ro_mode r2 = ro_mode r \<and>
    (if ro_n_samples r < ro_max_samples r then R2 = R \<and> ivs_of r2 = inorder t
     else ro_n_samples r = ro_max_samples r \<and> ivs_of r2 = drop_last (inorder t) \<and>
       (\<forall>m. R2 m + held_in m (sce_fragchain (last (chains (inorder t)))) = R m))"
proof -
  note rok = reorder_okD [OF ok]
  show ?thesis
  proof (cases "ro_n_samples r < ro_max_samples r")
    case True
    let ?r = "r1\<lparr>ro_n_samples := ro_n_samples r1 + 1\<rparr>"
    have "reorder_ok ?r" using idx wf len True mode by (simp add: reorder_ok_def r1_def)
    with True show ?thesis by (simp add: r1_def)
  next
    case False
    obtain us l vs l' where tl: "ivs_of r = us @ [l]" "inorder t = vs @ [l']" "rs_maxp1 l' = rs_maxp1 l"
      "last (rs_sc l') = last (rs_sc l)" "vs \<noteq> [] \<or> length (rs_sc l') \<noteq> 1"
      using tail False unfolding tail_kept_def by blast
    have l: "iv_wf l" "iv_wf l'" using rok(2) tl(1) wf tl(2) by auto
    have mx: "max_sampleiv r1 = Some (rs_min l')" using tl(2) by (simp add: r1_def max_iv_last)
    have ne: "chains (ivs_of r) \<noteq> []" using tl(1) l(1) by (simp add: iv_wf_def)
    then have n: "0 < ro_n_samples r1" using rok(4) by (simp add: r1_def)
    have "held_in m (sce_fragchain (last (rs_sc l'))) \<le> R m" for m
      using held_last [OF ne, of m] refs tl(1,4) last_chains [OF l(1), of us]
      by (fastforce simp: refs_cover_def intro: order_trans)
    then obtain t2 b R2 where d: "delete_last_sample r1 R =
        Some (r1\<lparr>sampleivtree := t2, max_sampleiv := max_iv t2, ro_discarded_bytes := b\<rparr>, R2)"
      "index_ok rtree t2" "inorder t2 = drop_last (vs @ [l'])"
      "\<forall>m. R2 m + held_in m (sce_fragchain (last (rs_sc l'))) = R m"
      using delete_last_spec [of r1 "next_seq r" l' vs R] idx wf mx n tl(2,5) by (auto simp: r1_def)
    let ?r = "r1\<lparr>sampleivtree := t2, max_sampleiv := max_iv t2, ro_discarded_bytes := b\<rparr>"
    have "length (chains (inorder t2)) = ro_n_samples r"
      using chains_drop_last [OF l(2), of vs] d(3) tl(2) len by simp
    moreover have "ivs_wf (next_seq r) (inorder t2)"
      using drop_last_wf [of "next_seq r" vs l'] wf tl(2) d(3) by simp
    ultimately have "reorder_ok ?r" using d(2) rok(5) mode by (simp add: reorder_ok_def r1_def)
    moreover have "last (chains (inorder t)) = last (rs_sc l')" using last_chains [OF l(2)] tl(2) by simp
    ultimately show ?thesis using d False rok(5) tl(2) by (simp add: r1_def)
  qed
qed

lemma hard_case_spec:
  assumes ok: "reorder_ok r" and refs: "refs_cover r R" and s: "sample_in s" and e: "ivs_of r = us @ [l]"
    and q: "rs_min s < rs_maxp1 l" "next_seq r < rs_min s" and mode: "ro_mode r = NN_REORDER_MODE_NORMAL"
  shows "\<exists>res. hard_case r R s full = Some res \<and> outcome r R s full res"
proof -
  note rok = reorder_okD [OF ok]
  let ?p = "lookup_pred_eq rtree (sampleivtree r) (rs_min s)"
  let ?dup = "case ?p of None \<Rightarrow> False | Some p \<Rightarrow> rs_min p \<le> rs_min s \<and> rs_min s < rs_maxp1 p"
  have one: "length (rs_sc s) = 1" using s by (auto simp: sample_in_def)
  consider "late_ack_mode r" "full" | "\<not> (late_ack_mode r \<and> full)" "?dup" | "\<not> (late_ack_mode r \<and> full)" "\<not> ?dup"
    by blast
  then show ?thesis
  proof cases
    case 1
    obtain res where res: "discard_sample r R s NN_REORDER_REJECT = Some res" "outcome r R s full res"
      using refuse [OF ok s, of NN_REORDER_REJECT full R] 1 by (simp, blast)
    have "hard_case r R s full = Some res"
      unfolding hard_case_def using 1 res(1) by simp
    with res(2) show ?thesis by blast
  next
    case 2
    then obtain p where p: "?p = Some p" "rs_min p \<le> rs_min s" "rs_min s < rs_maxp1 p"
      by (cases ?p) simp_all
    obtain xs ys where "ivs_of r = xs @ p # ys" using rivs.pred_eq_split [OF rok(1) p(1)] by blast
    then have "p \<in> set (ivs_of r)" by simp
    with p have "rs_min s \<in> cov (ivs_of r)" by (auto simp: cov_def)
    then obtain res where res: "discard_sample r R s NN_REORDER_REJECT = Some res" "outcome r R s full res"
      using refuse [OF ok s, of NN_REORDER_REJECT full R] by (simp, blast)
    have "hard_case r R s full = Some res"
      unfolding hard_case_def Let_def if_not_P [OF 2(1)] if_P [OF 2(2)] by (rule res(1))
    with res(2) show ?thesis by blast
  next
    case 3
    have free: "case ?p of None \<Rightarrow> True | Some p \<Rightarrow> \<not> (rs_min p \<le> rs_min s \<and> rs_min s < rs_maxp1 p)"
      using 3(2) by (auto split: option.splits)
    obtain t where t: "insert_sample r s ?p (lookup rtree (sampleivtree r) (rs_maxp1 s)) =
        Some (r\<lparr>sampleivtree := t, max_sampleiv := max_iv t\<rparr>)" "index_ok rtree t"
      "inserted (next_seq r) (ivs_of r) s (inorder t)" "rs_min s \<notin> cov (ivs_of r)"
      using insert_sample_spec [OF ok s e q free] by blast
    note ins = insertedD [OF t(3) one]
    have len: "length (chains (inorder t)) = ro_n_samples r + 1" using ins(2) rok(4) by simp
    let ?r1 = "r\<lparr>sampleivtree := t, max_sampleiv := max_iv t\<rparr>"
    obtain r2 R2 where r2: "(if ro_n_samples ?r1 < ro_max_samples ?r1
        then Some (?r1\<lparr>ro_n_samples := ro_n_samples ?r1 + 1\<rparr>, R) else delete_last_sample ?r1 R) = Some (r2, R2)"
      and p2: "reorder_ok r2" "next_seq r2 = next_seq r" "ro_max_samples r2 = ro_max_samples r"
        "ro_mode r2 = ro_mode r"
        "if ro_n_samples r < ro_max_samples r then R2 = R \<and> ivs_of r2 = inorder t
         else ro_n_samples r = ro_max_samples r \<and> ivs_of r2 = drop_last (inorder t) \<and>
           (\<forall>m. R2 m + held_in m (sce_fragchain (last (chains (inorder t)))) = R m)"
      using make_room_spec [OF ok refs mode t(2) ins(1) len] ins(3) by blast
    have code: "hard_case r R s full = Some (NN_REORDER_ACCEPT, [], r2, R2, 1)"
      unfolding hard_case_def Let_def if_not_P [OF 3(1)] if_not_P [OF 3(2)] t(1) option_bind_Some r2
      by simp
    have "kept_sample r R s (NN_REORDER_ACCEPT, [], r2, R2, 1)"
    proof (cases "ro_n_samples r < ro_max_samples r")
      case True
      have "\<exists>as bs. chains (ivs_of r) = as @ bs \<and> chains (inorder t) = as @ rs_sc s @ bs"
        "cov (inorder t) = insert (rs_min s) (cov (ivs_of r))"
        using ins(4,5) by blast+
      then show ?thesis unfolding kept_sample_def using True p2(2,5) t(4) q(2) by simp
    next
      case False
      have "\<exists>mid. inserted (next_seq r) (ivs_of r) s mid \<and> ivs_of r2 = drop_last mid \<and>
         (\<forall>m. R2 m + held_in m (sce_fragchain (last (chains mid))) = R m)"
        using p2(5) False t(3) by auto
      then show ?thesis unfolding kept_sample_def using False p2(2,5) t(4) q(2) by simp
    qed
    with code p2 show ?thesis by (auto simp: outcome_def)
  qed
qed

lemma reorder_rsample_spec:
  assumes ok: "reorder_ok r" and refs: "refs_cover r R" and s: "sample_in s"
    and span: "\<forall>v\<in>set (ivs_of r). rs_maxp1 v - next_seq r \<le> INT32_MAX"
  shows "\<exists>res. nn_reorder_rsample r R s full = Some res \<and> outcome r R s full res"
proof -
  note rok = reorder_okD [OF ok]
  let ?now = "rs_min s = next_seq r \<or>
        (next_seq r < rs_min s \<and> ro_mode r = NN_REORDER_MODE_MONOTONICALLY_INCREASING) \<or>
        ro_mode r = NN_REORDER_MODE_ALWAYS_DELIVER"
  have pre: "rsample_is_singleton s = Some True" "assertion True = Some ()"
    "assertion (reorder_asserts r) = Some ()"
    using sample_in_wf [OF s] reorder_asserts [OF ok] by simp_all
  note code = nn_reorder_rsample_def [of r R s full, unfolded pre option_bind_Some]
  note no = refuse [OF ok s, of _ full R]
  show ?thesis
  proof (cases ?now)
    case now: True
    show ?thesis
    proof (cases full)
      case True
      with no [of NN_REORDER_REJECT] now show ?thesis unfolding code by (simp only: if_True codes) auto
    next
      case False
      have "rs_min s = next_seq r \<or> ivs_of r = []"
        using now ok by (auto simp: reorder_ok_def)
      from deliver_sample_spec [OF ok s this span, of R] obtain us vs r' where
        d: "ivs_of r = us @ vs" "us = [] \<or> (\<exists>u. us = [u] \<and> rs_min u = rs_maxp1 s)"
        "deliver_sample r R s = Some (int (length (rs_sc s @ chains us)), rs_sc s @ chains us, r', R, 1)"
        "ivs_of r' = vs" "next_seq r' = (if us = [] then rs_maxp1 s else rs_maxp1 (hd us))"
        "placed (rs_min s) (next_seq r') (rs_sc s @ chains us)" "reorder_ok r'"
        "ro_max_samples r' = ro_max_samples r" by blast
      have m: "ro_mode r' = ro_mode r"
        using d(3) by (auto simp: deliver_sample_def reorder_try_append_and_discard_def
            split: if_splits option.splits bind_splits prod.splits)
      have "sent r R s (int (length (rs_sc s @ chains us)), rs_sc s @ chains us, r', R, 1)"
        using d now by (auto simp: sent_def)
      with d m False now show ?thesis unfolding code outcome_def by auto
    qed
  next
    case not_now: False
    then have ne: "rs_min s \<noteq> next_seq r" by simp
    show ?thesis
    proof (cases "rs_min s < next_seq r")
      case True
      with no [of NN_REORDER_TOO_OLD] not_now show ?thesis unfolding code by auto
    next
      case False
      then have gt: "next_seq r < rs_min s" using ne by simp
      then have mode: "ro_mode r = NN_REORDER_MODE_NORMAL"
        using not_now by (cases "ro_mode r") auto
      have kept: "outcome r R s full res"
        if "res = (NN_REORDER_ACCEPT, [], r', R, 1)" "reorder_ok r'" "next_seq r' = next_seq r"
          "ro_max_samples r' = ro_max_samples r" "ro_mode r' = ro_mode r" "ro_n_samples r < ro_max_samples r"
          "rs_min s \<notin> cov (ivs_of r)" "cov (ivs_of r') = insert (rs_min s) (cov (ivs_of r))"
          "chains (ivs_of r') = chains (ivs_of r) @ rs_sc s" for res r'
      proof -
        have "\<exists>as bs. chains (ivs_of r) = as @ bs \<and> chains (ivs_of r') = as @ rs_sc s @ bs"
          using that(9) by (intro exI [of _ "chains (ivs_of r)"] exI [of _ "[]"]) simp
        then have "kept_sample r R s res" unfolding kept_sample_def that(1) using that(3,6,7,8) gt by simp
        then show ?thesis unfolding outcome_def that(1) using that(2,4,5) by simp
      qed
      show ?thesis
      proof (cases "ivs_of r" rule: rev_cases)
        case Nil
        then have n0: "ro_n_samples r = 0" "is_empty (sampleivtree r)" using rok(4) by (simp_all add: is_empty_def)
        show ?thesis
        proof (cases "ro_max_samples r = 0")
          case True
          with no [of NN_REORDER_REJECT] n0 not_now False show ?thesis unfolding code by auto
        next
          case nz: False
          obtain r' where r': "store_at_end r R s = Some (NN_REORDER_ACCEPT, [], r', R, 1)" "reorder_ok r'"
            "ivs_of r' = [s]" "next_seq r' = next_seq r" "ro_max_samples r' = ro_max_samples r"
            using store_at_end_spec [OF ok s _ _ gt mode, of R] nz n0(1) Nil by auto
          have m: "ro_mode r' = ro_mode r" using r'(1) by (auto simp: store_at_end_def split: bind_splits)
          have "outcome r R s full (NN_REORDER_ACCEPT, [], r', R, 1)"
            using kept [OF refl r'(2,4,5) m] nz n0(1) r'(3) Nil s by (auto simp: sample_in_def)
          then show ?thesis unfolding code using not_now False n0 nz r'(1) by auto
        qed
      next
        case (snoc us l)
        have lk: "max_sampleiv r = Some (rs_min l)" "lookup rtree (sampleivtree r) (rs_min l) = Some l"
          using max_lookup [OF ok snoc] by simp_all
        have nempty: "\<not> is_empty (sampleivtree r)" using snoc by (auto simp: is_empty_def)
        have below: "rs_maxp1 v \<le> rs_maxp1 l" if "v \<in> set (ivs_of r)" for v
        proof (cases "v = l")
          case False
          then have "rs_maxp1 v < rs_min l" "iv_wf l" using rok(2) snoc that by auto
          with iv_wf_bounds [of l] show ?thesis by simp
        qed simp
        have out: "rs_min s \<notin> cov (ivs_of r)" if "rs_maxp1 l \<le> rs_min s"
          using below that by (fastforce simp: cov_def)
        note code' = code [unfolded if_not_P [OF not_now] if_not_P [OF False] if_not_P [OF nempty] lk option_bind_Some]
        consider "rs_min s = rs_maxp1 l" | "rs_maxp1 l < rs_min s" | "rs_min s < rs_maxp1 l" by linarith
        then show ?thesis
        proof cases
          case 3
          with hard_case_spec [OF ok refs s snoc 3 gt mode, of full] show ?thesis unfolding code' by simp
        next
          case 1
          show ?thesis
          proof (cases "full \<or> \<not> ro_n_samples r < ro_max_samples r")
            case True
            then have "full \<or> rs_min s \<in> cov (ivs_of r) \<or> ro_n_samples r = ro_max_samples r" using rok(5) by auto
            with no [of NN_REORDER_REJECT] 1 True show ?thesis unfolding code' by auto
          next
            case nf: False
            obtain r' where r': "grow_last r R l s = Some (NN_REORDER_ACCEPT, [], r', R, 1)" "reorder_ok r'"
              "ivs_of r' = us @ [append_rsample_interval l s]" "next_seq r' = next_seq r"
              "ro_max_samples r' = ro_max_samples r"
              using grow_last_spec [OF ok s _ snoc 1, of R] nf by auto
            have m: "ro_mode r' = ro_mode r" using r'(1) by (auto simp: grow_last_def split: bind_splits)
            have l: "iv_wf l" using rok(2) snoc by simp
            have "cov (ivs_of r') = insert (rs_min s) (cov (ivs_of r))"
              using r'(3) snoc 1 s iv_wf_bounds [OF l] by (auto simp: append_rsample_interval_def sample_in_def)
            moreover have "chains (ivs_of r') = chains (ivs_of r) @ rs_sc s"
              using r'(3) snoc by (simp add: append_rsample_interval_def)
            ultimately have "outcome r R s full (NN_REORDER_ACCEPT, [], r', R, 1)"
              using kept [OF refl r'(2,4,5) m] nf out 1 by simp
            then show ?thesis unfolding code' using 1 nf r'(1) by auto
          qed
        next
          case 2
          show ?thesis
          proof (cases "full \<or> \<not> ro_n_samples r < ro_max_samples r")
            case True
            then have "full \<or> rs_min s \<in> cov (ivs_of r) \<or> ro_n_samples r = ro_max_samples r" using rok(5) by auto
            with no [of NN_REORDER_REJECT] 2 True show ?thesis unfolding code' by auto
          next
            case nf: False
            have "\<forall>v\<in>set (ivs_of r). rs_maxp1 v < rs_min s" using below 2 by fastforce
            then obtain r' where r': "store_at_end r R s = Some (NN_REORDER_ACCEPT, [], r', R, 1)" "reorder_ok r'"
              "ivs_of r' = ivs_of r @ [s]" "next_seq r' = next_seq r" "ro_max_samples r' = ro_max_samples r"
              using store_at_end_spec [OF ok s _ _ gt mode, of R] nf by auto
            have m: "ro_mode r' = ro_mode r" using r'(1) by (auto simp: store_at_end_def split: bind_splits)
            have "outcome r R s full (NN_REORDER_ACCEPT, [], r', R, 1)"
              using kept [OF refl r'(2,4,5) m] nf out 2 r'(3) s by (auto simp: sample_in_def)
            then show ?thesis unfolding code' using 2 nf r'(1) by auto
          qed
        qed
      qed
    qed
  qed
qed

end
