(* ===== verification/Reorder_Gap.thy ===== *)
theory Reorder_Gap
  imports Reorder
begin

text \<open>
  Gaps in the reorder administration: the coalescing of the intervals that touch a range of
  sequence numbers, and the effect of every branch of \<open>nn_reorder_gap\<close>.
\<close>

section \<open>The intervals that touch a range\<close>

definition touching ::
  "seqno \<Rightarrow> seqno \<Rightarrow> rsample list \<Rightarrow> rsample list \<Rightarrow> rsample list \<Rightarrow> rsample list \<Rightarrow> bool" where
  "touching mn hi ivs as ts bs \<longleftrightarrow> ivs = as @ ts @ bs \<and> (\<forall>a\<in>set as. rs_maxp1 a < mn) \<and>
     (\<forall>t\<in>set ts. mn \<le> rs_maxp1 t \<and> rs_min t \<le> hi) \<and> (\<forall>b\<in>set bs. hi < rs_min b)"

lemma touching_rest:
  assumes "ivs_wf nxt ivs" "ivs = as @ ss @ ys" "\<forall>a\<in>set as. rs_maxp1 a < mn"
    and "\<forall>s\<in>set ss. mn \<le> rs_maxp1 s \<and> rs_min s \<le> hi" "\<forall>y\<in>set ys. mn < rs_min y"
  shows "touching mn hi ivs as (ss @ takeWhile (\<lambda>y. rs_min y \<le> hi) ys) (dropWhile (\<lambda>y. rs_min y \<le> hi) ys)"
proof -
  have wf: "\<forall>y\<in>set ys. iv_wf y" "sorted_wrt (\<lambda>a b. rs_maxp1 a < rs_min b) ys"
    using assms(1,2) by (auto simp: ivs_wf_def sorted_wrt_append)
  have "\<forall>b\<in>set (dropWhile (\<lambda>y. rs_min y \<le> hi) ys). hi < rs_min b"
    using wf
  proof (induction ys)
    case (Cons y ys)
    then show ?case
    proof (cases "rs_min y \<le> hi")
      case False
      with Cons.prems iv_wf_bounds [of y] show ?thesis by fastforce
    qed simp
  qed simp
  moreover have "mn \<le> rs_maxp1 y" if "y \<in> set ys" for y
    using that assms(5) wf(1) iv_wf_bounds [of y] by fastforce
  ultimately show ?thesis
    using assms(2-4) by (auto simp: touching_def dest: set_takeWhileD)
qed

lemma hd_opt_takeWhile: "hd_opt (takeWhile P ys) = (case hd_opt ys of None \<Rightarrow> None | Some y \<Rightarrow> if P y then Some y else None)"
  by (cases ys) auto

lemma first_touching_spec:
  assumes idx: "index_ok rtree t" and wf: "ivs_wf nxt (inorder t)" and lt: "mn < hi"
  shows "\<exists>as ts bs. touching mn hi (inorder t) as ts bs \<and> first_touching t mn hi = Some (hd_opt ts)"
proof (cases "lookup_pred_eq rtree t mn")
  case None
  then have gt: "\<forall>y\<in>set (inorder t). mn < rs_min y" using rivs.pred_eq_None [OF idx] by simp
  have "first_touching t mn hi = Some (hd_opt (takeWhile (\<lambda>y. rs_min y \<le> hi) (inorder t)))"
    using None by (simp add: first_touching_def find_succ_None hd_opt_takeWhile split: option.split)
  with touching_rest [OF wf, of "[]" "[]" "inorder t" mn hi] gt show ?thesis by auto
next
  case (Some s)
  from rivs.pred_eq_split [OF idx Some] obtain xs ys where
    e: "inorder t = xs @ s # ys" "rs_min s \<le> mn" "\<forall>y\<in>set ys. mn < rs_min y" by auto
  have s: "iv_wf s" "\<forall>x\<in>set xs. rs_maxp1 x < rs_min s" using wf e(1) by auto
  show ?thesis
  proof (cases "mn \<le> rs_maxp1 s")
    case True
    have "find_pred rtree t (Some s) = last_opt xs"
      using find_pred_inorder [OF rivs.orders _ e(1)] idx by (simp add: index_ok_def)
    moreover have "rs_maxp1 q < mn" if "last_opt xs = Some q" for q
    proof -
      have "q \<in> set xs" using that by (auto simp: last_opt_Some)
      with s(2) e(2) show ?thesis by fastforce
    qed
    ultimately have "first_touching t mn hi = Some (Some s)"
      using Some True by (auto simp: first_touching_def split: option.splits)
    moreover have "\<forall>x\<in>set xs. rs_maxp1 x < mn" using s(2) e(2) by fastforce
    ultimately show ?thesis
      using touching_rest [OF wf, of xs "[s]" ys mn hi] e True lt by fastforce
  next
    case False
    have "find_succ rtree t (Some s) = hd_opt ys" by (rule rivs.following_law [OF idx e(1)])
    then have "first_touching t mn hi = Some (hd_opt (takeWhile (\<lambda>y. rs_min y \<le> hi) ys))"
      using Some False by (simp add: first_touching_def hd_opt_takeWhile split: option.split)
    moreover have "\<forall>x\<in>set (xs @ [s]). rs_maxp1 x < mn"
      using s False iv_wf_bounds [OF s(1)] by fastforce
    ultimately show ?thesis
      using touching_rest [OF wf, of "xs @ [s]" "[]" ys mn hi] e by auto
  qed
qed

section \<open>Coalescing\<close>

definition joined :: "rsample \<Rightarrow> rsample list \<Rightarrow> rsample" where
  "joined s ts = foldl append_rsample_interval s ts"

lemma joined_simps [simp]:
  "joined s [] = s" "joined s (u # ts) = joined (append_rsample_interval s u) ts"
  by (simp_all add: joined_def)

lemma joined_sel [simp]:
  "rs_min (joined s ts) = rs_min s" "rs_sc (joined s ts) = rs_sc s @ chains ts"
  "rs_maxp1 (joined s ts) = rs_maxp1 (last (s # ts))"
  by (induction ts arbitrary: s) (auto simp: append_rsample_interval_def)

lemma joined_wf: "ivs_wf nxt (s # ts) \<Longrightarrow> iv_wf (joined s ts)"
proof (induction ts arbitrary: s)
  case (Cons u ts)
  have "iv_wf (append_rsample_interval s u)"
    using Cons.prems append_wf [of s u] by (auto intro: less_imp_le)
  moreover have "rs_min (append_rsample_interval s u) = rs_min s"
    "rs_maxp1 (append_rsample_interval s u) = rs_maxp1 u" by (simp_all add: append_rsample_interval_def)
  ultimately have "ivs_wf nxt (append_rsample_interval s u # ts)" using Cons.prems by simp
  from Cons.IH [OF this] show ?case by simp
qed simp

lemma coalesce_loop_spec:
  assumes "index_ok rtree t" "inorder t = as @ s # ts @ bs" "ivs_wf nxt (as @ s # ts @ bs)"
    and "\<forall>u\<in>set ts. rs_min u \<le> hi" "\<forall>b\<in>set bs. hi < rs_min b"
  shows "\<exists>t'. coalesce_loop t s hi v = Some (t', joined s ts, v \<or> ts \<noteq> []) \<and> index_ok rtree t' \<and>
    inorder t' = as @ joined s ts # bs"
  using assms
proof (induction ts arbitrary: t s v)
  case Nil
  have "find_succ rtree t (Some s) = hd_opt bs"
    using rivs.following_law [OF Nil.prems(1), of as s bs] Nil.prems(2) by simp
  then have "coalesce_loop t s hi v = Some (t, s, v)"
    using Nil.prems(5) by (subst coalesce_loop.simps) (cases bs; simp)
  with Nil.prems show ?case by simp
next
  case (Cons u ts)
  let ?s = "append_rsample_interval s u"
  have m: "rs_min ?s = rs_min s" "rs_maxp1 ?s = rs_maxp1 u" by (simp_all add: append_rsample_interval_def)
  have nxt: "find_succ rtree t (Some s) = Some u"
    using rivs.following_law [OF Cons.prems(1), of as s "u # ts @ bs"] Cons.prems(2) by simp
  obtain t1 where t1: "avl_delete rtree t u = Some t1" "index_ok rtree t1" "inorder t1 = as @ s # ts @ bs"
    using rivs.del_law [OF Cons.prems(1), of "as @ [s]" u "ts @ bs"] Cons.prems(2) by auto
  have key: "\<forall>x\<in>set as. rs_min x < rs_min ?s" "\<forall>y\<in>set (ts @ bs). rs_min ?s < rs_min y"
    using rivs.split_keys(1,2) [OF t1(2,3)] m by auto
  obtain t2 where t2: "write_node rtree t1 s ?s = Some t2" "index_ok rtree t2" "inorder t2 = as @ ?s # ts @ bs"
    using rivs.wr_law [OF t1(2,3), of ?s] key by auto
  have u: "iv_wf u" "iv_wf s" "rs_maxp1 s < rs_min u" using Cons.prems(3) by auto
  have "iv_wf ?s" using append_wf [OF u(2,1)] u(3) by simp
  then have wf: "ivs_wf nxt (as @ ?s # ts @ bs)" using Cons.prems(3) m by auto
  have code: "coalesce_loop t s hi v = coalesce_loop t2 ?s hi True"
    using nxt t1(1) t2(1) Cons.prems(4) iv_wf_bounds [OF u(1)] by (subst coalesce_loop.simps) simp
  from Cons.IH [OF t2(2,3) wf _ Cons.prems(5), of True] Cons.prems(4) show ?case
    unfolding code by simp
qed

definition grown :: "seqno \<Rightarrow> seqno \<Rightarrow> rsample \<Rightarrow> rsample" where
  "grown mn hi c = c\<lparr>rs_min := min mn (rs_min c), rs_maxp1 := max hi (rs_maxp1 c)\<rparr>"

lemma grown_sel [simp]:
  "rs_min (grown mn hi c) = min mn (rs_min c)" "rs_maxp1 (grown mn hi c) = max hi (rs_maxp1 c)"
  "rs_sc (grown mn hi c) = rs_sc c" "rs_n_samples (grown mn hi c) = rs_n_samples c"
  by (simp_all add: grown_def)

lemma grown_wf: "iv_wf c \<Longrightarrow> iv_wf (grown mn hi c)"
  using placed_mono [of "rs_min c" "rs_maxp1 c" "rs_sc c" "min mn (rs_min c)" "max hi (rs_maxp1 c)"]
  by (auto simp: iv_wf_def)

lemma coalesce_spec:
  assumes idx: "index_ok rtree t" and wf: "ivs_wf nxt (inorder t)" and lt: "mn < hi"
  shows "\<exists>as ts bs. touching mn hi (inorder t) as ts bs \<and>
    (case ts of
       [] \<Rightarrow> coalesce_intervals_touching_range t mn hi = Some (t, None, False)
     | s # us \<Rightarrow> \<exists>t' v. coalesce_intervals_touching_range t mn hi = Some (t', Some (grown mn hi (joined s us)), v) \<and>
         index_ok rtree t' \<and> inorder t' = as @ grown mn hi (joined s us) # bs \<and>
         (v \<longleftrightarrow> us \<noteq> [] \<or> mn < rs_min s \<or> rs_maxp1 s < hi))"
proof -
  obtain as ts bs where tc: "touching mn hi (inorder t) as ts bs" "first_touching t mn hi = Some (hd_opt ts)"
    using first_touching_spec [OF assms] by blast
  show ?thesis
  proof (cases ts)
    case Nil
    with tc show ?thesis
      by (intro exI [of _ as] exI [of _ ts] exI [of _ bs]) (simp add: coalesce_intervals_touching_range_def)
  next
    case (Cons s us)
    have e: "inorder t = as @ s # us @ bs" and hi: "\<forall>u\<in>set us. rs_min u \<le> hi" "\<forall>b\<in>set bs. hi < rs_min b"
      and as: "\<forall>a\<in>set as. rs_maxp1 a < mn"
      using tc(1) Cons by (auto simp: touching_def)
    note wf' = wf [unfolded e]
    obtain t1 where t1: "coalesce_loop t s hi False = Some (t1, joined s us, us \<noteq> [])" "index_ok rtree t1"
      "inorder t1 = as @ joined s us # bs"
      using coalesce_loop_spec [OF idx e wf' hi, of False] by auto
    let ?c = "grown mn hi (joined s us)"
    have sw: "iv_wf s" and below: "\<forall>a\<in>set as. iv_wf a \<and> rs_maxp1 a < rs_min s"
      using wf' by (auto simp: ivs_wf_def sorted_wrt_append)
    have "\<forall>a\<in>set as. rs_min a < rs_min ?c" using as below iv_wf_bounds by fastforce
    moreover have "\<forall>b\<in>set bs. rs_min ?c < rs_min b" using hi(2) lt by fastforce
    ultimately obtain t2 where t2: "write_node rtree t1 (joined s us) ?c = Some t2" "index_ok rtree t2"
      "inorder t2 = as @ ?c # bs"
      using rivs.wr_law [OF t1(2,3), of ?c] by auto
    let ?j = "joined s us"
    define s2 where "s2 = (if mn < rs_min ?j then ?j\<lparr>rs_min := mn\<rparr> else ?j)"
    have s3: "(if rs_maxp1 s2 < hi then s2\<lparr>rs_maxp1 := hi\<rparr> else s2) = ?c" and "rs_maxp1 s2 = rs_maxp1 ?j"
      by (auto simp: s2_def grown_def min_def max_def)
    have "coalesce_intervals_touching_range t mn hi =
        Some (t2, Some ?c, us \<noteq> [] \<or> mn < rs_min ?j \<or> rs_maxp1 s2 < hi)"
      using t1(1) t2(1) tc(2) Cons iv_wf_bounds [OF sw]
      unfolding coalesce_intervals_touching_range_def
      by (simp add: s2_def [symmetric] s3 del: joined_sel)
    then have code: "coalesce_intervals_touching_range t mn hi =
        Some (t2, Some ?c, us \<noteq> [] \<or> mn < rs_min s \<or> rs_maxp1 s < hi)"
      using \<open>rs_maxp1 s2 = rs_maxp1 ?j\<close> by auto
    with t2 tc(1) Cons show ?thesis
      by (intro exI [of _ as] exI [of _ ts] exI [of _ bs]) simp
  qed
qed

section \<open>A gap, whatever its range\<close>

definition gap_ignored :: "nn_reorder \<Rightarrow> refs \<Rightarrow> seqno \<Rightarrow> seqno \<Rightarrow> reorder_result \<Rightarrow> bool" where
  "gap_ignored r R mn hi res \<longleftrightarrow> (case res of (c, sc, r', R', adj) \<Rightarrow>
     sc = [] \<and> r' = r \<and> R' = R \<and> adj = 0 \<and>
     (c = NN_REORDER_TOO_OLD \<and> hi \<le> next_seq r \<or>
      c = NN_REORDER_REJECT \<and> (ro_mode r \<noteq> NN_REORDER_MODE_NORMAL \<or>
        next_seq r < mn \<and> ro_n_samples r = ro_max_samples r \<and> (\<forall>v\<in>set (ivs_of r). rs_maxp1 v < mn))))"

text \<open>The next sequence number passes the range; what was stored up to there goes out.\<close>

definition gap_passed :: "nn_reorder \<Rightarrow> refs \<Rightarrow> seqno \<Rightarrow> seqno \<Rightarrow> reorder_result \<Rightarrow> bool" where
  "gap_passed r R mn hi res \<longleftrightarrow> (case res of (c, sc, r', R', adj) \<Rightarrow>
     mn \<le> next_seq r \<and> next_seq r < hi \<and> R' = R \<and> adj = 0 \<and> c = int (length sc) \<and>
     (\<exists>ts bs. touching mn hi (ivs_of r) [] ts bs \<and> sc = chains ts \<and> ivs_of r' = bs \<and>
        next_seq r' = (if ts = [] then hi else max hi (rs_maxp1 (last ts)))) \<and>
     placed (next_seq r) (next_seq r') sc)"

text \<open>The range becomes part of one interval with all the intervals that it touches.\<close>

definition gap_merged :: "nn_reorder \<Rightarrow> refs \<Rightarrow> seqno \<Rightarrow> seqno \<Rightarrow> reorder_result \<Rightarrow> bool" where
  "gap_merged r R mn hi res \<longleftrightarrow> (case res of (c, sc, r', R', adj) \<Rightarrow>
     next_seq r < mn \<and> next_seq r' = next_seq r \<and> R' = R \<and> adj = 0 \<and> sc = [] \<and>
     chains (ivs_of r') = chains (ivs_of r) \<and> cov (ivs_of r') = cov (ivs_of r) \<union> {mn..<hi} \<and>
     (c = NN_REORDER_ACCEPT \<or> c = NN_REORDER_REJECT \<and> ivs_of r' = ivs_of r))"

text \<open>The range becomes an interval of its own; without room, the last sample goes.\<close>

definition gap_stored :: "nn_reorder \<Rightarrow> refs \<Rightarrow> rdata \<Rightarrow> seqno \<Rightarrow> seqno \<Rightarrow> reorder_result \<Rightarrow> bool" where
  "gap_stored r R d mn hi res \<longleftrightarrow> (case res of (c, sc, r', R', adj) \<Rightarrow>
     next_seq r < mn \<and> next_seq r' = next_seq r \<and> adj = 1 \<and> sc = [] \<and> c = NN_REORDER_ACCEPT \<and>
     (\<exists>as bs. touching mn hi (ivs_of r) as [] bs \<and>
        (if ro_n_samples r < ro_max_samples r then R' = R \<and> ivs_of r' = as @ gap_interval d mn hi # bs
         else ro_n_samples r = ro_max_samples r \<and> bs \<noteq> [] \<and> ivs_of r' = drop_last (as @ gap_interval d mn hi # bs) \<and>
           (\<forall>m. R' m + held_in m (sce_fragchain (last (chains bs))) = R m))))"

definition gap_outcome :: "nn_reorder \<Rightarrow> refs \<Rightarrow> rdata \<Rightarrow> seqno \<Rightarrow> seqno \<Rightarrow> reorder_result \<Rightarrow> bool" where
  "gap_outcome r R d mn hi res \<longleftrightarrow> (case res of (c, sc, r', R', adj) \<Rightarrow>
     reorder_ok r' \<and> ro_max_samples r' = ro_max_samples r \<and> ro_mode r' = ro_mode r) \<and>
     (gap_ignored r R mn hi res \<or> gap_passed r R mn hi res \<or> gap_merged r R mn hi res \<or>
      gap_stored r R d mn hi res)"

lemma gap_interval_wf: "mn < hi \<Longrightarrow> iv_wf (gap_interval d mn hi)"
  by (simp add: gap_interval_def iv_wf_def)

lemma gap_interval_sel [simp]:
  "rs_min (gap_interval d mn hi) = mn" "rs_maxp1 (gap_interval d mn hi) = hi"
  "length (rs_sc (gap_interval d mn hi)) = 1"
  by (simp_all add: gap_interval_def)

lemma touching_wf:
  assumes "touching mn hi ivs as [] bs" "ivs_wf nxt ivs" "nxt < mn" "mn < hi"
  shows "ivs_wf nxt (as @ gap_interval d mn hi # bs)"
  using assms gap_interval_wf [OF assms(4), of d] by (fastforce simp: touching_def)

lemma insert_gap_spec:
  assumes idx: "index_ok rtree t" and e: "inorder t = as @ bs"
    and k: "\<forall>x\<in>set as. rs_min x < mn" "\<forall>y\<in>set bs. mn < rs_min y"
  shows "\<exists>t'. reorder_insert_gap t d mn hi = Some t' \<and> index_ok rtree t' \<and>
    inorder t' = as @ gap_interval d mn hi # bs"
proof -
  have "reorder_insert_gap t d mn hi = reorder_add_rsampleiv t (gap_interval d mn hi)"
    by (simp add: reorder_insert_gap_def reorder_add_rsampleiv_def)
  with add_rsampleiv_spec [OF idx e, of "gap_interval d mn hi"] k show ?thesis by simp
qed

text \<open>A range that touches nothing, above the next sequence number.\<close>

definition store_gap :: "nn_reorder \<Rightarrow> refs \<Rightarrow> rdata \<Rightarrow> seqno \<Rightarrow> seqno \<Rightarrow> (int \<times> nn_reorder \<times> refs \<times> nat) option" where
  "store_gap r R d mn hi = do {
     t1 \<leftarrow> reorder_insert_gap (sampleivtree r) d mn hi;
     let r1 = r\<lparr>sampleivtree := t1\<rparr>;
     (r2, R2) \<leftarrow> (if ro_n_samples r1 < ro_max_samples r1
                 then Some (r1\<lparr>ro_n_samples := ro_n_samples r1 + 1\<rparr>, R)
                 else delete_last_sample r1 R);
     Some (NN_REORDER_ACCEPT, r2, R2, 1) }"

lemma store_gap_spec:
  assumes ok: "reorder_ok r" and refs: "refs_cover r R" and mode: "ro_mode r = NN_REORDER_MODE_NORMAL"
    and tc: "touching mn hi (ivs_of r) as [] bs" and lt: "next_seq r < mn" "mn < hi"
    and room: "ro_n_samples r < ro_max_samples r \<or> bs \<noteq> []"
  shows "\<exists>r2 R2. store_gap r R d mn hi = Some (NN_REORDER_ACCEPT, r2, R2, 1) \<and>
    reorder_ok (r2\<lparr>max_sampleiv := max_iv (sampleivtree r2)\<rparr>) \<and>
    ro_max_samples r2 = ro_max_samples r \<and> ro_mode r2 = ro_mode r \<and>
    gap_stored r R d mn hi (NN_REORDER_ACCEPT, [], r2\<lparr>max_sampleiv := max_iv (sampleivtree r2)\<rparr>, R2, 1)"
proof -
  note rok = reorder_okD [OF ok]
  let ?g = "gap_interval d mn hi"
  have e: "ivs_of r = as @ bs" and as: "\<forall>a\<in>set as. rs_maxp1 a < mn" and bs: "\<forall>b\<in>set bs. hi < rs_min b"
    using tc by (auto simp: touching_def)
  have "rs_min a < mn" if "a \<in> set as" for a
  proof -
    have "iv_wf a" using rok(2) e that by (auto simp: ivs_wf_def)
    with as that iv_wf_bounds [of a] show ?thesis by fastforce
  qed
  moreover have "\<forall>b\<in>set bs. mn < rs_min b" using bs lt(2) by fastforce
  ultimately obtain t where t: "reorder_insert_gap (sampleivtree r) d mn hi = Some t" "index_ok rtree t"
    "inorder t = as @ ?g # bs"
    using insert_gap_spec [OF rok(1) e, of mn d hi] by blast
  have wf: "ivs_wf (next_seq r) (inorder t)" unfolding t(3) by (rule touching_wf [OF tc rok(2) lt])
  have len: "length (chains (inorder t)) = ro_n_samples r + 1" using t(3) e rok(4) by simp
  have tail: "tail_kept (ivs_of r) (inorder t)" if "bs \<noteq> []"
  proof -
    obtain cs l where b: "bs = cs @ [l]" using \<open>bs \<noteq> []\<close> by (cases bs rule: rev_cases) auto
    then show ?thesis unfolding tail_kept_def e t(3)
      by (intro exI [of _ "as @ cs"] exI [of _ l] exI [of _ "as @ ?g # cs"] exI [of _ l]) simp
  qed
  let ?r1 = "r\<lparr>sampleivtree := t\<rparr>"
  let ?r1' = "r\<lparr>sampleivtree := t, max_sampleiv := max_iv t\<rparr>"
  obtain r2 R2 where r2: "(if ro_n_samples ?r1' < ro_max_samples ?r1'
        then Some (?r1'\<lparr>ro_n_samples := ro_n_samples ?r1' + 1\<rparr>, R) else delete_last_sample ?r1' R) = Some (r2, R2)"
    and p2: "reorder_ok r2" "next_seq r2 = next_seq r" "ro_max_samples r2 = ro_max_samples r" "ro_mode r2 = ro_mode r"
      "if ro_n_samples r < ro_max_samples r then R2 = R \<and> ivs_of r2 = inorder t
       else ro_n_samples r = ro_max_samples r \<and> ivs_of r2 = drop_last (inorder t) \<and>
         (\<forall>m. R2 m + held_in m (sce_fragchain (last (chains (inorder t)))) = R m)"
    using make_room_spec [OF ok refs mode t(2) wf len] room tail by blast
  have stored: "gap_stored r R d mn hi (NN_REORDER_ACCEPT, [], r2, R2, 1)"
  proof (cases "ro_n_samples r < ro_max_samples r")
    case True
    then show ?thesis using p2 tc lt t(3) unfolding gap_stored_def by auto
  next
    case False
    then have ne: "bs \<noteq> []" using room by simp
    have "chains bs \<noteq> []" using ne rok(2) e by (cases bs) (auto simp: iv_wf_def)
    then have "last (chains (inorder t)) = last (chains bs)" by (simp add: t(3))
    with p2 tc lt t(3) False ne show ?thesis unfolding gap_stored_def by auto
  qed
  have mx: "r2\<lparr>max_sampleiv := max_iv (sampleivtree r2)\<rparr> = r2"
    using reorder_okD(3) [OF p2(1)] by simp
  show ?thesis
  proof (cases "ro_n_samples r < ro_max_samples r")
    case True
    let ?r2 = "?r1\<lparr>ro_n_samples := ro_n_samples ?r1 + 1\<rparr>"
    have "r2 = ?r2\<lparr>max_sampleiv := max_iv (sampleivtree ?r2)\<rparr>" "R2 = R" using r2 True by auto
    moreover have "store_gap r R d mn hi = Some (NN_REORDER_ACCEPT, ?r2, R, 1)"
      using t(1) True by (simp add: store_gap_def)
    ultimately show ?thesis using p2(1,3,4) stored by (intro exI [of _ ?r2] exI [of _ R2]) simp
  next
    case False
    then have ne: "bs \<noteq> []" using room by simp
    have "max_iv t = max_sampleiv r"
      using rok(3) e t(3) ne by (cases bs rule: rev_cases) (simp_all add: max_iv_last)
    then have "?r1' = ?r1" by simp
    then have "store_gap r R d mn hi = Some (NN_REORDER_ACCEPT, r2, R2, 1)"
      using t(1) r2 False by (simp add: store_gap_def)
    with p2 stored mx show ?thesis by simp
  qed
qed

lemma touching_front:
  assumes "touching mn hi ivs as ts bs" "ivs_wf nxt ivs" "mn \<le> nxt"
  shows "as = []"
proof (rule ccontr)
  assume "as \<noteq> []"
  then obtain a where a: "a \<in> set as" by (cases as) auto
  then have "iv_wf a" "nxt < rs_min a" "rs_maxp1 a < mn"
    using assms(1,2) by (auto simp: touching_def ivs_wf_def)
  with iv_wf_bounds [of a] assms(3) show False by simp
qed

text \<open>The intervals that touch a range cover, with the range, everything between their ends.\<close>

lemma touching_cover:
  assumes "\<forall>t\<in>set ts. mn \<le> rs_maxp1 t \<and> rs_min t \<le> hi" "ivs_wf nxt ts" "ts \<noteq> []" "mn < hi"
  shows "{min mn (rs_min (hd ts))..<max hi (rs_maxp1 (last ts))} = {mn..<hi} \<union> cov ts"
  using assms(3,1,2)
proof (induction ts rule: list_nonempty_induct)
  case (single t)
  then have "iv_wf t" "mn \<le> rs_maxp1 t" "rs_min t \<le> hi" by auto
  with iv_wf_bounds [of t] assms(4) show ?case by auto
next
  case (cons t ts)
  have t: "iv_wf t" "mn \<le> rs_maxp1 t" "rs_min t \<le> hi" and ts: "\<forall>u\<in>set ts. rs_maxp1 t < rs_min u \<and> rs_min u \<le> hi \<and> iv_wf u"
    using cons.prems by (auto simp: ivs_wf_def)
  have l: "last ts \<in> set ts" "hd ts \<in> set ts" using cons.hyps by simp_all
  then have "rs_maxp1 t < rs_min (hd ts)" "rs_maxp1 t < hi" using ts by fastforce+
  moreover have "{min mn (rs_min (hd ts))..<max hi (rs_maxp1 (last ts))} = {mn..<hi} \<union> cov ts"
    using cons by simp
  moreover have "{min mn (rs_min t)..<max hi (rs_maxp1 (last ts))} =
      {rs_min t..<rs_maxp1 t} \<union> {min mn (rs_min (hd ts))..<max hi (rs_maxp1 (last ts))} \<union> {mn..<hi}"
    using t calculation(1,2) iv_wf_bounds [OF t(1)] by auto
  ultimately show ?case using cons.hyps by auto
qed

lemma chains_length: "\<forall>t\<in>set ts. iv_wf t \<Longrightarrow> length (chains ts) = sum_list (map rs_n_samples ts)"
  by (induction ts) (auto simp: iv_wf_def)

lemma reorder_gap_spec:
  assumes ok: "reorder_ok r" and refs: "refs_cover r R" and lt: "mn < hi"
  shows "\<exists>res. nn_reorder_gap r R d mn hi = Some res \<and> gap_outcome r R d mn hi res"
proof -
  note rok = reorder_okD [OF ok]
  have self: "r\<lparr>max_sampleiv := max_iv (sampleivtree r)\<rparr> = r" using rok(3) by simp
  consider "hi \<le> next_seq r" | "next_seq r < hi" "ro_mode r \<noteq> NN_REORDER_MODE_NORMAL"
    | "next_seq r < hi" "ro_mode r = NN_REORDER_MODE_NORMAL" by linarith
  then show ?thesis
  proof cases
    case 1
    then have "nn_reorder_gap r R d mn hi = Some (NN_REORDER_TOO_OLD, [], r, R, 0)" by (simp add: nn_reorder_gap_def)
    moreover have "gap_ignored r R mn hi (NN_REORDER_TOO_OLD, [], r, R, 0)" using 1 by (simp add: gap_ignored_def)
    ultimately show ?thesis using ok by (auto simp: gap_outcome_def)
  next
    case 2
    then have "nn_reorder_gap r R d mn hi = Some (NN_REORDER_REJECT, [], r, R, 0)" by (simp add: nn_reorder_gap_def)
    moreover have "gap_ignored r R mn hi (NN_REORDER_REJECT, [], r, R, 0)" using 2 by (simp add: gap_ignored_def)
    ultimately show ?thesis using ok by (auto simp: gap_outcome_def)
  next
    case 3
    then have act: "\<not> hi \<le> next_seq r" "\<not> ro_mode r \<noteq> NN_REORDER_MODE_NORMAL" by simp_all
    note code0 = nn_reorder_gap_def [of r R d mn hi, unfolded if_not_P [OF act(1)] if_not_P [OF act(2)]]
    obtain as ts bs where tc: "touching mn hi (ivs_of r) as ts bs" and
      cs: "case ts of
       [] \<Rightarrow> coalesce_intervals_touching_range (sampleivtree r) mn hi = Some (sampleivtree r, None, False)
     | s # us \<Rightarrow> \<exists>t' v. coalesce_intervals_touching_range (sampleivtree r) mn hi =
           Some (t', Some (grown mn hi (joined s us)), v) \<and>
         index_ok rtree t' \<and> inorder t' = as @ grown mn hi (joined s us) # bs \<and>
         (v \<longleftrightarrow> us \<noteq> [] \<or> mn < rs_min s \<or> rs_maxp1 s < hi)"
      using coalesce_spec [OF rok(1,2) lt] by blast
    have e: "ivs_of r = as @ ts @ bs" and as: "\<forall>a\<in>set as. rs_maxp1 a < mn"
      and ts: "\<forall>t\<in>set ts. mn \<le> rs_maxp1 t \<and> rs_min t \<le> hi" and bs: "\<forall>b\<in>set bs. hi < rs_min b"
      using tc by (auto simp: touching_def)
    show ?thesis
    proof (cases ts)
      case Nil
      then have co: "coalesce_intervals_touching_range (sampleivtree r) mn hi = Some (sampleivtree r, None, False)"
        using cs by simp
      show ?thesis
      proof (cases "mn \<le> next_seq r")
        case True
        let ?r = "r\<lparr>next_seq := hi\<rparr>"
        have "as = []" using touching_front [OF tc rok(2) True] .
        then have e': "ivs_of r = bs" using e Nil by simp
        have "ivs_wf hi bs" using ivs_wf_mono [OF rok(2)] e' bs by simp
        then have "reorder_ok ?r" using ok e' by (simp add: reorder_ok_def)
        moreover have "?r\<lparr>max_sampleiv := max_iv (sampleivtree ?r)\<rparr> = ?r" using rok(3) by simp
        then have "nn_reorder_gap r R d mn hi = Some (NN_REORDER_ACCEPT, [], ?r, R, 0)"
          unfolding code0 co using True by simp
        moreover have "gap_passed r R mn hi (NN_REORDER_ACCEPT, [], ?r, R, 0)"
          unfolding gap_passed_def using True 3 tc Nil \<open>as = []\<close> e' by (auto simp: NN_REORDER_ACCEPT_def)
        ultimately show ?thesis by (auto simp: gap_outcome_def)
      next
        case False
        then have gt: "next_seq r < mn" by simp
        let ?at_end = "if ro_n_samples r = ro_max_samples r then
             (case max_sampleiv r of None \<Rightarrow> Some True
              | Some m \<Rightarrow> map_option (\<lambda>last. rs_maxp1 last < mn) (lookup rtree (sampleivtree r) m))
           else Some False"
        have at_end: "?at_end = Some (ro_n_samples r = ro_max_samples r \<and> bs = [])"
        proof (cases "ivs_of r" rule: rev_cases)
          case Nil
          with e rok(3) show ?thesis by (simp add: max_iv_last)
        next
          case (snoc us l)
          have l: "rs_maxp1 l < mn \<longleftrightarrow> bs = []"
          proof (cases bs rule: rev_cases)
            case Nil
            with snoc e \<open>ts = []\<close> as show ?thesis by (metis append_Nil2 in_set_conv_decomp)
          next
            case (snoc cs b)
            then have "l = b" using e \<open>ivs_of r = us @ [l]\<close> by simp
            then have "iv_wf l" "hi < rs_min l" using rok(2) e bs snoc by (auto simp: ivs_wf_def)
            with iv_wf_bounds [of l] lt snoc show ?thesis by auto
          qed
          with max_lookup [OF ok snoc] show ?thesis by simp
        qed
        show ?thesis
        proof (cases "ro_n_samples r = ro_max_samples r \<and> bs = []")
          case True
          have "nn_reorder_gap r R d mn hi =
              Some (NN_REORDER_REJECT, [], r\<lparr>max_sampleiv := max_iv (sampleivtree r)\<rparr>, R, 0)"
            unfolding code0 co option_bind_Some prod.case option.case if_not_P [OF False] at_end if_P [OF True]
            by simp
          then have "nn_reorder_gap r R d mn hi = Some (NN_REORDER_REJECT, [], r, R, 0)" unfolding self .
          moreover have "gap_ignored r R mn hi (NN_REORDER_REJECT, [], r, R, 0)"
            unfolding gap_ignored_def using gt True e Nil as by auto
          ultimately show ?thesis using ok by (auto simp: gap_outcome_def)
        next
          case room: False
          then have "ro_n_samples r < ro_max_samples r \<or> bs \<noteq> []" using rok(5) by auto
          from store_gap_spec [OF ok refs 3(2) tc [unfolded Nil] gt lt this, of d] obtain r2 R2 where
            r2: "store_gap r R d mn hi = Some (NN_REORDER_ACCEPT, r2, R2, 1)"
            and p2: "reorder_ok (r2\<lparr>max_sampleiv := max_iv (sampleivtree r2)\<rparr>)"
              "ro_max_samples r2 = ro_max_samples r" "ro_mode r2 = ro_mode r"
              "gap_stored r R d mn hi (NN_REORDER_ACCEPT, [], r2\<lparr>max_sampleiv := max_iv (sampleivtree r2)\<rparr>, R2, 1)"
            by blast
          have "nn_reorder_gap r R d mn hi =
              Some (NN_REORDER_ACCEPT, [], r2\<lparr>max_sampleiv := max_iv (sampleivtree r2)\<rparr>, R2, 1)"
            unfolding code0 co option_bind_Some prod.case option.case if_not_P [OF False] at_end if_not_P [OF room]
              r2 [unfolded store_gap_def] by simp
          with p2 show ?thesis by (auto simp: gap_outcome_def)
        qed
      qed
    next
      case (Cons s us)
      let ?c = "grown mn hi (joined s us)"
      obtain t' v where t': "coalesce_intervals_touching_range (sampleivtree r) mn hi = Some (t', Some ?c, v)"
        "index_ok rtree t'" "inorder t' = as @ ?c # bs" "v \<longleftrightarrow> us \<noteq> [] \<or> mn < rs_min s \<or> rs_maxp1 s < hi"
        using cs Cons by auto
      have wts: "ivs_wf (next_seq r) ts" "ivs_wf (next_seq r) bs" "ivs_wf (next_seq r) as" using rok(2) e by auto
      have cw: "iv_wf ?c" using grown_wf [OF joined_wf] wts(1) Cons by blast
      have csc: "rs_sc ?c = chains ts" "rs_maxp1 ?c = max hi (rs_maxp1 (last ts))" "rs_min ?c = min mn (rs_min (hd ts))"
        using Cons by simp_all
      have "rs_n_samples ?c = length (rs_sc ?c)" using cw unfolding iv_wf_def by blast
      then have n: "rs_n_samples ?c = length (chains ts)" unfolding csc(1) .
      have cv: "{rs_min ?c..<rs_maxp1 ?c} = {mn..<hi} \<union> cov ts"
        using touching_cover [OF ts wts(1) _ lt] Cons csc by simp
      show ?thesis
      proof (cases "mn \<le> next_seq r")
        case True
        have as0: "as = []" using touching_front [OF tc rok(2) True] .
        obtain t1 where t1: "avl_delete rtree t' ?c = Some t1" "index_ok rtree t1" "inorder t1 = bs"
          using rivs.del_law [OF t'(2), of "[]" ?c bs] t'(3) as0 by auto
        let ?r = "r\<lparr>sampleivtree := t1, next_seq := rs_maxp1 ?c, max_sampleiv := max_iv t1,
            ro_n_samples := ro_n_samples r - rs_n_samples ?c\<rparr>"
        have le: "rs_n_samples ?c \<le> ro_n_samples r" using n rok(4) e by simp
        have "nn_reorder_gap r R d mn hi = Some (int (rs_n_samples ?c), rs_sc ?c, ?r, R, 0)"
        proof -
          have mc: "rs_min ?c \<le> next_seq r" using True by simp
          have "assertion (mn \<le> next_seq r) = Some ()" "assertion (rs_min ?c + rs_n_samples ?c \<le> rs_maxp1 ?c) = Some ()"
            "assertion (rs_n_samples ?c \<le> ro_n_samples r) = Some ()"
            using True le iv_wf_bounds [OF cw] by simp_all
          then show ?thesis unfolding code0 t'(1) option_bind_Some prod.case option.case if_P [OF mc] t1(1)
            by (simp only: option_bind_Some)
        qed
        moreover have "ivs_wf (rs_maxp1 ?c) bs"
        proof (rule ivs_wf_mono [OF wts(2)])
          have "rs_maxp1 (last ts) < rs_min b" if "b \<in> set bs" for b
            using rok(2) e Cons that by auto
          then show "\<forall>b\<in>set bs. rs_maxp1 ?c < rs_min b" using bs csc(2) by simp
        qed
        then have "reorder_ok ?r"
          using ok t1(2,3) e as0 n rok(4,5) by (auto simp: reorder_ok_def)
        moreover have "gap_passed r R mn hi (int (rs_n_samples ?c), rs_sc ?c, ?r, R, 0)"
        proof -
          have "next_seq r < rs_min (hd ts)" using wts(1) Cons by simp
          then have "placed (next_seq r) (rs_maxp1 ?c) (chains ts)"
            using joined_wf [of "next_seq r" s us] wts(1) Cons
              placed_mono [of "rs_min s" "rs_maxp1 (last (s # us))" "chains ts" "next_seq r" "rs_maxp1 ?c"]
            by (simp add: iv_wf_def)
          moreover have "ts \<noteq> []" using Cons by simp
          then have "\<exists>ts' bs'. touching mn hi (ivs_of r) [] ts' bs' \<and> rs_sc ?c = chains ts' \<and> ivs_of ?r = bs' \<and>
              next_seq ?r = (if ts' = [] then hi else max hi (rs_maxp1 (last ts')))"
            using tc [unfolded as0] csc(1,2) t1(3)
            by (intro exI [of _ ts] exI [of _ bs]) (simp del: grown_sel joined_sel)
          moreover have "int (rs_n_samples ?c) = int (length (rs_sc ?c))" unfolding csc(1) n ..
          ultimately show ?thesis unfolding gap_passed_def prod.case
            using True 3(1) csc(1) by (simp del: grown_sel joined_sel)
        qed
        ultimately show ?thesis by (auto simp: gap_outcome_def)
      next
        case False
        then have gt: "next_seq r < mn" by simp
        let ?r = "r\<lparr>sampleivtree := t', max_sampleiv := max_iv t'\<rparr>"
        let ?ret = "if v then NN_REORDER_ACCEPT else NN_REORDER_REJECT"
        have min_c: "\<not> rs_min ?c \<le> next_seq r" using gt wts(1) Cons by auto
        have "nn_reorder_gap r R d mn hi = Some (?ret, [], ?r, R, 0)"
          unfolding code0 t'(1) option_bind_Some prod.case option.case if_not_P [OF min_c] ..
        moreover have wf: "ivs_wf (next_seq r) (inorder t')"
        proof -
          have "rs_maxp1 a < rs_min ?c" if "a \<in> set as" for a
            using that as rok(2) e Cons by auto
          moreover have "rs_maxp1 ?c < rs_min b" if "b \<in> set bs" for b
            using that bs rok(2) e Cons csc(2) by auto
          ultimately show ?thesis using cw min_c wts rok(2) e unfolding t'(3) by auto
        qed
        have ch: "chains (inorder t') = chains (ivs_of r)" unfolding t'(3) e using csc(1) by simp
        have "reorder_ok ?r" using ok t'(2) wf ch 3(2) by (auto simp: reorder_ok_def)
        moreover have "gap_merged r R mn hi (?ret, [], ?r, R, 0)"
        proof -
          have "cov (inorder t') = cov (ivs_of r) \<union> {mn..<hi}" unfolding t'(3) e using cv by auto
          moreover have "inorder t' = ivs_of r" if "\<not> v"
          proof -
            have "us = []" "rs_min s \<le> mn" "hi \<le> rs_maxp1 s" using that t'(4) by auto
            then have "?c = s" by (simp add: grown_def min_def max_def)
            then show ?thesis unfolding t'(3) e Cons \<open>us = []\<close> by simp
          qed
          ultimately show ?thesis unfolding gap_merged_def using gt ch by auto
        qed
        ultimately show ?thesis by (auto simp: gap_outcome_def)
      qed
    qed
  qed
qed

end
