(* ===== verification/Reorder_Queries.thy ===== *)
theory Reorder_Queries
  imports Reorder_Gap
begin

text \<open>
  The queries of the reorder administration (is a sample wanted, which numbers are to be
  requested), dropping everything up to a number, and releasing the administration.
\<close>

section \<open>Wanted samples\<close>

lemma wantsample_spec:
  assumes ok: "reorder_ok r"
  shows "nn_reorder_wantsample r q \<longleftrightarrow> next_seq r \<le> q \<and> q \<notin> cov (ivs_of r)"
proof (cases "lookup_pred_eq rtree (sampleivtree r) q")
  case None
  then have "\<forall>y\<in>set (ivs_of r). q < rs_min y" using rivs.pred_eq_None [OF reorder_okD(1) [OF ok]] by simp
  then have "q \<notin> cov (ivs_of r)" by (auto simp: cov_def)
  with None show ?thesis by (auto simp: nn_reorder_wantsample_def)
next
  case (Some p)
  from rivs.pred_eq_split [OF reorder_okD(1) [OF ok] Some] obtain xs ys where
    p: "ivs_of r = xs @ p # ys" "rs_min p \<le> q" "\<forall>y\<in>set ys. q < rs_min y" by auto
  have "\<forall>x\<in>set xs. rs_maxp1 x \<le> q" using reorder_okD(2) [OF ok] p(1,2) by fastforce
  then have "q \<in> cov (ivs_of r) \<longleftrightarrow> q < rs_maxp1 p" using p(2,3) unfolding p(1) by (auto simp: cov_def)
  with Some show ?thesis by (auto simp: nn_reorder_wantsample_def not_less)
qed

section \<open>The NACK map\<close>

lemma set_seqs_spec:
  assumes "n \<le> 32 * length bits" "base \<le> i"
  shows "\<exists>bits'. set_seqs base n bits i bound = Some (bits', max i (min bound (base + n))) \<and>
    length bits' = length bits \<and>
    (\<forall>j<n. isset bits' j \<longleftrightarrow> isset bits j \<or> i \<le> base + j \<and> base + j < bound)"
  using assms
proof (induction base n bits i bound rule: set_seqs.induct)
  case (1 base n bits i bound)
  show ?case
  proof (cases "i < base + n \<and> i < bound")
    case False
    then have "set_seqs base n bits i bound = Some (bits, i)" by (subst set_seqs.simps) auto
    with False show ?thesis by auto
  next
    case True
    then have x: "i - base < n" using 1(3) by auto
    obtain b where b: "nn_bitset_set n bits (i - base) = Some b" "length b = length bits"
      "\<forall>j. isset b j \<longleftrightarrow> j = i - base \<or> isset bits j"
      using nn_bitset_set_spec [OF x 1(2)] by blast
    obtain b' where b': "set_seqs base n b (i + 1) bound = Some (b', max (i + 1) (min bound (base + n)))"
      "length b' = length b" "\<forall>j<n. isset b' j \<longleftrightarrow> isset b j \<or> i + 1 \<le> base + j \<and> base + j < bound"
    proof -
      have "n \<le> 32 * length b" "base \<le> i + 1" using 1(2,3) b(2) by simp_all
      from 1(1) [OF True b(1) this] that show thesis by blast
    qed
    have "set_seqs base n bits i bound = Some (b', max i (min bound (base + n)))"
      using True b'(1) b(1) by (subst set_seqs.simps) simp
    moreover have "isset b' j \<longleftrightarrow> isset bits j \<or> i \<le> base + j \<and> base + j < bound" if "j < n" for j
      using b'(3) b(3) that True 1(3) by (cases "j = i - base") auto
    ultimately show ?thesis using b'(2) b(2) by auto
  qed
qed

text \<open>The bits below \<open>i\<close> are right and those from \<open>i\<close> on are clear.\<close>

definition right_upto :: "seqno \<Rightarrow> nat \<Rightarrow> 32 word list \<Rightarrow> seqno \<Rightarrow> seqno set \<Rightarrow> bool" where
  "right_upto base n bits i K \<longleftrightarrow> n \<le> 32 * length bits \<and> base \<le> i \<and>
     (\<forall>j<n. isset bits j \<longleftrightarrow> base + j < i \<and> base + j \<notin> K)"

lemma nack_loop_spec:
  assumes "index_ok rtree t" "ivs_wf nxt (inorder t)" "inorder t = xs @ ys"
    and "right_upto base n bits i (cov (inorder t))" "\<forall>x\<in>set xs. rs_maxp1 x \<le> i" "\<forall>y\<in>set ys. i \<le> rs_min y"
  shows "\<exists>bits' i'. nack_loop t base n bits i (hd_opt ys) = Some (bits', i') \<and> length bits' = length bits \<and>
    right_upto base n bits' i' (cov (inorder t)) \<and>
    (base + n \<le> i' \<or> (\<forall>v\<in>set (inorder t). rs_maxp1 v \<le> i'))"
  using assms(3-6)
proof (induction ys arbitrary: xs bits i)
  case Nil
  then have "nack_loop t base n bits i (hd_opt []) = Some (bits, i)" by (subst nack_loop.simps) simp
  with Nil show ?case by auto
next
  case (Cons y ys)
  show ?case
  proof (cases "i < base + n")
    case False
    then have "nack_loop t base n bits i (hd_opt (y # ys)) = Some (bits, i)" by (subst nack_loop.simps) simp
    with Cons.prems False show ?thesis by auto
  next
    case True
    note ru = Cons.prems(2) [unfolded right_upto_def]
    have y: "iv_wf y" "\<forall>u\<in>set ys. rs_maxp1 y < rs_min u" "\<forall>x\<in>set xs. rs_maxp1 x < rs_min y" "i \<le> rs_min y"
      using assms(2) Cons.prems(1,4) by auto
    obtain b where b: "set_seqs base n bits i (rs_min y) = Some (b, max i (min (rs_min y) (base + n)))"
      "length b = length bits" "\<forall>j<n. isset b j \<longleftrightarrow> isset bits j \<or> i \<le> base + j \<and> base + j < rs_min y"
      using set_seqs_spec [of n bits base i "rs_min y"] ru by blast
    have nxt: "find_succ rtree t (Some y) = hd_opt ys"
      using rivs.following_law [OF assms(1), of xs y ys] Cons.prems(1) by simp
    have cv: "q \<notin> cov (inorder t) \<longleftrightarrow> q < rs_min y" if "i \<le> q" "q < rs_maxp1 y" for q
    proof -
      have "q \<notin> cov xs" using Cons.prems(3) that(1) by (auto simp: cov_def not_less intro: order_trans)
      moreover have "q \<notin> cov ys" using y(2) that(2) by (fastforce simp: cov_def)
      ultimately show ?thesis using that unfolding Cons.prems(1) by auto
    qed
    have "right_upto base n b (rs_maxp1 y) (cov (inorder t))"
      unfolding right_upto_def
    proof (intro conjI allI impI)
      show "n \<le> 32 * length b" "base \<le> rs_maxp1 y"
        using ru b(2) y(4) iv_wf_bounds [OF y(1)] by auto
      fix j assume j: "j < n"
      show "isset b j \<longleftrightarrow> base + j < rs_maxp1 y \<and> base + j \<notin> cov (inorder t)"
      proof (cases "base + j < i")
        case True
        with j b(3) ru y(4) iv_wf_bounds [OF y(1)] show ?thesis by auto
      next
        case False
        with j b(3) ru cv [of "base + j"] iv_wf_bounds [OF y(1)] show ?thesis by auto
      qed
    qed
    moreover have "\<forall>x\<in>set (xs @ [y]). rs_maxp1 x \<le> rs_maxp1 y"
      using y(3) iv_wf_bounds [OF y(1)] by fastforce
    moreover have "\<forall>u\<in>set ys. rs_maxp1 y \<le> rs_min u" using y(2) by (auto intro: less_imp_le)
    ultimately obtain b' i' where b': "nack_loop t base n b (rs_maxp1 y) (hd_opt ys) = Some (b', i')"
      "length b' = length b" "right_upto base n b' i' (cov (inorder t))"
      "base + n \<le> i' \<or> (\<forall>v\<in>set (inorder t). rs_maxp1 v \<le> i')"
      using Cons.IH [of "xs @ [y]" b "rs_maxp1 y"] Cons.prems(1) by auto
    have "nack_loop t base n bits i (hd_opt (y # ys)) = Some (b', i')"
      using True b(1) b'(1) nxt by (subst nack_loop.simps) simp
    with b' b(2) show ?thesis by auto
  qed
qed

text \<open>
  The map starts at the base, requests exactly what is not there, and ends before the greatest
  number asked for only at the size limit or, without the tail, where nothing is there any more.
\<close>

definition nack_ok ::
  "nn_reorder \<Rightarrow> seqno \<Rightarrow> seqno \<Rightarrow> nat \<Rightarrow> bool \<Rightarrow> nn_sequence_number_set_header \<times> 32 word list \<Rightarrow> bool" where
  "nack_ok r base maxseq maxsz notail res \<longleftrightarrow> (case res of (hdr, bits) \<Rightarrow>
     sn_bitmap_base hdr = base \<and> sn_numbits hdr \<le> min maxsz (ro_max_samples r) \<and>
     base + sn_numbits hdr \<le> maxseq + 1 \<and> sn_numbits hdr \<le> 32 * length bits \<and>
     (\<forall>j < sn_numbits hdr. isset bits j \<longleftrightarrow> base + j \<notin> cov (ivs_of r)) \<and>
     (base + sn_numbits hdr = maxseq + 1 \<or> sn_numbits hdr = min maxsz (ro_max_samples r) \<or>
      notail \<and> (\<forall>q\<in>cov (ivs_of r). q < base + sn_numbits hdr)))"

lemma reorder_nackmap_spec:
  assumes ok: "reorder_ok r" and base: "base \<le> next_seq r" "base \<le> maxseq + 1"
    and sz: "maxsz \<le> 256" "maxsz \<le> 32 * length mapbits"
  shows "\<exists>res. nn_reorder_nackmap r base maxseq mapbits maxsz notail = Some res \<and>
    nack_ok r base maxseq maxsz notail res"
proof -
  note rok = reorder_okD [OF ok]
  let ?sz = "if ro_max_samples r < maxsz then ro_max_samples r else maxsz"
  define n where "n = (if ?sz < maxseq + 1 - base then ?sz else maxseq + 1 - base)"
  have n: "n \<le> 32 * length mapbits" "n \<le> min maxsz (ro_max_samples r)" "base + n \<le> maxseq + 1"
    "base + n = maxseq + 1 \<or> n = min maxsz (ro_max_samples r)"
    using sz(2) base(2) by (auto simp: n_def)
  have b0: "(if next_seq r < base then next_seq r else base) = base"
    "(if maxseq + 1 < base then base - 1 else maxseq) = maxseq" using base by auto
  obtain bs where bs: "nn_bitset_zero n mapbits = Some bs" "length bs = length mapbits" "\<forall>i<n. \<not> isset bs i"
    using nn_bitset_zero_spec [OF n(1)] by blast
  have above: "\<forall>v\<in>set (ivs_of r). base < rs_min v" using rok(2) base(1) by (auto simp: ivs_wf_def)
  then have as: "assertion (case find_min (sampleivtree r) of None \<Rightarrow> True | Some v \<Rightarrow> base < rs_min v) = Some ()"
    by (auto simp: find_min_inorder hd_opt_Some split: option.split)
  have "right_upto base n bs base (cov (ivs_of r))" using bs n(1) by (simp add: right_upto_def)
  moreover have "\<forall>y\<in>set (ivs_of r). base \<le> rs_min y" using above by auto
  ultimately obtain bits i where l: "nack_loop (sampleivtree r) base n bs base (hd_opt (ivs_of r)) = Some (bits, i)"
    "length bits = length bs" "right_upto base n bits i (cov (ivs_of r))"
    "base + n \<le> i \<or> (\<forall>v\<in>set (ivs_of r). rs_maxp1 v \<le> i)"
    using nack_loop_spec [OF rok(1,2), of "[]" "ivs_of r" base n bs base] by auto
  note ru = l(3) [unfolded right_upto_def]
  have top: "q < i" if "q \<in> cov (ivs_of r)" "i < base + n" for q
    using that l(4) by (fastforce simp: cov_def)
  have code: "nn_reorder_nackmap r base maxseq mapbits maxsz notail =
      (if notail \<and> i < base + n then Some (\<lparr>sn_bitmap_base = base, sn_numbits = i - base\<rparr>, bits)
       else do { (bits2, _) \<leftarrow> set_seqs base n bits i (base + n);
                 Some (\<lparr>sn_bitmap_base = base, sn_numbits = n\<rparr>, bits2) })"
    unfolding nn_reorder_nackmap_def Let_def b0 n_def [symmetric] as bs(1) option_bind_Some
    using sz(1) l(1) by (simp add: find_min_inorder)
  show ?thesis
  proof (cases "notail \<and> i < base + n")
    case True
    have "nack_ok r base maxseq maxsz notail (\<lparr>sn_bitmap_base = base, sn_numbits = i - base\<rparr>, bits)"
    proof -
      have i: "i - base < n" "base + (i - base) = i" using True ru by auto
      have "isset bits j \<longleftrightarrow> base + j \<notin> cov (ivs_of r)" if "j < i - base" for j
        using ru that i(1) by auto
      moreover have "i - base \<le> min maxsz (ro_max_samples r)" "i \<le> maxseq + 1" using i n(2,3) by auto
      moreover have "\<forall>q\<in>cov (ivs_of r). q < i" using top True by blast
      moreover have "i - base \<le> 32 * length bits" using i(1) ru by simp
      ultimately show ?thesis unfolding nack_ok_def using True i(2) by simp
    qed
    then show ?thesis unfolding code if_P [OF True] by blast
  next
    case False
    obtain b' where b': "set_seqs base n bits i (base + n) = Some (b', max i (min (base + n) (base + n)))" "length b' = length bits"
      "\<forall>j<n. isset b' j \<longleftrightarrow> isset bits j \<or> i \<le> base + j \<and> base + j < base + n"
      using set_seqs_spec [of n bits base i "base + n"] ru by blast
    have "isset b' j \<longleftrightarrow> base + j \<notin> cov (ivs_of r)" if j: "j < n" for j
    proof (cases "base + j < i")
      case True
      with b'(3) ru j show ?thesis by auto
    next
      case False
      with top [of "base + j"] b'(3) j show ?thesis by auto
    qed
    then have "nack_ok r base maxseq maxsz notail (\<lparr>sn_bitmap_base = base, sn_numbits = n\<rparr>, b')"
      unfolding nack_ok_def using n b'(2) ru by auto
    then show ?thesis unfolding code if_not_P [OF False] b'(1) by auto
  qed
qed

section \<open>Releasing\<close>

lemma unref_chain_spec:
  assumes "\<And>m. held_in m (chain_frags es) \<le> R m"
  shows "\<exists>R'. unref_chain R es = Some R' \<and> (\<forall>m. R' m + held_in m (chain_frags es) = R m)"
  using assms
proof (induction es arbitrary: R)
  case (Cons e es)
  have "held_in m (sce_fragchain e) \<le> R m" for m
    using Cons.prems [of m] by simp
  then obtain R1 where R1: "nn_fragchain_unref R (sce_fragchain e) = Some R1"
    "\<forall>m. R1 m + held_in m (sce_fragchain e) = R m" using unref by blast
  have "held_in m (chain_frags es) \<le> R1 m" for m
    using Cons.prems [of m] R1(2) [rule_format, of m] by simp
  from Cons.IH [OF this] obtain R2 where R2: "unref_chain R1 es = Some R2"
    "\<forall>m. R2 m + held_in m (chain_frags es) = R1 m" by blast
  have "R2 m + held_in m (chain_frags (e # es)) = R m" for m
    using R1(2) [rule_format, of m] R2(2) [rule_format, of m] by simp
  with R1(1) R2(1) show ?case by auto
qed simp

lemma reorder_free_spec:
  assumes "index_ok rtree (sampleivtree r)" "\<And>m. held_in m (chain_frags (chains (ivs_of r))) \<le> R m"
  shows "\<exists>R'. nn_reorder_free r R = Some R' \<and>
    (\<forall>m. R' m + held_in m (chain_frags (chains (ivs_of r))) = R m)"
  using assms
proof (induction "ivs_of r" arbitrary: r R)
  case Nil
  then have "find_min (sampleivtree r) = None" by (simp add: find_min_inorder)
  then have "nn_reorder_free r R = Some R" by (subst nn_reorder_free.simps) simp
  with Nil.hyps show ?case by simp
next
  case (Cons v vs)
  have e: "ivs_of r = v # vs" using Cons.hyps(2) by simp
  obtain t where t: "avl_delete rtree (sampleivtree r) v = Some t" "index_ok rtree t" "inorder t = vs"
    using rivs.del_law [OF Cons.prems(1), of "[]" v vs] e by auto
  have "held_in m (chain_frags (rs_sc v)) \<le> R m" for m using Cons.prems(2) [of m] e by simp
  then obtain R1 where R1: "unref_chain R (rs_sc v) = Some R1"
    "\<forall>m. R1 m + held_in m (chain_frags (rs_sc v)) = R m" using unref_chain_spec by blast
  let ?r = "r\<lparr>sampleivtree := t\<rparr>"
  have "held_in m (chain_frags (chains (ivs_of ?r))) \<le> R1 m" for m
    using Cons.prems(2) [of m] R1(2) [rule_format, of m] e t(3) by simp
  with Cons.hyps(1) [of ?r R1] t obtain R2 where R2: "nn_reorder_free ?r R1 = Some R2"
    "\<forall>m. R2 m + held_in m (chain_frags (chains vs)) = R1 m" by auto
  have "nn_reorder_free r R = Some R2"
    using e t(1) R1(1) R2(1) by (subst nn_reorder_free.simps) (simp add: find_min_inorder)
  moreover have "R2 m + held_in m (chain_frags (chains (ivs_of r))) = R m" for m
    using R1(2) [rule_format, of m] R2(2) [rule_format, of m] e by simp
  ultimately show ?case by blast
qed

lemma drop_upto_spec:
  assumes ok: "reorder_ok r" and refs: "refs_cover r R" and mode: "ro_mode r = NN_REORDER_MODE_NORMAL"
    and pos: "1 \<le> next_seq r" and all: "\<forall>v\<in>set (ivs_of r). rs_maxp1 v \<le> hi"
  shows "\<exists>r' R'. nn_reorder_drop_upto r R hi = Some (r', R') \<and> reorder_ok r' \<and>
    next_seq r' = max hi (next_seq r) \<and> ivs_of r' = (if next_seq r < hi then [] else ivs_of r) \<and>
    (\<forall>m. R' m + held_in m (chain_frags (chains (ivs_of r))) =
       R m + held_in m (chain_frags (chains (ivs_of r'))))"
proof -
  let ?gap = "\<lparr>rd_rmsg = 0, rd_min = 0, rd_maxp1 = 0\<rparr>"
  have first: "(case max_sampleiv r of None \<Rightarrow> Some True
      | Some m \<Rightarrow> map_option (\<lambda>last. rs_maxp1 last \<le> hi) (lookup rtree (sampleivtree r) m)) = Some True"
  proof (cases "ivs_of r" rule: rev_cases)
    case Nil
    then show ?thesis using reorder_okD(3) [OF ok] by (simp add: max_iv_last)
  next
    case (snoc us l)
    with max_lookup [OF ok snoc] all show ?thesis by simp
  qed
  show ?thesis
  proof (cases "next_seq r < hi")
    case False
    then have "nn_reorder_gap r R ?gap 1 hi = Some (NN_REORDER_TOO_OLD, [], r, R, 0)"
      by (simp add: nn_reorder_gap_def)
    then have "nn_reorder_drop_upto r R hi = Some (r, R)"
      using False unfolding nn_reorder_drop_upto_def Let_def first by (simp add: NN_REORDER_TOO_OLD_def)
    with ok False show ?thesis by auto
  next
    case True
    then have lt: "1 < hi" using pos by simp
    obtain c sc r' R' adj where g: "nn_reorder_gap r R ?gap 1 hi = Some (c, sc, r', R', adj)"
      "gap_outcome r R ?gap 1 hi (c, sc, r', R', adj)"
      using reorder_gap_spec [OF ok refs lt, of ?gap] by (metis prod_cases5)
    have "gap_passed r R 1 hi (c, sc, r', R', adj)" and ok': "reorder_ok r'"
      using g(2) True mode pos
      by (auto simp: gap_outcome_def gap_ignored_def gap_merged_def gap_stored_def NN_REORDER_TOO_OLD_def
          NN_REORDER_REJECT_def)
    then obtain ts bs where p: "touching 1 hi (ivs_of r) [] ts bs" "sc = chains ts" "ivs_of r' = bs"
      "next_seq r' = (if ts = [] then hi else max hi (rs_maxp1 (last ts)))" "R' = R" "adj = 0" "c = int (length sc)"
      by (auto simp: gap_passed_def)
    have "bs = []"
    proof (rule ccontr)
      assume "bs \<noteq> []"
      then obtain b where b: "b \<in> set bs" by (cases bs) auto
      then have "hi < rs_min b" "b \<in> set (ivs_of r)" using p(1) by (auto simp: touching_def)
      moreover from this(2) have "iv_wf b" "rs_maxp1 b \<le> hi" using reorder_okD(2) [OF ok] all by (auto simp: ivs_wf_def)
      ultimately show False using iv_wf_bounds [of b] by simp
    qed
    then have e: "ivs_of r = ts" "ivs_of r' = []" using p(1,3) by (auto simp: touching_def)
    have "rs_maxp1 (last ts) \<le> hi" if "ts \<noteq> []"
      using all last_in_set [OF that] e(1) by simp
    then have nx: "next_seq r' = hi" using p(4) by auto
    have "held_in m (chain_frags sc) \<le> R m" for m
      using refs p(2) e(1) by (simp add: refs_cover_def)
    then obtain R2 where R2: "unref_chain R sc = Some R2" "\<forall>m. R2 m + held_in m (chain_frags sc) = R m"
      using unref_chain_spec by blast
    have "(if 0 < c then unref_chain R' sc else Some R') = Some R2"
    proof (cases "sc = []")
      case True
      with p(5,7) R2(1) show ?thesis by simp
    qed (use p(5,7) R2(1) in simp)
    then have "nn_reorder_drop_upto r R hi = Some (r', R2)"
      unfolding nn_reorder_drop_upto_def Let_def first option_bind_Some g(1) using p(6) nx by simp
    with ok' nx True e R2(2) p(2) show ?thesis by auto
  qed
qed

end
