(* ===== verification/Reorder_Runs.thy ===== *)
theory Reorder_Runs
  imports Reorder_Queries
begin

text \<open>
  What the reorder administration promises over its whole life: no assertion fails, samples come
  out in order and once, nothing is skipped but what was announced as a gap, and references are
  accounted for; with the one situation in which a sample is lost.
\<close>

section \<open>The runs of a reorder administration\<close>

definition span :: "nn_reorder \<Rightarrow> bool" where
  "span r \<longleftrightarrow> (\<forall>v\<in>set (ivs_of r). rs_maxp1 v - next_seq r \<le> INT32_MAX)"

text \<open>
  \<open>D\<close> is the concatenation of the chains delivered, \<open>G\<close> the set of the numbers announced as
  gaps. Between the steps others change the reference counts, but not those of what is stored.
\<close>

inductive reorder_run :: "nn_reorder \<Rightarrow> rsample_chain_elem list \<Rightarrow> seqno set \<Rightarrow> bool" where
  new: "reorder_run (nn_reorder_new mode maxs late) [] {}"
| sample: "reorder_run r D G \<Longrightarrow> refs_cover r R \<Longrightarrow> sample_in s \<Longrightarrow> span r \<Longrightarrow>
    nn_reorder_rsample r R s full = Some (c, sc, r', R', adj) \<Longrightarrow> reorder_run r' (D @ sc) G"
| gap: "reorder_run r D G \<Longrightarrow> refs_cover r R \<Longrightarrow> mn < hi \<Longrightarrow>
    nn_reorder_gap r R d mn hi = Some (c, sc, r', R', adj) \<Longrightarrow> reorder_run r' (D @ sc) (G \<union> {mn..<hi})"

lemma reorder_new_ok: "reorder_ok (nn_reorder_new mode maxs late)"
  by (simp add: nn_reorder_new_def reorder_ok_def rivs.ok_empty max_iv_last)

lemma sample_outcome:
  assumes "reorder_ok r" "refs_cover r R" "sample_in s" "span r"
  shows "\<exists>res. nn_reorder_rsample r R s full = Some res \<and> outcome r R s full res"
  using reorder_rsample_spec [OF assms(1-3)] assms(4) by (simp add: span_def)

lemma sample_step:
  assumes "reorder_ok r" "refs_cover r R" "sample_in s" "span r"
    and "nn_reorder_rsample r R s full = Some res"
  shows "outcome r R s full res"
  using sample_outcome [OF assms(1-4), of full] assms(5) by auto

lemma gap_step:
  assumes "reorder_ok r" "refs_cover r R" "mn < hi" "nn_reorder_gap r R d mn hi = Some res"
  shows "gap_outcome r R d mn hi res"
  using reorder_gap_spec [OF assms(1-3), of d] assms(4) by auto

lemma reorder_run_ok: "reorder_run r D G \<Longrightarrow> reorder_ok r"
proof (induction rule: reorder_run.induct)
  case (new mode maxs late)
  show ?case by (rule reorder_new_ok)
next
  case (sample r D G R s full c sc r' R' adj)
  from sample_step [OF sample.IH sample.hyps(2-5)] show ?case by (simp add: outcome_def)
next
  case (gap r D G R mn hi d c sc r' R' adj)
  from gap_step [OF gap.IH gap.hyps(2-4)] show ?case by (simp add: gap_outcome_def)
qed

section \<open>Order\<close>

definition numbers :: "rsample_chain_elem list \<Rightarrow> seqno list" where
  "numbers es = map si_seq (List.map_filter sce_sampleinfo es)"

lemma numbers_simps [simp]:
  "numbers [] = []"
  "numbers (e # es) = (case sce_sampleinfo e of None \<Rightarrow> numbers es | Some i \<Rightarrow> si_seq i # numbers es)"
  by (simp_all add: numbers_def map_filter_simps split: option.split)

lemma set_numbers: "set (numbers es) = seqs es"
  by (induction es) (auto split: option.splits)

lemma placed_numbers:
  "placed lo hi es \<Longrightarrow> sorted_wrt (<) (numbers es) \<and> (\<forall>q\<in>set (numbers es). lo \<le> q \<and> q < hi)"
proof (induction es arbitrary: lo)
  case (Cons e es)
  show ?case
  proof (cases "sce_sampleinfo e")
    case None
    with Cons.prems Cons.IH [of "lo + 1"] show ?thesis by fastforce
  next
    case (Some i)
    with Cons.prems have p: "lo \<le> si_seq i" "placed (si_seq i + 1) hi es" by auto
    from Cons.IH [OF p(2)] placed_le [OF p(2)] p(1) Some show ?thesis by fastforce
  qed
qed simp

lemma outcome_placed:
  assumes "outcome r R s full (c, sc, r', R', adj)" "ro_mode r \<noteq> NN_REORDER_MODE_ALWAYS_DELIVER"
    and "rs_min s = next_seq r \<or> next_seq r < rs_min s \<or> \<not> sent r R s (c, sc, r', R', adj)"
  shows "placed (next_seq r) (next_seq r') sc"
proof -
  consider "refused r R s full (c, sc, r', R', adj)" | "sent r R s (c, sc, r', R', adj)"
    | "kept_sample r R s (c, sc, r', R', adj)"
    using assms(1) by (auto simp: outcome_def)
  then show ?thesis
  proof cases
    case 1
    then show ?thesis by (auto simp: refused_def)
  next
    case 2
    then have "placed (rs_min s) (next_seq r') sc" by (auto simp: sent_def)
    moreover have "next_seq r \<le> rs_min s" using assms(3) 2 by auto
    ultimately show ?thesis by (auto intro: placed_mono)
  next
    case 3
    then show ?thesis by (auto simp: kept_sample_def)
  qed
qed

text \<open>Outside the mode that delivers everything, a sample below the next number is never sent.\<close>

lemma not_sent_below:
  assumes "ro_mode r \<noteq> NN_REORDER_MODE_ALWAYS_DELIVER" "rs_min s < next_seq r"
    and "nn_reorder_rsample r R s full = Some (c, sc, r', R', adj)" "sample_in s"
  shows "\<not> sent r R s (c, sc, r', R', adj)"
proof -
  have "sc = []"
    using assms sample_in_wf [OF assms(4)]
    by (auto simp: nn_reorder_rsample_def discard_sample_def split: bind_splits if_splits)
  moreover have "rs_sc s \<noteq> []" using assms(4) by (auto simp: sample_in_def)
  ultimately show ?thesis by (auto simp: sent_def)
qed

lemma gap_outcome_placed:
  assumes "gap_outcome r R d mn hi (c, sc, r', R', adj)"
  shows "placed (next_seq r) (next_seq r') sc"
  using assms by (auto simp: gap_outcome_def gap_ignored_def gap_passed_def gap_merged_def gap_stored_def)

lemma reorder_run_placed:
  assumes "reorder_run r D G" "ro_mode r \<noteq> NN_REORDER_MODE_ALWAYS_DELIVER"
  shows "1 \<le> next_seq r \<and> placed 1 (next_seq r) D"
  using assms
proof (induction rule: reorder_run.induct)
  case (new mode maxs late)
  then show ?case by (simp add: nn_reorder_new_def)
next
  case (sample r D G R s full c sc r' R' adj)
  have o: "outcome r R s full (c, sc, r', R', adj)"
    using sample_step [OF reorder_run_ok [OF sample.hyps(1)] sample.hyps(2-5)] .
  then have m: "ro_mode r' = ro_mode r" by (simp add: outcome_def)
  have IH: "1 \<le> next_seq r" "placed 1 (next_seq r) D" using sample.IH sample.prems m by simp_all
  have "placed (next_seq r) (next_seq r') sc"
    using outcome_placed [OF o] not_sent_below [OF _ _ sample.hyps(5,3)] sample.prems m by force
  with IH placed_le [OF this] show ?case by (auto intro: placed_append)
next
  case (gap r D G R mn hi d c sc r' R' adj)
  have o: "gap_outcome r R d mn hi (c, sc, r', R', adj)"
    using gap_step [OF reorder_run_ok [OF gap.hyps(1)] gap.hyps(2-4)] .
  then have "ro_mode r' = ro_mode r" by (simp add: gap_outcome_def)
  with gap.IH gap.prems gap_outcome_placed [OF o] placed_le [OF gap_outcome_placed [OF o]]
  show ?case by (auto intro: placed_append)
qed

section \<open>References\<close>

definition stored_frags :: "nn_reorder \<Rightarrow> rdata list" where
  "stored_frags r = chain_frags (chains (ivs_of r))"

text \<open>
  What leaves the store without being delivered gives up its references; the incoming sample is
  stored or delivered exactly when the adjustment counts it.
\<close>

definition accounted ::
  "nn_reorder \<Rightarrow> refs \<Rightarrow> rdata list \<Rightarrow> rsample_chain_elem list \<Rightarrow> nn_reorder \<Rightarrow> refs \<Rightarrow> nat \<Rightarrow> bool" where
  "accounted r R fs sc r' R' adj \<longleftrightarrow> (\<forall>m.
     R' m + held_in m (stored_frags r) + adj * held_in m fs =
     R m + held_in m (stored_frags r') + held_in m (chain_frags sc))"

lemma held_append [simp]: "held_in m (fs @ gs) = held_in m fs + held_in m gs"
  by (simp add: held_in_def)

lemma dropped_frags:
  assumes "ivs_wf nxt mid" "mid \<noteq> []"
  shows "held_in m (chain_frags (chains mid)) =
    held_in m (chain_frags (chains (drop_last mid))) + held_in m (sce_fragchain (last (chains mid)))"
proof -
  obtain us l where mid: "mid = us @ [l]" using assms(2) by (cases mid rule: rev_cases) auto
  then have l: "iv_wf l" using assms(1) by simp
  have "chains mid \<noteq> []" using l mid by (simp add: iv_wf_def)
  then have "chains mid = butlast (chains mid) @ [last (chains mid)]" by (rule append_butlast_last_id [symmetric])
  then have "chain_frags (chains mid) = chain_frags (butlast (chains mid)) @ sce_fragchain (last (chains mid))"
    by (metis chain_frags_simps append_Nil2)
  moreover have "chains (drop_last mid) = butlast (chains mid)"
    unfolding mid by (rule chains_drop_last [OF l])
  ultimately show ?thesis by simp
qed

lemma outcome_accounted:
  assumes "outcome r R s full (c, sc, r', R', adj)" "sample_in s"
  shows "accounted r R (chain_frags (rs_sc s)) sc r' R' adj"
proof -
  consider "refused r R s full (c, sc, r', R', adj)" | "sent r R s (c, sc, r', R', adj)"
    | "kept_sample r R s (c, sc, r', R', adj)"
    using assms(1) by (auto simp: outcome_def)
  then show ?thesis
  proof cases
    case 1
    then show ?thesis by (auto simp: refused_def accounted_def stored_frags_def)
  next
    case 2
    then show ?thesis by (auto simp: sent_def accounted_def stored_frags_def)
  next
    case 3
    have one: "length (rs_sc s) = 1" using assms(2) by (auto simp: sample_in_def)
    from 3 consider (room) as bs where "chains (ivs_of r) = as @ bs" "chains (ivs_of r') = as @ rs_sc s @ bs"
        "R' = R" "adj = 1" "sc = []"
      | (full) mid where "inserted (next_seq r) (ivs_of r) s mid" "ivs_of r' = drop_last mid"
        "\<forall>m. R' m + held_in m (sce_fragchain (last (chains mid))) = R m" "adj = 1" "sc = []"
      unfolding kept_sample_def prod.case by blast
    then show ?thesis
    proof cases
      case room
      then show ?thesis by (simp add: accounted_def stored_frags_def)
    next
      case full
      note ins = insertedD [OF full(1) one]
      obtain as bs where ab: "chains (ivs_of r) = as @ bs" "chains mid = as @ rs_sc s @ bs" using ins(5) by blast
      have "mid \<noteq> []" using ins(3) by (auto simp: tail_kept_def)
      show ?thesis unfolding accounted_def
      proof
        fix m
        have "held_in m (chain_frags (chains mid)) = held_in m (stored_frags r) + held_in m (chain_frags (rs_sc s))"
          using ab by (simp add: stored_frags_def)
        then show "R' m + held_in m (stored_frags r) + adj * held_in m (chain_frags (rs_sc s)) =
            R m + held_in m (stored_frags r') + held_in m (chain_frags sc)"
          using dropped_frags [OF ins(1) \<open>mid \<noteq> []\<close>, of m] full(2,4,5) full(3) [rule_format, of m]
          by (simp add: stored_frags_def)
      qed
    qed
  qed
qed

lemma gap_frags: "chain_frags (rs_sc (gap_interval d mn hi)) = [d]"
  by (simp add: gap_interval_def)

lemma gap_outcome_accounted:
  assumes "gap_outcome r R d mn hi (c, sc, r', R', adj)" "mn < hi" "reorder_ok r"
  shows "accounted r R [d] sc r' R' adj"
proof -
  consider "gap_ignored r R mn hi (c, sc, r', R', adj)" | "gap_passed r R mn hi (c, sc, r', R', adj)"
    | "gap_merged r R mn hi (c, sc, r', R', adj)" | "gap_stored r R d mn hi (c, sc, r', R', adj)"
    using assms(1) unfolding gap_outcome_def by blast
  then show ?thesis
  proof cases
    case 1
    then show ?thesis by (auto simp: gap_ignored_def accounted_def stored_frags_def)
  next
    case 2
    then show ?thesis by (auto simp: gap_passed_def touching_def accounted_def stored_frags_def)
  next
    case 3
    then show ?thesis by (auto simp: gap_merged_def accounted_def stored_frags_def)
  next
    case 4
    then obtain as bs where tc: "touching mn hi (ivs_of r) as [] bs" "adj = 1" "sc = []" "next_seq r < mn"
      and e: "if ro_n_samples r < ro_max_samples r then R' = R \<and> ivs_of r' = as @ gap_interval d mn hi # bs
         else ro_n_samples r = ro_max_samples r \<and> bs \<noteq> [] \<and> ivs_of r' = drop_last (as @ gap_interval d mn hi # bs) \<and>
           (\<forall>m. R' m + held_in m (sce_fragchain (last (chains bs))) = R m)"
      unfolding gap_stored_def prod.case by blast
    have iv: "ivs_of r = as @ bs" using tc(1) by (simp add: touching_def)
    show ?thesis
    proof (cases "ro_n_samples r < ro_max_samples r")
      case True
      with e tc iv gap_frags show ?thesis by (simp add: accounted_def stored_frags_def)
    next
      case False
      let ?mid = "as @ gap_interval d mn hi # bs"
      have wf: "ivs_wf (next_seq r) ?mid"
        by (rule touching_wf [OF tc(1) reorder_okD(2) [OF assms(3)] tc(4) assms(2)])
      have b: "bs \<noteq> []" "ivs_of r' = drop_last ?mid" "\<forall>m. R' m + held_in m (sce_fragchain (last (chains bs))) = R m"
        using e False by simp_all
      have "chains bs \<noteq> []" using b(1) wf by (cases bs) (auto simp: iv_wf_def)
      then have l: "last (chains ?mid) = last (chains bs)" by simp
      show ?thesis unfolding accounted_def
      proof
        fix m
        from dropped_frags [OF wf, of m] b(2) b(3) [rule_format, of m] iv tc(2,3) gap_frags [of d mn hi] l
        show "R' m + held_in m (stored_frags r) + adj * held_in m [d] =
            R m + held_in m (stored_frags r') + held_in m (chain_frags sc)"
          by (simp add: stored_frags_def)
      qed
    qed
  qed
qed

end
