(* ===== verification/Reorder_Complete.thy ===== *)
theory Reorder_Complete
  imports Reorder_Runs
begin

text \<open>
  Nothing is skipped: as long as the last sample is dropped only from an interval that ends with
  it, every number below the next one has been delivered or announced as a gap.
\<close>

section \<open>What is covered is there\<close>

definition filled :: "seqno set \<Rightarrow> rsample list \<Rightarrow> bool" where
  "filled G ivs \<longleftrightarrow> (\<forall>v\<in>set ivs. {rs_min v..<rs_maxp1 v} \<subseteq> seqs (rs_sc v) \<union> G)"

lemma filled_simps [simp]:
  "filled G []" "filled G (v # vs) \<longleftrightarrow> {rs_min v..<rs_maxp1 v} \<subseteq> seqs (rs_sc v) \<union> G \<and> filled G vs"
  "filled G (us @ vs) \<longleftrightarrow> filled G us \<and> filled G vs"
  by (auto simp: filled_def)

lemma filled_mono: "filled G ivs \<Longrightarrow> G \<subseteq> H \<Longrightarrow> filled H ivs"
  unfolding filled_def by blast

lemma filled_cov: "filled G ivs \<Longrightarrow> cov ivs \<subseteq> seqs (chains ivs) \<union> G"
  by (induction ivs) auto

lemma seqs_chains: "q \<in> seqs (chains ivs) \<Longrightarrow> \<exists>u\<in>set ivs. q \<in> seqs (rs_sc u)"
  by (induction ivs) auto

lemma seqs_in_iv: "iv_wf u \<Longrightarrow> q \<in> seqs (rs_sc u) \<Longrightarrow> rs_min u \<le> q \<and> q < rs_maxp1 u"
  using placed_seqs unfolding iv_wf_def by blast

lemma iv_apart:
  assumes "ivs_wf nxt ivs" "u \<in> set ivs" "v \<in> set ivs" "rs_min u \<le> q" "q < rs_maxp1 u" "rs_min v \<le> q" "q < rs_maxp1 v"
  shows "u = v"
  using assms
proof (induction ivs)
  case (Cons w ws)
  then show ?case by fastforce
qed simp

lemma cov_filled:
  assumes "ivs_wf nxt ivs" "cov ivs \<subseteq> seqs (chains ivs) \<union> G"
  shows "filled G ivs"
  unfolding filled_def
proof (intro ballI subsetI)
  fix v q assume v: "v \<in> set ivs" and q: "q \<in> {rs_min v..<rs_maxp1 v}"
  then have "q \<in> cov ivs" by (auto simp: cov_def)
  then consider "q \<in> G" | "q \<in> seqs (chains ivs)" using assms(2) by blast
  then show "q \<in> seqs (rs_sc v) \<union> G"
  proof cases
    case 2
    then obtain u where u: "u \<in> set ivs" "q \<in> seqs (rs_sc u)" using seqs_chains by blast
    then have "iv_wf u" using assms(1) by (simp add: ivs_wf_def)
    have "u = v"
    proof (rule iv_apart [OF assms(1) u(1) v])
      show "rs_min u \<le> q" "q < rs_maxp1 u" using seqs_in_iv [OF \<open>iv_wf u\<close> u(2)] by simp_all
      show "rs_min v \<le> q" "q < rs_maxp1 v" using q by simp_all
    qed
    with u(2) show ?thesis by simp
  qed simp
qed

section \<open>Dropping the last sample\<close>

definition tail_exact :: "rsample list \<Rightarrow> bool" where
  "tail_exact ivs \<longleftrightarrow> (case last_opt ivs of None \<Rightarrow> True
     | Some l \<Rightarrow> (case sce_sampleinfo (last (rs_sc l)) of None \<Rightarrow> True
                  | Some i \<Rightarrow> si_seq i + 1 = rs_maxp1 l))"

lemma tail_exact_kept: "tail_kept ivs mid \<Longrightarrow> tail_exact ivs \<Longrightarrow> tail_exact mid"
  unfolding tail_kept_def by (elim exE conjE) (auto simp: tail_exact_def split: option.splits)

lemma filled_drop_last:
  assumes "ivs_wf nxt mid" "mid \<noteq> []" "tail_exact mid" "filled G mid"
  shows "filled G (drop_last mid)"
proof -
  obtain us l where mid: "mid = us @ [l]" using assms(2) by (cases mid rule: rev_cases) auto
  have f: "filled G us" "{rs_min l..<rs_maxp1 l} \<subseteq> seqs (rs_sc l) \<union> G" and l: "iv_wf l"
    using assms(1,4) mid by simp_all
  show ?thesis
  proof (cases "length (rs_sc l) = 1")
    case True
    with f mid show ?thesis by (simp add: drop_last_def)
  next
    case False
    obtain es e where sc: "rs_sc l = es @ [e]" using l by (cases "rs_sc l" rule: rev_cases) (auto simp: iv_wf_def)
    have "{rs_min l..<rs_maxp1 l - 1} \<subseteq> seqs es \<union> G"
    proof
      fix q assume q: "q \<in> {rs_min l..<rs_maxp1 l - 1}"
      then have "q \<in> {rs_min l..<rs_maxp1 l}" by auto
      then have "q \<in> seqs (rs_sc l) \<union> G" using f(2) by blast
      moreover have "si_seq i + 1 = rs_maxp1 l" if "sce_sampleinfo e = Some i" for i
        using assms(3) that sc mid by (simp add: tail_exact_def)
      ultimately show "q \<in> seqs es \<union> G" using q sc by (auto split: option.splits)
    qed
    with f mid False sc show ?thesis by (simp add: drop_last_def trim_def)
  qed
qed

section \<open>Runs that drop with care\<close>

definition careful :: "nn_reorder \<Rightarrow> bool" where
  "careful r \<longleftrightarrow> ro_n_samples r < ro_max_samples r \<or> tail_exact (ivs_of r)"

inductive careful_run :: "nn_reorder \<Rightarrow> rsample_chain_elem list \<Rightarrow> seqno set \<Rightarrow> bool" where
  new: "careful_run (nn_reorder_new NN_REORDER_MODE_NORMAL maxs late) [] {}"
| sample: "careful_run r D G \<Longrightarrow> careful r \<Longrightarrow> refs_cover r R \<Longrightarrow> sample_in s \<Longrightarrow> span r \<Longrightarrow>
    nn_reorder_rsample r R s full = Some (c, sc, r', R', adj) \<Longrightarrow> careful_run r' (D @ sc) G"
| gap: "careful_run r D G \<Longrightarrow> careful r \<Longrightarrow> refs_cover r R \<Longrightarrow> mn < hi \<Longrightarrow>
    nn_reorder_gap r R d mn hi = Some (c, sc, r', R', adj) \<Longrightarrow> careful_run r' (D @ sc) (G \<union> {mn..<hi})"

lemma careful_run_run: "careful_run r D G \<Longrightarrow> reorder_run r D G"
  by (induction rule: careful_run.induct) (blast intro: reorder_run.intros)+

definition complete_upto :: "nn_reorder \<Rightarrow> rsample_chain_elem list \<Rightarrow> seqno set \<Rightarrow> bool" where
  "complete_upto r D G \<longleftrightarrow> (\<forall>q. 1 \<le> q \<and> q < next_seq r \<longrightarrow> q \<in> seqs D \<union> G) \<and> filled G (ivs_of r)"

lemma sample_complete:
  assumes ok: "reorder_ok r" and s: "sample_in s" and mode: "ro_mode r = NN_REORDER_MODE_NORMAL"
    and care: "careful r" and o: "outcome r R s full (c, sc, r', R', adj)" and inv: "complete_upto r D G"
  shows "complete_upto r' (D @ sc) G"
proof -
  have wf: "ivs_wf (next_seq r) (ivs_of r)" using reorder_okD(2) [OF ok] .
  have one: "length (rs_sc s) = 1" "seqs (rs_sc s) = {rs_min s}" "rs_maxp1 s = rs_min s + 1"
    using s by (auto simp: sample_in_def)
  have fl: "filled G (ivs_of r)" and up: "\<And>q. 1 \<le> q \<Longrightarrow> q < next_seq r \<Longrightarrow> q \<in> seqs D \<union> G"
    using inv by (auto simp: complete_upto_def)
  consider "refused r R s full (c, sc, r', R', adj)" | "sent r R s (c, sc, r', R', adj)"
    | "kept_sample r R s (c, sc, r', R', adj)"
    using o by (auto simp: outcome_def)
  then show ?thesis
  proof cases
    case 1
    with inv show ?thesis by (auto simp: refused_def complete_upto_def)
  next
    case 2
    then obtain us vs where p: "ivs_of r = us @ vs" "us = [] \<or> (\<exists>u. us = [u] \<and> rs_min u = rs_maxp1 s)"
      "sc = rs_sc s @ chains us" "ivs_of r' = vs"
      "next_seq r' = (if us = [] then rs_maxp1 s else rs_maxp1 (hd us))" "rs_min s = next_seq r"
      using mode by (auto simp: sent_def)
    have "q \<in> seqs (D @ sc) \<union> G" if q: "1 \<le> q" "q < next_seq r'" for q
    proof (cases "q < next_seq r")
      case True
      with up [OF q(1)] show ?thesis by auto
    next
      case False
      show ?thesis
      proof (cases us)
        case Nil
        with False q(2) p one show ?thesis by simp
      next
        case (Cons u ws)
        then have u: "us = [u]" "rs_min u = rs_maxp1 s" using p(2) by auto
        then have "{rs_min u..<rs_maxp1 u} \<subseteq> seqs (rs_sc u) \<union> G" using fl p(1) by simp
        moreover have "q = rs_min s \<or> q \<in> {rs_min u..<rs_maxp1 u}" using False q(2) p(5,6) u one(3) by auto
        ultimately show ?thesis using p(3) u(1) one(2) by auto
      qed
    qed
    moreover have "filled G vs" using fl p(1) by simp
    ultimately show ?thesis using p(4) by (simp add: complete_upto_def)
  next
    case 3
    have nx: "sc = []" "next_seq r' = next_seq r" using 3 by (auto simp: kept_sample_def)
    from 3 consider (room) as bs where "chains (ivs_of r) = as @ bs" "chains (ivs_of r') = as @ rs_sc s @ bs"
        "cov (ivs_of r') = insert (rs_min s) (cov (ivs_of r))"
      | (full) mid where "ro_n_samples r = ro_max_samples r" "inserted (next_seq r) (ivs_of r) s mid"
        "ivs_of r' = drop_last mid"
      unfolding kept_sample_def prod.case by blast
    then have "filled G (ivs_of r')"
    proof cases
      case room
      have "seqs (chains (ivs_of r')) = insert (rs_min s) (seqs (chains (ivs_of r)))"
        using room(1,2) one(2) by simp
      then have "cov (ivs_of r') \<subseteq> seqs (chains (ivs_of r')) \<union> G"
        using room(3) filled_cov [OF fl] by auto
      moreover have "reorder_ok r'" using o by (simp add: outcome_def)
      ultimately show ?thesis using cov_filled [OF reorder_okD(2)] by blast
    next
      case full
      note ins = insertedD [OF full(2) one(1)]
      have te: "tail_exact mid" using care full(1) tail_exact_kept [OF ins(3)] by (simp add: careful_def)
      obtain as bs where ab: "chains (ivs_of r) = as @ bs" "chains mid = as @ rs_sc s @ bs" using ins(5) by blast
      then have "seqs (chains mid) = insert (rs_min s) (seqs (chains (ivs_of r)))" using one(2) by simp
      then have "cov mid \<subseteq> seqs (chains mid) \<union> G" using ins(4) filled_cov [OF fl] by auto
      then have "filled G mid" by (rule cov_filled [OF ins(1)])
      moreover have "mid \<noteq> []" using ins(3) by (auto simp: tail_kept_def)
      ultimately show ?thesis unfolding full(3) using filled_drop_last [OF ins(1) _ te] by blast
    qed
    with inv nx show ?thesis by (simp add: complete_upto_def)
  qed
qed

lemma gap_complete:
  assumes ok: "reorder_ok r" and lt: "mn < hi" and mode: "ro_mode r = NN_REORDER_MODE_NORMAL"
    and care: "careful r" and o: "gap_outcome r R d mn hi (c, sc, r', R', adj)" and inv: "complete_upto r D G"
  shows "complete_upto r' (D @ sc) (G \<union> {mn..<hi})"
proof -
  let ?G = "G \<union> {mn..<hi}"
  have wf: "ivs_wf (next_seq r) (ivs_of r)" using reorder_okD(2) [OF ok] .
  have fl: "filled ?G (ivs_of r)" and up: "\<And>q. 1 \<le> q \<Longrightarrow> q < next_seq r \<Longrightarrow> q \<in> seqs D \<union> ?G"
    using inv filled_mono [of G "ivs_of r" ?G] by (auto simp: complete_upto_def)
  consider "gap_ignored r R mn hi (c, sc, r', R', adj)" | "gap_passed r R mn hi (c, sc, r', R', adj)"
    | "gap_merged r R mn hi (c, sc, r', R', adj)" | "gap_stored r R d mn hi (c, sc, r', R', adj)"
    using o unfolding gap_outcome_def by blast
  then show ?thesis
  proof cases
    case 1
    with fl up show ?thesis by (auto simp: gap_ignored_def complete_upto_def)
  next
    case 2
    then obtain ts bs where p: "touching mn hi (ivs_of r) [] ts bs" "sc = chains ts" "ivs_of r' = bs"
      "next_seq r' = (if ts = [] then hi else max hi (rs_maxp1 (last ts)))" "mn \<le> next_seq r"
      by (auto simp: gap_passed_def)
    have e: "ivs_of r = ts @ bs" "\<forall>t\<in>set ts. mn \<le> rs_maxp1 t \<and> rs_min t \<le> hi"
      using p(1) by (auto simp: touching_def)
    have fts: "filled ?G ts" "filled ?G bs" using fl e(1) by simp_all
    have wts: "ivs_wf (next_seq r) ts" using wf e(1) by simp
    have "q \<in> seqs (D @ sc) \<union> ?G" if q: "1 \<le> q" "q < next_seq r'" for q
    proof (cases "q < next_seq r")
      case True
      with up [OF q(1)] show ?thesis by auto
    next
      case False
      then have ge: "mn \<le> q" using p(5) by simp
      show ?thesis
      proof (cases "ts = []")
        case True
        with q(2) p(4) ge show ?thesis by simp
      next
        case ne: False
        have "q \<in> {min mn (rs_min (hd ts))..<max hi (rs_maxp1 (last ts))}" using ge q(2) p(4) ne by auto
        then have "q \<in> {mn..<hi} \<union> cov ts" unfolding touching_cover [OF e(2) wts ne lt] .
        then show ?thesis using filled_cov [OF fts(1)] p(2) by auto
      qed
    qed
    with fts(2) p(3) show ?thesis by (simp add: complete_upto_def)
  next
    case 3
    then have m: "next_seq r' = next_seq r" "chains (ivs_of r') = chains (ivs_of r)"
      "cov (ivs_of r') = cov (ivs_of r) \<union> {mn..<hi}" "sc = []" by (auto simp: gap_merged_def)
    have "cov (ivs_of r') \<subseteq> seqs (chains (ivs_of r')) \<union> ?G" using m filled_cov [OF fl] by auto
    moreover have "reorder_ok r'" using o by (simp add: gap_outcome_def)
    ultimately have "filled ?G (ivs_of r')" using cov_filled [OF reorder_okD(2)] by blast
    with up m show ?thesis by (auto simp: complete_upto_def)
  next
    case 4
    then obtain as bs where tc: "touching mn hi (ivs_of r) as [] bs" "sc = []" "next_seq r < mn" "next_seq r' = next_seq r"
      and e: "if ro_n_samples r < ro_max_samples r then R' = R \<and> ivs_of r' = as @ gap_interval d mn hi # bs
         else ro_n_samples r = ro_max_samples r \<and> bs \<noteq> [] \<and> ivs_of r' = drop_last (as @ gap_interval d mn hi # bs) \<and>
           (\<forall>m. R' m + held_in m (sce_fragchain (last (chains bs))) = R m)"
      unfolding gap_stored_def prod.case by blast
    let ?mid = "as @ gap_interval d mn hi # bs"
    have iv: "ivs_of r = as @ bs" using tc(1) by (simp add: touching_def)
    have fm: "filled ?G ?mid" using fl iv by auto
    have "filled ?G (ivs_of r')"
    proof (cases "ro_n_samples r < ro_max_samples r")
      case True
      with e fm show ?thesis by simp
    next
      case False
      then have b: "bs \<noteq> []" "ivs_of r' = drop_last ?mid" using e by simp_all
      have "last_opt ?mid = last_opt (ivs_of r)" using b(1) iv by (cases bs rule: rev_cases) simp_all
      then have "tail_exact ?mid" using care False unfolding careful_def tail_exact_def by simp
      from filled_drop_last [OF touching_wf [OF tc(1) wf tc(3) lt] _ this fm] show ?thesis unfolding b(2) by simp
    qed
    with up tc show ?thesis by (auto simp: complete_upto_def)
  qed
qed

lemma careful_run_complete:
  "careful_run r D G \<Longrightarrow> ro_mode r = NN_REORDER_MODE_NORMAL \<and> complete_upto r D G"
proof (induction rule: careful_run.induct)
  case (new maxs late)
  show ?case by (simp add: nn_reorder_new_def complete_upto_def)
next
  case (sample r D G R s full c sc r' R' adj)
  have ok: "reorder_ok r" using reorder_run_ok [OF careful_run_run [OF sample.hyps(1)]] .
  have o: "outcome r R s full (c, sc, r', R', adj)" by (rule sample_step [OF ok sample.hyps(3-6)])
  with sample_complete [OF ok sample.hyps(4) _ sample.hyps(2) o] sample.IH show ?case by (simp add: outcome_def)
next
  case (gap r D G R mn hi d c sc r' R' adj)
  have ok: "reorder_ok r" using reorder_run_ok [OF careful_run_run [OF gap.hyps(1)]] .
  have o: "gap_outcome r R d mn hi (c, sc, r', R', adj)" by (rule gap_step [OF ok gap.hyps(3-5)])
  with gap_complete [OF ok gap.hyps(4) _ gap.hyps(2) o] gap.IH show ?case by (simp add: gap_outcome_def)
qed

end
