(* ===== verification/Reorder_Properties.thy ===== *)
theory Reorder_Properties
  imports Reorder_Complete
begin

text \<open>
  The properties of the reorder administration, with witnesses from runs that are evaluated.
\<close>

section \<open>Example runs\<close>

definition ro_sample :: "seqno \<Rightarrow> rsample" where
  "ro_sample q =
     \<lparr>rs_sc = [\<lparr>sce_fragchain = [\<lparr>rd_rmsg = q, rd_min = 0, rd_maxp1 = 10\<rparr>],
        sce_sampleinfo = Some \<lparr>si_seq = q, si_dst = 0, si_size = 10, si_fragsize = 10, si_timestamp = 0,
          si_statusinfo = 0\<rparr>\<rparr>], rs_min = q, rs_maxp1 = q + 1, rs_n_samples = 1\<rparr>"

definition ro_gap :: rdata where
  "ro_gap = \<lparr>rd_rmsg = 0, rd_min = 0, rd_maxp1 = 0\<rparr>"

datatype event = Arrives seqno | Missing seqno seqno

definition enough :: "nn_reorder \<Rightarrow> refs" where
  "enough r = (\<lambda>_. length (stored_frags r))"

text \<open>Play a list of events; with \<open>c\<close>, only while the run is careful.\<close>

fun play :: "bool \<Rightarrow> nn_reorder \<Rightarrow> rsample_chain_elem list \<Rightarrow> event list \<Rightarrow>
    (nn_reorder \<times> rsample_chain_elem list) option" where
  "play c r D [] = Some (r, D)"
| "play c r D (Arrives q # es) =
     (if span r \<and> (c \<longrightarrow> careful r) then do {
        (res, sc, r', R', adj) \<leftarrow> nn_reorder_rsample r (enough r) (ro_sample q) False;
        play c r' (D @ sc) es }
      else None)"
| "play c r D (Missing lo hi # es) =
     (if lo < hi \<and> (c \<longrightarrow> careful r) then do {
        (res, sc, r', R', adj) \<leftarrow> nn_reorder_gap r (enough r) ro_gap lo hi;
        play c r' (D @ sc) es }
      else None)"

fun gaps :: "event list \<Rightarrow> seqno set" where
  "gaps [] = {}"
| "gaps (Arrives q # es) = gaps es"
| "gaps (Missing lo hi # es) = {lo..<hi} \<union> gaps es"

lemma sample_in_ex [simp]: "sample_in (ro_sample q)"
  by (simp add: sample_in_def ro_sample_def)

lemma held_in_le: "held_in m fs \<le> length fs"
  by (simp add: held_in_def)

lemma refs_cover_enough [simp]: "refs_cover r (enough r)"
  using held_in_le by (simp add: refs_cover_def enough_def stored_frags_def)

lemma play_run:
  "reorder_run r D G \<Longrightarrow> play c r D es = Some (r', D') \<Longrightarrow> reorder_run r' D' (G \<union> gaps es)"
proof (induction c r D es arbitrary: G rule: play.induct)
  case (2 c r D q es)
  then obtain res sc r1 R1 adj where
    "nn_reorder_rsample r (enough r) (ro_sample q) False = Some (res, sc, r1, R1, adj)" "span r"
    "c \<longrightarrow> careful r" "play c r1 (D @ sc) es = Some (r', D')"
    by (auto split: if_splits bind_splits)
  with 2(1) [OF _ this(1) refl refl refl refl] reorder_run.sample [OF 2(2) refs_cover_enough sample_in_ex] show ?case
    by simp
next
  case (3 c r D lo hi es)
  then obtain res sc r1 R1 adj where
    "nn_reorder_gap r (enough r) ro_gap lo hi = Some (res, sc, r1, R1, adj)" "lo < hi"
    "c \<longrightarrow> careful r" "play c r1 (D @ sc) es = Some (r', D')"
    by (auto split: if_splits bind_splits)
  with 3(1) [OF _ this(1) refl refl refl refl] reorder_run.gap [OF 3(2) refs_cover_enough, of lo hi ro_gap] show ?case
    by (fastforce simp: Un_assoc)
qed simp

lemma play_careful:
  "careful_run r D G \<Longrightarrow> play True r D es = Some (r', D') \<Longrightarrow> careful_run r' D' (G \<union> gaps es)"
proof (induction True r D es arbitrary: G rule: play.induct)
  case (2 r D q es)
  then obtain res sc r1 R1 adj where
    "nn_reorder_rsample r (enough r) (ro_sample q) False = Some (res, sc, r1, R1, adj)" "span r"
    "careful r" "play True r1 (D @ sc) es = Some (r', D')"
    by (auto split: if_splits bind_splits)
  with 2(1) [OF _ this(1) refl refl refl refl] careful_run.sample [OF 2(2) _ refs_cover_enough sample_in_ex] show ?case
    by simp
next
  case (3 r D lo hi es)
  then obtain res sc r1 R1 adj where
    "nn_reorder_gap r (enough r) ro_gap lo hi = Some (res, sc, r1, R1, adj)" "lo < hi"
    "careful r" "play True r1 (D @ sc) es = Some (r', D')"
    by (auto split: if_splits bind_splits)
  with 3(1) [OF _ this(1) refl refl refl refl] careful_run.gap [OF 3(2) _ refs_cover_enough, of lo hi ro_gap] show ?case
    by (fastforce simp: Un_assoc)
qed simp

definition ro_new :: "nat \<Rightarrow> nn_reorder" where
  "ro_new maxs = nn_reorder_new NN_REORDER_MODE_NORMAL maxs False"

definition ro_after :: "nat \<Rightarrow> event list \<Rightarrow> nn_reorder" where
  "ro_after maxs es = fst (the (play True (ro_new maxs) [] es))"

text \<open>Samples 1, 3, 5 and a gap have arrived: 1 is delivered, 2 and 4 are missing.\<close>

definition ro_mid :: nn_reorder where
  "ro_mid = ro_after 4 [Arrives 1, Arrives 3, Arrives 5, Missing 6 8]"

definition ro_mid_out :: "rsample_chain_elem list" where
  "ro_mid_out = rs_sc (ro_sample 1)"

lemma ro_mid_play: "play True (ro_new 4) [] [Arrives 1, Arrives 3, Arrives 5, Missing 6 8] = Some (ro_mid, ro_mid_out)"
proof -
  let ?p = "play True (ro_new 4) [] [Arrives 1, Arrives 3, Arrives 5, Missing 6 8]"
  have "map_option snd ?p = Some ro_mid_out" by code_simp
  then obtain r where "?p = Some (r, ro_mid_out)" by (cases ?p) auto
  moreover from this have "ro_mid = r" by (simp add: ro_mid_def ro_after_def)
  ultimately show ?thesis by simp
qed

lemma ro_mid_careful: "careful_run ro_mid ro_mid_out {6..<8}"
  using play_careful [OF careful_run.new ro_mid_play [unfolded ro_new_def]] by simp

lemma ro_mid_run: "reorder_run ro_mid ro_mid_out {6..<8}"
  by (rule careful_run_run [OF ro_mid_careful])

lemma ro_mid_facts: "span ro_mid" "ro_mode ro_mid = NN_REORDER_MODE_NORMAL" "next_seq ro_mid = 2"
  "map rs_min (ivs_of ro_mid) = [3, 5]" "map rs_maxp1 (ivs_of ro_mid) = [4, 8]" "ro_max_samples ro_mid = 4"
  by code_simp+

section \<open>Safety\<close>

text \<open>
  C10. From any state that the operations reach in which every stored number is less than \<open>INT32_MAX\<close> ahead of the next one
  expected (\<open>span\<close>, which the operations do not ensure, and without which an assertion on the length of a delivered chain can fail),
  a sample is taken in without a failing assertion or NULL dereference, and the result is again such
  a state, with at most \<open>max_samples\<close> samples. The sample is refused (too old, a duplicate, or the
  delivery queue or the administration is full), or it goes out with the stored samples that follow
  it directly, or it is stored, the greatest number making room for it; and every reference is
  accounted for.
\<close>

theorem nn_reorder_rsample_safe:
  assumes "reorder_run r D G" "refs_cover r R" "sample_in s" "span r"
  shows "\<exists>c sc r' R' adj. nn_reorder_rsample r R s full = Some (c, sc, r', R', adj) \<and>
    reorder_run r' (D @ sc) G \<and> ro_n_samples r' \<le> ro_max_samples r' \<and>
    accounted r R (chain_frags (rs_sc s)) sc r' R' adj \<and>
    (refused r R s full (c, sc, r', R', adj) \<or> sent r R s (c, sc, r', R', adj) \<or>
     kept_sample r R s (c, sc, r', R', adj))"
proof -
  obtain c sc r' R' adj where e: "nn_reorder_rsample r R s full = Some (c, sc, r', R', adj)"
    and o: "outcome r R s full (c, sc, r', R', adj)"
    using sample_outcome [OF reorder_run_ok [OF assms(1)] assms(2-4), of full] by (metis prod_cases5)
  have "reorder_run r' (D @ sc) G" by (rule reorder_run.sample [OF assms e])
  moreover have "accounted r R (chain_frags (rs_sc s)) sc r' R' adj" by (rule outcome_accounted [OF o assms(3)])
  ultimately show ?thesis using e o by (auto simp: outcome_def reorder_ok_def)
qed

theorem nn_reorder_rsample_safe_witness:
  "\<exists>c sc r' R' adj. nn_reorder_rsample ro_mid (enough ro_mid) (ro_sample 2) False = Some (c, sc, r', R', adj) \<and>
    reorder_run r' (ro_mid_out @ sc) {6..<8} \<and> ro_n_samples r' \<le> ro_max_samples r'"
  using nn_reorder_rsample_safe [OF ro_mid_run refs_cover_enough sample_in_ex ro_mid_facts(1), of 2 False] by blast

text \<open>
  C18. A gap \<open>[mn, hi)\<close> is taken in from any reachable state without a failing assertion or NULL
  dereference: it is ignored (in the past, or nothing to remember it with), or delivery moves past it
  and takes along the stored samples it touches, or it becomes part of one interval with all it touches, or
  an interval of its own; and every reference is accounted for.
\<close>

theorem nn_reorder_gap_safe:
  assumes "reorder_run r D G" "refs_cover r R" "mn < hi"
  shows "\<exists>c sc r' R' adj. nn_reorder_gap r R d mn hi = Some (c, sc, r', R', adj) \<and>
    reorder_run r' (D @ sc) (G \<union> {mn..<hi}) \<and> ro_n_samples r' \<le> ro_max_samples r' \<and>
    accounted r R [d] sc r' R' adj \<and>
    (gap_ignored r R mn hi (c, sc, r', R', adj) \<or> gap_passed r R mn hi (c, sc, r', R', adj) \<or>
     gap_merged r R mn hi (c, sc, r', R', adj) \<or> gap_stored r R d mn hi (c, sc, r', R', adj))"
proof -
  note ok = reorder_run_ok [OF assms(1)]
  obtain c sc r' R' adj where e: "nn_reorder_gap r R d mn hi = Some (c, sc, r', R', adj)"
    and o: "gap_outcome r R d mn hi (c, sc, r', R', adj)"
    using reorder_gap_spec [OF ok assms(2,3), of d] by (metis prod_cases5)
  have "reorder_run r' (D @ sc) (G \<union> {mn..<hi})" by (rule reorder_run.gap [OF assms e])
  moreover have "accounted r R [d] sc r' R' adj" by (rule gap_outcome_accounted [OF o assms(3) ok])
  ultimately show ?thesis using e o by (auto simp: gap_outcome_def reorder_ok_def)
qed

theorem nn_reorder_gap_safe_witness:
  "\<exists>c sc r' R' adj. nn_reorder_gap ro_mid (enough ro_mid) ro_gap 2 3 = Some (c, sc, r', R', adj) \<and>
    reorder_run r' (ro_mid_out @ sc) ({6..<8} \<union> {2..<3}) \<and> ro_n_samples r' \<le> ro_max_samples r'"
  using nn_reorder_gap_safe [OF ro_mid_run refs_cover_enough, of 2 3 ro_gap] by auto

section \<open>Order and completeness\<close>

text \<open>
  C17. Whatever arrives in whatever order, the samples are delivered in the order of their numbers,
  none twice, and all of them below \<open>next_seq\<close>; in the mode that delivers everything at once, which
  the statement excludes, this is not promised.
\<close>

theorem samples_delivered_in_order:
  assumes "reorder_run r D G" "ro_mode r \<noteq> NN_REORDER_MODE_ALWAYS_DELIVER"
  shows "sorted_wrt (<) (numbers D) \<and> (\<forall>q\<in>set (numbers D). 1 \<le> q \<and> q < next_seq r)"
  using reorder_run_placed [OF assms] placed_numbers by blast

theorem samples_delivered_in_order_witness:
  "sorted_wrt (<) (numbers ro_mid_out) \<and> hd (numbers ro_mid_out) = 1 \<and> hd (numbers ro_mid_out) < next_seq ro_mid"
  using samples_delivered_in_order [OF ro_mid_run] by (simp add: ro_mid_facts ro_mid_out_def ro_sample_def)

text \<open>
  C11. Nothing is lost: in the mode of a reliable reader every number below \<open>next_seq\<close> has been
  delivered or announced as a gap, as long as the administration, when full, drops its last sample
  from an interval that ends with that sample (\<open>careful_run\<close>).
\<close>

theorem no_sample_is_skipped:
  assumes "careful_run r D G" "1 \<le> q" "q < next_seq r"
  shows "q \<in> set (numbers D) \<or> q \<in> G"
  using careful_run_complete [OF assms(1)] assms(2,3) by (auto simp: complete_upto_def set_numbers)

theorem no_sample_is_skipped_witness:
  "(1::nat) < next_seq ro_mid \<and> (1 \<in> set (numbers ro_mid_out) \<or> (1::nat) \<in> {6..<8})"
  using no_sample_is_skipped [OF ro_mid_careful, of 1] by (simp add: ro_mid_facts)

text \<open>
  C27. The condition of \<open>no_sample_is_skipped\<close> is needed: with room for two samples, after 5 and 6
  and the gap [7, 10), which extends the last interval, the arrival of 3 drops sample 6, but
  \<open>delete_last_sample\<close> takes 9 and not 6 out of what the interval covers. Sample 6 is then not wanted any
  more, the number passes it, and it is neither delivered nor a gap.
\<close>

theorem dropped_sample_is_lost:
  "\<exists>r D. play False (ro_new 2) [] [Arrives 5, Arrives 6, Missing 7 10, Arrives 3] = Some (r, []) \<and>
     \<not> nn_reorder_wantsample r 6 \<and> map rs_min (ivs_of r) = [3, 5] \<and> map rs_maxp1 (ivs_of r) = [4, 9] \<and>
     map (numbers \<circ> rs_sc) (ivs_of r) = [[3], [5]] \<and>
     (\<exists>r'. play False r [] [Arrives 1, Arrives 2, Arrives 4] = Some (r', D) \<and>
        numbers D = [1, 2, 3, 4, 5] \<and> next_seq r' = 9)"
proof -
  let ?r = "fst (the (play False (ro_new 2) [] [Arrives 5, Arrives 6, Missing 7 10, Arrives 3]))"
  have p: "map_option snd (play False (ro_new 2) [] [Arrives 5, Arrives 6, Missing 7 10, Arrives 3]) = Some []"
    by code_simp
  have q: "map_option (\<lambda>(r', D). (numbers D, next_seq r')) (play False ?r [] [Arrives 1, Arrives 2, Arrives 4]) =
      Some ([1, 2, 3, 4, 5], 9)"
    by code_simp
  have f: "\<not> nn_reorder_wantsample ?r 6" "map rs_min (ivs_of ?r) = [3, 5]" "map rs_maxp1 (ivs_of ?r) = [4, 9]"
    "map (numbers \<circ> rs_sc) (ivs_of ?r) = [[3], [5]]"
    by code_simp+
  from p obtain r where r: "play False (ro_new 2) [] [Arrives 5, Arrives 6, Missing 7 10, Arrives 3] = Some (r, [])"
    by (cases "play False (ro_new 2) [] [Arrives 5, Arrives 6, Missing 7 10, Arrives 3]") auto
  from q obtain r' D where "play False ?r [] [Arrives 1, Arrives 2, Arrives 4] = Some (r', D)"
    "numbers D = [1, 2, 3, 4, 5]" "next_seq r' = 9" by (auto split: option.splits)
  with r f show ?thesis by auto
qed

section \<open>Queries, dropping and freeing\<close>

text \<open>
  A sample is wanted exactly when it has not been passed and is in none of the stored intervals.
\<close>

theorem nn_reorder_wantsample_correct:
  assumes "reorder_run r D G"
  shows "nn_reorder_wantsample r q \<longleftrightarrow>
    next_seq r \<le> q \<and> (\<forall>v\<in>set (ivs_of r). \<not> (rs_min v \<le> q \<and> q < rs_maxp1 v))"
  using wantsample_spec [OF reorder_run_ok [OF assms]] by (auto simp: cov_def)

theorem nn_reorder_wantsample_correct_witness:
  "nn_reorder_wantsample ro_mid 2 \<and> \<not> nn_reorder_wantsample ro_mid 1"
proof -
  have "rs_min v \<in> {3, 5}" if "v \<in> set (ivs_of ro_mid)" for v
  proof -
    from that have "rs_min v \<in> set (map rs_min (ivs_of ro_mid))" by simp
    then show ?thesis unfolding ro_mid_facts(4) by simp
  qed
  then show ?thesis using nn_reorder_wantsample_correct [OF ro_mid_run] by (fastforce simp: ro_mid_facts)
qed

text \<open>
  C34. The NACK map of a reachable state, for a base that is not ahead of the next number, is computed
  without writing outside the bitmap: it starts at the base, has at most \<open>maxsz\<close> and at most
  \<open>max_samples\<close> bits and no bit above \<open>maxseq\<close>; a bit is set exactly for a number that no stored interval
  covers; and it ends early only where the size ends it or, with \<open>notail\<close>, behind everything stored.
\<close>

theorem nn_reorder_nackmap_requests_missing:
  assumes "reorder_run r D G" "base \<le> next_seq r" "base \<le> maxseq + 1"
    and "maxsz \<le> 256" "maxsz \<le> 32 * length mapbits"
  shows "\<exists>hdr bits. nn_reorder_nackmap r base maxseq mapbits maxsz notail = Some (hdr, bits) \<and>
    sn_bitmap_base hdr = base \<and> sn_numbits hdr \<le> min maxsz (ro_max_samples r) \<and>
    base + sn_numbits hdr \<le> maxseq + 1 \<and>
    (\<forall>j < sn_numbits hdr. isset bits j \<longleftrightarrow> base + j \<notin> cov (ivs_of r)) \<and>
    (base + sn_numbits hdr = maxseq + 1 \<or> sn_numbits hdr = min maxsz (ro_max_samples r) \<or>
     notail \<and> (\<forall>q\<in>cov (ivs_of r). q < base + sn_numbits hdr))"
  using reorder_nackmap_spec [OF reorder_run_ok [OF assms(1)] assms(2-5), of notail] by (auto simp: nack_ok_def)

theorem nn_reorder_nackmap_requests_missing_witness:
  "\<exists>hdr bits. nn_reorder_nackmap ro_mid 2 8 [0] 32 False = Some (hdr, bits) \<and>
    sn_bitmap_base hdr = 2 \<and> sn_numbits hdr \<le> 4 \<and> 2 + sn_numbits hdr \<le> 9"
  using nn_reorder_nackmap_requests_missing [OF ro_mid_run, of 2 8 32 "[0]" False]
  by (fastforce simp: ro_mid_facts)

text \<open>
  Dropping everything below \<open>hi\<close>, above which nothing is stored, ends without a failing assertion
  at \<open>next_seq \<ge> hi\<close>, with the store empty if that is an advance, and it gives up exactly the references of
  what it drops.
\<close>

theorem nn_reorder_drop_upto_correct:
  assumes "reorder_run r D G" "refs_cover r R" "ro_mode r = NN_REORDER_MODE_NORMAL"
    and "\<forall>v\<in>set (ivs_of r). rs_maxp1 v \<le> hi"
  shows "\<exists>r' R'. nn_reorder_drop_upto r R hi = Some (r', R') \<and>
    next_seq r' = max hi (next_seq r) \<and> ivs_of r' = (if next_seq r < hi then [] else ivs_of r) \<and>
    (\<forall>m. R' m + held_in m (stored_frags r) = R m + held_in m (stored_frags r'))"
  using drop_upto_spec [OF reorder_run_ok [OF assms(1)] assms(2,3) _ assms(4)]
    reorder_run_placed [OF assms(1)] assms(3)
  by (auto simp: stored_frags_def)

theorem nn_reorder_drop_upto_correct_witness:
  "\<exists>r' R'. nn_reorder_drop_upto ro_mid (enough ro_mid) 8 = Some (r', R') \<and> next_seq r' = 8 \<and> ivs_of r' = []"
proof -
  have "\<forall>v\<in>set (ivs_of ro_mid). rs_maxp1 v \<le> 8"
  proof
    fix v assume "v \<in> set (ivs_of ro_mid)"
    then have "rs_maxp1 v \<in> set (map rs_maxp1 (ivs_of ro_mid))" by simp
    then show "rs_maxp1 v \<le> 8" unfolding ro_mid_facts(5) by auto
  qed
  from nn_reorder_drop_upto_correct [OF ro_mid_run refs_cover_enough ro_mid_facts(2) this] show ?thesis
    by (simp add: ro_mid_facts) blast
qed

text \<open>
  C35. Freeing a reachable administration ends, without a failing assertion, and gives up exactly the
  references of the samples and gaps that are stored.
\<close>

theorem nn_reorder_free_releases_all:
  assumes "reorder_run r D G" "refs_cover r R"
  shows "\<exists>R'. nn_reorder_free r R = Some R' \<and> (\<forall>m. R' m + held_in m (stored_frags r) = R m)"
  using reorder_free_spec [OF reorder_okD(1) [OF reorder_run_ok [OF assms(1)]]] assms(2)
  by (simp add: refs_cover_def stored_frags_def)

theorem nn_reorder_free_releases_all_witness:
  "\<exists>R'. nn_reorder_free ro_mid (enough ro_mid) = Some R' \<and>
    (\<forall>m. R' m + held_in m (stored_frags ro_mid) = enough ro_mid m)"
  by (rule nn_reorder_free_releases_all [OF ro_mid_run refs_cover_enough])

end
