(* ===== verification/Rbuf_Model.thy ===== *)
theory Rbuf_Model
  imports Radmin_Data
begin

text \<open>
  The storage of received messages, the RBUFPOOL, RBUF and RMSG parts of
  \<open>src/core/ddsi/src/q_radmin.c\<close>: large buffers (rbuf) from which messages (rmsg) and the data
  derived from them are allocated one behind the other, in chunks; a buffer lives until it is not
  the current one and holds no live chunk. Addresses are naturals, sizes are \<open>uint32_t\<close>; the
  layout of the structures is that of a 64-bit platform. The count of the live chunks of a buffer is a natural: every chunk
  takes memory of a buffer of less than \<open>2 ^ 32\<close> bytes, so that the \<open>uint32_t\<close> does not wrap. None is a failed assertion, the use
  of memory that has been freed, or a release too many. The result of \<open>ddsrt_malloc\<close> is an argument,
  None for NULL.
\<close>

section \<open>Layout and sizes\<close>

definition ALIGNOF_RMSG :: u32 where
  "ALIGNOF_RMSG = 8"

definition sizeof_rmsg_chunk :: nat where
  "sizeof_rmsg_chunk = 24"

definition offsetof_rmsg_chunk :: nat where
  "offsetof_rmsg_chunk = 24"

definition sizeof_rbuf :: nat where
  "sizeof_rbuf = 48"

definition sizeof_rdata :: u32 where
  "sizeof_rdata = 40"

definition align_rmsg :: "u32 \<Rightarrow> u32" where
  "align_rmsg x0 = (let x = x0 + (ALIGNOF_RMSG - 1) in x - x mod ALIGNOF_RMSG)"

definition max_uint32 :: "u32 \<Rightarrow> u32 \<Rightarrow> u32" where
  "max_uint32 a b = (if b \<le> a then a else b)"

definition max_rmsg_size_w_hdr :: "u32 \<Rightarrow> u32" where
  "max_rmsg_size_w_hdr max_rmsg_size =
     max_uint32 (word_of_nat (offsetof_rmsg_chunk + sizeof_rmsg_chunk)) (word_of_nat sizeof_rmsg_chunk)
     + max_rmsg_size"

section \<open>State\<close>

record nn_rbufpool =
  current :: nat
  rbuf_size :: u32
  max_rmsg_size :: u32

text \<open>A buffer is known by its address; \<open>raw\<close> follows the header.\<close>

record nn_rbuf =
  n_live_rmsg_chunks :: nat
  rb_size :: u32
  rb_max_rmsg_size :: u32
  freeptr :: nat

definition raw :: "nat \<Rightarrow> nat" where
  "raw rb = rb + sizeof_rbuf"

record nn_rmsg_chunk =
  ck_addr :: nat
  ck_rbuf :: nat
  ck_size :: u32

text \<open>
  A message is known by its address; its chunks are the list from \<open>chunk\<close>, which is part of the message
  itself, through \<open>next\<close> to \<open>lastchunk\<close>. Its \<open>refcount\<close> is kept with those of the others in
  \<open>refcount\<close> of the memory.
\<close>

record nn_rmsg =
  rm_chunks :: "nn_rmsg_chunk list"

record memory =
  pool :: nn_rbufpool
  rbufs :: "nat \<Rightarrow> nn_rbuf option"
  rmsgs :: "nat \<Rightarrow> nn_rmsg option"
  refcount :: refs

section \<open>Buffers\<close>

definition nn_rbuf_alloc_new :: "memory \<Rightarrow> nat \<Rightarrow> memory" where
  "nn_rbuf_alloc_new st rb =
     st\<lparr>rbufs := (rbufs st)(rb \<mapsto>
          \<lparr>n_live_rmsg_chunks = 1, rb_size = rbuf_size (pool st),
           rb_max_rmsg_size = max_rmsg_size (pool st), freeptr = raw rb\<rparr>)\<rparr>"

definition nn_rbuf_release :: "memory \<Rightarrow> nat \<Rightarrow> memory option" where
  "nn_rbuf_release st rb = do {
     b \<leftarrow> rbufs st rb;
     _ \<leftarrow> assertion (0 < n_live_rmsg_chunks b);
     Some (st\<lparr>rbufs := (rbufs st)(rb :=
             (if n_live_rmsg_chunks b = 1 then None
              else Some (b\<lparr>n_live_rmsg_chunks := n_live_rmsg_chunks b - 1\<rparr>)))\<rparr>) }"

definition nn_rbufpool_new :: "u32 \<Rightarrow> u32 \<Rightarrow> nat option \<Rightarrow> memory option option" where
  "nn_rbufpool_new size0 maxsz mem = do {
     _ \<leftarrow> assertion (0 < maxsz);
     let size = (if size0 < max_rmsg_size_w_hdr maxsz then max_rmsg_size_w_hdr maxsz else size0);
     Some (case mem of
        None \<Rightarrow> None
      | Some rb \<Rightarrow> Some (nn_rbuf_alloc_new
          \<lparr>pool = \<lparr>current = rb, rbuf_size = size, max_rmsg_size = maxsz\<rparr>,
           rbufs = (\<lambda>_. None), rmsgs = (\<lambda>_. None), refcount = (\<lambda>_. 0)\<rparr> rb)) }"

definition nn_rbufpool_free :: "memory \<Rightarrow> memory option" where
  "nn_rbufpool_free st = nn_rbuf_release st (current (pool st))"

definition nn_rbuf_new :: "memory \<Rightarrow> nat option \<Rightarrow> (nat option \<times> memory) option" where
  "nn_rbuf_new st mem =
     (case mem of
        None \<Rightarrow> Some (None, st)
      | Some rb \<Rightarrow> do {
          st' \<leftarrow> nn_rbuf_release (nn_rbuf_alloc_new st rb) (current (pool st));
          Some (Some rb, st'\<lparr>pool := (pool st')\<lparr>current := rb\<rparr>\<rparr>) })"

text \<open>\<open>(uint32_t) (rb->raw + rb->size - rb->freeptr)\<close>\<close>

definition space_left :: "nat \<Rightarrow> nn_rbuf \<Rightarrow> u32" where
  "space_left rb b = word_of_nat (raw rb + unat (rb_size b) - freeptr b)"

definition nn_rbuf_alloc :: "memory \<Rightarrow> nat option \<Rightarrow> (nat option \<times> memory) option" where
  "nn_rbuf_alloc st mem = do {
     let asize = max_rmsg_size_w_hdr (max_rmsg_size (pool st));
     let rb = current (pool st);
     b \<leftarrow> rbufs st rb;
     _ \<leftarrow> assertion (raw rb \<le> freeptr b);
     _ \<leftarrow> assertion (freeptr b \<le> raw rb + unat (rb_size b));
     if space_left rb b < asize then do {
       (new, st') \<leftarrow> nn_rbuf_new st mem;
       (case new of
          None \<Rightarrow> Some (None, st')
        | Some rb' \<Rightarrow> do {
            b' \<leftarrow> rbufs st' rb';
            _ \<leftarrow> assertion (asize \<le> space_left rb' b');
            Some (Some (freeptr b'), st') }) }
     else Some (Some (freeptr b), st) }"

section \<open>Messages\<close>

definition init_rmsg_chunk :: "memory \<Rightarrow> nat \<Rightarrow> nat \<Rightarrow> (nn_rmsg_chunk \<times> memory) option" where
  "init_rmsg_chunk st addr rb = do {
     b \<leftarrow> rbufs st rb;
     Some (\<lparr>ck_addr = addr, ck_rbuf = rb, ck_size = 0\<rparr>,
           st\<lparr>rbufs := (rbufs st)(rb \<mapsto> b\<lparr>n_live_rmsg_chunks := n_live_rmsg_chunks b + 1\<rparr>)\<rparr>) }"

definition nn_rmsg_new :: "memory \<Rightarrow> nat option \<Rightarrow> (nat option \<times> memory) option" where
  "nn_rmsg_new st mem = do {
     (p, st1) \<leftarrow> nn_rbuf_alloc st mem;
     (case p of
        None \<Rightarrow> Some (None, st1)
      | Some m \<Rightarrow> do {
          (c, st2) \<leftarrow> init_rmsg_chunk
            (st1\<lparr>refcount := (refcount st1)(m := RMSG_REFCOUNT_UNCOMMITTED_BIAS)\<rparr>)
            (m + offsetof_rmsg_chunk) (current (pool st1));
          Some (Some m, st2\<lparr>rmsgs := (rmsgs st2)(m \<mapsto> \<lparr>rm_chunks = [c]\<rparr>)\<rparr>) }) }"

definition nn_rmsg_setsize :: "memory \<Rightarrow> nat \<Rightarrow> u32 \<Rightarrow> memory option" where
  "nn_rmsg_setsize st m sz = do {
     let size8P = align_rmsg sz;
     rmsg \<leftarrow> rmsgs st m;
     c \<leftarrow> hd_opt (rm_chunks rmsg);
     b \<leftarrow> rbufs st (ck_rbuf c);
     _ \<leftarrow> assertion (refcount st m = RMSG_REFCOUNT_UNCOMMITTED_BIAS);
     _ \<leftarrow> assertion (ck_size c = 0);
     _ \<leftarrow> assertion (size8P \<le> rb_max_rmsg_size b);
     _ \<leftarrow> assertion (length (rm_chunks rmsg) = 1);
     Some (st\<lparr>rmsgs := (rmsgs st)(m \<mapsto> rmsg\<lparr>rm_chunks := [c\<lparr>ck_size := size8P\<rparr>]\<rparr>)\<rparr>) }"

text \<open>The loop over the chunks.\<close>

fun release_chunks :: "memory \<Rightarrow> nn_rmsg_chunk list \<Rightarrow> memory option" where
  "release_chunks st [] = Some st"
| "release_chunks st (c # ds) = do {
     st' \<leftarrow> nn_rbuf_release st (ck_rbuf c);
     release_chunks st' ds }"

definition nn_rmsg_free :: "memory \<Rightarrow> nat \<Rightarrow> memory option" where
  "nn_rmsg_free st m = do {
     rmsg \<leftarrow> rmsgs st m;
     _ \<leftarrow> assertion (refcount st m = 0);
     st' \<leftarrow> release_chunks st (rm_chunks rmsg);
     Some (st'\<lparr>rmsgs := (rmsgs st')(m := None)\<rparr>) }"

definition commit_rmsg_chunk :: "memory \<Rightarrow> nn_rmsg_chunk \<Rightarrow> memory option" where
  "commit_rmsg_chunk st c = do {
     b \<leftarrow> rbufs st (ck_rbuf c);
     Some (st\<lparr>rbufs := (rbufs st)(ck_rbuf c \<mapsto>
            b\<lparr>freeptr := ck_addr c + sizeof_rmsg_chunk + unat (ck_size c)\<rparr>)\<rparr>) }"

definition nn_rmsg_commit :: "memory \<Rightarrow> nat \<Rightarrow> memory option" where
  "nn_rmsg_commit st m = do {
     rmsg \<leftarrow> rmsgs st m;
     first \<leftarrow> hd_opt (rm_chunks rmsg);
     chunk \<leftarrow> last_opt (rm_chunks rmsg);
     b0 \<leftarrow> rbufs st (ck_rbuf first);
     b \<leftarrow> rbufs st (ck_rbuf chunk);
     _ \<leftarrow> assertion (ck_size chunk \<le> rb_max_rmsg_size b);
     _ \<leftarrow> assertion (ck_size chunk mod ALIGNOF_RMSG = 0);
     _ \<leftarrow> assertion (RMSG_REFCOUNT_UNCOMMITTED_BIAS \<le> refcount st m);
     _ \<leftarrow> assertion (0 < n_live_rmsg_chunks b0);
     _ \<leftarrow> assertion (0 < n_live_rmsg_chunks b);
     _ \<leftarrow> assertion (current (pool st) = ck_rbuf chunk);
     let st' = st\<lparr>refcount := (refcount st)(m := refcount st m - RMSG_REFCOUNT_UNCOMMITTED_BIAS)\<rparr>;
     if refcount st' m = 0 then nn_rmsg_free st' m
     else commit_rmsg_chunk st' chunk }"

text \<open>The three operations on the count, which frees the message when it gets to zero.\<close>

definition rmsg_addbias :: "memory \<Rightarrow> nat \<Rightarrow> memory option" where
  "rmsg_addbias st m = do {
     _ \<leftarrow> rmsgs st m;
     R \<leftarrow> nn_rmsg_addbias (refcount st) m;
     Some (st\<lparr>refcount := R\<rparr>) }"

definition rmsg_rmbias_and_adjust :: "memory \<Rightarrow> nat \<Rightarrow> int \<Rightarrow> memory option" where
  "rmsg_rmbias_and_adjust st m adjust = do {
     _ \<leftarrow> rmsgs st m;
     R \<leftarrow> nn_rmsg_rmbias_and_adjust (refcount st) m adjust;
     let st' = st\<lparr>refcount := R\<rparr>;
     if R m = 0 then nn_rmsg_free st' m else Some st' }"

definition rmsg_unref :: "memory \<Rightarrow> nat \<Rightarrow> memory option" where
  "rmsg_unref st m = do {
     _ \<leftarrow> rmsgs st m;
     R \<leftarrow> nn_rmsg_unref (refcount st) m;
     let st' = st\<lparr>refcount := R\<rparr>;
     if R m = 0 then nn_rmsg_free st' m else Some st' }"

text \<open>The last part: memory from the last chunk of the message, whose buffer has room.\<close>

definition take_from_chunk :: "memory \<Rightarrow> nat \<Rightarrow> nn_rmsg \<Rightarrow> u32 \<Rightarrow> (nat option \<times> memory) option" where
  "take_from_chunk st m rmsg size8P = do {
     c \<leftarrow> last_opt (rm_chunks rmsg);
     let c' = c\<lparr>ck_size := ck_size c + size8P\<rparr>;
     Some (Some (ck_addr c + sizeof_rmsg_chunk + unat (ck_size c)),
       st\<lparr>rmsgs := (rmsgs st)(m \<mapsto> rmsg\<lparr>rm_chunks := butlast (rm_chunks rmsg) @ [c']\<rparr>)\<rparr>) }"

definition nn_rmsg_alloc :: "memory \<Rightarrow> nat \<Rightarrow> u32 \<Rightarrow> nat option \<Rightarrow> (nat option \<times> memory) option" where
  "nn_rmsg_alloc st m sz mem = do {
     let size8P = align_rmsg sz;
     rmsg \<leftarrow> rmsgs st m;
     chunk \<leftarrow> last_opt (rm_chunks rmsg);
     b \<leftarrow> rbufs st (ck_rbuf chunk);
     _ \<leftarrow> assertion (RMSG_REFCOUNT_UNCOMMITTED_BIAS \<le> refcount st m);
     _ \<leftarrow> assertion (ck_size chunk mod ALIGNOF_RMSG = 0);
     _ \<leftarrow> assertion (size8P \<le> rb_max_rmsg_size b);
     if rb_max_rmsg_size b < ck_size chunk + size8P then do {
       st1 \<leftarrow> commit_rmsg_chunk st chunk;
       (p, st2) \<leftarrow> nn_rbuf_alloc st1 mem;
       (case p of
          None \<Rightarrow> Some (None, st2)
        | Some a \<Rightarrow> do {
            (c, st3) \<leftarrow> init_rmsg_chunk st2 a (current (pool st2));
            take_from_chunk st3 m (rmsg\<lparr>rm_chunks := rm_chunks rmsg @ [c]\<rparr>) size8P }) }
     else take_from_chunk st m rmsg size8P }"

definition nn_rdata_new ::
  "memory \<Rightarrow> nat \<Rightarrow> nat \<Rightarrow> nat \<Rightarrow> nat option \<Rightarrow> ((nat \<times> rdata) option \<times> memory) option" where
  "nn_rdata_new st m start endp1 mem = do {
     (p, st') \<leftarrow> nn_rmsg_alloc st m sizeof_rdata mem;
     Some (map_option (\<lambda>a. (a, \<lparr>rd_rmsg = m, rd_min = start, rd_maxp1 = endp1\<rparr>)) p, st') }"

end
