(* ===== verification/Rbuf.thy ===== *)
theory Rbuf
  imports Rbuf_Model
begin

text \<open>
  The invariant of the message storage: the chunks of the messages that are alive lie apart, inside
  buffers that are allocated, and the count of every buffer is the number of its live chunks, one more
  for the current buffer.
\<close>

section \<open>Sizes\<close>

lemma word_of_nat_unat32: "n < 2 ^ 32 \<Longrightarrow> unat (word_of_nat n :: u32) = n"
  by (simp add: unat_of_nat take_bit_nat_eq_self)

lemma unat_add32: "unat (a :: u32) + unat b < 2 ^ 32 \<Longrightarrow> unat (a + b) = unat a + unat b"
  by (simp add: unat_word_ariths)

lemma hdr_size: "unat mx + 48 < 2 ^ 32 \<Longrightarrow> unat (max_rmsg_size_w_hdr mx) = 48 + unat mx"
  by (simp add: max_rmsg_size_w_hdr_def max_uint32_def offsetof_rmsg_chunk_def sizeof_rmsg_chunk_def
      unat_add32 word_less_eq_iff_unsigned)

lemma align_rmsg_bounds:
  assumes "unat x + 7 < 2 ^ 32"
  shows "unat x \<le> unat (align_rmsg x)" "unat (align_rmsg x) \<le> unat x + 7" "unat (align_rmsg x) mod 8 = 0"
proof -
  have e: "unat (x + 7) = unat x + 7" using assms by (simp add: unat_add32)
  have m: "unat ((x + 7) mod 8) = (unat x + 7) mod 8" by (simp add: unat_mod e)
  have le: "(x + 7) mod 8 \<le> x + 7" unfolding word_le_nat_alt m e by simp
  have "unat (align_rmsg x) = (unat x + 7) - (unat x + 7) mod 8"
    using unat_sub [OF le] e m by (simp add: align_rmsg_def ALIGNOF_RMSG_def Let_def)
  then show "unat x \<le> unat (align_rmsg x)" "unat (align_rmsg x) \<le> unat x + 7" "unat (align_rmsg x) mod 8 = 0"
    by (presburger+)
qed

section \<open>The invariant\<close>

definition lo :: "nat \<Rightarrow> nn_rmsg_chunk \<Rightarrow> nat" where
  "lo m c = (if ck_addr c = m + offsetof_rmsg_chunk then m else ck_addr c)"

definition hi :: "nn_rmsg_chunk \<Rightarrow> nat" where
  "hi c = ck_addr c + sizeof_rmsg_chunk + unat (ck_size c)"

definition pieces :: "memory \<Rightarrow> (nat \<times> nn_rmsg_chunk) set" where
  "pieces st = {(m, c). \<exists>rm. rmsgs st m = Some rm \<and> c \<in> set (rm_chunks rm)}"

definition rb_end :: "memory \<Rightarrow> nat \<Rightarrow> nat" where
  "rb_end st rb = raw rb + unat (rbuf_size (pool st))"

definition inside :: "memory \<Rightarrow> nat \<Rightarrow> nn_rmsg_chunk \<Rightarrow> bool" where
  "inside st m c \<longleftrightarrow> raw (ck_rbuf c) \<le> lo m c \<and> lo m c \<le> ck_addr c \<and> hi c \<le> rb_end st (ck_rbuf c) \<and>
     ck_size c \<le> max_rmsg_size (pool st) \<and> unat (ck_size c) mod 8 = 0"

definition count :: "memory \<Rightarrow> nat \<Rightarrow> nat" where
  "count st rb = (case rbufs st rb of None \<Rightarrow> 0 | Some b \<Rightarrow> n_live_rmsg_chunks b)"

definition chunks_in :: "nat \<Rightarrow> nn_rmsg_chunk list \<Rightarrow> nat" where
  "chunks_in rb ds = length (filter (\<lambda>c. ck_rbuf c = rb) ds)"

definition live_in :: "memory \<Rightarrow> nat \<Rightarrow> nat" where
  "live_in st rb = (\<Sum>m\<in>dom (rmsgs st). chunks_in rb (rm_chunks (the (rmsgs st m))))"

definition pool_ok :: "nn_rbufpool \<Rightarrow> bool" where
  "pool_ok p \<longleftrightarrow> unat (max_rmsg_size p) < 2 ^ 31 - 64 \<and> 48 + unat (max_rmsg_size p) \<le> unat (rbuf_size p)"

definition buffers_ok :: "memory \<Rightarrow> bool" where
  "buffers_ok st \<longleftrightarrow> (\<forall>rb b. rbufs st rb = Some b \<longrightarrow>
     0 < n_live_rmsg_chunks b \<and> rb_size b = rbuf_size (pool st) \<and> rb_max_rmsg_size b = max_rmsg_size (pool st) \<and>
     raw rb \<le> freeptr b \<and> freeptr b \<le> rb_end st rb)"

definition blocks_apart :: "memory \<Rightarrow> bool" where
  "blocks_apart st \<longleftrightarrow> (\<forall>rb\<in>dom (rbufs st). \<forall>rb'\<in>dom (rbufs st). rb \<noteq> rb' \<longrightarrow>
     rb_end st rb \<le> rb' \<or> rb_end st rb' \<le> rb)"

definition counted :: "memory \<Rightarrow> bool" where
  "counted st \<longleftrightarrow> (\<forall>rb. count st rb = live_in st rb + (if rb = current (pool st) then 1 else 0))"

definition messages_ok :: "memory \<Rightarrow> bool" where
  "messages_ok st \<longleftrightarrow> finite (dom (rmsgs st)) \<and>
     (\<forall>m rm. rmsgs st m = Some rm \<longrightarrow> rm_chunks rm \<noteq> [] \<and> distinct (rm_chunks rm) \<and>
        ck_addr (hd (rm_chunks rm)) = m + offsetof_rmsg_chunk \<and> (\<forall>c\<in>set (rm_chunks rm). inside st m c))"

definition chunks_apart :: "memory \<Rightarrow> bool" where
  "chunks_apart st \<longleftrightarrow> (\<forall>(m, c)\<in>pieces st. \<forall>(m', c')\<in>pieces st. (m, c) \<noteq> (m', c') \<longrightarrow>
     hi c \<le> lo m' c' \<or> hi c' \<le> lo m c)"

definition base :: "memory \<Rightarrow> bool" where
  "base st \<longleftrightarrow> pool_ok (pool st) \<and> buffers_ok st \<and> blocks_apart st \<and> counted st \<and> messages_ok st \<and> chunks_apart st"

text \<open>No message is being built: what is behind \<open>freeptr\<close> of the current buffer is free.\<close>

definition settled :: "memory \<Rightarrow> bool" where
  "settled st \<longleftrightarrow> base st \<and> (\<forall>(m, c)\<in>pieces st. ck_rbuf c = current (pool st) \<longrightarrow>
     (\<forall>b. rbufs st (current (pool st)) = Some b \<longrightarrow> hi c \<le> freeptr b))"

text \<open>Message \<open>m\<close> is being built: its last chunk is the topmost one of the current buffer and has room.\<close>

definition building :: "memory \<Rightarrow> nat \<Rightarrow> nn_rmsg_chunk \<Rightarrow> bool" where
  "building st m c \<longleftrightarrow> base st \<and> (\<exists>rm. rmsgs st m = Some rm \<and> last_opt (rm_chunks rm) = Some c) \<and>
     ck_rbuf c = current (pool st) \<and>
     ck_addr c + sizeof_rmsg_chunk + unat (max_rmsg_size (pool st)) \<le> rb_end st (current (pool st)) \<and>
     (\<forall>b. rbufs st (current (pool st)) = Some b \<longrightarrow> lo m c \<le> freeptr b) \<and>
     (\<forall>(m', c')\<in>pieces st. ck_rbuf c' = current (pool st) \<and> (m', c') \<noteq> (m, c) \<longrightarrow> hi c' \<le> lo m c)"

section \<open>What the invariant gives\<close>

lemma baseD:
  assumes "base st"
  shows "pool_ok (pool st)" "buffers_ok st" "blocks_apart st" "counted st" "messages_ok st" "chunks_apart st"
  using assms by (simp_all add: base_def)

lemma settled_base: "settled st \<Longrightarrow> base st"
  by (simp add: settled_def)

lemma building_base: "building st m c \<Longrightarrow> base st"
  by (simp add: building_def)

lemma lo_less_hi: "lo m c \<le> ck_addr c \<Longrightarrow> lo m c < hi c"
  by (simp add: hi_def sizeof_rmsg_chunk_def)

lemma messages_okD:
  assumes "messages_ok st" "rmsgs st m = Some rm"
  shows "rm_chunks rm \<noteq> []" "distinct (rm_chunks rm)" "ck_addr (hd (rm_chunks rm)) = m + offsetof_rmsg_chunk"
    "\<And>c. c \<in> set (rm_chunks rm) \<Longrightarrow> inside st m c"
  using assms by (auto simp: messages_ok_def)

lemma pieces_inside: "messages_ok st \<Longrightarrow> (m, c) \<in> pieces st \<Longrightarrow> inside st m c"
  by (auto simp: pieces_def messages_ok_def)

lemma chunks_in_pos: "c \<in> set ds \<Longrightarrow> 0 < chunks_in (ck_rbuf c) ds"
  by (auto simp: chunks_in_def filter_empty_conv)

lemma live_pos:
  assumes "messages_ok st" "(m, c) \<in> pieces st"
  shows "0 < live_in st (ck_rbuf c)"
proof -
  obtain rm where "rmsgs st m = Some rm" "c \<in> set (rm_chunks rm)" using assms(2) by (auto simp: pieces_def)
  then have m: "m \<in> dom (rmsgs st)" and "0 < chunks_in (ck_rbuf c) (rm_chunks (the (rmsgs st m)))"
    using chunks_in_pos by auto
  moreover have "finite (dom (rmsgs st))" using assms(1) by (simp add: messages_ok_def)
  ultimately show ?thesis unfolding live_in_def by (intro sum_pos2 [OF _ m]) auto
qed

lemma count_pos: "0 < count st rb \<Longrightarrow> \<exists>b. rbufs st rb = Some b \<and> 0 < n_live_rmsg_chunks b"
  by (auto simp: count_def split: option.splits)

text \<open>Every chunk lies in a buffer that is allocated, and so does the current one.\<close>

lemma piece_buffer:
  assumes "base st" "(m, c) \<in> pieces st"
  shows "\<exists>b. rbufs st (ck_rbuf c) = Some b"
proof -
  have "0 < count st (ck_rbuf c)"
    using live_pos [OF baseD(5) [OF assms(1)] assms(2)] baseD(4) [OF assms(1)] by (simp add: counted_def)
  then show ?thesis using count_pos by blast
qed

lemma current_buffer: "base st \<Longrightarrow> \<exists>b. rbufs st (current (pool st)) = Some b"
  using count_pos [of st "current (pool st)"] baseD(4) [of st] by (auto simp: counted_def)

lemma buffers_okD:
  assumes "buffers_ok st" "rbufs st rb = Some b"
  shows "0 < n_live_rmsg_chunks b" "rb_size b = rbuf_size (pool st)" "rb_max_rmsg_size b = max_rmsg_size (pool st)"
    "raw rb \<le> freeptr b" "freeptr b \<le> rb_end st rb"
  using assms by (auto simp: buffers_ok_def)

lemma chunks_apartD:
  "chunks_apart st \<Longrightarrow> (m, c) \<in> pieces st \<Longrightarrow> (m', c') \<in> pieces st \<Longrightarrow> (m, c) \<noteq> (m', c') \<Longrightarrow>
    hi c \<le> lo m' c' \<or> hi c' \<le> lo m c"
  unfolding chunks_apart_def by blast

lemma blocks_apartD:
  "blocks_apart st \<Longrightarrow> rbufs st rb = Some b \<Longrightarrow> rbufs st rb' = Some b' \<Longrightarrow> rb \<noteq> rb' \<Longrightarrow>
    rb_end st rb \<le> rb' \<or> rb_end st rb' \<le> rb"
  by (auto simp: blocks_apart_def)

section \<open>Releasing chunks\<close>

text \<open>The state but for the counts.\<close>

definition same_but_counts :: "memory \<Rightarrow> memory \<Rightarrow> bool" where
  "same_but_counts st st' \<longleftrightarrow> pool st' = pool st \<and> rmsgs st' = rmsgs st \<and> refcount st' = refcount st \<and>
     (\<forall>rb b'. rbufs st' rb = Some b' \<longrightarrow> 0 < n_live_rmsg_chunks b' \<and>
        (\<exists>b. rbufs st rb = Some b \<and> b' = b\<lparr>n_live_rmsg_chunks := n_live_rmsg_chunks b'\<rparr>))"

lemma release_spec:
  assumes "0 < count st rb" "\<forall>rb b. rbufs st rb = Some b \<longrightarrow> 0 < n_live_rmsg_chunks b"
  shows "\<exists>st'. nn_rbuf_release st rb = Some st' \<and> same_but_counts st st' \<and>
    (\<forall>r. count st' r = count st r - (if r = rb then 1 else 0))"
proof -
  obtain b where b: "rbufs st rb = Some b" "0 < n_live_rmsg_chunks b" using count_pos [OF assms(1)] by blast
  show ?thesis
  proof (cases "n_live_rmsg_chunks b = 1")
    case True
    with b assms(2) show ?thesis by (auto simp: nn_rbuf_release_def same_but_counts_def count_def)
  next
    case False
    then have "1 < n_live_rmsg_chunks b" using b(2) by simp
    with False b assms(2) show ?thesis by (auto simp: nn_rbuf_release_def same_but_counts_def count_def)
  qed
qed

lemma same_but_counts_trans:
  assumes "same_but_counts a b" "same_but_counts b c"
  shows "same_but_counts a c"
  unfolding same_but_counts_def
proof (intro conjI allI impI)
  fix rb x assume x: "rbufs c rb = Some x"
  then obtain y where y: "rbufs b rb = Some y" "x = y\<lparr>n_live_rmsg_chunks := n_live_rmsg_chunks x\<rparr>"
    using assms(2) unfolding same_but_counts_def by blast
  then obtain z where "rbufs a rb = Some z" "y = z\<lparr>n_live_rmsg_chunks := n_live_rmsg_chunks y\<rparr>"
    using assms(1) unfolding same_but_counts_def by blast
  with y show "\<exists>z. rbufs a rb = Some z \<and> x = z\<lparr>n_live_rmsg_chunks := n_live_rmsg_chunks x\<rparr>"
    by (metis nn_rbuf.surjective nn_rbuf.update_convs(1))
  from x show "0 < n_live_rmsg_chunks x" using assms(2) unfolding same_but_counts_def by blast
qed (use assms in \<open>auto simp: same_but_counts_def\<close>)

lemma chunks_in_Cons [simp]:
  "chunks_in rb [] = 0" "chunks_in rb (c # ds) = (if ck_rbuf c = rb then 1 else 0) + chunks_in rb ds"
  "chunks_in rb (ds @ es) = chunks_in rb ds + chunks_in rb es"
  by (simp_all add: chunks_in_def)

lemma release_chunks_spec:
  assumes "\<forall>rb. chunks_in rb ds \<le> count st rb" "\<forall>rb b. rbufs st rb = Some b \<longrightarrow> 0 < n_live_rmsg_chunks b"
  shows "\<exists>st'. release_chunks st ds = Some st' \<and> same_but_counts st st' \<and>
    (\<forall>r. count st' r = count st r - chunks_in r ds)"
  using assms
proof (induction ds arbitrary: st)
  case Nil
  then show ?case by (auto simp: same_but_counts_def)
next
  case (Cons c ds)
  have "0 < count st (ck_rbuf c)" using Cons.prems(1) [rule_format, of "ck_rbuf c"] by simp
  from release_spec [OF this Cons.prems(2)] obtain st1 where
    st1: "nn_rbuf_release st (ck_rbuf c) = Some st1" "same_but_counts st st1"
      "\<forall>r. count st1 r = count st r - (if r = ck_rbuf c then 1 else 0)" by blast
  have le: "\<forall>rb. chunks_in rb ds \<le> count st1 rb"
  proof
    fix rb
    show "chunks_in rb ds \<le> count st1 rb" using Cons.prems(1) [rule_format, of rb] st1(3) by (auto split: if_splits)
  qed
  have "\<forall>rb b. rbufs st1 rb = Some b \<longrightarrow> 0 < n_live_rmsg_chunks b" using st1(2) by (auto simp: same_but_counts_def)
  from Cons.IH [OF le this] obtain st2 where
    st2: "release_chunks st1 ds = Some st2" "same_but_counts st1 st2"
      "\<forall>r. count st2 r = count st1 r - chunks_in r ds" by blast
  with st1 same_but_counts_trans [OF st1(2) st2(2)] show ?case by simp
qed

section \<open>Freeing a message\<close>

definition freed :: "memory \<Rightarrow> nat \<Rightarrow> memory \<Rightarrow> bool" where
  "freed st m st' \<longleftrightarrow> base st' \<and> pool st' = pool st \<and> refcount st' = refcount st \<and>
     rmsgs st' = (rmsgs st)(m := None) \<and>
     (\<forall>rb b'. rbufs st' rb = Some b' \<longrightarrow> (\<exists>b. rbufs st rb = Some b \<and> freeptr b' = freeptr b))"

lemma rb_end_pool: "pool st' = pool st \<Longrightarrow> rb_end st' rb = rb_end st rb"
  by (simp add: rb_end_def)

lemma inside_pool: "pool st' = pool st \<Longrightarrow> inside st' m c = inside st m c"
  by (simp add: inside_def rb_end_def)

lemma live_in_remove:
  assumes "finite (dom (rmsgs st))" "rmsgs st m = Some rm" "rmsgs st' = (rmsgs st)(m := None)"
  shows "live_in st rb = chunks_in rb (rm_chunks rm) + live_in st' rb"
proof -
  have d: "m \<in> dom (rmsgs st)" "dom (rmsgs st') = dom (rmsgs st) - {m}" using assms(2,3) by auto
  have "live_in st rb = chunks_in rb (rm_chunks rm) +
      (\<Sum>x\<in>dom (rmsgs st) - {m}. chunks_in rb (rm_chunks (the (rmsgs st x))))"
    unfolding live_in_def by (subst sum.remove [OF assms(1) d(1)]) (simp add: assms(2))
  also have "(\<Sum>x\<in>dom (rmsgs st) - {m}. chunks_in rb (rm_chunks (the (rmsgs st x)))) = live_in st' rb"
    unfolding live_in_def d(2) by (rule sum.cong) (auto simp: assms(3))
  finally show ?thesis .
qed

lemma rmsg_free_spec:
  assumes b: "base st" and rm: "rmsgs st m = Some rm" and z: "refcount st m = 0"
  shows "\<exists>st'. nn_rmsg_free st m = Some st' \<and> freed st m st'"
proof -
  note bd = baseD [OF b]
  have fin: "finite (dom (rmsgs st))" using bd(5) by (simp add: messages_ok_def)
  let ?st = "\<lambda>s. s\<lparr>rmsgs := (rmsgs s)(m := None)\<rparr>"
  have "chunks_in rb (rm_chunks rm) \<le> live_in st rb" for rb
    using live_in_remove [OF fin rm, of "?st st"] by simp
  then have le: "\<forall>rb. chunks_in rb (rm_chunks rm) \<le> count st rb"
    using bd(4) by (simp add: counted_def add_increasing2)
  have "\<forall>rb b. rbufs st rb = Some b \<longrightarrow> 0 < n_live_rmsg_chunks b" using bd(2) by (simp add: buffers_ok_def)
  from release_chunks_spec [OF le this] obtain s where
    s: "release_chunks st (rm_chunks rm) = Some s" "same_but_counts st s"
      "\<forall>r. count s r = count st r - chunks_in r (rm_chunks rm)" by blast
  let ?t = "?st s"
  have t: "pool ?t = pool st" "rmsgs ?t = (rmsgs st)(m := None)" "refcount ?t = refcount st" "rbufs ?t = rbufs s"
    using s(2) by (simp_all add: same_but_counts_def)
  have sb: "\<exists>b. rbufs st rb = Some b \<and> b' = b\<lparr>n_live_rmsg_chunks := n_live_rmsg_chunks b'\<rparr>"
    "0 < n_live_rmsg_chunks b'" if "rbufs s rb = Some b'" for rb b'
    using s(2) that unfolding same_but_counts_def by blast+
  have "base ?t" unfolding base_def
  proof (intro conjI)
    show "pool_ok (pool ?t)" using bd(1) t by simp
    show "buffers_ok ?t" unfolding buffers_ok_def
    proof (intro allI impI)
      fix rb b' assume "rbufs ?t rb = Some b'"
      then have e: "rbufs s rb = Some b'" by simp
      then obtain b where b: "rbufs st rb = Some b" "b' = b\<lparr>n_live_rmsg_chunks := n_live_rmsg_chunks b'\<rparr>"
        using sb(1) by blast
      then have "rb_size b' = rb_size b" "rb_max_rmsg_size b' = rb_max_rmsg_size b" "freeptr b' = freeptr b"
        by (metis nn_rbuf.select_convs nn_rbuf.surjective nn_rbuf.update_convs(1))+
      then show "0 < n_live_rmsg_chunks b' \<and> rb_size b' = rbuf_size (pool ?t) \<and>
          rb_max_rmsg_size b' = max_rmsg_size (pool ?t) \<and> raw rb \<le> freeptr b' \<and> freeptr b' \<le> rb_end ?t rb"
        using buffers_okD [OF bd(2) b(1)] sb(2) [OF e] t(1) by (simp add: rb_end_def)
    qed
    show "blocks_apart ?t" unfolding blocks_apart_def
    proof (intro ballI impI)
      fix rb rb' assume "rb \<in> dom (rbufs ?t)" "rb' \<in> dom (rbufs ?t)" "rb \<noteq> rb'"
      then obtain x x' where "rbufs s rb = Some x" "rbufs s rb' = Some x'" by auto
      then obtain y y' where "rbufs st rb = Some y" "rbufs st rb' = Some y'" using sb(1) by blast
      from blocks_apartD [OF bd(3) this \<open>rb \<noteq> rb'\<close>] show "rb_end ?t rb \<le> rb' \<or> rb_end ?t rb' \<le> rb"
        using t(1) by (simp add: rb_end_def)
    qed
    show "counted ?t" unfolding counted_def
    proof
      fix rb
      have "count ?t rb = count s rb" by (simp add: count_def)
      then show "count ?t rb = live_in ?t rb + (if rb = current (pool ?t) then 1 else 0)"
        using s(3) bd(4) live_in_remove [OF fin rm t(2), of rb] t(1) by (simp add: counted_def)
    qed
    have i: "inside ?t x c = inside st x c" for x c by (rule inside_pool [OF t(1)])
    show "messages_ok ?t" unfolding messages_ok_def i t(2)
      using bd(5) fin by (auto simp: messages_ok_def)
    have "pieces ?t \<subseteq> pieces st" using t(2) by (auto simp: pieces_def split: if_splits)
    with bd(6) show "chunks_apart ?t" unfolding chunks_apart_def by blast
  qed
  moreover have "nn_rmsg_free st m = Some ?t" using rm z s(1) by (simp add: nn_rmsg_free_def)
  moreover have "\<exists>b. rbufs st rb = Some b \<and> freeptr b' = freeptr b" if e: "rbufs ?t rb = Some b'" for rb b'
  proof -
    from e have "rbufs s rb = Some b'" by simp
    then obtain b where "rbufs st rb = Some b" "b' = b\<lparr>n_live_rmsg_chunks := n_live_rmsg_chunks b'\<rparr>"
      using sb(1) by blast
    then show ?thesis by (metis nn_rbuf.select_convs(4) nn_rbuf.surjective nn_rbuf.update_convs(1))
  qed
  ultimately show ?thesis using t unfolding freed_def by blast
qed

lemma freed_pieces: "freed st m st' \<Longrightarrow> pieces st' = {(m', c) \<in> pieces st. m' \<noteq> m}"
  by (auto simp: freed_def pieces_def split: if_splits)

lemma freed_settled:
  assumes "settled st" "freed st m st'"
  shows "settled st'"
proof -
  have f: "base st'" "pool st' = pool st" "\<And>rb b'. rbufs st' rb = Some b' \<Longrightarrow> \<exists>b. rbufs st rb = Some b \<and> freeptr b' = freeptr b"
    using assms(2) by (auto simp: freed_def)
  show ?thesis unfolding settled_def
  proof (intro conjI f(1) ballI, clarify)
    fix m' c b' assume p: "(m', c) \<in> pieces st'" "ck_rbuf c = current (pool st')" "rbufs st' (current (pool st')) = Some b'"
    then obtain b where "rbufs st (current (pool st)) = Some b" "freeptr b' = freeptr b" using f(2,3) by metis
    then show "hi c \<le> freeptr b'" using assms(1) p freed_pieces [OF assms(2)] f(2) unfolding settled_def by fastforce
  qed
qed

lemma freed_building:
  assumes "building st m c" "freed st m0 st'" "m \<noteq> m0"
  shows "building st' m c"
proof -
  have f: "base st'" "pool st' = pool st" "rmsgs st' = (rmsgs st)(m0 := None)"
    "\<And>rb b'. rbufs st' rb = Some b' \<Longrightarrow> \<exists>b. rbufs st rb = Some b \<and> freeptr b' = freeptr b"
    using assms(2) by (auto simp: freed_def)
  have "lo m c \<le> freeptr b'" if "rbufs st' (current (pool st')) = Some b'" for b'
    using f(2,4) that assms(1) unfolding building_def by metis
  then show ?thesis using assms f freed_pieces [OF assms(2)] unfolding building_def
    by (auto simp: rb_end_def)
qed

lemma freed_own:
  assumes "building st m c" "freed st m st'"
  shows "settled st'"
proof -
  have f: "base st'" "pool st' = pool st"
    "\<And>rb b'. rbufs st' rb = Some b' \<Longrightarrow> \<exists>b. rbufs st rb = Some b \<and> freeptr b' = freeptr b"
    using assms(2) by (auto simp: freed_def)
  show ?thesis unfolding settled_def
  proof (intro conjI f(1) ballI, clarify)
    fix m' c' b' assume p: "(m', c') \<in> pieces st'" "ck_rbuf c' = current (pool st')" "rbufs st' (current (pool st')) = Some b'"
    then obtain b where b: "rbufs st (current (pool st)) = Some b" "freeptr b' = freeptr b" using f(2,3) by metis
    have "(m', c') \<in> pieces st" "m' \<noteq> m" using p(1) freed_pieces [OF assms(2)] by auto
    then have "hi c' \<le> lo m c" using assms(1) p(2) f(2) unfolding building_def by fastforce
    moreover have "lo m c \<le> freeptr b" using assms(1) b(1) unfolding building_def by blast
    ultimately show "hi c' \<le> freeptr b'" using b(2) by simp
  qed
qed

section \<open>Room for a chunk\<close>

text \<open>What \<open>ddsrt_malloc\<close> returns lies apart from what is allocated.\<close>

definition mem_ok :: "memory \<Rightarrow> nat option \<Rightarrow> bool" where
  "mem_ok st mem \<longleftrightarrow> (\<forall>rb. mem = Some rb \<longrightarrow> (\<forall>rb'\<in>dom (rbufs st). rb_end st rb \<le> rb' \<or> rb_end st rb' \<le> rb))"

lemma mem_fresh: "mem_ok st (Some rb) \<Longrightarrow> rbufs st rb = None"
proof (rule ccontr)
  assume m: "mem_ok st (Some rb)" and "rbufs st rb \<noteq> None"
  then have "rb \<in> dom (rbufs st)" by auto
  with m have "rb_end st rb \<le> rb" unfolding mem_ok_def by blast
  then show False by (simp add: rb_end_def raw_def sizeof_rbuf_def)
qed

text \<open>The current buffer has room for a chunk of any size from \<open>a\<close> on.\<close>

definition room :: "memory \<Rightarrow> nat \<Rightarrow> bool" where
  "room st a \<longleftrightarrow> settled st \<and> (\<exists>b. rbufs st (current (pool st)) = Some b \<and> freeptr b = a) \<and>
     raw (current (pool st)) \<le> a \<and> a + 48 + unat (max_rmsg_size (pool st)) \<le> rb_end st (current (pool st))"

definition same_messages :: "memory \<Rightarrow> memory \<Rightarrow> bool" where
  "same_messages st st' \<longleftrightarrow> rmsgs st' = rmsgs st \<and> refcount st' = refcount st \<and>
     max_rmsg_size (pool st') = max_rmsg_size (pool st) \<and> rbuf_size (pool st') = rbuf_size (pool st)"

lemma same_messages_refl [simp]: "same_messages st st"
  by (simp add: same_messages_def)

lemma same_messages_simps:
  assumes "same_messages st st'"
  shows "pieces st' = pieces st" "rb_end st' rb = rb_end st rb" "inside st' m c = inside st m c"
    "live_in st' rb = live_in st rb"
  using assms by (simp_all add: same_messages_def pieces_def rb_end_def inside_def live_in_def)

lemma asize: "pool_ok p \<Longrightarrow> unat (max_rmsg_size_w_hdr (max_rmsg_size p)) = 48 + unat (max_rmsg_size p)"
  by (rule hdr_size) (simp add: pool_ok_def)

lemma space_left_less:
  assumes "pool_ok (pool st)" "rb_size b = rbuf_size (pool st)" "raw rb \<le> freeptr b" "freeptr b \<le> rb_end st rb"
  shows "space_left rb b < max_rmsg_size_w_hdr (max_rmsg_size (pool st)) \<longleftrightarrow>
    rb_end st rb < freeptr b + 48 + unat (max_rmsg_size (pool st))"
proof -
  have "raw rb + unat (rb_size b) - freeptr b \<le> unat (rb_size b)" using assms(3) by simp
  moreover have "unat (rb_size b) < 2 ^ 32" using unsigned_less [of "rb_size b"] by simp
  ultimately have "unat (space_left rb b) = raw rb + unat (rb_size b) - freeptr b"
    unfolding space_left_def by (intro word_of_nat_unat32) simp
  then show ?thesis using assms asize [OF assms(1)]
    by (auto simp: word_less_nat_alt rb_end_def)
qed

text \<open>Replacing the current buffer.\<close>

lemma rbuf_new_spec:
  assumes s: "settled st" and mem: "mem_ok st (Some rb)"
  shows "\<exists>st'. nn_rbuf_new st (Some rb) = Some (Some rb, st') \<and> room st' (raw rb) \<and> same_messages st st' \<and>
    current (pool st') = rb"
proof -
  note bd = baseD [OF settled_base [OF s]]
  have fr: "rbufs st rb = None" by (rule mem_fresh [OF mem])
  obtain b0 where b0: "rbufs st (current (pool st)) = Some b0" using current_buffer [OF settled_base [OF s]] by blast
  then have ne: "current (pool st) \<noteq> rb" using fr by auto
  have l0: "live_in st rb = 0" using bd(4) fr unfolding counted_def count_def by (metis add_is_0 option.case(1))
  let ?nb = "\<lparr>n_live_rmsg_chunks = 1, rb_size = rbuf_size (pool st), rb_max_rmsg_size = max_rmsg_size (pool st), freeptr = raw rb\<rparr>"
  let ?st = "nn_rbuf_alloc_new st rb"
  have a: "rbufs ?st = (rbufs st)(rb \<mapsto> ?nb)" "pool ?st = pool st" "rmsgs ?st = rmsgs st" "refcount ?st = refcount st"
    by (simp_all add: nn_rbuf_alloc_new_def)
  have ct: "count ?st r = (if r = rb then 1 else count st r)" for r using a(1) by (simp add: count_def)
  have c0: "0 < count ?st (current (pool st))" using ct ne bd(4) by (simp add: counted_def)
  have pos: "\<forall>r b. rbufs ?st r = Some b \<longrightarrow> 0 < n_live_rmsg_chunks b"
    using a(1) bd(2) by (auto simp: buffers_ok_def)
  obtain s1 where s1: "nn_rbuf_release ?st (current (pool st)) = Some s1" "same_but_counts ?st s1"
    "\<forall>r. count s1 r = count ?st r - (if r = current (pool st) then 1 else 0)"
    using release_spec [OF c0 pos] by blast
  let ?t = "s1\<lparr>pool := (pool s1)\<lparr>current := rb\<rparr>\<rparr>"
  have t: "pool ?t = (pool st)\<lparr>current := rb\<rparr>" "rmsgs ?t = rmsgs st" "refcount ?t = refcount st" "rbufs ?t = rbufs s1"
    using s1(2) a by (simp_all add: same_but_counts_def)
  have sm: "same_messages st ?t" using t by (simp add: same_messages_def)
  note sms = same_messages_simps [OF sm]
  have sub: "\<exists>b. ((rbufs st)(rb \<mapsto> ?nb)) r = Some b \<and> rb_size b' = rb_size b \<and> rb_max_rmsg_size b' = rb_max_rmsg_size b \<and>
      freeptr b' = freeptr b \<and> 0 < n_live_rmsg_chunks b'" if "rbufs s1 r = Some b'" for r b'
  proof -
    from that s1(2) a(1) obtain b where "((rbufs st)(rb \<mapsto> ?nb)) r = Some b"
      "b' = b\<lparr>n_live_rmsg_chunks := n_live_rmsg_chunks b'\<rparr>" "0 < n_live_rmsg_chunks b'"
      unfolding same_but_counts_def by metis
    then show ?thesis by (metis nn_rbuf.select_convs nn_rbuf.surjective nn_rbuf.update_convs(1))
  qed
  have no: "ck_rbuf c \<noteq> rb" if "(m, c) \<in> pieces st" for m c
    using live_pos [OF bd(5) that] l0 by auto
  have "base ?t" unfolding base_def
  proof (intro conjI)
    show "pool_ok (pool ?t)" using bd(1) t(1) by (simp add: pool_ok_def)
    show "buffers_ok ?t" unfolding buffers_ok_def
    proof (intro allI impI)
      fix r b' assume "rbufs ?t r = Some b'"
      then have "rbufs s1 r = Some b'" by simp
      from sub [OF this] obtain b where b: "((rbufs st)(rb \<mapsto> ?nb)) r = Some b" "rb_size b' = rb_size b"
        "rb_max_rmsg_size b' = rb_max_rmsg_size b" "freeptr b' = freeptr b" "0 < n_live_rmsg_chunks b'" by blast
      show "0 < n_live_rmsg_chunks b' \<and> rb_size b' = rbuf_size (pool ?t) \<and>
          rb_max_rmsg_size b' = max_rmsg_size (pool ?t) \<and> raw r \<le> freeptr b' \<and> freeptr b' \<le> rb_end ?t r"
      proof (cases "r = rb")
        case True
        with b t(1) show ?thesis by (auto simp: rb_end_def)
      next
        case False
        with b(1) have "rbufs st r = Some b" by simp
        from buffers_okD [OF bd(2) this] b t(1) show ?thesis by (auto simp: rb_end_def)
      qed
    qed
    show "blocks_apart ?t" unfolding blocks_apart_def
    proof (intro ballI impI)
      fix r r' assume r: "r \<in> dom (rbufs ?t)" "r' \<in> dom (rbufs ?t)" "r \<noteq> r'"
      have "r \<in> insert rb (dom (rbufs st))" "r' \<in> insert rb (dom (rbufs st))"
        using r(1,2) sub by (fastforce split: if_splits)+
      then show "rb_end ?t r \<le> r' \<or> rb_end ?t r' \<le> r"
        using r(3) mem bd(3) unfolding sms(2) mem_ok_def blocks_apart_def by blast
    qed
    show "counted ?t" unfolding counted_def
    proof
      fix r
      have "count ?t r = count s1 r" by (simp add: count_def)
      also have "\<dots> = (if r = rb then 1 else count st r) - (if r = current (pool st) then 1 else 0)"
        using s1(3) ct by simp
      also have "\<dots> = live_in st r + (if r = rb then 1 else 0)"
        using bd(4) l0 ne by (auto simp: counted_def)
      finally show "count ?t r = live_in ?t r + (if r = current (pool ?t) then 1 else 0)" using t(1) sms(4) by simp
    qed
    show "messages_ok ?t" using bd(5) unfolding messages_ok_def sms(3) t(2) by simp
    show "chunks_apart ?t" using bd(6) unfolding chunks_apart_def sms(1) by simp
  qed
  then have "settled ?t" unfolding settled_def sms(1) using no t(1) by auto
  moreover have "\<exists>b. rbufs s1 rb = Some b \<and> freeptr b = raw rb"
  proof -
    have "0 < count s1 rb" using s1(3) ct ne by simp
    then obtain b' where b': "rbufs s1 rb = Some b'" using count_pos by blast
    from sub [OF b'] b' show ?thesis by auto
  qed
  moreover have "raw rb + 48 + unat (max_rmsg_size (pool st)) \<le> rb_end st rb"
    using bd(1) by (simp add: pool_ok_def rb_end_def)
  ultimately have "room ?t (raw rb)" using t(1) sms(2) by (simp add: room_def)
  moreover have "nn_rbuf_new st (Some rb) = Some (Some rb, ?t)" using s1(1) by (simp add: nn_rbuf_new_def)
  ultimately show ?thesis using sm t(1) by auto
qed

lemma rbuf_alloc_spec:
  assumes s: "settled st" and mem: "mem_ok st mem"
  shows "\<exists>p st'. nn_rbuf_alloc st mem = Some (p, st') \<and> same_messages st st' \<and>
    (case p of None \<Rightarrow> mem = None \<and> st' = st | Some a \<Rightarrow> room st' a)"
proof -
  note b = settled_base [OF s]
  note bd = baseD [OF b]
  let ?rb = "current (pool st)"
  obtain c where c: "rbufs st ?rb = Some c" using current_buffer [OF b] by blast
  note ok = buffers_okD [OF bd(2) c]
  have le: "freeptr c \<le> raw ?rb + unat (rb_size c)" using ok(2,5) by (simp add: rb_end_def)
  note sl = space_left_less [OF bd(1) ok(2,4,5)]
  show ?thesis
  proof (cases "space_left ?rb c < max_rmsg_size_w_hdr (max_rmsg_size (pool st))")
    case False
    then have "room st (freeptr c)" using s c ok sl by (simp add: room_def)
    moreover have "nn_rbuf_alloc st mem = Some (Some (freeptr c), st)"
      using c ok(4) le False by (simp add: nn_rbuf_alloc_def Let_def)
    ultimately show ?thesis by auto
  next
    case True
    show ?thesis
    proof (cases mem)
      case None
      with c ok(4) le True show ?thesis by (simp add: nn_rbuf_alloc_def Let_def nn_rbuf_new_def)
    next
      case (Some rb)
      obtain st' where st': "nn_rbuf_new st (Some rb) = Some (Some rb, st')" "room st' (raw rb)"
        "same_messages st st'" "current (pool st') = rb"
        using rbuf_new_spec [OF s] mem Some by blast
      obtain b' where b': "rbufs st' rb = Some b'" "freeptr b' = raw rb" using st'(2,4) by (auto simp: room_def)
      note bd' = baseD [OF settled_base, of st']
      have s': "settled st'" using st'(2) by (simp add: room_def)
      note ok' = buffers_okD [OF bd'(2) [OF s'] b'(1)]
      have "\<not> space_left rb b' < max_rmsg_size_w_hdr (max_rmsg_size (pool st'))"
        using space_left_less [OF bd'(1) [OF s'] ok'(2,4,5)] st'(2,4) b'(2) by (simp add: room_def)
      then have "max_rmsg_size_w_hdr (max_rmsg_size (pool st)) \<le> space_left rb b'"
        using st'(3) by (simp add: same_messages_def)
      then have "nn_rbuf_alloc st mem = Some (Some (raw rb), st')"
        using c ok(4) le True Some st'(1) b' by (simp add: nn_rbuf_alloc_def Let_def)
      with st'(2,3) show ?thesis by auto
    qed
  qed
qed

section \<open>A chunk at the top\<close>

lemma apart_from_top:
  assumes b: "base st" and p: "(m', c') \<in> pieces st"
    and a: "raw (current (pool st)) \<le> a"
    and top: "ck_rbuf c' = current (pool st) \<Longrightarrow> hi c' \<le> a"
  shows "hi c' \<le> a \<or> rb_end st (current (pool st)) \<le> lo m' c'"
proof (cases "ck_rbuf c' = current (pool st)")
  case False
  note bd = baseD [OF b]
  obtain x y where "rbufs st (ck_rbuf c') = Some x" "rbufs st (current (pool st)) = Some y"
    using piece_buffer [OF b p] current_buffer [OF b] by blast
  from blocks_apartD [OF bd(3) this False] pieces_inside [OF bd(5) p] a
  show ?thesis by (auto simp: inside_def raw_def)
qed (use top in simp)

lemma room_apart:
  assumes "room st a" "(m', c') \<in> pieces st"
  shows "hi c' \<le> a \<or> rb_end st (current (pool st)) \<le> lo m' c'"
proof (rule apart_from_top [OF settled_base assms(2)])
  show "settled st" using assms(1) by (simp add: room_def)
  show "raw (current (pool st)) \<le> a" using assms(1) by (simp add: room_def)
  assume "ck_rbuf c' = current (pool st)"
  with assms show "hi c' \<le> a" unfolding room_def settled_def by auto
qed

definition chunks_of :: "memory \<Rightarrow> nat \<Rightarrow> nn_rmsg_chunk list" where
  "chunks_of st m = (case rmsgs st m of None \<Rightarrow> [] | Some rm \<Rightarrow> rm_chunks rm)"

lemma pieces_chunks_of: "(m, c) \<in> pieces st \<longleftrightarrow> c \<in> set (chunks_of st m)"
  by (cases "rmsgs st m") (auto simp: pieces_def chunks_of_def)

lemma live_in_put:
  assumes "finite (dom (rmsgs st))" "rmsgs st' = (rmsgs st)(m \<mapsto> rm)"
  shows "live_in st' rb + chunks_in rb (chunks_of st m) = live_in st rb + chunks_in rb (rm_chunks rm)"
proof -
  let ?s = "st'\<lparr>rmsgs := (rmsgs st')(m := None)\<rparr>"
  have e: "rmsgs ?s = (rmsgs st)(m := None)" using assms(2) by simp
  have "live_in st' rb = chunks_in rb (rm_chunks rm) + live_in ?s rb"
    by (rule live_in_remove [where m = m]) (use assms in simp_all)
  moreover have "live_in st rb = chunks_in rb (chunks_of st m) + live_in ?s rb"
  proof (cases "rmsgs st m")
    case None
    then have "(rmsgs st)(m := None) = rmsgs st" by auto
    with e have "rmsgs ?s = rmsgs st" by metis
    then have "live_in ?s rb = live_in st rb" unfolding live_in_def by (simp only:)
    with None show ?thesis by (simp add: chunks_of_def)
  next
    case (Some rm0)
    from live_in_remove [OF assms(1) Some e, of rb] Some show ?thesis by (simp add: chunks_of_def)
  qed
  ultimately show ?thesis by simp
qed

lemma chunks_apart_insert:
  assumes "chunks_apart st" "pieces st' = insert (m, c) Q" "Q \<subseteq> pieces st"
    and new: "\<And>x d. (x, d) \<in> Q \<Longrightarrow> hi c \<le> lo x d \<or> hi d \<le> lo m c"
  shows "chunks_apart st'"
proof -
  have "hi d \<le> lo x' d' \<or> hi d' \<le> lo x d"
    if p: "(x, d) \<in> pieces st'" "(x', d') \<in> pieces st'" and ne: "(x, d) \<noteq> (x', d')" for x d x' d'
  proof -
    consider "(x, d) = (m, c)" "(x', d') \<in> Q" | "(x', d') = (m, c)" "(x, d) \<in> Q" | "(x, d) \<in> Q" "(x', d') \<in> Q"
      using p ne unfolding assms(2) by blast
    then show ?thesis
    proof cases
      case 1
      then show ?thesis using new by blast
    next
      case 2
      then show ?thesis using new by blast
    next
      case 3
      then show ?thesis using chunks_apartD [OF assms(1) _ _ ne] assms(3) by blast
    qed
  qed
  then show ?thesis unfolding chunks_apart_def by blast
qed

lemma add_chunk:
  assumes rm: "room st a" and b: "rbufs st (current (pool st)) = Some b"
    and st': "pool st' = pool st" "rmsgs st' = (rmsgs st)(m \<mapsto> \<lparr>rm_chunks = chunks_of st m @ [c]\<rparr>)"
      "rbufs st' = (rbufs st)(current (pool st) \<mapsto> b\<lparr>n_live_rmsg_chunks := n_live_rmsg_chunks b + 1\<rparr>)"
    and c: "ck_rbuf c = current (pool st)" "lo m c = a" "a \<le> ck_addr c"
      "ck_addr c + sizeof_rmsg_chunk + unat (max_rmsg_size (pool st)) \<le> rb_end st (current (pool st))"
      "ck_size c \<le> max_rmsg_size (pool st)" "unat (ck_size c) mod 8 = 0"
      "rmsgs st m = None \<Longrightarrow> ck_addr c = m + offsetof_rmsg_chunk"
  shows "building st' m c \<and> pieces st' = insert (m, c) (pieces st)"
proof -
  have s: "settled st" and fp: "freeptr b = a" and ra: "raw (current (pool st)) \<le> a" using rm b by (auto simp: room_def)
  note bd = baseD [OF settled_base [OF s]]
  have fin: "finite (dom (rmsgs st))" using bd(5) by (simp add: messages_ok_def)
  have hc: "hi c \<le> rb_end st (current (pool st))" using c(4,5) by (simp add: hi_def word_le_nat_alt)
  have re: "rb_end st' r = rb_end st r" for r using st'(1) by (simp add: rb_end_def)
  have ins: "inside st' x d = inside st x d" for x d by (rule inside_pool [OF st'(1)])
  have inc: "inside st m c" using c ra hc by (simp add: inside_def)
  have ap: "hi d \<le> a \<or> rb_end st (current (pool st)) \<le> lo x d" if "(x, d) \<in> pieces st" for x d
    by (rule room_apart [OF rm that])
  have pc: "pieces st' = insert (m, c) (pieces st)"
    by (auto simp: pieces_chunks_of chunks_of_def st'(2) split: option.splits if_splits)
  have nc: "(m, c) \<notin> pieces st"
  proof
    assume "(m, c) \<in> pieces st"
    from ap [OF this] c(2) lo_less_hi [of m c] c(3) hc show False by auto
  qed
  have "base st'" unfolding base_def
  proof (intro conjI)
    show "pool_ok (pool st')" using bd(1) st'(1) by simp
    show "buffers_ok st'" unfolding buffers_ok_def re st'(1,3)
      using bd(2) b by (auto simp: buffers_ok_def split: if_splits)
    have "dom (rbufs st') = dom (rbufs st)" using st'(3) b by auto
    then show "blocks_apart st'" using bd(3) unfolding blocks_apart_def re by simp
    show "counted st'" unfolding counted_def
    proof
      fix r
      have "count st' r = count st r + (if r = current (pool st) then 1 else 0)"
        using b by (simp add: count_def st'(3))
      moreover have "live_in st' r = live_in st r + (if r = current (pool st) then 1 else 0)"
        using live_in_put [OF fin st'(2), of r] c(1) by simp
      ultimately show "count st' r = live_in st' r + (if r = current (pool st') then 1 else 0)"
        using bd(4) st'(1) by (simp add: counted_def)
    qed
    show "messages_ok st'" unfolding messages_ok_def ins
    proof (intro conjI allI impI)
      show "finite (dom (rmsgs st'))" using fin st'(2) by simp
      fix x y assume xy: "rmsgs st' x = Some y"
      have "rm_chunks y \<noteq> [] \<and> distinct (rm_chunks y) \<and> ck_addr (hd (rm_chunks y)) = x + offsetof_rmsg_chunk \<and>
        (\<forall>d\<in>set (rm_chunks y). inside st x d)"
      proof (cases "x = m")
        case False
        with xy have "rmsgs st x = Some y" by (simp add: st'(2))
        from messages_okD [OF bd(5) this] show ?thesis by blast
      next
        case True
        then have y: "rm_chunks y = chunks_of st m @ [c]" using xy by (auto simp: st'(2))
        show ?thesis
        proof (cases "rmsgs st m")
          case None
          with y c(7) inc True show ?thesis by (simp add: chunks_of_def)
        next
          case (Some rm0)
          from messages_okD [OF bd(5) Some] y inc nc True Some show ?thesis
            by (auto simp: chunks_of_def pieces_def)
        qed
      qed
      then show "rm_chunks y \<noteq> []" "distinct (rm_chunks y)" "ck_addr (hd (rm_chunks y)) = x + offsetof_rmsg_chunk"
        "\<forall>d\<in>set (rm_chunks y). inside st x d" by blast+
    qed
    have new: "hi c \<le> lo x d \<or> hi d \<le> lo m c" if "(x, d) \<in> pieces st" for x d
      using ap [OF that] hc c(2) by auto
    show "chunks_apart st'" by (rule chunks_apart_insert [OF bd(6) pc subset_refl new])
  qed
  moreover have "\<exists>y. rmsgs st' m = Some y \<and> last_opt (rm_chunks y) = Some c" using st'(2) by simp
  moreover have "hi d \<le> lo m c" if "(x, d) \<in> pieces st'" "ck_rbuf d = current (pool st)" "(x, d) \<noteq> (m, c)" for x d
    using s that b fp c(2) unfolding pc settled_def by auto
  ultimately have "building st' m c" using st'(1,3) c fp unfolding building_def re by auto
  with pc show ?thesis by simp
qed

lemma buildingD:
  assumes "building st m c"
  shows "ck_rbuf c = current (pool st)"
    "ck_addr c + sizeof_rmsg_chunk + unat (max_rmsg_size (pool st)) \<le> rb_end st (current (pool st))"
    "(x, d) \<in> pieces st \<Longrightarrow> ck_rbuf d = current (pool st) \<Longrightarrow> (x, d) \<noteq> (m, c) \<Longrightarrow> hi d \<le> lo m c"
    "rbufs st (current (pool st)) = Some b \<Longrightarrow> lo m c \<le> freeptr b"
  using assms by (auto simp: building_def)

lemma grow_chunk:
  assumes bl: "building st m c" and sz: "unat (ck_size c) + unat n \<le> unat (max_rmsg_size (pool st))" "unat n mod 8 = 0"
    and st': "st' = st\<lparr>rmsgs := (rmsgs st)(m \<mapsto> \<lparr>rm_chunks = butlast (chunks_of st m) @ [c\<lparr>ck_size := ck_size c + n\<rparr>]\<rparr>)\<rparr>"
  shows "building st' m (c\<lparr>ck_size := ck_size c + n\<rparr>) \<and>
    pieces st' = insert (m, c\<lparr>ck_size := ck_size c + n\<rparr>) (pieces st - {(m, c)})"
proof -
  let ?c = "c\<lparr>ck_size := ck_size c + n\<rparr>"
  note b = building_base [OF bl]
  note bd = baseD [OF b]
  have fin: "finite (dom (rmsgs st))" using bd(5) by (simp add: messages_ok_def)
  obtain rm where rm: "rmsgs st m = Some rm" "last_opt (rm_chunks rm) = Some c" using bl by (auto simp: building_def)
  then obtain ds where ds: "rm_chunks rm = ds @ [c]" by (auto simp: last_opt_Some)
  have co: "chunks_of st m = ds @ [c]" using rm ds by (simp add: chunks_of_def)
  have B: "ck_rbuf c = current (pool st)"
    "ck_addr c + sizeof_rmsg_chunk + unat (max_rmsg_size (pool st)) \<le> rb_end st (current (pool st))"
    "\<And>x d. (x, d) \<in> pieces st \<Longrightarrow> ck_rbuf d = current (pool st) \<Longrightarrow> (x, d) \<noteq> (m, c) \<Longrightarrow> hi d \<le> lo m c"
    "\<And>b. rbufs st (current (pool st)) = Some b \<Longrightarrow> lo m c \<le> freeptr b"
    using buildingD [OF bl] by blast+
  have pin: "(m, c) \<in> pieces st" using rm ds by (auto simp: pieces_def)
  note oc = messages_okD [OF bd(5) rm(1)]
  have ic: "inside st m c" using pieces_inside [OF bd(5) pin] .
  have mx: "unat (max_rmsg_size (pool st)) < 2 ^ 31" using bd(1) by (simp add: pool_ok_def)
  have u: "unat (ck_size c + n) = unat (ck_size c) + unat n" by (rule unat_add32) (use sz(1) mx in simp)
  have l: "lo m ?c = lo m c" "ck_rbuf ?c = ck_rbuf c" by (simp_all add: lo_def)
  have h: "hi ?c \<le> rb_end st (current (pool st))" "hi c \<le> hi ?c" using B(2) sz(1) u by (simp_all add: hi_def)
  have m8: "unat (ck_size c) mod 8 = 0" using ic by (simp add: inside_def)
  then have "(unat (ck_size c) + unat n) mod 8 = 0" using sz(2) by presburger
  then have ic': "inside st m ?c" using ic h l u sz(1) B(1) unfolding inside_def by (simp add: word_le_nat_alt)
  have nds: "c \<notin> set ds" "distinct ds" using oc(2) ds by auto
  have dsp: "(m, d) \<in> pieces st" if "d \<in> set ds" for d using that rm ds by (auto simp: pieces_def)
  have ncs: "?c \<notin> set ds"
  proof
    assume i: "?c \<in> set ds"
    then have "?c \<noteq> c" using nds(1) by (metis (full_types))
    with B(3) [OF dsp [OF i]] l B(1) have "hi ?c \<le> lo m c" by simp
    then show False using lo_less_hi [of m c] ic h(2) by (simp add: inside_def)
  qed
  have pc: "pieces st' = insert (m, ?c) (pieces st - {(m, c)})"
  proof (rule set_eqI, clarify)
    fix x d
    show "(x, d) \<in> pieces st' \<longleftrightarrow> (x, d) \<in> insert (m, ?c) (pieces st - {(m, c)})"
    proof (cases "x = m")
      case True
      then show ?thesis using nds(1) by (auto simp: pieces_chunks_of co st' chunks_of_def rm ds)
    next
      case False
      then show ?thesis by (simp add: pieces_def st')
    qed
  qed
  have re: "rb_end st' r = rb_end st r" for r by (simp add: rb_end_def st')
  have ins: "inside st' x d = inside st x d" for x d by (rule inside_pool) (simp add: st')
  have "base st'" unfolding base_def
  proof (intro conjI)
    show "pool_ok (pool st')" using bd(1) st' by simp
    show "buffers_ok st'" using bd(2) unfolding buffers_ok_def re by (simp add: st')
    show "blocks_apart st'" using bd(3) unfolding blocks_apart_def re by (simp add: st')
    show "counted st'" unfolding counted_def
    proof
      fix r
      have "live_in st' r = live_in st r"
        using live_in_put [OF fin, of st' m "\<lparr>rm_chunks = ds @ [?c]\<rparr>" r] co by (simp add: st')
      moreover have "count st' r = count st r" by (simp add: count_def st')
      ultimately show "count st' r = live_in st' r + (if r = current (pool st') then 1 else 0)"
        using bd(4) by (simp add: counted_def st')
    qed
    show "messages_ok st'" unfolding messages_ok_def ins
    proof (intro conjI allI impI)
      show "finite (dom (rmsgs st'))" using fin st' by simp
      fix x y assume xy: "rmsgs st' x = Some y"
      have "rm_chunks y \<noteq> [] \<and> distinct (rm_chunks y) \<and> ck_addr (hd (rm_chunks y)) = x + offsetof_rmsg_chunk \<and>
        (\<forall>d\<in>set (rm_chunks y). inside st x d)"
      proof (cases "x = m")
        case False
        with xy have "rmsgs st x = Some y" by (simp add: st')
        from messages_okD [OF bd(5) this] show ?thesis by blast
      next
        case True
        then have y: "rm_chunks y = ds @ [?c]" using xy co by (auto simp: st')
        then show ?thesis using oc ds ic' nds ncs True by (cases ds) auto
      qed
      then show "rm_chunks y \<noteq> []" "distinct (rm_chunks y)" "ck_addr (hd (rm_chunks y)) = x + offsetof_rmsg_chunk"
        "\<forall>d\<in>set (rm_chunks y). inside st x d" by blast+
    qed
    have new: "hi ?c \<le> lo x d \<or> hi d \<le> lo m c" if d: "(x, d) \<in> pieces st" "(x, d) \<noteq> (m, c)" for x d
    proof -
      have "hi d \<le> lo m c \<or> rb_end st (current (pool st)) \<le> lo x d"
      proof (rule apart_from_top [OF b d(1)])
        show "raw (current (pool st)) \<le> lo m c" using ic B(1) by (simp add: inside_def)
        show "ck_rbuf d = current (pool st) \<Longrightarrow> hi d \<le> lo m c" using B(3) [OF d(1) _ d(2)] .
      qed
      with h(1) show ?thesis by auto
    qed
    show "chunks_apart st'"
    proof (rule chunks_apart_insert [OF bd(6) pc Diff_subset])
      fix x d assume "(x, d) \<in> pieces st - {(m, c)}"
      then show "hi ?c \<le> lo x d \<or> hi d \<le> lo m ?c" using new [of x d] l(1) by auto
    qed
  qed
  moreover have "\<exists>y. rmsgs st' m = Some y \<and> last_opt (rm_chunks y) = Some ?c" by (simp add: st')
  moreover have "hi d \<le> lo m c" if "(x, d) \<in> pieces st'" "ck_rbuf d = current (pool st)" "(x, d) \<noteq> (m, ?c)" for x d
    using that B(3) unfolding pc by auto
  moreover have "pool st' = pool st" "rbufs st' = rbufs st" by (simp_all add: st')
  ultimately have "building st' m ?c" using B l unfolding building_def re by auto
  with pc show ?thesis by simp
qed

end
