(* ===== verification/Rbuf_Runs.thy ===== *)
theory Rbuf_Runs
  imports Rbuf
begin

text \<open>
  The operations on messages keep the invariant of the storage, and the runs that the receive thread,
  which builds one message after the other, and the threads that release references have together.
\<close>

section \<open>Memory in use\<close>

definition mem_of :: "memory \<Rightarrow> nat \<Rightarrow> nat set" where
  "mem_of st m = (\<Union>c\<in>set (chunks_of st m). {lo m c..<hi c})"

definition used :: "memory \<Rightarrow> nat set" where
  "used st = (\<Union>(m, c)\<in>pieces st. {lo m c..<hi c})"

lemma mem_of_used: "mem_of st m \<subseteq> used st"
  by (fastforce simp: mem_of_def used_def pieces_chunks_of)

lemma rm_eta [simp]: "rm\<lparr>rm_chunks := ds\<rparr> = \<lparr>rm_chunks = ds\<rparr>" for rm :: nn_rmsg
  by (cases rm) simp

section \<open>A new message\<close>

lemma room_lo:
  assumes "room st a" "rmsgs st m = Some rm"
  shows "a \<noteq> m" "a \<noteq> m + offsetof_rmsg_chunk"
proof -
  have s: "settled st" using assms(1) by (simp add: room_def)
  have mo: "messages_ok st" using baseD(5) [OF settled_base [OF s]] .
  note md = messages_okD [OF mo assms(2)]
  let ?c = "hd (rm_chunks rm)"
  have p: "(m, ?c) \<in> pieces st" using assms(2) md(1) by (auto simp: pieces_def)
  have lo: "lo m ?c = m" using md(3) by (simp add: lo_def)
  have hi: "m + 48 \<le> hi ?c" using md(3) by (simp add: hi_def offsetof_rmsg_chunk_def sizeof_rmsg_chunk_def)
  have e: "a + 48 \<le> rb_end st (current (pool st))" using assms(1) by (simp add: room_def)
  from room_apart [OF assms(1) p] lo hi e show "a \<noteq> m" "a \<noteq> m + offsetof_rmsg_chunk"
    by (auto simp: offsetof_rmsg_chunk_def)
qed

lemma init_chunk_room:
  assumes "room st a" "rbufs st2 = rbufs st"
  shows "\<exists>b. rbufs st (current (pool st)) = Some b \<and> init_rmsg_chunk st2 x (current (pool st)) =
    Some (\<lparr>ck_addr = x, ck_rbuf = current (pool st), ck_size = 0\<rparr>,
      st2\<lparr>rbufs := (rbufs st)(current (pool st) \<mapsto> b\<lparr>n_live_rmsg_chunks := n_live_rmsg_chunks b + 1\<rparr>)\<rparr>)"
  using assms by (auto simp: room_def init_rmsg_chunk_def)

lemma rmsg_new_spec:
  assumes s: "settled st" and mem: "mem_ok st mem"
  shows "\<exists>p st'. nn_rmsg_new st mem = Some (p, st') \<and>
    (case p of None \<Rightarrow> mem = None \<and> st' = st
     | Some m \<Rightarrow> \<exists>c. building st' m c \<and> chunks_of st' m = [c] \<and> ck_size c = 0 \<and> rmsgs st m = None \<and>
         rmsgs st' = (rmsgs st)(m \<mapsto> \<lparr>rm_chunks = [c]\<rparr>) \<and> mem_of st' m \<inter> used st = {} \<and>
         refcount st' = (refcount st)(m := RMSG_REFCOUNT_UNCOMMITTED_BIAS))"
proof -
  obtain p st1 where a: "nn_rbuf_alloc st mem = Some (p, st1)" "same_messages st st1"
    "case p of None \<Rightarrow> mem = None \<and> st1 = st | Some a \<Rightarrow> room st1 a"
    using rbuf_alloc_spec [OF s mem] by blast
  show ?thesis
  proof (cases p)
    case None
    with a show ?thesis by (simp add: nn_rmsg_new_def)
  next
    case (Some m)
    then have rm: "room st1 m" using a(3) by simp
    let ?s = "st1\<lparr>refcount := (refcount st1)(m := RMSG_REFCOUNT_UNCOMMITTED_BIAS)\<rparr>"
    let ?c = "\<lparr>ck_addr = m + offsetof_rmsg_chunk, ck_rbuf = current (pool st1), ck_size = 0\<rparr>"
    obtain b where b: "rbufs st1 (current (pool st1)) = Some b"
      "init_rmsg_chunk ?s (m + offsetof_rmsg_chunk) (current (pool st1)) = Some (?c,
        ?s\<lparr>rbufs := (rbufs st1)(current (pool st1) \<mapsto> b\<lparr>n_live_rmsg_chunks := n_live_rmsg_chunks b + 1\<rparr>)\<rparr>)"
      using init_chunk_room [OF rm, of ?s] by auto
    let ?t = "?s\<lparr>rbufs := (rbufs st1)(current (pool st1) \<mapsto> b\<lparr>n_live_rmsg_chunks := n_live_rmsg_chunks b + 1\<rparr>),
      rmsgs := (rmsgs st1)(m \<mapsto> \<lparr>rm_chunks = [?c]\<rparr>)\<rparr>"
    have none: "rmsgs st1 m = None" using room_lo(1) [OF rm, of m] by (cases "rmsgs st1 m") auto
    then have co: "chunks_of st1 m = []" by (simp add: chunks_of_def)
    have "building ?t m ?c \<and> pieces ?t = insert (m, ?c) (pieces st1)"
    proof (rule add_chunk [OF rm b(1)])
      show "rmsgs ?t = (rmsgs st1)(m \<mapsto> \<lparr>rm_chunks = chunks_of st1 m @ [?c]\<rparr>)" using co by simp
      show "ck_addr ?c + sizeof_rmsg_chunk + unat (max_rmsg_size (pool st1)) \<le> rb_end st1 (current (pool st1))"
        using rm by (simp add: room_def offsetof_rmsg_chunk_def sizeof_rmsg_chunk_def)
      show "lo m ?c = m" by (simp add: lo_def)
    qed simp_all
    moreover have "mem_of ?t m = {m..<m + 48}"
      by (simp add: mem_of_def chunks_of_def lo_def hi_def offsetof_rmsg_chunk_def sizeof_rmsg_chunk_def add.commute)
    moreover have "{m..<m + 48} \<inter> used st = {}"
    proof -
      have "m + 48 \<le> lo x d \<or> hi d \<le> m" if "(x, d) \<in> pieces st" for x d
        using room_apart [OF rm, of x d] that rm same_messages_simps(1) [OF a(2)] by (auto simp: room_def)
      then show ?thesis by (fastforce simp: used_def)
    qed
    moreover have "nn_rmsg_new st mem = Some (Some m, ?t)" using a(1) b(2) Some by (simp add: nn_rmsg_new_def)
    moreover have "rmsgs st1 = rmsgs st" "refcount st1 = refcount st" using a(2) by (simp_all add: same_messages_def)
    ultimately show ?thesis using none by (auto simp: chunks_of_def)
  qed
qed

section \<open>Memory for a message\<close>

lemma commit_chunk_spec:
  assumes bl: "building st m c"
  shows "\<exists>st'. commit_rmsg_chunk st c = Some st' \<and> settled st' \<and> building st' m c \<and> same_messages st st' \<and>
    dom (rbufs st') = dom (rbufs st)"
proof -
  note b = building_base [OF bl]
  note bd = baseD [OF b]
  note B = buildingD [OF bl]
  obtain rm where rm: "rmsgs st m = Some rm" "last_opt (rm_chunks rm) = Some c" using bl by (auto simp: building_def)
  then have pin: "(m, c) \<in> pieces st" by (auto simp: pieces_def last_opt_Some)
  have ic: "inside st m c" using pieces_inside [OF bd(5) pin] .
  obtain bf where bf: "rbufs st (current (pool st)) = Some bf" using current_buffer [OF b] by blast
  let ?t = "st\<lparr>rbufs := (rbufs st)(current (pool st) \<mapsto> bf\<lparr>freeptr := hi c\<rparr>)\<rparr>"
  have sm: "same_messages st ?t" by (simp add: same_messages_def)
  note sms = same_messages_simps [OF sm]
  have d: "dom (rbufs ?t) = dom (rbufs st)" using bf by auto
  have lh: "lo m c \<le> hi c" using ic lo_less_hi [of m c] by (simp add: inside_def)
  have bt: "base ?t" unfolding base_def
  proof (intro conjI)
    show "pool_ok (pool ?t)" using bd(1) by simp
    show "buffers_ok ?t" using bd(2) bf ic B(1) lh unfolding buffers_ok_def sms(2) inside_def by auto
    show "blocks_apart ?t" using bd(3) unfolding blocks_apart_def sms(2) d by simp
    have "count ?t rb = count st rb" for rb using bf by (simp add: count_def)
    then show "counted ?t" using bd(4) unfolding counted_def sms(4) by simp
    show "messages_ok ?t" using bd(5) unfolding messages_ok_def sms(3) by simp
    show "chunks_apart ?t" using bd(6) unfolding chunks_apart_def sms(1) by simp
  qed
  have le: "hi d \<le> hi c" if "(x, d) \<in> pieces st" "ck_rbuf d = current (pool st)" for x d
    using B(3) [OF that] lh by (cases "(x, d) = (m, c)") auto
  have "settled ?t" using bt le unfolding settled_def sms(1) by auto
  moreover have "building ?t m c" using bt bl lh unfolding building_def sms(1,2) by auto
  moreover have "commit_rmsg_chunk st c = Some ?t" using B(1) bf by (simp add: commit_rmsg_chunk_def hi_def)
  ultimately show ?thesis using sm d by blast
qed

text \<open>What \<open>nn_rmsg_alloc\<close> hands out.\<close>

definition handed_out :: "memory \<Rightarrow> nat \<Rightarrow> u32 \<Rightarrow> nat option \<Rightarrow> nat option \<Rightarrow> memory \<Rightarrow> bool" where
  "handed_out st m sz mem p st' \<longleftrightarrow> refcount st' = refcount st \<and> (\<exists>c. building st' m c) \<and>
     (\<forall>x. x \<noteq> m \<longrightarrow> rmsgs st' x = rmsgs st x) \<and>
     (case p of None \<Rightarrow> mem = None \<and> rmsgs st' = rmsgs st
      | Some a \<Rightarrow> {a..<a + unat sz} \<inter> used st = {} \<and> {a..<a + unat sz} \<subseteq> mem_of st' m \<and> used st \<subseteq> used st')"

lemma align_le:
  assumes "unat sz + 7 \<le> unat (max_rmsg_size (pool st))" "pool_ok (pool st)"
  shows "align_rmsg sz \<le> max_rmsg_size (pool st)" "unat sz \<le> unat (align_rmsg sz)" "unat (align_rmsg sz) mod 8 = 0"
  using align_rmsg_bounds [of sz] assms by (simp_all add: word_le_nat_alt pool_ok_def)

lemma rmsg_alloc_spec:
  assumes bl: "building st m c" and mem: "mem_ok st mem" and sz: "unat sz + 7 \<le> unat (max_rmsg_size (pool st))"
    and rc: "RMSG_REFCOUNT_UNCOMMITTED_BIAS \<le> refcount st m"
  shows "\<exists>p st'. nn_rmsg_alloc st m sz mem = Some (p, st') \<and> handed_out st m sz mem p st'"
proof -
  note b = building_base [OF bl]
  note bd = baseD [OF b]
  note B = buildingD [OF bl]
  note al = align_le [OF sz bd(1)]
  obtain rm where rm: "rmsgs st m = Some rm" "last_opt (rm_chunks rm) = Some c" using bl by (auto simp: building_def)
  then have pin: "(m, c) \<in> pieces st" by (auto simp: pieces_def last_opt_Some)
  have ic: "inside st m c" using pieces_inside [OF bd(5) pin] .
  have co: "chunks_of st m = rm_chunks rm" using rm(1) by (simp add: chunks_of_def)
  obtain bf where bf: "rbufs st (current (pool st)) = Some bf" using current_buffer [OF b] by blast
  have mx: "rb_max_rmsg_size bf = max_rmsg_size (pool st)" using buffers_okD(3) [OF bd(2) bf] .
  have "unat (ck_size c mod 8) = 0" using ic by (simp add: inside_def unat_mod)
  then have m8: "ck_size c mod ALIGNOF_RMSG = 0" unfolding ALIGNOF_RMSG_def by (simp add: unat_eq_0)
  have small: "unat (max_rmsg_size (pool st)) < 2 ^ 31" using bd(1) by (simp add: pool_ok_def)
  have cs: "unat (ck_size c) \<le> unat (max_rmsg_size (pool st))" using ic by (simp add: inside_def word_le_nat_alt)
  have u: "unat (ck_size c + align_rmsg sz) = unat (ck_size c) + unat (align_rmsg sz)"
    by (rule unat_add32) (use cs al(1) small in \<open>simp add: word_le_nat_alt\<close>)
  let ?more = "max_rmsg_size (pool st) < ck_size c + align_rmsg sz"
  have start: "nn_rmsg_alloc st m sz mem = (if ?more then do {
       st1 \<leftarrow> commit_rmsg_chunk st c;
       (p, st2) \<leftarrow> nn_rbuf_alloc st1 mem;
       (case p of
          None \<Rightarrow> Some (None, st2)
        | Some a \<Rightarrow> do {
            (c, st3) \<leftarrow> init_rmsg_chunk st2 a (current (pool st2));
            take_from_chunk st3 m (rm\<lparr>rm_chunks := rm_chunks rm @ [c]\<rparr>) (align_rmsg sz) }) }
     else take_from_chunk st m rm (align_rmsg sz))"
    using rm B(1) bf mx rc m8 al(1) by (simp add: nn_rmsg_alloc_def)
  show ?thesis
  proof (cases ?more)
    case False
    then have fit: "unat (ck_size c) + unat (align_rmsg sz) \<le> unat (max_rmsg_size (pool st))"
      using u by (simp add: word_less_nat_alt)
    let ?c = "c\<lparr>ck_size := ck_size c + align_rmsg sz\<rparr>"
    let ?t = "st\<lparr>rmsgs := (rmsgs st)(m \<mapsto> \<lparr>rm_chunks = butlast (chunks_of st m) @ [?c]\<rparr>)\<rparr>"
    have g: "building ?t m ?c" "pieces ?t = insert (m, ?c) (pieces st - {(m, c)})"
      using grow_chunk [OF bl fit al(3) refl] by simp_all
    have "nn_rmsg_alloc st m sz mem = Some (Some (hi c), ?t)"
      unfolding start using False rm co by (simp add: take_from_chunk_def hi_def)
    moreover have "hi c + unat sz \<le> lo x d \<or> hi d \<le> hi c" if "(x, d) \<in> pieces st" for x d
    proof (cases "(x, d) = (m, c)")
      case False
      have "hi d \<le> lo m c \<or> rb_end st (current (pool st)) \<le> lo x d"
      proof (rule apart_from_top [OF b that])
        show "raw (current (pool st)) \<le> lo m c" using ic B(1) by (simp add: inside_def)
        show "ck_rbuf d = current (pool st) \<Longrightarrow> hi d \<le> lo m c" using B(3) [OF that _ False] .
      qed
      moreover have "lo m c \<le> hi c" using ic lo_less_hi [of m c] by (simp add: inside_def)
      moreover have "hi c + unat sz \<le> rb_end st (current (pool st))" using fit al(2) B(2) by (simp add: hi_def)
      ultimately show ?thesis by auto
    qed simp
    then have "{hi c..<hi c + unat sz} \<inter> used st = {}" by (fastforce simp: used_def)
    moreover have l: "lo m ?c = lo m c" "hi ?c = hi c + unat (align_rmsg sz)" using u by (simp_all add: lo_def hi_def)
    moreover have "lo m c \<le> hi c" using ic lo_less_hi [of m c] by (simp add: inside_def)
    moreover have "{hi c..<hi c + unat sz} \<subseteq> mem_of ?t m"
      using l \<open>lo m c \<le> hi c\<close> al(2) by (auto simp: mem_of_def chunks_of_def)
    moreover have "used st \<subseteq> used ?t" unfolding used_def g(2) using l by fastforce
    ultimately show ?thesis using g(1) by (auto simp: handed_out_def)
  next
    case True
    obtain st1 where st1: "commit_rmsg_chunk st c = Some st1" "settled st1" "building st1 m c" "same_messages st st1"
      "dom (rbufs st1) = dom (rbufs st)" using commit_chunk_spec [OF bl] by blast
    have "mem_ok st1 mem" using mem st1(5) same_messages_simps(2) [OF st1(4)] by (simp add: mem_ok_def)
    from rbuf_alloc_spec [OF st1(2) this] obtain p st2 where
      a: "nn_rbuf_alloc st1 mem = Some (p, st2)" "same_messages st1 st2"
        "case p of None \<Rightarrow> mem = None \<and> st2 = st1 | Some a \<Rightarrow> room st2 a" by blast
    show ?thesis
    proof (cases p)
      case None
      then have "nn_rmsg_alloc st m sz mem = Some (None, st2)" unfolding start using True st1(1) a(1) by simp
      moreover have "handed_out st m sz mem None st2"
        using None st1(3,4) a(2,3) by (auto simp: handed_out_def same_messages_def)
      ultimately show ?thesis by blast
    next
      case (Some a0)
      then have r: "room st2 a0" using a(3) by simp
      have e: "rmsgs st2 = rmsgs st" "refcount st2 = refcount st" "pieces st2 = pieces st"
          "max_rmsg_size (pool st2) = max_rmsg_size (pool st)"
        using a(2) st1(4) same_messages_simps(1) [OF a(2)] same_messages_simps(1) [OF st1(4)]
        by (simp_all add: same_messages_def)
      let ?c = "\<lparr>ck_addr = a0, ck_rbuf = current (pool st2), ck_size = align_rmsg sz\<rparr>"
      obtain b2 where b2: "rbufs st2 (current (pool st2)) = Some b2"
        "init_rmsg_chunk st2 a0 (current (pool st2)) = Some (\<lparr>ck_addr = a0, ck_rbuf = current (pool st2), ck_size = 0\<rparr>,
          st2\<lparr>rbufs := (rbufs st2)(current (pool st2) \<mapsto> b2\<lparr>n_live_rmsg_chunks := n_live_rmsg_chunks b2 + 1\<rparr>)\<rparr>)"
        using init_chunk_room [OF r refl] by blast
      let ?t = "st2\<lparr>rbufs := (rbufs st2)(current (pool st2) \<mapsto> b2\<lparr>n_live_rmsg_chunks := n_live_rmsg_chunks b2 + 1\<rparr>),
        rmsgs := (rmsgs st2)(m \<mapsto> \<lparr>rm_chunks = rm_chunks rm @ [?c]\<rparr>)\<rparr>"
      have lo: "lo m ?c = a0" using room_lo(2) [OF r, of m rm] e(1) rm(1) by (simp add: lo_def)
      have co2: "chunks_of st2 m = rm_chunks rm" using e(1) rm(1) by (simp add: chunks_of_def)
      have g: "building ?t m ?c \<and> pieces ?t = insert (m, ?c) (pieces st2)"
      proof (rule add_chunk [OF r b2(1)])
        show "rmsgs ?t = (rmsgs st2)(m \<mapsto> \<lparr>rm_chunks = chunks_of st2 m @ [?c]\<rparr>)" using co2 by simp
        show "ck_addr ?c + sizeof_rmsg_chunk + unat (max_rmsg_size (pool st2)) \<le> rb_end st2 (current (pool st2))"
          using r by (simp add: room_def sizeof_rmsg_chunk_def)
        show "ck_size ?c \<le> max_rmsg_size (pool st2)" using al(1) e(4) by simp
        show "unat (ck_size ?c) mod 8 = 0" using al(3) by simp
        show "rmsgs st2 m = None \<Longrightarrow> ck_addr ?c = m + offsetof_rmsg_chunk" using e(1) rm(1) by simp
      qed (use lo in simp_all)
      have "nn_rmsg_alloc st m sz mem = Some (Some (a0 + sizeof_rmsg_chunk), ?t)"
        unfolding start using True st1(1) a(1) Some b2(2) by (simp add: take_from_chunk_def)
      moreover have "a0 + sizeof_rmsg_chunk + unat sz \<le> lo x d \<or> hi d \<le> a0" if "(x, d) \<in> pieces st" for x d
        using room_apart [OF r, of x d] that e(3) r sz e(4) by (auto simp: room_def sizeof_rmsg_chunk_def)
      then have "{a0 + sizeof_rmsg_chunk..<a0 + sizeof_rmsg_chunk + unat sz} \<inter> used st = {}"
        by (fastforce simp: used_def)
      moreover have "{a0 + sizeof_rmsg_chunk..<a0 + sizeof_rmsg_chunk + unat sz} \<subseteq> mem_of ?t m"
        using lo al(2) by (auto simp: mem_of_def chunks_of_def hi_def)
      moreover have "used st \<subseteq> used ?t" using g e(3) by (auto simp: used_def)
      ultimately show ?thesis using g e(1,2) by (auto simp: handed_out_def)
    qed
  qed
qed

section \<open>Counts\<close>

definition alive :: "memory \<Rightarrow> bool" where
  "alive st \<longleftrightarrow> (\<forall>m rm. rmsgs st m = Some rm \<longrightarrow> 0 < refcount st m)"

text \<open>\<open>U\<close> is the message being built, whose count has the bias; the rest of a count is references held.\<close>

definition pool_state :: "memory \<Rightarrow> nat option \<Rightarrow> bool" where
  "pool_state st U \<longleftrightarrow> alive st \<and> (case U of None \<Rightarrow> settled st
     | Some m \<Rightarrow> (\<exists>c. building st m c) \<and> RMSG_REFCOUNT_UNCOMMITTED_BIAS \<le> refcount st m)"

definition held :: "memory \<Rightarrow> nat option \<Rightarrow> nat \<Rightarrow> nat" where
  "held st U m = refcount st m - (if U = Some m then RMSG_REFCOUNT_UNCOMMITTED_BIAS else 0)"

lemma BIAS31_pos [simp]: "0 < RMSG_REFCOUNT_UNCOMMITTED_BIAS"
  by (simp add: RMSG_REFCOUNT_UNCOMMITTED_BIAS_def)

lemma base_refcount: "base (st\<lparr>refcount := R\<rparr>) = base st"
  by (simp add: base_def buffers_ok_def blocks_apart_def counted_def messages_ok_def chunks_apart_def
      rb_end_def count_def live_in_def inside_def pieces_def)

lemma settled_refcount [simp]: "settled (st\<lparr>refcount := R\<rparr>) = settled st"
  by (simp add: settled_def base_refcount pieces_def)

lemma building_refcount [simp]: "building (st\<lparr>refcount := R\<rparr>) m c = building st m c"
  by (simp add: building_def base_refcount pieces_def rb_end_def)

lemma pool_state_base: "pool_state st U \<Longrightarrow> base st"
  by (auto simp: pool_state_def settled_base building_base split: option.splits)

text \<open>A count goes down: at zero the message is freed.\<close>

definition dropped :: "memory \<Rightarrow> nat option \<Rightarrow> nat \<Rightarrow> refs \<Rightarrow> memory \<Rightarrow> bool" where
  "dropped st U m R st' \<longleftrightarrow> pool_state st' U \<and> refcount st' = R \<and>
     rmsgs st' = (if R m = 0 then (rmsgs st)(m := None) else rmsgs st)"

lemma drop_spec:
  assumes ps: "pool_state st U" and rm: "rmsgs st m = Some rm"
    and R: "R m < refcount st m" "\<And>x. x \<noteq> m \<Longrightarrow> R x = refcount st x"
      "U = Some m \<Longrightarrow> RMSG_REFCOUNT_UNCOMMITTED_BIAS \<le> R m"
  shows "\<exists>st'. (if R m = 0 then nn_rmsg_free (st\<lparr>refcount := R\<rparr>) m else Some (st\<lparr>refcount := R\<rparr>)) = Some st' \<and>
    dropped st U m R st'"
proof (cases "R m = 0")
  case False
  have "0 < R x" if "rmsgs st x = Some y" for x y
    using that ps R(2) False by (cases "x = m") (auto simp: alive_def pool_state_def)
  then have "alive (st\<lparr>refcount := R\<rparr>)" by (auto simp: alive_def)
  moreover have "RMSG_REFCOUNT_UNCOMMITTED_BIAS \<le> R x" if "U = Some x" for x
    using R(2,3) that ps by (cases "x = m") (auto simp: pool_state_def)
  ultimately have "pool_state (st\<lparr>refcount := R\<rparr>) U" using ps by (auto simp: pool_state_def split: option.splits)
  with False show ?thesis by (simp add: dropped_def)
next
  case True
  let ?s = "st\<lparr>refcount := R\<rparr>"
  have "base ?s" using pool_state_base [OF ps] by (simp add: base_refcount)
  from rmsg_free_spec [OF this, of m rm] rm True obtain st' where
    f: "nn_rmsg_free ?s m = Some st'" "freed ?s m st'" by auto
  have e: "refcount st' = R" "rmsgs st' = (rmsgs st)(m := None)" using f(2) by (simp_all add: freed_def)
  have "U \<noteq> Some m" using R(3) True BIAS31_pos by fastforce
  have "alive st'" using ps R(2) by (auto simp: alive_def pool_state_def e)
  moreover have "(case U of None \<Rightarrow> settled st'
     | Some x \<Rightarrow> (\<exists>c. building st' x c) \<and> RMSG_REFCOUNT_UNCOMMITTED_BIAS \<le> refcount st' x)"
  proof (cases U)
    case None
    then have "settled ?s" using ps by (simp add: pool_state_def)
    from freed_settled [OF this f(2)] None show ?thesis by simp
  next
    case (Some x)
    then have ne: "x \<noteq> m" using \<open>U \<noteq> Some m\<close> by simp
    from Some ps obtain c where "building ?s x c" by (auto simp: pool_state_def)
    from freed_building [OF this f(2) ne] Some ps R(2) [OF ne] e(1) show ?thesis by (auto simp: pool_state_def)
  qed
  ultimately have "pool_state st' U" by (simp add: pool_state_def)
  with True f(1) e show ?thesis by (auto simp: dropped_def)
qed

lemma unref_spec:
  assumes ps: "pool_state st U" and rm: "rmsgs st m = Some rm" and h: "0 < held st U m"
  shows "\<exists>st'. rmsg_unref st m = Some st' \<and> dropped st U m ((refcount st)(m := refcount st m - 1)) st'"
proof -
  have pos: "0 < refcount st m" using h by (simp add: held_def split: if_splits)
  let ?R = "(refcount st)(m := refcount st m - 1)"
  have "\<exists>st'. (if ?R m = 0 then nn_rmsg_free (st\<lparr>refcount := ?R\<rparr>) m else Some (st\<lparr>refcount := ?R\<rparr>)) = Some st' \<and>
      dropped st U m ?R st'"
    by (rule drop_spec [OF ps rm]) (use h pos in \<open>auto simp: held_def split: if_splits\<close>)
  moreover have "rmsg_unref st m = (if ?R m = 0 then nn_rmsg_free (st\<lparr>refcount := ?R\<rparr>) m else Some (st\<lparr>refcount := ?R\<rparr>))"
    using rm pos by (simp add: rmsg_unref_def nn_rmsg_unref_def Let_def)
  ultimately show ?thesis by (simp only:)
qed

lemma adjust_spec:
  assumes ps: "pool_state st U" and rm: "rmsgs st m = Some rm"
    and a: "0 \<le> adj" "nat adj < RMSG_REFCOUNT_RDATA_BIAS" "RMSG_REFCOUNT_RDATA_BIAS - nat adj \<le> held st U m"
  shows "\<exists>st'. rmsg_rmbias_and_adjust st m adj = Some st' \<and>
    dropped st U m ((refcount st)(m := refcount st m - (RMSG_REFCOUNT_RDATA_BIAS - nat adj))) st'"
proof -
  let ?d = "RMSG_REFCOUNT_RDATA_BIAS - nat adj"
  let ?R = "(refcount st)(m := refcount st m - ?d)"
  have le: "?d \<le> refcount st m" "0 < ?d" using a by (simp_all add: held_def split: if_splits)
  have lt: "refcount st m - ?d < refcount st m" using le by linarith
  have U: "U = Some m \<Longrightarrow> RMSG_REFCOUNT_UNCOMMITTED_BIAS \<le> refcount st m - ?d"
    using a(3) le(2) unfolding held_def by (auto simp del: diff_is_0_eq)
  have "\<exists>st'. (if ?R m = 0 then nn_rmsg_free (st\<lparr>refcount := ?R\<rparr>) m else Some (st\<lparr>refcount := ?R\<rparr>)) = Some st' \<and>
      dropped st U m ?R st'"
    by (rule drop_spec [OF ps rm]) (use lt U in auto)
  moreover have "rmsg_rmbias_and_adjust st m adj =
      (if ?R m = 0 then nn_rmsg_free (st\<lparr>refcount := ?R\<rparr>) m else Some (st\<lparr>refcount := ?R\<rparr>))"
    using rm a(1,2) le by (simp add: rmsg_rmbias_and_adjust_def nn_rmsg_rmbias_and_adjust_def Let_def)
  ultimately show ?thesis by (simp only:)
qed

lemma commit_spec:
  assumes ps: "pool_state st (Some m)"
  shows "\<exists>st'. nn_rmsg_commit st m = Some st' \<and> pool_state st' None \<and>
    rmsgs st' = (if held st (Some m) m = 0 then (rmsgs st)(m := None) else rmsgs st) \<and>
    refcount st' = (refcount st)(m := held st (Some m) m)"
proof -
  obtain c where bl: "building st m c" and rc: "RMSG_REFCOUNT_UNCOMMITTED_BIAS \<le> refcount st m"
    using ps by (auto simp: pool_state_def)
  note b = building_base [OF bl]
  note bd = baseD [OF b]
  note B = buildingD [OF bl]
  obtain rm where rm: "rmsgs st m = Some rm" "last_opt (rm_chunks rm) = Some c" using bl by (auto simp: building_def)
  have ne: "rm_chunks rm \<noteq> []" using messages_okD(1) [OF bd(5) rm(1)] .
  have pin: "(m, c) \<in> pieces st" "(m, hd (rm_chunks rm)) \<in> pieces st"
    using rm ne by (auto simp: pieces_def last_opt_Some)
  have ic: "inside st m c" using pieces_inside [OF bd(5) pin(1)] .
  obtain b0 where b0: "rbufs st (ck_rbuf (hd (rm_chunks rm))) = Some b0" using piece_buffer [OF b pin(2)] by blast
  obtain bf where bf: "rbufs st (current (pool st)) = Some bf" using current_buffer [OF b] by blast
  have mx: "rb_max_rmsg_size bf = max_rmsg_size (pool st)" using buffers_okD(3) [OF bd(2) bf] .
  have "unat (ck_size c mod 8) = 0" using ic by (simp add: inside_def unat_mod)
  then have m8: "ck_size c mod ALIGNOF_RMSG = 0" unfolding ALIGNOF_RMSG_def by (simp add: unat_eq_0)
  let ?h = "held st (Some m) m"
  let ?R = "(refcount st)(m := ?h)"
  have h: "?h = refcount st m - RMSG_REFCOUNT_UNCOMMITTED_BIAS" by (simp add: held_def)
  have hd: "hd_opt (rm_chunks rm) = Some (hd (rm_chunks rm))" using ne by (cases "rm_chunks rm") auto
  have start: "nn_rmsg_commit st m = (if ?h = 0 then nn_rmsg_free (st\<lparr>refcount := ?R\<rparr>) m
      else commit_rmsg_chunk (st\<lparr>refcount := ?R\<rparr>) c)"
    using rm hd b0 bf B(1) m8 rc mx ic buffers_okD(1) [OF bd(2) b0] buffers_okD(1) [OF bd(2) bf] h
    by (simp add: nn_rmsg_commit_def inside_def)
  have bl': "building (st\<lparr>refcount := ?R\<rparr>) m c" using bl by simp
  show ?thesis
  proof (cases "?h = 0")
    case True
    have "base (st\<lparr>refcount := ?R\<rparr>)" using b by (simp add: base_refcount)
    from rmsg_free_spec [OF this, of m rm] rm(1) True obtain st' where
      f: "nn_rmsg_free (st\<lparr>refcount := ?R\<rparr>) m = Some st'" "freed (st\<lparr>refcount := ?R\<rparr>) m st'" by auto
    have "settled st'" by (rule freed_own [OF bl' f(2)])
    moreover have "alive st'" using ps f(2) by (auto simp: freed_def alive_def pool_state_def)
    ultimately show ?thesis using f start True by (auto simp: freed_def pool_state_def)
  next
    case False
    obtain st' where c: "commit_rmsg_chunk (st\<lparr>refcount := ?R\<rparr>) c = Some st'" "settled st'"
      "same_messages (st\<lparr>refcount := ?R\<rparr>) st'" using commit_chunk_spec [OF bl'] by blast
    have "alive st'" using ps c(3) False by (auto simp: same_messages_def alive_def pool_state_def)
    then show ?thesis using c start False by (auto simp: same_messages_def pool_state_def)
  qed
qed

section \<open>Runs\<close>

text \<open>
  The second argument is the message that the receive thread is building. References are given up
  by those who hold them, at any time; a bias is added by the receive thread only, and while there is room for it in the 32 bits of the
  count: a message with 2047 biases has none for another one, and \<open>biases_wrap\<close> shows what the code does then.
\<close>

inductive pool_run :: "memory \<Rightarrow> nat option \<Rightarrow> bool" where
  new: "unat mx < 2 ^ 31 - 64 \<Longrightarrow> nn_rbufpool_new rbsize mx (Some rb) = Some (Some st) \<Longrightarrow> pool_run st None"
| message: "pool_run st None \<Longrightarrow> mem_ok st mem \<Longrightarrow> nn_rmsg_new st mem = Some (p, st') \<Longrightarrow> pool_run st' p"
| setsize: "pool_run st (Some m) \<Longrightarrow> chunks_of st m = [c] \<Longrightarrow> ck_size c = 0 \<Longrightarrow>
    refcount st m = RMSG_REFCOUNT_UNCOMMITTED_BIAS \<Longrightarrow> unat sz + 7 \<le> unat (max_rmsg_size (pool st)) \<Longrightarrow>
    nn_rmsg_setsize st m sz = Some st' \<Longrightarrow> pool_run st' (Some m)"
| alloc: "pool_run st (Some m) \<Longrightarrow> mem_ok st mem \<Longrightarrow> unat sz + 7 \<le> unat (max_rmsg_size (pool st)) \<Longrightarrow>
    nn_rmsg_alloc st m sz mem = Some (p, st') \<Longrightarrow> pool_run st' (Some m)"
| addbias: "pool_run st (Some m) \<Longrightarrow> refcount st m + RMSG_REFCOUNT_RDATA_BIAS < 2 ^ 32 \<Longrightarrow> rmsg_addbias st m = Some st' \<Longrightarrow> pool_run st' (Some m)"
| adjust: "pool_run st U \<Longrightarrow> rmsgs st m \<noteq> None \<Longrightarrow> 0 \<le> adj \<Longrightarrow> nat adj < RMSG_REFCOUNT_RDATA_BIAS \<Longrightarrow>
    RMSG_REFCOUNT_RDATA_BIAS - nat adj \<le> held st U m \<Longrightarrow>
    rmsg_rmbias_and_adjust st m adj = Some st' \<Longrightarrow> pool_run st' U"
| unref: "pool_run st U \<Longrightarrow> rmsgs st m \<noteq> None \<Longrightarrow> 0 < held st U m \<Longrightarrow> rmsg_unref st m = Some st' \<Longrightarrow>
    pool_run st' U"
| commit: "pool_run st (Some m) \<Longrightarrow> nn_rmsg_commit st m = Some st' \<Longrightarrow> pool_run st' None"

lemma pool_new_state:
  assumes mx: "unat mx < 2 ^ 31 - 64" and n: "nn_rbufpool_new rbsize mx (Some rb) = Some (Some st)"
  shows "pool_state st None"
proof -
  let ?s = "if rbsize < max_rmsg_size_w_hdr mx then max_rmsg_size_w_hdr mx else rbsize"
  let ?b = "\<lparr>n_live_rmsg_chunks = 1, rb_size = ?s, rb_max_rmsg_size = mx, freeptr = raw rb\<rparr>"
  have st: "st = \<lparr>pool = \<lparr>current = rb, rbuf_size = ?s, max_rmsg_size = mx\<rparr>,
      rbufs = [rb \<mapsto> ?b], rmsgs = (\<lambda>_. None), refcount = (\<lambda>_. 0)\<rparr>"
    using n by (auto simp: nn_rbufpool_new_def nn_rbuf_alloc_new_def Let_def split: bind_splits)
  have h: "unat (max_rmsg_size_w_hdr mx) = 48 + unat mx" by (rule hdr_size) (use mx in simp)
  have "48 + unat mx \<le> unat ?s" using h by (auto simp: word_less_nat_alt)
  then have "base st" using mx
    by (simp add: st base_def pool_ok_def buffers_ok_def blocks_apart_def counted_def count_def live_in_def
        messages_ok_def chunks_apart_def pieces_def rb_end_def)
  then show ?thesis by (simp add: pool_state_def settled_def alive_def st pieces_def)
qed

lemma setsize_spec:
  assumes ps: "pool_state st (Some m)" and c: "chunks_of st m = [c]" "ck_size c = 0"
    and rc: "refcount st m = RMSG_REFCOUNT_UNCOMMITTED_BIAS" and sz: "unat sz + 7 \<le> unat (max_rmsg_size (pool st))"
  shows "\<exists>st'. nn_rmsg_setsize st m sz = Some st' \<and> pool_state st' (Some m) \<and> refcount st' = refcount st \<and>
    (\<forall>x. x \<noteq> m \<longrightarrow> rmsgs st' x = rmsgs st x)"
proof -
  obtain d where bl: "building st m d" using ps by (auto simp: pool_state_def)
  note b = building_base [OF bl]
  note bd = baseD [OF b]
  obtain rm where rm: "rmsgs st m = Some rm" "last_opt (rm_chunks rm) = Some d" using bl by (auto simp: building_def)
  have d: "rm_chunks rm = [c]" "d = c" using rm c(1) by (auto simp: chunks_of_def)
  note B = buildingD [OF bl [unfolded d(2)]]
  obtain bf where bf: "rbufs st (current (pool st)) = Some bf" using current_buffer [OF b] by blast
  have mx: "rb_max_rmsg_size bf = max_rmsg_size (pool st)" using buffers_okD(3) [OF bd(2) bf] .
  note al = align_le [OF sz bd(1)]
  let ?t = "st\<lparr>rmsgs := (rmsgs st)(m \<mapsto> \<lparr>rm_chunks = butlast (chunks_of st m) @ [c\<lparr>ck_size := ck_size c + align_rmsg sz\<rparr>]\<rparr>)\<rparr>"
  have "building ?t m (c\<lparr>ck_size := ck_size c + align_rmsg sz\<rparr>)"
    using grow_chunk [OF bl [unfolded d(2)] _ al(3) refl] al(1) c(2) by (simp add: word_le_nat_alt)
  moreover have "nn_rmsg_setsize st m sz = Some ?t"
    using rm(1) d(1) B(1) bf mx rc c al(1) by (simp add: nn_rmsg_setsize_def)
  moreover have "alive ?t" using ps rm(1) by (auto simp: alive_def pool_state_def)
  ultimately show ?thesis using rc by (auto simp: pool_state_def)
qed

lemma alloc_state:
  assumes "pool_state st (Some m)" "mem_ok st mem" "unat sz + 7 \<le> unat (max_rmsg_size (pool st))"
  shows "\<exists>p st'. nn_rmsg_alloc st m sz mem = Some (p, st') \<and> handed_out st m sz mem p st' \<and> pool_state st' (Some m)"
proof -
  obtain c where bl: "building st m c" and rc: "RMSG_REFCOUNT_UNCOMMITTED_BIAS \<le> refcount st m"
    using assms(1) by (auto simp: pool_state_def)
  obtain p st' where a: "nn_rmsg_alloc st m sz mem = Some (p, st')" "handed_out st m sz mem p st'"
    using rmsg_alloc_spec [OF bl assms(2,3) rc] by blast
  obtain rm where "rmsgs st m = Some rm" using bl by (auto simp: building_def)
  moreover have "rmsgs st' x = rmsgs st x" if "x \<noteq> m" for x using a(2) that by (simp add: handed_out_def)
  moreover have "refcount st' = refcount st" using a(2) by (simp add: handed_out_def)
  ultimately have "alive st'" using assms(1) unfolding alive_def pool_state_def by metis
  then have "pool_state st' (Some m)" using a(2) rc by (auto simp: handed_out_def pool_state_def)
  with a show ?thesis by blast
qed

lemma new_state:
  assumes "pool_state st None" "mem_ok st mem" "nn_rmsg_new st mem = Some (p, st')"
  shows "pool_state st' p"
proof -
  have s: "settled st" using assms(1) by (simp add: pool_state_def)
  from rmsg_new_spec [OF s assms(2)] assms(3) show ?thesis using assms(1)
    by (auto simp: pool_state_def alive_def split: option.splits)
qed

lemma pool_run_state: "pool_run st U \<Longrightarrow> pool_state st U"
proof (induction rule: pool_run.induct)
  case (new mx rbsize rb st)
  then show ?case by (rule pool_new_state)
next
  case (message st mem p st')
  show ?case by (rule new_state [OF message.IH message.hyps(2,3)])
next
  case (setsize st m c sz st')
  from setsize_spec [OF setsize.IH setsize.hyps(2-5)] setsize.hyps(6) show ?case by auto
next
  case (alloc st m mem sz p st')
  from alloc_state [OF alloc.IH alloc.hyps(2,3)] alloc.hyps(4) show ?case by auto
next
  case (addbias st m st')
  then show ?case
    by (auto simp: rmsg_addbias_def pool_state_def alive_def nn_rmsg_addbias_def split: bind_splits)
next
  case (adjust st U m adj st')
  then obtain rm where "rmsgs st m = Some rm" by blast
  from adjust_spec [OF adjust.IH this adjust.hyps(3-5)] adjust.hyps(6) show ?case by (auto simp: dropped_def)
next
  case (unref st U m st')
  then obtain rm where "rmsgs st m = Some rm" by blast
  from unref_spec [OF unref.IH this unref.hyps(3)] unref.hyps(4) show ?case by (auto simp: dropped_def)
next
  case (commit st m st')
  from commit_spec [OF commit.IH] commit.hyps(2) show ?case by auto
qed

text \<open>With nothing live, only the current buffer is left.\<close>

lemma only_current:
  assumes b: "base st" and e: "\<And>m. rmsgs st m = None"
  shows "dom (rbufs st) = {current (pool st)}" "count st (current (pool st)) = 1"
proof -
  have l: "live_in st rb = 0" for rb using e by (simp add: live_in_def dom_def)
  then show c: "count st (current (pool st)) = 1" using baseD(4) [OF b] by (simp add: counted_def)
  have "rb = current (pool st)" if "rbufs st rb = Some x" for rb x
  proof (rule ccontr)
    assume "rb \<noteq> current (pool st)"
    then have "count st rb = 0" using baseD(4) [OF b] l by (simp add: counted_def)
    then show False using that buffers_okD(1) [OF baseD(2) [OF b] that] by (simp add: count_def)
  qed
  then show "dom (rbufs st) = {current (pool st)}" using current_buffer [OF b] by auto
qed

text \<open>The memory of the messages lies apart and inside the buffers.\<close>

lemma mem_of_apart:
  assumes b: "base st" and ne: "m \<noteq> m'"
  shows "mem_of st m \<inter> mem_of st m' = {}"
proof -
  have "hi c \<le> lo m' d \<or> hi d \<le> lo m c" if "c \<in> set (chunks_of st m)" "d \<in> set (chunks_of st m')" for c d
    using chunks_apartD [OF baseD(6) [OF b], of m c m' d] that ne by (simp add: pieces_chunks_of)
  then show ?thesis by (fastforce simp: mem_of_def)
qed

lemma used_inside:
  assumes b: "base st" and x: "x \<in> used st"
  shows "\<exists>rb bf. rbufs st rb = Some bf \<and> raw rb \<le> x \<and> x < raw rb + unat (rb_size bf)"
proof -
  obtain m c where p: "(m, c) \<in> pieces st" "lo m c \<le> x" "x < hi c" using x by (auto simp: used_def)
  obtain bf where bf: "rbufs st (ck_rbuf c) = Some bf" using piece_buffer [OF b p(1)] by blast
  from pieces_inside [OF baseD(5) [OF b] p(1)] p buffers_okD(2) [OF baseD(2) [OF b] bf]
  have "raw (ck_rbuf c) \<le> x" "x < raw (ck_rbuf c) + unat (rb_size bf)" by (auto simp: inside_def rb_end_def)
  with bf show ?thesis by blast
qed

end
