(* ===== verification/Rbuf_Properties.thy ===== *)
theory Rbuf_Properties
  imports Rbuf_Runs
begin

text \<open>
  The properties of the message storage, with witnesses from a run that is evaluated.
\<close>

section \<open>An example run\<close>

datatype pool_event = New_message | Set_size u32 | Alloc u32 | Add_bias | Trade nat int | Unref nat | Commit

fun pool_step :: "memory \<Rightarrow> nat option \<Rightarrow> pool_event \<Rightarrow> (memory \<times> nat option) option" where
  "pool_step st U New_message = (if U = None then map_option (\<lambda>(p, st'). (st', p)) (nn_rmsg_new st None) else None)"
| "pool_step st U (Set_size sz) =
     (if U \<noteq> None \<and> map ck_size (chunks_of st (the U)) = [0] \<and> refcount st (the U) = RMSG_REFCOUNT_UNCOMMITTED_BIAS \<and>
         unat sz + 7 \<le> unat (max_rmsg_size (pool st))
      then map_option (\<lambda>st'. (st', U)) (nn_rmsg_setsize st (the U) sz) else None)"
| "pool_step st U (Alloc sz) =
     (if U \<noteq> None \<and> unat sz + 7 \<le> unat (max_rmsg_size (pool st))
      then map_option (\<lambda>(p, st'). (st', U)) (nn_rmsg_alloc st (the U) sz None) else None)"
| "pool_step st U Add_bias = (if U \<noteq> None \<and> refcount st (the U) + RMSG_REFCOUNT_RDATA_BIAS < 2 ^ 32
      then map_option (\<lambda>st'. (st', U)) (rmsg_addbias st (the U)) else None)"
| "pool_step st U (Trade m adj) =
     (if rmsgs st m \<noteq> None \<and> 0 \<le> adj \<and> nat adj < RMSG_REFCOUNT_RDATA_BIAS \<and> RMSG_REFCOUNT_RDATA_BIAS - nat adj \<le> held st U m
      then map_option (\<lambda>st'. (st', U)) (rmsg_rmbias_and_adjust st m adj) else None)"
| "pool_step st U (Unref m) =
     (if rmsgs st m \<noteq> None \<and> 0 < held st U m then map_option (\<lambda>st'. (st', U)) (rmsg_unref st m) else None)"
| "pool_step st U Commit = (if U \<noteq> None then map_option (\<lambda>st'. (st', None)) (nn_rmsg_commit st (the U)) else None)"

fun pool_play :: "memory \<Rightarrow> nat option \<Rightarrow> pool_event list \<Rightarrow> (memory \<times> nat option) option" where
  "pool_play st U [] = Some (st, U)"
| "pool_play st U (e # es) = pool_step st U e \<bind> (\<lambda>(st', U'). pool_play st' U' es)"

lemma mem_ok_None: "mem_ok st None"
  by (simp add: mem_ok_def)

lemma pool_step_run:
  assumes r: "pool_run st U" and s: "pool_step st U e = Some (st', U')"
  shows "pool_run st' U'"
proof (cases e)
  case New_message
  then show ?thesis using r s pool_run.message [OF _ mem_ok_None, of st U' st'] by (auto split: if_splits)
next
  case (Set_size sz)
  then obtain m where m: "U = Some m" "map ck_size (chunks_of st m) = [0]" "U' = U"
    "refcount st m = RMSG_REFCOUNT_UNCOMMITTED_BIAS" "unat sz + 7 \<le> unat (max_rmsg_size (pool st))"
    "nn_rmsg_setsize st m sz = Some st'" using s by (auto split: if_splits)
  then obtain c where "chunks_of st m = [c]" "ck_size c = 0" by auto
  with pool_run.setsize [of st m c sz st'] m r show ?thesis by simp
next
  case (Alloc sz)
  then show ?thesis using r s pool_run.alloc [OF _ mem_ok_None, of st "the U" sz _ st'] by (auto split: if_splits)
next
  case Add_bias
  then show ?thesis using r s pool_run.addbias [of st "the U" st'] by (auto split: if_splits)
next
  case (Trade m adj)
  then show ?thesis using r s pool_run.adjust [of st U m adj st'] by (auto split: if_splits)
next
  case (Unref m)
  then show ?thesis using r s pool_run.unref [of st U m st'] by (auto split: if_splits)
next
  case Commit
  then show ?thesis using r s pool_run.commit [of st "the U" st'] by (auto split: if_splits)
qed

lemma pool_play_run: "pool_run st U \<Longrightarrow> pool_play st U es = Some (st', U') \<Longrightarrow> pool_run st' U'"
  by (induction es arbitrary: st U) (auto split: bind_splits intro: pool_step_run)

definition pl_new :: memory where
  "pl_new = the (the (nn_rbufpool_new 10000 1000 (Some 0)))"

lemma pl_new_run: "pool_run pl_new None"
proof (rule pool_run.new)
  show "unat (1000 :: u32) < 2 ^ 31 - 64" by simp
  show "nn_rbufpool_new 10000 1000 (Some 0) = Some (Some pl_new)" by (simp add: pl_new_def nn_rbufpool_new_def)
qed

text \<open>A message is kept with two references, and the next one, at 240, is being built, in two chunks.\<close>

definition pl_events :: "pool_event list" where
  "pl_events = [New_message, Set_size 100, Alloc 40, Add_bias, Trade 48 2, Commit,
     New_message, Set_size 900, Alloc 40, Alloc 600]"

definition pl_mid :: memory where
  "pl_mid = fst (the (pool_play pl_new None pl_events))"

lemma pl_mid_facts:
  "map_option snd (pool_play pl_new None pl_events) = Some (Some 240)"
  "map (\<lambda>c. (ck_addr c, ck_size c)) (chunks_of pl_mid 48) = [(72, 144)]"
  "map (\<lambda>c. (ck_addr c, ck_size c)) (chunks_of pl_mid 240) = [(264, 944), (1232, 600)]"
  by code_simp+

lemma pl_mid_run: "pool_run pl_mid (Some 240)"
proof -
  obtain x where x: "pool_play pl_new None pl_events = Some x" "snd x = Some 240"
    using pl_mid_facts(1) by (auto simp: map_option_case split: option.splits)
  then have "pl_mid = fst x" by (simp add: pl_mid_def)
  moreover have "pool_play pl_new None pl_events = Some (fst x, Some 240)" using x by (cases x) simp
  ultimately show ?thesis using pool_play_run [OF pl_new_run] by simp
qed

lemma pl_mid_live: "rmsgs pl_mid 48 \<noteq> None" "rmsgs pl_mid 240 \<noteq> None"
  using pl_mid_facts(2,3) by (auto simp: chunks_of_def split: option.splits)

lemma pl_mid_counts: "refcount pl_mid 48 = 2" "max_rmsg_size (pool pl_mid) = 1000"
  by code_simp+

section \<open>Allocation\<close>

text \<open>
  C20. From any state that the receive thread and the threads that release references reach together, as long as the receive thread
  gives a message no bias for which the 32 bits of its count have no room (which takes 2048 stored fragments of one packet; the
  assertion below fails then, \<open>wrapped_count_refused\<close>), memory for the message being built is allocated without a failing assertion or a use of freed
  memory; it lies in memory that no message uses, belongs to the message from then on, and nothing
  that was in use is given up. Only without memory for a new buffer is the result NULL.
\<close>

theorem nn_rmsg_alloc_safe:
  assumes "pool_run st (Some m)" "mem_ok st mem" "unat sz + 7 \<le> unat (max_rmsg_size (pool st))"
  shows "\<exists>p st'. nn_rmsg_alloc st m sz mem = Some (p, st') \<and> pool_run st' (Some m) \<and>
    (case p of None \<Rightarrow> mem = None \<and> rmsgs st' = rmsgs st
     | Some a \<Rightarrow> {a..<a + unat sz} \<inter> used st = {} \<and> {a..<a + unat sz} \<subseteq> mem_of st' m \<and> used st \<subseteq> used st')"
proof -
  obtain p st' where a: "nn_rmsg_alloc st m sz mem = Some (p, st')" "handed_out st m sz mem p st'"
    using alloc_state [OF pool_run_state [OF assms(1)] assms(2,3)] by blast
  have "pool_run st' (Some m)" by (rule pool_run.alloc [OF assms a(1)])
  with a show ?thesis by (auto simp: handed_out_def)
qed

theorem nn_rmsg_alloc_safe_witness:
  "\<exists>p st'. nn_rmsg_alloc pl_mid 240 392 None = Some (p, st') \<and> pool_run st' (Some 240)"
  using nn_rmsg_alloc_safe [OF pl_mid_run mem_ok_None, of 392] by (auto simp: pl_mid_counts)

text \<open>
  C22. In every reachable state the memory of two messages does not overlap, and all of it lies inside
  buffers that are allocated.
\<close>

theorem messages_live_apart:
  assumes "pool_run st U" "m \<noteq> m'"
  shows "mem_of st m \<inter> mem_of st m' = {} \<and>
    (\<forall>x\<in>mem_of st m. \<exists>rb b. rbufs st rb = Some b \<and> raw rb \<le> x \<and> x < raw rb + unat (rb_size b))"
proof -
  have b: "base st" by (rule pool_state_base [OF pool_run_state [OF assms(1)]])
  show ?thesis using mem_of_apart [OF b assms(2)] used_inside [OF b] mem_of_used [of st m] by blast
qed

theorem messages_live_apart_witness:
  "mem_of pl_mid 48 \<inter> mem_of pl_mid 240 = {} \<and> mem_of pl_mid 48 = {48..<240} \<and>
   (\<exists>rb b. rbufs pl_mid rb = Some b \<and> raw rb \<le> 100 \<and> 100 < raw rb + unat (rb_size b))"
proof -
  obtain c where c: "chunks_of pl_mid 48 = [c]" "ck_addr c = 72" "ck_size c = 144" using pl_mid_facts(2) by auto
  then have "mem_of pl_mid 48 = {48..<240}"
    by (simp add: mem_of_def lo_def hi_def offsetof_rmsg_chunk_def sizeof_rmsg_chunk_def)
  then show ?thesis using messages_live_apart [OF pl_mid_run, of 48 240] by simp
qed

section \<open>Release\<close>

text \<open>
  Whoever holds a reference to a message can give it up, in any reachable state and also while the
  message is still being built: nothing fails, the message is freed when this was the last
  reference, and no other message is touched.
\<close>

theorem nn_rmsg_unref_frees_at_zero:
  assumes "pool_run st U" "rmsgs st m \<noteq> None" "0 < held st U m"
  shows "\<exists>st'. rmsg_unref st m = Some st' \<and> pool_run st' U \<and>
    refcount st' = (refcount st)(m := refcount st m - 1) \<and>
    rmsgs st' = (if refcount st m = 1 then (rmsgs st)(m := None) else rmsgs st)"
proof -
  obtain rm where rm: "rmsgs st m = Some rm" using assms(2) by blast
  obtain st' where st': "rmsg_unref st m = Some st'" "dropped st U m ((refcount st)(m := refcount st m - 1)) st'"
    using unref_spec [OF pool_run_state [OF assms(1)] rm assms(3)] by blast
  have "0 < refcount st m" using assms(3) by (simp add: held_def split: if_splits)
  then have "(refcount st m - 1 = 0) = (refcount st m = 1)" by linarith
  with st' pool_run.unref [OF assms st'(1)] show ?thesis by (auto simp: dropped_def)
qed

theorem nn_rmsg_unref_frees_at_zero_witness:
  "\<exists>st'. rmsg_unref pl_mid 48 = Some st' \<and> pool_run st' (Some 240) \<and> rmsgs st' = rmsgs pl_mid \<and> refcount st' 48 = 1"
  using nn_rmsg_unref_frees_at_zero [OF pl_mid_run pl_mid_live(1)] by (auto simp: held_def pl_mid_counts)

text \<open>
  C30. No buffer is leaked: when no message is left, the pool holds just its current buffer, and
  freeing the pool gives that back.
\<close>

theorem no_buffer_is_leaked:
  assumes "pool_run st None" "rmsgs st = Map.empty"
  shows "dom (rbufs st) = {current (pool st)} \<and>
    (\<exists>st'. nn_rbufpool_free st = Some st' \<and> rbufs st' = Map.empty)"
proof -
  have b: "base st" by (rule pool_state_base [OF pool_run_state [OF assms(1)]])
  note oc = only_current [OF b] 
  have e: "\<And>m. rmsgs st m = None" using assms(2) by simp
  obtain bf where bf: "rbufs st (current (pool st)) = Some bf" using current_buffer [OF b] by blast
  then have "n_live_rmsg_chunks bf = 1" using oc(2) [OF e] by (simp add: count_def)
  moreover have "(rbufs st)(current (pool st) := None) = Map.empty" 
  proof
    fix rb
    have "rb \<notin> dom (rbufs st)" if "rb \<noteq> current (pool st)" using that oc(1) [OF e] by simp
    then show "((rbufs st)(current (pool st) := None)) rb = None" by (auto simp: domIff)
  qed
  ultimately show ?thesis using oc(1) [OF e] bf by (simp add: nn_rbufpool_free_def nn_rbuf_release_def)
qed

theorem no_buffer_is_leaked_witness:
  "dom (rbufs pl_new) = {0} \<and> (\<exists>st'. nn_rbufpool_free pl_new = Some st' \<and> rbufs st' = Map.empty)"
proof -
  have "rmsgs pl_new = Map.empty" "current (pool pl_new) = 0"
    by (simp_all add: pl_new_def nn_rbufpool_new_def nn_rbuf_alloc_new_def Let_def)
  with no_buffer_is_leaked [OF pl_new_run] show ?thesis by simp
qed

section \<open>A message of 2048 fragments\<close>

text \<open>
  The biases of 2048 stored fragments take the count of the message that is being built to zero: the next piece of memory for it,
  and its commit, fail the assertion.
\<close>

lemma wrapped_count_refused:
  assumes "refcount st m = RMSG_REFCOUNT_UNCOMMITTED_BIAS"
  shows "\<exists>R. add_biases 2048 (refcount st) m = Some R \<and> R m = 0 \<and>
    nn_rmsg_alloc (st\<lparr>refcount := R\<rparr>) m sz mem = None \<and> nn_rmsg_commit (st\<lparr>refcount := R\<rparr>) m = None"
  using biases_wrap(1) [of "refcount st" m, OF assms] by (auto simp: nn_rmsg_alloc_def nn_rmsg_commit_def Let_def bind_eq_None_conv RMSG_REFCOUNT_UNCOMMITTED_BIAS_def)

section \<open>A chunk size that is not aligned\<close>

text \<open>
  \<open>do_packet\<close> accepts packets of up to \<open>rmsg_chunk_size\<close> bytes, and \<open>nn_rmsg_setsize\<close> rounds the
  size up: when the chunk size is no multiple of 8, a packet that fills it fails the assertion.
\<close>

lemma full_packet_rounds_past_max:
  "map_option (\<lambda>(p, st). map_option (\<lambda>m. nn_rmsg_setsize st m 1001 = None) p)
     (nn_rmsg_new (the (the (nn_rbufpool_new 10000 1001 (Some 0)))) None) = Some (Some True)"
  by (simp add: nn_rbufpool_new_def nn_rbuf_alloc_new_def nn_rmsg_new_def nn_rbuf_alloc_def init_rmsg_chunk_def
      nn_rmsg_setsize_def align_rmsg_def ALIGNOF_RMSG_def max_rmsg_size_w_hdr_def max_uint32_def
      offsetof_rmsg_chunk_def sizeof_rmsg_chunk_def space_left_def raw_def sizeof_rbuf_def Let_def)

end
