(* ===== verification/Dqueue_Model.thy ===== *)
theory Dqueue_Model
  imports Radmin_Data
begin

text \<open>
  The delivery queue, the DQUEUE part of \<open>src/core/ddsi/src/q_radmin.c\<close>: chains of samples
  and gaps from the reorder administrations and \<open>bubbles\<close> between them, handed to the delivery thread.
  A chain is the list of its elements. An element whose \<open>sampleinfo\<close> points to itself is a bubble.
  What is done while the lock of the queue is held is one operation, and so is the handling of
  one element by the thread, which takes the whole queue at once. The handler and the callbacks
  are not part of the queue; what they are called with is recorded.
\<close>

section \<open>Data\<close>

type_synonym guid = nat

text \<open>A callback is known by a number that stands for the function and its argument.\<close>

datatype nn_dqueue_bubble =
  NN_DQBK_STOP
| NN_DQBK_CALLBACK nat
| NN_DQBK_RDGUID guid u32

datatype dq_elem = Element rsample_chain_elem | Bubble nn_dqueue_bubble

datatype dqueue_elem_kind = DQEK_DATA | DQEK_GAP | DQEK_BUBBLE

fun elem_kind :: "dq_elem \<Rightarrow> dqueue_elem_kind" where
  "elem_kind (Element e) = (if sce_sampleinfo e = None then DQEK_GAP else DQEK_DATA)"
| "elem_kind (Bubble b) = DQEK_BUBBLE"

text \<open>\<open>dq_thrst\<close> says whether the thread has been started.\<close>

record nn_dqueue =
  dq_sc :: "dq_elem list"
  dq_max_samples :: u32
  nof_samples :: u32
  dq_thrst :: bool

text \<open>The local variables of the thread; \<open>prdguid\<close> points to \<open>rdguid\<close> or is NULL.\<close>

record dq_thread =
  th_sc :: "dq_elem list"
  keepgoing :: bool
  prdguid :: "guid option"
  rdguid_count :: u32

text \<open>What the thread does for others: a call of the handler, with the reader it is for, or a callback.\<close>

datatype dq_event =
  Handled rsample_info "rdata list" "guid option"
| Called nat

type_synonym dq_handler = "rsample_info \<Rightarrow> rdata list \<Rightarrow> guid option \<Rightarrow> int"

definition nn_dqueue_new :: "u32 \<Rightarrow> nn_dqueue" where
  "nn_dqueue_new max_samples =
     \<lparr>dq_sc = [], dq_max_samples = max_samples, nof_samples = 0, dq_thrst = False\<rparr>"

text \<open>The start of the thread, when it can be created.\<close>

definition nn_dqueue_start :: "nn_dqueue \<Rightarrow> bool \<Rightarrow> nn_dqueue \<times> bool" where
  "nn_dqueue_start q created = (if created then (q\<lparr>dq_thrst := True\<rparr>, True) else (q, False))"

definition dqueue_thread_init :: dq_thread where
  "dqueue_thread_init = \<lparr>th_sc = [], keepgoing = True, prdguid = None, rdguid_count = 0\<rparr>"

section \<open>Putting elements in\<close>

text \<open>The flag says whether the thread must be woken up.\<close>

definition nn_dqueue_enqueue_locked :: "nn_dqueue \<Rightarrow> dq_elem list \<Rightarrow> nn_dqueue \<times> bool" where
  "nn_dqueue_enqueue_locked q sc =
     (if dq_sc q = [] then (q\<lparr>dq_sc := sc\<rparr>, True)
      else (q\<lparr>dq_sc := dq_sc q @ sc\<rparr>, False))"

definition nn_dqueue_enqueue_deferred_wakeup ::
  "nn_dqueue \<Rightarrow> rsample_chain_elem list \<Rightarrow> int \<Rightarrow> (nn_dqueue \<times> bool) option" where
  "nn_dqueue_enqueue_deferred_wakeup q sc rres = do {
     _ \<leftarrow> assertion (0 < rres);
     _ \<leftarrow> assertion (sc \<noteq> []);
     Some (nn_dqueue_enqueue_locked (q\<lparr>nof_samples := nof_samples q + word_of_int rres\<rparr>) (map Element sc)) }"

text \<open>For this and the other operations the flag says whether \<open>cond\<close> is broadcast.\<close>

definition dd_dqueue_enqueue_trigger :: "nn_dqueue \<Rightarrow> nn_dqueue \<times> bool" where
  "dd_dqueue_enqueue_trigger q = (q, True)"

definition nn_dqueue_enqueue ::
  "nn_dqueue \<Rightarrow> rsample_chain_elem list \<Rightarrow> int \<Rightarrow> (nn_dqueue \<times> bool) option" where
  "nn_dqueue_enqueue q sc rres = do {
     _ \<leftarrow> assertion (0 < rres);
     _ \<leftarrow> assertion (sc \<noteq> []);
     Some (nn_dqueue_enqueue_locked (q\<lparr>nof_samples := nof_samples q + word_of_int rres\<rparr>) (map Element sc)) }"

definition nn_dqueue_enqueue_bubble_locked :: "nn_dqueue \<Rightarrow> nn_dqueue_bubble \<Rightarrow> nn_dqueue \<times> bool" where
  "nn_dqueue_enqueue_bubble_locked q b = nn_dqueue_enqueue_locked q [Bubble b]"

definition nn_dqueue_enqueue_bubble :: "nn_dqueue \<Rightarrow> nn_dqueue_bubble \<Rightarrow> nn_dqueue \<times> bool" where
  "nn_dqueue_enqueue_bubble q b =
     nn_dqueue_enqueue_bubble_locked (q\<lparr>nof_samples := nof_samples q + 1\<rparr>) b"

definition nn_dqueue_enqueue_callback :: "nn_dqueue \<Rightarrow> nat \<Rightarrow> nn_dqueue \<times> bool" where
  "nn_dqueue_enqueue_callback q cb = nn_dqueue_enqueue_bubble q (NN_DQBK_CALLBACK cb)"

definition nn_dqueue_enqueue1 ::
  "nn_dqueue \<Rightarrow> guid \<Rightarrow> rsample_chain_elem list \<Rightarrow> int \<Rightarrow> (nn_dqueue \<times> bool) option" where
  "nn_dqueue_enqueue1 q rdguid sc rres = do {
     let b = NN_DQBK_RDGUID rdguid (word_of_int rres);
     _ \<leftarrow> assertion (0 < rres);
     _ \<leftarrow> assertion (sc \<noteq> []);
     let q1 = q\<lparr>nof_samples := nof_samples q + (1 + word_of_int rres)\<rparr>;
     let (q2, signal) = nn_dqueue_enqueue_bubble_locked q1 b;
     let (q3, _) = nn_dqueue_enqueue_locked q2 (map Element sc);
     Some (q3, signal) }"

section \<open>The thread\<close>

definition dqueue_take :: "nn_dqueue \<Rightarrow> dq_thread \<Rightarrow> nn_dqueue \<times> dq_thread" where
  "dqueue_take q th = (q\<lparr>dq_sc := []\<rparr>, th\<lparr>th_sc := dq_sc q\<rparr>)"

text \<open>The switch over the kind of the element.\<close>

definition dqueue_handle ::
  "dq_handler \<Rightarrow> dq_thread \<Rightarrow> refs \<Rightarrow> dq_elem \<Rightarrow> (dq_thread \<times> refs \<times> dq_event list) option" where
  "dqueue_handle handler th R e =
     (case e of
        Element s \<Rightarrow> do {
          ev \<leftarrow> (if elem_kind e = DQEK_DATA then do {
                   i \<leftarrow> sce_sampleinfo s;
                   _ \<leftarrow> assertion (handler i (sce_fragchain s) (prdguid th) = 0);
                   Some [Handled i (sce_fragchain s) (prdguid th)] }
                 else Some []);
          R' \<leftarrow> nn_fragchain_unref R (sce_fragchain s);
          Some (if 0 < rdguid_count th
                then th\<lparr>rdguid_count := rdguid_count th - 1,
                        prdguid := (if rdguid_count th - 1 = 0 then None else prdguid th)\<rparr>
                else th, R', ev) }
      | Bubble b \<Rightarrow>
          (case b of
             NN_DQBK_STOP \<Rightarrow> Some (th\<lparr>keepgoing := False\<rparr>, R, [])
           | NN_DQBK_CALLBACK cb \<Rightarrow> Some (th, R, [Called cb])
           | NN_DQBK_RDGUID g n \<Rightarrow> Some (th\<lparr>rdguid_count := n, prdguid := Some g\<rparr>, R, [])))"

text \<open>The body of the inner loop; the flag says whether \<open>cond\<close> is broadcast.\<close>

definition dqueue_next ::
  "dq_handler \<Rightarrow> nn_dqueue \<Rightarrow> dq_thread \<Rightarrow> refs \<Rightarrow> (nn_dqueue \<times> dq_thread \<times> refs \<times> dq_event list \<times> bool) option" where
  "dqueue_next handler q th R =
     (case th_sc th of
        [] \<Rightarrow> None
      | e # es \<Rightarrow> do {
          let q' = q\<lparr>nof_samples := nof_samples q - 1\<rparr>;
          (th', R', ev) \<leftarrow> dqueue_handle handler (th\<lparr>th_sc := es\<rparr>) R e;
          Some (q', th', R', ev, nof_samples q = 1) })"

section \<open>Queries and the end\<close>

definition nn_dqueue_is_full :: "nn_dqueue \<Rightarrow> bool" where
  "nn_dqueue_is_full q \<longleftrightarrow> dq_max_samples q \<le> nof_samples q"

text \<open>None: there is nothing to wait for; otherwise \<open>cond\<close> is broadcast, and the caller waits for zero.\<close>

definition nn_dqueue_wait_until_empty_if_full :: "nn_dqueue \<Rightarrow> (nn_dqueue \<Rightarrow> bool) option" where
  "nn_dqueue_wait_until_empty_if_full q =
     (if dq_max_samples q \<le> nof_samples q then Some (\<lambda>q'. \<not> 0 < nof_samples q') else None)"

fun free_elements :: "refs \<Rightarrow> dq_elem list \<Rightarrow> refs option" where
  "free_elements R [] = Some R"
| "free_elements R (e # es) = do {
     R' \<leftarrow> (case e of Element s \<Rightarrow> nn_fragchain_unref R (sce_fragchain s) | Bubble b \<Rightarrow> Some R);
     free_elements R' es }"

definition dqueue_free_remaining_elements :: "nn_dqueue \<Rightarrow> refs \<Rightarrow> (nn_dqueue \<times> refs) option" where
  "dqueue_free_remaining_elements q R = do {
     _ \<leftarrow> assertion (\<not> dq_thrst q);
     R' \<leftarrow> free_elements R (dq_sc q);
     Some (q\<lparr>dq_sc := []\<rparr>, R') }"

text \<open>
  The two halves of \<open>nn_dqueue_free\<close>: what happens before the thread is joined (or instead of
  that), and the assertion after.
\<close>

definition nn_dqueue_free :: "nn_dqueue \<Rightarrow> refs \<Rightarrow> (nn_dqueue \<times> bool \<times> refs) option" where
  "nn_dqueue_free q R =
     (if dq_thrst q then
        (let (q', signal) = nn_dqueue_enqueue_bubble q NN_DQBK_STOP in Some (q', signal, R))
      else do {
        (q', R') \<leftarrow> dqueue_free_remaining_elements q R;
        Some (q', False, R') })"

definition dqueue_joined :: "nn_dqueue \<Rightarrow> unit option" where
  "dqueue_joined q = assertion (dq_sc q = [])"

end
