(* ===== verification/Dqueue.thy ===== *)
theory Dqueue
  imports Dqueue_Model
begin

text \<open>
  The delivery queue as a system of its thread and those that put elements in: what the contents of
  the queue mean, the steps, and the invariant that every step keeps.
\<close>

section \<open>What a queue means\<close>

text \<open>The calls of the handler that a chain asks for.\<close>

fun events :: "guid option \<Rightarrow> rsample_chain_elem list \<Rightarrow> dq_event list" where
  "events g [] = []"
| "events g (e # es) =
     (case sce_sampleinfo e of None \<Rightarrow> [] | Some i \<Rightarrow> [Handled i (sce_fragchain e) g]) @ events g es"

text \<open>
  What the thread will do for the elements, in a state given by the reader they are for, if only
  one, and for how many more of them; and the state after.
\<close>

definition after_elem :: "guid option \<Rightarrow> nat \<Rightarrow> guid option \<times> nat" where
  "after_elem g n = (if 0 < n then (if n = 1 then None else g, n - 1) else (g, n))"

fun meaning :: "guid option \<Rightarrow> nat \<Rightarrow> dq_elem list \<Rightarrow> dq_event list" where
  "meaning g n [] = []"
| "meaning g n (Element e # es) = events g [e] @ meaning (fst (after_elem g n)) (snd (after_elem g n)) es"
| "meaning g n (Bubble NN_DQBK_STOP # es) = meaning g n es"
| "meaning g n (Bubble (NN_DQBK_CALLBACK cb) # es) = Called cb # meaning g n es"
| "meaning g n (Bubble (NN_DQBK_RDGUID g' k) # es) = meaning (Some g') (unat k) es"

fun final :: "guid option \<Rightarrow> nat \<Rightarrow> dq_elem list \<Rightarrow> guid option \<times> nat" where
  "final g n [] = (g, n)"
| "final g n (Element e # es) = final (fst (after_elem g n)) (snd (after_elem g n)) es"
| "final g n (Bubble (NN_DQBK_RDGUID g' k) # es) = final (Some g') (unat k) es"
| "final g n (Bubble NN_DQBK_STOP # es) = final g n es"
| "final g n (Bubble (NN_DQBK_CALLBACK cb) # es) = final g n es"

lemma final_append: "final g n (xs @ ys) = final (fst (final g n xs)) (snd (final g n xs)) ys"
  by (induction g n xs rule: final.induct) simp_all

lemma meaning_append: "meaning g n (xs @ ys) = meaning g n xs @ meaning (fst (final g n xs)) (snd (final g n xs)) ys"
  by (induction g n xs rule: meaning.induct) simp_all

lemma events_append: "events g (es @ fs) = events g es @ events g fs"
  by (induction es) simp_all

lemma elements_for_all:
  "meaning None 0 (map Element es) = events None es" "final None 0 (map Element es) = (None, 0)"
  by (induction es) (simp_all add: after_elem_def)

lemma elements_for_one:
  assumes "es \<noteq> []"
  shows "meaning (Some g) (length es) (map Element es) = events (Some g) es \<and>
    final (Some g) (length es) (map Element es) = (None, 0)"
  using assms
proof (induction es)
  case (Cons e es)
  then show ?case by (cases "es = []") (simp_all add: after_elem_def)
qed simp

section \<open>The system\<close>

datatype pc = At_lock | Blocked | Woken | Awake | Exited

text \<open>
  \<open>sy_triggers\<close> is the number of wake-ups that have been deferred, \<open>sy_trace\<close> what the thread has
  done, \<open>sy_posted\<close> what it has been asked to do; \<open>sy_stopped\<close> says that \<open>nn_dqueue_free\<close> has been called.
\<close>

record dq_system =
  sy_q :: nn_dqueue
  sy_th :: dq_thread
  sy_pc :: pc
  sy_triggers :: nat
  sy_trace :: "dq_event list"
  sy_posted :: "dq_event list"
  sy_stopped :: bool

definition wake :: "bool \<Rightarrow> pc \<Rightarrow> pc" where
  "wake b p = (if b \<and> p = Blocked then Woken else p)"

definition chain_ok :: "rsample_chain_elem list \<Rightarrow> int \<Rightarrow> bool" where
  "chain_ok sc rres \<longleftrightarrow> sc \<noteq> [] \<and> rres = int (length sc) \<and> length sc < 2 ^ 31"

text \<open>Those that put elements in; after \<open>nn_dqueue_free\<close> nobody may.\<close>

inductive client_step :: "dq_system \<Rightarrow> dq_system \<Rightarrow> bool" where
  enqueue: "\<not> sy_stopped s \<Longrightarrow> chain_ok sc rres \<Longrightarrow> nn_dqueue_enqueue (sy_q s) sc rres = Some (q', b) \<Longrightarrow>
    client_step s (s\<lparr>sy_q := q', sy_pc := wake b (sy_pc s), sy_posted := sy_posted s @ events None sc\<rparr>)"
| deferred: "\<not> sy_stopped s \<Longrightarrow> chain_ok sc rres \<Longrightarrow> nn_dqueue_enqueue_deferred_wakeup (sy_q s) sc rres = Some (q', b) \<Longrightarrow>
    client_step s (s\<lparr>sy_q := q', sy_triggers := sy_triggers s + (if b then 1 else 0),
      sy_posted := sy_posted s @ events None sc\<rparr>)"
| trigger: "0 < sy_triggers s \<Longrightarrow> dd_dqueue_enqueue_trigger (sy_q s) = (q', b) \<Longrightarrow>
    client_step s (s\<lparr>sy_q := q', sy_triggers := sy_triggers s - 1, sy_pc := wake b (sy_pc s)\<rparr>)"
| enqueue1: "\<not> sy_stopped s \<Longrightarrow> chain_ok sc rres \<Longrightarrow> nn_dqueue_enqueue1 (sy_q s) g sc rres = Some (q', b) \<Longrightarrow>
    client_step s (s\<lparr>sy_q := q', sy_pc := wake b (sy_pc s), sy_posted := sy_posted s @ events (Some g) sc\<rparr>)"
| callback: "\<not> sy_stopped s \<Longrightarrow> nn_dqueue_enqueue_callback (sy_q s) cb = (q', b) \<Longrightarrow>
    client_step s (s\<lparr>sy_q := q', sy_pc := wake b (sy_pc s), sy_posted := sy_posted s @ [Called cb]\<rparr>)"
| wait: "nn_dqueue_wait_until_empty_if_full (sy_q s) = Some w \<Longrightarrow>
    client_step s (s\<lparr>sy_pc := wake True (sy_pc s)\<rparr>)"
| free: "\<not> sy_stopped s \<Longrightarrow> nn_dqueue_free (sy_q s) R = Some (q', b, R') \<Longrightarrow>
    client_step s (s\<lparr>sy_q := q', sy_pc := wake b (sy_pc s), sy_stopped := True\<rparr>)"

definition frags_of :: "dq_elem list \<Rightarrow> rdata list" where
  "frags_of es = concat (map (\<lambda>e. case e of Element s \<Rightarrow> sce_fragchain s | Bubble b \<Rightarrow> []) es)"

definition dq_cover :: "dq_system \<Rightarrow> refs \<Rightarrow> bool" where
  "dq_cover s R \<longleftrightarrow> (\<forall>m. held_in m (frags_of (th_sc (sy_th s) @ dq_sc (sy_q s))) \<le> R m)"

text \<open>The thread; \<open>spurious\<close> is a wake-up without a broadcast.\<close>

inductive thread_step :: "dq_handler \<Rightarrow> dq_system \<Rightarrow> dq_system \<Rightarrow> bool" for h where
  wait: "sy_pc s = At_lock \<Longrightarrow> dq_sc (sy_q s) = [] \<Longrightarrow> thread_step h s (s\<lparr>sy_pc := Blocked\<rparr>)"
| take: "sy_pc s = At_lock \<and> dq_sc (sy_q s) \<noteq> [] \<or> sy_pc s = Woken \<Longrightarrow>
    dqueue_take (sy_q s) (sy_th s) = (q', th') \<Longrightarrow>
    thread_step h s (s\<lparr>sy_q := q', sy_th := th', sy_pc := Awake\<rparr>)"
| spurious: "sy_pc s = Blocked \<Longrightarrow> thread_step h s (s\<lparr>sy_pc := Woken\<rparr>)"
| next_elem: "sy_pc s = Awake \<Longrightarrow> dq_cover s R \<Longrightarrow> dqueue_next h (sy_q s) (sy_th s) R = Some (q', th', R', ev, b) \<Longrightarrow>
    thread_step h s (s\<lparr>sy_q := q', sy_th := th', sy_trace := sy_trace s @ ev\<rparr>)"
| again: "sy_pc s = Awake \<Longrightarrow> th_sc (sy_th s) = [] \<Longrightarrow>
    thread_step h s (s\<lparr>sy_pc := (if keepgoing (sy_th s) then At_lock else Exited)\<rparr>)"

definition dq_init :: "u32 \<Rightarrow> dq_system" where
  "dq_init mx =
     \<lparr>sy_q = fst (nn_dqueue_start (nn_dqueue_new mx) True), sy_th = dqueue_thread_init, sy_pc = At_lock,
      sy_triggers = 0, sy_trace = [], sy_posted = [], sy_stopped = False\<rparr>"

inductive dq_reach :: "dq_handler \<Rightarrow> dq_system \<Rightarrow> bool" for h where
  init: "dq_reach h (dq_init mx)"
| client: "dq_reach h s \<Longrightarrow> client_step s s' \<Longrightarrow> dq_reach h s'"
| thread: "dq_reach h s \<Longrightarrow> thread_step h s s' \<Longrightarrow> dq_reach h s'"

section \<open>The invariant\<close>

definition stop_last :: "bool \<Rightarrow> bool \<Rightarrow> dq_elem list \<Rightarrow> bool" where
  "stop_last stopped going es \<longleftrightarrow>
     (if \<not> stopped then going \<and> Bubble NN_DQBK_STOP \<notin> set es
      else if going then \<exists>xs. es = xs @ [Bubble NN_DQBK_STOP] \<and> Bubble NN_DQBK_STOP \<notin> set xs
      else es = [])"

definition dq_inv :: "dq_system \<Rightarrow> bool" where
  "dq_inv s \<longleftrightarrow> (let es = th_sc (sy_th s) @ dq_sc (sy_q s); g = prdguid (sy_th s); n = unat (rdguid_count (sy_th s)) in
     nof_samples (sy_q s) = of_nat (length es) \<and> final g n es = (None, 0) \<and>
     sy_trace s @ meaning g n es = sy_posted s \<and>
     (sy_pc s = Blocked \<longrightarrow> dq_sc (sy_q s) = [] \<or> 0 < sy_triggers s) \<and>
     (sy_pc s \<noteq> Awake \<longrightarrow> th_sc (sy_th s) = []) \<and> dq_thrst (sy_q s) \<and>
     stop_last (sy_stopped s) (keepgoing (sy_th s)) es \<and> (sy_pc s = Exited \<longrightarrow> \<not> keepgoing (sy_th s)) \<and>
     (sy_pc s \<noteq> Awake \<and> sy_pc s \<noteq> Exited \<longrightarrow> keepgoing (sy_th s)))"

lemma dq_invD:
  assumes "dq_inv s"
  shows "nof_samples (sy_q s) = of_nat (length (th_sc (sy_th s) @ dq_sc (sy_q s)))"
    "final (prdguid (sy_th s)) (unat (rdguid_count (sy_th s))) (th_sc (sy_th s) @ dq_sc (sy_q s)) = (None, 0)"
    "sy_trace s @ meaning (prdguid (sy_th s)) (unat (rdguid_count (sy_th s))) (th_sc (sy_th s) @ dq_sc (sy_q s)) = sy_posted s"
    "sy_pc s = Blocked \<longrightarrow> dq_sc (sy_q s) = [] \<or> 0 < sy_triggers s"
    "sy_pc s \<noteq> Awake \<longrightarrow> th_sc (sy_th s) = []" "dq_thrst (sy_q s)"
    "stop_last (sy_stopped s) (keepgoing (sy_th s)) (th_sc (sy_th s) @ dq_sc (sy_q s))"
    "sy_pc s = Exited \<longrightarrow> \<not> keepgoing (sy_th s)"
    "sy_pc s \<noteq> Awake \<and> sy_pc s \<noteq> Exited \<longrightarrow> keepgoing (sy_th s)"
  using assms unfolding dq_inv_def Let_def by argo+

text \<open>Appending elements that leave nothing pending.\<close>

lemma inv_append:
  assumes inv: "dq_inv s" and st: "\<not> sy_stopped s" and es: "es \<noteq> []" "Bubble NN_DQBK_STOP \<notin> set es"
    "final None 0 es = (None, 0)"
    and q: "dq_sc q = dq_sc (sy_q s) @ es" "nof_samples q = nof_samples (sy_q s) + of_nat (length es)"
      "dq_thrst q = dq_thrst (sy_q s)"
    and p: "p = wake True (sy_pc s) \<or> p = sy_pc s \<and> (dq_sc (sy_q s) = [] \<longrightarrow> t = sy_triggers s + 1)"
    and t: "sy_triggers s \<le> t"
  shows "dq_inv (s\<lparr>sy_q := q, sy_pc := p, sy_triggers := t, sy_posted := sy_posted s @ meaning None 0 es\<rparr>)"
proof -
  let ?xs = "th_sc (sy_th s) @ dq_sc (sy_q s)"
  let ?g = "prdguid (sy_th s)" and ?n = "unat (rdguid_count (sy_th s))"
  note i = dq_invD [OF inv]
  have e: "th_sc (sy_th s) @ dq_sc q = ?xs @ es" using q(1) by simp
  have "final ?g ?n (?xs @ es) = (None, 0)" using i(2) es(3) by (simp add: final_append del: append_assoc)
  moreover have "sy_trace s @ meaning ?g ?n (?xs @ es) = sy_posted s @ meaning None 0 es"
    using i(2,3) by (simp add: meaning_append del: append_assoc flip: append_assoc)
  moreover have "stop_last (sy_stopped s) (keepgoing (sy_th s)) (?xs @ es)"
    using i(7) st es(2) by (simp add: stop_last_def)
  moreover have "nof_samples q = of_nat (length (?xs @ es))" using q(2) i(1) by simp
  moreover have "p = Blocked \<longrightarrow> 0 < t" using p t i(4) by (auto simp: wake_def split: if_splits)
  moreover have "p \<noteq> Awake \<longleftrightarrow> sy_pc s \<noteq> Awake" "p = Exited \<longleftrightarrow> sy_pc s = Exited"
    using p by (auto simp: wake_def split: if_splits)
  ultimately show ?thesis using i(5,6,8,9) q(3) e unfolding dq_inv_def Let_def by (simp del: append_assoc)
qed

lemma enqueue_locked_sc:
  assumes "nn_dqueue_enqueue_locked q es = (q', b)"
  shows "dq_sc q' = dq_sc q @ es" "nof_samples q' = nof_samples q" "dq_thrst q' = dq_thrst q" "b \<longleftrightarrow> dq_sc q = []"
  using assms by (auto simp: nn_dqueue_enqueue_locked_def split: if_splits)

lemma rres_word:
  assumes "chain_ok sc rres"
  shows "(word_of_int rres :: u32) = of_nat (length sc)" "unat (word_of_int rres :: u32) = length sc"
    "sc \<noteq> []" "0 < rres"
  using assms by (auto simp: chain_ok_def unat_of_nat take_bit_nat_eq_self)

lemma no_stop_elements [simp]: "Bubble b \<notin> set (map Element es)"
  by auto

lemma client_step_inv:
  assumes inv: "dq_inv s" and st: "client_step s s'"
  shows "dq_inv s'"
  using st
proof cases
  case (enqueue sc rres q' b)
  note r = rres_word [OF enqueue(3)]
  from enqueue(4) r have e: "nn_dqueue_enqueue_locked (sy_q s\<lparr>nof_samples := nof_samples (sy_q s) + word_of_int rres\<rparr>)
      (map Element sc) = (q', b)" by (simp add: nn_dqueue_enqueue_def)
  note l = enqueue_locked_sc [OF e]
  have "dq_inv (s\<lparr>sy_q := q', sy_pc := wake b (sy_pc s), sy_triggers := sy_triggers s,
      sy_posted := sy_posted s @ meaning None 0 (map Element sc)\<rparr>)"
    by (rule inv_append [OF inv])
      (use enqueue(2) r l elements_for_all dq_invD(4) [OF inv] in \<open>auto simp: wake_def\<close>)
  then show ?thesis using enqueue(1) by (simp add: elements_for_all)
next
  case (deferred sc rres q' b)
  note r = rres_word [OF deferred(3)]
  from deferred(4) r have e: "nn_dqueue_enqueue_locked (sy_q s\<lparr>nof_samples := nof_samples (sy_q s) + word_of_int rres\<rparr>)
      (map Element sc) = (q', b)" by (simp add: nn_dqueue_enqueue_deferred_wakeup_def)
  note l = enqueue_locked_sc [OF e]
  have "dq_inv (s\<lparr>sy_q := q', sy_pc := sy_pc s, sy_triggers := sy_triggers s + (if b then 1 else 0),
      sy_posted := sy_posted s @ meaning None 0 (map Element sc)\<rparr>)"
    by (rule inv_append [OF inv]) (use deferred(2) r l elements_for_all in auto)
  then show ?thesis using deferred(1) by (simp add: elements_for_all)
next
  case (trigger q' b)
  then show ?thesis using dq_invD [OF inv]
    by (auto simp: dd_dqueue_enqueue_trigger_def dq_inv_def Let_def wake_def)
next
  case (enqueue1 sc rres g q' b)
  note r = rres_word [OF enqueue1(3)]
  let ?es = "Bubble (NN_DQBK_RDGUID g (word_of_int rres)) # map Element sc"
  obtain q2 b2 where e: "nn_dqueue_enqueue_locked (sy_q s\<lparr>nof_samples := nof_samples (sy_q s) + (1 + word_of_int rres)\<rparr>)
      [Bubble (NN_DQBK_RDGUID g (word_of_int rres))] = (q2, b)"
    "nn_dqueue_enqueue_locked q2 (map Element sc) = (q', b2)"
    using enqueue1(4) r by (auto simp: nn_dqueue_enqueue1_def nn_dqueue_enqueue_bubble_locked_def Let_def split: prod.splits)
  note l = enqueue_locked_sc [OF e(1)] enqueue_locked_sc [OF e(2)]
  have m: "meaning None 0 ?es = events (Some g) sc" "final None 0 ?es = (None, 0)"
    using elements_for_one [OF r(3), of g] r(2) by simp_all
  have "dq_inv (s\<lparr>sy_q := q', sy_pc := wake b (sy_pc s), sy_triggers := sy_triggers s,
      sy_posted := sy_posted s @ meaning None 0 ?es\<rparr>)"
    by (rule inv_append [OF inv])
      (use enqueue1(2) r(1) l m dq_invD(4) [OF inv] in \<open>auto simp: wake_def\<close>)
  then show ?thesis using enqueue1(1) m by simp
next
  case (callback cb q' b)
  have e: "nn_dqueue_enqueue_locked (sy_q s\<lparr>nof_samples := nof_samples (sy_q s) + 1\<rparr>)
      [Bubble (NN_DQBK_CALLBACK cb)] = (q', b)"
    using callback(3) by (simp add: nn_dqueue_enqueue_callback_def nn_dqueue_enqueue_bubble_def nn_dqueue_enqueue_bubble_locked_def)
  note l = enqueue_locked_sc [OF e]
  have "dq_inv (s\<lparr>sy_q := q', sy_pc := wake b (sy_pc s), sy_triggers := sy_triggers s,
      sy_posted := sy_posted s @ meaning None 0 [Bubble (NN_DQBK_CALLBACK cb)]\<rparr>)"
    by (rule inv_append [OF inv])
      (use callback(2) l dq_invD(4) [OF inv] in \<open>auto simp: wake_def\<close>)
  then show ?thesis using callback(1) by simp
next
  case (wait w)
  then show ?thesis using dq_invD [OF inv] by (auto simp: dq_inv_def Let_def wake_def)
next
  case (free R q' b R')
  note i = dq_invD [OF inv]
  have e: "nn_dqueue_enqueue_locked (sy_q s\<lparr>nof_samples := nof_samples (sy_q s) + 1\<rparr>) [Bubble NN_DQBK_STOP] = (q', b)"
    using free(3) i(6) by (simp add: nn_dqueue_free_def nn_dqueue_enqueue_bubble_def nn_dqueue_enqueue_bubble_locked_def
        split: prod.splits)
  note l = enqueue_locked_sc [OF e]
  let ?xs = "th_sc (sy_th s) @ dq_sc (sy_q s)"
  have c: "th_sc (sy_th s) @ dq_sc q' = ?xs @ [Bubble NN_DQBK_STOP]" using l(1) by simp
  have "stop_last True (keepgoing (sy_th s)) (?xs @ [Bubble NN_DQBK_STOP])"
    using i(7) free(2) by (auto simp: stop_last_def)
  moreover have "final (prdguid (sy_th s)) (unat (rdguid_count (sy_th s))) (?xs @ [Bubble NN_DQBK_STOP]) = (None, 0)"
    using i(2) by (simp add: final_append del: append_assoc)
  moreover have "meaning (prdguid (sy_th s)) (unat (rdguid_count (sy_th s))) (?xs @ [Bubble NN_DQBK_STOP]) =
      meaning (prdguid (sy_th s)) (unat (rdguid_count (sy_th s))) ?xs"
    using i(2) by (simp add: meaning_append del: append_assoc)
  moreover have "wake b (sy_pc s) = Blocked \<longrightarrow> 0 < sy_triggers s" using l(4) i(4) by (auto simp: wake_def split: if_splits)
  moreover have "wake b (sy_pc s) \<noteq> Awake \<longleftrightarrow> sy_pc s \<noteq> Awake" "wake b (sy_pc s) = Exited \<longleftrightarrow> sy_pc s = Exited"
    by (auto simp: wake_def)
  ultimately show ?thesis using i(1,3,5,6,8,9) l(2,3) unfolding free(1) dq_inv_def Let_def
    by (simp add: c del: append_assoc)
qed

text \<open>The thread.\<close>

lemma handle_spec:
  assumes h: "\<forall>i fs g. handler i fs g = 0" and cov: "\<And>m. held_in m (frags_of [e]) \<le> R m"
  shows "\<exists>th' R' ev. dqueue_handle handler th R e = Some (th', R', ev) \<and> th_sc th' = th_sc th \<and>
    (\<forall>m. R' m + held_in m (frags_of [e]) = R m) \<and>
    (\<forall>es. meaning (prdguid th) (unat (rdguid_count th)) (e # es) = ev @ meaning (prdguid th') (unat (rdguid_count th')) es) \<and>
    (\<forall>es. final (prdguid th) (unat (rdguid_count th)) (e # es) = final (prdguid th') (unat (rdguid_count th')) es) \<and>
    keepgoing th' = (keepgoing th \<and> e \<noteq> Bubble NN_DQBK_STOP)"
proof (cases e)
  case (Bubble b)
  then show ?thesis by (cases b) (simp_all add: dqueue_handle_def frags_of_def)
next
  case (Element s)
  have "\<And>m. held_in m (sce_fragchain s) \<le> R m" using cov Element by (simp add: frags_of_def)
  from unref [OF this] obtain R' where R': "nn_fragchain_unref R (sce_fragchain s) = Some R'"
    "\<forall>m. R' m + held_in m (sce_fragchain s) = R m" by blast
  let ?n = "rdguid_count th"
  have n: "unat (?n - 1) = unat ?n - 1" "0 < unat ?n \<longleftrightarrow> 0 < ?n" "?n - 1 = 0 \<longleftrightarrow> unat ?n = 1" if "0 < ?n"
  proof -
    have "1 \<le> ?n" using that by (simp add: word_le_nat_alt word_less_nat_alt)
    then show "unat (?n - 1) = unat ?n - 1" by (simp add: unat_sub)
    show "0 < unat ?n \<longleftrightarrow> 0 < ?n" by (simp add: word_less_nat_alt)
    show "?n - 1 = 0 \<longleftrightarrow> unat ?n = 1" by (metis diff_eq_eq add_0 unat_1 word_unat_eq_iff)
  qed
  show ?thesis
  proof (cases "0 < ?n")
    case True
    then show ?thesis using Element h R' n [OF True]
      by (cases "sce_sampleinfo s") (simp_all add: dqueue_handle_def frags_of_def after_elem_def)
  next
    case False
    then have "unat ?n = 0" by (simp add: word_less_nat_alt)
    then show ?thesis using Element h R' False
      by (cases "sce_sampleinfo s") (simp_all add: dqueue_handle_def frags_of_def after_elem_def)
  qed
qed

lemma frags_of_simps [simp]:
  "frags_of [] = []" "frags_of (Element x # es) = sce_fragchain x @ frags_of es" "frags_of (Bubble b # es) = frags_of es"
  "frags_of (es @ fs) = frags_of es @ frags_of fs"
  by (simp_all add: frags_of_def)

lemma frags_of_Cons: "held_in m (frags_of (e # es)) = held_in m (frags_of [e]) + held_in m (frags_of es)"
  by (cases e) simp_all

lemma next_spec:
  assumes h: "\<forall>i fs g. handler i fs g = 0" and inv: "dq_inv s" and a: "sy_pc s = Awake" and ne: "th_sc (sy_th s) \<noteq> []"
    and cov: "dq_cover s R"
  shows "\<exists>q' th' R' ev b. dqueue_next handler (sy_q s) (sy_th s) R = Some (q', th', R', ev, b) \<and>
    dq_inv (s\<lparr>sy_q := q', sy_th := th', sy_trace := sy_trace s @ ev\<rparr>) \<and>
    dq_sc q' = dq_sc (sy_q s) \<and> th_sc th' = tl (th_sc (sy_th s)) \<and>
    (\<forall>m. R' m + held_in m (frags_of [hd (th_sc (sy_th s))]) = R m)"
proof -
  note i = dq_invD [OF inv]
  obtain e es where es: "th_sc (sy_th s) = e # es" using ne by (cases "th_sc (sy_th s)") auto
  have c: "\<And>m. held_in m (frags_of [e]) \<le> R m"
    using cov es frags_of_Cons [of _ e "es @ dq_sc (sy_q s)"] unfolding dq_cover_def
    by (metis append_Cons add_leD1)
  let ?th = "sy_th s\<lparr>th_sc := es\<rparr>"
  obtain th' R' ev where t: "dqueue_handle handler ?th R e = Some (th', R', ev)" "th_sc th' = es"
    "\<forall>m. R' m + held_in m (frags_of [e]) = R m"
    "\<forall>es. meaning (prdguid ?th) (unat (rdguid_count ?th)) (e # es) = ev @ meaning (prdguid th') (unat (rdguid_count th')) es"
    "\<forall>es. final (prdguid ?th) (unat (rdguid_count ?th)) (e # es) = final (prdguid th') (unat (rdguid_count th')) es"
    "keepgoing th' = (keepgoing (sy_th s) \<and> e \<noteq> Bubble NN_DQBK_STOP)"
    using handle_spec [OF h c, of ?th] by auto
  let ?q = "sy_q s\<lparr>nof_samples := nof_samples (sy_q s) - 1\<rparr>"
  let ?s = "s\<lparr>sy_q := ?q, sy_th := th', sy_trace := sy_trace s @ ev\<rparr>"
  have "stop_last (sy_stopped s) (keepgoing th') (es @ dq_sc (sy_q s))"
    using i(7) es t(6) by (auto simp: stop_last_def Cons_eq_append_conv split: if_splits)
  moreover have "nof_samples ?q = of_nat (length (es @ dq_sc (sy_q s)))" using i(1) es by simp
  moreover have "final (prdguid th') (unat (rdguid_count th')) (es @ dq_sc (sy_q s)) = (None, 0)"
    using i(2) t(5) es by simp
  moreover have "(sy_trace s @ ev) @ meaning (prdguid th') (unat (rdguid_count th')) (es @ dq_sc (sy_q s)) = sy_posted s"
    using i(3) t(4) es by simp
  ultimately have "dq_inv ?s" using i(6) a t(2) unfolding dq_inv_def Let_def by simp
  with t es show ?thesis by (auto simp: dqueue_next_def)
qed

lemma thread_step_inv:
  assumes h: "\<forall>i fs g. h i fs g = 0" and inv: "dq_inv s" and st: "thread_step h s s'"
  shows "dq_inv s'"
  using st
proof cases
  case wait
  then show ?thesis using dq_invD [OF inv] by (auto simp: dq_inv_def Let_def)
next
  case (take q' th')
  then show ?thesis using dq_invD [OF inv] by (auto simp: dq_inv_def Let_def dqueue_take_def)
next
  case spurious
  then show ?thesis using dq_invD [OF inv] by (auto simp: dq_inv_def Let_def)
next
  case (next_elem R q' th' R' ev b)
  have "th_sc (sy_th s) \<noteq> []" using next_elem(4) by (auto simp: dqueue_next_def)
  from next_spec [OF h inv next_elem(2) this next_elem(3)] next_elem(1,4) show ?thesis by auto
next
  case again
  then show ?thesis using dq_invD [OF inv] by (auto simp: dq_inv_def Let_def)
qed

lemma dq_reach_inv:
  assumes h: "\<forall>i fs g. h i fs g = 0"
  shows "dq_reach h s \<Longrightarrow> dq_inv s"
proof (induction rule: dq_reach.induct)
  case (init mx)
  show ?case
    by (simp add: dq_init_def dq_inv_def nn_dqueue_start_def nn_dqueue_new_def dqueue_thread_init_def stop_last_def)
next
  case (client s s')
  then show ?case using client_step_inv by blast
next
  case (thread s s')
  then show ?case using thread_step_inv [OF h] by blast
qed

end
