(* ===== verification/Dqueue_Properties.thy ===== *)
theory Dqueue_Properties
  imports Dqueue
begin

text \<open>
  The properties of the delivery queue: what is put in is done, in order, for the readers it is for;
  no wake-up is lost; and stopping the thread drains the queue.
\<close>

section \<open>The thread empties the queue\<close>

abbreviation thread_steps :: "dq_handler \<Rightarrow> dq_system \<Rightarrow> dq_system \<Rightarrow> bool" where
  "thread_steps h \<equiv> (thread_step h)\<^sup>*\<^sup>*"

definition idle :: "dq_system \<Rightarrow> bool" where
  "idle s \<longleftrightarrow> th_sc (sy_th s) = [] \<and> dq_sc (sy_q s) = []"

lemma idle_done: "dq_inv s \<Longrightarrow> idle s \<Longrightarrow> sy_trace s = sy_posted s"
  using dq_invD(3) [of s] by (simp add: idle_def)

lemma some_cover: "\<exists>R. dq_cover s R"
  by (rule exI [of _ "\<lambda>m. held_in m (frags_of (th_sc (sy_th s) @ dq_sc (sy_q s)))"]) (simp add: dq_cover_def)

lemma drain_local:
  assumes h: "\<forall>i fs g. h i fs g = 0"
  shows "dq_inv s \<Longrightarrow> sy_pc s = Awake \<Longrightarrow>
    \<exists>s'. thread_steps h s s' \<and> dq_inv s' \<and> sy_pc s' = Awake \<and> th_sc (sy_th s') = [] \<and>
      dq_sc (sy_q s') = dq_sc (sy_q s) \<and> sy_posted s' = sy_posted s"
proof (induction "length (th_sc (sy_th s))" arbitrary: s)
  case 0
  then show ?case by auto
next
  case (Suc n)
  have ne: "th_sc (sy_th s) \<noteq> []" using Suc.hyps(2) by auto
  obtain R where R: "dq_cover s R" using some_cover by blast
  obtain q' th' R' ev b where n: "dqueue_next h (sy_q s) (sy_th s) R = Some (q', th', R', ev, b)"
    "dq_inv (s\<lparr>sy_q := q', sy_th := th', sy_trace := sy_trace s @ ev\<rparr>)"
    "dq_sc q' = dq_sc (sy_q s)" "th_sc th' = tl (th_sc (sy_th s))"
    using next_spec [OF h Suc.prems ne R] by blast
  let ?t = "s\<lparr>sy_q := q', sy_th := th', sy_trace := sy_trace s @ ev\<rparr>"
  have "thread_step h s ?t" by (rule thread_step.next_elem [OF Suc.prems(2) R n(1)])
  moreover have "n = length (th_sc (sy_th ?t))" using Suc.hyps(2) n(4) by simp
  from Suc.hyps(1) [OF this n(2)] Suc.prems(2) obtain s' where
    "thread_steps h ?t s'" "dq_inv s'" "sy_pc s' = Awake" "th_sc (sy_th s') = []"
    "dq_sc (sy_q s') = dq_sc (sy_q s)" "sy_posted s' = sy_posted s" using n(3) by auto
  ultimately show ?case by (meson converse_rtranclp_into_rtranclp)
qed

lemma take_and_drain:
  assumes h: "\<forall>i fs g. h i fs g = 0" and inv: "dq_inv s"
    and pc: "sy_pc s = At_lock \<and> dq_sc (sy_q s) \<noteq> [] \<or> sy_pc s = Woken"
  shows "\<exists>s'. thread_steps h s s' \<and> dq_inv s' \<and> idle s' \<and> sy_posted s' = sy_posted s"
proof -
  obtain q' th' where t: "dqueue_take (sy_q s) (sy_th s) = (q', th')" by fastforce
  let ?t = "s\<lparr>sy_q := q', sy_th := th', sy_pc := Awake\<rparr>"
  have st: "thread_step h s ?t" by (rule thread_step.take [OF pc t])
  have "dq_inv ?t" by (rule thread_step_inv [OF h inv st])
  from drain_local [OF h this] obtain s' where "thread_steps h ?t s'" "dq_inv s'" "th_sc (sy_th s') = []"
    "dq_sc (sy_q s') = dq_sc q'" "sy_posted s' = sy_posted s" by auto
  moreover have "dq_sc q' = []" using t by (auto simp: dqueue_take_def)
  ultimately show ?thesis using converse_rtranclp_into_rtranclp [of "thread_step h", OF st] by (auto simp: idle_def)
qed

lemma drain:
  assumes h: "\<forall>i fs g. h i fs g = 0" and inv: "dq_inv s" and t0: "sy_triggers s = 0"
  shows "\<exists>s'. thread_steps h s s' \<and> dq_inv s' \<and> idle s' \<and> sy_posted s' = sy_posted s"
proof (cases "idle s")
  case True
  with inv show ?thesis by auto
next
  case False
  note i = dq_invD [OF inv]
  show ?thesis
  proof (cases "sy_pc s")
    case At_lock
    then have "dq_sc (sy_q s) \<noteq> []" using False i(5) by (simp add: idle_def)
    with take_and_drain [OF h inv] At_lock show ?thesis by blast
  next
    case Blocked
    then have "idle s" using i(4,5) t0 by (simp add: idle_def)
    with False show ?thesis by blast
  next
    case Woken
    with take_and_drain [OF h inv] show ?thesis by blast
  next
    case Exited
    then have "idle s" using i(7,8) by (simp add: idle_def stop_last_def split: if_splits)
    with False show ?thesis by blast
  next
    case Awake
    obtain s1 where s1: "thread_steps h s s1" "dq_inv s1" "sy_pc s1 = Awake" "th_sc (sy_th s1) = []"
      "sy_posted s1 = sy_posted s" using drain_local [OF h inv Awake] by blast
    show ?thesis
    proof (cases "dq_sc (sy_q s1) = []")
      case True
      with s1 show ?thesis by (auto simp: idle_def)
    next
      case ne: False
      let ?t = "s1\<lparr>sy_pc := (if keepgoing (sy_th s1) then At_lock else Exited)\<rparr>"
      have k: "keepgoing (sy_th s1)" using ne dq_invD(7) [OF s1(2)] by (auto simp: stop_last_def split: if_splits)
      have st: "thread_step h s1 ?t" by (rule thread_step.again [OF s1(3,4)])
      have "dq_inv ?t" by (rule thread_step_inv [OF h s1(2) st])
      from take_and_drain [OF h this] k ne obtain s' where
        s': "thread_steps h ?t s'" "dq_inv s'" "idle s'" "sy_posted s' = sy_posted s1" by auto
      have "thread_steps h s s'" using s1(1) st s'(1) by (meson rtranclp.rtrancl_into_rtrancl rtranclp_trans)
      with s' s1(5) show ?thesis by auto
    qed
  qed
qed

section \<open>An example\<close>

definition dq_elem_of :: "seqno \<Rightarrow> rsample_chain_elem" where
  "dq_elem_of q = \<lparr>sce_fragchain = [\<lparr>rd_rmsg = q, rd_min = 0, rd_maxp1 = 10\<rparr>],
     sce_sampleinfo = Some \<lparr>si_seq = q, si_dst = 0, si_size = 10, si_fragsize = 10, si_timestamp = 0, si_statusinfo = 0\<rparr>\<rparr>"

definition h0 :: dq_handler where
  "h0 i fs g = 0"

lemma h0_ok: "\<forall>i fs g. h0 i fs g = 0"
  by (simp add: h0_def)

text \<open>Two samples for all readers, then one for reader 7, enqueued while the thread sleeps.\<close>

definition dq_ex :: dq_system where
  "dq_ex = (let s0 = (dq_init 4)\<lparr>sy_pc := Blocked\<rparr>;
     (q1, b1) = the (nn_dqueue_enqueue (sy_q s0) [dq_elem_of 1, dq_elem_of 2] 2);
     s1 = s0\<lparr>sy_q := q1, sy_pc := wake b1 (sy_pc s0), sy_posted := sy_posted s0 @ events None [dq_elem_of 1, dq_elem_of 2]\<rparr>;
     (q2, b2) = the (nn_dqueue_enqueue1 (sy_q s1) 7 [dq_elem_of 3] 1)
   in s1\<lparr>sy_q := q2, sy_pc := wake b2 (sy_pc s1), sy_posted := sy_posted s1 @ events (Some 7) [dq_elem_of 3]\<rparr>)"

lemma dq_ex_reach: "dq_reach h dq_ex"
proof -
  let ?s0 = "(dq_init 4)\<lparr>sy_pc := Blocked\<rparr>"
  have s0: "dq_reach h ?s0"
    by (rule dq_reach.thread [OF dq_reach.init [of h 4]], rule thread_step.wait)
      (simp_all add: dq_init_def nn_dqueue_start_def nn_dqueue_new_def)
  obtain q1 b1 where e1: "nn_dqueue_enqueue (sy_q ?s0) [dq_elem_of 1, dq_elem_of 2] 2 = Some (q1, b1)"
    by (simp add: nn_dqueue_enqueue_def) (metis surj_pair)
  let ?s1 = "?s0\<lparr>sy_q := q1, sy_pc := wake b1 (sy_pc ?s0), sy_posted := sy_posted ?s0 @ events None [dq_elem_of 1, dq_elem_of 2]\<rparr>"
  have s1: "dq_reach h ?s1"
    by (rule dq_reach.client [OF s0], rule client_step.enqueue [OF _ _ e1]) (simp_all add: chain_ok_def dq_init_def)
  obtain q2 b2 where e2: "nn_dqueue_enqueue1 (sy_q ?s1) 7 [dq_elem_of 3] 1 = Some (q2, b2)"
    by (simp add: nn_dqueue_enqueue1_def Let_def) (metis (no_types, lifting) case_prod_conv surj_pair)
  let ?s2 = "?s1\<lparr>sy_q := q2, sy_pc := wake b2 (sy_pc ?s1), sy_posted := sy_posted ?s1 @ events (Some 7) [dq_elem_of 3]\<rparr>"
  have "dq_reach h ?s2"
    by (rule dq_reach.client [OF s1], rule client_step.enqueue1 [OF _ _ e2]) (simp_all add: chain_ok_def dq_init_def)
  moreover have "dq_ex = ?s2" using e1 e2 by (simp add: dq_ex_def Let_def)
  ultimately show ?thesis by simp
qed

lemma dq_ex_facts: "sy_pc dq_ex = Woken" "length (dq_sc (sy_q dq_ex)) = 4" "sy_triggers dq_ex = 0"
  "map (\<lambda>e. case e of Handled i _ g \<Rightarrow> (si_seq i, g) | Called _ \<Rightarrow> (0, None)) (sy_posted dq_ex) = [(1, None), (2, None), (3, Some 7)]"
  by code_simp+

section \<open>The properties\<close>

text \<open>
  C19. However the thread and those that enqueue are interleaved, the calls of the handler and the callbacks
  that have been made are a beginning of those that have been posted, in the order in which they
  were posted, the samples of \<open>nn_dqueue_enqueue1\<close> for the one reader and the others for all; the rest is
  still in the queue, and \<open>nof_samples\<close> counts what is.
\<close>

theorem dqueue_delivers_in_order:
  assumes "dq_reach h s" "\<forall>i fs g. h i fs g = 0"
  shows "sy_posted s = sy_trace s @ meaning (prdguid (sy_th s)) (unat (rdguid_count (sy_th s))) (th_sc (sy_th s) @ dq_sc (sy_q s)) \<and>
    nof_samples (sy_q s) = of_nat (length (th_sc (sy_th s) @ dq_sc (sy_q s)))"
  using dq_invD(1,3) [OF dq_reach_inv [OF assms(2,1)]] by simp

theorem dqueue_delivers_in_order_witness:
  "sy_posted dq_ex = sy_trace dq_ex @ meaning (prdguid (sy_th dq_ex)) (unat (rdguid_count (sy_th dq_ex)))
      (th_sc (sy_th dq_ex) @ dq_sc (sy_q dq_ex)) \<and>
   length (sy_posted dq_ex) = 3"
  using dqueue_delivers_in_order [OF dq_ex_reach h0_ok] arg_cong [OF dq_ex_facts(4), of length] by simp

text \<open>
  C31. The thread handles its next element from any reachable state without a failing assertion, given that
  the handler returns 0 and that each fragment queued has its reference, and gives up just the
  references of that element.
\<close>

theorem dqueue_thread_never_fails:
  assumes "dq_reach h s" "\<forall>i fs g. h i fs g = 0" "sy_pc s = Awake" "th_sc (sy_th s) \<noteq> []" "dq_cover s R"
  shows "\<exists>q' th' R' ev b. dqueue_next h (sy_q s) (sy_th s) R = Some (q', th', R', ev, b) \<and>
    dq_reach h (s\<lparr>sy_q := q', sy_th := th', sy_trace := sy_trace s @ ev\<rparr>) \<and>
    th_sc th' = tl (th_sc (sy_th s)) \<and> (\<forall>m. R' m + held_in m (frags_of [hd (th_sc (sy_th s))]) = R m)"
proof -
  obtain q' th' R' ev b where n: "dqueue_next h (sy_q s) (sy_th s) R = Some (q', th', R', ev, b)"
    "th_sc th' = tl (th_sc (sy_th s))" "\<forall>m. R' m + held_in m (frags_of [hd (th_sc (sy_th s))]) = R m"
    using next_spec [OF assms(2) dq_reach_inv [OF assms(2,1)] assms(3-5)] by blast
  have "dq_reach h (s\<lparr>sy_q := q', sy_th := th', sy_trace := sy_trace s @ ev\<rparr>)"
    by (rule dq_reach.thread [OF assms(1)], rule thread_step.next_elem [OF assms(3,5) n(1)])
  with n show ?thesis by blast
qed

theorem dqueue_thread_never_fails_witness:
  "\<exists>(s :: dq_system) R q' th' R' ev b. sy_pc s = Awake \<and> dqueue_next h0 (sy_q s) (sy_th s) R = Some (q', th', R', ev, b) \<and> length (th_sc th') = 3"
proof -
  obtain q' th' where t: "dqueue_take (sy_q dq_ex) (sy_th dq_ex) = (q', th')" by fastforce
  let ?s = "dq_ex\<lparr>sy_q := q', sy_th := th', sy_pc := Awake\<rparr>"
  have r: "dq_reach h0 ?s"
    by (rule dq_reach.thread [OF dq_ex_reach], rule thread_step.take [OF _ t]) (simp add: dq_ex_facts)
  have len: "length (th_sc (sy_th ?s)) = 4" using t dq_ex_facts(2) by (auto simp: dqueue_take_def)
  then have ne: "th_sc (sy_th ?s) \<noteq> []" by auto
  obtain R where R: "dq_cover ?s R" using some_cover by blast
  have a: "sy_pc ?s = Awake" by simp
  obtain q'' th'' R' ev b where "dqueue_next h0 (sy_q ?s) (sy_th ?s) R = Some (q'', th'', R', ev, b)"
    "th_sc th'' = tl (th_sc (sy_th ?s))"
    using dqueue_thread_never_fails [OF r h0_ok a ne R] by blast
  moreover from this(2) have "length (th_sc th'') = 3" using len by simp
  ultimately show ?thesis using a by blast
qed

text \<open>
  C21. No wake-up is lost: unless a wake-up has been deferred and not yet given, the thread does not sleep
  while something is queued, and from any reachable state the steps of the thread alone lead to
  one in which the queue is empty and everything posted has been done.
\<close>

theorem everything_posted_is_done:
  assumes "dq_reach h s" "\<forall>i fs g. h i fs g = 0" "sy_triggers s = 0"
  shows "(sy_pc s = Blocked \<longrightarrow> dq_sc (sy_q s) = []) \<and>
    (\<exists>s'. (thread_step h)\<^sup>*\<^sup>* s s' \<and> sy_trace s' = sy_posted s \<and> dq_sc (sy_q s') = [] \<and> th_sc (sy_th s') = [])"
proof -
  note inv = dq_reach_inv [OF assms(2,1)]
  obtain s' where "thread_steps h s s'" "dq_inv s'" "idle s'" "sy_posted s' = sy_posted s"
    using drain [OF assms(2) inv assms(3)] by blast
  with idle_done [of s'] dq_invD(4) [OF inv] assms(3) show ?thesis by (auto simp: idle_def)
qed

theorem everything_posted_is_done_witness:
  "\<exists>s'. (thread_step h0)\<^sup>*\<^sup>* dq_ex s' \<and> sy_trace s' = sy_posted dq_ex \<and> length (sy_posted dq_ex) = 3"
  using everything_posted_is_done [OF dq_ex_reach h0_ok dq_ex_facts(3)] arg_cong [OF dq_ex_facts(4), of length] by auto

text \<open>
  C32. When the thread has ended, \<open>nn_dqueue_free\<close> had been called, its assertion that the queue is
  empty holds, and everything that was posted before has been done.
\<close>

theorem nn_dqueue_free_drains:
  assumes "dq_reach h s" "\<forall>i fs g. h i fs g = 0" "sy_pc s = Exited"
  shows "sy_stopped s \<and> dqueue_joined (sy_q s) = Some () \<and> sy_trace s = sy_posted s"
proof -
  note inv = dq_reach_inv [OF assms(2,1)]
  have e: "\<not> keepgoing (sy_th s)" using dq_invD(8) [OF inv] assms(3) by simp
  with dq_invD(7) [OF inv] have "sy_stopped s" "idle s" by (auto simp: stop_last_def idle_def split: if_splits)
  with idle_done [OF inv] show ?thesis by (simp add: dqueue_joined_def idle_def)
qed

lemma stop_run: "\<exists>s. dq_reach h0 s \<and> sy_pc s = Exited"
proof -
  let ?s0 = "dq_init 4"
  obtain q1 b1 where e1: "nn_dqueue_free (sy_q ?s0) (\<lambda>_. 0) = Some (q1, b1, \<lambda>_. 0)" "dq_sc q1 = [Bubble NN_DQBK_STOP]"
    by (simp add: nn_dqueue_free_def dq_init_def nn_dqueue_start_def nn_dqueue_new_def nn_dqueue_enqueue_bubble_def
        nn_dqueue_enqueue_bubble_locked_def nn_dqueue_enqueue_locked_def)
  let ?s1 = "?s0\<lparr>sy_q := q1, sy_pc := wake b1 (sy_pc ?s0), sy_stopped := True\<rparr>"
  have s1: "dq_reach h0 ?s1"
    by (rule dq_reach.client [OF dq_reach.init], rule client_step.free [OF _ e1(1)]) (simp add: dq_init_def)
  obtain q2 t2 where t: "dqueue_take q1 (sy_th ?s1) = (q2, t2)" "th_sc t2 = [Bubble NN_DQBK_STOP]" "dq_sc q2 = []"
    using e1(2) by (simp add: dqueue_take_def)
  let ?s2 = "?s1\<lparr>sy_q := q2, sy_th := t2, sy_pc := Awake\<rparr>"
  have "thread_step h0 ?s1 ?s2"
    by (rule thread_step.take) (use e1(2) t(1) in \<open>auto simp: dq_init_def wake_def\<close>)
  then have s2: "dq_reach h0 ?s2" by (rule dq_reach.thread [OF s1])
  obtain q3 t3 b where n: "dqueue_next h0 q2 t2 (\<lambda>_. 0) = Some (q3, t3, \<lambda>_. 0, [], b)" "th_sc t3 = []" "\<not> keepgoing t3"
    using t(2) by (simp add: dqueue_next_def dqueue_handle_def)
  let ?s3 = "?s2\<lparr>sy_q := q3, sy_th := t3, sy_trace := sy_trace ?s2 @ []\<rparr>"
  have "thread_step h0 ?s2 ?s3"
    by (rule thread_step.next_elem [where R = "\<lambda>_. 0"]) (use n(1) t(2,3) in \<open>auto simp: dq_cover_def\<close>)
  then have s3: "dq_reach h0 ?s3" by (rule dq_reach.thread [OF s2])
  have "thread_step h0 ?s3 (?s3\<lparr>sy_pc := (if keepgoing (sy_th ?s3) then At_lock else Exited)\<rparr>)"
    by (rule thread_step.again) (use n(2) in simp_all)
  from dq_reach.thread [OF s3 this] n(3) show ?thesis by fastforce
qed

theorem nn_dqueue_free_drains_witness:
  "\<exists>s :: dq_system. sy_pc s = Exited \<and> sy_stopped s \<and> dqueue_joined (sy_q s) = Some () \<and> sy_trace s = sy_posted s"
  using nn_dqueue_free_drains [OF _ h0_ok] stop_run by blast

end
