(* ===== verification/Delivery.thy ===== *)
theory Delivery
  imports Reorder_Complete Dqueue_Properties Reorder_Properties
begin

text \<open>
  The two together: the reorder administration of a proxy writer, whose output
  \<open>handle_regular\<close> and \<open>handle_one_gap\<close> (\<open>src/core/ddsi/src/q_receive.c\<close>) put into the delivery
  queue under the lock of the proxy writer, and the delivery thread.
\<close>

section \<open>Runs\<close>

definition posted :: "dq_system \<Rightarrow> nn_dqueue \<Rightarrow> bool \<Rightarrow> rsample_chain_elem list \<Rightarrow> dq_system" where
  "posted s q' b sc = s\<lparr>sy_q := q', sy_triggers := sy_triggers s + (if b then 1 else 0),
     sy_posted := sy_posted s @ events None sc\<rparr>"

inductive delivery ::
  "dq_handler \<Rightarrow> nn_reorder \<Rightarrow> rsample_chain_elem list \<Rightarrow> seqno set \<Rightarrow> dq_system \<Rightarrow> bool" for h where
  start: "maxs < 2 ^ 31 - 1 \<Longrightarrow>
    delivery h (nn_reorder_new NN_REORDER_MODE_NORMAL maxs late) [] {} (dq_init mx)"
| sample: "delivery h r D G s \<Longrightarrow> refs_cover r R \<Longrightarrow> sample_in x \<Longrightarrow> span r \<Longrightarrow>
    nn_reorder_rsample r R x full = Some (c, sc, r', R', adj) \<Longrightarrow> c \<le> 0 \<Longrightarrow> delivery h r' (D @ sc) G s"
| sample_out: "delivery h r D G s \<Longrightarrow> refs_cover r R \<Longrightarrow> sample_in x \<Longrightarrow> span r \<Longrightarrow>
    nn_reorder_rsample r R x full = Some (c, sc, r', R', adj) \<Longrightarrow> 0 < c \<Longrightarrow>
    nn_dqueue_enqueue_deferred_wakeup (sy_q s) sc c = Some (q', b) \<Longrightarrow> delivery h r' (D @ sc) G (posted s q' b sc)"
| gap: "delivery h r D G s \<Longrightarrow> refs_cover r R \<Longrightarrow> mn < hi \<Longrightarrow>
    nn_reorder_gap r R d mn hi = Some (c, sc, r', R', adj) \<Longrightarrow> c \<le> 0 \<Longrightarrow>
    delivery h r' (D @ sc) (G \<union> {mn..<hi}) s"
| gap_out: "delivery h r D G s \<Longrightarrow> refs_cover r R \<Longrightarrow> mn < hi \<Longrightarrow>
    nn_reorder_gap r R d mn hi = Some (c, sc, r', R', adj) \<Longrightarrow> 0 < c \<Longrightarrow>
    nn_dqueue_enqueue_deferred_wakeup (sy_q s) sc c = Some (q', b) \<Longrightarrow>
    delivery h r' (D @ sc) (G \<union> {mn..<hi}) (posted s q' b sc)"
| trigger: "delivery h r D G s \<Longrightarrow> 0 < sy_triggers s \<Longrightarrow> dd_dqueue_enqueue_trigger (sy_q s) = (q', b) \<Longrightarrow>
    delivery h r D G (s\<lparr>sy_q := q', sy_triggers := sy_triggers s - 1, sy_pc := wake b (sy_pc s)\<rparr>)"
| thread: "delivery h r D G s \<Longrightarrow> thread_step h s s' \<Longrightarrow> delivery h r D G s'"

text \<open>What the reorder administration returns is a chain that the queue accepts.\<close>

lemma sent_chain:
  assumes "reorder_ok r" "outcome r R x full (c, sc, r', R', adj)" "sample_in x"
  shows "c \<le> 0 \<and> sc = [] \<or> 0 < c \<and> c = int (length sc) \<and> length sc \<le> ro_max_samples r + 1"
proof -
  have n: "length (chains (ivs_of r)) \<le> ro_max_samples r" using assms(1) by (simp add: reorder_ok_def)
  consider "refused r R x full (c, sc, r', R', adj)" | "sent r R x (c, sc, r', R', adj)"
    | "kept_sample r R x (c, sc, r', R', adj)"
    using assms(2) by (auto simp: outcome_def)
  then show ?thesis
  proof cases
    case 1
    then show ?thesis by (auto simp: refused_def)
  next
    case 2
    then obtain us vs where "ivs_of r = us @ vs" "c = int (length sc)" "sc = rs_sc x @ chains us"
      unfolding sent_def prod.case by blast
    moreover have "length (rs_sc x) = 1" using assms(3) by (auto simp: sample_in_def)
    ultimately show ?thesis using n by simp
  next
    case 3
    then show ?thesis by (auto simp: kept_sample_def NN_REORDER_ACCEPT_def)
  qed
qed

lemma gap_chain:
  assumes "reorder_ok r" "gap_outcome r R d mn hi (c, sc, r', R', adj)"
  shows "sc = [] \<and> c \<le> 0 \<or> c = int (length sc) \<and> length sc \<le> ro_max_samples r + 1"
proof -
  have n: "length (chains (ivs_of r)) \<le> ro_max_samples r" using assms(1) by (simp add: reorder_ok_def)
  consider "gap_ignored r R mn hi (c, sc, r', R', adj)" | "gap_passed r R mn hi (c, sc, r', R', adj)"
    | "gap_merged r R mn hi (c, sc, r', R', adj)" | "gap_stored r R d mn hi (c, sc, r', R', adj)"
    using assms(2) unfolding gap_outcome_def by blast
  then show ?thesis
  proof cases
    case 1
    then show ?thesis by (auto simp: gap_ignored_def NN_REORDER_TOO_OLD_def NN_REORDER_REJECT_def)
  next
    case 2
    then obtain ts bs where "touching mn hi (ivs_of r) [] ts bs" "sc = chains ts" "c = int (length sc)"
      by (auto simp: gap_passed_def)
    then show ?thesis using n by (auto simp: touching_def)
  next
    case 3
    then show ?thesis by (auto simp: gap_merged_def NN_REORDER_ACCEPT_def NN_REORDER_REJECT_def)
  next
    case 4
    then show ?thesis by (auto simp: gap_stored_def NN_REORDER_ACCEPT_def)
  qed
qed

definition delivery_inv :: "nn_reorder \<Rightarrow> rsample_chain_elem list \<Rightarrow> seqno set \<Rightarrow> dq_system \<Rightarrow> bool" where
  "delivery_inv r D G s \<longleftrightarrow> reorder_run r D G \<and> ro_mode r = NN_REORDER_MODE_NORMAL \<and>
     ro_max_samples r < 2 ^ 31 - 1 \<and> sy_posted s = events None D \<and> \<not> sy_stopped s"

lemma thread_step_keeps: "thread_step h s s' \<Longrightarrow> sy_posted s' = sy_posted s \<and> sy_stopped s' = sy_stopped s"
  by (auto elim: thread_step.cases)

lemma delivery_inv:
  "delivery h r D G s \<Longrightarrow> delivery_inv r D G s \<and> dq_reach h s"
proof (induction rule: delivery.induct)
  case (start maxs late mx)
  have "delivery_inv (nn_reorder_new NN_REORDER_MODE_NORMAL maxs late) [] {} (dq_init mx)"
    using start reorder_run.new [of NN_REORDER_MODE_NORMAL maxs late]
    by (simp add: delivery_inv_def nn_reorder_new_def dq_init_def)
  then show ?case using dq_reach.init by blast
next
  case (sample r D G s R x full c sc r' R' adj)
  have i: "reorder_run r D G" using sample.IH by (simp add: delivery_inv_def)
  have o: "outcome r R x full (c, sc, r', R', adj)" by (rule sample_step [OF reorder_run_ok [OF i] sample.hyps(2-5)])
  have "sc = []" using sent_chain [OF reorder_run_ok [OF i] o sample.hyps(3)] sample.hyps(6) by auto
  with reorder_run.sample [OF i sample.hyps(2-5)] sample.IH o show ?case by (auto simp: delivery_inv_def outcome_def)
next
  case (sample_out r D G s R x full c sc r' R' adj q' b)
  have i: "reorder_run r D G" using sample_out.IH by (simp add: delivery_inv_def)
  have o: "outcome r R x full (c, sc, r', R', adj)" by (rule sample_step [OF reorder_run_ok [OF i] sample_out.hyps(2-5)])
  have c: "chain_ok sc c"
    using sent_chain [OF reorder_run_ok [OF i] o sample_out.hyps(3)] sample_out.hyps(6) sample_out.IH
    by (auto simp: delivery_inv_def chain_ok_def)
  have "client_step s (posted s q' b sc)" unfolding posted_def
    by (rule client_step.deferred [OF _ c sample_out.hyps(7)]) (use sample_out.IH in \<open>simp add: delivery_inv_def\<close>)
  moreover have "delivery_inv r' (D @ sc) G (posted s q' b sc)"
    using reorder_run.sample [OF i sample_out.hyps(2-5)] sample_out.IH o
    by (simp add: delivery_inv_def outcome_def posted_def events_append)
  ultimately show ?case using dq_reach.client sample_out.IH by blast
next
  case (gap r D G s R mn hi d c sc r' R' adj)
  have i: "reorder_run r D G" using gap.IH by (simp add: delivery_inv_def)
  have o: "gap_outcome r R d mn hi (c, sc, r', R', adj)" by (rule gap_step [OF reorder_run_ok [OF i] gap.hyps(2-4)])
  have "sc = []" using gap_chain [OF reorder_run_ok [OF i] o] gap.hyps(5) by auto
  with reorder_run.gap [OF i gap.hyps(2-4)] gap.IH o show ?case by (auto simp: delivery_inv_def gap_outcome_def)
next
  case (gap_out r D G s R mn hi d c sc r' R' adj q' b)
  have i: "reorder_run r D G" using gap_out.IH by (simp add: delivery_inv_def)
  have o: "gap_outcome r R d mn hi (c, sc, r', R', adj)" by (rule gap_step [OF reorder_run_ok [OF i] gap_out.hyps(2-4)])
  have c: "chain_ok sc c"
    using gap_chain [OF reorder_run_ok [OF i] o] gap_out.hyps(5) gap_out.IH by (auto simp: delivery_inv_def chain_ok_def)
  have "client_step s (posted s q' b sc)" unfolding posted_def
    by (rule client_step.deferred [OF _ c gap_out.hyps(6)]) (use gap_out.IH in \<open>simp add: delivery_inv_def\<close>)
  moreover have "delivery_inv r' (D @ sc) (G \<union> {mn..<hi}) (posted s q' b sc)"
    using reorder_run.gap [OF i gap_out.hyps(2-4)] gap_out.IH o
    by (simp add: delivery_inv_def gap_outcome_def posted_def events_append)
  ultimately show ?case using dq_reach.client gap_out.IH by blast
next
  case (trigger r D G s q' b)
  have "client_step s (s\<lparr>sy_q := q', sy_triggers := sy_triggers s - 1, sy_pc := wake b (sy_pc s)\<rparr>)"
    by (rule client_step.trigger [OF trigger.hyps(2,3)])
  then show ?case using trigger.IH dq_reach.client by (auto simp: delivery_inv_def)
next
  case (thread r D G s s')
  then show ?case using dq_reach.thread thread_step_keeps [OF thread.hyps(2)] by (auto simp: delivery_inv_def)
qed

section \<open>What the readers see\<close>

definition handled :: "dq_event list \<Rightarrow> seqno list" where
  "handled evs = List.map_filter (\<lambda>e. case e of Handled i _ _ \<Rightarrow> Some (si_seq i) | Called _ \<Rightarrow> None) evs"

lemma handled_append: "handled (xs @ ys) = handled xs @ handled ys"
  by (simp add: handled_def map_filter_def)

lemma handled_events: "handled (events g es) = numbers es"
  by (induction es) (auto simp: handled_def map_filter_simps split: option.split)

text \<open>
  C14. End to end: whatever samples and gaps arrive in whatever order, and however the receive thread and
  the delivery thread are interleaved, the numbers of the samples that have been handed to the
  readers are strictly increasing, and a beginning of what the reorder administration has delivered.
\<close>

theorem readers_see_increasing_numbers:
  assumes "delivery h r D G s" "\<forall>i fs g. h i fs g = 0"
  shows "sorted_wrt (<) (handled (sy_trace s)) \<and> (\<exists>rest. numbers D = handled (sy_trace s) @ rest)"
proof -
  have d: "delivery_inv r D G s" "dq_reach h s" using delivery_inv [OF assms(1)] by simp_all
  obtain rest where "sy_posted s = sy_trace s @ rest" using dq_invD(3) [OF dq_reach_inv [OF assms(2) d(2)]] by metis
  then have "events None D = sy_trace s @ rest" using d(1) by (simp add: delivery_inv_def)
  then have n: "numbers D = handled (sy_trace s) @ handled rest"
    using handled_events [of None D] by (simp add: handled_append)
  have "sorted_wrt (<) (numbers D)"
    using reorder_run_placed [of r D G] placed_numbers d(1) by (auto simp: delivery_inv_def)
  then have "sorted_wrt (<) (handled (sy_trace s))" unfolding n by (simp add: sorted_wrt_append)
  with n show ?thesis by blast
qed

text \<open>A state in which samples 1 and 2 are queued.\<close>

definition dl_r :: nn_reorder where
  "dl_r = nn_reorder_new NN_REORDER_MODE_NORMAL 4 False"

definition dl_1 :: "int \<times> rsample_chain_elem list \<times> nn_reorder \<times> refs \<times> nat" where
  "dl_1 = the (nn_reorder_rsample dl_r (enough dl_r) (ro_sample 1) False)"

lemma dl_1_facts: "fst dl_1 = 1" "map (map_option si_seq \<circ> sce_sampleinfo) (fst (snd dl_1)) = [Some 1]"
  "nn_reorder_rsample dl_r (enough dl_r) (ro_sample 1) False \<noteq> None" "span dl_r"
  by code_simp+

lemma dl_run: "\<exists>D s. delivery h (fst (snd (snd dl_1))) D {} s \<and> numbers D = [1]"
proof -
  obtain c sc r' R' adj where d: "dl_1 = (c, sc, r', R', adj)" by (cases dl_1) auto
  have e: "nn_reorder_rsample dl_r (enough dl_r) (ro_sample 1) False = Some (c, sc, r', R', adj)"
    using dl_1_facts(3) d by (auto simp: dl_1_def)
  have c: "0 < c" "sc \<noteq> []" using dl_1_facts(1,2) unfolding d by auto
  obtain q' b where q: "nn_dqueue_enqueue_deferred_wakeup (sy_q (dq_init 4)) sc c = Some (q', b)"
    using c by (simp add: nn_dqueue_enqueue_deferred_wakeup_def) (metis surj_pair)
  have "delivery h dl_r [] {} (dq_init 4)" unfolding dl_r_def by (rule delivery.start) simp
  from delivery.sample_out [OF this refs_cover_enough sample_in_ex dl_1_facts(4) e c(1) q]
  have "delivery h r' sc {} (posted (dq_init 4) q' b sc)" by simp
  moreover have "numbers sc = [1]"
    using dl_1_facts(2) unfolding d by (auto simp: map_eq_Cons_conv split: option.splits)
  ultimately show ?thesis unfolding d fst_conv snd_conv by blast
qed

theorem readers_see_increasing_numbers_witness:
  "\<exists>D s. delivery h0 (fst (snd (snd dl_1))) D {} s \<and> numbers D = [1] \<and> sorted_wrt (<) (handled (sy_trace s))"
  using readers_see_increasing_numbers [OF _ h0_ok] dl_run by blast

text \<open>
  And they get to see all: once the deferred wake-ups have been given, the delivery thread alone gets
  to a state in which all that the reorder administration has delivered has been handled.
\<close>

theorem readers_see_all_delivered:
  assumes "delivery h r D G s" "\<forall>i fs g. h i fs g = 0" "sy_triggers s = 0"
  shows "\<exists>s'. delivery h r D G s' \<and> (thread_step h)\<^sup>*\<^sup>* s s' \<and> handled (sy_trace s') = numbers D"
proof -
  have d: "delivery_inv r D G s" "dq_reach h s" using delivery_inv [OF assms(1)] by simp_all
  obtain s' where s': "thread_steps h s s'" "dq_inv s'" "idle s'" "sy_posted s' = sy_posted s"
    using drain [OF assms(2) dq_reach_inv [OF assms(2) d(2)] assms(3)] by blast
  have "delivery h r D G s'" using s'(1) assms(1) by (induction rule: rtranclp_induct) (auto intro: delivery.thread)
  moreover have "handled (sy_trace s') = numbers D"
    using idle_done [OF s'(2,3)] s'(4) d(1) handled_events [of None D] by (simp add: delivery_inv_def)
  ultimately show ?thesis using s'(1) by blast
qed

theorem readers_see_all_delivered_witness:
  "\<exists>D s s'. delivery h0 (fst (snd (snd dl_1))) D {} s \<and> (thread_step h0)\<^sup>*\<^sup>* s s' \<and> handled (sy_trace s') = [1]"
proof -
  obtain D s where d: "delivery h0 (fst (snd (snd dl_1))) D {} s" "numbers D = [1]" using dl_run by blast
  obtain s1 where s1: "delivery h0 (fst (snd (snd dl_1))) D {} s1" "sy_triggers s1 = 0"
  proof -
    have "\<exists>s1. delivery h0 (fst (snd (snd dl_1))) D {} s1 \<and> sy_triggers s1 = 0"
      using d(1)
    proof (induction "sy_triggers s" arbitrary: s)
      case 0
      then show ?case by auto
    next
      case (Suc n)
      obtain q' b where t: "dd_dqueue_enqueue_trigger (sy_q s) = (q', b)" by fastforce
      have "0 < sy_triggers s" using Suc.hyps(2) by simp
      from delivery.trigger [OF Suc.prems this t] Suc.hyps show ?case by (metis (no_types, lifting) diff_Suc_1
          dq_system.select_convs(4) dq_system.surjective dq_system.update_convs(1,3,4))
    qed
    with \<open>\<And>s1. delivery h0 (fst (snd (snd dl_1))) D {} s1 \<Longrightarrow> sy_triggers s1 = 0 \<Longrightarrow> thesis\<close> show thesis by blast
  qed
  with readers_see_all_delivered [OF s1(1) h0_ok s1(2)] d(2) show ?thesis by auto
qed

end
