(* ===== verification/Acknack_Model.thy ===== *)
theory Acknack_Model
  imports Reorder_Model Defrag_Nackmap Dqueue_Model
begin

text \<open>
  Acknowledgements and requests for retransmission, \<open>src/core/ddsi/src/ddsi_acknack.c\<close>: what is
  missing according to the reorder administration and the defragmenter of a proxy writer, and whether
  a message is due now, which depends on what the writer has asked for, on what has been
  requested before and on the time. Times are nanoseconds; None is a failed assertion. The
  allocation of a message and its encoding are not part of the file: whether they succeed is an
  argument. \<open>fromSN (toSN x)\<close> is \<open>x\<close>.
\<close>

section \<open>State\<close>

datatype pwr_rd_match_syncstate = PRMSS_SYNC | PRMSS_TLCATCHUP | PRMSS_OUT_OF_SYNC

record last_nack_summary =
  seq_end_p1 :: seqno
  seq_base :: seqno
  frag_end_p1 :: nat
  frag_base :: nat

text \<open>The part of a proxy writer and of its match with a reader that these functions use.\<close>

record ddsi_proxy_writer =
  pwr_last_seq :: seqno
  pwr_last_fragnum :: nat
  pwr_nackfragcount :: u32
  next_deliv_seq_lowword :: u32
  pwr_defrag :: nn_defrag
  pwr_reorder :: nn_reorder
  pwr_dqueue :: nn_dqueue

record ddsi_pwr_rd_match =
  rwn_count :: u32
  hb_timestamp :: int
  t_last_nack :: int
  t_last_ack :: int
  rwn_last_seq :: seqno
  last_nack :: last_nack_summary
  in_sync :: pwr_rd_match_syncstate
  ack_requested :: bool
  heartbeat_since_ack :: bool
  heartbeatfrag_since_ack :: bool
  directed_heartbeat :: bool
  rwn_nack_sent_on_nackdelay :: bool
  rwn_filtered :: bool
  rwn_reorder :: nn_reorder

record ack_config =
  late_ack :: bool
  ack_delay :: int
  nack_delay :: int
  auto_resched_nack_delay :: int
  meas_hb_to_ack_latency :: bool

datatype add_AckNack_result =
  AANR_SUPPRESSED_ACK
| AANR_ACK
| AANR_SUPPRESSED_NACK
| AANR_NACK
| AANR_NACKFRAG_ONLY

record add_AckNack_info =
  nack_sent_on_nackdelay :: bool
  acknack_set :: nn_sequence_number_set_header
  acknack_bits :: "32 word list"
  nackfrag_seq :: seqno
  nackfrag_set :: nn_fragment_number_set_header
  nackfrag_bits :: "32 word list"

definition NN_SEQUENCE_NUMBER_SET_MAX_BITS :: nat where
  "NN_SEQUENCE_NUMBER_SET_MAX_BITS = 256"

definition NN_FRAGMENT_NUMBER_SET_MAX_BITS :: nat where
  "NN_FRAGMENT_NUMBER_SET_MAX_BITS = 256"

definition DDS_NEVER :: int where
  "DDS_NEVER = 2 ^ 63 - 1"

definition ddsrt_mtime_add_duration :: "int \<Rightarrow> int \<Rightarrow> int option" where
  "ddsrt_mtime_add_duration t d = do {
     _ \<leftarrow> assertion (0 \<le> t);
     _ \<leftarrow> assertion (0 \<le> d);
     Some (if DDS_NEVER - t \<le> d then DDS_NEVER else t + d) }"

section \<open>What is missing\<close>

definition next_deliv_seq :: "u32 \<Rightarrow> seqno \<Rightarrow> seqno option" where
  "next_deliv_seq lw nseq = do {
     let n = (word_of_nat nseq :: 64 word);
     let nd0 = (n AND NOT (ucast (- 1 :: u32))) OR ucast lw;
     let nd = (if n < nd0 then nd0 - 2 ^ 32 else nd0);
     _ \<leftarrow> assertion (0 < nd \<and> nd \<le> n);
     Some (unat nd) }"

definition add_AckNack_getsource ::
  "ack_config \<Rightarrow> ddsi_proxy_writer \<Rightarrow> ddsi_pwr_rd_match \<Rightarrow> (nn_reorder \<times> seqno \<times> bool) option" where
  "add_AckNack_getsource cfg pwr rwn =
     (if in_sync rwn = PRMSS_OUT_OF_SYNC \<or> rwn_filtered rwn
      then Some (rwn_reorder rwn, nn_reorder_next_seq (rwn_reorder rwn), False)
      else if \<not> late_ack cfg
      then Some (pwr_reorder pwr, nn_reorder_next_seq (pwr_reorder pwr), False)
      else do {
        base \<leftarrow> next_deliv_seq (next_deliv_seq_lowword pwr) (nn_reorder_next_seq (pwr_reorder pwr));
        Some (pwr_reorder pwr, base, nn_dqueue_is_full (pwr_dqueue pwr)) })"

text \<open>The scan through the bitmap, up to the first missing sample that the defragmenter knows of.\<close>

function scan_bitmap ::
  "ddsi_proxy_writer \<Rightarrow> nat \<Rightarrow> nat \<Rightarrow> add_AckNack_info \<Rightarrow> (bool \<times> add_AckNack_info) option" where
  "scan_bitmap pwr n i info =
     (if n \<le> i then Some (True, info)
      else do {
        missing \<leftarrow> nn_bitset_isset n (acknack_bits info) i;
        if \<not> missing then scan_bitmap pwr n (i + 1) info
        else do {
          let seq = sn_bitmap_base (acknack_set info) + i;
          let fragnum = (if seq = pwr_last_seq pwr then pwr_last_fragnum pwr else UINT32_MAX);
          (res, fset, fbits) \<leftarrow> nn_defrag_nackmap (pwr_defrag pwr) seq fragnum (nackfrag_set info)
            (nackfrag_bits info) NN_FRAGMENT_NUMBER_SET_MAX_BITS;
          let info' = info\<lparr>nackfrag_set := fset, nackfrag_bits := fbits\<rparr>;
          let cut = info'\<lparr>acknack_set := (acknack_set info')\<lparr>sn_numbits := i\<rparr>\<rparr>;
          (case res of
             DEFRAG_NACKMAP_UNKNOWN_SAMPLE \<Rightarrow> scan_bitmap pwr n (i + 1) info'
           | DEFRAG_NACKMAP_ALL_ADVERTISED_FRAGMENTS_KNOWN \<Rightarrow> Some (0 < i, cut\<lparr>nackfrag_seq := 0\<rparr>)
           | DEFRAG_NACKMAP_FRAGMENTS_MISSING \<Rightarrow> Some (True, cut\<lparr>nackfrag_seq := seq\<rparr>)) } })"
  by pat_completeness auto
termination
  by (relation "measure (\<lambda>(pwr, n, i, info). n - i)") auto

declare scan_bitmap.simps [simp del]

definition add_AckNack_makebitmaps ::
  "ack_config \<Rightarrow> ddsi_proxy_writer \<Rightarrow> ddsi_pwr_rd_match \<Rightarrow> add_AckNack_info \<Rightarrow> (bool \<times> add_AckNack_info) option" where
  "add_AckNack_makebitmaps cfg pwr rwn info0 = do {
     (reorder, bitmap_base, notail) \<leftarrow> add_AckNack_getsource cfg pwr rwn;
     let last_seq = (if rwn_filtered rwn then rwn_last_seq rwn else pwr_last_seq pwr);
     (hdr, bits) \<leftarrow> nn_reorder_nackmap reorder bitmap_base last_seq (acknack_bits info0)
       NN_SEQUENCE_NUMBER_SET_MAX_BITS notail;
     let info = info0\<lparr>acknack_set := hdr, acknack_bits := bits, nackfrag_seq := 0\<rparr>;
     if sn_numbits hdr = 0 then Some (False, info)
     else scan_bitmap pwr (sn_numbits hdr) 0 info }"

section \<open>What to do about it\<close>

text \<open>The two halves: the choice between ACK and NACK, and what is left of it.\<close>

definition choose_nack ::
  "ddsi_pwr_rd_match \<Rightarrow> last_nack_summary \<Rightarrow> add_AckNack_info \<Rightarrow> bool \<Rightarrow> add_AckNack_result \<times> add_AckNack_info" where
  "choose_nack rwn s info nackdelay_passed =
     (if seq_end_p1 (last_nack rwn) < seq_base s \<or>
         (seq_base s = seq_end_p1 (last_nack rwn) \<and> frag_end_p1 (last_nack rwn) \<le> frag_base s)
      then (AANR_NACK, info\<lparr>nack_sent_on_nackdelay := False\<rparr>)
      else if directed_heartbeat rwn \<and> (\<not> rwn_nack_sent_on_nackdelay rwn \<or> nackdelay_passed)
      then (AANR_NACK, info\<lparr>nack_sent_on_nackdelay := False\<rparr>)
      else if nackdelay_passed
      then (AANR_NACK, info\<lparr>nack_sent_on_nackdelay := True\<rparr>)
      else (AANR_SUPPRESSED_NACK,
        info\<lparr>nack_sent_on_nackdelay := rwn_nack_sent_on_nackdelay rwn,
             acknack_set := (acknack_set info)\<lparr>sn_numbits := 0\<rparr>, nackfrag_seq := 0\<rparr>))"

definition suppress_ack ::
  "ddsi_pwr_rd_match \<Rightarrow> last_nack_summary \<Rightarrow> add_AckNack_info \<Rightarrow> bool \<Rightarrow> add_AckNack_result \<Rightarrow> add_AckNack_result" where
  "suppress_ack rwn s info ackdelay_passed result =
     (if result = AANR_ACK \<or> result = AANR_SUPPRESSED_NACK then
        (if \<not> (heartbeat_since_ack rwn \<and> ack_requested rwn) then AANR_SUPPRESSED_ACK
         else if \<not> (seq_base (last_nack rwn) < seq_base s \<or> ackdelay_passed) then AANR_SUPPRESSED_ACK
         else result)
      else if sn_numbits (acknack_set info) = 0 \<and> 0 < nackfrag_seq info \<and> \<not> ack_requested rwn
      then AANR_NACKFRAG_ONLY
      else result)"

definition nack_summary_of :: "add_AckNack_info \<Rightarrow> last_nack_summary" where
  "nack_summary_of info =
     \<lparr>seq_end_p1 = sn_bitmap_base (acknack_set info) + sn_numbits (acknack_set info),
      seq_base = sn_bitmap_base (acknack_set info),
      frag_end_p1 = (if 0 < nackfrag_seq info then bitmap_base (nackfrag_set info) + numbits (nackfrag_set info) else 0),
      frag_base = (if 0 < nackfrag_seq info then bitmap_base (nackfrag_set info) else 0)\<rparr>"

definition get_AckNack_info ::
  "ack_config \<Rightarrow> ddsi_proxy_writer \<Rightarrow> ddsi_pwr_rd_match \<Rightarrow> add_AckNack_info \<Rightarrow> bool \<Rightarrow> bool \<Rightarrow>
   (add_AckNack_result \<times> last_nack_summary \<times> add_AckNack_info) option" where
  "get_AckNack_info cfg pwr rwn info0 ackdelay_passed nackdelay_passed = do {
     (nack, info) \<leftarrow> add_AckNack_makebitmaps cfg pwr rwn info0;
     if \<not> nack then do {
       let info1 = info\<lparr>nack_sent_on_nackdelay := rwn_nack_sent_on_nackdelay rwn\<rparr>;
       let s = \<lparr>seq_end_p1 = 0, seq_base = sn_bitmap_base (acknack_set info), frag_end_p1 = 0, frag_base = 0\<rparr>;
       Some (suppress_ack rwn s info1 ackdelay_passed AANR_ACK, s, info1) }
     else do {
       _ \<leftarrow> assertion (1 \<le> sn_bitmap_base (acknack_set info) \<and>
              (0 < sn_numbits (acknack_set info) \<or> 0 < nackfrag_seq info));
       _ \<leftarrow> assertion (nackfrag_seq info = 0 \<or> 0 < numbits (nackfrag_set info));
       let s = nack_summary_of info;
       let (result, info1) = choose_nack rwn s info nackdelay_passed;
       Some (suppress_ack rwn s info1 ackdelay_passed result, s, info1) } }"

section \<open>The message\<close>

record AckNack =
  an_base :: seqno
  an_numbits :: nat
  an_bits :: "32 word list"
  an_count :: u32

record NackFrag =
  nf_seq :: seqno
  nf_base :: nat
  nf_numbits :: nat
  nf_bits :: "32 word list"
  nf_count :: u32

record ack_msg =
  msg_timestamp :: "int option"
  msg_acknack :: "AckNack option"
  msg_nackfrag :: "NackFrag option"

definition bits_words :: "nat \<Rightarrow> nat" where
  "bits_words n = (n + 31) div 32"

definition add_AckNack :: "ddsi_pwr_rd_match \<Rightarrow> add_AckNack_info \<Rightarrow> AckNack" where
  "add_AckNack rwn info =
     \<lparr>an_base = sn_bitmap_base (acknack_set info), an_numbits = sn_numbits (acknack_set info),
      an_bits = take (bits_words (sn_numbits (acknack_set info))) (acknack_bits info), an_count = rwn_count rwn\<rparr>"

text \<open>Fragment numbers are 1-based in the message.\<close>

definition add_NackFrag :: "ddsi_proxy_writer \<Rightarrow> add_AckNack_info \<Rightarrow> NackFrag option" where
  "add_NackFrag pwr info = do {
     _ \<leftarrow> assertion (0 < numbits (nackfrag_set info) \<and> numbits (nackfrag_set info) \<le> NN_FRAGMENT_NUMBER_SET_MAX_BITS);
     Some \<lparr>nf_seq = nackfrag_seq info, nf_base = bitmap_base (nackfrag_set info) + 1,
       nf_numbits = numbits (nackfrag_set info),
       nf_bits = take (bits_words (numbits (nackfrag_set info))) (nackfrag_bits info),
       nf_count = pwr_nackfragcount pwr\<rparr> }"

text \<open>The result is the time to which the event is rescheduled, if it is earlier.\<close>

definition sched_acknack_if_needed ::
  "ack_config \<Rightarrow> ddsi_proxy_writer \<Rightarrow> ddsi_pwr_rd_match \<Rightarrow> add_AckNack_info \<Rightarrow> int \<Rightarrow> bool \<Rightarrow> int option option" where
  "sched_acknack_if_needed cfg pwr rwn info0 tnow avoid_suppressed_nack = do {
     t_ack \<leftarrow> ddsrt_mtime_add_duration (t_last_ack rwn) (ack_delay cfg);
     t_nack \<leftarrow> ddsrt_mtime_add_duration (t_last_nack rwn) (nack_delay cfg);
     (aanr, _, _) \<leftarrow> get_AckNack_info cfg pwr rwn info0 (t_ack \<le> tnow) (t_nack \<le> tnow);
     if aanr = AANR_SUPPRESSED_ACK then Some None
     else if avoid_suppressed_nack \<and> aanr = AANR_SUPPRESSED_NACK then Some (Some t_nack)
     else Some (Some tnow) }"

text \<open>The state after a message has been sent, and the time to which the event is rescheduled.\<close>

definition message_sent ::
  "ack_config \<Rightarrow> ddsi_proxy_writer \<Rightarrow> ddsi_pwr_rd_match \<Rightarrow> add_AckNack_result \<Rightarrow> last_nack_summary \<Rightarrow> int \<Rightarrow>
   (ddsi_proxy_writer \<times> ddsi_pwr_rd_match \<times> int option) option" where
  "message_sent cfg pwr rwn aanr s tnow =
     (case aanr of
        AANR_SUPPRESSED_ACK \<Rightarrow> None
      | AANR_ACK \<Rightarrow>
          Some (pwr, rwn\<lparr>ack_requested := False, t_last_ack := tnow,
            last_nack := (last_nack rwn)\<lparr>seq_base := seq_base s\<rparr>\<rparr>, None)
      | AANR_SUPPRESSED_NACK \<Rightarrow> do {
          t \<leftarrow> ddsrt_mtime_add_duration (t_last_nack rwn) (nack_delay cfg);
          Some (pwr, rwn\<lparr>ack_requested := False, t_last_ack := tnow,
            last_nack := (last_nack rwn)\<lparr>seq_base := seq_base s\<rparr>\<rparr>, Some t) }
      | _ \<Rightarrow> do {
          t \<leftarrow> ddsrt_mtime_add_duration tnow (auto_resched_nack_delay cfg);
          let rwn1 = (if aanr \<noteq> AANR_NACKFRAG_ONLY then rwn\<lparr>ack_requested := False, t_last_ack := tnow\<rparr> else rwn);
          Some (if frag_end_p1 s \<noteq> 0 then pwr\<lparr>pwr_nackfragcount := pwr_nackfragcount pwr + 1\<rparr> else pwr,
            rwn1\<lparr>last_nack := s, t_last_nack := tnow\<rparr>, Some t) })"

text \<open>The message is made and the state updated; \<open>alloc_ok\<close> and \<open>encoded\<close> say what becomes of the message.\<close>

definition send_acknack ::
  "ack_config \<Rightarrow> ddsi_proxy_writer \<Rightarrow> ddsi_pwr_rd_match \<Rightarrow> add_AckNack_result \<Rightarrow> last_nack_summary \<Rightarrow> add_AckNack_info \<Rightarrow>
   int \<Rightarrow> bool \<Rightarrow> bool \<Rightarrow> (ack_msg option \<times> ddsi_proxy_writer \<times> ddsi_pwr_rd_match \<times> int option) option" where
  "send_acknack cfg pwr rwn0 aanr s info tnow alloc_ok encoded = do {
     let rwn = rwn0\<lparr>directed_heartbeat := False, heartbeat_since_ack := False, heartbeatfrag_since_ack := False,
                    rwn_nack_sent_on_nackdelay := nack_sent_on_nackdelay info\<rparr>;
     if \<not> alloc_ok then Some (None, pwr, rwn, None)
     else do {
       let stamp = meas_hb_to_ack_latency cfg \<and> hb_timestamp rwn \<noteq> 0;
       let rwn1 = (if stamp then rwn\<lparr>hb_timestamp := 0\<rparr> else rwn);
       nf \<leftarrow> (if 0 < nackfrag_seq info then map_option Some (add_NackFrag pwr info) else Some None);
       let msg = \<lparr>msg_timestamp = (if stamp then Some (hb_timestamp rwn) else None),
                  msg_acknack = (if aanr \<noteq> AANR_NACKFRAG_ONLY then Some (add_AckNack rwn1 info) else None),
                  msg_nackfrag = nf\<rparr>;
       if \<not> encoded then Some (None, pwr, rwn1, None)
       else do {
         (pwr', rwn2, t) \<leftarrow> message_sent cfg pwr (rwn1\<lparr>rwn_count := rwn_count rwn1 + 1\<rparr>) aanr s tnow;
         Some (Some msg, pwr', rwn2, t) } } }"

definition make_and_resched_acknack ::
  "ack_config \<Rightarrow> ddsi_proxy_writer \<Rightarrow> ddsi_pwr_rd_match \<Rightarrow> add_AckNack_info \<Rightarrow> int \<Rightarrow> bool \<Rightarrow> bool \<Rightarrow> bool \<Rightarrow>
   (ack_msg option \<times> ddsi_proxy_writer \<times> ddsi_pwr_rd_match \<times> int option) option" where
  "make_and_resched_acknack cfg pwr rwn info0 tnow avoid_suppressed_nack alloc_ok encoded = do {
     t_ack \<leftarrow> ddsrt_mtime_add_duration (t_last_ack rwn) (ack_delay cfg);
     t_nack \<leftarrow> ddsrt_mtime_add_duration (t_last_nack rwn) (nack_delay cfg);
     (aanr, s, info) \<leftarrow> get_AckNack_info cfg pwr rwn info0 (t_ack \<le> tnow) (t_nack \<le> tnow);
     if aanr = AANR_SUPPRESSED_ACK then Some (None, pwr, rwn, None)
     else if avoid_suppressed_nack \<and> aanr = AANR_SUPPRESSED_NACK then Some (None, pwr, rwn, Some t_nack)
     else if \<not> (heartbeat_since_ack rwn \<or> heartbeatfrag_since_ack rwn) then
       (if aanr = AANR_ACK then Some (None, pwr, rwn, None)
        else do {
          t_auto \<leftarrow> ddsrt_mtime_add_duration (t_last_nack rwn) (auto_resched_nack_delay cfg);
          if tnow < t_auto then Some (None, pwr, rwn, Some t_auto)
          else send_acknack cfg pwr rwn aanr s info tnow alloc_ok encoded })
     else send_acknack cfg pwr rwn aanr s info tnow alloc_ok encoded }"

end
