(* ===== verification/Proxy_Writer_Model.thy ===== *)
theory Proxy_Writer_Model
  imports Acknack_Model
begin

text \<open>
  What the receive thread does with the messages for a proxy writer, the part of
  \<open>src/core/ddsi/src/q_receive.c\<close> behind the parsing: data, gaps and heartbeats go to the defragmenter and to
  the reorder administrations of the proxy writer and of those readers that are not in sync with it
  because they wait for historical data, and what these return is handed to the readers or to the delivery queue. Readers
  are added and removed by \<open>ddsi_entity_match.c\<close>.

  The readers are the list of the matches in the order of their guids, the in-order list of the tree. A guid
  is a number whose last 32 bits are the entity id. None is a failed assertion. Leases, listeners, tracing,
  direct reads and the security checks are not modelled; a message that these checks reject is one that the handlers are not called
  with. That memory for the administration is available is assumed, as in the code.
\<close>

section \<open>State\<close>

definition MAX_SEQ_NUMBER :: seqno where
  "MAX_SEQ_NUMBER = 2 ^ 63 - 1"

definition NN_ENTITYID_UNKNOWN :: nat where
  "NN_ENTITYID_UNKNOWN = 0"

definition guid_prefix :: "guid \<Rightarrow> nat" where
  "guid_prefix g = g div 2 ^ 32"

definition guid_entityid :: "guid \<Rightarrow> nat" where
  "guid_entityid g = g mod 2 ^ 32"

text \<open>
  The match of a reader: \<open>acknack_xevent\<close> is the time of the event, None for a best-effort reader. The fields that
  \<open>ddsi_acknack.c\<close> uses are in \<open>pm_ack\<close>, the reorder administration of the reader among them.
\<close>

record pwr_match =
  pm_guid :: guid
  acknack_xevent :: "int option"
  prev_heartbeat :: u32
  t_heartbeat_accepted :: int
  end_of_tl_seq :: seqno
  pm_ack :: ddsi_pwr_rd_match

record proxy_writer =
  pw :: ddsi_proxy_writer
  readers :: "pwr_match list"
  n_reliable_readers :: int
  n_readers_out_of_sync :: int
  deliver_synchronously :: bool
  have_seen_heartbeat :: bool
  local_matching_inprogress :: bool
  alive :: bool
  alive_vclock :: u32
  pwr_filtered :: bool
  fastpath_ok :: bool
  pwr_builtin :: bool
  pwr_reliable :: bool
  pwr_vendor_eclipse :: bool
  dqueue_id :: nat

text \<open>
  The receive thread: what has been handed to readers directly, \<open>deferred_wakeup\<close>, and the queues whose
  thread has been woken up.
\<close>

record rx =
  rx_pwr :: proxy_writer
  rx_refs :: refs
  rx_events :: "dq_event list"
  deferred_wakeup :: "nat option"
  rx_triggered :: "nat list"

text \<open>The configuration, whether the inline QoS of a sample can be parsed, and what is in the buffers on the
  stack that the bitmaps are made in.\<close>

record rx_config =
  rc_ack :: ack_config
  qos_valid :: "rsample_info \<Rightarrow> rdata list \<Rightarrow> bool"
  primary_reorder_maxsamples :: nat
  secondary_reorder_maxsamples :: nat
  defrag_reliable_maxsamples :: nat
  defrag_unreliable_maxsamples :: nat
  preemptive_ack_delay :: int
  scratch :: add_AckNack_info

record receiver_state =
  dst_guid_prefix :: nat
  vendor_eclipse :: bool
  forme :: bool

abbreviation next_of :: "proxy_writer \<Rightarrow> seqno" where
  "next_of p \<equiv> nn_reorder_next_seq (pwr_reorder (pw p))"

abbreviation rd_next :: "pwr_match \<Rightarrow> seqno" where
  "rd_next wn \<equiv> nn_reorder_next_seq (rwn_reorder (pm_ack wn))"

abbreviation set_sync :: "pwr_rd_match_syncstate \<Rightarrow> pwr_match \<Rightarrow> pwr_match" where
  "set_sync s wn \<equiv> wn\<lparr>pm_ack := (pm_ack wn)\<lparr>in_sync := s\<rparr>\<rparr>"

abbreviation set_reorder :: "nn_reorder \<Rightarrow> pwr_match \<Rightarrow> pwr_match" where
  "set_reorder r wn \<equiv> wn\<lparr>pm_ack := (pm_ack wn)\<lparr>rwn_reorder := r\<rparr>\<rparr>"

abbreviation upd_pw :: "(ddsi_proxy_writer \<Rightarrow> ddsi_proxy_writer) \<Rightarrow> rx \<Rightarrow> rx" where
  "upd_pw f st \<equiv> st\<lparr>rx_pwr := (rx_pwr st)\<lparr>pw := f (pw (rx_pwr st))\<rparr>\<rparr>"

section \<open>Readers that catch up\<close>

text \<open>The state with one reader fewer out of sync.\<close>

definition one_in_sync :: "proxy_writer \<Rightarrow> proxy_writer" where
  "one_in_sync p = (let n = n_readers_out_of_sync p - 1 in
     p\<lparr>n_readers_out_of_sync := n, fastpath_ok := (if n = 0 then True else fastpath_ok p)\<rparr>)"

definition maybe_leave_catchup :: "proxy_writer \<Rightarrow> pwr_match \<Rightarrow> seqno \<Rightarrow> proxy_writer \<times> pwr_match" where
  "maybe_leave_catchup p wn last_deliv_seq =
     (if end_of_tl_seq wn \<le> last_deliv_seq then (one_in_sync p, set_sync PRMSS_SYNC wn) else (p, wn))"

text \<open>The recursive call in the code is in the state TLCATCHUP.\<close>

definition maybe_set_reader_in_sync ::
  "proxy_writer \<Rightarrow> pwr_match \<Rightarrow> seqno \<Rightarrow> (proxy_writer \<times> pwr_match) option" where
  "maybe_set_reader_in_sync p wn last_deliv_seq =
     (case in_sync (pm_ack wn) of
        PRMSS_SYNC \<Rightarrow> None
      | PRMSS_TLCATCHUP \<Rightarrow> Some (maybe_leave_catchup p wn last_deliv_seq)
      | PRMSS_OUT_OF_SYNC \<Rightarrow>
          Some (if \<not> rwn_filtered (pm_ack wn) \<and> have_seen_heartbeat p \<and> rd_next wn = next_of p
                then maybe_leave_catchup p (set_sync PRMSS_TLCATCHUP wn) last_deliv_seq
                else (p, wn)))"

section \<open>Delivery\<close>

definition deliver_user_data ::
  "rx_config \<Rightarrow> rx \<Rightarrow> rsample_info \<Rightarrow> rdata list \<Rightarrow> guid option \<Rightarrow> rx option" where
  "deliver_user_data cfg st info fc rdguid = do {
     d \<leftarrow> hd_opt fc;
     _ \<leftarrow> assertion (rd_min d = 0);
     _ \<leftarrow> assertion (\<not> pwr_builtin (rx_pwr st));
     Some (if \<not> qos_valid cfg info fc then st
           else let st1 = st\<lparr>rx_events := rx_events st @ [Handled info fc rdguid]\<rparr> in
             if rdguid = None
             then upd_pw (\<lambda>w. w\<lparr>next_deliv_seq_lowword := word_of_nat (si_seq info + 1)\<rparr>) st1
             else st1) }"

fun deliver_user_data_synchronously ::
  "rx_config \<Rightarrow> rx \<Rightarrow> rsample_chain_elem list \<Rightarrow> guid option \<Rightarrow> rx option" where
  "deliver_user_data_synchronously cfg st [] rdguid = Some st"
| "deliver_user_data_synchronously cfg st (e # es) rdguid = do {
     st1 \<leftarrow> (case sce_sampleinfo e of
               Some info \<Rightarrow> deliver_user_data cfg st info (sce_fragchain e) rdguid
             | None \<Rightarrow> Some st);
     R \<leftarrow> nn_fragchain_unref (rx_refs st1) (sce_fragchain e);
     deliver_user_data_synchronously cfg (st1\<lparr>rx_refs := R\<rparr>) es rdguid }"

definition trigger :: "bool \<Rightarrow> nat \<Rightarrow> rx \<Rightarrow> rx" where
  "trigger b q st = (if b then st\<lparr>rx_triggered := rx_triggered st @ [q]\<rparr> else st)"

text \<open>To all readers that are in sync, as gaps and heartbeats make it.\<close>

definition deliver_to_group :: "rx_config \<Rightarrow> rx \<Rightarrow> rsample_chain_elem list \<Rightarrow> int \<Rightarrow> rx option" where
  "deliver_to_group cfg st sc res =
     (if deliver_synchronously (rx_pwr st) then deliver_user_data_synchronously cfg st sc None
      else do {
        (q, b) \<leftarrow> nn_dqueue_enqueue (pwr_dqueue (pw (rx_pwr st))) sc res;
        Some (trigger b (dqueue_id (rx_pwr st)) (upd_pw (\<lambda>w. w\<lparr>pwr_dqueue := q\<rparr>) st)) })"

text \<open>To one reader.\<close>

definition queue_for_reader :: "rx \<Rightarrow> guid \<Rightarrow> rsample_chain_elem list \<Rightarrow> int \<Rightarrow> rx option" where
  "queue_for_reader st g sc res = do {
     (q, b) \<leftarrow> nn_dqueue_enqueue1 (pwr_dqueue (pw (rx_pwr st))) g sc res;
     Some (trigger b (dqueue_id (rx_pwr st)) (upd_pw (\<lambda>w. w\<lparr>pwr_dqueue := q\<rparr>) st)) }"

definition deliver_to_reader :: "rx_config \<Rightarrow> rx \<Rightarrow> guid \<Rightarrow> rsample_chain_elem list \<Rightarrow> int \<Rightarrow> rx option" where
  "deliver_to_reader cfg st g sc res =
     (if deliver_synchronously (rx_pwr st) then deliver_user_data_synchronously cfg st sc (Some g)
      else queue_for_reader st g sc res)"

section \<open>The defragmenter and the reorder administration of the proxy writer\<close>

definition pwr_notegap :: "rx \<Rightarrow> seqno \<Rightarrow> seqno \<Rightarrow> rx option" where
  "pwr_notegap st a b = do {
     (d, R) \<leftarrow> nn_defrag_notegap (pwr_defrag (pw (rx_pwr st))) (rx_refs st) a b;
     Some (upd_pw (\<lambda>w. w\<lparr>pwr_defrag := d\<rparr>) (st\<lparr>rx_refs := R\<rparr>)) }"

definition clean_defrag :: "rx \<Rightarrow> rx option" where
  "clean_defrag st =
     (let p = rx_pwr st;
          seq1 = foldl (\<lambda>seq wn. if in_sync (pm_ack wn) = PRMSS_OUT_OF_SYNC \<and> rd_next wn < seq then rd_next wn else seq)
                   (next_of p) (readers p) in
      pwr_notegap st 1 (if 0 < n_readers_out_of_sync p then seq1 else next_of p))"

text \<open>The result, the chain, the state and the adjustment of the reference count.\<close>

definition group_gap :: "rx \<Rightarrow> rdata \<Rightarrow> seqno \<Rightarrow> seqno \<Rightarrow> (int \<times> rsample_chain_elem list \<times> rx \<times> nat) option" where
  "group_gap st gap a b = do {
     (res, sc, r, R, adj) \<leftarrow> nn_reorder_gap (pwr_reorder (pw (rx_pwr st))) (rx_refs st) gap a b;
     Some (res, sc, upd_pw (\<lambda>w. w\<lparr>pwr_reorder := r\<rparr>) (st\<lparr>rx_refs := R\<rparr>), adj) }"

definition reader_gap ::
  "rx \<Rightarrow> pwr_match \<Rightarrow> rdata \<Rightarrow> seqno \<Rightarrow> seqno \<Rightarrow> (int \<times> rsample_chain_elem list \<times> pwr_match \<times> rx \<times> nat) option" where
  "reader_gap st wn gap a b = do {
     (res, sc, r, R, adj) \<leftarrow> nn_reorder_gap (rwn_reorder (pm_ack wn)) (rx_refs st) gap a b;
     Some (res, sc, set_reorder r wn, st\<lparr>rx_refs := R\<rparr>, adj) }"

text \<open>The reader of the list with this guid is replaced.\<close>

definition put_reader :: "pwr_match \<Rightarrow> rx \<Rightarrow> rx" where
  "put_reader wn st = st\<lparr>rx_pwr := (rx_pwr st)\<lparr>readers :=
     map (\<lambda>m. if pm_guid m = pm_guid wn then wn else m) (readers (rx_pwr st))\<rparr>\<rparr>"

definition find_reader :: "proxy_writer \<Rightarrow> guid \<Rightarrow> pwr_match option" where
  "find_reader p g = List.find (\<lambda>m. pm_guid m = g) (readers p)"

definition set_in_sync :: "rx \<Rightarrow> pwr_match \<Rightarrow> seqno \<Rightarrow> (rx \<times> pwr_match) option" where
  "set_in_sync st wn seq = do {
     (p, wn') \<leftarrow> maybe_set_reader_in_sync (rx_pwr st) wn seq;
     Some (st\<lparr>rx_pwr := p\<rparr>, wn') }"

section \<open>Gaps\<close>

text \<open>
  The two halves of \<open>handle_one_gap\<close>: for the readers that are in sync, and for a reader that catches up or is out of sync.
  The results have the return value of \<open>nn_reorder_gap\<close>, or whether the gap was valuable, and the adjustment of the
  reference count so far.
\<close>

definition gap_to_group ::
  "rx_config \<Rightarrow> rx \<Rightarrow> seqno \<Rightarrow> seqno \<Rightarrow> rdata \<Rightarrow> nat \<Rightarrow> (int \<times> rx \<times> nat) option" where
  "gap_to_group cfg st a b gap adj = do {
     st0 \<leftarrow> pwr_notegap st a b;
     (res, sc, st1, d) \<leftarrow> group_gap st0 gap a b;
     st2 \<leftarrow> (if 0 < res then deliver_to_group cfg st1 sc res else Some st1);
     Some (res, st2, adj + d) }"

definition gap_to_reader ::
  "rx_config \<Rightarrow> rx \<Rightarrow> pwr_match \<Rightarrow> seqno \<Rightarrow> seqno \<Rightarrow> rdata \<Rightarrow> int \<Rightarrow> nat \<Rightarrow> (bool \<times> pwr_match \<times> rx \<times> nat) option" where
  "gap_to_reader cfg st w a b gap res adj =
     (if in_sync (pm_ack w) = PRMSS_TLCATCHUP then Some (0 \<le> res, w, st, adj)
      else do {
        (res2, sc, w1, st1, d) \<leftarrow> reader_gap st w gap a b;
        st2 \<leftarrow> (if 0 < res2 then deliver_to_reader cfg st1 (pm_guid w) sc res2 else Some st1);
        Some (0 \<le> res \<or> 0 \<le> res2, w1, st2, adj + d) })"

text \<open>The reader is the pointer \<open>wn\<close>.\<close>

definition handle_one_gap ::
  "rx_config \<Rightarrow> rx \<Rightarrow> guid option \<Rightarrow> seqno \<Rightarrow> seqno \<Rightarrow> rdata \<Rightarrow> nat \<Rightarrow> (bool \<times> rx \<times> nat) option" where
  "handle_one_gap cfg st g a b gap adj = do {
     _ \<leftarrow> assertion (0 < a \<and> a \<le> b);
     wn \<leftarrow> (case g of None \<Rightarrow> Some None | Some x \<Rightarrow> map_option Some (find_reader (rx_pwr st) x));
     (res, st1, adj1) \<leftarrow>
       (if \<not> (case wn of None \<Rightarrow> False | Some w \<Rightarrow> rwn_filtered (pm_ack w)) then gap_to_group cfg st a b gap adj
        else Some (0, st, adj));
     (case wn of
        None \<Rightarrow> Some (0 \<le> res, st1, adj1)
      | Some w \<Rightarrow>
          if in_sync (pm_ack w) = PRMSS_SYNC then Some (0 \<le> res, st1, adj1)
          else do {
            (valuable, w2, st2, adj2) \<leftarrow> gap_to_reader cfg st1 w a b gap res adj1;
            (st3, w3) \<leftarrow> set_in_sync st2 w2 (b - 1);
            Some (valuable, put_reader w3 st3, adj2) }) }"

text \<open>The first clear bit from \<open>i\<close> on.\<close>

function first_clear :: "nat \<Rightarrow> 32 word list \<Rightarrow> nat \<Rightarrow> nat option" where
  "first_clear n bits i =
     (if n \<le> i then Some i
      else do { set \<leftarrow> nn_bitset_isset n bits i; if \<not> set then Some i else first_clear n bits (i + 1) })"
  by pat_completeness auto
termination
  by (relation "measure (\<lambda>(n, bits, i). n - i)") auto

declare first_clear.simps [simp del]

lemma first_clear_ge: "first_clear n bits i = Some j \<Longrightarrow> i \<le> j"
proof (induction n bits i arbitrary: j rule: first_clear.induct)
  case (1 n bits i)
  then show ?case by (subst (asm) (2) first_clear.simps) (fastforce split: if_splits bind_splits)
qed

text \<open>The ranges of the bitmap; the state, the adjustment and \<open>first_excluded_rel\<close>.\<close>

function gap_list ::
  "rx_config \<Rightarrow> guid \<Rightarrow> rdata \<Rightarrow> seqno \<Rightarrow> nat \<Rightarrow> 32 word list \<Rightarrow> nat \<Rightarrow> rx \<Rightarrow> nat \<Rightarrow> nat \<Rightarrow> (rx \<times> nat \<times> nat) option" where
  "gap_list cfg g gap base n bits listidx st adj excluded =
     (if n \<le> listidx then Some (st, adj, excluded)
      else do {
        set \<leftarrow> nn_bitset_isset n bits listidx;
        if \<not> set then gap_list cfg g gap base n bits (listidx + 1) st adj excluded
        else do {
          j \<leftarrow> first_clear n bits (listidx + 1);
          (_, st', adj') \<leftarrow> handle_one_gap cfg st (Some g) (base + listidx) (base + j) gap adj;
          _ \<leftarrow> assertion (1 \<le> j);
          gap_list cfg g gap base n bits j st' adj' j } })"
  by pat_completeness auto
termination
  by (relation "measure (\<lambda>(cfg, g, gap, base, n, bits, listidx, st, adj, excluded). n - listidx)")
    (auto dest!: first_clear_ge)

declare gap_list.simps [simp del]

definition new_gap :: "rx \<Rightarrow> nat \<Rightarrow> (rdata \<times> rx) option" where
  "new_gap st rmsg = do {
     (gap, R) \<leftarrow> nn_rdata_newgap (rx_refs st) rmsg;
     Some (gap, st\<lparr>rx_refs := R\<rparr>) }"

definition adjust_refs :: "rx \<Rightarrow> rdata list \<Rightarrow> nat \<Rightarrow> rx option" where
  "adjust_refs st fc adj = map_option (\<lambda>R. st\<lparr>rx_refs := R\<rparr>) (nn_fragchain_adjust_refcount (rx_refs st) fc (int adj))"

definition note_last_seq :: "seqno \<Rightarrow> nat \<Rightarrow> ddsi_proxy_writer \<Rightarrow> ddsi_proxy_writer" where
  "note_last_seq seq fragnum w =
     (if pwr_last_seq w < seq then w\<lparr>pwr_last_seq := seq, pwr_last_fragnum := fragnum\<rparr>
      else if seq = pwr_last_seq w \<and> pwr_last_fragnum w < fragnum then w\<lparr>pwr_last_fragnum := fragnum\<rparr>
      else w)"

definition match_last_seq :: "seqno \<Rightarrow> pwr_match \<Rightarrow> pwr_match" where
  "match_last_seq seq wn =
     (if rwn_last_seq (pm_ack wn) < seq then wn\<lparr>pm_ack := (pm_ack wn)\<lparr>rwn_last_seq := seq\<rparr>\<rparr> else wn)"

definition no_heartbeat_yet :: "receiver_state \<Rightarrow> proxy_writer \<Rightarrow> bool" where
  "no_heartbeat_yet rst p \<longleftrightarrow> \<not> have_seen_heartbeat p \<and> 0 < n_reliable_readers p \<and> vendor_eclipse rst"

definition dst_of :: "receiver_state \<Rightarrow> nat \<Rightarrow> guid" where
  "dst_of rst rdid = dst_guid_prefix rst * 2 ^ 32 + rdid"

text \<open>A gap message, which \<open>validate_Gap\<close> has accepted, from this proxy writer.\<close>

definition handle_Gap ::
  "rx_config \<Rightarrow> receiver_state \<Rightarrow> rx \<Rightarrow> nat \<Rightarrow> nat \<Rightarrow> seqno \<Rightarrow> seqno \<Rightarrow> nat \<Rightarrow> 32 word list \<Rightarrow> rx option" where
  "handle_Gap cfg rst st rmsg rdid gapstart listbase n bits = do {
     _ \<leftarrow> assertion (gapstart \<le> listbase \<and> 1 \<le> gapstart);
     listidx \<leftarrow> first_clear n bits 0;
     let dst = dst_of rst rdid;
     if \<not> forme rst \<or> find_reader (rx_pwr st) dst = None \<or> no_heartbeat_yet rst (rx_pwr st) then Some st
     else do {
       (gap, st0) \<leftarrow> new_gap st rmsg;
       (st1, adj1) \<leftarrow>
         (if gapstart < listbase + listidx then
            map_option snd (handle_one_gap cfg st0 (Some dst) gapstart (listbase + listidx) gap 0)
          else Some (st0, 0));
       (st2, adj2, excluded) \<leftarrow> gap_list cfg dst gap listbase n bits listidx st1 adj1 listidx;
       st3 \<leftarrow> adjust_refs st2 [gap] adj2;
       let lastseq = listbase + excluded - 1;
       let st4 = upd_pw (\<lambda>w. if pwr_last_seq w < lastseq then w\<lparr>pwr_last_seq := lastseq, pwr_last_fragnum := UINT32_MAX\<rparr> else w) st3;
       wn \<leftarrow> find_reader (rx_pwr st4) dst;
       Some (if rwn_filtered (pm_ack wn) then put_reader (match_last_seq lastseq wn) st4 else st4) } }"

text \<open>A sample that is too large: a gap in its place.\<close>

definition drop_oversize :: "rx_config \<Rightarrow> receiver_state \<Rightarrow> rx \<Rightarrow> nat \<Rightarrow> nat \<Rightarrow> rsample_info \<Rightarrow> rx option" where
  "drop_oversize cfg rst st rmsg rdid info = do {
     (gap, st0) \<leftarrow> new_gap st rmsg;
     let dst = dst_of rst rdid;
     (_, st1, adj) \<leftarrow> handle_one_gap cfg st0 (if find_reader (rx_pwr st) dst = None then None else Some dst)
        (si_seq info) (si_seq info + 1) gap 0;
     adjust_refs st1 [gap] adj }"

section \<open>Heartbeats\<close>

definition accept_ack_or_hb_w_timeout :: "u32 \<Rightarrow> u32 \<Rightarrow> int \<Rightarrow> int \<Rightarrow> bool \<Rightarrow> (u32 \<times> int) option" where
  "accept_ack_or_hb_w_timeout new_count prev_count tnow t_last_accepted force_accept =
     (if sint (new_count - prev_count) \<le> 0 \<and> tnow - t_last_accepted < 500000000 \<and> \<not> force_accept then None
      else Some (new_count, tnow))"

definition resched_xevent_if_earlier :: "int option \<Rightarrow> int \<Rightarrow> int option" where
  "resched_xevent_if_earlier ev tsched =
     (case ev of None \<Rightarrow> None
      | Some t \<Rightarrow> Some (if tsched = DDS_NEVER \<or> t \<le> tsched then t else tsched))"

record Heartbeat =
  hb_firstSN :: seqno
  hb_lastSN :: seqno
  hb_count :: u32
  hb_final :: bool
  hb_readerId :: nat

definition handle_Heartbeat_helper ::
  "rx_config \<Rightarrow> proxy_writer \<Rightarrow> Heartbeat \<Rightarrow> int \<Rightarrow> int \<Rightarrow> bool \<Rightarrow> pwr_match \<Rightarrow> pwr_match option" where
  "handle_Heartbeat_helper cfg p hb tnow tnow_mt directed wn =
     (if acknack_xevent wn = None then Some wn
      else (case accept_ack_or_hb_w_timeout (hb_count hb) (prev_heartbeat wn) tnow (t_heartbeat_accepted wn) False of
        None \<Rightarrow> Some wn
      | Some (c, t) \<Rightarrow> do {
          let m = (pm_ack wn)\<lparr>heartbeat_since_ack := True,
            ack_requested := (if \<not> hb_final hb then True else ack_requested (pm_ack wn)),
            directed_heartbeat := (if directed then True else directed_heartbeat (pm_ack wn))\<rparr>;
          tsched \<leftarrow> sched_acknack_if_needed (rc_ack cfg) (pw p) m (scratch cfg) tnow_mt True;
          Some (wn\<lparr>prev_heartbeat := c, t_heartbeat_accepted := t, pm_ack := m,
            acknack_xevent := (case tsched of None \<Rightarrow> acknack_xevent wn
              | Some x \<Rightarrow> resched_xevent_if_earlier (acknack_xevent wn) x)\<rparr>) }))"

text \<open>The readers addressed.\<close>

definition addressed :: "guid \<Rightarrow> guid \<Rightarrow> bool" where
  "addressed dst g \<longleftrightarrow>
     (if guid_prefix dst = 0 then guid_entityid dst = NN_ENTITYID_UNKNOWN \<or> guid_entityid g = guid_entityid dst
      else if guid_entityid dst = NN_ENTITYID_UNKNOWN then guid_prefix g = guid_prefix dst
      else g = dst)"

fun handle_forall_destinations :: "guid \<Rightarrow> (pwr_match \<Rightarrow> pwr_match option) \<Rightarrow> pwr_match list \<Rightarrow> pwr_match list option" where
  "handle_forall_destinations dst f [] = Some []"
| "handle_forall_destinations dst f (wn # wns) = do {
     wn' \<leftarrow> (if addressed dst (pm_guid wn) then f wn else Some wn);
     wns' \<leftarrow> handle_forall_destinations dst f wns;
     Some (wn' # wns') }"

text \<open>One reader that is not in sync, when a heartbeat arrives.\<close>

definition heartbeat_reader ::
  "rx_config \<Rightarrow> rdata \<Rightarrow> seqno \<Rightarrow> seqno \<Rightarrow> rx \<Rightarrow> nat \<Rightarrow> pwr_match \<Rightarrow> (rx \<times> nat \<times> pwr_match) option" where
  "heartbeat_reader cfg gap firstseq lastseq st adj wn0 =
     (let wn = (if end_of_tl_seq wn0 = MAX_SEQ_NUMBER then wn0\<lparr>end_of_tl_seq := lastseq\<rparr> else wn0) in
      case in_sync (pm_ack wn) of
        PRMSS_SYNC \<Rightarrow> Some (st, adj, wn0)
      | PRMSS_TLCATCHUP \<Rightarrow> do {
          _ \<leftarrow> assertion (0 < next_of (rx_pwr st));
          (st', wn') \<leftarrow> set_in_sync st wn (next_of (rx_pwr st) - 1);
          Some (st', adj, wn') }
      | PRMSS_OUT_OF_SYNC \<Rightarrow> do {
          (res, sc, wn1, st1, d) \<leftarrow> reader_gap st wn gap 1 firstseq;
          st2 \<leftarrow> (if 0 < res then deliver_to_reader cfg st1 (pm_guid wn) sc res else Some st1);
          _ \<leftarrow> assertion (0 < rd_next wn1);
          (st3, wn2) \<leftarrow> set_in_sync st2 wn1 (rd_next wn1 - 1);
          Some (st3, adj + d, wn2) })"

fun heartbeat_readers ::
  "rx_config \<Rightarrow> rdata \<Rightarrow> seqno \<Rightarrow> seqno \<Rightarrow> rx \<Rightarrow> nat \<Rightarrow> pwr_match list \<Rightarrow> (rx \<times> nat \<times> pwr_match list) option" where
  "heartbeat_readers cfg gap firstseq lastseq st adj [] = Some (st, adj, [])"
| "heartbeat_readers cfg gap firstseq lastseq st adj (wn # wns) = do {
     (st1, adj1, wn') \<leftarrow> heartbeat_reader cfg gap firstseq lastseq st adj wn;
     (st2, adj2, wns') \<leftarrow> heartbeat_readers cfg gap firstseq lastseq st1 adj1 wns;
     Some (st2, adj2, wn' # wns') }"

definition set_readers :: "pwr_match list \<Rightarrow> rx \<Rightarrow> rx" where
  "set_readers wns st = st\<lparr>rx_pwr := (rx_pwr st)\<lparr>readers := wns\<rparr>\<rparr>"

text \<open>The reader that a filtered message is for: the addressed one, if it has a filter.\<close>

definition filtered_dst :: "proxy_writer \<Rightarrow> guid \<Rightarrow> pwr_match option" where
  "filtered_dst p dst =
     (if pwr_filtered p \<and> dst \<noteq> 0 then
        (case find_reader p dst of None \<Rightarrow> None | Some wn \<Rightarrow> if rwn_filtered (pm_ack wn) then Some wn else None)
      else None)"

definition heartbeat_noted :: "Heartbeat \<Rightarrow> proxy_writer \<Rightarrow> proxy_writer" where
  "heartbeat_noted hb p = p\<lparr>have_seen_heartbeat := True, pw :=
     (if pwr_last_seq (pw p) < hb_lastSN hb
      then (pw p)\<lparr>pwr_last_seq := hb_lastSN hb, pwr_last_fragnum := UINT32_MAX\<rparr>
      else if pwr_last_fragnum (pw p) \<noteq> UINT32_MAX \<and> hb_lastSN hb = pwr_last_seq (pw p)
      then (pw p)\<lparr>pwr_last_fragnum := UINT32_MAX\<rparr> else pw p)\<rparr>"

text \<open>The gap before the first sample, for the reader with a filter, or for all.\<close>

definition heartbeat_filtered :: "rx \<Rightarrow> pwr_match \<Rightarrow> rdata \<Rightarrow> Heartbeat \<Rightarrow> (rx \<times> nat) option" where
  "heartbeat_filtered st wn gap hb = do {
     (res, sc, wn', st2, d) \<leftarrow> reader_gap st wn gap 1 (hb_firstSN hb);
     st3 \<leftarrow> (if 0 < res then queue_for_reader st2 (pm_guid wn) sc res else Some st2);
     Some (put_reader (match_last_seq (hb_lastSN hb) wn') st3, d) }"

definition heartbeat_group :: "rx_config \<Rightarrow> rx \<Rightarrow> rdata \<Rightarrow> seqno \<Rightarrow> Heartbeat \<Rightarrow> (rx \<times> nat) option" where
  "heartbeat_group cfg st gap gap_end_seq hb = do {
     (res, sc, st2, d) \<leftarrow> group_gap st gap 1 gap_end_seq;
     st3 \<leftarrow> (if 0 < res then deliver_to_group cfg st2 sc res else Some st2);
     (st4, adj, wns) \<leftarrow> heartbeat_readers cfg gap (hb_firstSN hb) (hb_lastSN hb) st3 d (readers (rx_pwr st3));
     Some (set_readers wns st4, adj) }"

definition handle_Heartbeat ::
  "rx_config \<Rightarrow> receiver_state \<Rightarrow> rx \<Rightarrow> nat \<Rightarrow> Heartbeat \<Rightarrow> int \<Rightarrow> int \<Rightarrow> rx option" where
  "handle_Heartbeat cfg rst st rmsg hb tnow tnow_mt =
     (if \<not> forme rst \<or> n_reliable_readers (rx_pwr st) = 0 then Some st
      else do {
        let dst = dst_of rst (hb_readerId hb);
        let gap_end_seq = (if have_seen_heartbeat (rx_pwr st) then hb_firstSN hb else (hb_lastSN hb + 1) mod 2 ^ 64);
        _ \<leftarrow> assertion (hb_firstSN hb \<le> gap_end_seq);
        st0 \<leftarrow> pwr_notegap (st\<lparr>rx_pwr := heartbeat_noted hb (rx_pwr st)\<rparr>) 1 gap_end_seq;
        (gap, st1) \<leftarrow> new_gap st0 rmsg;
        (st2, adj) \<leftarrow>
          (case filtered_dst (rx_pwr st1) dst of
             Some wn \<Rightarrow> heartbeat_filtered st1 wn gap hb
           | None \<Rightarrow> heartbeat_group cfg st1 gap gap_end_seq hb);
        st3 \<leftarrow> adjust_refs st2 [gap] adj;
        let directed = (hb_readerId hb \<noteq> NN_ENTITYID_UNKNOWN \<and> vendor_eclipse rst);
        wns \<leftarrow> handle_forall_destinations dst (handle_Heartbeat_helper cfg (rx_pwr st3) hb tnow tnow_mt directed)
          (readers (rx_pwr st3));
        Some (set_readers wns st3) })"

section \<open>Heartbeats for fragments\<close>

definition wants_late :: "seqno \<Rightarrow> pwr_match \<Rightarrow> bool" where
  "wants_late seq m \<longleftrightarrow> in_sync (pm_ack m) = PRMSS_OUT_OF_SYNC \<and> acknack_xevent m \<noteq> None \<and>
     nn_reorder_wantsample (rwn_reorder (pm_ack m)) seq"

text \<open>The reader that asks for the fragments; \<open>root\<close> is the one at the root of the tree.\<close>

definition heartbeatfrag_reader :: "proxy_writer \<Rightarrow> guid \<Rightarrow> bool \<Rightarrow> guid \<Rightarrow> seqno \<Rightarrow> pwr_match option" where
  "heartbeatfrag_reader p root directed dst seq =
     (if nn_reorder_wantsample (pwr_reorder (pw p)) seq then
        (if directed then (case find_reader p dst of None \<Rightarrow> None
           | Some m \<Rightarrow> if acknack_xevent m = None then None else Some m)
         else (case find_reader p root of None \<Rightarrow> None
           | Some m \<Rightarrow> if acknack_xevent m = None then List.find (\<lambda>m. acknack_xevent m \<noteq> None) (readers p) else Some m))
      else if seq < next_of p then
        (if directed then (case find_reader p dst of None \<Rightarrow> None
           | Some m \<Rightarrow> if wants_late seq m then Some m else None)
         else List.find (wants_late seq) (readers p))
      else None)"

definition handle_HeartbeatFrag ::
  "rx_config \<Rightarrow> receiver_state \<Rightarrow> rx \<Rightarrow> guid \<Rightarrow> nat \<Rightarrow> seqno \<Rightarrow> nat \<Rightarrow> int \<Rightarrow> rx option" where
  "handle_HeartbeatFrag cfg rst st root rdid seq lastFragmentNum tnow_mt =
     (if \<not> forme rst then Some st
      else do {
        let fragnum = lastFragmentNum - 1;
        let dst = dst_of rst rdid;
        let directed = (rdid \<noteq> NN_ENTITYID_UNKNOWN \<and> vendor_eclipse rst);
        let st0 = upd_pw (note_last_seq seq fragnum) st;
        let p = rx_pwr st0;
        if \<not> have_seen_heartbeat p \<or> readers p = [] \<or> local_matching_inprogress p then Some st0
        else (case heartbeatfrag_reader p root directed dst seq of
          None \<Rightarrow> Some st0
        | Some m \<Rightarrow> do {
            let m1 = m\<lparr>pm_ack := (pm_ack m)\<lparr>heartbeatfrag_since_ack := True,
              directed_heartbeat := (if directed then True else directed_heartbeat (pm_ack m))\<rparr>\<rparr>;
            let last = (if rwn_filtered (pm_ack m) then rwn_last_seq (pm_ack m) else pwr_last_seq (pw p));
            if seq = last then do {
              (res, _, _) \<leftarrow> nn_defrag_nackmap (pwr_defrag (pw p)) seq fragnum (nackfrag_set (scratch cfg))
                (nackfrag_bits (scratch cfg)) NN_FRAGMENT_NUMBER_SET_MAX_BITS;
              t \<leftarrow> ddsrt_mtime_add_duration tnow_mt (nack_delay (rc_ack cfg));
              Some (put_reader (if res = DEFRAG_NACKMAP_FRAGMENTS_MISSING
                then m1\<lparr>acknack_xevent := resched_xevent_if_earlier (acknack_xevent m1) t\<rparr> else m1) st0) }
            else Some (put_reader m1 st0) }) })"

section \<open>Data\<close>

definition trigger_deferred :: "rx \<Rightarrow> rx" where
  "trigger_deferred st = (case deferred_wakeup st of None \<Rightarrow> st | Some q \<Rightarrow> trigger True q st)"

text \<open>At the end of a packet the queue that still waits for it is woken up.\<close>

definition packet_done :: "rx \<Rightarrow> rx" where
  "packet_done st = (trigger_deferred st)\<lparr>deferred_wakeup := None\<rparr>"

text \<open>A chain from the reorder administration of the proxy writer.\<close>

definition deliver_data :: "rx_config \<Rightarrow> rx \<Rightarrow> rsample_chain_elem list \<Rightarrow> int \<Rightarrow> rx option" where
  "deliver_data cfg st sc rres =
     (if deliver_synchronously (rx_pwr st) then deliver_user_data_synchronously cfg (trigger_deferred st) sc None
      else do {
        (q, b) \<leftarrow> nn_dqueue_enqueue_deferred_wakeup (pwr_dqueue (pw (rx_pwr st))) sc rres;
        let st1 = upd_pw (\<lambda>w. w\<lparr>pwr_dqueue := q\<rparr>) st;
        Some (if b
          then (if deferred_wakeup st1 = Some (dqueue_id (rx_pwr st1)) then st1 else trigger_deferred st1)
                 \<lparr>deferred_wakeup := Some (dqueue_id (rx_pwr st1))\<rparr>
          else st1) })"

text \<open>A chain from the reorder administration of a reader.\<close>

definition deliver_late_data :: "rx_config \<Rightarrow> rx \<Rightarrow> guid \<Rightarrow> rsample_chain_elem list \<Rightarrow> int \<Rightarrow> rx option" where
  "deliver_late_data cfg st g sc rres =
     (if deliver_synchronously (rx_pwr st) then deliver_user_data_synchronously cfg st sc (Some g)
      else do {
        let st1 = (case deferred_wakeup st of None \<Rightarrow> st
          | Some q \<Rightarrow> if q = dqueue_id (rx_pwr st) then st else (trigger True q st)\<lparr>deferred_wakeup := None\<rparr>);
        queue_for_reader st1 g sc rres })"

text \<open>
  The readers that are not in sync. The duplicate of the sample that a reader has taken over is not used again; one that
  has been refused is as good as new.
\<close>

definition late_reader ::
  "rx_config \<Rightarrow> rsample \<Rightarrow> seqno \<Rightarrow> rx \<Rightarrow> nat \<Rightarrow> pwr_match \<Rightarrow> (rx \<times> nat \<times> pwr_match) option" where
  "late_reader cfg dup seq st adj wn = do {
     (rres, sc, r, R, d) \<leftarrow> nn_reorder_rsample (rwn_reorder (pm_ack wn)) (rx_refs st) dup
       (nn_dqueue_is_full (pwr_dqueue (pw (rx_pwr st))));
     let wn1 = set_reorder r wn;
     let st1 = st\<lparr>rx_refs := R\<rparr>;
     if rres \<le> 0 then Some (st1, adj + d, wn1)
     else do {
       (st2, wn2) \<leftarrow> set_in_sync st1 wn1 seq;
       st3 \<leftarrow> deliver_late_data cfg st2 (pm_guid wn) sc rres;
       Some (st3, adj + d, wn2) } }"

fun late_readers ::
  "rx_config \<Rightarrow> nat \<Rightarrow> rsample \<Rightarrow> seqno \<Rightarrow> rx \<Rightarrow> nat \<Rightarrow> pwr_match list \<Rightarrow> (rx \<times> nat \<times> pwr_match list) option" where
  "late_readers cfg rmsg rsample seq st adj [] = Some (st, adj, [])"
| "late_readers cfg rmsg rsample seq st adj (wn # wns) =
     (if in_sync (pm_ack wn) = PRMSS_SYNC then do {
        (st1, adj1, wns') \<leftarrow> late_readers cfg rmsg rsample seq st adj wns;
        Some (st1, adj1, wn # wns') }
      else do {
        dup \<leftarrow> nn_reorder_rsample_dup_first rmsg rsample;
        (st1, adj1, wn') \<leftarrow> late_reader cfg dup seq st adj wn;
        (st2, adj2, wns') \<leftarrow> late_readers cfg rmsg rsample seq st1 adj1 wns;
        Some (st2, adj2, wn' # wns') })"

text \<open>A complete sample that is for one reader with a filter.\<close>

definition filtered_sample ::
  "rx_config \<Rightarrow> rx \<Rightarrow> pwr_match \<Rightarrow> rsample \<Rightarrow> seqno \<Rightarrow> (rx \<times> nat) option" where
  "filtered_sample cfg st wn rsample seq = do {
     (rres, sc, r, R, adj) \<leftarrow> nn_reorder_rsample (rwn_reorder (pm_ack wn)) (rx_refs st) rsample
       (nn_dqueue_is_full (pwr_dqueue (pw (rx_pwr st))));
     let st1 = put_reader (match_last_seq seq (set_reorder r wn)) (st\<lparr>rx_refs := R\<rparr>);
     st2 \<leftarrow> (if 0 < rres then deliver_to_reader cfg st1 (pm_guid wn) sc rres else Some st1);
     Some (st2, adj) }"

text \<open>
  A complete sample that is for all. When no reader is reliable, nobody will ask for what is missing, and a sample that has been
  stored is released by a gap up to it.
\<close>

definition release_accepted :: "rx \<Rightarrow> rdata \<Rightarrow> seqno \<Rightarrow> (int \<times> rsample_chain_elem list \<times> rx) option" where
  "release_accepted st rdata seq = do {
     (rres, sc, st1, gap_adj) \<leftarrow> group_gap st rdata 1 seq;
     _ \<leftarrow> assertion (0 < rres);
     _ \<leftarrow> assertion (gap_adj = 0);
     Some (rres, sc, st1) }"

definition group_sample :: "rx_config \<Rightarrow> rx \<Rightarrow> nat \<Rightarrow> rdata \<Rightarrow> rsample \<Rightarrow> seqno \<Rightarrow> (rx \<times> nat) option" where
  "group_sample cfg st rmsg rdata rsample seq = do {
     (rres0, sc0, r, R, adj) \<leftarrow> nn_reorder_rsample (pwr_reorder (pw (rx_pwr st))) (rx_refs st) rsample False;
     let st0 = upd_pw (\<lambda>w. w\<lparr>pwr_reorder := r\<rparr>) (st\<lparr>rx_refs := R\<rparr>);
     (rres, sc, st1) \<leftarrow>
       (if rres0 = NN_REORDER_ACCEPT \<and> n_reliable_readers (rx_pwr st0) = 0 then release_accepted st0 rdata seq
        else Some (rres0, sc0, st0));
     st2 \<leftarrow> (if 0 < rres then deliver_data cfg st1 sc rres else Some st1);
     if 0 < n_readers_out_of_sync (rx_pwr st2) then do {
       (st3, adj', wns) \<leftarrow> late_readers cfg rmsg rsample seq st2 adj (readers (rx_pwr st2));
       Some (set_readers wns st3, adj') }
     else Some (st2, adj) }"

text \<open>A fragment or a whole sample, in a message that \<open>validate_Data\<close> or \<open>validate_DataFrag\<close> has accepted.\<close>

definition handle_regular ::
  "rx_config \<Rightarrow> receiver_state \<Rightarrow> rx \<Rightarrow> nat \<Rightarrow> nat \<Rightarrow> rsample_info \<Rightarrow> nat \<Rightarrow> rdata \<Rightarrow> rx option" where
  "handle_regular cfg rst st0 rmsg rdid info max_fragnum rdata = do {
     let p0 = rx_pwr st0;
     let st = st0\<lparr>rx_pwr := (if alive p0 then p0 else p0\<lparr>alive := True, alive_vclock := alive_vclock p0 + 1\<rparr>)\<rparr>;
     if no_heartbeat_yet rst (rx_pwr st) \<or> readers (rx_pwr st) = [] \<or> local_matching_inprogress (rx_pwr st) then Some st
     else do {
       let st1 = upd_pw (note_last_seq (si_seq info) max_fragnum) st;
       st2 \<leftarrow> clean_defrag st1;
       (res, d, R) \<leftarrow> nn_defrag_rsample (pwr_defrag (pw (rx_pwr st2))) (rx_refs st2) rdata info;
       let st3 = upd_pw (\<lambda>w. w\<lparr>pwr_defrag := d\<rparr>) (st2\<lparr>rx_refs := R\<rparr>);
       (case res of
          None \<Rightarrow> Some st3
        | Some rsample \<Rightarrow> do {
            fragchain \<leftarrow> nn_rsample_fragchain rsample;
            (st4, adj) \<leftarrow>
              (case filtered_dst (rx_pwr st3) (dst_of rst rdid) of
                 Some wn \<Rightarrow> filtered_sample cfg st3 wn rsample (si_seq info)
               | None \<Rightarrow> group_sample cfg st3 rmsg rdata rsample (si_seq info));
            adjust_refs st4 fragchain adj }) } }"

section \<open>Creation, and readers that come and go\<close>

definition get_proxy_writer_reorder_mode :: "bool \<Rightarrow> bool \<Rightarrow> nn_reorder_mode" where
  "get_proxy_writer_reorder_mode stateless isreliable =
     (if isreliable then NN_REORDER_MODE_NORMAL
      else if stateless then NN_REORDER_MODE_ALWAYS_DELIVER
      else NN_REORDER_MODE_MONOTONICALLY_INCREASING)"

text \<open>
  The flags are those of the entity id, of the quality of service and of the vendor; the queue is that of the caller, with
  its number.
\<close>

definition ddsi_new_proxy_writer ::
  "rx_config \<Rightarrow> bool \<Rightarrow> bool \<Rightarrow> bool \<Rightarrow> bool \<Rightarrow> bool \<Rightarrow> bool \<Rightarrow> nn_dqueue \<Rightarrow> nat \<Rightarrow> proxy_writer option" where
  "ddsi_new_proxy_writer cfg isreliable stateless builtin volatile_secure low_latency eclipse dq qid = do {
     defrag \<leftarrow> (if isreliable then nn_defrag_new NN_DEFRAG_DROP_LATEST (defrag_reliable_maxsamples cfg)
       else nn_defrag_new NN_DEFRAG_DROP_OLDEST (defrag_unreliable_maxsamples cfg));
     let reorder = nn_reorder_new (get_proxy_writer_reorder_mode stateless isreliable)
       (primary_reorder_maxsamples cfg) (late_ack (rc_ack cfg));
     Some \<lparr>pw = \<lparr>pwr_last_seq = 0, pwr_last_fragnum = UINT32_MAX, pwr_nackfragcount = 1, next_deliv_seq_lowword = 1,
         pwr_defrag = defrag,
         pwr_reorder = (if volatile_secure then nn_reorder_set_next_seq reorder MAX_SEQ_NUMBER else reorder),
         pwr_dqueue = dq\<rparr>,
       readers = [], n_reliable_readers = 0, n_readers_out_of_sync = 0,
       deliver_synchronously = (\<not> builtin \<and> low_latency), have_seen_heartbeat = (\<not> isreliable),
       local_matching_inprogress = True, alive = True, alive_vclock = 0, pwr_filtered = volatile_secure,
       fastpath_ok = True, pwr_builtin = builtin, pwr_reliable = isreliable, pwr_vendor_eclipse = eclipse,
       dqueue_id = qid\<rparr> }"

text \<open>When the readers that are there have been matched, data are accepted.\<close>

definition local_matching_done :: "proxy_writer \<Rightarrow> proxy_writer" where
  "local_matching_done p = p\<lparr>local_matching_inprogress := False\<rparr>"

record ddsi_reader =
  rd_guid :: guid
  rd_reliable :: bool
  handle_as_transient_local :: bool
  rd_builtin :: bool
  rd_volatile_secure :: bool

definition initial_sync :: "proxy_writer \<Rightarrow> ddsi_reader \<Rightarrow> pwr_rd_match_syncstate \<times> seqno" where
  "initial_sync p rd =
     (if rd_builtin rd \<and> readers p \<noteq> [] \<and> \<not> pwr_filtered p then (PRMSS_SYNC, 0)
      else if \<not> have_seen_heartbeat p \<or> \<not> handle_as_transient_local rd then
        (if handle_as_transient_local rd then PRMSS_OUT_OF_SYNC
         else if pwr_vendor_eclipse p then PRMSS_OUT_OF_SYNC else PRMSS_SYNC, MAX_SEQ_NUMBER)
      else (PRMSS_OUT_OF_SYNC, pwr_last_seq (pw p)))"

definition proxy_writer_add_connection :: "rx_config \<Rightarrow> proxy_writer \<Rightarrow> ddsi_reader \<Rightarrow> int \<Rightarrow> u32 \<Rightarrow> proxy_writer option" where
  "proxy_writer_add_connection cfg p rd tnow init_count =
     (if find_reader p (rd_guid rd) \<noteq> None then Some p
      else do {
        let (sync, end_tl) = initial_sync p rd;
        let p1 = (if sync \<noteq> PRMSS_SYNC then p\<lparr>n_readers_out_of_sync := n_readers_out_of_sync p + 1, fastpath_ok := False\<rparr> else p);
        tsched \<leftarrow> (if rd_reliable rd then map_option Some (ddsrt_mtime_add_duration tnow (preemptive_ack_delay cfg)) else Some None);
        let p2 = (if rd_reliable rd then p1\<lparr>n_reliable_readers := n_reliable_readers p1 + 1\<rparr> else p1);
        let reorder = nn_reorder_new (if rd_reliable rd then NN_REORDER_MODE_NORMAL else NN_REORDER_MODE_MONOTONICALLY_INCREASING)
          (if rd_reliable rd \<and> rd_volatile_secure rd then primary_reorder_maxsamples cfg else secondary_reorder_maxsamples cfg)
          (late_ack (rc_ack cfg));
        let m = \<lparr>rwn_count = init_count, hb_timestamp = 0, t_last_nack = 0, t_last_ack = 0, rwn_last_seq = 0,
          last_nack = \<lparr>seq_end_p1 = 0, seq_base = 0, frag_end_p1 = 0, frag_base = 0\<rparr>, in_sync = sync,
          ack_requested = False, heartbeat_since_ack = False, heartbeatfrag_since_ack = False, directed_heartbeat = False,
          rwn_nack_sent_on_nackdelay = False, rwn_filtered = (rd_reliable rd \<and> rd_volatile_secure rd), rwn_reorder = reorder\<rparr>;
        Some (p2\<lparr>readers := insort_key pm_guid \<lparr>pm_guid = rd_guid rd, acknack_xevent = tsched, prev_heartbeat = 0,
          t_heartbeat_accepted = 0, end_of_tl_seq = end_tl, pm_ack = m\<rparr> (readers p2)\<rparr>) })"

text \<open>
  When the last reliable reader has gone, the state goes back to that of a writer that no heartbeat has been seen from.
\<close>

definition forget_heartbeat :: "rx \<Rightarrow> rx option" where
  "forget_heartbeat st = do {
     let p = rx_pwr st;
     st1 \<leftarrow> pwr_notegap (st\<lparr>rx_pwr := p\<lparr>have_seen_heartbeat := False\<rparr>\<rparr>) 1 (pwr_last_seq (pw p) + 1);
     (r, R) \<leftarrow> nn_reorder_drop_upto (pwr_reorder (pw (rx_pwr st1))) (rx_refs st1) (pwr_last_seq (pw p) + 1);
     Some (upd_pw (\<lambda>w. w\<lparr>pwr_reorder := r\<rparr>) (st1\<lparr>rx_refs := R\<rparr>)) }"

definition prune_fragments :: "rx \<Rightarrow> guid \<Rightarrow> seqno \<Rightarrow> rx option" where
  "prune_fragments st g seq = do {
     (d, R) \<leftarrow> nn_defrag_prune (pwr_defrag (pw (rx_pwr st))) (rx_refs st) (guid_prefix g) seq;
     Some (upd_pw (\<lambda>w. w\<lparr>pwr_defrag := d\<rparr>) (st\<lparr>rx_refs := R\<rparr>)) }"

text \<open>
  The removal of a reader: \<open>reliable\<close> is that of the reader. The match is freed with the references its reorder administration
  holds.
\<close>

definition proxy_writer_drop_connection :: "rx \<Rightarrow> guid \<Rightarrow> bool \<Rightarrow> rx option" where
  "proxy_writer_drop_connection st g reliable =
     (case find_reader (rx_pwr st) g of
        None \<Rightarrow> Some st
      | Some m \<Rightarrow> do {
          let p1 = (rx_pwr st)\<lparr>readers := filter (\<lambda>x. pm_guid x \<noteq> g) (readers (rx_pwr st))\<rparr>;
          let p2 = (if in_sync (pm_ack m) \<noteq> PRMSS_SYNC then one_in_sync p1 else p1);
          let p3 = (if reliable then p2\<lparr>n_reliable_readers := n_reliable_readers p2 - 1\<rparr> else p2);
          let st1 = st\<lparr>rx_pwr := p3\<rparr>;
          st2 \<leftarrow>
            (if n_reliable_readers p3 = 0 \<and> pwr_reliable p3 \<and> have_seen_heartbeat p3 then forget_heartbeat st1 else Some st1);
          st3 \<leftarrow>
            (if rwn_filtered (pm_ack m) then prune_fragments st2 g (rwn_last_seq (pm_ack m)) else Some st2);
          R \<leftarrow> nn_reorder_free (rwn_reorder (pm_ack m)) (rx_refs st3);
          Some (st3\<lparr>rx_refs := R\<rparr>) })"

end
