(* ===== verification/Message_Model.thy ===== *)
theory Message_Model
  imports Proxy_Writer_Model
begin

text \<open>
  How a packet becomes calls of the handlers: \<open>handle_rtps_message\<close> and \<open>handle_submsg_sequence\<close> of
  \<open>src/core/ddsi/src/q_receive.c\<close>, the validation of the submessages, \<open>ddsi_plist_quickscan\<close>, and the gap messages
  that are sent.

  A message is a list of bytes, a submessage the bytes from its header on, as many as its size says. The code swaps the bytes of
  the fields in the buffer and checks the fields; the model reads each field with the byte order of the submessage (\<open>big\<close>: the
  machine has the other one, it is little endian). A read or a write outside the submessage is None, so that a validation that returns
  has stayed within it. A validation that accepts returns the fields that the handler uses. What is not compiled in
  without \<open>DDS_HAS_SECURITY\<close> is left out: there the messages are not decoded.
\<close>

section \<open>Fields\<close>

type_synonym bytes = "8 word list"

text \<open>The number that bytes stand for, the least significant byte first.\<close>

primrec le_nat :: "bytes \<Rightarrow> nat" where
  "le_nat [] = 0"
| "le_nat (b # bs) = unat b + 256 * le_nat bs"

definition field :: "bool \<Rightarrow> nat \<Rightarrow> nat \<Rightarrow> bytes \<Rightarrow> nat option" where
  "field big n off m = (if off + n \<le> length m
     then Some (le_nat (let bs = take n (drop off m) in if big then rev bs else bs)) else None)"

definition u8_at :: "nat \<Rightarrow> bytes \<Rightarrow> nat option" where
  "u8_at off m = field False 1 off m"

text \<open>Entity ids and guid prefixes are in network byte order.\<close>

definition nn_ntoh_entityid :: "nat \<Rightarrow> bytes \<Rightarrow> nat option" where
  "nn_ntoh_entityid off m = field True 4 off m"

definition nn_ntoh_guid_prefix :: "nat \<Rightarrow> bytes \<Rightarrow> nat option" where
  "nn_ntoh_guid_prefix off m = field True 12 off m"

text \<open>A sequence number: the high word, then the low word.\<close>

definition fromSN :: "bool \<Rightarrow> nat \<Rightarrow> bytes \<Rightarrow> seqno option" where
  "fromSN big off m = do {
     high \<leftarrow> field big 4 off m;
     low \<leftarrow> field big 4 (off + 4) m;
     Some (high * 2 ^ 32 + low) }"

text \<open>The test \<open>s - 1 < MAX_SEQ_NUMBER\<close>, the subtraction in 64 bits.\<close>

definition valid_SN :: "seqno \<Rightarrow> bool" where
  "valid_SN s \<longleftrightarrow> (s + 2 ^ 64 - 1) mod 2 ^ 64 < MAX_SEQ_NUMBER"

fun bitmap_at :: "bool \<Rightarrow> nat \<Rightarrow> nat \<Rightarrow> bytes \<Rightarrow> 32 word list option" where
  "bitmap_at big 0 off m = Some []"
| "bitmap_at big (Suc n) off m = do {
     w \<leftarrow> field big 4 off m;
     ws \<leftarrow> bitmap_at big n (off + 4) m;
     Some (word_of_nat w # ws) }"

definition BITS_SIZE :: "nat \<Rightarrow> nat" where
  "BITS_SIZE nbits = 4 * ((nbits + 31) div 32)"

definition ACKNACK_SIZE :: "nat \<Rightarrow> nat" where
  "ACKNACK_SIZE nbits = 24 + BITS_SIZE nbits + 4"

definition GAP_SIZE :: "nat \<Rightarrow> nat" where
  "GAP_SIZE nbits = 32 + BITS_SIZE nbits"

definition NACKFRAG_SIZE :: "nat \<Rightarrow> nat" where
  "NACKFRAG_SIZE nbits = 28 + BITS_SIZE nbits + 4"

text \<open>A bit of the flags.\<close>

definition flag :: "nat \<Rightarrow> nat \<Rightarrow> bool" where
  "flag flags n \<longleftrightarrow> odd (flags div 2 ^ n)"

definition WCTIME_INVALID :: int where
  "WCTIME_INVALID = - (2 ^ 63)"

section \<open>The receiver\<close>

text \<open>A vendor is its two bytes.\<close>

record rtps_receiver =
  rs_src :: nat
  rs_dst :: nat
  rs_forme :: bool
  rs_vendor :: "nat \<times> nat"
  rs_version :: "nat \<times> nat"

text \<open>
  The configuration; \<open>known_participant\<close> are the prefixes of the participants of this process, \<open>dst_prefix\<close> the one that the
  caller has given.
\<close>

record msg_config =
  strict :: bool
  fragment_size :: nat
  max_sample_size :: nat
  known_participant :: "nat \<Rightarrow> bool"
  dst_prefix :: "nat option"

definition vendor_is_eclipse :: "nat \<times> nat \<Rightarrow> bool" where
  "vendor_is_eclipse v \<longleftrightarrow> v = (1, 0x10)"

definition vendor_is_eprosima :: "nat \<times> nat \<Rightarrow> bool" where
  "vendor_is_eprosima v \<longleftrightarrow> v = (1, 0x0f)"

definition vendor_is_rti :: "nat \<times> nat \<Rightarrow> bool" where
  "vendor_is_rti v \<longleftrightarrow> v = (1, 0x01)"

section \<open>Validation\<close>

datatype 'a validation_result = VR_MALFORMED | VR_NOT_UNDERSTOOD | VR_ACCEPT 'a

definition ddsi_is_writer_entityid :: "nat \<Rightarrow> bool" where
  "ddsi_is_writer_entityid e \<longleftrightarrow> e mod 64 = 2 \<or> e mod 64 = 3"

definition ddsi_is_reader_entityid :: "nat \<Rightarrow> bool" where
  "ddsi_is_reader_entityid e \<longleftrightarrow> e mod 64 = 7 \<or> e mod 64 = 4"

text \<open>The fields that are accepted are an argument.\<close>

definition validate_writer_and_reader_entityid :: "nat \<Rightarrow> nat \<Rightarrow> 'a \<Rightarrow> 'a validation_result" where
  "validate_writer_and_reader_entityid wrid rdid x =
     (if ddsi_is_writer_entityid wrid \<and> ddsi_is_reader_entityid rdid then VR_ACCEPT x else VR_NOT_UNDERSTOOD)"

definition validate_writer_and_reader_or_null_entityid :: "nat \<Rightarrow> nat \<Rightarrow> 'a \<Rightarrow> 'a validation_result" where
  "validate_writer_and_reader_or_null_entityid wrid rdid x =
     (if ddsi_is_writer_entityid wrid \<and> (rdid = NN_ENTITYID_UNKNOWN \<or> ddsi_is_reader_entityid rdid)
      then VR_ACCEPT x else VR_NOT_UNDERSTOOD)"

definition valid_sequence_number_set :: "seqno \<Rightarrow> nat \<Rightarrow> bool" where
  "valid_sequence_number_set base nbits \<longleftrightarrow>
     valid_SN base \<and> nbits \<le> 256 \<and> nbits \<le> MAX_SEQ_NUMBER - base"

definition valid_fragment_number_set :: "nat \<Rightarrow> nat \<Rightarrow> bool" where
  "valid_fragment_number_set base nbits \<longleftrightarrow>
     0 < base \<and> nbits \<le> 256 \<and> nbits \<le> UINT32_MAX - base"

record AckNack =
  akn_readerId :: nat
  akn_writerId :: nat
  akn_base :: seqno
  akn_numbits :: nat
  akn_bits :: "32 word list"
  akn_count :: nat

definition validate_AckNack :: "msg_config \<Rightarrow> rtps_receiver \<Rightarrow> bool \<Rightarrow> bytes \<Rightarrow> AckNack validation_result option" where
  "validate_AckNack c rst big m =
     (if length m < ACKNACK_SIZE 0 then Some VR_MALFORMED
      else do {
        rdid \<leftarrow> nn_ntoh_entityid 4 m;
        wrid \<leftarrow> nn_ntoh_entityid 8 m;
        ackseq \<leftarrow> fromSN big 12 m;
        nbits \<leftarrow> field big 4 20 m;
        let valid = valid_sequence_number_set ackseq nbits;
        if \<not> valid \<and> \<not> (\<not> strict c \<and> ackseq = 0 \<and> nbits = 0 \<and>
             (vendor_is_eprosima (rs_vendor rst) \<or> vendor_is_rti (rs_vendor rst)))
        then Some VR_MALFORMED
        else if length m < ACKNACK_SIZE nbits then Some VR_MALFORMED
        else do {
          bits \<leftarrow> bitmap_at big ((nbits + 31) div 32) 24 m;
          cnt \<leftarrow> field big 4 (24 + BITS_SIZE nbits) m;
          Some (validate_writer_and_reader_entityid wrid rdid \<lparr>akn_readerId = rdid, akn_writerId = wrid,
            akn_base = (if valid then ackseq else 1), akn_numbits = nbits, akn_bits = bits, akn_count = cnt\<rparr>) } })"

record Gap =
  gap_readerId :: nat
  gap_writerId :: nat
  gap_start :: seqno
  gap_base :: seqno
  gap_numbits :: nat
  gap_bits :: "32 word list"

definition validate_Gap :: "bool \<Rightarrow> bytes \<Rightarrow> Gap validation_result option" where
  "validate_Gap big m =
     (if length m < GAP_SIZE 0 then Some VR_MALFORMED
      else do {
        rdid \<leftarrow> nn_ntoh_entityid 4 m;
        wrid \<leftarrow> nn_ntoh_entityid 8 m;
        gapstart \<leftarrow> fromSN big 12 m;
        gapend \<leftarrow> fromSN big 20 m;
        nbits \<leftarrow> field big 4 28 m;
        if \<not> valid_SN gapstart then Some VR_MALFORMED
        else if \<not> valid_sequence_number_set gapend nbits then Some VR_MALFORMED
        else if length m < GAP_SIZE nbits then Some VR_MALFORMED
        else do {
          bits \<leftarrow> bitmap_at big ((nbits + 31) div 32) 32 m;
          Some (validate_writer_and_reader_or_null_entityid wrid rdid \<lparr>gap_readerId = rdid, gap_writerId = wrid,
            gap_start = (if gapend < gapstart then gapend else gapstart), gap_base = gapend,
            gap_numbits = nbits, gap_bits = bits\<rparr>) } })"

definition validate_InfoDST :: "bytes \<Rightarrow> nat validation_result option" where
  "validate_InfoDST m =
     (if length m < 16 then Some VR_MALFORMED else map_option VR_ACCEPT (nn_ntoh_guid_prefix 4 m))"

record InfoSRC =
  src_version :: "nat \<times> nat"
  src_vendorid :: "nat \<times> nat"
  src_guid_prefix :: nat

definition validate_InfoSRC :: "bytes \<Rightarrow> InfoSRC validation_result option" where
  "validate_InfoSRC m =
     (if length m < 24 then Some VR_MALFORMED
      else do {
        major \<leftarrow> u8_at 8 m;
        minor \<leftarrow> u8_at 9 m;
        v0 \<leftarrow> u8_at 10 m;
        v1 \<leftarrow> u8_at 11 m;
        prefix \<leftarrow> nn_ntoh_guid_prefix 12 m;
        Some (VR_ACCEPT \<lparr>src_version = (major, minor), src_vendorid = (v0, v1), src_guid_prefix = prefix\<rparr>) })"

text \<open>A time is its seconds, signed, and its fraction of \<open>2 ^ 32\<close>.\<close>

definition ddsi_is_valid_timestamp :: "int \<Rightarrow> nat \<Rightarrow> bool" where
  "ddsi_is_valid_timestamp seconds fraction \<longleftrightarrow> seconds \<noteq> - 1 \<and> fraction \<noteq> UINT32_MAX"

definition from_ddsi_time :: "int \<Rightarrow> nat \<Rightarrow> int" where
  "from_ddsi_time seconds fraction =
     (if seconds = 2 ^ 31 - 1 \<and> fraction = UINT32_MAX then DDS_NEVER
      else seconds * 1000000000 + (2147483648 + int fraction * 1000000000) div 2 ^ 32)"

definition to_int32 :: "nat \<Rightarrow> int" where
  "to_int32 n = (if n < 2 ^ 31 then int n else int n - 2 ^ 32)"

text \<open>The time, or None when it is to be invalidated.\<close>

definition validate_InfoTS :: "bool \<Rightarrow> bytes \<Rightarrow> (int \<times> nat) option validation_result option" where
  "validate_InfoTS big m = do {
     _ \<leftarrow> assertion (4 \<le> length m);
     flags \<leftarrow> u8_at 1 m;
     if flag flags 1 then Some (VR_ACCEPT None)
     else if length m < 12 then Some VR_MALFORMED
     else do {
       seconds \<leftarrow> map_option to_int32 (field big 4 4 m);
       fraction \<leftarrow> field big 4 8 m;
       Some (if ddsi_is_valid_timestamp seconds fraction then VR_ACCEPT (Some (seconds, fraction)) else VR_MALFORMED) } }"

text \<open>The writer and the heartbeat.\<close>

definition validate_Heartbeat :: "bool \<Rightarrow> bytes \<Rightarrow> (nat \<times> Heartbeat) validation_result option" where
  "validate_Heartbeat big m =
     (if length m < 32 then Some VR_MALFORMED
      else do {
        flags \<leftarrow> u8_at 1 m;
        rdid \<leftarrow> nn_ntoh_entityid 4 m;
        wrid \<leftarrow> nn_ntoh_entityid 8 m;
        first \<leftarrow> fromSN big 12 m;
        last \<leftarrow> fromSN big 20 m;
        cnt \<leftarrow> field big 4 28 m;
        Some (if first = 0 \<or> last < first - 1 then VR_MALFORMED
          else validate_writer_and_reader_or_null_entityid wrid rdid
            (wrid, \<lparr>hb_firstSN = first, hb_lastSN = last, hb_count = word_of_nat cnt, hb_final = flag flags 1,
              hb_readerId = rdid\<rparr>)) })"

record HeartbeatFrag =
  hbf_readerId :: nat
  hbf_writerId :: nat
  hbf_writerSN :: seqno
  hbf_lastFragmentNum :: nat
  hbf_count :: nat

definition validate_HeartbeatFrag :: "bool \<Rightarrow> bytes \<Rightarrow> HeartbeatFrag validation_result option" where
  "validate_HeartbeatFrag big m =
     (if length m < 28 then Some VR_MALFORMED
      else do {
        rdid \<leftarrow> nn_ntoh_entityid 4 m;
        wrid \<leftarrow> nn_ntoh_entityid 8 m;
        seq \<leftarrow> fromSN big 12 m;
        lastfragnum \<leftarrow> field big 4 20 m;
        cnt \<leftarrow> field big 4 24 m;
        Some (if seq = 0 \<or> lastfragnum = 0 then VR_MALFORMED
          else validate_writer_and_reader_or_null_entityid wrid rdid
            \<lparr>hbf_readerId = rdid, hbf_writerId = wrid, hbf_writerSN = seq, hbf_lastFragmentNum = lastfragnum,
              hbf_count = cnt\<rparr>) })"

record NackFrag =
  nkf_readerId :: nat
  nkf_writerId :: nat
  nkf_writerSN :: seqno
  nkf_base :: nat
  nkf_numbits :: nat
  nkf_bits :: "32 word list"
  nkf_count :: nat

definition validate_NackFrag :: "bool \<Rightarrow> bytes \<Rightarrow> NackFrag validation_result option" where
  "validate_NackFrag big m =
     (if length m < NACKFRAG_SIZE 0 then Some VR_MALFORMED
      else do {
        rdid \<leftarrow> nn_ntoh_entityid 4 m;
        wrid \<leftarrow> nn_ntoh_entityid 8 m;
        seq \<leftarrow> fromSN big 12 m;
        base \<leftarrow> field big 4 20 m;
        nbits \<leftarrow> field big 4 24 m;
        if \<not> valid_fragment_number_set base nbits then Some VR_MALFORMED
        else if length m < NACKFRAG_SIZE nbits then Some VR_MALFORMED
        else do {
          bits \<leftarrow> bitmap_at big ((nbits + 31) div 32) 28 m;
          cnt \<leftarrow> field big 4 (28 + BITS_SIZE nbits) m;
          Some (validate_writer_and_reader_entityid wrid rdid \<lparr>nkf_readerId = rdid, nkf_writerId = wrid,
            nkf_writerSN = seq, nkf_base = base, nkf_numbits = nbits, nkf_bits = bits, nkf_count = cnt\<rparr>) } })"

section \<open>The inline QoS\<close>

text \<open>What the quick scan gathers; the offset of the key hash is that in the submessage.\<close>

record quickscan =
  qs_statusinfo :: nat
  qs_complex_qos :: bool
  qs_keyhash :: "nat option"

definition no_qos :: quickscan where
  "no_qos = \<lparr>qs_statusinfo = 0, qs_complex_qos = False, qs_keyhash = None\<rparr>"

text \<open>
  One parameter, of which \<open>pl\<close> is the offset of the value; the outer option is a read outside the submessage, the inner one an
  error.
\<close>

definition scan_param :: "nat \<Rightarrow> nat \<Rightarrow> nat \<Rightarrow> bytes \<Rightarrow> quickscan \<Rightarrow> quickscan option option" where
  "scan_param pid len pl m q =
     (if pid = 0 then Some (Some q)
      else if pid = 0x71 then
        (if len < 4 then Some None
         else do {
           stinfo \<leftarrow> field True 4 pl m;
           Some (Some (q\<lparr>qs_statusinfo := stinfo mod 4,
             qs_complex_qos := (if 4 \<le> stinfo then True else qs_complex_qos q)\<rparr>)) })
      else if pid = 0x70 then
        (if len < 16 then Some None
         else do {
           _ \<leftarrow> field True 16 pl m;
           Some (Some (q\<lparr>qs_keyhash := Some pl\<rparr>)) })
      else Some (Some (q\<lparr>qs_complex_qos := True\<rparr>)))"

text \<open>The loop: the parameter list goes from \<open>pl\<close> to the end of the submessage. Some (Some) is the offset behind the sentinel.\<close>

function quickscan_loop :: "bool \<Rightarrow> bytes \<Rightarrow> nat \<Rightarrow> quickscan \<Rightarrow> (nat \<times> quickscan) option option" where
  "quickscan_loop big m pl q =
     (if length m < pl + 4 then Some None
      else do {
        pid \<leftarrow> field big 2 pl m;
        len \<leftarrow> field big 2 (pl + 2) m;
        if pid = 1 then Some (Some (pl + 4, q))
        else if length m - (pl + 4) < len then Some None
        else if len mod 4 \<noteq> 0 then Some None
        else do {
          r \<leftarrow> scan_param pid len (pl + 4) m q;
          (case r of None \<Rightarrow> Some None | Some q' \<Rightarrow> quickscan_loop big m (pl + 4 + len) q') } })"
  by pat_completeness auto
termination
  by (relation "measure (\<lambda>(big, m, pl, q). length m - pl)") auto

declare quickscan_loop.simps [simp del]

definition ddsi_plist_quickscan :: "bool \<Rightarrow> bytes \<Rightarrow> nat \<Rightarrow> (nat \<times> quickscan) option option" where
  "ddsi_plist_quickscan big m pl = quickscan_loop big m pl no_qos"

section \<open>Data\<close>

text \<open>
  What the validation notes of a sample, the fields that reach the handlers and those of the model of the administration; \<open>si_dst\<close>
  is filled in with the receiver.
\<close>

record Data =
  dat_readerId :: nat
  dat_writerId :: nat
  dat_info :: rsample_info
  dat_complex_qos :: bool
  dat_keyhash :: "nat option"
  dat_payload :: "nat option"
  dat_payloadsz :: nat

definition sample_info :: "rtps_receiver \<Rightarrow> seqno \<Rightarrow> nat \<Rightarrow> nat \<Rightarrow> int \<Rightarrow> nat \<Rightarrow> rsample_info" where
  "sample_info rst seq sz fragsize timestamp statusinfo =
     \<lparr>si_seq = seq, si_dst = rs_dst rst, si_size = sz, si_fragsize = fragsize, si_timestamp = timestamp,
      si_statusinfo = statusinfo\<rparr>"

text \<open>The offset behind the inline QoS, if there is one, and what it says; the inner option is an error.\<close>

definition inline_qos :: "bool \<Rightarrow> nat \<Rightarrow> bytes \<Rightarrow> nat \<Rightarrow> (nat \<times> quickscan) option option" where
  "inline_qos big flags m ptr =
     (if flag flags 1 then ddsi_plist_quickscan big m ptr else Some (Some (ptr, no_qos)))"

definition validate_Data :: "rtps_receiver \<Rightarrow> int \<Rightarrow> bool \<Rightarrow> bytes \<Rightarrow> Data validation_result option" where
  "validate_Data rst timestamp big m =
     (if length m < 24 then Some VR_MALFORMED
      else do {
        flags \<leftarrow> u8_at 1 m;
        if flag flags 2 \<and> flag flags 3 then Some VR_MALFORMED
        else do {
          octets \<leftarrow> field big 2 6 m;
          rdid \<leftarrow> nn_ntoh_entityid 8 m;
          wrid \<leftarrow> nn_ntoh_entityid 12 m;
          seq \<leftarrow> fromSN big 16 m;
          let accept = (\<lambda>sz qos payload. Some (validate_writer_and_reader_or_null_entityid wrid rdid
            \<lparr>dat_readerId = rdid, dat_writerId = wrid,
             dat_info = sample_info rst seq sz 0 timestamp (qs_statusinfo qos),
             dat_complex_qos = qs_complex_qos qos, dat_keyhash = qs_keyhash qos, dat_payload = payload,
             dat_payloadsz = sz\<rparr>));
          if octets mod 4 \<noteq> 0 then Some VR_MALFORMED
          else if \<not> valid_SN seq then Some VR_MALFORMED
          else if \<not> flag flags 1 \<and> \<not> flag flags 2 \<and> \<not> flag flags 3 then accept 0 no_qos None
          else if length m < 8 + octets + 4 then Some VR_MALFORMED
          else do {
            scan \<leftarrow> inline_qos big flags m (8 + octets);
            (case scan of
               None \<Rightarrow> Some VR_MALFORMED
             | Some (ptr, qos) \<Rightarrow>
                 if \<not> flag flags 2 \<and> \<not> flag flags 3 then accept 0 qos None
                 else if length m < ptr + 4 then Some VR_MALFORMED
                 else accept (length m - ptr) qos (Some ptr)) } } })"

record DataFrag =
  dfr_data :: Data
  fragmentStartingNum :: nat
  fragmentsInSubmessage :: nat
  fragmentSize :: nat
  sampleSize :: nat

text \<open>The arithmetic of the lengths is in 32 bits.\<close>

definition payload_ok :: "nat \<Rightarrow> nat \<Rightarrow> nat \<Rightarrow> nat \<Rightarrow> nat \<Rightarrow> bool" where
  "payload_ok start cnt fragsize samplesize payloadsz \<longleftrightarrow>
     cnt * fragsize mod 2 ^ 32 \<le> payloadsz \<or>
     (cnt - 1) * fragsize mod 2 ^ 32 < payloadsz \<and>
     samplesize \<le> ((start - 1) * fragsize + payloadsz) mod 2 ^ 32"

definition validate_DataFrag :: "msg_config \<Rightarrow> rtps_receiver \<Rightarrow> int \<Rightarrow> bool \<Rightarrow> bytes \<Rightarrow> DataFrag validation_result option" where
  "validate_DataFrag c rst timestamp big m =
     (if length m < 36 then Some VR_MALFORMED
      else do {
        flags \<leftarrow> u8_at 1 m;
        octets \<leftarrow> field big 2 6 m;
        rdid \<leftarrow> nn_ntoh_entityid 8 m;
        wrid \<leftarrow> nn_ntoh_entityid 12 m;
        seq \<leftarrow> fromSN big 16 m;
        start \<leftarrow> field big 4 24 m;
        cnt \<leftarrow> field big 2 28 m;
        fragsize \<leftarrow> field big 2 30 m;
        samplesize \<leftarrow> field big 4 32 m;
        if octets mod 4 \<noteq> 0 then Some VR_MALFORMED
        else if strict c \<and> fragsize \<le> 1024 \<and> fragsize < fragment_size c then Some VR_MALFORMED
        else if fragsize = 0 \<or> start = 0 \<or> cnt = 0 then Some VR_MALFORMED
        else if UINT32_MAX - start < cnt then Some VR_MALFORMED
        else if strict c \<and> samplesize \<le> fragsize then Some VR_MALFORMED
        else if samplesize \<le> (start + cnt - 2) * fragsize then Some VR_MALFORMED
        else if \<not> valid_SN seq then Some VR_MALFORMED
        else if length m < 8 + octets + 4 then Some VR_MALFORMED
        else do {
          scan \<leftarrow> inline_qos big flags m (8 + octets);
          (case scan of
             None \<Rightarrow> Some VR_MALFORMED
           | Some (ptr, qos) \<Rightarrow>
               let payloadsz = length m - ptr in
               Some (if \<not> payload_ok start cnt fragsize samplesize payloadsz then VR_MALFORMED
                 else if start = 1 \<and> length m < ptr + 4 then VR_MALFORMED
                 else validate_writer_and_reader_or_null_entityid wrid rdid
                   \<lparr>dfr_data = \<lparr>dat_readerId = rdid, dat_writerId = wrid,
                      dat_info = sample_info rst seq samplesize fragsize timestamp (qs_statusinfo qos),
                      dat_complex_qos = qs_complex_qos qos, dat_keyhash = qs_keyhash qos, dat_payload = Some ptr,
                      dat_payloadsz = payloadsz\<rparr>,
                    fragmentStartingNum = start, fragmentsInSubmessage = cnt, fragmentSize = fragsize,
                    sampleSize = samplesize\<rparr>)) } })"

text \<open>The encoding of the payload: not one of the identifiers that are known, or whether its bytes are to be swapped.\<close>

definition CDR_ENC_IS_VALID :: "nat \<Rightarrow> bool" where
  "CDR_ENC_IS_VALID x \<longleftrightarrow> \<not> (0x0b00 < x \<or> x = 0x0400 \<or> x = 0x0500)"

definition set_sampleinfo_bswap :: "bytes \<Rightarrow> nat option \<Rightarrow> bool option" where
  "set_sampleinfo_bswap m payload =
     (case payload of None \<Rightarrow> Some True
      | Some ptr \<Rightarrow> map_option CDR_ENC_IS_VALID (field False 2 ptr m))"

section \<open>The handlers\<close>

text \<open>
  The calls that a message leads to, each with the receiver at that point and the source: the writer, or for acknowledgements the
  reader. \<open>Regular\<close>, \<open>Oversize\<close> and \<open>SPDP\<close> are what \<open>handle_Data\<close> and \<open>handle_DataFrag\<close> call, with the rdata, or with the sample that
  is too large. The message itself is \<open>rmsg\<close>.
\<close>

datatype submsg_call =
  CallAckNack rtps_receiver AckNack int
| CallNackFrag rtps_receiver NackFrag
| CallHeartbeat rtps_receiver nat Heartbeat
| CallHeartbeatFrag rtps_receiver HeartbeatFrag
| CallGap rtps_receiver Gap
| Regular rtps_receiver Data nat rdata
| Oversize rtps_receiver Data
| SPDP rtps_receiver Data rdata

definition is_builtin :: "nat \<Rightarrow> bool" where
  "is_builtin wrid \<longleftrightarrow> wrid mod 256 div 64 = 3"

definition is_spdp_writer :: "nat \<Rightarrow> bool" where
  "is_spdp_writer wrid \<longleftrightarrow> wrid = 0x100c2 \<or> wrid = 0xff0101c2"

text \<open>The calls of a whole sample and of a fragment.\<close>

definition handle_Data :: "msg_config \<Rightarrow> rtps_receiver \<Rightarrow> nat \<Rightarrow> Data \<Rightarrow> submsg_call list" where
  "handle_Data c rst rmsg d =
     (if \<not> rs_forme rst then []
      else if max_sample_size c < si_size (dat_info d) then [Oversize rst d]
      else let rdata = \<lparr>rd_rmsg = rmsg, rd_min = 0, rd_maxp1 = si_size (dat_info d)\<rparr> in
        if is_builtin (dat_writerId d) \<and> is_spdp_writer (dat_writerId d) then [SPDP rst d rdata]
        else [Regular rst d UINT32_MAX rdata])"

text \<open>The bytes of the sample that a fragment holds; \<open>n\<close> are the bytes from the payload to the end. The arithmetic is in 32 bits.\<close>

definition frag_range :: "DataFrag \<Rightarrow> nat \<Rightarrow> nat \<times> nat" where
  "frag_range d n =
     (let begin = (fragmentStartingNum d - 1) * fragmentSize d mod 2 ^ 32;
          len = fragmentSize d * fragmentsInSubmessage d mod 2 ^ 32;
          endp1 = (if n < len then (begin + n) mod 2 ^ 32 else (begin + len) mod 2 ^ 32) in
      (begin, if sampleSize d < endp1 then sampleSize d else endp1))"

definition handle_DataFrag :: "msg_config \<Rightarrow> rtps_receiver \<Rightarrow> nat \<Rightarrow> DataFrag \<Rightarrow> submsg_call list" where
  "handle_DataFrag c rst rmsg d =
     (if \<not> rs_forme rst then []
      else if max_sample_size c < si_size (dat_info (dfr_data d)) then [Oversize rst (dfr_data d)]
      else if is_builtin (dat_writerId (dfr_data d)) \<and> is_spdp_writer (dat_writerId (dfr_data d)) then []
      else (case frag_range d (dat_payloadsz (dfr_data d)) of (begin, endp1) \<Rightarrow>
        [Regular rst (dfr_data d) ((fragmentStartingNum d + fragmentsInSubmessage d - 2) mod 2 ^ 32)
           \<lparr>rd_rmsg = rmsg, rd_min = begin, rd_maxp1 = endp1\<rparr>]))"

definition handle_InfoDST :: "msg_config \<Rightarrow> nat \<Rightarrow> rtps_receiver \<Rightarrow> rtps_receiver" where
  "handle_InfoDST c prefix rst =
     (if prefix = 0 then rst\<lparr>rs_dst := (case dst_prefix c of None \<Rightarrow> 0 | Some p \<Rightarrow> p), rs_forme := True\<rparr>
      else rst\<lparr>rs_dst := prefix, rs_forme := known_participant c prefix\<rparr>)"

definition handle_InfoSRC :: "InfoSRC \<Rightarrow> rtps_receiver \<Rightarrow> rtps_receiver" where
  "handle_InfoSRC s rst =
     rst\<lparr>rs_src := src_guid_prefix s, rs_version := src_version s, rs_vendor := src_vendorid s\<rparr>"

definition handle_InfoTS :: "(int \<times> nat) option \<Rightarrow> int" where
  "handle_InfoTS t = (case t of None \<Rightarrow> WCTIME_INVALID | Some (s, f) \<Rightarrow> from_ddsi_time s f)"

section \<open>The submessages of a message\<close>

text \<open>What the loop over the submessages carries along, and what one submessage does to it: the state, the calls, and whether it is malformed.\<close>

record seq_state =
  sq_rst :: rtps_receiver
  sq_timestamp :: int
  sq_latmeas :: bool

definition latmeas_time :: "seq_state \<Rightarrow> int" where
  "latmeas_time s = (if sq_latmeas s then sq_timestamp s else WCTIME_INVALID)"

definition no_latmeas :: "seq_state \<Rightarrow> seq_state" where
  "no_latmeas s = s\<lparr>sq_latmeas := False\<rparr>"

text \<open>A message that is not accepted is ignored, and when it is malformed it ends the packet.\<close>

definition accepted ::
  "'a validation_result option \<Rightarrow> seq_state \<Rightarrow> ('a \<Rightarrow> (seq_state \<times> submsg_call list) option) \<Rightarrow>
    (bool \<times> seq_state \<times> submsg_call list) option" where
  "accepted v s f = do {
     r \<leftarrow> v;
     (case r of
        VR_MALFORMED \<Rightarrow> Some (True, s, [])
      | VR_NOT_UNDERSTOOD \<Rightarrow> Some (False, s, [])
      | VR_ACCEPT x \<Rightarrow> map_option (Pair False) (f x)) }"

definition submsg_Data ::
  "msg_config \<Rightarrow> nat \<Rightarrow> bool \<Rightarrow> bytes \<Rightarrow> seq_state \<Rightarrow> (bool \<times> seq_state \<times> submsg_call list) option" where
  "submsg_Data c rmsg big m s = do {
     v \<leftarrow> validate_Data (sq_rst s) (sq_timestamp s) big m;
     (case v of
        VR_ACCEPT d \<Rightarrow> do {
          ok \<leftarrow> set_sampleinfo_bswap m (dat_payload d);
          Some (if ok then (False, no_latmeas s, handle_Data c (sq_rst s) rmsg d) else (True, no_latmeas s, [])) }
      | VR_NOT_UNDERSTOOD \<Rightarrow> Some (False, no_latmeas s, [])
      | VR_MALFORMED \<Rightarrow> Some (True, no_latmeas s, [])) }"

definition submsg_DataFrag ::
  "msg_config \<Rightarrow> nat \<Rightarrow> bool \<Rightarrow> bytes \<Rightarrow> seq_state \<Rightarrow> (bool \<times> seq_state \<times> submsg_call list) option" where
  "submsg_DataFrag c rmsg big m s = do {
     v \<leftarrow> validate_DataFrag c (sq_rst s) (sq_timestamp s) big m;
     (case v of
        VR_ACCEPT d \<Rightarrow> do {
          ok \<leftarrow> (if fragmentStartingNum d = 1 then set_sampleinfo_bswap m (dat_payload (dfr_data d)) else Some True);
          Some (if ok then (False, no_latmeas s, handle_DataFrag c (sq_rst s) rmsg d) else (True, no_latmeas s, [])) }
      | VR_NOT_UNDERSTOOD \<Rightarrow> Some (False, no_latmeas s, [])
      | VR_MALFORMED \<Rightarrow> Some (True, no_latmeas s, [])) }"

text \<open>One submessage of kind \<open>smid\<close>.\<close>

definition handle_submsg ::
  "msg_config \<Rightarrow> nat \<Rightarrow> nat \<Rightarrow> bool \<Rightarrow> bytes \<Rightarrow> seq_state \<Rightarrow> (bool \<times> seq_state \<times> submsg_call list) option" where
  "handle_submsg c rmsg smid big m s =
     (let rst = sq_rst s; s' = no_latmeas s in
      if smid = 0x06 then
        accepted (validate_AckNack c rst big m) s' (\<lambda>a. Some (s', [CallAckNack rst a (latmeas_time s)]))
      else if smid = 0x07 then
        accepted (validate_Heartbeat big m) s' (\<lambda>(wrid, hb). Some (s', [CallHeartbeat rst wrid hb]))
      else if smid = 0x08 then accepted (validate_Gap big m) s' (\<lambda>g. Some (s', [CallGap rst g]))
      else if smid = 0x09 then
        accepted (validate_InfoTS big m) s (\<lambda>t. Some (s\<lparr>sq_timestamp := handle_InfoTS t, sq_latmeas := True\<rparr>, []))
      else if smid = 0x0c then
        accepted (validate_InfoSRC m) s (\<lambda>i. Some (s\<lparr>sq_rst := handle_InfoSRC i rst\<rparr>, []))
      else if smid = 0x0e then
        accepted (validate_InfoDST m) s (\<lambda>p. Some (s\<lparr>sq_rst := handle_InfoDST c p rst\<rparr>, []))
      else if smid = 0x12 then accepted (validate_NackFrag big m) s' (\<lambda>n. Some (s', [CallNackFrag rst n]))
      else if smid = 0x13 then accepted (validate_HeartbeatFrag big m) s' (\<lambda>h. Some (s', [CallHeartbeatFrag rst h]))
      else if smid = 0x15 then submsg_Data c rmsg big m s
      else if smid = 0x16 then submsg_DataFrag c rmsg big m s
      else if smid \<in> {0x01, 0x0d, 0x0f, 0x30, 0x31, 0x32, 0x33, 0x34, 0x81, 0x82} then Some (False, s, [])
      else Some (smid \<le> 0x7f \<and> (fst (rs_version rst) < 2 \<or> fst (rs_version rst) = 2 \<and> snd (rs_version rst) < 1), s', []))"

text \<open>The size of the submessage at the head of \<open>m\<close>: None when it is not a multiple of four.\<close>

definition submsg_size :: "nat \<Rightarrow> nat \<Rightarrow> bytes \<Rightarrow> nat option" where
  "submsg_size smid octets m =
     (if octets \<noteq> 0 then (if octets mod 4 = 0 then Some (4 + octets) else None)
      else if smid = 0x01 \<or> smid = 0x09 then Some 4
      else Some (length m))"

text \<open>The loop: the calls, and whether the packet is well formed.\<close>

function handle_submsg_sequence ::
  "msg_config \<Rightarrow> nat \<Rightarrow> bytes \<Rightarrow> seq_state \<Rightarrow> (submsg_call list \<times> bool) option" where
  "handle_submsg_sequence c rmsg m s =
     (if length m < 4 then Some ([], m = [])
      else do {
        smid \<leftarrow> u8_at 0 m;
        flags \<leftarrow> u8_at 1 m;
        let big = (\<not> flag flags 0);
        octets \<leftarrow> field big 2 2 m;
        (case submsg_size smid octets m of
           None \<Rightarrow> Some ([], False)
         | Some sz \<Rightarrow>
             if length m < sz then Some ([], False)
             else do {
               (malformed, s', calls) \<leftarrow> handle_submsg c rmsg smid big (take sz m) s;
               if malformed then Some (calls, False)
               else do {
                 (calls', ok) \<leftarrow> handle_submsg_sequence c rmsg (drop sz m) s';
                 Some (calls @ calls', ok) } }) })"
  by pat_completeness auto
termination
  by (relation "measure (\<lambda>(c, rmsg, m, s). length m)") (auto simp: submsg_size_def split: if_splits)

declare handle_submsg_sequence.simps [simp del]

text \<open>A packet: the header and the submessages. The magic number is the four letters.\<close>

definition handle_rtps_message :: "msg_config \<Rightarrow> nat \<Rightarrow> bytes \<Rightarrow> (submsg_call list \<times> bool) option" where
  "handle_rtps_message c rmsg m =
     (if length m < 20 then Some ([], True)
      else do {
        magic \<leftarrow> field True 4 0 m;
        major \<leftarrow> u8_at 4 m;
        minor \<leftarrow> u8_at 5 m;
        v0 \<leftarrow> u8_at 6 m;
        v1 \<leftarrow> u8_at 7 m;
        prefix \<leftarrow> nn_ntoh_guid_prefix 8 m;
        if magic \<noteq> 0x52545053 \<or> major \<noteq> 2 \<or> minor < 1 then Some ([], True)
        else handle_submsg_sequence c rmsg (drop 20 m)
          \<lparr>sq_rst = \<lparr>rs_src = prefix, rs_dst = (case dst_prefix c of None \<Rightarrow> 0 | Some p \<Rightarrow> p), rs_forme = True,
             rs_vendor = (v0, v1), rs_version = (major, minor)\<rparr>, sq_timestamp = WCTIME_INVALID, sq_latmeas = False\<rparr> })"

end
