(* ===== verification/Proxy_Writer_Counts.thy ===== *)
theory Proxy_Writer_Counts
  imports Proxy_Writer_Model Defrag
begin

text \<open>
  What a handler of the receive path does to the counts of the messages, whatever the state: it adds at most one bias, to the count of
  the message it handles, and lowers the others or leaves them. So a message whose count has room for as many biases as it has submessages
  keeps that room.
\<close>

section \<open>The reorder administration\<close>

lemma delete_last_le: "delete_last_sample r R = Some (r', R') \<Longrightarrow> R' m \<le> R m"
  by (auto simp: delete_last_sample_def bind_eq_Some_conv Let_def dest: unref_le [of _ _ _ m])

lemma hard_case_le: "hard_case r R s full = Some (res, sc, r', R', adj) \<Longrightarrow> R' m \<le> R m"
  by (auto simp: hard_case_def discard_sample_def bind_eq_Some_conv Let_def dest: delete_last_le [of _ _ _ _ m] split: if_splits)

lemma deliver_sample_refs: "deliver_sample r R s = Some (res, sc, r', R', adj) \<Longrightarrow> R' = R"
  by (auto simp: deliver_sample_def bind_eq_Some_conv Let_def)

lemma reorder_rsample_le:
  assumes "nn_reorder_rsample r R s full = Some (res, sc, r', R', adj)"
  shows "R' m \<le> R m"
proof -
  have eq: "discard_sample r R s x = Some (res, sc, r', R', adj) \<Longrightarrow> R' = R"
    "store_at_end r R s = Some (res, sc, r', R', adj) \<Longrightarrow> R' = R" "grow_last r R l s = Some (res, sc, r', R', adj) \<Longrightarrow> R' = R"
    for x l res sc r' R' adj
    by (auto simp: discard_sample_def store_at_end_def grow_last_def bind_eq_Some_conv)
  have "pred_option (\<lambda>p. fst (snd (snd (snd p))) m \<le> R m) (nn_reorder_rsample r R s full)"
    unfolding nn_reorder_rsample_def
    by (intro leaves) (auto simp: pred_option_def dest: eq hard_case_le [of _ _ _ _ _ _ _ _ _ m] deliver_sample_refs)
  from pred_option_Some [OF this assms] show ?thesis by simp
qed

lemma reorder_gap_le:
  assumes "nn_reorder_gap r R gap a b = Some (res, sc, r', R', adj)"
  shows "R' m \<le> R m"
proof -
  have "pred_option (\<lambda>p. fst (snd (snd (snd p))) m \<le> R m) (nn_reorder_gap r R gap a b)"
    unfolding nn_reorder_gap_def Let_def case_prod_beta
    by (intro leaves) (auto simp: bind_eq_Some_conv dest: delete_last_le [of _ _ _ _ m] split: if_splits)
  from pred_option_Some [OF this assms] show ?thesis by simp
qed

section \<open>Gaps in the defragmenter\<close>

lemma notegap_loop_le:
  assumes "notegap_loop d R hi s = Some (d', R')"
  shows "R' m \<le> R m"
proof -
  have "snd (d', R') m \<le> R m"
  proof (rule notegap_loop.raw_induct [OF _ assms, where P = "\<lambda>d R hi s p. snd p m \<le> R m"])
    fix loop d R hi s p
    assume ih: "\<And>d R hi s p. loop d R hi s = Some p \<Longrightarrow> snd p m \<le> R m"
      and b: "(if s \<noteq> None \<and> ds_seq (the s) < hi then do {
        (s1, d', R') \<leftarrow> map_option (Pair (find_succ stree (sampletree d) s)) (defrag_rsample_drop d R (the s));
        loop d' R' hi s1 } else Some (d, R)) = Some p"
    show "snd p m \<le> R m"
    proof (cases "s \<noteq> None \<and> ds_seq (the s) < hi")
      case False
      with b have "p = (d, R)" by (simp split: if_splits)
      then show ?thesis by simp
    next
      case True
      with b obtain d1 R1 where d1: "defrag_rsample_drop d R (the s) = Some (d1, R1)"
        "loop d1 R1 hi (find_succ stree (sampletree d) s) = Some p" by (auto simp: bind_eq_Some_conv)
      with ih [OF d1(2)] drop_le [OF d1(1), of m] show ?thesis by simp
    qed
  qed
  then show ?thesis by simp
qed

lemma pwr_notegap_le: "pwr_notegap st a b = Some st' \<Longrightarrow> rx_refs st' m \<le> rx_refs st m"
  by (auto simp: pwr_notegap_def nn_defrag_notegap_def bind_eq_Some_conv dest: notegap_loop_le [of _ _ _ _ _ _ m])

lemma clean_defrag_le: "clean_defrag st = Some st' \<Longrightarrow> rx_refs st' m \<le> rx_refs st m"
  by (auto simp: clean_defrag_def Let_def dest: pwr_notegap_le [of _ _ _ _ m])

section \<open>Delivery\<close>

lemma trigger_refs: "rx_refs (trigger b q st) = rx_refs st" "rx_refs (trigger_deferred st) = rx_refs st"
  by (simp_all add: trigger_def trigger_deferred_def split: option.split)

lemma deliver_user_data_refs: "deliver_user_data cfg st info fc g = Some st' \<Longrightarrow> rx_refs st' = rx_refs st"
  by (auto simp: deliver_user_data_def Let_def bind_eq_Some_conv)

lemma synchronously_le: "deliver_user_data_synchronously cfg st es g = Some st' \<Longrightarrow> rx_refs st' m \<le> rx_refs st m"
proof (induction es arbitrary: st)
  case (Cons e es)
  then obtain st1 R where s: "(case sce_sampleinfo e of Some info \<Rightarrow> deliver_user_data cfg st info (sce_fragchain e) g
      | None \<Rightarrow> Some st) = Some st1" "nn_fragchain_unref (rx_refs st1) (sce_fragchain e) = Some R"
    "deliver_user_data_synchronously cfg (st1\<lparr>rx_refs := R\<rparr>) es g = Some st'"
    by (auto simp: bind_eq_Some_conv)
  have "rx_refs st1 = rx_refs st" using s(1) by (auto dest: deliver_user_data_refs split: option.splits)
  with Cons.IH [OF s(3)] unref_le [OF s(2), of m] show ?case by simp
qed simp

lemma queue_for_reader_refs: "queue_for_reader st g sc res = Some st' \<Longrightarrow> rx_refs st' = rx_refs st"
  by (auto simp: queue_for_reader_def bind_eq_Some_conv trigger_refs)

lemma deliver_to_group_le: "deliver_to_group cfg st sc res = Some st' \<Longrightarrow> rx_refs st' m \<le> rx_refs st m"
  by (auto simp: deliver_to_group_def bind_eq_Some_conv trigger_refs dest: synchronously_le [of _ _ _ _ _ m] split: if_splits)

lemma deliver_to_reader_le: "deliver_to_reader cfg st g sc res = Some st' \<Longrightarrow> rx_refs st' m \<le> rx_refs st m"
  by (auto simp: deliver_to_reader_def dest: synchronously_le [of _ _ _ _ _ m] queue_for_reader_refs split: if_splits)

lemma deliver_data_le: "deliver_data cfg st sc res = Some st' \<Longrightarrow> rx_refs st' m \<le> rx_refs st m"
  by (auto simp: deliver_data_def bind_eq_Some_conv trigger_refs Let_def dest: synchronously_le [of _ _ _ _ _ m] split: if_splits)

lemma deliver_late_data_le: "deliver_late_data cfg st g sc res = Some st' \<Longrightarrow> rx_refs st' m \<le> rx_refs st m"
  by (auto simp: deliver_late_data_def Let_def trigger_refs dest: synchronously_le [of _ _ _ _ _ m] queue_for_reader_refs
      split: if_splits option.splits)


section \<open>The building blocks of the handlers\<close>

lemma group_gap_le: "group_gap st gap a b = Some (res, sc, st', d) \<Longrightarrow> rx_refs st' m \<le> rx_refs st m"
  by (auto simp: group_gap_def bind_eq_Some_conv dest: reorder_gap_le [of _ _ _ _ _ _ _ _ _ _ m])

lemma reader_gap_le: "reader_gap st wn gap a b = Some (res, sc, wn', st', d) \<Longrightarrow> rx_refs st' m \<le> rx_refs st m"
  by (auto simp: reader_gap_def bind_eq_Some_conv dest: reorder_gap_le [of _ _ _ _ _ _ _ _ _ _ m])

lemma set_in_sync_refs: "set_in_sync st wn q = Some (st', wn') \<Longrightarrow> rx_refs st' = rx_refs st"
  by (auto simp: set_in_sync_def bind_eq_Some_conv)

lemma put_reader_refs [simp]: "rx_refs (put_reader wn st) = rx_refs st" "rx_refs (set_readers wns st) = rx_refs st"
  by (simp_all add: put_reader_def set_readers_def)

lemma adjust_refs_le: "adjust_refs st fc adj = Some st' \<Longrightarrow> rx_refs st' m \<le> rx_refs st m"
  by (auto simp: adjust_refs_def dest: adjust_le [of _ _ _ _ m])

lemma new_gap_le: "new_gap st rmsg = Some (gap, st') \<Longrightarrow> rx_refs st' m \<le> rx_refs st m + (if rmsg = m then BIAS else 0)"
  by (auto simp: new_gap_def nn_rdata_newgap_def Let_def bind_eq_Some_conv split del: if_split dest: addbias_le [of _ _ _ m])

lemma gap_to_group_le:
  assumes "gap_to_group cfg st a b gap adj = Some (res, st', adj')"
  shows "rx_refs st' m \<le> rx_refs st m"
proof -
  obtain st0 res sc st1 d where "pwr_notegap st a b = Some st0" "group_gap st0 gap a b = Some (res, sc, st1, d)"
    "(if 0 < res then deliver_to_group cfg st1 sc res else Some st1) = Some st'"
    using assms by (auto simp: gap_to_group_def bind_eq_Some_conv)
  with pwr_notegap_le [of st a b st0 m] group_gap_le [of st0 gap a b res sc st1 d m] deliver_to_group_le [of cfg st1 sc res st' m]
  show ?thesis by (auto split: if_splits)
qed

lemma gap_to_reader_le:
  assumes "gap_to_reader cfg st w a b gap res adj = Some (v, w', st', adj')"
  shows "rx_refs st' m \<le> rx_refs st m"
proof (cases "in_sync (pm_ack w) = PRMSS_TLCATCHUP")
  case True
  with assms show ?thesis by (simp add: gap_to_reader_def)
next
  case False
  with assms obtain res2 sc w1 st1 d where "reader_gap st w gap a b = Some (res2, sc, w1, st1, d)"
    "(if 0 < res2 then deliver_to_reader cfg st1 (pm_guid w) sc res2 else Some st1) = Some st'"
    by (auto simp: gap_to_reader_def bind_eq_Some_conv)
  with reader_gap_le [of st w gap a b res2 sc w1 st1 d m] deliver_to_reader_le [of cfg st1 "pm_guid w" sc res2 st' m]
  show ?thesis by (auto split: if_splits)
qed

lemma handle_one_gap_le:
  assumes "handle_one_gap cfg st g a b gap adj = Some (v, st', adj')"
  shows "rx_refs st' m \<le> rx_refs st m"
proof -
  obtain wn res st1 adj1 where s: "(if \<not> (case wn of None \<Rightarrow> False | Some w \<Rightarrow> rwn_filtered (pm_ack w))
      then gap_to_group cfg st a b gap adj else Some (0, st, adj)) = Some (res, st1, adj1)"
    and t: "(case wn of
        None \<Rightarrow> Some (0 \<le> res, st1, adj1)
      | Some w \<Rightarrow>
          if in_sync (pm_ack w) = PRMSS_SYNC then Some (0 \<le> res, st1, adj1)
          else do {
            (valuable, w2, st2, adj2) \<leftarrow> gap_to_reader cfg st1 w a b gap res adj1;
            (st3, w3) \<leftarrow> set_in_sync st2 w2 (b - 1);
            Some (valuable, put_reader w3 st3, adj2) }) = Some (v, st', adj')"
    using assms by (auto simp: handle_one_gap_def bind_eq_Some_conv)
  have "rx_refs st1 m \<le> rx_refs st m" using s by (auto dest: gap_to_group_le [of _ _ _ _ _ _ _ _ _ m] split: if_splits)
  moreover have "rx_refs st' m \<le> rx_refs st1 m"
    using t by (auto simp: bind_eq_Some_conv dest!: gap_to_reader_le [of _ _ _ _ _ _ _ _ _ _ _ _ m] set_in_sync_refs
        split: option.splits if_splits)
  ultimately show ?thesis by simp
qed

lemma gap_list_le: "gap_list cfg g gap base n bits i st adj e = Some (st', adj', e') \<Longrightarrow> rx_refs st' m \<le> rx_refs st m"
proof (induction cfg g gap base n bits i st adj e rule: gap_list.induct)
  case (1 cfg g gap base n bits i st adj e)
  show ?case
  proof (cases "n \<le> i")
    case True
    with "1.prems" show ?thesis by (subst (asm) gap_list.simps) simp
  next
    case False
    with "1.prems" obtain b where b: "nn_bitset_isset n bits i = Some b"
      by (subst (asm) gap_list.simps) (auto simp: bind_eq_Some_conv)
    show ?thesis
    proof (cases b)
      case no: False
      have "gap_list cfg g gap base n bits (i + 1) st adj e = Some (st', adj', e')"
        using "1.prems" False b no by (subst (asm) gap_list.simps) simp
      from "1.IH"(1) [OF False b _ this] no show ?thesis by simp
    next
      case True
      obtain j v st1 adj1 where j: "first_clear n bits (i + 1) = Some j"
        "handle_one_gap cfg st (Some g) (base + i) (base + j) gap adj = Some (v, st1, adj1)" "assertion (1 \<le> j) = Some ()"
        "gap_list cfg g gap base n bits j st1 adj1 j = Some (st', adj', e')"
        using "1.prems" False b True by (subst (asm) gap_list.simps) (auto simp: bind_eq_Some_conv)
      from "1.IH"(2) [OF False b _ j(1,2) refl refl j(3,4)] True handle_one_gap_le [OF j(2), of m] show ?thesis by simp
    qed
  qed
qed

section \<open>Gaps and heartbeats\<close>

lemma handle_Gap_le:
  assumes "handle_Gap cfg rst st rmsg rdid gapstart listbase n bits = Some st'"
  shows "rx_refs st' m \<le> rx_refs st m + (if rmsg = m then BIAS else 0)"
proof (cases "\<not> forme rst \<or> find_reader (rx_pwr st) (dst_of rst rdid) = None \<or> no_heartbeat_yet rst (rx_pwr st)")
  case True
  with assms show ?thesis by (auto simp: handle_Gap_def bind_eq_Some_conv)
next
  case False
  let ?dst = "dst_of rst rdid"
  obtain i gap st0 st1 adj1 st2 adj2 e st3 where s0: "new_gap st rmsg = Some (gap, st0)"
    and s1: "(if gapstart < listbase + i then map_option snd (handle_one_gap cfg st0 (Some ?dst) gapstart (listbase + i) gap 0)
        else Some (st0, 0)) = Some (st1, adj1)"
    and s2: "gap_list cfg ?dst gap listbase n bits i st1 adj1 i = Some (st2, adj2, e)"
    and s3: "adjust_refs st2 [gap] adj2 = Some st3" "rx_refs st' = rx_refs st3"
    using assms [unfolded handle_Gap_def Let_def if_not_P [OF False]]
    by (auto simp: bind_eq_Some_conv split del: if_split) (auto split: if_splits)
  have "rx_refs st1 m \<le> rx_refs st0 m" using s1 by (auto dest: handle_one_gap_le [of _ _ _ _ _ _ _ _ _ _ m] split: if_splits)
  with new_gap_le [OF s0, of m] gap_list_le [OF s2, of m] adjust_refs_le [OF s3(1), of m] s3(2) show ?thesis by simp
qed

lemma drop_oversize_le:
  assumes "drop_oversize cfg rst st rmsg rdid info = Some st'"
  shows "rx_refs st' m \<le> rx_refs st m + (if rmsg = m then BIAS else 0)"
proof -
  obtain gap st0 g v st1 adj where s: "new_gap st rmsg = Some (gap, st0)"
    "handle_one_gap cfg st0 g (si_seq info) (si_seq info + 1) gap 0 = Some (v, st1, adj)" "adjust_refs st1 [gap] adj = Some st'"
    using assms unfolding drop_oversize_def Let_def by (auto simp: bind_eq_Some_conv split del: if_split)
  with new_gap_le [OF s(1), of m] handle_one_gap_le [OF s(2), of m] adjust_refs_le [OF s(3), of m] show ?thesis by simp
qed

lemma heartbeat_reader_le:
  assumes "heartbeat_reader cfg gap a b st adj w = Some (st', adj', w')"
  shows "rx_refs st' m \<le> rx_refs st m"
  using assms unfolding heartbeat_reader_def Let_def
  by (auto simp: bind_eq_Some_conv simp del: if_split split: pwr_rd_match_syncstate.splits if_split_asm
      dest!: set_in_sync_refs reader_gap_le [of _ _ _ _ _ _ _ _ _ _ m] deliver_to_reader_le [of _ _ _ _ _ _ m])

lemma heartbeat_readers_le: "heartbeat_readers cfg gap a b st adj wns = Some (st', adj', wns') \<Longrightarrow> rx_refs st' m \<le> rx_refs st m"
proof (induction wns arbitrary: st adj st' adj' wns')
  case (Cons w wns)
  then obtain st1 adj1 w' wns1 where s: "heartbeat_reader cfg gap a b st adj w = Some (st1, adj1, w')"
    "heartbeat_readers cfg gap a b st1 adj1 wns = Some (st', adj', wns1)" by (auto simp: bind_eq_Some_conv)
  from Cons.IH [OF s(2)] heartbeat_reader_le [OF s(1), of m] show ?case by simp
qed simp

lemma heartbeat_filtered_le: "heartbeat_filtered st wn gap hb = Some (st', d) \<Longrightarrow> rx_refs st' m \<le> rx_refs st m"
  by (auto simp: heartbeat_filtered_def bind_eq_Some_conv dest!: reader_gap_le [of _ _ _ _ _ _ _ _ _ _ m] queue_for_reader_refs
      split: if_splits)

lemma heartbeat_group_le:
  assumes "heartbeat_group cfg st gap b hb = Some (st', d)"
  shows "rx_refs st' m \<le> rx_refs st m"
proof -
  obtain res sc st2 e st3 st4 adj wns where s: "group_gap st gap 1 b = Some (res, sc, st2, e)"
    "(if 0 < res then deliver_to_group cfg st2 sc res else Some st2) = Some st3"
    "heartbeat_readers cfg gap (hb_firstSN hb) (hb_lastSN hb) st3 e (readers (rx_pwr st3)) = Some (st4, adj, wns)"
    "st' = set_readers wns st4"
    using assms by (auto simp: heartbeat_group_def bind_eq_Some_conv split del: if_split)
  have "rx_refs st3 m \<le> rx_refs st2 m" using s(2) by (auto dest: deliver_to_group_le [of _ _ _ _ _ m] split: if_splits)
  with group_gap_le [OF s(1), of m] heartbeat_readers_le [OF s(3), of m] s(4) show ?thesis by simp
qed

lemma handle_Heartbeat_le:
  assumes "handle_Heartbeat cfg rst st rmsg hb tnow tnow_mt = Some st'"
  shows "rx_refs st' m \<le> rx_refs st m + (if rmsg = m then BIAS else 0)"
proof (cases "\<not> forme rst \<or> n_reliable_readers (rx_pwr st) = 0")
  case True
  with assms show ?thesis by (simp add: handle_Heartbeat_def)
next
  case False
  obtain b st0 gap st1 st2 adj st3 wns where s0: "pwr_notegap (st\<lparr>rx_pwr := heartbeat_noted hb (rx_pwr st)\<rparr>) 1 b = Some st0"
    and s1: "new_gap st0 rmsg = Some (gap, st1)"
    and s2: "(case filtered_dst (rx_pwr st1) (dst_of rst (hb_readerId hb)) of Some wn \<Rightarrow> heartbeat_filtered st1 wn gap hb
      | None \<Rightarrow> heartbeat_group cfg st1 gap b hb) = Some (st2, adj)"
    and s3: "adjust_refs st2 [gap] adj = Some st3" "st' = set_readers wns st3"
    using assms False unfolding handle_Heartbeat_def Let_def by (auto simp: bind_eq_Some_conv split del: if_split)
  have "rx_refs st2 m \<le> rx_refs st1 m"
    using s2 by (auto dest: heartbeat_filtered_le [of _ _ _ _ _ _ m] heartbeat_group_le [of _ _ _ _ _ _ _ m] split: option.splits)
  with pwr_notegap_le [OF s0, of m] new_gap_le [OF s1, of m] adjust_refs_le [OF s3(1), of m] s3(2) show ?thesis by simp
qed

lemma handle_HeartbeatFrag_refs:
  "handle_HeartbeatFrag cfg rst st root rdid seq lastnum tnow_mt = Some st' \<Longrightarrow> rx_refs st' = rx_refs st"
  unfolding handle_HeartbeatFrag_def Let_def
  by (auto simp: bind_eq_Some_conv simp del: if_split split: if_split_asm option.splits)

section \<open>Data\<close>

lemma late_reader_le:
  assumes "late_reader cfg dup seq st adj w = Some (st', adj', w')"
  shows "rx_refs st' m \<le> rx_refs st m"
proof -
  obtain rres sc r R d where s: "nn_reorder_rsample (rwn_reorder (pm_ack w)) (rx_refs st) dup
      (nn_dqueue_is_full (pwr_dqueue (pw (rx_pwr st)))) = Some (rres, sc, r, R, d)"
    using assms by (auto simp: late_reader_def bind_eq_Some_conv)
  have "rx_refs st' m \<le> R m"
    using assms s by (auto simp: late_reader_def Let_def bind_eq_Some_conv split: if_splits
        dest!: set_in_sync_refs deliver_late_data_le [of _ _ _ _ _ _ m])
  with reorder_rsample_le [OF s, of m] show ?thesis by simp
qed

lemma late_readers_le: "late_readers cfg rmsg rs seq st adj wns = Some (st', adj', wns') \<Longrightarrow> rx_refs st' m \<le> rx_refs st m"
proof (induction wns arbitrary: st adj st' adj' wns')
  case (Cons w wns)
  show ?case
  proof (cases "in_sync (pm_ack w) = PRMSS_SYNC")
    case True
    with Cons show ?thesis by (auto simp: bind_eq_Some_conv)
  next
    case False
    with Cons.prems obtain dup st1 adj1 w' wns1 where s: "late_reader cfg dup seq st adj w = Some (st1, adj1, w')"
      "late_readers cfg rmsg rs seq st1 adj1 wns = Some (st', adj', wns1)" by (auto simp: bind_eq_Some_conv)
    from Cons.IH [OF s(2)] late_reader_le [OF s(1), of m] show ?thesis by simp
  qed
qed simp

lemma filtered_sample_le:
  assumes "filtered_sample cfg st wn rs seq = Some (st', adj)"
  shows "rx_refs st' m \<le> rx_refs st m"
proof -
  obtain rres sc r R d where s: "nn_reorder_rsample (rwn_reorder (pm_ack wn)) (rx_refs st) rs
      (nn_dqueue_is_full (pwr_dqueue (pw (rx_pwr st)))) = Some (rres, sc, r, R, d)"
    using assms by (auto simp: filtered_sample_def bind_eq_Some_conv)
  have "rx_refs st' m \<le> R m"
    using assms s by (auto simp: filtered_sample_def Let_def bind_eq_Some_conv split: if_splits
        dest: deliver_to_reader_le [of _ _ _ _ _ _ m])
  with reorder_rsample_le [OF s, of m] show ?thesis by simp
qed

lemma group_sample_le:
  assumes "group_sample cfg st rmsg rdata rs seq = Some (st', adj)"
  shows "rx_refs st' m \<le> rx_refs st m"
proof -
  obtain rres0 sc0 r R adj0 where
    s0: "nn_reorder_rsample (pwr_reorder (pw (rx_pwr st))) (rx_refs st) rs False = Some (rres0, sc0, r, R, adj0)"
    using assms by (auto simp: group_sample_def bind_eq_Some_conv)
  define st0 where "st0 = upd_pw (\<lambda>w. w\<lparr>pwr_reorder := r\<rparr>) (st\<lparr>rx_refs := R\<rparr>)"
  note code = assms [unfolded group_sample_def s0 option_bind_Some prod.case Let_def, folded st0_def, unfolded bind_eq_Some_conv]
  obtain rres sc st1 st2 where s1: "(if rres0 = NN_REORDER_ACCEPT \<and> n_reliable_readers (rx_pwr st0) = 0 then release_accepted st0 rdata seq
        else Some (rres0, sc0, st0)) = Some (rres, sc, st1)"
    and s2: "(if 0 < rres then deliver_data cfg st1 sc rres else Some st1) = Some st2"
    and s3: "(if 0 < n_readers_out_of_sync (rx_pwr st2) then do {
       (st3, adj', wns) \<leftarrow> late_readers cfg rmsg rs seq st2 adj0 (readers (rx_pwr st2));
       Some (set_readers wns st3, adj') } else Some (st2, adj0)) = Some (st', adj)"
    using code by (elim exE conjE) (simp only: split_paired_all prod.case bind_eq_Some_conv, blast)
  have "rx_refs st1 m \<le> rx_refs st0 m"
    using s1 by (auto simp: release_accepted_def bind_eq_Some_conv dest: group_gap_le [of _ _ _ _ _ _ _ _ m] split: if_splits)
  moreover have "rx_refs st2 m \<le> rx_refs st1 m" using s2 by (auto dest: deliver_data_le [of _ _ _ _ _ m] split: if_splits)
  moreover have "rx_refs st' m \<le> rx_refs st2 m"
    using s3 by (auto simp: bind_eq_Some_conv dest: late_readers_le [of _ _ _ _ _ _ _ _ _ _ m] split: if_splits)
  ultimately show ?thesis using reorder_rsample_le [OF s0, of m] by (simp add: st0_def)
qed

lemma handle_regular_le:
  assumes "handle_regular cfg rst st rmsg rdid info mf rdata = Some st'"
  shows "rx_refs st' m \<le> rx_refs st m + one_bias rdata m"
proof -
  define s0 where "s0 = st\<lparr>rx_pwr := (if alive (rx_pwr st) then rx_pwr st
    else (rx_pwr st)\<lparr>alive := True, alive_vclock := alive_vclock (rx_pwr st) + 1\<rparr>)\<rparr>"
  have r0: "rx_refs s0 = rx_refs st" by (simp add: s0_def)
  show ?thesis
  proof (cases "no_heartbeat_yet rst (rx_pwr s0) \<or> readers (rx_pwr s0) = [] \<or> local_matching_inprogress (rx_pwr s0)")
    case True
    have "Some s0 = Some st'" using assms [unfolded handle_regular_def Let_def, folded s0_def, unfolded if_P [OF True]] .
    with r0 show ?thesis by simp
  next
    case False
    note code = assms [unfolded handle_regular_def Let_def, folded s0_def, unfolded if_not_P [OF False]]
    obtain s2 res d R where s2: "clean_defrag (upd_pw (note_last_seq (si_seq info) mf) s0) = Some s2"
      "nn_defrag_rsample (pwr_defrag (pw (rx_pwr s2))) (rx_refs s2) rdata info = Some (res, d, R)"
      using code [unfolded bind_eq_Some_conv] by auto
    define s3 where "s3 = upd_pw (\<lambda>w. w\<lparr>pwr_defrag := d\<rparr>) (s2\<lparr>rx_refs := R\<rparr>)"
    note code3 = code [unfolded s2 option_bind_Some prod.case, folded s3_def]
    have R: "R m \<le> rx_refs st m + one_bias rdata m"
      using clean_defrag_le [OF s2(1), of m] nn_defrag_rsample_le [OF s2(2), of m] r0 by (simp split del: if_split)
    have "rx_refs st' m \<le> R m"
    proof (cases res)
      case None
      with code3 show ?thesis by (auto simp: s3_def)
    next
      case (Some rs)
      obtain fc s4 adj where s: "(case filtered_dst (rx_pwr s3) (dst_of rst rdid) of Some wn \<Rightarrow> filtered_sample cfg s3 wn rs (si_seq info)
          | None \<Rightarrow> group_sample cfg s3 rmsg rdata rs (si_seq info)) = Some (s4, adj)" "adjust_refs s4 fc adj = Some st'"
        using code3 Some by (auto simp: bind_eq_Some_conv)
      have "rx_refs s4 m \<le> rx_refs s3 m" using s(1)
        by (auto dest: filtered_sample_le [of _ _ _ _ _ _ _ m] group_sample_le [of _ _ _ _ _ _ _ _ m] split: option.splits)
      with adjust_refs_le [OF s(2), of m] show ?thesis by (simp add: s3_def)
    qed
    with R show ?thesis by (simp split del: if_split)
  qed
qed

end
