(* ===== verification/Reorder_Contract.thy ===== *)
theory Reorder_Contract
  imports Reorder_Runs
begin

text \<open>
  What the receive path relies on when it hands a sample or a gap to a reorder administration: one
  contract for both operations, whatever becomes of what is handed over.
\<close>

text \<open>
  \<open>es\<close> are the chain elements that come in, for the numbers \<open>X\<close>. Nothing is made up: what is stored or
  handed out has been stored before or has just come in, and a chain comes with a positive return value.
\<close>

definition took ::
  "nn_reorder \<Rightarrow> refs \<Rightarrow> rsample_chain_elem list \<Rightarrow> seqno set \<Rightarrow> reorder_result \<Rightarrow> bool" where
  "took r R es X res \<longleftrightarrow> (case res of (c, sc, r', R', adj) \<Rightarrow>
     reorder_ok r' \<and> ro_mode r' = ro_mode r \<and> ro_max_samples r' = ro_max_samples r \<and>
     accounted r R (chain_frags es) sc r' R' adj \<and> adj \<le> 1 \<and>
     (if 0 < c then sc \<noteq> [] else sc = []) \<and>
     set (chains (ivs_of r')) \<union> set sc \<subseteq> set (chains (ivs_of r)) \<union> set es \<and>
     cov (ivs_of r') \<subseteq> cov (ivs_of r) \<union> X \<and>
     (ro_mode r \<noteq> NN_REORDER_MODE_ALWAYS_DELIVER \<longrightarrow> next_seq r \<le> next_seq r') \<and>
     (next_seq r' = next_seq r \<or> next_seq r' \<in> Suc ` (cov (ivs_of r) \<union> X)) \<and>
     (\<forall>q\<in>seqs sc. q < next_seq r'))"

lemma last_in_cov: "iv_wf v \<Longrightarrow> v \<in> set ivs \<Longrightarrow> rs_maxp1 v \<in> Suc ` cov ivs"
proof -
  assume "iv_wf v" "v \<in> set ivs"
  then have "rs_maxp1 v - 1 \<in> cov ivs" "rs_maxp1 v = Suc (rs_maxp1 v - 1)"
    using iv_wf_bounds [of v] by (auto simp: cov_def intro!: bexI [of _ v])
  then show ?thesis by (metis imageI)
qed

lemma drop_last_cov: "cov (drop_last (us @ [l])) \<subseteq> cov (us @ [l])"
  by (auto simp: drop_last_def trim_def)

lemma drop_last_chains: "iv_wf l \<Longrightarrow> set (chains (drop_last (us @ [l]))) \<subseteq> set (chains (us @ [l]))"
  unfolding chains_drop_last by (auto dest: in_set_butlastD)

text \<open>An administration with an interval less its last element.\<close>

lemma drop_last_sub:
  assumes "ivs_wf nxt mid" "mid \<noteq> []"
  shows "cov (drop_last mid) \<subseteq> cov mid" "set (chains (drop_last mid)) \<subseteq> set (chains mid)"
proof -
  obtain us l where m: "mid = us @ [l]" using assms(2) by (cases mid rule: rev_cases) auto
  with assms(1) have l: "iv_wf l" by simp
  show "cov (drop_last mid) \<subseteq> cov mid" unfolding m by (rule drop_last_cov)
  show "set (chains (drop_last mid)) \<subseteq> set (chains mid)" unfolding m by (rule drop_last_chains [OF l])
qed

lemma outcome_took:
  assumes o: "outcome r R s full (c, sc, r', R', adj)" and s: "sample_in s" and ok0: "reorder_ok r"
    and e: "nn_reorder_rsample r R s full = Some (c, sc, r', R', adj)"
  shows "took r R (rs_sc s) {rs_min s} (c, sc, r', R', adj)"
proof -
  have ok: "reorder_ok r'" "ro_max_samples r' = ro_max_samples r" "ro_mode r' = ro_mode r"
    using o by (auto simp: outcome_def)
  note acc = outcome_accounted [OF o s]
  have one: "length (rs_sc s) = 1" "rs_maxp1 s = rs_min s + 1" "rs_sc s \<noteq> []" using s by (auto simp: sample_in_def)
  consider "refused r R s full (c, sc, r', R', adj)" | "sent r R s (c, sc, r', R', adj)"
    | "kept_sample r R s (c, sc, r', R', adj)"
    using o by (auto simp: outcome_def)
  then show ?thesis
  proof cases
    case 1
    with ok acc show ?thesis by (auto simp: took_def refused_def)
  next
    case 2
    then obtain us vs where p: "ivs_of r = us @ vs" "us = [] \<or> (\<exists>u. us = [u] \<and> rs_min u = rs_maxp1 s)"
      "c = int (length sc)" "sc = rs_sc s @ chains us" "adj = 1" "ivs_of r' = vs"
      "next_seq r' = (if us = [] then rs_maxp1 s else rs_maxp1 (hd us))"
      "placed (rs_min s) (next_seq r') sc" "rs_min s = next_seq r \<or> ro_mode r \<noteq> NN_REORDER_MODE_NORMAL"
      by (auto simp: sent_def)
    have "ro_mode r \<noteq> NN_REORDER_MODE_ALWAYS_DELIVER \<longrightarrow> next_seq r \<le> next_seq r'"
    proof
      assume m: "ro_mode r \<noteq> NN_REORDER_MODE_ALWAYS_DELIVER"
      then have "next_seq r \<le> rs_min s" using not_sent_below [OF m _ e s] 2 by (meson not_less)
      with placed_le [OF p(8)] show "next_seq r \<le> next_seq r'" by simp
    qed
    moreover have "next_seq r' \<in> Suc ` (cov (ivs_of r) \<union> {rs_min s})"
    proof (cases us)
      case (Cons u us')
      then have "iv_wf u" using reorder_okD(2) [OF ok0] p(1) by simp
      then have "rs_maxp1 u \<in> Suc ` cov (ivs_of r)" by (rule last_in_cov) (simp add: p(1) Cons)
      with p(7) Cons show ?thesis by auto
    qed (use p(7) one in simp)
    moreover have "\<forall>q\<in>seqs sc. q < next_seq r'" using placed_seqs [OF p(8)] by blast
    moreover have "set (chains (ivs_of r')) \<union> set sc \<subseteq> set (chains (ivs_of r)) \<union> set (rs_sc s)"
      "cov (ivs_of r') \<subseteq> cov (ivs_of r)" using p(1,4,6) by auto
    moreover have "0 < c" "sc \<noteq> []" using p(3,4) one by auto
    ultimately show ?thesis using ok acc p(5) unfolding took_def by auto
  next
    case 3
    then have k: "c = NN_REORDER_ACCEPT" "sc = []" "adj = 1" "next_seq r' = next_seq r"
      and e: "(\<exists>as bs. chains (ivs_of r) = as @ bs \<and> chains (ivs_of r') = as @ rs_sc s @ bs) \<and>
          cov (ivs_of r') = insert (rs_min s) (cov (ivs_of r)) \<or>
        (\<exists>mid. inserted (next_seq r) (ivs_of r) s mid \<and> ivs_of r' = drop_last mid)"
      by (auto simp: kept_sample_def)
    have "set (chains (ivs_of r')) \<subseteq> set (chains (ivs_of r)) \<union> set (rs_sc s) \<and>
      cov (ivs_of r') \<subseteq> cov (ivs_of r) \<union> {rs_min s}"
      using e
    proof (elim disjE exE conjE)
      fix mid assume i: "inserted (next_seq r) (ivs_of r) s mid" "ivs_of r' = drop_last mid"
      note ins = insertedD [OF i(1) one(1)]
      have "mid \<noteq> []" using ins(3) by (auto simp: tail_kept_def)
      from drop_last_sub [OF ins(1) this] ins(4,5) i(2) show ?thesis by auto
    qed auto
    with ok acc k show ?thesis by (simp add: took_def NN_REORDER_ACCEPT_def)
  qed
qed

lemma sample_took:
  assumes "reorder_ok r" "refs_cover r R" "sample_in s" "span r"
  shows "\<exists>c sc r' R' adj. nn_reorder_rsample r R s full = Some (c, sc, r', R', adj) \<and>
    outcome r R s full (c, sc, r', R', adj) \<and> took r R (rs_sc s) {rs_min s} (c, sc, r', R', adj)"
proof -
  obtain c sc r' R' adj where e: "nn_reorder_rsample r R s full = Some (c, sc, r', R', adj)"
    "outcome r R s full (c, sc, r', R', adj)"
    using sample_outcome [OF assms, of full] by (metis prod_cases5)
  from outcome_took [OF e(2) assms(3,1) e(1)] e show ?thesis by blast
qed

lemma gap_outcome_took:
  assumes o: "gap_outcome r R d mn hi (c, sc, r', R', adj)" and lt: "mn < hi" and ok0: "reorder_ok r"
  shows "took r R [\<lparr>sce_fragchain = [d], sce_sampleinfo = None\<rparr>] {mn..<hi} (c, sc, r', R', adj)"
proof -
  let ?es = "[\<lparr>sce_fragchain = [d], sce_sampleinfo = None\<rparr>]"
  have ok: "reorder_ok r'" "ro_max_samples r' = ro_max_samples r" "ro_mode r' = ro_mode r"
    using o by (auto simp: gap_outcome_def)
  have acc: "accounted r R (chain_frags ?es) sc r' R' adj"
    using gap_outcome_accounted [OF o lt ok0] by simp
  consider "gap_ignored r R mn hi (c, sc, r', R', adj)" | "gap_passed r R mn hi (c, sc, r', R', adj)"
    | "gap_merged r R mn hi (c, sc, r', R', adj)" | "gap_stored r R d mn hi (c, sc, r', R', adj)"
    using o unfolding gap_outcome_def by blast
  then show ?thesis
  proof cases
    case 1
    with ok acc show ?thesis by (auto simp: took_def gap_ignored_def NN_REORDER_TOO_OLD_def NN_REORDER_REJECT_def)
  next
    case 2
    then obtain ts bs where p: "touching mn hi (ivs_of r) [] ts bs" "sc = chains ts" "ivs_of r' = bs" "R' = R" "adj = 0"
      "c = int (length sc)" "next_seq r < hi" "next_seq r' = (if ts = [] then hi else max hi (rs_maxp1 (last ts)))"
      "placed (next_seq r) (next_seq r') sc"
      by (auto simp: gap_passed_def)
    have iv: "ivs_of r = ts @ bs" using p(1) by (simp add: touching_def)
    have "next_seq r' \<in> Suc ` (cov (ivs_of r) \<union> {mn..<hi})"
    proof (cases "ts = [] \<or> rs_maxp1 (last ts) \<le> hi")
      case True
      then have "next_seq r' = Suc (hi - 1)" "hi - 1 \<in> {mn..<hi}" using p(8) lt by auto
      then show ?thesis by blast
    next
      case False
      then have "iv_wf (last ts)" using reorder_okD(2) [OF ok0] iv by (simp add: ivs_wf_def)
      then have "rs_maxp1 (last ts) \<in> Suc ` cov (ivs_of r)" by (rule last_in_cov) (use False iv in simp)
      with p(8) False show ?thesis by auto
    qed
    moreover have "\<forall>q\<in>seqs sc. q < next_seq r'" using placed_seqs [OF p(9)] by blast
    moreover have "next_seq r \<le> next_seq r'" using placed_le [OF p(9)] by simp
    ultimately show ?thesis using ok acc p(2-6) iv by (auto simp: took_def)
  next
    case 3
    with ok acc show ?thesis by (auto simp: took_def gap_merged_def NN_REORDER_ACCEPT_def NN_REORDER_REJECT_def)
  next
    case 4
    then obtain as bs where tc: "touching mn hi (ivs_of r) as [] bs" "adj = 1" "sc = []" "c = NN_REORDER_ACCEPT"
      "next_seq r < mn" "next_seq r' = next_seq r"
      and e: "ivs_of r' = as @ gap_interval d mn hi # bs \<or> ivs_of r' = drop_last (as @ gap_interval d mn hi # bs)"
      unfolding gap_stored_def prod.case by (auto split: if_splits)
    let ?mid = "as @ gap_interval d mn hi # bs"
    have wf: "ivs_wf (next_seq r) ?mid" by (rule touching_wf [OF tc(1) reorder_okD(2) [OF ok0] tc(5) lt])
    have "cov (ivs_of r') \<subseteq> cov ?mid" "set (chains (ivs_of r')) \<subseteq> set (chains ?mid)"
      using drop_last_sub [OF wf] e by auto
    moreover have "cov ?mid \<subseteq> cov (ivs_of r) \<union> {mn..<hi}" "set (chains ?mid) \<subseteq> set (chains (ivs_of r)) \<union> set ?es"
      using tc(1) by (auto simp: touching_def gap_interval_def)
    ultimately show ?thesis using ok acc tc by (auto simp: took_def NN_REORDER_ACCEPT_def)
  qed
qed

text \<open>An empty range is in the past.\<close>

lemma gap_took:
  assumes "reorder_ok r" "refs_cover r R" "mn < hi \<or> hi \<le> next_seq r"
  shows "\<exists>c sc r' R' adj. nn_reorder_gap r R d mn hi = Some (c, sc, r', R', adj) \<and>
    took r R [\<lparr>sce_fragchain = [d], sce_sampleinfo = None\<rparr>] {mn..<hi} (c, sc, r', R', adj)"
proof (cases "hi \<le> next_seq r")
  case True
  then have "nn_reorder_gap r R d mn hi = Some (NN_REORDER_TOO_OLD, [], r, R, 0)" by (simp add: nn_reorder_gap_def)
  with assms(1) show ?thesis by (auto simp: took_def accounted_def NN_REORDER_TOO_OLD_def)
next
  case False
  with assms(3) have lt: "mn < hi" by simp
  obtain c sc r' R' adj where e: "nn_reorder_gap r R d mn hi = Some (c, sc, r', R', adj)"
    "gap_outcome r R d mn hi (c, sc, r', R', adj)"
    using reorder_gap_spec [OF assms(1,2) lt, of d] by (metis prod_cases5)
  from gap_outcome_took [OF e(2) lt assms(1)] e show ?thesis by blast
qed

lemma kept_below:
  assumes "kept_sample r R s (c, sc, r', R', adj)" "sample_in s"
  shows "\<exists>v\<in>set (ivs_of r'). rs_min v \<le> rs_min s"
proof -
  have one: "length (rs_sc s) = 1" using assms(2) by (auto simp: sample_in_def)
  from assms(1) consider "rs_min s \<in> cov (ivs_of r')"
    | mid where "inserted (next_seq r) (ivs_of r) s mid" "ivs_of r' = drop_last mid"
    by (auto simp: kept_sample_def)
  then show ?thesis
  proof cases
    case 1
    then show ?thesis by (auto simp: cov_def)
  next
    case 2
    note ins = insertedD [OF 2(1) one]
    obtain vs l where m: "mid = vs @ [l]" "vs \<noteq> [] \<or> length (rs_sc l) \<noteq> 1"
      using ins(3) by (auto simp: tail_kept_def)
    have "rs_min s \<in> cov mid" using ins(4) by simp
    then obtain u where u: "u \<in> set mid" "rs_min u \<le> rs_min s" by (auto simp: cov_def)
    show ?thesis
    proof (cases vs)
      case Nil
      then show ?thesis using u m 2(2) by (auto simp: drop_last_def trim_def)
    next
      case (Cons v vs')
      have "rs_min v \<le> rs_min u"
      proof (cases "u = v")
        case False
        then have "rs_maxp1 v < rs_min u" "iv_wf v" using ins(1) u(1) m(1) Cons by auto
        then show ?thesis using iv_wf_bounds [of v] by simp
      qed simp
      then show ?thesis using u(2) m Cons 2(2) by (auto simp: drop_last_def)
    qed
  qed
qed

text \<open>
  A sample that has been stored ahead of the next number is released by the gap up to it, and that gap
  itself is not stored.
\<close>

lemma accepted_then_gap:
  assumes "reorder_ok r" "refs_cover r R" "sample_in s" "span r"
    and "nn_reorder_rsample r R s full = Some (NN_REORDER_ACCEPT, sc, r', R', adj)"
    and "refs_cover r' R'" "1 \<le> next_seq r"
    and "nn_reorder_gap r' R' d 1 (rs_min s) = Some (c2, sc2, r2, R2, adj2)"
  shows "0 < c2 \<and> adj2 = 0 \<and> 1 < rs_min s"
proof -
  have o: "outcome r R s full (NN_REORDER_ACCEPT, sc, r', R', adj)"
    by (rule sample_step [OF assms(1-5)])
  have ok': "reorder_ok r'" using o by (simp add: outcome_def)
  have "rs_sc s \<noteq> []" using assms(3) by (auto simp: sample_in_def)
  then have k: "kept_sample r R s (NN_REORDER_ACCEPT, sc, r', R', adj)"
    using o by (auto simp: outcome_def refused_def sent_def NN_REORDER_ACCEPT_def)
  have nx: "next_seq r' = next_seq r" "next_seq r < rs_min s" using k by (auto simp: kept_sample_def)
  obtain v where v: "v \<in> set (ivs_of r')" "rs_min v \<le> rs_min s" using kept_below [OF k assms(3)] by blast
  then have mode: "ro_mode r' = NN_REORDER_MODE_NORMAL" using ok' by (auto simp: reorder_ok_def)
  have lt: "1 < rs_min s" using nx(2) assms(7) by simp
  have "gap_outcome r' R' d 1 (rs_min s) (c2, sc2, r2, R2, adj2)"
    by (rule gap_step [OF ok' assms(6) lt assms(8)])
  then have "gap_passed r' R' 1 (rs_min s) (c2, sc2, r2, R2, adj2)"
    using nx assms(7) mode
    by (auto simp: gap_outcome_def gap_ignored_def gap_merged_def gap_stored_def)
  then obtain ts bs where p: "touching 1 (rs_min s) (ivs_of r') [] ts bs" "sc2 = chains ts" "c2 = int (length sc2)" "adj2 = 0"
    by (auto simp: gap_passed_def)
  have "v \<notin> set bs" using p(1) v(2) by (auto simp: touching_def)
  then have "v \<in> set ts" using p(1) v(1) by (auto simp: touching_def)
  moreover from v(1) have "rs_sc v \<noteq> []" using reorder_okD(2) [OF ok'] by (auto simp: ivs_wf_def iv_wf_def)
  ultimately have "sc2 \<noteq> []" using p(2) by (auto simp: chains_def)
  with p lt show ?thesis by simp
qed

end
