(* ===== verification/Acknack.thy ===== *)
theory Acknack
  imports Acknack_Model Reorder_Queries
begin

text \<open>
  What \<open>ddsi_acknack.c\<close> requests is what is missing: the low word of the next sequence number to be
  delivered, the scan of the bitmap and the choice of a message.
\<close>

section \<open>The next sequence number to be delivered\<close>

lemma next_deliv_words:
  fixes n nd :: "64 word"
  assumes "nd \<le> n" "unat n < unat nd + 2 ^ 32"
  defines "nd0 \<equiv> (n AND NOT (ucast (- 1 :: u32))) OR ucast (ucast nd :: u32)"
  shows "(if n < nd0 then nd0 - 2 ^ 32 else nd0) = nd"
proof -
  let ?P = "push_bit 32 (drop_bit 32 n)" and ?T = "take_bit 32 nd"
  have e: "nd0 = ?P OR ?T" unfolding nd0_def by (rule bit_word_eqI) (auto simp: bit_simps)
  have "?P AND ?T = 0" by (rule bit_word_eqI) (auto simp: bit_simps)
  then have s: "nd0 = ?P + ?T" unfolding e by (rule disjunctive_add_eq_or [symmetric])
  have bn: "unat n < 2 ^ 64" using unsigned_less [of n] by simp
  have "unat ?P = take_bit 64 (unat n div 2 ^ 32 * 2 ^ 32)"
    unfolding unsigned_push_bit_eq unat_drop_bit_eq by (simp add: push_bit_eq_mult drop_bit_eq_div)
  also have "\<dots> = unat n div 2 ^ 32 * 2 ^ 32"
    by (rule take_bit_nat_eq_self) (use bn div_times_less_eq_dividend [of "unat n" "2 ^ 32"] in linarith)
  finally have p: "unat ?P = unat n div 2 ^ 32 * 2 ^ 32" .
  have t: "unat ?T = unat nd mod 2 ^ 32" unfolding unsigned_take_bit_eq by (simp add: take_bit_eq_mod)
  have "unat n div 2 ^ 32 < 2 ^ 32" using bn by (simp add: less_mult_imp_div_less)
  then have "unat ?P + unat ?T < 2 ^ 64" unfolding p t
    using mod_less_divisor [of "2 ^ 32" "unat nd"] by simp
  then have u: "unat nd0 = unat n div 2 ^ 32 * 2 ^ 32 + unat nd mod 2 ^ 32"
    unfolding s using p t by (simp add: unat_word_ariths)
  have le: "unat nd \<le> unat n" using assms(1) by (simp add: word_le_nat_alt)
  have dn: "unat n = unat n div 2 ^ 32 * 2 ^ 32 + unat n mod 2 ^ 32" "unat nd = unat nd div 2 ^ 32 * 2 ^ 32 + unat nd mod 2 ^ 32"
    by simp_all
  have ml: "unat n mod 2 ^ 32 < 2 ^ 32" "unat nd mod 2 ^ 32 < 2 ^ 32" by simp_all
  have "unat nd div 2 ^ 32 \<le> unat n div 2 ^ 32" using le by (rule div_le_mono)
  moreover have "unat n div 2 ^ 32 \<le> (unat nd + 2 ^ 32) div 2 ^ 32" using assms(2) by (intro div_le_mono) simp
  then have "unat n div 2 ^ 32 \<le> unat nd div 2 ^ 32 + 1" by simp
  ultimately consider "unat n div 2 ^ 32 = unat nd div 2 ^ 32" | "unat n div 2 ^ 32 = unat nd div 2 ^ 32 + 1" by linarith
  then show ?thesis
  proof cases
    case 1
    then have "unat nd0 = unat nd" using u dn(2) by metis
    then have "nd0 = nd" by (simp add: word_unat_eq_iff)
    then show ?thesis using assms(1) by auto
  next
    case 2
    have b0: "unat nd0 < 2 ^ 64" using unsigned_less [of nd0] by simp
    have "unat nd0 = unat nd + 2 ^ 32" unfolding u 2 using dn(2) by (simp add: algebra_simps)
    moreover from this have "nd0 = nd + 2 ^ 32"
      using b0 by (simp add: word_unat_eq_iff unat_word_ariths)
    moreover have "n < nd0" using \<open>unat nd0 = unat nd + 2 ^ 32\<close> assms(2) by (simp add: word_less_nat_alt)
    ultimately show ?thesis by simp
  qed
qed

lemma next_deliv_seq_spec:
  assumes "0 < nd" "nd \<le> n" "n < nd + 2 ^ 32" "n < 2 ^ 63"
  shows "next_deliv_seq (word_of_nat nd) n = Some nd"
proof -
  have u: "unat (word_of_nat n :: 64 word) = n" "unat (word_of_nat nd :: 64 word) = nd"
    using assms by (simp_all add: unat_of_nat take_bit_nat_eq_self)
  have le: "(word_of_nat nd :: 64 word) \<le> word_of_nat n" using u assms by (simp add: word_le_nat_alt)
  have lw: "(word_of_nat nd :: u32) = ucast (word_of_nat nd :: 64 word)"
    by (rule bit_word_eqI) (auto simp: bit_simps)
  have "(0 :: 64 word) < word_of_nat nd" using u assms(1) by (simp add: word_less_nat_alt)
  then show ?thesis unfolding next_deliv_seq_def Let_def lw
    using next_deliv_words [OF le] u le assms(3) by simp
qed

section \<open>What the defragmenter knows\<close>

text \<open>Every sample has received whole fragments, as \<open>valid_DataFrag\<close> guarantees.\<close>

definition whole_fragments :: "nn_defrag \<Rightarrow> bool" where
  "whole_fragments d \<longleftrightarrow> (\<forall>s\<in>set (samples_of d). \<exists>K. received s K)"

definition advertised :: "ddsi_proxy_writer \<Rightarrow> seqno \<Rightarrow> nat" where
  "advertised pwr q = (if q = pwr_last_seq pwr then pwr_last_fragnum pwr else UINT32_MAX)"

text \<open>Nothing is known about the sample but its number: it must be requested as a whole.\<close>

definition unknown :: "ddsi_proxy_writer \<Rightarrow> seqno \<Rightarrow> bool" where
  "unknown pwr q \<longleftrightarrow> q \<notin> ds_seq ` set (samples_of (pwr_defrag pwr)) \<and> advertised pwr q = UINT32_MAX"

text \<open>A map of fragments that requests what is missing of a sample.\<close>

definition frags_missing ::
  "ddsi_proxy_writer \<Rightarrow> seqno \<Rightarrow> nn_fragment_number_set_header \<Rightarrow> 32 word list \<Rightarrow> bool" where
  "frags_missing pwr q fset fbits \<longleftrightarrow> 0 < numbits fset \<and> numbits fset \<le> 256 \<and>
     (\<forall>s\<in>set (samples_of (pwr_defrag pwr)). ds_seq s = q \<longrightarrow> (\<forall>K. received s K \<longrightarrow>
        (\<forall>j<numbits fset. isset fbits j \<longleftrightarrow> bitmap_base fset + j \<notin> K)))"

definition all_known :: "ddsi_proxy_writer \<Rightarrow> seqno \<Rightarrow> bool" where
  "all_known pwr q \<longleftrightarrow> (\<exists>s\<in>set (samples_of (pwr_defrag pwr)). ds_seq s = q \<and> (\<exists>K. received s K \<and>
     (\<forall>k\<le>min (advertised pwr q) (nfragments s - 1). k \<in> K)))"

lemma received_sub: "received s K \<Longrightarrow> received s K' \<Longrightarrow> K \<subseteq> K'"
proof
  fix k assume r: "received s K" "received s K'" and k: "k \<in> K"
  let ?x = "k * si_fragsize (ds_sampleinfo s)"
  have "0 < si_fragsize (ds_sampleinfo s)" using r(1) by (simp add: received_def Let_def)
  moreover have "?x \<in> bytes s" using cell_K [OF r(1) K_small [OF r(1) k]] k by simp
  ultimately show "k \<in> K'" using received_mem [OF r(2), of ?x] by simp
qed

lemma received_unique: "received s K \<Longrightarrow> received s K' \<Longrightarrow> K = K'"
  by (simp add: received_sub subset_antisym)

text \<open>The three outcomes of a query to the defragmenter.\<close>

lemma defrag_query:
  assumes ok: "defrag_ok (pwr_defrag pwr) R" and wf: "whole_fragments (pwr_defrag pwr)" and len: "256 \<le> 32 * length fb"
  shows "(unknown pwr q \<and> nn_defrag_nackmap (pwr_defrag pwr) q (advertised pwr q) fh fb 256 =
            Some (DEFRAG_NACKMAP_UNKNOWN_SAMPLE, fh, fb)) \<or>
    (\<exists>h b. nn_defrag_nackmap (pwr_defrag pwr) q (advertised pwr q) fh fb 256 =
        Some (DEFRAG_NACKMAP_ALL_ADVERTISED_FRAGMENTS_KNOWN, h, b) \<and> all_known pwr q) \<or>
    (\<exists>h b. nn_defrag_nackmap (pwr_defrag pwr) q (advertised pwr q) fh fb 256 =
        Some (DEFRAG_NACKMAP_FRAGMENTS_MISSING, h, b) \<and> frags_missing pwr q h b)"
proof (cases "\<exists>s\<in>set (samples_of (pwr_defrag pwr)). ds_seq s = q")
  case True
  then obtain s where s: "s \<in> set (samples_of (pwr_defrag pwr))" "ds_seq s = q" by blast
  with wf obtain K where K: "received s K" by (auto simp: whole_fragments_def)
  have idx: "index_ok stree (sampletree (pwr_defrag pwr))" using ok by (simp add: defrag_ok_def defrag_core_def)
  have one: "s' = s" if "s' \<in> set (samples_of (pwr_defrag pwr))" "ds_seq s' = q" for s'
    using samples.get_law [OF idx, of q s] samples.get_law [OF idx, of q s'] s that by simp
  obtain res h b where r: "nn_defrag_nackmap (pwr_defrag pwr) q (advertised pwr q) fh fb 256 = Some (res, h, b)"
    "nackmap_ok K (nfragments s) (min (advertised pwr q) (nfragments s - 1)) 256 (res, h, b)"
    using nackmap_spec [OF ok s K order_refl len, of "advertised pwr q" fh] by auto
  show ?thesis
  proof (cases res)
    case DEFRAG_NACKMAP_UNKNOWN_SAMPLE
    with r(2) show ?thesis by (simp add: nackmap_ok_def)
  next
    case DEFRAG_NACKMAP_ALL_ADVERTISED_FRAGMENTS_KNOWN
    then have "all_known pwr q" unfolding all_known_def using r(2) s K by (auto simp: nackmap_ok_def)
    with r(1) DEFRAG_NACKMAP_ALL_ADVERTISED_FRAGMENTS_KNOWN show ?thesis by blast
  next
    case DEFRAG_NACKMAP_FRAGMENTS_MISSING
    then have "frags_missing pwr q h b" unfolding frags_missing_def
      using r(2) one received_unique [OF K] by (auto simp: nackmap_ok_def)
    with r(1) DEFRAG_NACKMAP_FRAGMENTS_MISSING show ?thesis by blast
  qed
next
  case False
  have idx: "index_ok stree (sampletree (pwr_defrag pwr))" using ok by (simp add: defrag_ok_def defrag_core_def)
  have lk: "lookup stree (sampletree (pwr_defrag pwr)) q = None"
  proof (rule ccontr)
    assume "lookup stree (sampletree (pwr_defrag pwr)) q \<noteq> None"
    then obtain s where "lookup stree (sampletree (pwr_defrag pwr)) q = Some s" by blast
    then show False using samples.get_law [OF idx, of q s] False by auto
  qed
  show ?thesis
  proof (cases "advertised pwr q = UINT32_MAX")
    case True
    with False lk show ?thesis by (auto simp: nn_defrag_nackmap_def unknown_def)
  next
    case adv: False
    let ?n = "if 256 < advertised pwr q + 1 then 256 else advertised pwr q + 1"
    have "?n \<le> 32 * length fb" using len by auto
    then obtain b where b: "nn_bitset_one ?n fb = Some b" "\<forall>i<?n. isset b i"
      using nn_bitset_one_spec by blast
    have "frags_missing pwr q \<lparr>bitmap_base = 0, numbits = ?n\<rparr> b"
      using False by (auto simp: frags_missing_def)
    with lk adv b(1) show ?thesis by (auto simp: nn_defrag_nackmap_def Let_def)
  qed
qed

section \<open>The scan of the bitmap\<close>

text \<open>
  What the scan leaves of the bitmap: the bits before its new end stand for samples of which nothing
  is known, and at the end stands the first sample of which fragments are known, if there is one.
\<close>

definition scan_ok :: "ddsi_proxy_writer \<Rightarrow> nat \<Rightarrow> add_AckNack_info \<Rightarrow> bool \<times> add_AckNack_info \<Rightarrow> bool" where
  "scan_ok pwr n info res \<longleftrightarrow> (case res of (nack, info') \<Rightarrow>
     (let base = sn_bitmap_base (acknack_set info); m = sn_numbits (acknack_set info') in
       sn_bitmap_base (acknack_set info') = base \<and> acknack_bits info' = acknack_bits info \<and> m \<le> n \<and>
       (\<forall>j<m. isset (acknack_bits info) j \<longrightarrow> unknown pwr (base + j)) \<and>
       (m = n \<and> nack \<and> nackfrag_seq info' = 0 \<or>
        m < n \<and> isset (acknack_bits info) m \<and> all_known pwr (base + m) \<and> nackfrag_seq info' = 0 \<and> nack = (0 < m) \<or>
        m < n \<and> isset (acknack_bits info) m \<and> nackfrag_seq info' = base + m \<and> nack \<and>
          frags_missing pwr (base + m) (nackfrag_set info') (nackfrag_bits info'))))"

lemma scan_spec:
  assumes ok: "defrag_ok (pwr_defrag pwr) R" and wf: "whole_fragments (pwr_defrag pwr)"
  shows "256 \<le> 32 * length (nackfrag_bits info) \<Longrightarrow> n \<le> 32 * length (acknack_bits info) \<Longrightarrow> i \<le> n \<Longrightarrow>
    sn_numbits (acknack_set info) = n \<Longrightarrow> nackfrag_seq info = 0 \<Longrightarrow>
    (\<And>j. j < i \<Longrightarrow> isset (acknack_bits info) j \<Longrightarrow> unknown pwr (sn_bitmap_base (acknack_set info) + j)) \<Longrightarrow>
    \<exists>res. scan_bitmap pwr n i info = Some res \<and> scan_ok pwr n info res"
proof (induction "n - i" arbitrary: i)
  case 0
  then show ?case by (simp add: scan_bitmap.simps scan_ok_def)
next
  case (Suc d)
  then have i: "i < n" and d: "d = n - (i + 1)" by simp_all
  let ?q = "sn_bitmap_base (acknack_set info) + i"
  have bit: "nn_bitset_isset n (acknack_bits info) i = Some (isset (acknack_bits info) i)"
    using nn_bitset_isset_iff [OF Suc.prems(2)] i by simp
  have later: "\<exists>res. scan_bitmap pwr n (i + 1) info = Some res \<and> scan_ok pwr n info res"
    if "isset (acknack_bits info) i \<Longrightarrow> unknown pwr ?q"
    using Suc.hyps(1) [OF d Suc.prems(1,2) _ Suc.prems(4,5)] Suc.prems(6) i that
    by (metis Suc_eq_plus1 Suc_leI less_antisym)
  note query = defrag_query [OF ok wf Suc.prems(1), of ?q "nackfrag_set info", unfolded advertised_def]
  have before: "\<forall>j<i. isset (acknack_bits info) j \<longrightarrow> unknown pwr (sn_bitmap_base (acknack_set info) + j)"
    using Suc.prems(6) by blast
  show ?case
  proof (cases "isset (acknack_bits info) i")
    case False
    with later bit i show ?thesis by (simp add: scan_bitmap.simps [of pwr n i])
  next
    case True
    from query show ?thesis
    proof (elim disjE exE conjE)
      assume u: "unknown pwr ?q"
        and e: "nn_defrag_nackmap (pwr_defrag pwr) ?q (if ?q = pwr_last_seq pwr then pwr_last_fragnum pwr else UINT32_MAX)
          (nackfrag_set info) (nackfrag_bits info) 256 = Some (DEFRAG_NACKMAP_UNKNOWN_SAMPLE, nackfrag_set info, nackfrag_bits info)"
      have "scan_bitmap pwr n i info = scan_bitmap pwr n (i + 1) info"
        using i True by (simp add: scan_bitmap.simps [of pwr n i] bit e Let_def NN_FRAGMENT_NUMBER_SET_MAX_BITS_def)
      with later u show ?thesis by simp
    next
      fix h b
      assume u: "all_known pwr ?q"
        and e: "nn_defrag_nackmap (pwr_defrag pwr) ?q (if ?q = pwr_last_seq pwr then pwr_last_fragnum pwr else UINT32_MAX)
          (nackfrag_set info) (nackfrag_bits info) 256 = Some (DEFRAG_NACKMAP_ALL_ADVERTISED_FRAGMENTS_KNOWN, h, b)"
      show ?thesis
        using i True u before
        by (simp add: scan_bitmap.simps [of pwr n i] bit e Let_def NN_FRAGMENT_NUMBER_SET_MAX_BITS_def scan_ok_def)
    next
      fix h b
      assume u: "frags_missing pwr ?q h b"
        and e: "nn_defrag_nackmap (pwr_defrag pwr) ?q (if ?q = pwr_last_seq pwr then pwr_last_fragnum pwr else UINT32_MAX)
          (nackfrag_set info) (nackfrag_bits info) 256 = Some (DEFRAG_NACKMAP_FRAGMENTS_MISSING, h, b)"
      show ?thesis
        using i True u before
        by (simp add: scan_bitmap.simps [of pwr n i] bit e Let_def NN_FRAGMENT_NUMBER_SET_MAX_BITS_def scan_ok_def)
    qed
  qed
qed

section \<open>The bitmaps\<close>

text \<open>
  Where the reader takes its samples from, the highest number it knows of, and the number from
  which on it has not acknowledged; \<open>nd\<close> is the next number to be delivered by the delivery queue.
\<close>

abbreviation on_its_own :: "ddsi_pwr_rd_match \<Rightarrow> bool" where
  "on_its_own rwn \<equiv> in_sync rwn = PRMSS_OUT_OF_SYNC \<or> rwn_filtered rwn"

definition reorder_of :: "ddsi_proxy_writer \<Rightarrow> ddsi_pwr_rd_match \<Rightarrow> nn_reorder" where
  "reorder_of pwr rwn = (if on_its_own rwn then rwn_reorder rwn else pwr_reorder pwr)"

definition highest :: "ddsi_proxy_writer \<Rightarrow> ddsi_pwr_rd_match \<Rightarrow> seqno" where
  "highest pwr rwn = (if rwn_filtered rwn then rwn_last_seq rwn else pwr_last_seq pwr)"

definition ack_base :: "ack_config \<Rightarrow> ddsi_proxy_writer \<Rightarrow> ddsi_pwr_rd_match \<Rightarrow> seqno \<Rightarrow> seqno" where
  "ack_base cfg pwr rwn nd = (if \<not> on_its_own rwn \<and> late_ack cfg then nd else next_seq (reorder_of pwr rwn))"

definition cut_tail :: "ack_config \<Rightarrow> ddsi_proxy_writer \<Rightarrow> ddsi_pwr_rd_match \<Rightarrow> bool" where
  "cut_tail cfg pwr rwn \<longleftrightarrow> \<not> on_its_own rwn \<and> late_ack cfg \<and> nn_dqueue_is_full (pwr_dqueue pwr)"

definition ack_state :: "ack_config \<Rightarrow> ddsi_proxy_writer \<Rightarrow> ddsi_pwr_rd_match \<Rightarrow> seqno \<Rightarrow> bool" where
  "ack_state cfg pwr rwn nd \<longleftrightarrow> reorder_ok (reorder_of pwr rwn) \<and> (\<exists>R. defrag_ok (pwr_defrag pwr) R) \<and>
     whole_fragments (pwr_defrag pwr) \<and> 0 < next_seq (reorder_of pwr rwn) \<and>
     next_seq (reorder_of pwr rwn) \<le> highest pwr rwn + 1 \<and> next_seq (reorder_of pwr rwn) < 2 ^ 63 \<and>
     next_deliv_seq_lowword pwr = word_of_nat nd \<and> 0 < nd \<and>
     (\<not> on_its_own rwn \<longrightarrow> nd \<le> next_seq (pwr_reorder pwr) \<and> next_seq (pwr_reorder pwr) < nd + 2 ^ 32)"

definition buffers_ok :: "add_AckNack_info \<Rightarrow> bool" where
  "buffers_ok info \<longleftrightarrow> length (acknack_bits info) = 8 \<and> length (nackfrag_bits info) = 8"

lemma getsource_spec:
  assumes "ack_state cfg pwr rwn nd"
  shows "add_AckNack_getsource cfg pwr rwn = Some (reorder_of pwr rwn, ack_base cfg pwr rwn nd, cut_tail cfg pwr rwn)"
    and "0 < ack_base cfg pwr rwn nd" "ack_base cfg pwr rwn nd \<le> next_seq (reorder_of pwr rwn)"
  using assms next_deliv_seq_spec [of nd "next_seq (pwr_reorder pwr)"]
  by (auto simp: add_AckNack_getsource_def ack_state_def reorder_of_def ack_base_def cut_tail_def nn_reorder_next_seq_def)

text \<open>What a request may ask for: numbers that are neither stored nor being defragmented, and missing fragments.\<close>

definition request_ok :: "ddsi_proxy_writer \<Rightarrow> ddsi_pwr_rd_match \<Rightarrow> add_AckNack_info \<Rightarrow> bool" where
  "request_ok pwr rwn info \<longleftrightarrow>
     (let base = sn_bitmap_base (acknack_set info); m = sn_numbits (acknack_set info);
          stored = cov (ivs_of (reorder_of pwr rwn)) in
       m \<le> 256 \<and> base + m \<le> highest pwr rwn + 1 \<and>
       (\<forall>j<m. isset (acknack_bits info) j \<longleftrightarrow> base + j \<notin> stored) \<and>
       (\<forall>j<m. isset (acknack_bits info) j \<longrightarrow> unknown pwr (base + j)) \<and>
       (nackfrag_seq info \<noteq> 0 \<longrightarrow> nackfrag_seq info = base + m \<and> nackfrag_seq info \<le> highest pwr rwn \<and>
          nackfrag_seq info \<notin> stored \<and> frags_missing pwr (nackfrag_seq info) (nackfrag_set info) (nackfrag_bits info)))"

text \<open>When there is nothing to ask for.\<close>

definition nothing_to_request :: "ack_config \<Rightarrow> ddsi_proxy_writer \<Rightarrow> ddsi_pwr_rd_match \<Rightarrow> seqno \<Rightarrow> bool" where
  "nothing_to_request cfg pwr rwn nd \<longleftrightarrow> ack_base cfg pwr rwn nd = highest pwr rwn + 1 \<or>
     all_known pwr (ack_base cfg pwr rwn nd) \<or> ro_max_samples (reorder_of pwr rwn) = 0 \<or>
     cut_tail cfg pwr rwn \<and> ivs_of (reorder_of pwr rwn) = []"

lemma makebitmaps_spec:
  assumes st: "ack_state cfg pwr rwn nd" and b: "buffers_ok info0"
  shows "\<exists>nack info. add_AckNack_makebitmaps cfg pwr rwn info0 = Some (nack, info) \<and> request_ok pwr rwn info \<and>
    sn_bitmap_base (acknack_set info) = ack_base cfg pwr rwn nd \<and>
    (if nack then 0 < sn_numbits (acknack_set info) \<or> nackfrag_seq info \<noteq> 0
     else sn_numbits (acknack_set info) = 0 \<and> nackfrag_seq info = 0 \<and> nothing_to_request cfg pwr rwn nd)"
proof -
  let ?base = "ack_base cfg pwr rwn nd" and ?r = "reorder_of pwr rwn"
  note src = getsource_spec [OF st]
  have rok: "reorder_ok ?r" and le: "?base \<le> highest pwr rwn + 1"
    using st src(3) by (auto simp: ack_state_def)
  obtain R where dok: "defrag_ok (pwr_defrag pwr) R" "whole_fragments (pwr_defrag pwr)"
    using st by (auto simp: ack_state_def)
  have l: "(256 :: nat) \<le> 256" "256 \<le> 32 * length (acknack_bits info0)" using b by (simp_all add: buffers_ok_def)
  obtain hdr bits where m: "nn_reorder_nackmap ?r ?base (highest pwr rwn) (acknack_bits info0) 256 (cut_tail cfg pwr rwn) = Some (hdr, bits)"
    and nok: "nack_ok ?r ?base (highest pwr rwn) 256 (cut_tail cfg pwr rwn) (hdr, bits)"
    using reorder_nackmap_spec [OF rok src(3) le l] by force
  define info where "info = info0\<lparr>acknack_set := hdr, acknack_bits := bits, nackfrag_seq := 0\<rparr>"
  have code: "add_AckNack_makebitmaps cfg pwr rwn info0 =
      (if sn_numbits hdr = 0 then Some (False, info) else scan_bitmap pwr (sn_numbits hdr) 0 info)"
    unfolding add_AckNack_makebitmaps_def src(1) using m
    by (simp add: highest_def info_def Let_def NN_SEQUENCE_NUMBER_SET_MAX_BITS_def)
  have n: "sn_bitmap_base hdr = ?base" "sn_numbits hdr \<le> 256" "?base + sn_numbits hdr \<le> highest pwr rwn + 1"
    "sn_numbits hdr \<le> 32 * length bits" "\<forall>j < sn_numbits hdr. isset bits j \<longleftrightarrow> ?base + j \<notin> cov (ivs_of ?r)"
    using nok by (auto simp: nack_ok_def)
  show ?thesis
  proof (cases "sn_numbits hdr = 0")
    case True
    have "nothing_to_request cfg pwr rwn nd"
    proof -
      consider "?base = highest pwr rwn + 1" | "ro_max_samples ?r = 0"
        | "cut_tail cfg pwr rwn" "\<forall>q\<in>cov (ivs_of ?r). q < ?base"
        using nok True by (auto simp: nack_ok_def min_def split: if_splits)
      then show ?thesis
      proof cases
        case 3
        have "ivs_of ?r = []"
        proof (rule ccontr)
          assume "ivs_of ?r \<noteq> []"
          then obtain v where v: "v \<in> set (ivs_of ?r)" by (meson last_in_set)
          then have w: "iv_wf v" "next_seq ?r < rs_min v" using reorder_okD(2) [OF rok] by (auto simp: ivs_wf_def)
          then have "rs_min v \<in> cov (ivs_of ?r)" using v iv_wf_bounds [OF w(1)] by (auto simp: cov_def)
          with 3(2) w(2) src(3) show False by force
        qed
        with 3(1) show ?thesis by (simp add: nothing_to_request_def)
      qed (simp_all add: nothing_to_request_def)
    qed
    with True n code show ?thesis by (auto simp: info_def request_ok_def)
  next
    case False
    have "\<exists>res. scan_bitmap pwr (sn_numbits hdr) 0 info = Some res \<and> scan_ok pwr (sn_numbits hdr) info res"
      by (rule scan_spec [OF dok]) (use n b in \<open>auto simp: info_def buffers_ok_def\<close>)
    then obtain nack info' where r: "scan_bitmap pwr (sn_numbits hdr) 0 info = Some (nack, info')"
      "scan_ok pwr (sn_numbits hdr) info (nack, info')" by auto
    let ?m = "sn_numbits (acknack_set info')"
    have p: "sn_bitmap_base (acknack_set info') = ?base" "acknack_bits info' = bits" "?m \<le> sn_numbits hdr"
      "\<forall>j < ?m. isset bits j \<longrightarrow> unknown pwr (?base + j)"
      and outcome: "?m = sn_numbits hdr \<and> nack \<and> nackfrag_seq info' = 0 \<or>
        ?m < sn_numbits hdr \<and> isset bits ?m \<and> all_known pwr (?base + ?m) \<and> nackfrag_seq info' = 0 \<and> nack = (0 < ?m) \<or>
        ?m < sn_numbits hdr \<and> isset bits ?m \<and> nackfrag_seq info' = ?base + ?m \<and> nack \<and>
          frags_missing pwr (?base + ?m) (nackfrag_set info') (nackfrag_bits info')"
      using r(2) n(1) by (simp_all add: scan_ok_def Let_def info_def)
    have frag: "nackfrag_seq info' = ?base + ?m \<and> nackfrag_seq info' \<le> highest pwr rwn \<and>
        nackfrag_seq info' \<notin> cov (ivs_of ?r) \<and>
        frags_missing pwr (nackfrag_seq info') (nackfrag_set info') (nackfrag_bits info')"
      if nz: "nackfrag_seq info' \<noteq> 0"
      using outcome n(3,5) nz by auto
    have "request_ok pwr rwn info'"
      unfolding request_ok_def Let_def p(1,2)
      using n(2,3,5) p(3,4) frag by auto
    moreover have "if nack then 0 < ?m \<or> nackfrag_seq info' \<noteq> 0
        else ?m = 0 \<and> nackfrag_seq info' = 0 \<and> nothing_to_request cfg pwr rwn nd"
      using outcome False src(2) by (auto simp: nothing_to_request_def)
    ultimately show ?thesis unfolding code using False r(1) p(1) by auto
  qed
qed

section \<open>The choice of a message\<close>

definition asks_for :: "add_AckNack_info \<Rightarrow> seqno \<Rightarrow> bool" where
  "asks_for info q \<longleftrightarrow>
     sn_bitmap_base (acknack_set info) \<le> q \<and> q < sn_bitmap_base (acknack_set info) + sn_numbits (acknack_set info) \<and>
       isset (acknack_bits info) (q - sn_bitmap_base (acknack_set info)) \<or>
     nackfrag_seq info = q \<and> q \<noteq> 0"

abbreviation asks_nothing :: "add_AckNack_info \<Rightarrow> bool" where
  "asks_nothing info \<equiv> sn_numbits (acknack_set info) = 0 \<and> nackfrag_seq info = 0"

abbreviation is_nack :: "add_AckNack_result \<Rightarrow> bool" where
  "is_nack res \<equiv> res = AANR_NACK \<or> res = AANR_NACKFRAG_ONLY"

lemma base_not_stored:
  assumes "ack_state cfg pwr rwn nd"
  shows "ack_base cfg pwr rwn nd \<notin> cov (ivs_of (reorder_of pwr rwn))"
proof -
  have "\<forall>v\<in>set (ivs_of (reorder_of pwr rwn)). next_seq (reorder_of pwr rwn) < rs_min v"
    using assms reorder_okD(2) by (auto simp: ack_state_def ivs_wf_def)
  then show ?thesis using getsource_spec(3) [OF assms] by (fastforce simp: cov_def)
qed

lemma asks_for_base:
  assumes st: "ack_state cfg pwr rwn nd" and ok: "request_ok pwr rwn info"
    and b: "sn_bitmap_base (acknack_set info) = ack_base cfg pwr rwn nd"
    and some: "0 < sn_numbits (acknack_set info) \<or> nackfrag_seq info \<noteq> 0"
  shows "asks_for info (ack_base cfg pwr rwn nd)"
proof (cases "0 < sn_numbits (acknack_set info)")
  case True
  then have "isset (acknack_bits info) 0"
    using ok base_not_stored [OF st] b by (auto simp: request_ok_def Let_def)
  with True b show ?thesis by (simp add: asks_for_def)
next
  case False
  with some ok b getsource_spec(2) [OF st] show ?thesis by (auto simp: request_ok_def Let_def asks_for_def)
qed

lemma choose_nack_cases:
  obtains ns where "choose_nack rwn s info nd = (AANR_NACK, info\<lparr>nack_sent_on_nackdelay := ns\<rparr>)"
  | ns where "choose_nack rwn s info nd = (AANR_SUPPRESSED_NACK, info\<lparr>nack_sent_on_nackdelay := ns,
      acknack_set := (acknack_set info)\<lparr>sn_numbits := 0\<rparr>, nackfrag_seq := 0\<rparr>)" "\<not> nd"
  unfolding choose_nack_def by metis

lemma get_spec:
  assumes st: "ack_state cfg pwr rwn nd" and b: "buffers_ok info0"
  shows "\<exists>res s info. get_AckNack_info cfg pwr rwn info0 ackd nackd = Some (res, s, info) \<and>
    request_ok pwr rwn info \<and> sn_bitmap_base (acknack_set info) = ack_base cfg pwr rwn nd \<and>
    (if is_nack res then asks_for info (ack_base cfg pwr rwn nd) else asks_nothing info) \<and>
    (res = AANR_NACKFRAG_ONLY \<longrightarrow> sn_numbits (acknack_set info) = 0) \<and>
    (nackd \<and> \<not> nothing_to_request cfg pwr rwn nd \<longrightarrow> is_nack res)"
proof -
  obtain nack info where m: "add_AckNack_makebitmaps cfg pwr rwn info0 = Some (nack, info)" "request_ok pwr rwn info"
    and base: "sn_bitmap_base (acknack_set info) = ack_base cfg pwr rwn nd"
    and some: "if nack then 0 < sn_numbits (acknack_set info) \<or> nackfrag_seq info \<noteq> 0
       else asks_nothing info \<and> nothing_to_request cfg pwr rwn nd"
    using makebitmaps_spec [OF st b] by metis
  have upd: "request_ok pwr rwn (info\<lparr>nack_sent_on_nackdelay := ns\<rparr>)" for ns
    using m(2) by (simp add: request_ok_def)
  show ?thesis
  proof (cases nack)
    case False
    let ?s = "\<lparr>seq_end_p1 = 0, seq_base = sn_bitmap_base (acknack_set info), frag_end_p1 = 0, frag_base = 0\<rparr>"
    let ?i = "info\<lparr>nack_sent_on_nackdelay := rwn_nack_sent_on_nackdelay rwn\<rparr>"
    have "get_AckNack_info cfg pwr rwn info0 ackd nackd = Some (suppress_ack rwn ?s ?i ackd AANR_ACK, ?s, ?i)"
      using m(1) False by (simp add: get_AckNack_info_def Let_def)
    with some False upd base show ?thesis by (auto simp: suppress_ack_def)
  next
    case True
    let ?s = "nack_summary_of info"
    have a: "assertion (1 \<le> sn_bitmap_base (acknack_set info) \<and>
              (0 < sn_numbits (acknack_set info) \<or> 0 < nackfrag_seq info)) = Some ()"
      "assertion (nackfrag_seq info = 0 \<or> 0 < numbits (nackfrag_set info)) = Some ()"
      using some True base getsource_spec(2) [OF st] m(2)
      by (auto simp: request_ok_def Let_def frags_missing_def)
    have code: "get_AckNack_info cfg pwr rwn info0 ackd nackd =
       (case choose_nack rwn ?s info nackd of (result, info1) \<Rightarrow> Some (suppress_ack rwn ?s info1 ackd result, ?s, info1))"
      unfolding get_AckNack_info_def m(1) option_bind_Some using a True by (simp add: Let_def)
    show ?thesis
    proof (rule choose_nack_cases [of rwn ?s info nackd])
      fix ns assume c: "choose_nack rwn ?s info nackd = (AANR_NACK, info\<lparr>nack_sent_on_nackdelay := ns\<rparr>)"
      have "asks_for (info\<lparr>nack_sent_on_nackdelay := ns\<rparr>) (ack_base cfg pwr rwn nd)"
        by (rule asks_for_base [OF st upd]) (use base some True in auto)
      with c code upd base show ?thesis by (auto simp: suppress_ack_def)
    next
      fix ns assume c: "choose_nack rwn ?s info nackd = (AANR_SUPPRESSED_NACK, info\<lparr>nack_sent_on_nackdelay := ns,
          acknack_set := (acknack_set info)\<lparr>sn_numbits := 0\<rparr>, nackfrag_seq := 0\<rparr>)" and n: "\<not> nackd"
      have "request_ok pwr rwn (info\<lparr>nack_sent_on_nackdelay := ns,
          acknack_set := (acknack_set info)\<lparr>sn_numbits := 0\<rparr>, nackfrag_seq := 0\<rparr>)"
        using m(2) by (auto simp: request_ok_def Let_def)
      with c code n base show ?thesis by (auto simp: suppress_ack_def)
    qed
  qed
qed

section \<open>The message\<close>

lemma isset_take: "j < n \<Longrightarrow> isset (take (bits_words n) bits) j = isset bits j"
proof -
  assume "j < n"
  then have "j div 32 < bits_words n" by (auto simp: bits_words_def)
  then show ?thesis by (auto simp: isset_def)
qed

definition times_ok :: "ack_config \<Rightarrow> ddsi_pwr_rd_match \<Rightarrow> int \<Rightarrow> bool" where
  "times_ok cfg rwn tnow \<longleftrightarrow> 0 \<le> t_last_ack rwn \<and> 0 \<le> t_last_nack rwn \<and> 0 \<le> tnow \<and>
     0 \<le> ack_delay cfg \<and> 0 \<le> nack_delay cfg \<and> 0 \<le> auto_resched_nack_delay cfg"

definition after :: "int \<Rightarrow> int \<Rightarrow> int" where
  "after t d = (if DDS_NEVER - t \<le> d then DDS_NEVER else t + d)"

lemma add_duration: "0 \<le> t \<Longrightarrow> 0 \<le> d \<Longrightarrow> ddsrt_mtime_add_duration t d = Some (after t d)"
  by (simp add: ddsrt_mtime_add_duration_def after_def)

text \<open>What the numbers and bits of a message say, of the state it was made in.\<close>

definition acknack_right :: "ddsi_proxy_writer \<Rightarrow> ddsi_pwr_rd_match \<Rightarrow> seqno \<Rightarrow> AckNack \<Rightarrow> bool" where
  "acknack_right pwr rwn base a \<longleftrightarrow> an_base a = base \<and> an_numbits a \<le> 256 \<and> an_base a + an_numbits a \<le> highest pwr rwn + 1 \<and>
     an_count a = rwn_count rwn \<and>
     (\<forall>j < an_numbits a. isset (an_bits a) j \<longleftrightarrow> an_base a + j \<notin> cov (ivs_of (reorder_of pwr rwn))) \<and>
     (\<forall>j < an_numbits a. isset (an_bits a) j \<longrightarrow> unknown pwr (an_base a + j))"

definition nackfrag_right :: "ddsi_proxy_writer \<Rightarrow> ddsi_pwr_rd_match \<Rightarrow> seqno \<Rightarrow> NackFrag \<Rightarrow> bool" where
  "nackfrag_right pwr rwn base f \<longleftrightarrow> base \<le> nf_seq f \<and> nf_seq f \<le> highest pwr rwn \<and>
     nf_seq f \<notin> cov (ivs_of (reorder_of pwr rwn)) \<and> 0 < nf_base f \<and> nf_count f = pwr_nackfragcount pwr \<and>
     frags_missing pwr (nf_seq f) \<lparr>bitmap_base = nf_base f - 1, numbits = nf_numbits f\<rparr> (nf_bits f)"

definition requests :: "ack_msg \<Rightarrow> seqno \<Rightarrow> bool" where
  "requests msg q \<longleftrightarrow>
     (\<exists>a. msg_acknack msg = Some a \<and> an_base a \<le> q \<and> q < an_base a + an_numbits a \<and> isset (an_bits a) (q - an_base a)) \<or>
     (\<exists>f. msg_nackfrag msg = Some f \<and> nf_seq f = q)"

lemma add_AckNack_right:
  assumes "request_ok pwr rwn info" "sn_bitmap_base (acknack_set info) = base"
    and "rwn_count rwn' = rwn_count rwn"
  shows "acknack_right pwr rwn base (add_AckNack rwn' info)"
  using assms by (auto simp: acknack_right_def add_AckNack_def request_ok_def Let_def isset_take)

lemma add_NackFrag_right:
  assumes "request_ok pwr rwn info" "sn_bitmap_base (acknack_set info) = base" "nackfrag_seq info \<noteq> 0"
  shows "\<exists>f. add_NackFrag pwr info = Some f \<and> nackfrag_right pwr rwn base f \<and> nf_seq f = nackfrag_seq info"
  using assms
  by (auto simp: nackfrag_right_def add_NackFrag_def request_ok_def Let_def isset_take frags_missing_def
      NN_FRAGMENT_NUMBER_SET_MAX_BITS_def)

end
