(* ===== verification/Acknack_Safe.thy ===== *)
theory Acknack_Safe
  imports Acknack
begin

text \<open>
  That acknowledgements are made without a failing assertion does not depend on what fragments a
  writer sends: they may overlap and may be of any size. This is what the handlers of the receive
  path need, where \<open>acknack_asks_for_missing\<close> needs whole fragments to say what the requests mean.
\<close>

section \<open>The map of fragments\<close>

definition fields_ok :: "rsample_info \<Rightarrow> bool" where
  "fields_ok i \<longleftrightarrow> 0 < si_fragsize i \<and> si_size i + si_fragsize i < 2 ^ 32"

lemma iv_loop_safe:
  assumes ok: "frag_ok s" and "intervals s = xs @ ys" "\<forall>y\<in>set ys. bitmap_base hdr \<le> iv_maxp1 y div fs"
    and "bitmap_base hdr \<le> i" "bitmap_base hdr + numbits hdr < 2 ^ 32" "numbits hdr \<le> 32 * length bits"
  shows "\<exists>bits' i'. iv_loop (fragtree s) fs hdr bits i (hd_opt ys) = Some (bits', i') \<and>
    length bits' = length bits \<and> bitmap_base hdr \<le> i'"
  using assms(2-)
proof (induction ys arbitrary: xs bits i)
  case Nil
  then show ?case by (subst iv_loop.simps) simp
next
  case (Cons y ys)
  show ?case
  proof (cases "i < bitmap_base hdr + numbits hdr")
    case False
    then show ?thesis using Cons.prems by (subst iv_loop.simps) auto
  next
    case True
    obtain b j where b: "set_loop hdr bits i (iv_bound fs y) = Some (b, j)" "length b = length bits"
      using set_loop_spec [OF Cons.prems(5,3,4), of "iv_bound fs y"] by blast
    have nxt: "find_succ ftree (fragtree s) (Some y) = hd_opt ys"
      using ivs.following_law [OF frag_okD(1) [OF ok] Cons.prems(1)] .
    obtain b' i' where "iv_loop (fragtree s) fs hdr b (iv_maxp1 y div fs) (hd_opt ys) = Some (b', i')"
      "length b' = length b" "bitmap_base hdr \<le> i'"
      using Cons.IH [of "xs @ [y]" "iv_maxp1 y div fs" b] Cons.prems b(2) by auto
    with b nxt True show ?thesis by (subst iv_loop.simps) simp
  qed
qed

lemma known_nackmap_safe:
  assumes dok: "defrag_ok d R" and s: "s \<in> set (samples_of d)" "ds_seq s = q" and f: "fields_ok (ds_sampleinfo s)"
    and sz: "0 < maxsz" "maxsz \<le> 256" "maxsz \<le> 32 * length mapbits"
  shows "\<exists>res h b. nn_defrag_nackmap d q maxfragnum hdr mapbits maxsz = Some (res, h, b) \<and>
    length b = length mapbits \<and> (res = DEFRAG_NACKMAP_FRAGMENTS_MISSING \<longrightarrow> 0 < numbits h)"
proof -
  let ?fs = "si_fragsize (ds_sampleinfo s)" and ?size = "ds_size s"
  have idx: "index_ok stree (sampletree d)" and ok: "frag_ok s"
    using dok s by (auto simp: defrag_ok_def defrag_core_def sample_ok_def)
  have lk: "lookup stree (sampletree d) q = Some s" using samples.get_law [OF idx] s by simp
  have fs: "0 < ?fs" "?size + ?fs < 2 ^ 32" using f by (simp_all add: fields_ok_def)
  obtain p ys where e: "intervals s = p # ys" using frag_okD(4) [OF ok] by auto
  obtain xs liv where e': "intervals s = xs @ [liv]"
    using append_butlast_last_id [of "p # ys"] e by (metis list.distinct(1))
  have lf: "lastfrag s = Some (iv_min liv)" using split_ok(8) [OF ok e'] by simp
  have lv: "lookup ftree (fragtree s) (iv_min liv) = Some liv"
    using ivs.get_at [OF frag_okD(1) [OF ok], of xs liv "[]"] e' by simp
  have fm: "find_min (fragtree s) = Some p" using e by (simp add: find_min_inorder)
  have succ: "find_succ ftree (fragtree s) (Some p) = hd_opt ys"
    using ivs.following_law [OF frag_okD(1) [OF ok], of "[]" p ys] e by simp
  have iok: "iv_ok ?size v" if "v \<in> set (intervals s)" for v using frag_okD(3) [OF ok] that by simp
  have livm: "iv_min liv \<le> ?size" using iv_ok_le [OF iok, of liv] e' by simp
  define nf where "nf = u32 (?size + ?fs - 1) div ?fs"
  define mx where "mx = (if nf \<le> maxfragnum then sub32 nf 1 else maxfragnum)"
  define map_end where "map_end = (if iv_maxp1 liv < u32 ((mx + 1) * ?fs) \<and> iv_maxp1 liv < ?size then mx
            else if 0 < iv_min liv then (iv_min liv - 1) div ?fs else 0)"
  let ?base = "iv_maxp1 p div ?fs"
  have nf: "nf = (?size + ?fs - 1) div ?fs" unfolding nf_def u32_def using fs by simp
  have me: "map_end + 1 < 2 ^ 32"
  proof (cases "iv_maxp1 liv < u32 ((mx + 1) * ?fs) \<and> iv_maxp1 liv < ?size")
    case True
    have "?size + ?fs - 1 = (?size - 1) + ?fs" using True by simp
    then have "nf = (?size - 1) div ?fs + 1" unfolding nf using fs(1) by (metis div_add_self2 less_not_refl2)
    then have n: "0 < nf" "nf \<le> ?size" using div_le_dividend [of "?size - 1" ?fs] True by (simp_all, linarith)
    then have "mx < nf" using sub32_small [of 1 nf] fs(2) by (auto simp: mx_def)
    with True n fs(2) show ?thesis by (simp add: map_end_def)
  next
    case False
    have "(iv_min liv - 1) div ?fs \<le> iv_min liv - 1" by (rule div_le_dividend)
    then have "(iv_min liv - 1) div ?fs + 1 < 2 ^ 32" using livm fs by linarith
    with False show ?thesis unfolding map_end_def by (simp only: if_False if_split) simp
  qed
  let ?n = "if maxsz < u32 (map_end - ?base + 1) then maxsz else u32 (map_end - ?base + 1)"
  let ?hdr = "\<lparr>bitmap_base = ?base, numbits = ?n\<rparr>"
  have a: "assertion (maxsz \<le> 256) = Some ()" "assertion (?fs \<noteq> 0) = Some ()" using sz fs by simp_all
  have code: "nn_defrag_nackmap d q maxfragnum hdr mapbits maxsz =
    (if map_end < ?base then
       Some (DEFRAG_NACKMAP_ALL_ADVERTISED_FRAGMENTS_KNOWN, hdr\<lparr>bitmap_base := ?base\<rparr>, mapbits)
     else do {
       bits0 \<leftarrow> nn_bitset_zero ?n mapbits;
       (bits1, i) \<leftarrow> iv_loop (fragtree s) ?fs ?hdr bits0 ?base (find_succ ftree (fragtree s) (Some p));
       (bits2, _) \<leftarrow> set_loop ?hdr bits1 i (?base + ?n);
       Some (DEFRAG_NACKMAP_FRAGMENTS_MISSING, ?hdr, bits2) })"
    unfolding nn_defrag_nackmap_def Let_def a option_bind_Some lk option.case lf lv fm
      nf_def [symmetric] mx_def [symmetric] map_end_def [symmetric] ..
  show ?thesis
  proof (cases "map_end < ?base")
    case True
    with code show ?thesis by simp
  next
    case False
    have n0: "u32 (map_end - ?base + 1) = map_end - ?base + 1" unfolding u32_def using me by simp
    have n: "0 < ?n" "?base + ?n < 2 ^ 32" "?n \<le> 32 * length mapbits" using sz me False n0 by auto
    obtain b0 where b0: "nn_bitset_zero ?n mapbits = Some b0" "length b0 = length mapbits"
      using nn_bitset_zero_spec [OF n(3)] by blast
    have le: "\<forall>y\<in>set ys. ?base \<le> iv_maxp1 y div ?fs"
    proof
      fix y assume y: "y \<in> set ys"
      have "iv_maxp1 p < iv_min y" using split_ok(5) [OF ok, of "[]" p ys] e y by simp
      with iv_ok_le [OF iok, of y] y e show "?base \<le> iv_maxp1 y div ?fs" by (intro div_le_mono) auto
    qed
    obtain b1 i where b1: "iv_loop (fragtree s) ?fs ?hdr b0 ?base (hd_opt ys) = Some (b1, i)"
      "length b1 = length b0" "?base \<le> i"
      using iv_loop_safe [OF ok, of "[p]" ys ?hdr ?fs ?base b0] e le n b0(2) by auto
    obtain b2 j where "set_loop ?hdr b1 i (?base + ?n) = Some (b2, j)" "length b2 = length b1"
      using set_loop_spec [of ?hdr b1 i "?base + ?n"] n b1 b0(2) by auto
    with code False b0 b1 succ n(1) show ?thesis by simp
  qed
qed

definition fields_all_ok :: "nn_defrag \<Rightarrow> bool" where
  "fields_all_ok d \<longleftrightarrow> (\<forall>i\<in>infos d. fields_ok i)"

lemma nackmap_safe:
  assumes dok: "defrag_ok d R" and f: "fields_all_ok d"
    and sz: "0 < maxsz" "maxsz \<le> 256" "maxsz \<le> 32 * length mapbits"
  shows "\<exists>res h b. nn_defrag_nackmap d q maxfragnum hdr mapbits maxsz = Some (res, h, b) \<and>
    length b = length mapbits \<and> (res = DEFRAG_NACKMAP_FRAGMENTS_MISSING \<longrightarrow> 0 < numbits h)"
proof (cases "lookup stree (sampletree d) q")
  case (Some s)
  have "index_ok stree (sampletree d)" using dok by (simp add: defrag_ok_def defrag_core_def)
  from samples.get_law [OF this, of q s] Some have s: "s \<in> set (samples_of d)" "ds_seq s = q" by auto
  with f have "fields_ok (ds_sampleinfo s)" by (simp add: fields_all_ok_def infos_def)
  from known_nackmap_safe [OF dok s this sz] show ?thesis .
next
  case None
  let ?n = "if maxsz < maxfragnum + 1 then maxsz else maxfragnum + 1"
  have "?n \<le> 32 * length mapbits" using sz by auto
  then obtain b where "nn_bitset_one ?n mapbits = Some b" "length b = length mapbits"
    using nn_bitset_one_spec by blast
  with None sz show ?thesis by (auto simp: nn_defrag_nackmap_def Let_def)
qed

section \<open>The scan and the choice\<close>

lemma scan_safe:
  assumes dok: "defrag_ok (pwr_defrag pwr) R" and f: "fields_all_ok (pwr_defrag pwr)"
  shows "256 \<le> 32 * length (nackfrag_bits info) \<Longrightarrow> n \<le> 32 * length (acknack_bits info) \<Longrightarrow>
    sn_numbits (acknack_set info) = n \<Longrightarrow> nackfrag_seq info = 0 \<Longrightarrow> 0 < n \<Longrightarrow> 0 < sn_bitmap_base (acknack_set info) \<Longrightarrow>
    \<exists>nack info'. scan_bitmap pwr n i info = Some (nack, info') \<and>
      sn_bitmap_base (acknack_set info') = sn_bitmap_base (acknack_set info) \<and>
      (nackfrag_seq info' = 0 \<or> 0 < numbits (nackfrag_set info')) \<and>
      (nack \<longrightarrow> 0 < sn_numbits (acknack_set info') \<or> 0 < nackfrag_seq info')"
proof (induction "n - i" arbitrary: i info)
  case 0
  then show ?case by (intro exI [of _ True] exI [of _ info]) (simp add: scan_bitmap.simps)
next
  case (Suc d)
  then have i: "i < n" and d: "d = n - (i + 1)" by simp_all
  let ?q = "sn_bitmap_base (acknack_set info) + i"
  let ?k = "if ?q = pwr_last_seq pwr then pwr_last_fragnum pwr else UINT32_MAX"
  have bit: "nn_bitset_isset n (acknack_bits info) i = Some (isset (acknack_bits info) i)"
    using nn_bitset_isset_iff [OF Suc.prems(2)] i by simp
  obtain res h b where q: "nn_defrag_nackmap (pwr_defrag pwr) ?q ?k (nackfrag_set info) (nackfrag_bits info) 256 = Some (res, h, b)"
    "length b = length (nackfrag_bits info)" "res = DEFRAG_NACKMAP_FRAGMENTS_MISSING \<longrightarrow> 0 < numbits h"
    using nackmap_safe [OF dok f _ _ Suc.prems(1), of ?q ?k "nackfrag_set info"] by auto
  let ?i = "info\<lparr>nackfrag_set := h, nackfrag_bits := b\<rparr>"
  note code = scan_bitmap.simps [of pwr n i info, unfolded bit NN_FRAGMENT_NUMBER_SET_MAX_BITS_def Let_def option_bind_Some]
  show ?case
  proof (cases "isset (acknack_bits info) i")
    case False
    then have "scan_bitmap pwr n i info = scan_bitmap pwr n (i + 1) info" using i unfolding code by simp
    with Suc.hyps(1) [OF d Suc.prems] show ?thesis by simp
  next
    case True
    have m: "scan_bitmap pwr n i info = (case res of
         DEFRAG_NACKMAP_UNKNOWN_SAMPLE \<Rightarrow> scan_bitmap pwr n (i + 1) ?i
       | DEFRAG_NACKMAP_ALL_ADVERTISED_FRAGMENTS_KNOWN \<Rightarrow>
           Some (0 < i, ?i\<lparr>acknack_set := (acknack_set info)\<lparr>sn_numbits := i\<rparr>, nackfrag_seq := 0\<rparr>)
       | DEFRAG_NACKMAP_FRAGMENTS_MISSING \<Rightarrow>
           Some (True, ?i\<lparr>acknack_set := (acknack_set info)\<lparr>sn_numbits := i\<rparr>, nackfrag_seq := ?q\<rparr>))"
      using True i unfolding code q(1) option_bind_Some by (cases res) simp_all
    show ?thesis
    proof (cases res)
      case DEFRAG_NACKMAP_UNKNOWN_SAMPLE
      with m have "scan_bitmap pwr n i info = scan_bitmap pwr n (i + 1) ?i" by simp
      with Suc.hyps(1) [OF d, of ?i] Suc.prems q(2) show ?thesis by simp
    qed (use m q(3) Suc.prems(6) in auto)
  qed
qed

lemma nackmap_total:
  assumes ok: "reorder_ok r" and b: "1 \<le> base" "base \<le> next_seq r" and sz: "maxsz \<le> 256" "maxsz \<le> 32 * length mapbits"
  shows "\<exists>hdr bits. nn_reorder_nackmap r base maxseq mapbits maxsz notail = Some (hdr, bits) \<and>
    sn_bitmap_base hdr = base \<and> sn_numbits hdr \<le> 32 * length bits"
proof -
  let ?mx = "max maxseq (base - 1)"
  have "nn_reorder_nackmap r base maxseq mapbits maxsz notail = nn_reorder_nackmap r base ?mx mapbits maxsz notail"
    using b by (auto simp: nn_reorder_nackmap_def max_def)
  moreover have "base \<le> ?mx + 1" by auto
  from reorder_nackmap_spec [OF ok b(2) this sz, of notail] obtain hdr bits where
    "nn_reorder_nackmap r base ?mx mapbits maxsz notail = Some (hdr, bits)" "nack_ok r base ?mx maxsz notail (hdr, bits)"
    by auto
  ultimately show ?thesis by (auto simp: nack_ok_def)
qed

text \<open>
  The low word is that of some number that has been passed: what \<open>next_deliv_seq\<close> makes of it is a number that has
  been passed, too.
\<close>

definition deliv_ok :: "ddsi_proxy_writer \<Rightarrow> bool" where
  "deliv_ok pwr \<longleftrightarrow> (\<exists>nd. 0 < nd \<and> nd \<le> next_seq (pwr_reorder pwr) \<and> next_deliv_seq_lowword pwr = word_of_nat nd)"

lemma next_deliv_seq_total:
  assumes "0 < nd" "nd \<le> n" "n < 2 ^ 64"
  shows "\<exists>q. next_deliv_seq (word_of_nat nd) n = Some q \<and> 0 < q \<and> q \<le> n"
proof -
  let ?n = "word_of_nat n :: 64 word" and ?lw = "word_of_nat nd :: u32"
  have un: "unat ?n = n" using assms by (simp add: unat_of_nat take_bit_nat_eq_self)
  let ?P = "push_bit 32 (drop_bit 32 ?n)" and ?T = "ucast ?lw :: 64 word"
  define nd0 where "nd0 = (?n AND NOT (ucast (- 1 :: u32))) OR ?T"
  have e: "nd0 = ?P OR ?T" unfolding nd0_def by (rule bit_word_eqI) (auto simp: bit_simps)
  have "?P AND ?T = 0" by (rule bit_word_eqI) (auto simp: bit_simps)
  then have s: "nd0 = ?P + ?T" unfolding e by (rule disjunctive_add_eq_or [symmetric])
  have "unat ?P = take_bit 64 (n div 2 ^ 32 * 2 ^ 32)"
    unfolding unsigned_push_bit_eq unat_drop_bit_eq un by (simp add: push_bit_eq_mult drop_bit_eq_div)
  also have "\<dots> = n div 2 ^ 32 * 2 ^ 32"
    by (rule take_bit_nat_eq_self) (use assms(3) div_times_less_eq_dividend [of n "2 ^ 32"] in linarith)
  finally have p: "unat ?P = n div 2 ^ 32 * 2 ^ 32" .
  have t: "unat ?T = nd mod 2 ^ 32"
    by (simp add: unsigned_ucast_eq unat_of_nat take_bit_eq_mod)
  have "n div 2 ^ 32 < 2 ^ 32" using assms(3) by (simp add: less_mult_imp_div_less)
  then have "unat ?P + unat ?T < 2 ^ 64" unfolding p t
    using mod_less_divisor [of "2 ^ 32" nd] by simp
  then have u: "unat nd0 = n div 2 ^ 32 * 2 ^ 32 + nd mod 2 ^ 32"
    unfolding s using p t by (simp add: unat_word_ariths)
  have dn: "n = n div 2 ^ 32 * 2 ^ 32 + n mod 2 ^ 32" by simp
  have small: "n div 2 ^ 32 = 0 \<Longrightarrow> nd mod 2 ^ 32 = nd \<and> n mod 2 ^ 32 = n" using assms(2) by (simp add: div_eq_0_iff)
  define r where "r = (if ?n < nd0 then nd0 - 2 ^ 32 else nd0)"
  have "0 < unat r \<and> unat r \<le> n"
  proof (cases "?n < nd0")
    case True
    then have lt: "n < unat nd0" using un by (simp add: word_less_nat_alt)
    then have L: "n mod 2 ^ 32 < nd mod 2 ^ 32" using u dn by linarith
    from this small assms(2) have h: "0 < n div 2 ^ 32" by linarith
    have big: "2 ^ 32 \<le> n div 2 ^ 32 * 2 ^ 32" using mult_le_mono1 [of 1 "n div 2 ^ 32" "2 ^ 32"] h by simp
    then have "2 ^ 32 \<le> unat nd0" using u by linarith
    then have e: "unat (nd0 - 2 ^ 32) = unat nd0 - 2 ^ 32" by (simp add: unat_sub word_le_nat_alt)
    have "nd mod 2 ^ 32 < 2 ^ 32" by simp
    then have "unat (nd0 - 2 ^ 32) \<le> n" "0 < unat (nd0 - 2 ^ 32)" using L big u dn unfolding e by linarith+
    then show ?thesis using True by (simp add: r_def)
  next
    case False
    then have "unat nd0 \<le> n" using un by (simp add: word_less_nat_alt)
    moreover have "0 < unat nd0"
    proof (cases "n div 2 ^ 32 = 0")
      case True
      with small u assms(1) show ?thesis by simp
    qed (simp add: u)
    ultimately show ?thesis using False by (simp add: r_def)
  qed
  then have "assertion (0 < r \<and> r \<le> ?n) = Some ()" using un by (simp add: word_less_nat_alt word_le_nat_alt)
  then have "next_deliv_seq ?lw n = Some (unat r)"
    unfolding next_deliv_seq_def Let_def nd0_def [symmetric] r_def [symmetric] by simp
  with \<open>0 < unat r \<and> unat r \<le> n\<close> show ?thesis by blast
qed

definition safe_acks :: "ack_config \<Rightarrow> ddsi_proxy_writer \<Rightarrow> ddsi_pwr_rd_match \<Rightarrow> bool" where
  "safe_acks cfg pwr rwn \<longleftrightarrow> reorder_ok (reorder_of pwr rwn) \<and> 1 \<le> next_seq (reorder_of pwr rwn) \<and>
     next_seq (pwr_reorder pwr) < 2 ^ 64 \<and> (\<exists>R. defrag_ok (pwr_defrag pwr) R) \<and> fields_all_ok (pwr_defrag pwr) \<and>
     (late_ack cfg \<longrightarrow> deliv_ok pwr)"

lemma getsource_total:
  assumes "safe_acks cfg pwr rwn"
  shows "\<exists>base notail. add_AckNack_getsource cfg pwr rwn = Some (reorder_of pwr rwn, base, notail) \<and>
    1 \<le> base \<and> base \<le> next_seq (reorder_of pwr rwn)"
proof (cases "on_its_own rwn \<or> \<not> late_ack cfg")
  case True
  with assms show ?thesis
    by (auto simp: add_AckNack_getsource_def safe_acks_def reorder_of_def nn_reorder_next_seq_def)
next
  case False
  then obtain nd where "0 < nd" "nd \<le> next_seq (pwr_reorder pwr)" "next_deliv_seq_lowword pwr = word_of_nat nd"
    using assms by (auto simp: safe_acks_def deliv_ok_def)
  moreover have "next_seq (pwr_reorder pwr) < 2 ^ 64" using assms by (simp add: safe_acks_def)
  ultimately obtain q where "next_deliv_seq (next_deliv_seq_lowword pwr) (next_seq (pwr_reorder pwr)) = Some q"
    "0 < q" "q \<le> next_seq (pwr_reorder pwr)"
    using next_deliv_seq_total by metis
  with False show ?thesis by (simp add: add_AckNack_getsource_def reorder_of_def nn_reorder_next_seq_def)
qed

lemma get_total:
  assumes st: "safe_acks cfg pwr rwn" and b: "buffers_ok info0"
  shows "get_AckNack_info cfg pwr rwn info0 ackd nackd \<noteq> None"
proof -
  obtain R where dok: "defrag_ok (pwr_defrag pwr) R" "fields_all_ok (pwr_defrag pwr)"
    and rok: "reorder_ok (reorder_of pwr rwn)" using st by (auto simp: safe_acks_def)
  obtain base notail where src: "add_AckNack_getsource cfg pwr rwn = Some (reorder_of pwr rwn, base, notail)"
    "1 \<le> base" "base \<le> next_seq (reorder_of pwr rwn)" using getsource_total [OF st] by blast
  have l: "(256 :: nat) \<le> 256" "256 \<le> 32 * length (acknack_bits info0)" using b by (simp_all add: buffers_ok_def)
  obtain hdr bits where m: "nn_reorder_nackmap (reorder_of pwr rwn) base (highest pwr rwn) (acknack_bits info0) 256 notail = Some (hdr, bits)"
    "sn_bitmap_base hdr = base" "sn_numbits hdr \<le> 32 * length bits"
    using nackmap_total [OF rok src(2,3) l] by blast
  define info where "info = info0\<lparr>acknack_set := hdr, acknack_bits := bits, nackfrag_seq := 0\<rparr>"
  have code: "add_AckNack_makebitmaps cfg pwr rwn info0 =
      (if sn_numbits hdr = 0 then Some (False, info) else scan_bitmap pwr (sn_numbits hdr) 0 info)"
    unfolding add_AckNack_makebitmaps_def src(1) using m(1)
    by (simp add: highest_def info_def Let_def NN_SEQUENCE_NUMBER_SET_MAX_BITS_def)
  have "\<exists>nack info'. add_AckNack_makebitmaps cfg pwr rwn info0 = Some (nack, info') \<and>
    (nack \<longrightarrow> 1 \<le> sn_bitmap_base (acknack_set info') \<and>
      (0 < sn_numbits (acknack_set info') \<or> 0 < nackfrag_seq info') \<and>
      (nackfrag_seq info' = 0 \<or> 0 < numbits (nackfrag_set info')))"
  proof (cases "sn_numbits hdr = 0")
    case False
    have "\<exists>nack info'. scan_bitmap pwr (sn_numbits hdr) 0 info = Some (nack, info') \<and>
      sn_bitmap_base (acknack_set info') = sn_bitmap_base (acknack_set info) \<and>
      (nackfrag_seq info' = 0 \<or> 0 < numbits (nackfrag_set info')) \<and>
      (nack \<longrightarrow> 0 < sn_numbits (acknack_set info') \<or> 0 < nackfrag_seq info')"
      by (rule scan_safe [OF dok]) (use m b False src(2) in \<open>auto simp: info_def buffers_ok_def\<close>)
    with code False m(2) src(2) show ?thesis by (auto simp: info_def)
  qed (use code in \<open>intro exI [of _ False] exI [of _ info], simp\<close>)
  then obtain nack info' where n: "add_AckNack_makebitmaps cfg pwr rwn info0 = Some (nack, info')"
    and a: "nack \<longrightarrow> assertion (1 \<le> sn_bitmap_base (acknack_set info') \<and>
              (0 < sn_numbits (acknack_set info') \<or> 0 < nackfrag_seq info')) = Some () \<and>
      assertion (nackfrag_seq info' = 0 \<or> 0 < numbits (nackfrag_set info')) = Some ()" by auto
  show ?thesis unfolding get_AckNack_info_def n option_bind_Some
    using a by (cases nack) (simp_all add: Let_def case_prod_beta)
qed

lemma sched_total:
  assumes "safe_acks cfg pwr rwn" "buffers_ok info0" "times_ok cfg rwn tnow"
  shows "sched_acknack_if_needed cfg pwr rwn info0 tnow avoid \<noteq> None"
proof -
  have t: "ddsrt_mtime_add_duration (t_last_ack rwn) (ack_delay cfg) = Some (after (t_last_ack rwn) (ack_delay cfg))"
    "ddsrt_mtime_add_duration (t_last_nack rwn) (nack_delay cfg) = Some (after (t_last_nack rwn) (nack_delay cfg))"
    using assms(3) by (simp_all add: times_ok_def add_duration)
  obtain res s info where "get_AckNack_info cfg pwr rwn info0 (after (t_last_ack rwn) (ack_delay cfg) \<le> tnow)
      (after (t_last_nack rwn) (nack_delay cfg) \<le> tnow) = Some (res, s, info)"
    using get_total [OF assms(1,2)] by (metis not_None_eq prod_cases3)
  then show ?thesis unfolding sched_acknack_if_needed_def t option_bind_Some by simp
qed

end
