(* ===== verification/Proxy_Writer.thy ===== *)
theory Proxy_Writer
  imports Proxy_Writer_Model Proxy_Writer_Counts Reorder_Contract Defrag_Properties Dqueue Acknack_Safe
begin

text \<open>
  The invariant of a proxy writer and the bookkeeping of the references it holds: in the defragmenter, in its reorder
  administration and those of its readers, and in the delivery queue. The building blocks of the handlers keep both.
\<close>

section \<open>References\<close>

definition owed_rd :: "pwr_match list \<Rightarrow> nat \<Rightarrow> nat" where
  "owed_rd wns m = sum_list (map (\<lambda>wn. held_in m (stored_frags (rwn_reorder (pm_ack wn)))) wns)"

definition owed :: "ddsi_proxy_writer \<Rightarrow> pwr_match list \<Rightarrow> nat \<Rightarrow> nat" where
  "owed w wns m = BIAS * held_in m (allfrags (samples_of (pwr_defrag w))) + held_in m (stored_frags (pwr_reorder w)) +
     owed_rd wns m + held_in m (frags_of (dq_sc (pwr_dqueue w)))"

lemma owed_rd_simps [simp]:
  "owed_rd [] m = 0"
  "owed_rd (wn # wns) m = held_in m (stored_frags (rwn_reorder (pm_ack wn))) + owed_rd wns m"
  "owed_rd (xs @ ys) m = owed_rd xs m + owed_rd ys m"
  by (simp_all add: owed_rd_def)

lemma owed_rd_mem: "wn \<in> set wns \<Longrightarrow> held_in m (stored_frags (rwn_reorder (pm_ack wn))) \<le> owed_rd wns m"
  by (induction wns) auto

text \<open>
  The books balance: every count is what others hold, \<open>F\<close>, what is owed here, the chain \<open>ex\<close> that is in transit, and the bias
  of the fragments \<open>fs\<close> being handled, less the references that \<open>adj\<close> stands for, which are part of what is owed.
\<close>

definition books :: "(nat \<Rightarrow> nat) \<Rightarrow> ddsi_proxy_writer \<Rightarrow> pwr_match list \<Rightarrow> refs \<Rightarrow> rdata list \<Rightarrow> nat \<Rightarrow>
    rsample_chain_elem list \<Rightarrow> bool" where
  "books F w wns R fs adj ex \<longleftrightarrow> adj < BIAS \<and>
     (\<forall>m. R m + adj * held_in m fs = F m + owed w wns m + held_in m (chain_frags ex) + BIAS * held_in m fs)"

lemma books_le:
  assumes "books F w wns R fs adj ex"
  shows "owed w wns m + held_in m (chain_frags ex) + (BIAS - adj) * held_in m fs \<le> R m"
proof -
  have "R m + adj * held_in m fs = F m + owed w wns m + held_in m (chain_frags ex) + BIAS * held_in m fs" "adj < BIAS"
    using assms by (auto simp: books_def)
  moreover have "BIAS * held_in m fs = (BIAS - adj) * held_in m fs + adj * held_in m fs"
    using \<open>adj < BIAS\<close> by (metis add_mult_distrib le_add_diff_inverse2 less_imp_le)
  ultimately show ?thesis by linarith
qed

lemma books_held:
  assumes "books F w wns R fs adj ex"
  shows "refs_cover (pwr_reorder w) R"
    and "wn \<in> set wns \<Longrightarrow> refs_cover (rwn_reorder (pm_ack wn)) R"
    and "held_in m (allfrags (samples_of (pwr_defrag w))) * BIAS \<le> R m"
    and "held_in m (chain_frags ex) \<le> R m"
proof -
  note le = books_le [OF assms, unfolded owed_def]
  show "refs_cover (pwr_reorder w) R" unfolding refs_cover_def
  proof
    fix m show "held_in m (chain_frags (chains (ivs_of (pwr_reorder w)))) \<le> R m"
      using le [of m] by (simp add: stored_frags_def)
  qed
  show "refs_cover (rwn_reorder (pm_ack wn)) R" if wn: "wn \<in> set wns"
    unfolding refs_cover_def
  proof
    fix m show "held_in m (chain_frags (chains (ivs_of (rwn_reorder (pm_ack wn))))) \<le> R m"
      using le [of m] owed_rd_mem [OF wn, of m] by (simp add: stored_frags_def)
  qed
  show "held_in m (allfrags (samples_of (pwr_defrag w))) * BIAS \<le> R m" using le [of m] by (simp add: mult.commute)
  show "held_in m (chain_frags ex) \<le> R m" using le [of m] by simp
qed

text \<open>
  The message \<open>m\<close> is being received: others, among them the receive thread with its uncommitted bias, hold at least that bias, and the
  count has room for one more bias. Then the bias of the next fragment is added as it should be.
\<close>

definition taking :: "(nat \<Rightarrow> nat) \<Rightarrow> rx \<Rightarrow> nat \<Rightarrow> bool" where
  "taking F st m \<longleftrightarrow> RMSG_REFCOUNT_UNCOMMITTED_BIAS \<le> F m \<and> rx_refs st m + BIAS < 2 ^ 32"

lemma taking_le: "taking F st m \<Longrightarrow> rx_refs st' m \<le> rx_refs st m \<Longrightarrow> taking F st' m"
  by (simp add: taking_def)

lemma taking_receives:
  assumes "taking F st m" "books F w wns (rx_refs st) [] 0 []"
  shows "receives (rx_refs st) (owed w wns m) m" "receiving (pwr_defrag w) (rx_refs st) 1 m"
proof -
  have "rx_refs st m = F m + owed w wns m" using assms(2) by (simp add: books_def)
  then show "receives (rx_refs st) (owed w wns m) m" "receiving (pwr_defrag w) (rx_refs st) 1 m"
    using assms(1) by (simp_all add: taking_def receives_def receiving_def owed_def mult.commute)
qed

text \<open>The end of a message: its fragments trade their bias for what has been stored.\<close>

lemma books_adjust:
  assumes "books F w wns R fs adj []"
  shows "\<exists>R'. nn_fragchain_adjust_refcount R fs (int adj) = Some R' \<and> books F w wns R' [] 0 []"
proof -
  have lt: "adj < BIAS" using assms by (simp add: books_def)
  have "held_in m fs * (BIAS - nat (int adj)) \<le> R m" for m
    using books_le [OF assms, of m] by (simp add: mult.commute)
  then obtain R' where R': "nn_fragchain_adjust_refcount R fs (int adj) = Some R'"
    "\<forall>m. R' m + held_in m fs * (BIAS - nat (int adj)) = R m"
    using adjust_refcount [of "int adj" fs R] lt by auto
  have "R' m = F m + owed w wns m" for m
  proof -
    have "R m + adj * held_in m fs = F m + owed w wns m + BIAS * held_in m fs" using assms by (simp add: books_def)
    moreover have "BIAS * held_in m fs = held_in m fs * (BIAS - adj) + adj * held_in m fs"
      using lt by (metis add_mult_distrib le_add_diff_inverse2 less_imp_le mult.commute)
    ultimately show ?thesis using R'(2) [rule_format, of m] by simp
  qed
  with R'(1) show ?thesis by (simp add: books_def)
qed

text \<open>What a reorder administration takes in, what it stores and what it hands out.\<close>

lemma books_took:
  assumes "books F w wns R fs adj []" "accounted (pwr_reorder w) R gs sc r' R' d" "adj + d < BIAS"
    and "d = 0 \<or> (\<forall>m. held_in m gs = held_in m fs)"
  shows "books F (w\<lparr>pwr_reorder := r'\<rparr>) wns R' fs (adj + d) sc"
  unfolding books_def
proof (intro conjI allI)
  fix m
  have "R' m + held_in m (stored_frags (pwr_reorder w)) + d * held_in m gs =
      R m + held_in m (stored_frags r') + held_in m (chain_frags sc)" using assms(2) by (simp add: accounted_def)
  moreover have "d * held_in m gs = d * held_in m fs" using assms(4) by auto
  moreover have "R m + adj * held_in m fs = F m + owed w wns m + BIAS * held_in m fs" using assms(1) by (simp add: books_def)
  ultimately show "R' m + (adj + d) * held_in m fs =
      F m + owed (w\<lparr>pwr_reorder := r'\<rparr>) wns m + held_in m (chain_frags sc) + BIAS * held_in m fs"
    by (simp add: owed_def add_mult_distrib)
qed (rule assms(3))

lemma books_took_rd:
  assumes "books F w (xs @ wn # ys) R fs adj []" "accounted (rwn_reorder (pm_ack wn)) R gs sc r' R' d" "adj + d < BIAS"
    and "d = 0 \<or> (\<forall>m. held_in m gs = held_in m fs)"
  shows "books F w (xs @ set_reorder r' wn # ys) R' fs (adj + d) sc"
  unfolding books_def
proof (intro conjI allI)
  fix m
  have "R' m + held_in m (stored_frags (rwn_reorder (pm_ack wn))) + d * held_in m gs =
      R m + held_in m (stored_frags r') + held_in m (chain_frags sc)" using assms(2) by (simp add: accounted_def)
  moreover have "d * held_in m gs = d * held_in m fs" using assms(4) by auto
  moreover have "R m + adj * held_in m fs = F m + owed w (xs @ wn # ys) m + BIAS * held_in m fs"
    using assms(1) by (simp add: books_def)
  ultimately show "R' m + (adj + d) * held_in m fs =
      F m + owed w (xs @ set_reorder r' wn # ys) m + held_in m (chain_frags sc) + BIAS * held_in m fs"
    by (simp add: owed_def add_mult_distrib)
qed (rule assms(3))

lemma books_unref:
  assumes "books F w wns R fs adj (e # es)"
  shows "\<exists>R'. nn_fragchain_unref R (sce_fragchain e) = Some R' \<and> books F w wns R' fs adj es"
proof -
  have "held_in m (sce_fragchain e) \<le> R m" for m using books_held(4) [OF assms, of m] by simp
  then obtain R' where R': "nn_fragchain_unref R (sce_fragchain e) = Some R'"
    "\<forall>m. R' m + held_in m (sce_fragchain e) = R m" using unref by blast
  have "R' m + adj * held_in m fs = F m + owed w wns m + held_in m (chain_frags es) + BIAS * held_in m fs" for m
  proof -
    have "R m + adj * held_in m fs = F m + owed w wns m + held_in m (chain_frags (e # es)) + BIAS * held_in m fs"
      using assms by (simp add: books_def)
    then show ?thesis using R'(2) [rule_format, of m] by simp
  qed
  with R'(1) assms show ?thesis by (simp add: books_def)
qed

text \<open>A chain is put into the delivery queue.\<close>

lemma frags_of_elements [simp]: "frags_of (map Element es) = chain_frags es"
  by (simp add: frags_of_def chain_frags_def comp_def)

lemma books_queued:
  assumes "books F w wns R fs adj ex" "frags_of (dq_sc q) = frags_of (dq_sc (pwr_dqueue w)) @ chain_frags ex"
  shows "books F (w\<lparr>pwr_dqueue := q\<rparr>) wns R fs adj []"
  using assms by (simp add: books_def owed_def)

lemma enqueue_frags:
  assumes "0 < res" "sc \<noteq> []"
  shows "\<exists>q' b. nn_dqueue_enqueue q sc res = Some (q', b) \<and> frags_of (dq_sc q') = frags_of (dq_sc q) @ chain_frags sc"
    "\<exists>q' b. nn_dqueue_enqueue_deferred_wakeup q sc res = Some (q', b) \<and> frags_of (dq_sc q') = frags_of (dq_sc q) @ chain_frags sc"
    "\<exists>q' b. nn_dqueue_enqueue1 q g sc res = Some (q', b) \<and> frags_of (dq_sc q') = frags_of (dq_sc q) @ chain_frags sc"
  using assms
  by (auto simp: nn_dqueue_enqueue_def nn_dqueue_enqueue_deferred_wakeup_def nn_dqueue_enqueue1_def
      nn_dqueue_enqueue_locked_def nn_dqueue_enqueue_bubble_locked_def Let_def)

section \<open>The invariant\<close>

text \<open>A sample begins with its first fragment.\<close>

definition elem_ok :: "rsample_chain_elem \<Rightarrow> bool" where
  "elem_ok e \<longleftrightarrow> sce_sampleinfo e = None \<or> (\<exists>d ds. sce_fragchain e = d # ds \<and> rd_min d = 0)"

definition elems_ok :: "rsample_chain_elem list \<Rightarrow> bool" where
  "elems_ok es \<longleftrightarrow> (\<forall>e\<in>set es. elem_ok e)"

lemma elems_ok_simps [simp]:
  "elems_ok []" "elems_ok (e # es) \<longleftrightarrow> elem_ok e \<and> elems_ok es"
  by (auto simp: elems_ok_def)

text \<open>The largest sequence number is that of \<open>validating_fromSN\<close>; \<open>L\<close> bounds what is stored.\<close>

definition SEQ_END :: seqno where
  "SEQ_END = 2 ^ 63"

definition main_ok :: "(seqno \<Rightarrow> nat) \<Rightarrow> seqno \<Rightarrow> ddsi_proxy_writer \<Rightarrow> bool" where
  "main_ok sz L w \<longleftrightarrow> reorder_ok (pwr_reorder w) \<and> 1 \<le> next_seq (pwr_reorder w) \<and> next_seq (pwr_reorder w) \<le> SEQ_END \<and>
     elems_ok (chains (ivs_of (pwr_reorder w))) \<and> cov (ivs_of (pwr_reorder w)) \<subseteq> {..<L} \<and> L \<le> SEQ_END \<and>
     (\<exists>R. defrag_ok (pwr_defrag w) R) \<and> sized sz (pwr_defrag w) \<and> fields_all_ok (pwr_defrag w) \<and>
     (ro_mode (pwr_reorder w) = NN_REORDER_MODE_NORMAL \<longrightarrow> deliv_ok w)"

definition match_ok :: "ddsi_pwr_rd_match \<Rightarrow> bool" where
  "match_ok m \<longleftrightarrow> reorder_ok (rwn_reorder m) \<and> 1 \<le> next_seq (rwn_reorder m) \<and> elems_ok (chains (ivs_of (rwn_reorder m))) \<and>
     0 \<le> t_last_ack m \<and> 0 \<le> t_last_nack m"

abbreviation reader_ok :: "pwr_match \<Rightarrow> bool" where
  "reader_ok wn \<equiv> match_ok (pm_ack wn)"

definition out_of_sync :: "pwr_match list \<Rightarrow> int" where
  "out_of_sync wns = int (length (filter (\<lambda>wn. in_sync (pm_ack wn) \<noteq> PRMSS_SYNC) wns))"

definition reliable_ones :: "pwr_match list \<Rightarrow> int" where
  "reliable_ones wns = int (length (filter (\<lambda>wn. acknack_xevent wn \<noteq> None) wns))"

lemma counts_simps [simp]:
  "out_of_sync [] = 0" "out_of_sync (wn # wns) = (if in_sync (pm_ack wn) \<noteq> PRMSS_SYNC then 1 else 0) + out_of_sync wns"
  "out_of_sync (xs @ ys) = out_of_sync xs + out_of_sync ys"
  "reliable_ones [] = 0" "reliable_ones (wn # wns) = (if acknack_xevent wn \<noteq> None then 1 else 0) + reliable_ones wns"
  "reliable_ones (xs @ ys) = reliable_ones xs + reliable_ones ys"
  by (simp_all add: out_of_sync_def reliable_ones_def)

lemma counts_nonneg [simp]:
  "0 \<le> out_of_sync wns" "0 \<le> reliable_ones wns" "out_of_sync xs + (1 + out_of_sync ys) \<noteq> 0"
  by (simp_all add: out_of_sync_def reliable_ones_def)

text \<open>
  In the middle of a handler, where the readers are the list \<open>wns\<close>: the state has them back only when the loop over them
  is done.
\<close>

definition mid ::
  "(nat \<Rightarrow> nat) \<Rightarrow> (seqno \<Rightarrow> nat) \<Rightarrow> seqno \<Rightarrow> rx \<Rightarrow> pwr_match list \<Rightarrow> rdata list \<Rightarrow> nat \<Rightarrow> rsample_chain_elem list \<Rightarrow> bool" where
  "mid F sz L st wns fs adj ex \<longleftrightarrow> main_ok sz L (pw (rx_pwr st)) \<and> (\<forall>wn\<in>set wns. reader_ok wn) \<and>
     n_readers_out_of_sync (rx_pwr st) = out_of_sync wns \<and>
     fastpath_ok (rx_pwr st) = (out_of_sync wns = 0) \<and>
     (deliver_synchronously (rx_pwr st) \<longrightarrow> \<not> pwr_builtin (rx_pwr st)) \<and>
     books F (pw (rx_pwr st)) wns (rx_refs st) fs adj ex \<and> elems_ok ex"

text \<open>What the building blocks of the handlers do not touch.\<close>

definition fixed :: "rx \<Rightarrow> pwr_match list \<times> int \<times> bool \<times> bool \<times> bool \<times> bool \<times> bool \<times> bool \<times> bool \<times> nat \<times> seqno \<times> nn_reorder_mode" where
  "fixed st = (readers (rx_pwr st), n_reliable_readers (rx_pwr st), deliver_synchronously (rx_pwr st), have_seen_heartbeat (rx_pwr st), local_matching_inprogress (rx_pwr st),
     alive (rx_pwr st), pwr_filtered (rx_pwr st), pwr_builtin (rx_pwr st), pwr_reliable (rx_pwr st), dqueue_id (rx_pwr st),
     pwr_last_seq (pw (rx_pwr st)), ro_mode (pwr_reorder (pw (rx_pwr st))))"

lemma fixedD:
  assumes "fixed st' = fixed st"
  shows "readers (rx_pwr st') = readers (rx_pwr st)" "n_reliable_readers (rx_pwr st') = n_reliable_readers (rx_pwr st)"
    "deliver_synchronously (rx_pwr st') = deliver_synchronously (rx_pwr st)"
    "have_seen_heartbeat (rx_pwr st') = have_seen_heartbeat (rx_pwr st)" "pwr_filtered (rx_pwr st') = pwr_filtered (rx_pwr st)"
    "pwr_reliable (rx_pwr st') = pwr_reliable (rx_pwr st)" "pwr_last_seq (pw (rx_pwr st')) = pwr_last_seq (pw (rx_pwr st))"
    "ro_mode (pwr_reorder (pw (rx_pwr st'))) = ro_mode (pwr_reorder (pw (rx_pwr st)))"
    "pwr_builtin (rx_pwr st') = pwr_builtin (rx_pwr st)"
  using assms by (simp_all add: fixed_def)

lemma mid_cong:
  assumes "mid F sz L st wns fs adj ex" "rx_pwr st' = rx_pwr st" "rx_refs st' = rx_refs st"
  shows "mid F sz L st' wns fs adj ex"
  using assms by (simp add: mid_def)

section \<open>Delivery\<close>

lemma trigger_simps [simp]:
  "rx_pwr (trigger b q st) = rx_pwr st" "rx_refs (trigger b q st) = rx_refs st" "fixed (trigger b q st) = fixed st"
  by (simp_all add: trigger_def fixed_def)

text \<open>The next number to be delivered, when a chain has been handed to all readers.\<close>

lemma main_ok_lowword:
  assumes "main_ok sz L w" "q < next_seq (pwr_reorder w)"
  shows "main_ok sz L (w\<lparr>next_deliv_seq_lowword := word_of_nat (q + 1)\<rparr>)"
proof -
  have "deliv_ok (w\<lparr>next_deliv_seq_lowword := word_of_nat (q + 1)\<rparr>)"
    unfolding deliv_ok_def using assms(2) by (intro exI [of _ "q + 1"]) simp
  with assms(1) show ?thesis by (simp add: main_ok_def)
qed

lemma deliver_one:
  assumes m: "mid F sz L st wns fs adj (e # es)" and i: "sce_sampleinfo e = Some info" and b: "\<not> pwr_builtin (rx_pwr st)"
    and q: "g = None \<Longrightarrow> si_seq info < next_of (rx_pwr st)"
  shows "\<exists>st'. deliver_user_data cfg st info (sce_fragchain e) g = Some st' \<and> mid F sz L st' wns fs adj (e # es) \<and>
    fixed st' = fixed st \<and> next_of (rx_pwr st') = next_of (rx_pwr st)"
proof -
  obtain d ds where d: "sce_fragchain e = d # ds" "rd_min d = 0" using m i by (auto simp: mid_def elem_ok_def)
  let ?st = "st\<lparr>rx_events := rx_events st @ [Handled info (sce_fragchain e) g]\<rparr>"
  let ?up = "upd_pw (\<lambda>w. w\<lparr>next_deliv_seq_lowword := word_of_nat (si_seq info + 1)\<rparr>) ?st"
  have up: "mid F sz L ?up wns fs adj (e # es)" if "g = None"
    using m main_ok_lowword [of sz L "pw (rx_pwr st)" "si_seq info"] q [OF that]
    by (simp add: mid_def books_def owed_def nn_reorder_next_seq_def)
  have code: "deliver_user_data cfg st info (sce_fragchain e) g =
      Some (if \<not> qos_valid cfg info (sce_fragchain e) then st else if g = None then ?up else ?st)"
    using d b by (simp add: deliver_user_data_def Let_def)
  have st: "mid F sz L ?st wns fs adj (e # es)" by (rule mid_cong [OF m]) simp_all
  have fx: "fixed ?st = fixed st" "fixed ?up = fixed st" "next_of (rx_pwr ?st) = next_of (rx_pwr st)"
    "next_of (rx_pwr ?up) = next_of (rx_pwr st)"
    by (simp_all add: fixed_def nn_reorder_next_seq_def)
  show ?thesis
  proof (cases "qos_valid cfg info (sce_fragchain e)")
    case False
    with code m show ?thesis by simp
  next
    case True
    show ?thesis
    proof (cases "g = None")
      case g: True
      with code True have "deliver_user_data cfg st info (sce_fragchain e) g = Some ?up" by simp
      with up [OF g] fx show ?thesis by blast
    next
      case False
      with code True have "deliver_user_data cfg st info (sce_fragchain e) g = Some ?st" by simp
      with st fx show ?thesis by blast
    qed
  qed
qed

lemma deliver_synchronously_ok:
  assumes "mid F sz L st wns fs adj ex" "\<not> pwr_builtin (rx_pwr st)" "g = None \<Longrightarrow> \<forall>q\<in>seqs ex. q < next_of (rx_pwr st)"
  shows "\<exists>st'. deliver_user_data_synchronously cfg st ex g = Some st' \<and> mid F sz L st' wns fs adj [] \<and> fixed st' = fixed st"
  using assms
proof (induction ex arbitrary: st)
  case (Cons e es)
  obtain st1 where st1: "(case sce_sampleinfo e of Some info \<Rightarrow> deliver_user_data cfg st info (sce_fragchain e) g
      | None \<Rightarrow> Some st) = Some st1" "mid F sz L st1 wns fs adj (e # es)" "fixed st1 = fixed st"
    "next_of (rx_pwr st1) = next_of (rx_pwr st)"
  proof (cases "sce_sampleinfo e")
    case None
    with Cons.prems(1) show ?thesis using that by simp
  next
    case (Some info)
    with Cons.prems(3) have "g = None \<Longrightarrow> si_seq info < next_of (rx_pwr st)" by simp
    from deliver_one [OF Cons.prems(1) Some Cons.prems(2) this] Some show ?thesis using that by auto
  qed
  obtain R where R: "nn_fragchain_unref (rx_refs st1) (sce_fragchain e) = Some R" "books F (pw (rx_pwr st1)) wns R fs adj es"
    using books_unref [of F "pw (rx_pwr st1)" wns "rx_refs st1" fs adj e es] st1(2) by (auto simp: mid_def)
  have "mid F sz L (st1\<lparr>rx_refs := R\<rparr>) wns fs adj es" using st1(2) R(2) by (simp add: mid_def)
  moreover have "\<not> pwr_builtin (rx_pwr (st1\<lparr>rx_refs := R\<rparr>))" using Cons.prems(2) fixedD(9) [OF st1(3)] by simp
  moreover have "g = None \<Longrightarrow> \<forall>q\<in>seqs es. q < next_of (rx_pwr (st1\<lparr>rx_refs := R\<rparr>))"
    using Cons.prems(3) st1(4) by (auto split: option.splits)
  ultimately obtain st' where "deliver_user_data_synchronously cfg (st1\<lparr>rx_refs := R\<rparr>) es g = Some st'"
    "mid F sz L st' wns fs adj []" "fixed st' = fixed (st1\<lparr>rx_refs := R\<rparr>)" using Cons.IH by blast
  with st1(1,3) R(1) show ?case by (simp add: fixed_def)
qed simp

text \<open>Into the queue.\<close>

lemma main_ok_queue [simp]: "main_ok sz L (w\<lparr>pwr_dqueue := q\<rparr>) = main_ok sz L w"
  by (simp add: main_ok_def deliv_ok_def)

lemma queued_ok:
  assumes "mid F sz L st wns fs adj ex" "frags_of (dq_sc q) = frags_of (dq_sc (pwr_dqueue (pw (rx_pwr st)))) @ chain_frags ex"
  shows "mid F sz L (upd_pw (\<lambda>w. w\<lparr>pwr_dqueue := q\<rparr>) st) wns fs adj []"
    "fixed (upd_pw (\<lambda>w. w\<lparr>pwr_dqueue := q\<rparr>) st) = fixed st"
proof -
  have "books F (pw (rx_pwr st)) wns (rx_refs st) fs adj ex" using assms(1) by (simp add: mid_def)
  from books_queued [OF this assms(2)] assms(1)
  show "mid F sz L (upd_pw (\<lambda>w. w\<lparr>pwr_dqueue := q\<rparr>) st) wns fs adj []" by (simp add: mid_def)
  show "fixed (upd_pw (\<lambda>w. w\<lparr>pwr_dqueue := q\<rparr>) st) = fixed st" by (simp add: fixed_def)
qed

lemma deliver_to_group_ok:
  assumes m: "mid F sz L st wns fs adj ex" and c: "0 < res" "ex \<noteq> []" and q: "\<forall>q\<in>seqs ex. q < next_of (rx_pwr st)"
  shows "\<exists>st'. deliver_to_group cfg st ex res = Some st' \<and> mid F sz L st' wns fs adj [] \<and> fixed st' = fixed st"
proof (cases "deliver_synchronously (rx_pwr st)")
  case True
  then have "\<not> pwr_builtin (rx_pwr st)" using m by (simp add: mid_def)
  from deliver_synchronously_ok [OF m this, of None cfg] q True show ?thesis by (simp add: deliver_to_group_def)
next
  case False
  obtain q' b where e: "nn_dqueue_enqueue (pwr_dqueue (pw (rx_pwr st))) ex res = Some (q', b)"
    "frags_of (dq_sc q') = frags_of (dq_sc (pwr_dqueue (pw (rx_pwr st)))) @ chain_frags ex"
    using enqueue_frags(1) [OF c] by blast
  from queued_ok [OF m e(2)] e(1) False show ?thesis by (auto simp: deliver_to_group_def intro: mid_cong)
qed

lemma queue_for_reader_ok:
  assumes m: "mid F sz L st wns fs adj ex" and c: "0 < res" "ex \<noteq> []"
  shows "\<exists>st'. queue_for_reader st g ex res = Some st' \<and> mid F sz L st' wns fs adj [] \<and> fixed st' = fixed st"
proof -
  obtain q' b where e: "nn_dqueue_enqueue1 (pwr_dqueue (pw (rx_pwr st))) g ex res = Some (q', b)"
    "frags_of (dq_sc q') = frags_of (dq_sc (pwr_dqueue (pw (rx_pwr st)))) @ chain_frags ex"
    using enqueue_frags(3) [OF c] by blast
  from queued_ok [OF m e(2)] e(1) show ?thesis by (auto simp: queue_for_reader_def intro: mid_cong)
qed

lemma deliver_to_reader_ok:
  assumes m: "mid F sz L st wns fs adj ex" and c: "0 < res" "ex \<noteq> []"
  shows "\<exists>st'. deliver_to_reader cfg st g ex res = Some st' \<and> mid F sz L st' wns fs adj [] \<and> fixed st' = fixed st"
proof (cases "deliver_synchronously (rx_pwr st)")
  case True
  then have "\<not> pwr_builtin (rx_pwr st)" using m by (simp add: mid_def)
  from deliver_synchronously_ok [OF m this, of "Some g" cfg] True show ?thesis by (simp add: deliver_to_reader_def)
next
  case False
  with queue_for_reader_ok [OF m c] show ?thesis by (simp add: deliver_to_reader_def)
qed

end
