(* ===== verification/Proxy_Writer_Steps.thy ===== *)
theory Proxy_Writer_Steps
  imports Proxy_Writer
begin

text \<open>
  The building blocks of the handlers: handing a gap to a reorder administration, dropping a range from the defragmenter,
  bringing a reader into sync. Each does what it does without a failing assertion and keeps the invariant.
\<close>

section \<open>Taking in\<close>

lemma elems_ok_sub: "elems_ok es \<Longrightarrow> elems_ok fs \<Longrightarrow> set gs \<subseteq> set es \<union> set fs \<Longrightarrow> elems_ok gs"
  by (auto simp: elems_ok_def)

lemma main_took:
  assumes m: "main_ok sz L w" and t: "took (pwr_reorder w) R es X (c, sc, r', R', d)" and X: "X \<subseteq> {..<L}" and e: "elems_ok es"
  shows "main_ok sz L (w\<lparr>pwr_reorder := r'\<rparr>) \<and> elems_ok sc \<and> (\<forall>q\<in>seqs sc. q < next_seq r')"
proof -
  let ?r = "pwr_reorder w"
  have ok: "reorder_ok r'" "ro_mode r' = ro_mode ?r"
    and ch: "set (chains (ivs_of r')) \<union> set sc \<subseteq> set (chains (ivs_of ?r)) \<union> set es"
    and cv: "cov (ivs_of r') \<subseteq> cov (ivs_of ?r) \<union> X"
    and mono: "ro_mode ?r \<noteq> NN_REORDER_MODE_ALWAYS_DELIVER \<longrightarrow> next_seq ?r \<le> next_seq r'"
    and nx: "next_seq r' = next_seq ?r \<or> next_seq r' \<in> Suc ` (cov (ivs_of ?r) \<union> X)"
    and sq: "\<forall>q\<in>seqs sc. q < next_seq r'"
    using t by (simp_all add: took_def)
  have L: "cov (ivs_of ?r) \<union> X \<subseteq> {..<L}" "L \<le> SEQ_END" using m X by (auto simp: main_ok_def)
  have "1 \<le> next_seq r' \<and> next_seq r' \<le> SEQ_END"
    using nx
  proof
    assume "next_seq r' \<in> Suc ` (cov (ivs_of ?r) \<union> X)"
    then obtain q where "next_seq r' = Suc q" "q < L" using L(1) by blast
    with L(2) show ?thesis by simp
  qed (use m in \<open>simp add: main_ok_def\<close>)
  moreover have "elems_ok (chains (ivs_of r'))" "elems_ok sc"
    using elems_ok_sub [of "chains (ivs_of ?r)" es] m e ch by (simp_all add: main_ok_def)
  moreover have "cov (ivs_of r') \<subseteq> {..<L}" using cv L(1) by blast
  moreover have "deliv_ok (w\<lparr>pwr_reorder := r'\<rparr>)" if "ro_mode r' = NN_REORDER_MODE_NORMAL"
  proof -
    have "deliv_ok w" "next_seq ?r \<le> next_seq r'" using m ok(2) mono that by (simp_all add: main_ok_def)
    then show ?thesis by (auto simp: deliv_ok_def)
  qed
  ultimately show ?thesis using m ok sq by (simp add: main_ok_def)
qed

lemma match_took:
  assumes m: "match_ok a" and t: "took (rwn_reorder a) R es X (c, sc, r', R', d)" and e: "elems_ok es"
  shows "match_ok (a\<lparr>rwn_reorder := r'\<rparr>) \<and> elems_ok sc"
proof -
  let ?r = "rwn_reorder a"
  have ok: "reorder_ok r'"
    and ch: "set (chains (ivs_of r')) \<union> set sc \<subseteq> set (chains (ivs_of ?r)) \<union> set es"
    and nx: "next_seq r' = next_seq ?r \<or> next_seq r' \<in> Suc ` (cov (ivs_of ?r) \<union> X)"
    using t by (simp_all add: took_def)
  have "elems_ok (chains (ivs_of r'))" "elems_ok sc"
    using elems_ok_sub [of "chains (ivs_of ?r)" es] m e ch by (simp_all add: match_ok_def)
  moreover have "1 \<le> next_seq r'" using nx m by (auto simp: match_ok_def)
  ultimately show ?thesis using m ok by (simp add: match_ok_def)
qed

text \<open>The state after the reorder administration has taken something in.\<close>

lemma group_took:
  assumes m: "mid F sz L st wns fs adj []" and t: "took (pwr_reorder (pw (rx_pwr st))) (rx_refs st) es X (c, sc, r', R', d)"
    and X: "X \<subseteq> {..<L}" and e: "elems_ok es" and adj: "adj + 1 < BIAS"
    and h: "d = 0 \<or> (\<forall>m. held_in m (chain_frags es) = held_in m fs)"
    and st': "st' = upd_pw (\<lambda>w. w\<lparr>pwr_reorder := r'\<rparr>) (st\<lparr>rx_refs := R'\<rparr>)"
  shows "mid F sz L st' wns fs (adj + d) sc \<and> fixed st' = fixed st \<and> (\<forall>q\<in>seqs sc. q < next_of (rx_pwr st')) \<and> d \<le> 1 \<and>
    (if 0 < c then sc \<noteq> [] else sc = [])"
proof -
  let ?w = "pw (rx_pwr st)"
  have acc: "accounted (pwr_reorder ?w) (rx_refs st) (chain_frags es) sc r' R' d"
    and d: "d \<le> 1" "if 0 < c then sc \<noteq> [] else sc = []" "ro_mode r' = ro_mode (pwr_reorder ?w)"
    using t by (simp_all add: took_def)
  have b: "books F ?w wns (rx_refs st) fs adj []" "main_ok sz L ?w" using m by (simp_all add: mid_def)
  have "books F (?w\<lparr>pwr_reorder := r'\<rparr>) wns R' fs (adj + d) sc"
    by (rule books_took [OF b(1) acc]) (use d(1) adj h in auto)
  with main_took [OF b(2) t X e] m d show ?thesis unfolding st'
    by (simp add: mid_def fixed_def nn_reorder_next_seq_def)
qed

lemma reader_took:
  assumes m: "mid F sz L st (xs @ wn # ys) fs adj []" and t: "took (rwn_reorder (pm_ack wn)) (rx_refs st) es X (c, sc, r', R', d)"
    and e: "elems_ok es" and adj: "adj + 1 < BIAS"
    and h: "d = 0 \<or> (\<forall>m. held_in m (chain_frags es) = held_in m fs)"
  shows "mid F sz L (st\<lparr>rx_refs := R'\<rparr>) (xs @ set_reorder r' wn # ys) fs (adj + d) sc \<and> d \<le> 1 \<and>
    (if 0 < c then sc \<noteq> [] else sc = [])"
proof -
  let ?w = "pw (rx_pwr st)"
  have acc: "accounted (rwn_reorder (pm_ack wn)) (rx_refs st) (chain_frags es) sc r' R' d"
    and d: "d \<le> 1" "if 0 < c then sc \<noteq> [] else sc = []" using t by (simp_all add: took_def)
  have b: "books F ?w (xs @ wn # ys) (rx_refs st) fs adj []" "match_ok (pm_ack wn)" using m by (simp_all add: mid_def)
  have "books F ?w (xs @ set_reorder r' wn # ys) R' fs (adj + d) sc"
    by (rule books_took_rd [OF b(1) acc]) (use d(1) adj h in auto)
  with match_took [OF b(2) t e] m d show ?thesis by (auto simp: mid_def)
qed

section \<open>A gap\<close>

lemma group_gap_ok:
  assumes m: "mid F sz L st wns [gap] adj []" and lt: "a < b \<or> b \<le> 1" "b \<le> L" and adj: "adj + 1 < BIAS"
  shows "\<exists>res sc st' d. group_gap st gap a b = Some (res, sc, st', d) \<and> mid F sz L st' wns [gap] (adj + d) sc \<and>
    fixed st' = fixed st \<and> (\<forall>q\<in>seqs sc. q < next_of (rx_pwr st')) \<and> d \<le> 1 \<and> (if 0 < res then sc \<noteq> [] else sc = [])"
proof -
  let ?w = "pw (rx_pwr st)" and ?es = "[\<lparr>sce_fragchain = [gap], sce_sampleinfo = None\<rparr>]"
  have ok: "reorder_ok (pwr_reorder ?w)" "refs_cover (pwr_reorder ?w) (rx_refs st)"
    and ge: "a < b \<or> b \<le> next_seq (pwr_reorder ?w)"
    using m lt(1) books_held(1) [of F ?w wns "rx_refs st"] by (auto simp: mid_def main_ok_def)
  obtain c sc r' R' d where g: "nn_reorder_gap (pwr_reorder ?w) (rx_refs st) gap a b = Some (c, sc, r', R', d)"
    "took (pwr_reorder ?w) (rx_refs st) ?es {a..<b} (c, sc, r', R', d)"
    using gap_took [OF ok ge, of gap] by blast
  have "{a..<b} \<subseteq> {..<L}" using lt(2) by auto
  from group_took [OF m g(2) this _ adj _ refl] g(1) show ?thesis by (auto simp: group_gap_def elem_ok_def)
qed

lemma reader_gap_ok:
  assumes m: "mid F sz L st (xs @ wn # ys) [gap] adj []" and lt: "a < b \<or> b \<le> 1" and adj: "adj + 1 < BIAS"
  shows "\<exists>res sc r' st' d. reader_gap st wn gap a b = Some (res, sc, set_reorder r' wn, st', d) \<and>
    mid F sz L st' (xs @ set_reorder r' wn # ys) [gap] (adj + d) sc \<and>
    fixed st' = fixed st \<and> d \<le> 1 \<and> (if 0 < res then sc \<noteq> [] else sc = [])"
proof -
  let ?es = "[\<lparr>sce_fragchain = [gap], sce_sampleinfo = None\<rparr>]" and ?r = "rwn_reorder (pm_ack wn)"
  have ok: "reorder_ok ?r" "refs_cover ?r (rx_refs st)"
    and ge: "a < b \<or> b \<le> next_seq ?r"
    using m lt books_held(2) [of F "pw (rx_pwr st)" "xs @ wn # ys" "rx_refs st" "[gap]" adj "[]" wn]
    by (auto simp: mid_def match_ok_def)
  obtain c sc r' R' d where g: "nn_reorder_gap ?r (rx_refs st) gap a b = Some (c, sc, r', R', d)"
    "took ?r (rx_refs st) ?es {a..<b} (c, sc, r', R', d)"
    using gap_took [OF ok ge, of gap] by blast
  have "fixed (st\<lparr>rx_refs := R'\<rparr>) = fixed st" by (simp add: fixed_def)
  with reader_took [OF m g(2) _ adj] g(1) show ?thesis by (auto simp: reader_gap_def elem_ok_def)
qed

section \<open>Readers coming into sync\<close>

lemma set_sync_self: "set_sync (in_sync (pm_ack wn)) wn = wn"
  by simp

lemma one_in_sync_ok:
  assumes "mid F sz L st (xs @ wn # ys) fs adj ex" "in_sync (pm_ack wn) \<noteq> PRMSS_SYNC"
  shows "mid F sz L (st\<lparr>rx_pwr := one_in_sync (rx_pwr st)\<rparr>) (xs @ set_sync PRMSS_SYNC wn # ys) fs adj ex"
    "fixed (st\<lparr>rx_pwr := one_in_sync (rx_pwr st)\<rparr>) = fixed st"
  using assms counts_nonneg(1) [of xs] counts_nonneg(1) [of ys]
  by (auto simp: mid_def one_in_sync_def Let_def books_def owed_def match_ok_def fixed_def)

lemma set_in_sync_ok:
  assumes m: "mid F sz L st (xs @ wn # ys) fs adj ex" and n: "in_sync (pm_ack wn) \<noteq> PRMSS_SYNC"
  shows "\<exists>st' s. set_in_sync st wn q = Some (st', set_sync s wn) \<and> mid F sz L st' (xs @ set_sync s wn # ys) fs adj ex \<and>
    fixed st' = fixed st"
proof -
  have same: "mid F sz L st (xs @ set_sync s wn # ys) fs adj ex" if "s \<noteq> PRMSS_SYNC" for s
    using m n that by (auto simp: mid_def books_def owed_def match_ok_def)
  have self: "st\<lparr>rx_pwr := rx_pwr st\<rparr> = st" by simp
  have leave: "\<exists>st' s'. Some (st\<lparr>rx_pwr := fst (maybe_leave_catchup (rx_pwr st) (set_sync s wn) q)\<rparr>,
        snd (maybe_leave_catchup (rx_pwr st) (set_sync s wn) q)) = Some (st', set_sync s' wn) \<and>
      mid F sz L st' (xs @ set_sync s' wn # ys) fs adj ex \<and> fixed st' = fixed st" if s: "s \<noteq> PRMSS_SYNC" for s
  proof (cases "end_of_tl_seq (set_sync s wn) \<le> q")
    case True
    from one_in_sync_ok [OF m n] show ?thesis using True
      by (intro exI [of _ "st\<lparr>rx_pwr := one_in_sync (rx_pwr st)\<rparr>"] exI [of _ PRMSS_SYNC])
        (simp add: maybe_leave_catchup_def)
  next
    case False
    with same [OF s] show ?thesis
      by (intro exI [of _ st] exI [of _ s]) (simp add: maybe_leave_catchup_def)
  qed
  show ?thesis
  proof (cases "in_sync (pm_ack wn)")
    case PRMSS_SYNC
    with n show ?thesis by simp
  next
    case PRMSS_TLCATCHUP
    then have e: "set_sync PRMSS_TLCATCHUP wn = wn" using set_sync_self [of wn] by simp
    have "set_in_sync st wn q = Some (st\<lparr>rx_pwr := fst (maybe_leave_catchup (rx_pwr st) wn q)\<rparr>,
        snd (maybe_leave_catchup (rx_pwr st) wn q))"
      using PRMSS_TLCATCHUP by (simp add: set_in_sync_def maybe_set_reader_in_sync_def case_prod_beta)
    with leave [of PRMSS_TLCATCHUP] show ?thesis unfolding e by simp
  next
    case PRMSS_OUT_OF_SYNC
    show ?thesis
    proof (cases "\<not> rwn_filtered (pm_ack wn) \<and> have_seen_heartbeat (rx_pwr st) \<and> rd_next wn = next_of (rx_pwr st)")
      case True
      with PRMSS_OUT_OF_SYNC have "set_in_sync st wn q = Some (st\<lparr>rx_pwr := fst (maybe_leave_catchup (rx_pwr st) (set_sync PRMSS_TLCATCHUP wn) q)\<rparr>,
          snd (maybe_leave_catchup (rx_pwr st) (set_sync PRMSS_TLCATCHUP wn) q))"
        by (simp add: set_in_sync_def maybe_set_reader_in_sync_def case_prod_beta)
      with leave [of PRMSS_TLCATCHUP] show ?thesis by simp
    next
      case False
      with PRMSS_OUT_OF_SYNC have "set_in_sync st wn q = Some (st, wn)"
        by (auto simp: set_in_sync_def maybe_set_reader_in_sync_def)
      moreover have e: "set_sync PRMSS_OUT_OF_SYNC wn = wn" using PRMSS_OUT_OF_SYNC set_sync_self [of wn] by simp
      ultimately show ?thesis using m by (intro exI [of _ st] exI [of _ PRMSS_OUT_OF_SYNC]) (simp only: e simp_thms)
    qed
  qed
qed

section \<open>The defragmenter, and the beginning and the end of a message\<close>

lemma defrag_ok_refs:
  assumes "defrag_ok d R" "\<forall>m. held_in m (allfrags (samples_of d)) * BIAS \<le> R' m"
  shows "defrag_ok d R'"
  using assms by (auto simp: defrag_ok_def defrag_core_def)

lemma mid_defrag_ok:
  assumes "mid F sz L st wns fs adj ex"
  shows "defrag_ok (pwr_defrag (pw (rx_pwr st))) (rx_refs st)"
  using assms defrag_ok_refs books_held(3) unfolding mid_def main_ok_def by blast

lemma books_defrag:
  assumes b: "books F w wns R fs adj ex" and c: "conserved (pwr_defrag w) R [] d R'"
  shows "books F (w\<lparr>pwr_defrag := d\<rparr>) wns R' fs adj ex"
  unfolding books_def
proof (intro conjI allI)
  fix m
  have "R m + adj * held_in m fs = F m + owed w wns m + held_in m (chain_frags ex) + BIAS * held_in m fs"
    using b by (simp add: books_def)
  moreover have "R' m + held_in m (allfrags (samples_of (pwr_defrag w))) * BIAS =
      R m + held_in m (allfrags (samples_of d)) * BIAS" using c by (simp add: conserved_def)
  ultimately show "R' m + adj * held_in m fs =
      F m + owed (w\<lparr>pwr_defrag := d\<rparr>) wns m + held_in m (chain_frags ex) + BIAS * held_in m fs"
    by (simp add: owed_def mult.commute)
qed (use b in \<open>simp add: books_def\<close>)

lemma notegap_ok:
  assumes m: "mid F sz L st wns fs adj ex"
  shows "\<exists>st'. pwr_notegap st a b = Some st' \<and> mid F sz L st' wns fs adj ex \<and> fixed st' = fixed st"
proof -
  let ?w = "pw (rx_pwr st)"
  obtain d R where n: "nn_defrag_notegap (pwr_defrag ?w) (rx_refs st) a b = Some (d, R)" "defrag_ok d R"
    "conserved (pwr_defrag ?w) (rx_refs st) [] d R"
    "samples_of d = filter (\<lambda>s. ds_seq s < a \<or> b \<le> ds_seq s) (samples_of (pwr_defrag ?w))"
    using notegap_spec [OF mid_defrag_ok [OF m], of a b] by blast
  let ?st = "upd_pw (\<lambda>w. w\<lparr>pwr_defrag := d\<rparr>) (st\<lparr>rx_refs := R\<rparr>)"
  have "books F ?w wns (rx_refs st) fs adj ex" "main_ok sz L ?w" using m by (simp_all add: mid_def)
  moreover from this(2) have "main_ok sz L (?w\<lparr>pwr_defrag := d\<rparr>)" using n(2,4)
    by (auto simp: main_ok_def sized_def fields_all_ok_def infos_def deliv_ok_def)
  ultimately have "mid F sz L ?st wns fs adj ex" using m books_defrag [OF _ n(3)] by (simp add: mid_def)
  moreover have "fixed ?st = fixed st" by (simp add: fixed_def)
  ultimately show ?thesis using n(1) by (simp add: pwr_notegap_def)
qed

lemma new_gap_ok:
  assumes "mid F sz L st wns [] 0 []" and t: "taking F st rmsg"
  shows "\<exists>gap st'. new_gap st rmsg = Some (gap, st') \<and> mid F sz L st' wns [gap] 0 [] \<and> fixed st' = fixed st"
proof -
  let ?g = "\<lparr>rd_rmsg = rmsg, rd_min = 0, rd_maxp1 = 0\<rparr>"
  let ?st = "st\<lparr>rx_refs := with_bias (rx_refs st) ?g\<rparr>"
  have "books F (pw (rx_pwr st)) wns (rx_refs st) [] 0 []" using assms(1) by (simp add: mid_def)
  from taking_receives(1) [OF t this] addbias [of "rx_refs st" _ ?g]
  have "nn_rdata_addbias (rx_refs st) ?g = Some (with_bias (rx_refs st) ?g)" by simp
  moreover have "mid F sz L ?st wns [?g] 0 []"
    using assms(1) by (auto simp: mid_def books_def)
  moreover have "fixed ?st = fixed st" by (simp add: fixed_def)
  ultimately show ?thesis by (simp add: new_gap_def nn_rdata_newgap_def Let_def)
qed

lemma adjust_refs_ok:
  assumes "mid F sz L st wns fs adj []"
  shows "\<exists>st'. adjust_refs st fs adj = Some st' \<and> mid F sz L st' wns [] 0 [] \<and> fixed st' = fixed st"
proof -
  obtain R where R: "nn_fragchain_adjust_refcount (rx_refs st) fs (int adj) = Some R" "books F (pw (rx_pwr st)) wns R [] 0 []"
    using books_adjust [of F "pw (rx_pwr st)" wns "rx_refs st" fs adj] assms by (auto simp: mid_def)
  have "mid F sz L (st\<lparr>rx_refs := R\<rparr>) wns [] 0 []" using assms R(2) by (simp add: mid_def)
  with R(1) show ?thesis by (simp add: adjust_refs_def fixed_def)
qed

section \<open>The state at rest\<close>

lemma mid_mono: "mid F sz L st wns fs adj ex \<Longrightarrow> L \<le> L' \<Longrightarrow> L' \<le> SEQ_END \<Longrightarrow> mid F sz L' st wns fs adj ex"
  by (auto simp: mid_def main_ok_def)

text \<open>What the operations may change of a reader without any consequence.\<close>

definition alike :: "pwr_match \<Rightarrow> pwr_match \<Rightarrow> bool" where
  "alike wn wn' \<longleftrightarrow> pm_guid wn' = pm_guid wn \<and> (acknack_xevent wn' = None) = (acknack_xevent wn = None)"

definition same_ack :: "pwr_match \<Rightarrow> pwr_match \<Rightarrow> bool" where
  "same_ack wn wn' \<longleftrightarrow> alike wn wn' \<and> rwn_reorder (pm_ack wn') = rwn_reorder (pm_ack wn) \<and>
     in_sync (pm_ack wn') = in_sync (pm_ack wn) \<and> t_last_ack (pm_ack wn') = t_last_ack (pm_ack wn) \<and>
     t_last_nack (pm_ack wn') = t_last_nack (pm_ack wn)"

lemma alike_refl [simp]: "alike wn wn" "same_ack wn wn"
  by (simp_all add: alike_def same_ack_def)

lemma alike_lists: "list_all2 alike wns wns' \<Longrightarrow> map pm_guid wns' = map pm_guid wns \<and> reliable_ones wns' = reliable_ones wns"
  by (induction rule: list_all2_induct) (auto simp: alike_def)

lemma same_ack_lists:
  "list_all2 same_ack wns wns' \<Longrightarrow> owed_rd wns' m = owed_rd wns m \<and> out_of_sync wns' = out_of_sync wns \<and>
    ((\<forall>wn\<in>set wns'. reader_ok wn) = (\<forall>wn\<in>set wns. reader_ok wn)) \<and> list_all2 alike wns wns'"
  by (induction rule: list_all2_induct) (auto simp: same_ack_def match_ok_def)

lemma mid_same_ack:
  assumes "mid F sz L st wns fs adj ex" "list_all2 same_ack wns wns'"
  shows "mid F sz L st wns' fs adj ex"
  using assms(1) same_ack_lists [OF assms(2)] by (simp add: mid_def books_def owed_def)

lemma list_all2_middle: "P wn wn' \<Longrightarrow> (\<And>x. P x x) \<Longrightarrow> list_all2 P (xs @ wn # ys) (xs @ wn' # ys)"
  by (simp add: list_all2_appendI list_all2_refl)

text \<open>Between the operations of a handler the readers are in the state.\<close>

definition here :: "(nat \<Rightarrow> nat) \<Rightarrow> (seqno \<Rightarrow> nat) \<Rightarrow> seqno \<Rightarrow> rx \<Rightarrow> rdata list \<Rightarrow> nat \<Rightarrow> bool" where
  "here F sz L st fs adj \<longleftrightarrow> mid F sz L st (readers (rx_pwr st)) fs adj [] \<and> distinct (map pm_guid (readers (rx_pwr st))) \<and>
     n_reliable_readers (rx_pwr st) = reliable_ones (readers (rx_pwr st)) \<and>
     (pwr_reliable (rx_pwr st) \<longrightarrow> ro_mode (pwr_reorder (pw (rx_pwr st))) = NN_REORDER_MODE_NORMAL) \<and>
     (0 < n_reliable_readers (rx_pwr st) \<longrightarrow> pwr_reliable (rx_pwr st))"

text \<open>The same proxy writer with the same readers.\<close>

definition same :: "rx \<Rightarrow> rx \<Rightarrow> bool" where
  "same st st' \<longleftrightarrow> snd (fixed st') = snd (fixed st) \<and> list_all2 alike (readers (rx_pwr st)) (readers (rx_pwr st'))"

lemma same_refl [simp]: "same st st"
  by (simp add: same_def list_all2_refl)

lemma same_fixed: "fixed st' = fixed st \<Longrightarrow> same st st'"
  by (simp add: same_def fixed_def list_all2_refl)

lemma alike_trans: "alike a b \<Longrightarrow> alike b c \<Longrightarrow> alike a c"
  by (auto simp: alike_def)

lemma same_trans: "same a b \<Longrightarrow> same b c \<Longrightarrow> same a c"
  using list_all2_trans [of alike alike alike] alike_trans by (fastforce simp: same_def)

lemma sameD:
  assumes "same st st'"
  shows "pwr_reliable (rx_pwr st') = pwr_reliable (rx_pwr st)" "n_reliable_readers (rx_pwr st') = n_reliable_readers (rx_pwr st)"
    "ro_mode (pwr_reorder (pw (rx_pwr st'))) = ro_mode (pwr_reorder (pw (rx_pwr st)))"
    "pwr_last_seq (pw (rx_pwr st')) = pwr_last_seq (pw (rx_pwr st))"
    "map pm_guid (readers (rx_pwr st')) = map pm_guid (readers (rx_pwr st))"
    "reliable_ones (readers (rx_pwr st')) = reliable_ones (readers (rx_pwr st))"
    "length (readers (rx_pwr st')) = length (readers (rx_pwr st))"
  using assms alike_lists [of "readers (rx_pwr st)" "readers (rx_pwr st')"]
  by (auto simp: same_def fixed_def dest: list_all2_lengthD)

lemma here_same:
  assumes "here F sz L st fs adj" "same st st'" "mid F' sz L' st' (readers (rx_pwr st')) fs' adj' []"
  shows "here F' sz L' st' fs' adj'"
  using assms(1,3) sameD [OF assms(2)] by (simp add: here_def)

lemma find_reader_None: "find_reader p g = None \<longleftrightarrow> g \<notin> pm_guid ` set (readers p)"
  by (auto simp: find_reader_def find_None_iff)

lemma find_reader_Some: "find_reader p g = Some wn \<Longrightarrow> \<exists>xs ys. readers p = xs @ wn # ys \<and> pm_guid wn = g"
  unfolding find_reader_def by (metis (mono_tags, lifting) find_Some_iff2 in_set_conv_decomp in_set_conv_nth)

lemma same_find: "same st st' \<Longrightarrow> find_reader (rx_pwr st') g = None \<longleftrightarrow> find_reader (rx_pwr st) g = None"
  unfolding find_reader_None using sameD(5) by (metis list.set_map)

text \<open>One reader is written back.\<close>

lemma put_reader_ok:
  assumes r: "readers (rx_pwr st) = xs @ wn # ys" and d: "distinct (map pm_guid (readers (rx_pwr st)))" and a: "alike wn wn'"
  shows "readers (rx_pwr (put_reader wn' st)) = xs @ wn' # ys" "same st (put_reader wn' st)"
    "mid F sz L (put_reader wn' st) wns fs adj ex = mid F sz L st wns fs adj ex"
proof -
  have "pm_guid m \<noteq> pm_guid wn" if "m \<in> set xs \<union> set ys" for m using d that unfolding r by (fastforce simp: image_iff)
  then have "map (\<lambda>m. if pm_guid m = pm_guid wn' then wn' else m) xs = xs"
    "map (\<lambda>m. if pm_guid m = pm_guid wn' then wn' else m) ys = ys"
    using a by (auto simp: alike_def intro!: map_idI)
  then show *: "readers (rx_pwr (put_reader wn' st)) = xs @ wn' # ys" using r a by (simp add: put_reader_def alike_def)
  have "snd (fixed (put_reader wn' st)) = snd (fixed st)" by (simp add: fixed_def put_reader_def)
  then show "same st (put_reader wn' st)" unfolding same_def * r using a by (simp add: list_all2_middle)
  show "mid F sz L (put_reader wn' st) wns fs adj ex = mid F sz L st wns fs adj ex" by (simp add: mid_def put_reader_def)
qed

end
