(* ===== verification/Proxy_Writer_Handlers.thy ===== *)
theory Proxy_Writer_Handlers
  imports Proxy_Writer_Steps
begin

text \<open>
  The handlers of the receive path: from a state at rest, every message, reader that comes and reader that goes leads to a
  state at rest, without a failing assertion, and the references add up.
\<close>

definition rest :: "(nat \<Rightarrow> nat) \<Rightarrow> (seqno \<Rightarrow> nat) \<Rightarrow> rx \<Rightarrow> bool" where
  "rest F sz st \<longleftrightarrow> here F sz (pwr_last_seq (pw (rx_pwr st)) + 1) st [] 0 \<and> length (readers (rx_pwr st)) + 4 < BIAS"

lemma restI:
  assumes "rest F' sz' st0" "length (readers (rx_pwr st)) = length (readers (rx_pwr st0))"
    and "here F sz L st [] 0" "L \<le> pwr_last_seq (pw (rx_pwr st)) + 1" "pwr_last_seq (pw (rx_pwr st)) < SEQ_END"
  shows "rest F sz st"
  using assms mid_mono [OF _ assms(4)] by (auto simp: rest_def here_def)

text \<open>The end of a handler.\<close>

lemma here_adjust:
  assumes h: "here F sz L st fs adj"
  shows "\<exists>st'. adjust_refs st fs adj = Some st' \<and> here F sz L st' [] 0 \<and> fixed st' = fixed st"
proof -
  obtain st' where s: "adjust_refs st fs adj = Some st'" "mid F sz L st' (readers (rx_pwr st)) [] 0 []" "fixed st' = fixed st"
    using adjust_refs_ok [of F sz L st _ fs adj] h by (auto simp: here_def)
  have "here F sz L st' [] 0"
    by (rule here_same [OF h same_fixed [OF s(3)]]) (use s(2) fixedD(1) [OF s(3)] in simp)
  with s show ?thesis by blast
qed

lemma here_last_seq:
  assumes "here F sz L st fs adj"
  shows "here F sz L (upd_pw (\<lambda>w. w\<lparr>pwr_last_seq := a, pwr_last_fragnum := b\<rparr>) st) fs adj"
  using assms by (auto simp: here_def mid_def main_ok_def deliv_ok_def books_def owed_def)

lemma put_same_ack:
  assumes h: "here F sz L st fs adj" and f: "find_reader (rx_pwr st) g = Some wn" and a: "same_ack wn wn'"
  shows "here F sz L (put_reader wn' st) fs adj \<and> same st (put_reader wn' st)"
proof -
  obtain xs ys where r: "readers (rx_pwr st) = xs @ wn # ys" using find_reader_Some [OF f] by blast
  have "alike wn wn'" "distinct (map pm_guid (readers (rx_pwr st)))" using h a by (simp_all add: here_def same_ack_def)
  note p = put_reader_ok [OF r this(2,1)]
  have "mid F sz L st (xs @ wn # ys) fs adj []" using h r by (simp add: here_def)
  from mid_same_ack [OF this list_all2_middle [of same_ack, OF a alike_refl(2)]] have "mid F sz L st (xs @ wn' # ys) fs adj []" by simp
  with here_same [OF h p(2)] p show ?thesis by simp
qed

lemma match_last_seq_same_ack: "same_ack wn (match_last_seq q wn)"
  by (simp add: match_last_seq_def same_ack_def alike_def)

section \<open>Gaps\<close>

lemma deliver_group_if:
  assumes "mid F sz L st wns fs adj sc" "if 0 < res then sc \<noteq> [] else sc = []" "\<forall>q\<in>seqs sc. q < next_of (rx_pwr st)"
  shows "\<exists>st'. (if 0 < res then deliver_to_group cfg st sc res else Some st) = Some st' \<and>
    mid F sz L st' wns fs adj [] \<and> fixed st' = fixed st"
  using assms deliver_to_group_ok [OF assms(1) _ _ assms(3), of res cfg] by (cases "0 < res") simp_all

lemma deliver_reader_if:
  assumes "mid F sz L st wns fs adj sc" "if 0 < res then sc \<noteq> [] else sc = []"
  shows "\<exists>st'. (if 0 < res then deliver_to_reader cfg st g sc res else Some st) = Some st' \<and>
    mid F sz L st' wns fs adj [] \<and> fixed st' = fixed st"
  using assms deliver_to_reader_ok [OF assms(1), of res cfg g] by (cases "0 < res") simp_all

lemma gap_to_group_ok:
  assumes m: "mid F sz L st wns [gap] adj []" and lt: "a < b" "b \<le> L" and adj: "adj + 1 < BIAS"
  shows "\<exists>res st' adj'. gap_to_group cfg st a b gap adj = Some (res, st', adj') \<and> mid F sz L st' wns [gap] adj' [] \<and>
    fixed st' = fixed st \<and> adj' \<le> adj + 1"
proof -
  obtain st0 where s0: "pwr_notegap st a b = Some st0" "mid F sz L st0 wns [gap] adj []" "fixed st0 = fixed st"
    using notegap_ok [OF m] by blast
  have "a < b \<or> b \<le> 1" using lt by simp
  from group_gap_ok [OF s0(2) this lt(2) adj] obtain res sc st1 d where
    g: "group_gap st0 gap a b = Some (res, sc, st1, d)" "mid F sz L st1 wns [gap] (adj + d) sc" "fixed st1 = fixed st0"
    "\<forall>q\<in>seqs sc. q < next_of (rx_pwr st1)" "d \<le> 1" "if 0 < res then sc \<noteq> [] else sc = []" by blast
  obtain st2 where "(if 0 < res then deliver_to_group cfg st1 sc res else Some st1) = Some st2"
    "mid F sz L st2 wns [gap] (adj + d) []" "fixed st2 = fixed st1"
    using deliver_group_if [OF g(2,6,4)] by blast
  with s0 g show ?thesis by (simp add: gap_to_group_def)
qed

lemma gap_to_reader_ok:
  assumes m: "mid F sz L st (xs @ w # ys) [gap] adj []" and lt: "a < b" and adj: "adj + 1 < BIAS"
  shows "\<exists>v w' st' adj'. gap_to_reader cfg st w a b gap res adj = Some (v, w', st', adj') \<and>
    mid F sz L st' (xs @ w' # ys) [gap] adj' [] \<and> fixed st' = fixed st \<and> adj' \<le> adj + 1 \<and> alike w w' \<and>
    in_sync (pm_ack w') = in_sync (pm_ack w)"
proof (cases "in_sync (pm_ack w) = PRMSS_TLCATCHUP")
  case True
  with m show ?thesis by (simp add: gap_to_reader_def)
next
  case False
  have "a < b \<or> b \<le> 1" using lt by simp
  from reader_gap_ok [OF m this adj] obtain res2 sc r' st1 d where
    g: "reader_gap st w gap a b = Some (res2, sc, set_reorder r' w, st1, d)"
    "mid F sz L st1 (xs @ set_reorder r' w # ys) [gap] (adj + d) sc" "fixed st1 = fixed st" "d \<le> 1"
    "if 0 < res2 then sc \<noteq> [] else sc = []" by blast
  obtain st2 where "(if 0 < res2 then deliver_to_reader cfg st1 (pm_guid w) sc res2 else Some st1) = Some st2"
    "mid F sz L st2 (xs @ set_reorder r' w # ys) [gap] (adj + d) []" "fixed st2 = fixed st1"
    using deliver_reader_if [OF g(2,5)] by blast
  with g False show ?thesis by (simp add: gap_to_reader_def alike_def)
qed

text \<open>A reader is written back, when it has come into sync, or not.\<close>

lemma write_back:
  assumes h: "here F sz L st fs adj" and r: "readers (rx_pwr st) = xs @ w # ys"
    and m2: "mid F' sz L' st2 (xs @ w2 # ys) fs' adj2 []" and fx: "fixed st2 = fixed st" and al: "alike w w2"
  shows "here F' sz L' (put_reader w2 st2) fs' adj2 \<and> same st (put_reader w2 st2)"
proof -
  have r2: "readers (rx_pwr st2) = xs @ w # ys" using fixedD(1) [OF fx] r by simp
  have "distinct (map pm_guid (readers (rx_pwr st2)))" using h r r2 by (simp add: here_def)
  note p = put_reader_ok [OF r2 this al]
  have sm: "same st (put_reader w2 st2)" using same_trans [OF same_fixed p(2)] fx by simp
  have "here F' sz L' (put_reader w2 st2) fs' adj2" by (rule here_same [OF h sm]) (use p(1,3) m2 in simp)
  with sm show ?thesis by blast
qed

lemma sync_and_put:
  assumes h: "here F sz L st fs adj" and r: "readers (rx_pwr st) = xs @ w # ys"
    and m2: "mid F' sz L' st2 (xs @ w2 # ys) fs' adj2 []" and fx: "fixed st2 = fixed st" and al: "alike w w2"
    and n2: "in_sync (pm_ack w2) \<noteq> PRMSS_SYNC"
  shows "\<exists>st3 w3. set_in_sync st2 w2 q = Some (st3, w3) \<and> here F' sz L' (put_reader w3 st3) fs' adj2 \<and>
    same st (put_reader w3 st3)"
proof -
  obtain st3 s where s: "set_in_sync st2 w2 q = Some (st3, set_sync s w2)"
    "mid F' sz L' st3 (xs @ set_sync s w2 # ys) fs' adj2 []" "fixed st3 = fixed st2"
    using set_in_sync_ok [OF m2 n2] by blast
  have "fixed st3 = fixed st" "alike w (set_sync s w2)" using s(3) fx al by (simp_all add: alike_def)
  from write_back [OF h r s(2) this] s(1) show ?thesis by blast
qed

lemma handle_one_gap_ok:
  assumes h: "here F sz L st [gap] adj" and lt: "0 < a" "a < b" "b \<le> L" and adj: "adj + 2 < BIAS"
    and g: "\<forall>x. g = Some x \<longrightarrow> find_reader (rx_pwr st) x \<noteq> None"
  shows "\<exists>v st' adj'. handle_one_gap cfg st g a b gap adj = Some (v, st', adj') \<and> here F sz L st' [gap] adj' \<and>
    adj' \<le> adj + 2 \<and> same st st'"
proof -
  have as: "assertion (0 < a \<and> a \<le> b) = Some ()" using lt by simp
  have m: "mid F sz L st (readers (rx_pwr st)) [gap] adj []" using h by (simp add: here_def)
  obtain wn where wn: "(case g of None \<Rightarrow> Some None | Some x \<Rightarrow> map_option Some (find_reader (rx_pwr st) x)) = Some wn"
    "\<forall>w. wn = Some w \<longrightarrow> (\<exists>x. g = Some x \<and> find_reader (rx_pwr st) x = Some w)"
    using g by (cases g) auto
  obtain res st1 adj1 where s1: "(if \<not> (case wn of None \<Rightarrow> False | Some w \<Rightarrow> rwn_filtered (pm_ack w))
      then gap_to_group cfg st a b gap adj else Some (0, st, adj)) = Some (res, st1, adj1)"
    "mid F sz L st1 (readers (rx_pwr st)) [gap] adj1 []" "fixed st1 = fixed st" "adj1 \<le> adj + 1"
  proof (cases "case wn of None \<Rightarrow> False | Some w \<Rightarrow> rwn_filtered (pm_ack w)")
    case True
    with m show ?thesis using that by simp
  next
    case False
    have "adj + 1 < BIAS" using adj by simp
    from gap_to_group_ok [OF m lt(2,3) this, of cfg] False show ?thesis using that by auto
  qed
  have sm1: "same st st1" by (rule same_fixed [OF s1(3)])
  have h1: "here F sz L st1 [gap] adj1"
    by (rule here_same [OF h sm1]) (use s1(2) fixedD(1) [OF s1(3)] in simp)
  note code = handle_one_gap_def [of cfg st g a b gap adj, unfolded as wn(1) s1(1) option_bind_Some prod.case]
  show ?thesis
  proof (cases wn)
    case None
    with code h1 sm1 s1(4) show ?thesis by simp
  next
    case (Some w)
    show ?thesis
    proof (cases "in_sync (pm_ack w) = PRMSS_SYNC")
      case True
      with Some code h1 sm1 s1(4) show ?thesis by simp
    next
      case False
      obtain x where f: "find_reader (rx_pwr st) x = Some w" using wn(2) [rule_format, OF Some] by (elim exE conjE)
      obtain xs ys where r: "readers (rx_pwr st1) = xs @ w # ys"
        using find_reader_Some [OF f] fixedD(1) [OF s1(3)] by metis
      have a1: "adj1 + 1 < BIAS" using s1(4) adj by simp
      have m1: "mid F sz L st1 (xs @ w # ys) [gap] adj1 []" using h1 r by (simp add: here_def)
      obtain v w2 st2 adj2 where p: "gap_to_reader cfg st1 w a b gap res adj1 = Some (v, w2, st2, adj2)"
        "mid F sz L st2 (xs @ w2 # ys) [gap] adj2 []" "fixed st2 = fixed st1" "adj2 \<le> adj1 + 1" "alike w w2"
        "in_sync (pm_ack w2) = in_sync (pm_ack w)"
        using gap_to_reader_ok [OF m1 lt(2) a1] by blast
      have "in_sync (pm_ack w2) \<noteq> PRMSS_SYNC" using p(6) False by simp
      from sync_and_put [OF h1 r p(2,3,5) this] obtain st3 w3 where
        q: "set_in_sync st2 w2 (b - 1) = Some (st3, w3)" "here F sz L (put_reader w3 st3) [gap] adj2"
        "same st1 (put_reader w3 st3)" by blast
      have "handle_one_gap cfg st g a b gap adj = Some (v, put_reader w3 st3, adj2)"
        unfolding code Some using False p(1) q(1) by simp
      with q(2) p(4) s1(4) same_trans [OF sm1 q(3)] show ?thesis by auto
    qed
  qed
qed

lemma first_clear_ok:
  assumes "n \<le> 32 * length bits"
  shows "\<exists>j. first_clear n bits i = Some j \<and> i \<le> j \<and> j \<le> max i n"
  using assms
proof (induction n bits i rule: first_clear.induct)
  case (1 n bits i)
  show ?case
  proof (cases "i < n \<and> isset bits i")
    case True
    with 1 obtain j where "first_clear n bits (i + 1) = Some j" "i + 1 \<le> j" "j \<le> max (i + 1) n"
      using nn_bitset_isset_iff [OF 1(2), of i] by force
    with True nn_bitset_isset_iff [OF 1(2), of i] show ?thesis by (subst first_clear.simps) auto
  next
    case False
    with nn_bitset_isset_iff [OF 1(2), of i] show ?thesis by (subst first_clear.simps) auto
  qed
qed

lemma here_mono: "here F sz L st fs adj \<Longrightarrow> L \<le> L' \<Longrightarrow> L' \<le> SEQ_END \<Longrightarrow> here F sz L' st fs adj"
  using mid_mono by (auto simp: here_def)

text \<open>The bitmap; what is stored is bounded by the first number that the message does not speak of.\<close>

lemma gap_list_ok:
  assumes "here F sz (max L (base + excl)) st [gap] adj" "n \<le> 32 * length bits" "base + n \<le> SEQ_END" "1 \<le> base"
    and "excl \<le> i" "i \<le> n" "L \<le> SEQ_END" "adj + 2 * (n - i) < BIAS" "find_reader (rx_pwr st) g \<noteq> None"
  shows "\<exists>st' adj' excl'. gap_list cfg g gap base n bits i st adj excl = Some (st', adj', excl') \<and>
    here F sz (max L (base + excl')) st' [gap] adj' \<and> same st st' \<and> excl' \<le> n"
  using assms
proof (induction cfg g gap base n bits i st adj excl rule: gap_list.induct)
  case (1 cfg g gap base n bits i st adj excl)
  show ?case
  proof (cases "n \<le> i")
    case True
    with 1(3,7,8) show ?thesis by (subst gap_list.simps) simp
  next
    case False
    obtain b where b: "nn_bitset_isset n bits i = Some b" using nn_bitset_isset_iff [OF 1(4), of i] by blast
    show ?thesis
    proof (cases b)
      case False
      have "adj + 2 * (n - (i + 1)) < BIAS" using 1(10) by simp
      from 1(1) [OF \<open>\<not> n \<le> i\<close> b False 1(3-6) _ _ 1(9) this 1(11)] 1(7,8) \<open>\<not> n \<le> i\<close> b False
      show ?thesis by (subst gap_list.simps) simp
    next
      case True
      obtain j where j: "first_clear n bits (i + 1) = Some j" "i + 1 \<le> j" "j \<le> n"
        using first_clear_ok [OF 1(4), of "i + 1"] \<open>\<not> n \<le> i\<close> by (auto simp: max_def)
      let ?L = "max L (base + j)"
      have h: "here F sz ?L st [gap] adj"
        by (rule here_mono [OF 1(3)]) (use j 1(5,7,9) in auto)
      have fr: "\<forall>x. Some g = Some x \<longrightarrow> find_reader (rx_pwr st) x \<noteq> None" using 1(11) by simp
      have lt: "0 < base + i" "base + i < base + j" "base + j \<le> ?L" "adj + 2 < BIAS"
        using 1(6,10) j \<open>\<not> n \<le> i\<close> by (auto simp: max_def)
      from handle_one_gap_ok [OF h lt fr, of cfg]
      obtain v st1 adj1 where s: "handle_one_gap cfg st (Some g) (base + i) (base + j) gap adj = Some (v, st1, adj1)"
        "here F sz ?L st1 [gap] adj1" "adj1 \<le> adj + 2" "same st st1" by blast
      have a: "assertion (1 \<le> j) = Some ()" using j by simp
      have nb: "\<not> \<not> b" and f1: "find_reader (rx_pwr st1) g \<noteq> None"
        using True same_find [OF s(4), of g] 1(11) by simp_all
      have rest: "adj1 + 2 * (n - j) < BIAS" using 1(10) s(3) j \<open>\<not> n \<le> i\<close> by linarith
      from 1(2) [OF \<open>\<not> n \<le> i\<close> b nb j(1) s(1) refl refl a s(2) 1(4-6) order_refl j(3) 1(9) rest f1]
      obtain st' adj' excl' where "gap_list cfg g gap base n bits j st1 adj1 j = Some (st', adj', excl')"
        "here F sz (max L (base + excl')) st' [gap] adj'" "same st1 st'" "excl' \<le> n" by blast
      with b j s a True \<open>\<not> n \<le> i\<close> show ?thesis
        by (subst gap_list.simps) (auto intro: same_trans simp del: assertion_def)
    qed
  qed
qed

lemma here_new_gap:
  assumes h: "here F sz L st [] 0" and t: "taking F st rmsg"
  shows "\<exists>gap st'. new_gap st rmsg = Some (gap, st') \<and> here F sz L st' [gap] 0 \<and> fixed st' = fixed st"
proof -
  obtain gap st' where s: "new_gap st rmsg = Some (gap, st')" "mid F sz L st' (readers (rx_pwr st)) [gap] 0 []" "fixed st' = fixed st"
    using new_gap_ok [of F sz L st "readers (rx_pwr st)" rmsg] h t unfolding here_def by blast
  have "here F sz L st' [gap] 0"
    by (rule here_same [OF h same_fixed [OF s(3)]]) (use s(2) fixedD(1) [OF s(3)] in simp)
  with s show ?thesis by blast
qed

text \<open>A gap message that \<open>validate_Gap\<close> accepts.\<close>

definition valid_gap :: "seqno \<Rightarrow> seqno \<Rightarrow> nat \<Rightarrow> 32 word list \<Rightarrow> bool" where
  "valid_gap gapstart listbase n bits \<longleftrightarrow> 1 \<le> gapstart \<and> gapstart \<le> listbase \<and> n \<le> 256 \<and> n \<le> 32 * length bits \<and>
     listbase + n < SEQ_END"

lemma handle_Gap_ok:
  assumes ok: "rest F sz st" and v: "valid_gap gapstart listbase n bits" and t: "taking F st rmsg"
  shows "\<exists>st'. handle_Gap cfg rst st rmsg rdid gapstart listbase n bits = Some st' \<and> rest F sz st' \<and>
    length (readers (rx_pwr st')) = length (readers (rx_pwr st))"
proof -
  let ?dst = "dst_of rst rdid" and ?last = "pwr_last_seq (pw (rx_pwr st))"
  have vv: "1 \<le> gapstart" "gapstart \<le> listbase" "n \<le> 256" "n \<le> 32 * length bits" "listbase + n < SEQ_END"
    using v by (simp_all add: valid_gap_def)
  have as: "assertion (gapstart \<le> listbase \<and> 1 \<le> gapstart) = Some ()" using vv by simp
  obtain i where i: "first_clear n bits 0 = Some i" "i \<le> n" using first_clear_ok [OF vv(4), of 0] by auto
  note code = handle_Gap_def [of cfg rst st rmsg rdid gapstart listbase n bits, unfolded as i(1) Let_def option_bind_Some]
  show ?thesis
  proof (cases "\<not> forme rst \<or> find_reader (rx_pwr st) ?dst = None \<or> no_heartbeat_yet rst (rx_pwr st)")
    case True
    with code ok show ?thesis by auto
  next
    case False
    have h: "here F sz (?last + 1) st [] 0" "?last + 1 \<le> SEQ_END" using ok by (auto simp: rest_def here_def mid_def main_ok_def)
    obtain gap st0 where s0: "new_gap st rmsg = Some (gap, st0)" "here F sz (?last + 1) st0 [gap] 0" "fixed st0 = fixed st"
      using here_new_gap [OF h(1) t] by blast
    let ?L = "max (?last + 1) (listbase + i)"
    have h0: "here F sz ?L st0 [gap] 0" by (rule here_mono [OF s0(2)]) (use h(2) i(2) vv(5) in auto)
    have f0: "find_reader (rx_pwr st0) ?dst \<noteq> None" using False same_find [OF same_fixed [OF s0(3)], of ?dst] by simp
    obtain st1 adj1 where s1: "(if gapstart < listbase + i then
        map_option snd (handle_one_gap cfg st0 (Some ?dst) gapstart (listbase + i) gap 0) else Some (st0, 0)) = Some (st1, adj1)"
      "here F sz ?L st1 [gap] adj1" "adj1 \<le> 2" "same st0 st1"
    proof (cases "gapstart < listbase + i")
      case True
      have lt: "0 < gapstart" "listbase + i \<le> ?L" "0 + 2 < BIAS" using vv by (simp_all add: RMSG_REFCOUNT_RDATA_BIAS_def)
      have f: "\<forall>x. Some ?dst = Some x \<longrightarrow> find_reader (rx_pwr st0) x \<noteq> None" using f0 by simp
      from handle_one_gap_ok [OF h0 lt(1) True lt(2,3) f, of cfg] True show ?thesis using that by auto
    next
      case False
      with h0 show ?thesis using that by simp
    qed
    have f1: "find_reader (rx_pwr st1) ?dst \<noteq> None" using f0 same_find [OF s1(4), of ?dst] by simp
    have b: "listbase + n \<le> SEQ_END" "1 \<le> listbase" "adj1 + 2 * (n - i) < BIAS"
      using vv s1(3) by (simp_all add: RMSG_REFCOUNT_RDATA_BIAS_def)
    obtain st2 adj2 e where s2: "gap_list cfg ?dst gap listbase n bits i st1 adj1 i = Some (st2, adj2, e)"
      "here F sz (max (?last + 1) (listbase + e)) st2 [gap] adj2" "same st1 st2" "e \<le> n"
      using gap_list_ok [OF s1(2) vv(4) b(1,2) order_refl i(2) h(2) b(3) f1] by blast
    obtain st3 where s3: "adjust_refs st2 [gap] adj2 = Some st3" "here F sz (max (?last + 1) (listbase + e)) st3 [] 0"
      "fixed st3 = fixed st2" using here_adjust [OF s2(2)] by blast
    have sm: "same st st3" using s0(3) s1(4) s2(3) s3(3) by (meson same_fixed same_trans)
    let ?q = "listbase + e - 1"
    define st4 where "st4 = upd_pw (\<lambda>w. if pwr_last_seq w < ?q then w\<lparr>pwr_last_seq := ?q, pwr_last_fragnum := UINT32_MAX\<rparr> else w) st3"
    have l3: "pwr_last_seq (pw (rx_pwr st3)) = ?last" "length (readers (rx_pwr st3)) = length (readers (rx_pwr st))"
      using sameD(4,7) [OF sm] by simp_all
    have h4: "here F sz (max (?last + 1) (listbase + e)) st4 [] 0"
      using here_last_seq [OF s3(2)] s3(2) by (cases "?last < ?q") (simp_all add: st4_def l3)
    have l4: "max (?last + 1) (listbase + e) \<le> pwr_last_seq (pw (rx_pwr st4)) + 1" "pwr_last_seq (pw (rx_pwr st4)) < SEQ_END"
      "readers (rx_pwr st4) = readers (rx_pwr st3)"
      using vv s2(4) h(2) by (auto simp: st4_def l3)
    obtain wn where wn: "find_reader (rx_pwr st4) ?dst = Some wn"
      using f1 same_find [OF s2(3), of ?dst] same_find [OF same_fixed [OF s3(3)], of ?dst] l4(3) by (auto simp: find_reader_def)
    note code4 = code [unfolded s0(1) option_bind_Some prod.case s1(1) option_bind_Some s2(1) s3(1) st4_def [symmetric] wn]
    let ?st5 = "put_reader (match_last_seq ?q wn) st4"
    note p = put_same_ack [OF h4 wn match_last_seq_same_ack, of ?q]
    have "here F sz (max (?last + 1) (listbase + e)) ?st5 [] 0" "pwr_last_seq (pw (rx_pwr ?st5)) = pwr_last_seq (pw (rx_pwr st4))"
      "length (readers (rx_pwr ?st5)) = length (readers (rx_pwr st))"
      using p sameD(4,7) [of st4 ?st5] l4(3) l3(2) by simp_all
    then have "rest F sz ?st5" "rest F sz st4" using restI [OF ok] h4 l4 l3(2) by simp_all
    with code4 False l4(3) l3(2) sameD(7) [of st4 ?st5] p show ?thesis by auto
  qed
qed

text \<open>A sample that is too large, of a number that has been noted.\<close>

lemma drop_oversize_ok:
  assumes ok: "rest F sz st" and q: "1 \<le> si_seq info" "si_seq info \<le> pwr_last_seq (pw (rx_pwr st))" and t: "taking F st rmsg"
  shows "\<exists>st'. drop_oversize cfg rst st rmsg rdid info = Some st' \<and> rest F sz st' \<and>
    length (readers (rx_pwr st')) = length (readers (rx_pwr st))"
proof -
  let ?g = "if find_reader (rx_pwr st) (dst_of rst rdid) = None then None else Some (dst_of rst rdid)"
    and ?L = "pwr_last_seq (pw (rx_pwr st)) + 1"
  have h: "here F sz ?L st [] 0" "?L \<le> SEQ_END" using ok by (auto simp: rest_def here_def mid_def main_ok_def)
  obtain gap st0 where s0: "new_gap st rmsg = Some (gap, st0)" "here F sz ?L st0 [gap] 0" "fixed st0 = fixed st"
    using here_new_gap [OF h(1) t] by blast
  have rd: "find_reader (rx_pwr st0) x = find_reader (rx_pwr st) x" for x
    using fixedD(1) [OF s0(3)] by (simp add: find_reader_def)
  have f: "\<forall>x. ?g = Some x \<longrightarrow> find_reader (rx_pwr st0) x \<noteq> None" unfolding rd by simp
  have lt: "0 < si_seq info" "si_seq info < si_seq info + 1" "si_seq info + 1 \<le> ?L" "0 + 2 < BIAS"
    using q by (simp_all add: RMSG_REFCOUNT_RDATA_BIAS_def)
  obtain v st1 adj where s1: "handle_one_gap cfg st0 ?g (si_seq info) (si_seq info + 1) gap 0 = Some (v, st1, adj)"
    "here F sz ?L st1 [gap] adj" "same st0 st1" using handle_one_gap_ok [OF s0(2) lt f, of cfg] by blast
  obtain st2 where s2: "adjust_refs st1 [gap] adj = Some st2" "here F sz ?L st2 [] 0" "fixed st2 = fixed st1"
    using here_adjust [OF s1(2)] by blast
  have sm: "same st st2" using s0(3) s1(3) s2(3) by (meson same_fixed same_trans)
  have "rest F sz st2" using restI [OF ok sameD(7) [OF sm] s2(2)] sameD(4) [OF sm] h(2) by simp
  moreover have "drop_oversize cfg rst st rmsg rdid info = Some st2"
    unfolding drop_oversize_def Let_def s0(1) option_bind_Some prod.case rd s1(1) option_bind_Some by (rule s2(1))
  ultimately show ?thesis using sameD(7) [OF sm] by blast
qed

section \<open>Heartbeats\<close>

lemma heartbeat_reader_ok:
  assumes m: "mid F sz L st (xs @ w # ys) [gap] adj []" and f: "1 \<le> firstseq" and adj: "adj + 1 < BIAS"
  shows "\<exists>st' adj' w'. heartbeat_reader cfg gap firstseq lastseq st adj w = Some (st', adj', w') \<and>
    mid F sz L st' (xs @ w' # ys) [gap] adj' [] \<and> fixed st' = fixed st \<and> adj' \<le> adj + 1 \<and> alike w w'"
proof -
  define w1 where "w1 = (if end_of_tl_seq w = MAX_SEQ_NUMBER then w\<lparr>end_of_tl_seq := lastseq\<rparr> else w)"
  have a1: "same_ack w w1" by (simp add: w1_def same_ack_def alike_def)
  have m1: "mid F sz L st (xs @ w1 # ys) [gap] adj []"
    by (rule mid_same_ack [OF m list_all2_middle [of same_ack, OF a1 alike_refl(2)]])
  have al: "alike w (set_sync s (set_reorder r w1))" "alike w (set_sync s w1)" for s r
    using a1 by (auto simp: same_ack_def alike_def)
  note code = heartbeat_reader_def [of cfg gap firstseq lastseq st adj w, folded w1_def, unfolded Let_def]
  show ?thesis
  proof (cases "in_sync (pm_ack w1)")
    case PRMSS_SYNC
    with code m show ?thesis by simp
  next
    case PRMSS_TLCATCHUP
    have as: "assertion (0 < next_of (rx_pwr st)) = Some ()"
      using m by (auto simp: mid_def main_ok_def nn_reorder_next_seq_def)
    obtain st' s where "set_in_sync st w1 (next_of (rx_pwr st) - 1) = Some (st', set_sync s w1)"
      "mid F sz L st' (xs @ set_sync s w1 # ys) [gap] adj []" "fixed st' = fixed st"
      using set_in_sync_ok [OF m1, of "next_of (rx_pwr st) - 1"] PRMSS_TLCATCHUP by auto
    with code as PRMSS_TLCATCHUP al(2) [of s] show ?thesis by simp
  next
    case PRMSS_OUT_OF_SYNC
    have "1 < firstseq \<or> firstseq \<le> 1" by linarith
    from reader_gap_ok [OF m1 this adj] obtain res sc r st1 d where
      g: "reader_gap st w1 gap 1 firstseq = Some (res, sc, set_reorder r w1, st1, d)"
      "mid F sz L st1 (xs @ set_reorder r w1 # ys) [gap] (adj + d) sc" "fixed st1 = fixed st" "d \<le> 1"
      "if 0 < res then sc \<noteq> [] else sc = []" by blast
    let ?w = "set_reorder r w1"
    obtain st2 where s2: "(if 0 < res then deliver_to_reader cfg st1 (pm_guid w1) sc res else Some st1) = Some st2"
      "mid F sz L st2 (xs @ ?w # ys) [gap] (adj + d) []" "fixed st2 = fixed st1"
      using deliver_reader_if [OF g(2,5)] by blast
    have as: "assertion (0 < rd_next ?w) = Some ()"
      using g(2) by (auto simp: mid_def match_ok_def nn_reorder_next_seq_def)
    have "in_sync (pm_ack ?w) \<noteq> PRMSS_SYNC" using PRMSS_OUT_OF_SYNC by simp
    from set_in_sync_ok [OF s2(2) this, of "rd_next ?w - 1"] obtain st3 s where
      s3: "set_in_sync st2 ?w (rd_next ?w - 1) = Some (st3, set_sync s ?w)"
      "mid F sz L st3 (xs @ set_sync s ?w # ys) [gap] (adj + d) []" "fixed st3 = fixed st2" by blast
    have "heartbeat_reader cfg gap firstseq lastseq st adj w = Some (st3, adj + d, set_sync s ?w)"
      using code PRMSS_OUT_OF_SYNC g(1) s2(1) as s3(1) by simp
    moreover have "fixed st3 = fixed st" "adj + d \<le> adj + 1" using g(3,4) s2(3) s3(3) by simp_all
    ultimately show ?thesis using s3(2) al(1) by blast
  qed
qed

lemma heartbeat_readers_ok:
  assumes "mid F sz L st (xs @ wns) [gap] adj []" "1 \<le> firstseq" "adj + length wns < BIAS"
  shows "\<exists>st' adj' wns'. heartbeat_readers cfg gap firstseq lastseq st adj wns = Some (st', adj', wns') \<and>
    mid F sz L st' (xs @ wns') [gap] adj' [] \<and> fixed st' = fixed st \<and> list_all2 alike wns wns'"
  using assms
proof (induction wns arbitrary: xs st adj)
  case (Cons w wns)
  have "adj + 1 < BIAS" using Cons.prems(3) by simp
  from heartbeat_reader_ok [OF Cons.prems(1,2) this, of cfg lastseq] obtain st1 adj1 w' where
    s1: "heartbeat_reader cfg gap firstseq lastseq st adj w = Some (st1, adj1, w')"
    "mid F sz L st1 (xs @ w' # wns) [gap] adj1 []" "fixed st1 = fixed st" "adj1 \<le> adj + 1" "alike w w'" by blast
  have "mid F sz L st1 ((xs @ [w']) @ wns) [gap] adj1 []" "adj1 + length wns < BIAS"
    using s1(2,4) Cons.prems(3) by simp_all
  from Cons.IH [OF this(1) Cons.prems(2) this(2)] obtain st2 adj2 wns' where
    "heartbeat_readers cfg gap firstseq lastseq st1 adj1 wns = Some (st2, adj2, wns')"
    "mid F sz L st2 ((xs @ [w']) @ wns') [gap] adj2 []" "fixed st2 = fixed st1" "list_all2 alike wns wns'" by blast
  with s1 show ?case by simp
qed simp

lemma set_readers_ok:
  assumes h: "here F sz L st fs adj" and m: "mid F' sz L' st' wns fs' adj' []" and fx: "fixed st' = fixed st"
    and al: "list_all2 alike (readers (rx_pwr st)) wns"
  shows "here F' sz L' (set_readers wns st') fs' adj' \<and> same st (set_readers wns st')"
proof -
  have sm: "same st (set_readers wns st')" using fx al by (simp add: same_def fixed_def set_readers_def)
  have "mid F' sz L' (set_readers wns st') wns fs' adj' []" using m by (simp add: mid_def set_readers_def)
  from here_same [OF h sm, of F' L' fs' adj'] this sm show ?thesis by (simp add: set_readers_def)
qed

text \<open>Acknowledgements are scheduled: the configuration and the scratch buffers are fit for that.\<close>

definition config_ok :: "rx_config \<Rightarrow> bool" where
  "config_ok cfg \<longleftrightarrow> buffers_ok (scratch cfg) \<and> 0 \<le> ack_delay (rc_ack cfg) \<and> 0 \<le> nack_delay (rc_ack cfg) \<and>
     0 \<le> auto_resched_nack_delay (rc_ack cfg) \<and> 0 \<le> preemptive_ack_delay cfg \<and>
     1 \<le> defrag_reliable_maxsamples cfg \<and> 1 \<le> defrag_unreliable_maxsamples cfg"

lemma helper_ok:
  assumes m: "main_ok sz L (pw p)" "reader_ok wn" and md: "ro_mode (pwr_reorder (pw p)) = NN_REORDER_MODE_NORMAL"
    and c: "config_ok cfg" "0 \<le> tnow_mt"
  shows "\<exists>wn'. handle_Heartbeat_helper cfg p hb tnow tnow_mt directed wn = Some wn' \<and> same_ack wn wn'"
proof -
  let ?m = "(pm_ack wn)\<lparr>heartbeat_since_ack := True, ack_requested := (if \<not> hb_final hb then True else ack_requested (pm_ack wn)),
    directed_heartbeat := (if directed then True else directed_heartbeat (pm_ack wn))\<rparr>"
  have ro: "reorder_of (pw p) ?m = pwr_reorder (pw p) \<or> reorder_of (pw p) ?m = rwn_reorder (pm_ack wn)"
    by (simp add: reorder_of_def)
  have "safe_acks (rc_ack cfg) (pw p) ?m"
    using m md ro by (auto simp: safe_acks_def main_ok_def match_ok_def SEQ_END_def)
  moreover have "times_ok (rc_ack cfg) ?m tnow_mt" using m(2) c by (simp add: times_ok_def config_ok_def match_ok_def)
  ultimately obtain ts where "sched_acknack_if_needed (rc_ack cfg) (pw p) ?m (scratch cfg) tnow_mt True = Some ts"
    using sched_total c(1) unfolding config_ok_def by blast
  then show ?thesis unfolding handle_Heartbeat_helper_def
    by (auto simp: same_ack_def alike_def resched_xevent_if_earlier_def split: option.splits)
qed

lemma forall_destinations_ok:
  assumes "\<forall>wn\<in>set wns. \<exists>wn'. f wn = Some wn' \<and> same_ack wn wn'"
  shows "\<exists>wns'. handle_forall_destinations dst f wns = Some wns' \<and> list_all2 same_ack wns wns'"
  using assms
proof (induction wns)
  case (Cons wn wns)
  then obtain wns' where w: "handle_forall_destinations dst f wns = Some wns'" "list_all2 same_ack wns wns'" by auto
  obtain wn' where "(if addressed dst (pm_guid wn) then f wn else Some wn) = Some wn'" "same_ack wn wn'"
    using Cons.prems by (cases "addressed dst (pm_guid wn)") auto
  with w show ?case by simp
qed simp

text \<open>A heartbeat that \<open>validate_Heartbeat\<close> accepts, whose last sequence number is in range.\<close>

definition valid_heartbeat :: "Heartbeat \<Rightarrow> bool" where
  "valid_heartbeat hb \<longleftrightarrow> 1 \<le> hb_firstSN hb \<and> hb_firstSN hb \<le> hb_lastSN hb + 1 \<and> hb_lastSN hb < SEQ_END"

lemma heartbeat_noted_ok:
  assumes h: "here F sz L st fs adj" and L: "L = pwr_last_seq (pw (rx_pwr st)) + 1" and v: "valid_heartbeat hb"
  shows "\<exists>L'. here F sz L' (st\<lparr>rx_pwr := heartbeat_noted hb (rx_pwr st)\<rparr>) fs adj \<and>
    L' = pwr_last_seq (pw (heartbeat_noted hb (rx_pwr st))) + 1 \<and> L' \<le> SEQ_END \<and> hb_lastSN hb + 1 \<le> L'"
proof -
  let ?st = "st\<lparr>rx_pwr := heartbeat_noted hb (rx_pwr st)\<rparr>" and ?L = "pwr_last_seq (pw (heartbeat_noted hb (rx_pwr st))) + 1"
  have le: "L \<le> ?L" "hb_lastSN hb + 1 \<le> ?L" "?L \<le> SEQ_END"
    using h L v by (auto simp: heartbeat_noted_def here_def mid_def main_ok_def valid_heartbeat_def)
  have "here F sz L ?st fs adj"
    using h by (auto simp: heartbeat_noted_def here_def mid_def main_ok_def deliv_ok_def books_def owed_def)
  from here_mono [OF this le(1,3)] le show ?thesis by blast
qed

text \<open>The two cases of a heartbeat: for one reader with a filter, and for all.\<close>

lemma heartbeat_filtered_ok:
  assumes h: "here F sz L st [gap] 0" and wn: "find_reader (rx_pwr st) g = Some wn"
  shows "\<exists>st' d. heartbeat_filtered st wn gap hb = Some (st', d) \<and> here F sz L st' [gap] d \<and> same st st'"
proof -
  obtain xs ys where r: "readers (rx_pwr st) = xs @ wn # ys" using find_reader_Some [OF wn] by blast
  have m: "mid F sz L st (xs @ wn # ys) [gap] 0 []" using h r by (simp add: here_def)
  have lt: "1 < hb_firstSN hb \<or> hb_firstSN hb \<le> 1" "0 + 1 < BIAS" by (auto simp: RMSG_REFCOUNT_RDATA_BIAS_def)
  obtain res sc rr st1 d where g: "reader_gap st wn gap 1 (hb_firstSN hb) = Some (res, sc, set_reorder rr wn, st1, d)"
    "mid F sz L st1 (xs @ set_reorder rr wn # ys) [gap] d sc" "fixed st1 = fixed st" "if 0 < res then sc \<noteq> [] else sc = []"
    using reader_gap_ok [OF m lt, unfolded add_0] by blast
  obtain st3 where s3: "(if 0 < res then queue_for_reader st1 (pm_guid wn) sc res else Some st1) = Some st3"
    "mid F sz L st3 (xs @ set_reorder rr wn # ys) [gap] d []" "fixed st3 = fixed st1"
    using queue_for_reader_ok [OF g(2), of res "pm_guid wn"] g(2,4) by (cases "0 < res") auto
  let ?w = "match_last_seq (hb_lastSN hb) (set_reorder rr wn)"
  have sa: "same_ack (set_reorder rr wn) ?w" by (rule match_last_seq_same_ack)
  have m4: "mid F sz L st3 (xs @ ?w # ys) [gap] d []"
    by (rule mid_same_ack [OF s3(2) list_all2_middle [of same_ack, OF sa alike_refl(2)]])
  have al: "alike wn ?w" using sa by (simp add: same_ack_def alike_def)
  have fx: "fixed st3 = fixed st" using s3(3) g(3) by simp
  from write_back [OF h r m4 fx al] g(1) s3(1) show ?thesis by (simp add: heartbeat_filtered_def)
qed

lemma heartbeat_group_ok:
  assumes h: "here F sz L st [gap] 0" and f: "1 \<le> hb_firstSN hb" and e: "1 < b \<or> b \<le> 1" "b \<le> L"
    and n: "length (readers (rx_pwr st)) + 4 < BIAS"
  shows "\<exists>st' d. heartbeat_group cfg st gap b hb = Some (st', d) \<and> here F sz L st' [gap] d \<and> same st st'"
proof -
  have m: "mid F sz L st (readers (rx_pwr st)) [gap] 0 []" "0 + 1 < BIAS" using h n by (simp_all add: here_def)
  obtain res sc st1 d where g: "group_gap st gap 1 b = Some (res, sc, st1, d)"
    "mid F sz L st1 (readers (rx_pwr st)) [gap] d sc" "fixed st1 = fixed st" "\<forall>q\<in>seqs sc. q < next_of (rx_pwr st1)"
    "d \<le> 1" "if 0 < res then sc \<noteq> [] else sc = []"
    using group_gap_ok [OF m(1) e m(2), unfolded add_0] by blast
  obtain st2 where s2: "(if 0 < res then deliver_to_group cfg st1 sc res else Some st1) = Some st2"
    "mid F sz L st2 (readers (rx_pwr st)) [gap] d []" "fixed st2 = fixed st1"
    using deliver_group_if [OF g(2,6,4)] by blast
  have r2: "readers (rx_pwr st2) = readers (rx_pwr st)" using fixedD(1) [OF s2(3)] fixedD(1) [OF g(3)] by simp
  have "mid F sz L st2 ([] @ readers (rx_pwr st2)) [gap] d []" "d + length (readers (rx_pwr st2)) < BIAS"
    using s2(2) g(5) n r2 by simp_all
  from heartbeat_readers_ok [OF this(1) f this(2), of cfg "hb_lastSN hb"] obtain st3 d3 wns where
    s3: "heartbeat_readers cfg gap (hb_firstSN hb) (hb_lastSN hb) st2 d (readers (rx_pwr st2)) = Some (st3, d3, wns)"
    "mid F sz L st3 wns [gap] d3 []" "fixed st3 = fixed st2" "list_all2 alike (readers (rx_pwr st2)) wns" by auto
  have "fixed st3 = fixed st" "list_all2 alike (readers (rx_pwr st)) wns" using s3(3,4) s2(3) g(3) r2 by simp_all
  from set_readers_ok [OF h s3(2) this] g(1) s2(1) s3(1) show ?thesis by (simp add: heartbeat_group_def)
qed

lemma handle_Heartbeat_ok:
  assumes ok: "rest F sz st" and v: "valid_heartbeat hb" and c: "config_ok cfg" "0 \<le> tnow_mt" and t: "taking F st rmsg"
  shows "\<exists>st'. handle_Heartbeat cfg rst st rmsg hb tnow tnow_mt = Some st' \<and> rest F sz st' \<and>
    length (readers (rx_pwr st')) = length (readers (rx_pwr st))"
proof (cases "\<not> forme rst \<or> n_reliable_readers (rx_pwr st) = 0")
  case True
  with ok show ?thesis by (simp add: handle_Heartbeat_def)
next
  case False
  let ?last = "pwr_last_seq (pw (rx_pwr st))"
  define b where "b = (if have_seen_heartbeat (rx_pwr st) then hb_firstSN hb else (hb_lastSN hb + 1) mod 2 ^ 64)"
  have vv: "1 \<le> hb_firstSN hb" "hb_firstSN hb \<le> hb_lastSN hb + 1" "hb_lastSN hb < SEQ_END"
    using v by (simp_all add: valid_heartbeat_def)
  have b: "b = (if have_seen_heartbeat (rx_pwr st) then hb_firstSN hb else hb_lastSN hb + 1)"
    using vv(3) by (simp add: b_def SEQ_END_def)
  then have be: "hb_firstSN hb \<le> b" "b \<le> hb_lastSN hb + 1" "1 < b \<or> b \<le> 1" using vv by auto
  have as: "assertion (hb_firstSN hb \<le> b) = Some ()" using be(1) by simp
  have h: "here F sz (?last + 1) st [] 0" and n: "length (readers (rx_pwr st)) + 4 < BIAS"
    and rel: "pwr_reliable (rx_pwr st)" and md: "ro_mode (pwr_reorder (pw (rx_pwr st))) = NN_REORDER_MODE_NORMAL"
    using ok False by (auto simp: rest_def here_def reliable_ones_def)
  let ?stn = "st\<lparr>rx_pwr := heartbeat_noted hb (rx_pwr st)\<rparr>"
  obtain L where hn: "here F sz L ?stn [] 0" and L: "L = pwr_last_seq (pw (rx_pwr ?stn)) + 1" "L \<le> SEQ_END" "hb_lastSN hb + 1 \<le> L"
    using heartbeat_noted_ok [OF h refl v] by auto
  have nd: "length (readers (rx_pwr ?stn)) = length (readers (rx_pwr st))" "ro_mode (pwr_reorder (pw (rx_pwr ?stn))) = NN_REORDER_MODE_NORMAL"
    using md by (simp_all add: heartbeat_noted_def)
  obtain st0 where s0: "pwr_notegap ?stn 1 b = Some st0" "mid F sz L st0 (readers (rx_pwr ?stn)) [] 0 []" "fixed st0 = fixed ?stn"
    using notegap_ok [of F sz L ?stn "readers (rx_pwr ?stn)" "[]" 0 "[]" 1 b] hn unfolding here_def by blast
  have h0: "here F sz L st0 [] 0"
    by (rule here_same [OF hn same_fixed [OF s0(3)]]) (use s0(2) fixedD(1) [OF s0(3)] in simp)
  have t0: "taking F st0 rmsg" using taking_le [OF t] pwr_notegap_le [OF s0(1), of rmsg] by simp
  obtain gap st1 where s1: "new_gap st0 rmsg = Some (gap, st1)" "here F sz L st1 [gap] 0" "fixed st1 = fixed st0"
    using here_new_gap [OF h0 t0] by blast
  have sm1: "same ?stn st1" using s0(3) s1(3) by (simp add: same_fixed)
  have n1: "length (readers (rx_pwr st1)) + 4 < BIAS" using sameD(7) [OF sm1] nd n by simp
  have bL: "b \<le> L" using be(2) L(3) by simp
  let ?dst = "dst_of rst (hb_readerId hb)"
  obtain st2 d where s2: "(case filtered_dst (rx_pwr st1) ?dst of Some wn \<Rightarrow> heartbeat_filtered st1 wn gap hb
      | None \<Rightarrow> heartbeat_group cfg st1 gap b hb) = Some (st2, d)" "here F sz L st2 [gap] d" "same st1 st2"
  proof (cases "filtered_dst (rx_pwr st1) ?dst")
    case None
    with heartbeat_group_ok [OF s1(2) vv(1) be(3) bL n1, of cfg] show ?thesis using that by auto
  next
    case (Some wn)
    then have "find_reader (rx_pwr st1) ?dst = Some wn" by (auto simp: filtered_dst_def split: if_splits option.splits)
    from heartbeat_filtered_ok [OF s1(2) this, of hb] Some show ?thesis using that by auto
  qed
  obtain st3 where s3: "adjust_refs st2 [gap] d = Some st3" "here F sz L st3 [] 0" "fixed st3 = fixed st2"
    using here_adjust [OF s2(2)] by blast
  have sm: "same ?stn st3" using sm1 s2(3) same_fixed [OF s3(3)] by (meson same_trans)
  let ?f = "handle_Heartbeat_helper cfg (rx_pwr st3) hb tnow tnow_mt (hb_readerId hb \<noteq> NN_ENTITYID_UNKNOWN \<and> vendor_eclipse rst)"
  have md3: "ro_mode (pwr_reorder (pw (rx_pwr st3))) = NN_REORDER_MODE_NORMAL" using sameD(3) [OF sm] nd(2) by simp
  have "\<forall>wn\<in>set (readers (rx_pwr st3)). \<exists>wn'. ?f wn = Some wn' \<and> same_ack wn wn'"
    using helper_ok [OF _ _ md3 c] s3(2) by (auto simp: here_def mid_def)
  from forall_destinations_ok [OF this] obtain wns where
    w: "handle_forall_destinations ?dst ?f (readers (rx_pwr st3)) = Some wns" "list_all2 same_ack (readers (rx_pwr st3)) wns"
    by blast
  have "mid F sz L st3 (readers (rx_pwr st3)) [] 0 []" using s3(2) by (simp add: here_def)
  from mid_same_ack [OF this w(2)] same_ack_lists [OF w(2)]
  have "here F sz L (set_readers wns st3) [] 0 \<and> same st3 (set_readers wns st3)"
    using set_readers_ok [OF s3(2) _ refl, of F L wns "[]" 0] by blast
  note fin = this
  have smf: "same ?stn (set_readers wns st3)" using sm fin by (meson same_trans)
  have "rest F sz (set_readers wns st3)"
    using restI [OF ok, of "set_readers wns st3" F sz L] fin sameD(4,7) [OF smf] nd(1) L by simp
  moreover have "handle_Heartbeat cfg rst st rmsg hb tnow tnow_mt = Some (set_readers wns st3)"
    unfolding handle_Heartbeat_def Let_def b_def [symmetric] as option_bind_Some s0(1) s1(1) prod.case s2(1) s3(1) w(1)
    using False by simp
  ultimately show ?thesis using sameD(7) [OF smf] nd(1) by simp
qed

section \<open>Heartbeats for fragments\<close>

text \<open>The last sequence number goes up.\<close>

lemma note_last_seq_ok:
  assumes ok: "rest F sz st" and q: "seq < SEQ_END"
  shows "rest F sz (upd_pw (note_last_seq seq n) st)" "seq \<le> pwr_last_seq (pw (rx_pwr (upd_pw (note_last_seq seq n) st)))"
proof -
  let ?st = "upd_pw (note_last_seq seq n) st" and ?L = "pwr_last_seq (pw (rx_pwr st)) + 1"
  have h: "here F sz ?L st [] 0" "?L \<le> SEQ_END" using ok by (auto simp: rest_def here_def mid_def main_ok_def)
  have self: "upd_pw (\<lambda>w. w\<lparr>pwr_last_seq := pwr_last_seq w, pwr_last_fragnum := n\<rparr>) st = upd_pw (\<lambda>w. w\<lparr>pwr_last_fragnum := n\<rparr>) st"
    by simp
  have "here F sz ?L ?st [] 0"
    using here_last_seq [OF h(1), of seq n] h(1) by (cases "pwr_last_seq (pw (rx_pwr st)) < seq")
      (auto simp: note_last_seq_def here_def mid_def main_ok_def deliv_ok_def books_def owed_def)
  moreover have "?L \<le> pwr_last_seq (pw (rx_pwr ?st)) + 1" "pwr_last_seq (pw (rx_pwr ?st)) < SEQ_END"
    using h(2) q by (auto simp: note_last_seq_def)
  ultimately show "rest F sz ?st" using restI [OF ok] by simp
  show "seq \<le> pwr_last_seq (pw (rx_pwr ?st))" by (auto simp: note_last_seq_def)
qed

lemma find_same:
  assumes "distinct (map pm_guid wns)" "m \<in> set wns"
  shows "List.find (\<lambda>x. pm_guid x = pm_guid m) wns = Some m"
  using assms by (induction wns) (auto simp: image_iff)

lemma heartbeatfrag_reader_mem: "heartbeatfrag_reader p root directed dst seq = Some m \<Longrightarrow> m \<in> set (readers p)"
  by (auto simp: heartbeatfrag_reader_def find_reader_def find_Some_iff split: if_splits option.splits)

lemma put_rest:
  assumes ok: "rest F sz st" and m: "m \<in> set (readers (rx_pwr st))" and a: "same_ack m m'"
  shows "rest F sz (put_reader m' st) \<and> length (readers (rx_pwr (put_reader m' st))) = length (readers (rx_pwr st))"
proof -
  have h: "here F sz (pwr_last_seq (pw (rx_pwr st)) + 1) st [] 0" using ok by (simp add: rest_def)
  have "find_reader (rx_pwr st) (pm_guid m) = Some m"
    using find_same [OF _ m] h by (simp add: find_reader_def here_def)
  from put_same_ack [OF h this a] have p: "here F sz (pwr_last_seq (pw (rx_pwr st)) + 1) (put_reader m' st) [] 0"
    "same st (put_reader m' st)" by simp_all
  with ok sameD(4,7) [OF p(2)] show ?thesis by (simp add: rest_def)
qed

lemma handle_HeartbeatFrag_ok:
  assumes ok: "rest F sz st" and q: "seq < SEQ_END" and c: "config_ok cfg" "0 \<le> tnow_mt"
  shows "\<exists>st'. handle_HeartbeatFrag cfg rst st root rdid seq lastFragmentNum tnow_mt = Some st' \<and> rest F sz st' \<and>
    length (readers (rx_pwr st')) = length (readers (rx_pwr st))"
proof (cases "\<not> forme rst")
  case True
  with ok show ?thesis by (simp add: handle_HeartbeatFrag_def)
next
  case False
  define st0 where "st0 = upd_pw (note_last_seq seq (lastFragmentNum - 1)) st"
  note ok0 = note_last_seq_ok(1) [OF ok q, of "lastFragmentNum - 1", folded st0_def]
  have r0: "readers (rx_pwr st0) = readers (rx_pwr st)" by (simp add: st0_def)
  let ?dir = "rdid \<noteq> NN_ENTITYID_UNKNOWN \<and> vendor_eclipse rst"
  note code = handle_HeartbeatFrag_def [of cfg rst st root rdid seq lastFragmentNum tnow_mt, unfolded Let_def, folded st0_def]
  show ?thesis
  proof (cases "(\<not> have_seen_heartbeat (rx_pwr st0) \<or> readers (rx_pwr st0) = [] \<or> local_matching_inprogress (rx_pwr st0)) \<or>
      heartbeatfrag_reader (rx_pwr st0) root ?dir (dst_of rst rdid) seq = None")
    case True
    with code False ok0 r0 show ?thesis by auto
  next
    case no: False
    then obtain m where m: "heartbeatfrag_reader (rx_pwr st0) root ?dir (dst_of rst rdid) seq = Some m" by auto
    let ?m = "m\<lparr>pm_ack := (pm_ack m)\<lparr>heartbeatfrag_since_ack := True,
      directed_heartbeat := (if ?dir then True else directed_heartbeat (pm_ack m))\<rparr>\<rparr>"
    have a1: "same_ack m ?m" "same_ack m (?m\<lparr>acknack_xevent := resched_xevent_if_earlier (acknack_xevent ?m) t\<rparr>)" for t
      by (auto simp: same_ack_def alike_def resched_xevent_if_earlier_def split: option.splits)
    note put = put_rest [OF ok0 heartbeatfrag_reader_mem [OF m]]
    have dd: "defrag_ok (pwr_defrag (pw (rx_pwr st0))) (rx_refs st0)" "fields_all_ok (pwr_defrag (pw (rx_pwr st0)))"
      using ok0 mid_defrag_ok unfolding rest_def here_def mid_def main_ok_def by blast+
    have sz: "0 < NN_FRAGMENT_NUMBER_SET_MAX_BITS" "NN_FRAGMENT_NUMBER_SET_MAX_BITS \<le> 256"
      "NN_FRAGMENT_NUMBER_SET_MAX_BITS \<le> 32 * length (nackfrag_bits (scratch cfg))"
      using c(1) by (simp_all add: config_ok_def buffers_ok_def NN_FRAGMENT_NUMBER_SET_MAX_BITS_def)
    obtain res h b where n: "nn_defrag_nackmap (pwr_defrag (pw (rx_pwr st0))) seq (lastFragmentNum - 1) (nackfrag_set (scratch cfg))
        (nackfrag_bits (scratch cfg)) NN_FRAGMENT_NUMBER_SET_MAX_BITS = Some (res, h, b)"
      using nackmap_safe [OF dd sz] by blast
    obtain t where t: "ddsrt_mtime_add_duration tnow_mt (nack_delay (rc_ack cfg)) = Some t"
      using c by (simp add: config_ok_def ddsrt_mtime_add_duration_def)
    let ?last = "if rwn_filtered (pm_ack m) then rwn_last_seq (pm_ack m) else pwr_last_seq (pw (rx_pwr st0))"
    have code': "handle_HeartbeatFrag cfg rst st root rdid seq lastFragmentNum tnow_mt =
        Some (put_reader (if seq = ?last \<and> res = DEFRAG_NACKMAP_FRAGMENTS_MISSING
          then ?m\<lparr>acknack_xevent := resched_xevent_if_earlier (acknack_xevent ?m) t\<rparr> else ?m) st0)"
      using no False unfolding code m n t by simp
    then show ?thesis using put [OF a1(1)] put [OF a1(2)] r0 by (simp split: if_splits)
  qed
qed

end
