(* ===== verification/Proxy_Writer_Data.thy ===== *)
theory Proxy_Writer_Data
  imports Proxy_Writer_Handlers
begin

text \<open>
  Data: a fragment, or a whole sample, goes through the defragmenter; the complete sample goes to the reorder administration
  of the proxy writer and to those of the readers that are not in sync with it, or only to the reader with a filter that it is for.
\<close>

section \<open>Delivery\<close>

lemma trigger_deferred_simps [simp]:
  "rx_pwr (trigger_deferred st) = rx_pwr st" "rx_refs (trigger_deferred st) = rx_refs st" "fixed (trigger_deferred st) = fixed st"
  by (simp_all add: trigger_deferred_def split: option.splits)

lemma fixed_cong: "rx_pwr st' = rx_pwr st \<Longrightarrow> fixed st' = fixed st"
  by (simp add: fixed_def)

lemma deliver_data_ok:
  assumes m: "mid F sz L st wns fs adj ex" and c: "0 < res" "ex \<noteq> []" and q: "\<forall>q\<in>seqs ex. q < next_of (rx_pwr st)"
  shows "\<exists>st'. deliver_data cfg st ex res = Some st' \<and> mid F sz L st' wns fs adj [] \<and> fixed st' = fixed st"
proof (cases "deliver_synchronously (rx_pwr st)")
  case True
  then have b: "\<not> pwr_builtin (rx_pwr (trigger_deferred st))" using m by (simp add: mid_def)
  have m': "mid F sz L (trigger_deferred st) wns fs adj ex" by (rule mid_cong [OF m]) simp_all
  from deliver_synchronously_ok [OF m' b, of None cfg] q True show ?thesis by (simp add: deliver_data_def)
next
  case False
  obtain q' b where e: "nn_dqueue_enqueue_deferred_wakeup (pwr_dqueue (pw (rx_pwr st))) ex res = Some (q', b)"
    "frags_of (dq_sc q') = frags_of (dq_sc (pwr_dqueue (pw (rx_pwr st)))) @ chain_frags ex"
    using enqueue_frags(2) [OF c] by blast
  let ?st = "upd_pw (\<lambda>w. w\<lparr>pwr_dqueue := q'\<rparr>) st"
  define st2 where "st2 = (if b then (if deferred_wakeup ?st = Some (dqueue_id (rx_pwr ?st)) then ?st else trigger_deferred ?st)
    \<lparr>deferred_wakeup := Some (dqueue_id (rx_pwr ?st))\<rparr> else ?st)"
  have s2: "rx_pwr st2 = rx_pwr ?st" "rx_refs st2 = rx_refs ?st" by (simp_all add: st2_def)
  have "deliver_data cfg st ex res = Some st2"
    using e(1) False unfolding deliver_data_def st2_def by (simp add: Let_def)
  with mid_cong [OF queued_ok(1) [OF m e(2)] s2] queued_ok(2) [OF m e(2)] fixed_cong [OF s2(1)] show ?thesis by simp
qed

lemma deliver_late_ok:
  assumes m: "mid F sz L st wns fs adj ex" and c: "0 < res" "ex \<noteq> []"
  shows "\<exists>st'. deliver_late_data cfg st g ex res = Some st' \<and> mid F sz L st' wns fs adj [] \<and> fixed st' = fixed st"
proof (cases "deliver_synchronously (rx_pwr st)")
  case True
  then have "\<not> pwr_builtin (rx_pwr st)" using m by (simp add: mid_def)
  from deliver_synchronously_ok [OF m this, of "Some g" cfg] True show ?thesis by (simp add: deliver_late_data_def)
next
  case False
  define st1 where "st1 = (case deferred_wakeup st of None \<Rightarrow> st
    | Some q \<Rightarrow> if q = dqueue_id (rx_pwr st) then st else (trigger True q st)\<lparr>deferred_wakeup := None\<rparr>)"
  have s1: "rx_pwr st1 = rx_pwr st" "rx_refs st1 = rx_refs st" by (simp_all add: st1_def split: option.splits)
  have "deliver_late_data cfg st g ex res = queue_for_reader st1 g ex res"
    using False by (simp add: deliver_late_data_def st1_def)
  with queue_for_reader_ok [OF mid_cong [OF m s1] c, of g] fixed_cong [OF s1(1)] show ?thesis by simp
qed

section \<open>A complete sample\<close>

text \<open>The sample that the defragmenter returns, with its chain of fragments.\<close>

definition complete :: "rsample \<Rightarrow> rdata list \<Rightarrow> seqno \<Rightarrow> bool" where
  "complete rs fs seq \<longleftrightarrow> (\<exists>i d ds. rs = \<lparr>rs_sc = [\<lparr>sce_fragchain = fs, sce_sampleinfo = Some i\<rparr>], rs_min = seq,
     rs_maxp1 = seq + 1, rs_n_samples = 1\<rparr> \<and> si_seq i = seq \<and> fs = d # ds \<and> rd_min d = 0)"

lemma completeD:
  assumes "complete rs fs seq"
  shows "sample_in rs" "rs_min rs = seq" "elems_ok (rs_sc rs)" "chain_frags (rs_sc rs) = fs"
    "nn_rsample_fragchain rs = Some fs"
  using assms
  by (auto simp: complete_def sample_in_def elem_ok_def nn_rsample_fragchain_def rsample_is_singleton_def)

lemma complete_dup:
  assumes "complete rs fs seq" "rmsg \<in> rd_rmsg ` set fs"
  shows "nn_reorder_rsample_dup_first rmsg rs = Some rs"
proof -
  obtain i where rs: "rs = \<lparr>rs_sc = [\<lparr>sce_fragchain = fs, sce_sampleinfo = Some i\<rparr>], rs_min = seq, rs_maxp1 = seq + 1,
    rs_n_samples = 1\<rparr>" using assms(1) unfolding complete_def by blast
  have "assertion (\<exists>d\<in>set fs. rd_rmsg d = rmsg) = Some ()" using assms(2) by auto
  then show ?thesis by (simp add: rs nn_reorder_rsample_dup_first_def)
qed

text \<open>A reader that is not in sync.\<close>

lemma late_reader_ok:
  assumes m: "mid F sz L st (xs @ w # ys) fs adj []" and s: "complete rs fs seq" and sp: "span (rwn_reorder (pm_ack w))"
    and n: "in_sync (pm_ack w) \<noteq> PRMSS_SYNC" and adj: "adj + 1 < BIAS"
  shows "\<exists>st' adj' w'. late_reader cfg rs seq st adj w = Some (st', adj', w') \<and>
    mid F sz L st' (xs @ w' # ys) fs adj' [] \<and> fixed st' = fixed st \<and> adj' \<le> adj + 1 \<and> alike w w'"
proof -
  let ?r = "rwn_reorder (pm_ack w)" and ?full = "nn_dqueue_is_full (pwr_dqueue (pw (rx_pwr st)))"
  note c = completeD [OF s]
  have ok: "reorder_ok ?r" "refs_cover ?r (rx_refs st)"
    using m books_held(2) [of F "pw (rx_pwr st)" "xs @ w # ys" "rx_refs st" fs adj "[]" w]
    by (auto simp: mid_def match_ok_def)
  obtain res sc r' R' d where t: "nn_reorder_rsample ?r (rx_refs st) rs ?full = Some (res, sc, r', R', d)"
    "took ?r (rx_refs st) (rs_sc rs) {rs_min rs} (res, sc, r', R', d)"
    using sample_took [OF ok c(1) sp, of ?full] by blast
  have h: "d = 0 \<or> (\<forall>m. held_in m (chain_frags (rs_sc rs)) = held_in m fs)" using c(4) by simp
  let ?st = "st\<lparr>rx_refs := R'\<rparr>" and ?w = "set_reorder r' w"
  from reader_took [OF m t(2) c(3) adj h] have m1: "mid F sz L ?st (xs @ ?w # ys) fs (adj + d) sc" "d \<le> 1"
    "if 0 < res then sc \<noteq> [] else sc = []" by simp_all
  have fx: "fixed ?st = fixed st" by (rule fixed_cong) simp
  note code = late_reader_def [of cfg rs seq st adj w, unfolded t(1) option_bind_Some prod.case Let_def]
  show ?thesis
  proof (cases "res \<le> 0")
    case True
    with code m1 fx show ?thesis by (simp add: alike_def)
  next
    case False
    have n': "in_sync (pm_ack ?w) \<noteq> PRMSS_SYNC" using n by simp
    obtain st2 y where s2: "set_in_sync ?st ?w seq = Some (st2, set_sync y ?w)"
      "mid F sz L st2 (xs @ set_sync y ?w # ys) fs (adj + d) sc" "fixed st2 = fixed ?st"
      using set_in_sync_ok [OF m1(1) n', of seq] by blast
    have "0 < res" "sc \<noteq> []" using False m1(3) by simp_all
    from deliver_late_ok [OF s2(2) this, of cfg "pm_guid w"] obtain st3 where
      s3: "deliver_late_data cfg st2 (pm_guid w) sc res = Some st3"
      "mid F sz L st3 (xs @ set_sync y ?w # ys) fs (adj + d) []" "fixed st3 = fixed st2" by blast
    have "late_reader cfg rs seq st adj w = Some (st3, adj + d, set_sync y ?w)"
      unfolding code using False s2(1) s3(1) by simp
    moreover have "fixed st3 = fixed st" "adj + d \<le> adj + 1" using s3(3) s2(3) fx m1(2) by simp_all
    moreover have "alike w (set_sync y ?w)" by (simp add: alike_def)
    ultimately show ?thesis using s3(2) by blast
  qed
qed

lemma late_readers_ok:
  assumes "mid F sz L st (xs @ wns) fs adj []" "complete rs fs seq" "rmsg \<in> rd_rmsg ` set fs"
    and "\<forall>w\<in>set wns. span (rwn_reorder (pm_ack w))" "adj + length wns < BIAS"
  shows "\<exists>st' adj' wns'. late_readers cfg rmsg rs seq st adj wns = Some (st', adj', wns') \<and>
    mid F sz L st' (xs @ wns') fs adj' [] \<and> fixed st' = fixed st \<and> list_all2 alike wns wns'"
  using assms
proof (induction wns arbitrary: xs st adj)
  case (Cons w wns)
  obtain st1 adj1 w' where s1: "if in_sync (pm_ack w) = PRMSS_SYNC then (st1, adj1, w') = (st, adj, w)
      else late_reader cfg rs seq st adj w = Some (st1, adj1, w')"
    "mid F sz L st1 (xs @ w' # wns) fs adj1 []" "fixed st1 = fixed st" "adj1 \<le> adj + 1" "alike w w'"
  proof (cases "in_sync (pm_ack w) = PRMSS_SYNC")
    case True
    with Cons.prems(1) show ?thesis using that [of st adj w] by simp
  next
    case False
    have "span (rwn_reorder (pm_ack w))" "adj + 1 < BIAS" using Cons.prems(4,5) by simp_all
    from late_reader_ok [OF Cons.prems(1,2) this(1) False this(2), of cfg] False show ?thesis using that by auto
  qed
  have "mid F sz L st1 ((xs @ [w']) @ wns) fs adj1 []" "adj1 + length wns < BIAS" "\<forall>w\<in>set wns. span (rwn_reorder (pm_ack w))"
    using s1(2,4) Cons.prems(4,5) by simp_all
  from Cons.IH [OF this(1) Cons.prems(2,3) this(3,2)] obtain st2 adj2 wns' where
    s2: "late_readers cfg rmsg rs seq st1 adj1 wns = Some (st2, adj2, wns')"
    "mid F sz L st2 ((xs @ [w']) @ wns') fs adj2 []" "fixed st2 = fixed st1" "list_all2 alike wns wns'" by blast
  have "late_readers cfg rmsg rs seq st adj (w # wns) = Some (st2, adj2, w' # wns')"
    using s1(1) s2(1) complete_dup [OF Cons.prems(2,3)] by (cases "in_sync (pm_ack w) = PRMSS_SYNC") simp_all
  with s2 s1(3,5) show ?case by simp
qed simp

section \<open>For one reader with a filter, or for all\<close>

lemma filtered_sample_ok:
  assumes h: "here F sz L st fs 0" and wn: "find_reader (rx_pwr st) g = Some wn" and s: "complete rs fs seq"
    and sp: "span (rwn_reorder (pm_ack wn))"
  shows "\<exists>st' d. filtered_sample cfg st wn rs seq = Some (st', d) \<and> here F sz L st' fs d \<and> same st st'"
proof -
  let ?r = "rwn_reorder (pm_ack wn)" and ?full = "nn_dqueue_is_full (pwr_dqueue (pw (rx_pwr st)))"
  note c = completeD [OF s]
  obtain xs ys where r: "readers (rx_pwr st) = xs @ wn # ys" using find_reader_Some [OF wn] by blast
  have m: "mid F sz L st (xs @ wn # ys) fs 0 []" and b: "0 + 1 < BIAS"
    using h r by (simp_all add: here_def RMSG_REFCOUNT_RDATA_BIAS_def)
  have ok: "reorder_ok ?r" "refs_cover ?r (rx_refs st)"
    using m books_held(2) [of F "pw (rx_pwr st)" "xs @ wn # ys" "rx_refs st" fs 0 "[]" wn]
    by (auto simp: mid_def match_ok_def)
  obtain res sc r' R' d where t: "nn_reorder_rsample ?r (rx_refs st) rs ?full = Some (res, sc, r', R', d)"
    "took ?r (rx_refs st) (rs_sc rs) {rs_min rs} (res, sc, r', R', d)"
    using sample_took [OF ok c(1) sp, of ?full] by blast
  have hh: "d = 0 \<or> (\<forall>m. held_in m (chain_frags (rs_sc rs)) = held_in m fs)" using c(4) by simp
  let ?st = "st\<lparr>rx_refs := R'\<rparr>" and ?w = "match_last_seq seq (set_reorder r' wn)"
  from reader_took [OF m t(2) c(3) b hh, unfolded add_0] have m1: "mid F sz L ?st (xs @ set_reorder r' wn # ys) fs d sc"
    "if 0 < res then sc \<noteq> [] else sc = []" by simp_all
  have sa: "same_ack (set_reorder r' wn) ?w" by (rule match_last_seq_same_ack)
  have m2: "mid F sz L ?st (xs @ ?w # ys) fs d sc"
    by (rule mid_same_ack [OF m1(1) list_all2_middle [of same_ack, OF sa alike_refl(2)]])
  have al: "alike wn ?w" using sa by (simp add: same_ack_def alike_def)
  have r1: "readers (rx_pwr ?st) = xs @ wn # ys" using r by simp
  have "distinct (map pm_guid (readers (rx_pwr ?st)))" using h by (simp add: here_def)
  note p = put_reader_ok [OF r1 this al]
  have m3: "mid F sz L (put_reader ?w ?st) (xs @ ?w # ys) fs d sc" using p(3) m2 by blast
  obtain st2 where s2: "(if 0 < res then deliver_to_reader cfg (put_reader ?w ?st) (pm_guid wn) sc res
      else Some (put_reader ?w ?st)) = Some st2" "mid F sz L st2 (xs @ ?w # ys) fs d []" "fixed st2 = fixed (put_reader ?w ?st)"
    using deliver_reader_if [OF m3 m1(2)] by blast
  have "same st ?st" by (rule same_fixed) (simp add: fixed_def)
  then have sm: "same st st2" using p(2) same_fixed [OF s2(3)] by (meson same_trans)
  have "here F sz L st2 fs d" by (rule here_same [OF h sm]) (use fixedD(1) [OF s2(3)] p(1) s2(2) in simp)
  moreover have "filtered_sample cfg st wn rs seq = Some (st2, d)"
    unfolding filtered_sample_def t(1) option_bind_Some prod.case Let_def s2(1) ..
  ultimately show ?thesis using sm by blast
qed

text \<open>A sample that has been stored though nobody will ask for what is missing: the gap releases it.\<close>

lemma release_accepted_ok:
  assumes t: "nn_reorder_rsample (pwr_reorder (pw (rx_pwr st))) (rx_refs st) rs False = Some (NN_REORDER_ACCEPT, sc, r', R', d)"
    and ok: "reorder_ok (pwr_reorder (pw (rx_pwr st)))" "refs_cover (pwr_reorder (pw (rx_pwr st))) (rx_refs st)"
      "1 \<le> next_of (rx_pwr st)" "span (pwr_reorder (pw (rx_pwr st)))" "sample_in rs" "rs_min rs = seq"
    and st1: "st1 = upd_pw (\<lambda>w. w\<lparr>pwr_reorder := r'\<rparr>) (st\<lparr>rx_refs := R'\<rparr>)"
    and m: "mid F sz L st1 wns fs adj []" and L: "seq \<le> L" and adj: "adj + 1 < BIAS"
  shows "\<exists>res sc st'. release_accepted st1 rdata seq = Some (res, sc, st') \<and> mid F sz L st' wns fs adj sc \<and>
    fixed st' = fixed st1 \<and> (\<forall>q\<in>seqs sc. q < next_of (rx_pwr st')) \<and> (if 0 < res then sc \<noteq> [] else sc = [])"
proof -
  let ?w = "pw (rx_pwr st1)" and ?es = "[\<lparr>sce_fragchain = [rdata], sce_sampleinfo = None\<rparr>]"
  have w: "pwr_reorder ?w = r'" "rx_refs st1 = R'" by (simp_all add: st1)
  have ok1: "reorder_ok r'" "refs_cover r' R'" "1 \<le> next_seq r'"
    using m books_held(1) [of F ?w wns "rx_refs st1"] by (auto simp: mid_def main_ok_def w)
  have "1 < seq \<or> seq \<le> next_seq r'" using ok1(3) by linarith
  from gap_took [OF ok1(1,2) this, of rdata] obtain c sc2 r2 R2 d2 where
    g: "nn_reorder_gap r' R' rdata 1 seq = Some (c, sc2, r2, R2, d2)" "took r' R' ?es {1..<seq} (c, sc2, r2, R2, d2)" by blast
  have "0 < c \<and> d2 = 0 \<and> 1 < rs_min rs"
    using accepted_then_gap [OF ok(1,2,5,4) t ok1(2)] ok(3) g(1) ok(6) unfolding nn_reorder_next_seq_def by blast
  then have c: "0 < c" "d2 = 0" by simp_all
  have tk: "took (pwr_reorder ?w) (rx_refs st1) ?es {1..<seq} (c, sc2, r2, R2, 0)" using g(2) c(2) w by simp
  let ?st = "upd_pw (\<lambda>w. w\<lparr>pwr_reorder := r2\<rparr>) (st1\<lparr>rx_refs := R2\<rparr>)"
  have "{1..<seq} \<subseteq> {..<L}" "elems_ok ?es" using L by (auto simp: elem_ok_def)
  from group_took [OF m tk this adj _ refl] have
    "mid F sz L ?st wns fs adj sc2 \<and> fixed ?st = fixed st1 \<and> (\<forall>q\<in>seqs sc2. q < next_of (rx_pwr ?st)) \<and>
      (if 0 < c then sc2 \<noteq> [] else sc2 = [])" by simp
  moreover have "release_accepted st1 rdata seq = Some (c, sc2, ?st)"
    using g(1) c by (simp add: release_accepted_def group_gap_def w)
  ultimately show ?thesis by blast
qed

definition spans_ok :: "proxy_writer \<Rightarrow> bool" where
  "spans_ok p \<longleftrightarrow> span (pwr_reorder (pw p)) \<and> (\<forall>w\<in>set (readers p). span (rwn_reorder (pm_ack w)))"

lemma group_rsample_ok:
  assumes h: "here F sz L st fs 0" and s: "complete rs fs seq" and sp: "span (pwr_reorder (pw (rx_pwr st)))" and L: "seq < L"
    and t: "nn_reorder_rsample (pwr_reorder (pw (rx_pwr st))) (rx_refs st) rs False = Some (res0, sc0, r, R, d)"
    and st0: "st0 = upd_pw (\<lambda>w. w\<lparr>pwr_reorder := r\<rparr>) (st\<lparr>rx_refs := R\<rparr>)"
  shows "\<exists>res sc st1. (if res0 = NN_REORDER_ACCEPT \<and> n_reliable_readers (rx_pwr st0) = 0 then release_accepted st0 rdata seq
      else Some (res0, sc0, st0)) = Some (res, sc, st1) \<and> mid F sz L st1 (readers (rx_pwr st)) fs d sc \<and> d \<le> 1 \<and>
    fixed st1 = fixed st \<and> (\<forall>q\<in>seqs sc. q < next_of (rx_pwr st1)) \<and> (if 0 < res then sc \<noteq> [] else sc = [])"
proof -
  let ?r = "pwr_reorder (pw (rx_pwr st))" and ?wns = "readers (rx_pwr st)"
  note c = completeD [OF s]
  have m: "mid F sz L st ?wns fs 0 []" and b: "0 + 1 < BIAS" using h by (simp_all add: here_def RMSG_REFCOUNT_RDATA_BIAS_def)
  have ok: "reorder_ok ?r" "refs_cover ?r (rx_refs st)" "1 \<le> next_of (rx_pwr st)"
    using m books_held(1) [of F "pw (rx_pwr st)" ?wns "rx_refs st"] by (auto simp: mid_def main_ok_def nn_reorder_next_seq_def)
  have tk: "took ?r (rx_refs st) (rs_sc rs) {rs_min rs} (res0, sc0, r, R, d)"
    using sample_took [OF ok(1,2) c(1) sp, of False] t by auto
  have X: "{rs_min rs} \<subseteq> {..<L}" using L c(2) by simp
  have hh: "d = 0 \<or> (\<forall>m. held_in m (chain_frags (rs_sc rs)) = held_in m fs)" using c(4) by simp
  from group_took [OF m tk X c(3) b hh st0, unfolded add_0] have g: "mid F sz L st0 ?wns fs d sc0" "fixed st0 = fixed st"
    "\<forall>q\<in>seqs sc0. q < next_of (rx_pwr st0)" "d \<le> 1" "if 0 < res0 then sc0 \<noteq> [] else sc0 = []" by simp_all
  show ?thesis
  proof (cases "res0 = NN_REORDER_ACCEPT \<and> n_reliable_readers (rx_pwr st0) = 0")
    case False
    show ?thesis unfolding if_not_P [OF False]
      using g by (intro exI [of _ res0] exI [of _ sc0] exI [of _ st0]) simp
  next
    case True
    have "sc0 = []" using g(5) True by (simp add: NN_REORDER_ACCEPT_def)
    with g(1) have m0: "mid F sz L st0 ?wns fs d []" by simp
    have t': "nn_reorder_rsample ?r (rx_refs st) rs False = Some (NN_REORDER_ACCEPT, sc0, r, R, d)" using t True by simp
    have "seq \<le> L" "d + 1 < BIAS" using L g(4) by (simp_all add: RMSG_REFCOUNT_RDATA_BIAS_def)
    from release_accepted_ok [OF t' ok sp c(1,2) st0 m0 this, of rdata] True g(2,4) show ?thesis by auto
  qed
qed

lemma group_sample_ok:
  assumes h: "here F sz L st fs 0" and s: "complete rs fs seq" and sp: "spans_ok (rx_pwr st)" and L: "seq < L"
    and f: "rmsg \<in> rd_rmsg ` set fs" and n: "length (readers (rx_pwr st)) + 4 < BIAS"
  shows "\<exists>st' d. group_sample cfg st rmsg rdata rs seq = Some (st', d) \<and> here F sz L st' fs d \<and> same st st'"
proof -
  let ?r = "pwr_reorder (pw (rx_pwr st))" and ?wns = "readers (rx_pwr st)"
  have spr: "span ?r" "\<forall>w\<in>set ?wns. span (rwn_reorder (pm_ack w))" using sp by (simp_all add: spans_ok_def)
  have ok: "reorder_ok ?r" "refs_cover ?r (rx_refs st)"
    using h books_held(1) [of F "pw (rx_pwr st)" ?wns "rx_refs st"] by (auto simp: here_def mid_def main_ok_def)
  obtain res0 sc0 r R d where t: "nn_reorder_rsample ?r (rx_refs st) rs False = Some (res0, sc0, r, R, d)"
    using sample_took [OF ok completeD(1) [OF s] spr(1), of False] by blast
  define st0 where "st0 = upd_pw (\<lambda>w. w\<lparr>pwr_reorder := r\<rparr>) (st\<lparr>rx_refs := R\<rparr>)"
  from group_rsample_ok [OF h s spr(1) L t st0_def, of rdata] obtain res sc st1 where
    g: "(if res0 = NN_REORDER_ACCEPT \<and> n_reliable_readers (rx_pwr st0) = 0 then release_accepted st0 rdata seq
      else Some (res0, sc0, st0)) = Some (res, sc, st1)" "mid F sz L st1 ?wns fs d sc" "d \<le> 1" "fixed st1 = fixed st"
    "\<forall>q\<in>seqs sc. q < next_of (rx_pwr st1)" "if 0 < res then sc \<noteq> [] else sc = []" by (elim exE conjE)
  obtain st2 where s2: "(if 0 < res then deliver_data cfg st1 sc res else Some st1) = Some st2"
    "mid F sz L st2 ?wns fs d []" "fixed st2 = fixed st1"
    using deliver_data_ok [OF g(2) _ _ g(5), of res cfg] g(2,6) by (cases "0 < res") auto
  have fx: "fixed st2 = fixed st" using s2(3) g(4) by simp
  note r2 = fixedD(1) [OF fx]
  note code = group_sample_def [of cfg st rmsg rdata rs seq, unfolded t option_bind_Some prod.case Let_def,
    folded st0_def, unfolded g(1) option_bind_Some prod.case, unfolded s2(1) option_bind_Some r2]
  show ?thesis
  proof (cases "0 < n_readers_out_of_sync (rx_pwr st2)")
    case False
    have "here F sz L st2 fs d" by (rule here_same [OF h same_fixed [OF fx]]) (use s2(2) r2 in simp)
    with code False same_fixed [OF fx] show ?thesis by simp
  next
    case True
    have "mid F sz L st2 ([] @ ?wns) fs d []" "d + length ?wns < BIAS" using s2(2) g(3) n by simp_all
    from late_readers_ok [OF this(1) s f spr(2) this(2), of cfg] obtain st3 d3 wns where
      s3: "late_readers cfg rmsg rs seq st2 d ?wns = Some (st3, d3, wns)" "mid F sz L st3 wns fs d3 []" "fixed st3 = fixed st2"
      "list_all2 alike ?wns wns" by auto
    have "fixed st3 = fixed st" using s3(3) fx by simp
    from set_readers_ok [OF h s3(2) this s3(4)] code True s3(1) show ?thesis by simp
  qed
qed

section \<open>The handler\<close>

text \<open>
  What arrives: \<open>validate_Data\<close> and \<open>validate_DataFrag\<close> have accepted it, it says of the size of the sample what the
  other fragments of that sample say, and it is a fragment or the whole sample.
\<close>

definition arrives :: "(seqno \<Rightarrow> nat) \<Rightarrow> nat \<Rightarrow> rsample_info \<Rightarrow> rdata \<Rightarrow> bool" where
  "arrives sz rmsg info rdata \<longleftrightarrow> 0 < si_seq info \<and> si_seq info < SEQ_END \<and> si_size info = sz (si_seq info) \<and>
     rd_rmsg rdata = rmsg \<and>
     (rd_min rdata = 0 \<and> rd_maxp1 rdata = si_size info \<or> valid_frag rdata info \<and> fields_ok info)"

lemma delivered_complete:
  assumes "delivered f info rs"
  shows "\<exists>fs. complete rs fs (si_seq info) \<and> f \<in> set fs \<and> outfrags (Some rs) = fs"
proof -
  obtain chain inf where c: "rs = \<lparr>rs_sc = [\<lparr>sce_fragchain = chain, sce_sampleinfo = Some inf\<rparr>], rs_min = si_seq info,
      rs_maxp1 = si_seq info + 1, rs_n_samples = 1\<rparr>" "si_seq inf = si_seq info" "f \<in> set chain" "reaches 0 (si_size info) chain"
    using assms unfolding delivered_def by blast
  obtain d ds where "chain = d # ds" using c(3) by (cases chain) auto
  moreover from this c(4) have "rd_min d = 0" by (auto simp: reaches_def split: if_splits)
  ultimately have "complete rs chain (si_seq info)" using c(1,2) by (simp add: complete_def)
  then show ?thesis using c(1,3) by (auto simp: outfrags_def)
qed

text \<open>The defragmenter takes it in.\<close>

lemma rsample_arrives:
  assumes ok: "defrag_ok d R" "sized sz d" "fields_all_ok d" and a: "arrives sz rmsg info rdata" and rc: "receiving d R 1 rmsg"
  shows "\<exists>res d' R'. nn_defrag_rsample d R rdata info = Some (res, d', R') \<and> defrag_ok d' R' \<and> sized sz d' \<and>
    fields_all_ok d' \<and> conserved d R (outfrags res) d' R' \<and> (\<forall>rs. res = Some rs \<longrightarrow> delivered rdata info rs)"
proof (cases "rd_min rdata = 0 \<and> rd_maxp1 rdata = si_size info")
  case True
  have "receiving d R 1 (rd_rmsg rdata)" using rc a by (simp add: arrives_def)
  from True whole_spec [OF ok(1) _ _ receiving_receives [OF this], of info]
  obtain rs R' where "nn_defrag_rsample d R rdata info = Some (Some rs, d, R')" "defrag_ok d R'"
    "conserved d R (outfrags (Some rs)) d R'" "delivered rdata info rs"
    by blast
  with ok(2,3) show ?thesis by (intro exI [of _ "Some rs"] exI [of _ d] exI [of _ R']) simp
next
  case False
  with a have v: "valid_frag rdata info" "fields_ok info" "si_size info = sz (si_seq info)" by (auto simp: arrives_def)
  have "receiving d R 1 (rd_rmsg rdata)" using rc a by (simp add: arrives_def)
  from rsample_spec [OF ok(1) v(1) sized_consistent [OF ok(2) v(3)] this] obtain res d' R' where
    r: "nn_defrag_rsample d R rdata info = Some (res, d', R')" "defrag_ok d' R'" "conserved d R (outfrags res) d' R'"
    "\<forall>rs. res = Some rs \<longrightarrow> delivered rdata info rs" "sizes d' \<subseteq> insert (si_seq info, si_size info) (sizes d)"
    "infos d' \<subseteq> insert info (infos d)" by blast
  have "sized sz d'" using r(5) ok(2) v(3) by (fastforce simp: sized_sizes)
  moreover have "fields_all_ok d'" using r(6) ok(3) v(2) by (auto simp: fields_all_ok_def)
  ultimately show ?thesis using r(1-4) by blast
qed

lemma defrag_in:
  assumes m: "mid F sz L st wns [] 0 []" and a: "arrives sz rmsg info rdata" and t: "taking F st rmsg"
  shows "\<exists>res d R. nn_defrag_rsample (pwr_defrag (pw (rx_pwr st))) (rx_refs st) rdata info = Some (res, d, R) \<and>
    mid F sz L (upd_pw (\<lambda>w. w\<lparr>pwr_defrag := d\<rparr>) (st\<lparr>rx_refs := R\<rparr>)) wns (outfrags res) 0 [] \<and>
    (\<forall>rs. res = Some rs \<longrightarrow> delivered rdata info rs)"
proof -
  let ?w = "pw (rx_pwr st)"
  have ok: "defrag_ok (pwr_defrag ?w) (rx_refs st)" "sized sz (pwr_defrag ?w)" "fields_all_ok (pwr_defrag ?w)"
    using mid_defrag_ok [OF m] m by (simp_all add: mid_def main_ok_def)
  have b: "books F ?w wns (rx_refs st) [] 0 []" using m by (simp add: mid_def)
  obtain res d R where r: "nn_defrag_rsample (pwr_defrag ?w) (rx_refs st) rdata info = Some (res, d, R)" "defrag_ok d R"
    "sized sz d" "fields_all_ok d" "conserved (pwr_defrag ?w) (rx_refs st) (outfrags res) d R"
    "\<forall>rs. res = Some rs \<longrightarrow> delivered rdata info rs"
    using rsample_arrives [OF ok a taking_receives(2) [OF t b]] by blast
  have "R k = F k + owed (?w\<lparr>pwr_defrag := d\<rparr>) wns k + BIAS * held_in k (outfrags res)" for k
  proof -
    have "rx_refs st k = F k + owed ?w wns k" using m by (simp add: mid_def books_def)
    moreover have "R k + held_in k (allfrags (samples_of (pwr_defrag ?w))) * BIAS =
        rx_refs st k + (held_in k (allfrags (samples_of d)) + held_in k (outfrags res)) * BIAS"
      using r(5) by (simp add: conserved_def)
    ultimately show ?thesis by (simp add: owed_def algebra_simps)
  qed
  then have "books F (?w\<lparr>pwr_defrag := d\<rparr>) wns R (outfrags res) 0 []" by (simp add: books_def)
  moreover have "main_ok sz L (?w\<lparr>pwr_defrag := d\<rparr>)" using m r(2-4) by (auto simp: mid_def main_ok_def deliv_ok_def)
  ultimately show ?thesis using m r(1,6) by (simp add: mid_def)
qed

lemma notegap_reorder: "pwr_notegap st a b = Some st' \<Longrightarrow> pwr_reorder (pw (rx_pwr st')) = pwr_reorder (pw (rx_pwr st))"
  by (auto simp: pwr_notegap_def split: bind_splits)

lemma here_defrag_in:
  assumes h: "here F sz L st [] 0" and a: "arrives sz rmsg info rdata" and t: "taking F st rmsg"
  shows "\<exists>res d R. nn_defrag_rsample (pwr_defrag (pw (rx_pwr st))) (rx_refs st) rdata info = Some (res, d, R) \<and>
    here F sz L (upd_pw (\<lambda>w. w\<lparr>pwr_defrag := d\<rparr>) (st\<lparr>rx_refs := R\<rparr>)) (outfrags res) 0 \<and>
    (\<forall>rs. res = Some rs \<longrightarrow> delivered rdata info rs)"
proof -
  have m: "mid F sz L st (readers (rx_pwr st)) [] 0 []" using h by (simp add: here_def)
  obtain res d R where r: "nn_defrag_rsample (pwr_defrag (pw (rx_pwr st))) (rx_refs st) rdata info = Some (res, d, R)"
    "mid F sz L (upd_pw (\<lambda>w. w\<lparr>pwr_defrag := d\<rparr>) (st\<lparr>rx_refs := R\<rparr>)) (readers (rx_pwr st)) (outfrags res) 0 []"
    "\<forall>rs. res = Some rs \<longrightarrow> delivered rdata info rs"
    using defrag_in [OF m a t] by (elim exE conjE)
  let ?st = "upd_pw (\<lambda>w. w\<lparr>pwr_defrag := d\<rparr>) (st\<lparr>rx_refs := R\<rparr>)"
  have "same st ?st" by (rule same_fixed) (simp add: fixed_def)
  then have "here F sz L ?st (outfrags res) 0" by (rule here_same [OF h]) (use r(2) in simp)
  with r(1,3) show ?thesis by blast
qed

lemma clean_defrag_ok:
  assumes h: "here F sz L st [] 0"
  shows "\<exists>st'. clean_defrag st = Some st' \<and> here F sz L st' [] 0 \<and> fixed st' = fixed st \<and>
    pwr_reorder (pw (rx_pwr st')) = pwr_reorder (pw (rx_pwr st))"
proof -
  have m: "mid F sz L st (readers (rx_pwr st)) [] 0 []" using h by (simp add: here_def)
  obtain b where c: "clean_defrag st = pwr_notegap st 1 b" by (simp add: clean_defrag_def Let_def)
  obtain st' where s: "pwr_notegap st 1 b = Some st'" "mid F sz L st' (readers (rx_pwr st)) [] 0 []" "fixed st' = fixed st"
    using notegap_ok [OF m, of 1 b] by blast
  have "here F sz L st' [] 0"
    by (rule here_same [OF h same_fixed [OF s(3)]]) (use s(2) fixedD(1) [OF s(3)] in simp)
  with c s(1,3) notegap_reorder [OF s(1)] show ?thesis by simp
qed

text \<open>A complete sample, wherever it goes.\<close>

lemma sample_in_ok:
  assumes h: "here F sz L st fs 0" and s: "complete rs fs seq" and sp: "spans_ok (rx_pwr st)" and L: "seq < L"
    and f: "rmsg \<in> rd_rmsg ` set fs" and n: "length (readers (rx_pwr st)) + 4 < BIAS"
  shows "\<exists>st' d st2. (case filtered_dst (rx_pwr st) dst of Some wn \<Rightarrow> filtered_sample cfg st wn rs seq
      | None \<Rightarrow> group_sample cfg st rmsg rdata rs seq) = Some (st', d) \<and> adjust_refs st' fs d = Some st2 \<and>
    here F sz L st2 [] 0 \<and> same st st2"
proof -
  obtain st' d where g: "(case filtered_dst (rx_pwr st) dst of Some wn \<Rightarrow> filtered_sample cfg st wn rs seq
      | None \<Rightarrow> group_sample cfg st rmsg rdata rs seq) = Some (st', d)" "here F sz L st' fs d" "same st st'"
  proof (cases "filtered_dst (rx_pwr st) dst")
    case None
    with group_sample_ok [OF h s sp L f n, of cfg rdata] show ?thesis using that by auto
  next
    case (Some wn)
    then have wn: "find_reader (rx_pwr st) dst = Some wn" by (auto simp: filtered_dst_def split: if_splits option.splits)
    have "wn \<in> set (readers (rx_pwr st))" using find_reader_Some [OF wn] by (metis in_set_conv_decomp)
    with sp have "span (rwn_reorder (pm_ack wn))" by (simp add: spans_ok_def)
    from filtered_sample_ok [OF h wn s this, of cfg] Some show ?thesis using that by auto
  qed
  obtain st2 where "adjust_refs st' fs d = Some st2" "here F sz L st2 [] 0" "fixed st2 = fixed st'"
    using here_adjust [OF g(2)] by blast
  with g show ?thesis using same_trans [OF g(3) same_fixed] by blast
qed

lemma rest_alive:
  "rest F sz st \<Longrightarrow> rest F sz (st\<lparr>rx_pwr := (if alive (rx_pwr st) then rx_pwr st
    else (rx_pwr st)\<lparr>alive := True, alive_vclock := alive_vclock (rx_pwr st) + 1\<rparr>)\<rparr>)"
  by (cases "alive (rx_pwr st)") (simp_all add: rest_def here_def mid_def)

lemma handle_regular_ok:
  assumes ok: "rest F sz st" and a: "arrives sz rmsg info rdata" and sp: "spans_ok (rx_pwr st)" and t: "taking F st rmsg"
  shows "\<exists>st'. handle_regular cfg rst st rmsg rdid info mf rdata = Some st' \<and> rest F sz st' \<and>
    length (readers (rx_pwr st')) = length (readers (rx_pwr st))"
proof -
  define s0 where "s0 = st\<lparr>rx_pwr := (if alive (rx_pwr st) then rx_pwr st
    else (rx_pwr st)\<lparr>alive := True, alive_vclock := alive_vclock (rx_pwr st) + 1\<rparr>)\<rparr>"
  have ok0: "rest F sz s0" "readers (rx_pwr s0) = readers (rx_pwr st)" "spans_ok (rx_pwr s0)"
    using rest_alive [OF ok] sp by (simp_all add: s0_def spans_ok_def)
  have q: "si_seq info < SEQ_END" using a by (simp add: arrives_def)
  define s1 where "s1 = upd_pw (note_last_seq (si_seq info) mf) s0"
  note n1 = note_last_seq_ok [OF ok0(1) q, of mf, folded s1_def]
  have s1: "readers (rx_pwr s1) = readers (rx_pwr st)" "spans_ok (rx_pwr s1)"
    using ok0 by (simp_all add: s1_def spans_ok_def note_last_seq_def)
  let ?L = "pwr_last_seq (pw (rx_pwr s1)) + 1"
  have h1: "here F sz ?L s1 [] 0" using n1(1) by (simp add: rest_def)
  obtain s2 where s2: "clean_defrag s1 = Some s2" "here F sz ?L s2 [] 0" "fixed s2 = fixed s1"
    "pwr_reorder (pw (rx_pwr s2)) = pwr_reorder (pw (rx_pwr s1))"
    using clean_defrag_ok [OF h1] by blast
  have "rx_refs s1 = rx_refs st" by (simp add: s1_def s0_def)
  then have t2: "taking F s2 rmsg" using taking_le [OF t] clean_defrag_le [OF s2(1), of rmsg] by simp
  obtain res d R where r: "nn_defrag_rsample (pwr_defrag (pw (rx_pwr s2))) (rx_refs s2) rdata info = Some (res, d, R)"
    "here F sz ?L (upd_pw (\<lambda>w. w\<lparr>pwr_defrag := d\<rparr>) (s2\<lparr>rx_refs := R\<rparr>)) (outfrags res) 0"
    "\<forall>rs. res = Some rs \<longrightarrow> delivered rdata info rs"
    using here_defrag_in [OF s2(2) a t2] by (elim exE conjE)
  define s3 where "s3 = upd_pw (\<lambda>w. w\<lparr>pwr_defrag := d\<rparr>) (s2\<lparr>rx_refs := R\<rparr>)"
  have hin: "here F sz ?L s3 (outfrags res) 0" unfolding s3_def by (rule r(2))
  have s3: "readers (rx_pwr s3) = readers (rx_pwr st)" "pwr_last_seq (pw (rx_pwr s3)) + 1 = ?L" "spans_ok (rx_pwr s3)"
    using fixedD(1,7) [OF s2(3)] s2(4) s1 by (simp_all add: s3_def spans_ok_def)
  have n3: "length (readers (rx_pwr s3)) + 4 < BIAS" "?L \<le> SEQ_END"
    using ok s3(1) n1(1) by (auto simp: rest_def here_def mid_def main_ok_def)
  note code = handle_regular_def [of cfg rst st rmsg rdid info mf rdata, unfolded Let_def, folded s0_def, folded s1_def,
    unfolded s2(1) option_bind_Some r(1) prod.case, folded s3_def]
  show ?thesis
  proof (cases "no_heartbeat_yet rst (rx_pwr s0) \<or> readers (rx_pwr s0) = [] \<or> local_matching_inprogress (rx_pwr s0)")
    case True
    with code ok0 show ?thesis by simp
  next
    case False
    show ?thesis
    proof (cases res)
      case None
      have "rest F sz s3" using restI [OF n1(1), of s3 F sz ?L] hin s3 s1(1) n3(2) None by (simp add: outfrags_def)
      with code False None s3(1) show ?thesis by simp
    next
      case (Some rs)
      obtain fs where c: "complete rs fs (si_seq info)" "rdata \<in> set fs" "outfrags res = fs"
        using delivered_complete [of rdata info rs] r(3) Some by blast
      have h3: "here F sz ?L s3 fs 0" using hin c(3) by simp
      have "si_seq info < ?L" "rmsg \<in> rd_rmsg ` set fs" using n1(2) c(2) a by (auto simp: arrives_def)
      from sample_in_ok [OF h3 c(1) s3(3) this n3(1), where dst = "dst_of rst rdid" and cfg = cfg and rdata = rdata] obtain s4 dd s5 where
        g: "(case filtered_dst (rx_pwr s3) (dst_of rst rdid) of Some wn \<Rightarrow> filtered_sample cfg s3 wn rs (si_seq info)
          | None \<Rightarrow> group_sample cfg s3 rmsg rdata rs (si_seq info)) = Some (s4, dd)" "adjust_refs s4 fs dd = Some s5"
          "here F sz ?L s5 [] 0" "same s3 s5" by (elim exE conjE)
      have "rest F sz s5" using restI [OF n1(1), of s5 F sz ?L] g(3) sameD(4,7) [OF g(4)] s3 s1(1) n3(2) by simp
      moreover have "handle_regular cfg rst st rmsg rdid info mf rdata = Some s5"
        using False Some g(1,2) completeD(5) [OF c(1)] unfolding code by simp
      ultimately show ?thesis using sameD(7) [OF g(4)] s3(1) by simp
    qed
  qed
qed

end
