(* ===== verification/Message.thy ===== *)
theory Message
  imports Message_Model Proxy_Writer_Data
begin

text \<open>
  The validation of messages: it stays within the submessage whatever the bytes are, and what it accepts has fields in range. Together
  this is said of every call that a packet leads to (\<open>call_ok\<close>).
\<close>

section \<open>Fields\<close>

definition fieldv :: "bool \<Rightarrow> nat \<Rightarrow> nat \<Rightarrow> bytes \<Rightarrow> nat" where
  "fieldv big n off m = le_nat (let bs = take n (drop off m) in if big then rev bs else bs)"

lemma field_in [simp]: "off + n \<le> length m \<Longrightarrow> field big n off m = Some (fieldv big n off m)"
  by (simp add: field_def fieldv_def)

lemma le_nat_bound: "le_nat bs < 256 ^ length bs"
proof (induction bs)
  case (Cons b bs)
  have "unat b < 256" using unsigned_less [of b] by simp
  with Cons show ?case by simp
qed simp

lemma fieldv_bound: "off + n \<le> length m \<Longrightarrow> fieldv big n off m < 256 ^ n"
  using le_nat_bound [of "let bs = take n (drop off m) in if big then rev bs else bs"]
  by (simp add: fieldv_def Let_def split: if_splits)

lemmas field_defs = u8_at_def nn_ntoh_entityid_def nn_ntoh_guid_prefix_def

definition SNv :: "bool \<Rightarrow> nat \<Rightarrow> bytes \<Rightarrow> seqno" where
  "SNv big off m = fieldv big 4 off m * 2 ^ 32 + fieldv big 4 (off + 4) m"

lemma fromSN_in [simp]: "off + 8 \<le> length m \<Longrightarrow> fromSN big off m = Some (SNv big off m)"
  by (simp add: fromSN_def SNv_def)

lemma SNv_bound: "off + 8 \<le> length m \<Longrightarrow> SNv big off m < 2 ^ 64"
  using fieldv_bound [of off 4 m big] fieldv_bound [of "off + 4" 4 m big] by (simp add: SNv_def)

lemma valid_SN_iff: "s < 2 ^ 64 \<Longrightarrow> valid_SN s \<longleftrightarrow> 1 \<le> s \<and> s < 2 ^ 63"
  by (cases "s = 0") (auto simp: valid_SN_def MAX_SEQ_NUMBER_def mod_if)

lemma bitmap_at_in: "off + 4 * n \<le> length m \<Longrightarrow> \<exists>ws. bitmap_at big n off m = Some ws \<and> length ws = n"
proof (induction n arbitrary: off)
  case (Suc n)
  then have "off + 4 + 4 * n \<le> length m" by simp
  from Suc.IH [OF this] obtain ws where "bitmap_at big n (off + 4) m = Some ws" "length ws = n" by blast
  with Suc.prems show ?case by simp
qed simp

lemma words_cover: "n \<le> 32 * ((n + 31) div 32)" for n :: nat
  by presburger

section \<open>The inline QoS\<close>

lemma scan_param_in: "pl + len \<le> length m \<Longrightarrow> \<exists>r. scan_param pid len pl m q = Some r"
  by (auto simp: scan_param_def)

lemma quickscan_loop_in:
  "\<exists>r. quickscan_loop big m pl q = Some r \<and> (\<forall>p q'. r = Some (p, q') \<longrightarrow> pl + 4 \<le> p \<and> p \<le> length m)"
proof (induction big m pl q rule: quickscan_loop.induct)
  case (1 big m pl q)
  let ?pid = "fieldv big 2 pl m" and ?len = "fieldv big 2 (pl + 2) m"
  show ?case
  proof (cases "length m < pl + 4 \<or> ?pid = 1 \<or> length m - (pl + 4) < ?len \<or> ?len mod 4 \<noteq> 0")
    case True
    then show ?thesis by (subst quickscan_loop.simps) auto
  next
    case False
    then have l: "\<not> length m < pl + 4" "?pid \<noteq> 1" "\<not> length m - (pl + 4) < ?len" "\<not> ?len mod 4 \<noteq> 0"
      by blast+
    have "pl + 4 + ?len \<le> length m" using l by linarith
    from scan_param_in [OF this] obtain r where r: "scan_param ?pid ?len (pl + 4) m q = Some r" by blast
    have code: "quickscan_loop big m pl q = (case r of None \<Rightarrow> Some None | Some q' \<Rightarrow> quickscan_loop big m (pl + 4 + ?len) q')"
      using l r by (subst quickscan_loop.simps) (simp del: add_2_eq_Suc')
    show ?thesis
    proof (cases r)
      case None
      with code show ?thesis by simp
    next
      case (Some q')
      have "\<exists>r. quickscan_loop big m (pl + 4 + ?len) q' = Some r \<and>
          (\<forall>p q'. r = Some (p, q') \<longrightarrow> pl + 4 + ?len + 4 \<le> p \<and> p \<le> length m)"
        using 1 [OF l(1) _ _ l(2,3,4) r Some] l by simp
      with code Some show ?thesis by fastforce
    qed
  qed
qed

lemma inline_qos_in:
  assumes "ptr + 4 \<le> length m"
  shows "\<exists>r. inline_qos big flags m ptr = Some r \<and> (\<forall>p q. r = Some (p, q) \<longrightarrow> ptr \<le> p \<and> p \<le> length m)"
proof (cases "flag flags 1")
  case True
  with quickscan_loop_in [of big m ptr no_qos] show ?thesis by (force simp: inline_qos_def ddsi_plist_quickscan_def)
next
  case False
  with assms show ?thesis by (simp add: inline_qos_def)
qed

section \<open>The submessages\<close>

text \<open>What a validation gives: a result, and if it accepts, a message with this property.\<close>

definition checks :: "'a validation_result option \<Rightarrow> ('a \<Rightarrow> bool) \<Rightarrow> bool" where
  "checks v P \<longleftrightarrow> (\<exists>r. v = Some r \<and> (\<forall>x. r = VR_ACCEPT x \<longrightarrow> P x))"

lemma checks_simps [simp]:
  "checks (Some VR_MALFORMED) P" "checks (Some VR_NOT_UNDERSTOOD) P" "checks (Some (VR_ACCEPT x)) P \<longleftrightarrow> P x"
  by (simp_all add: checks_def)

lemma checks_if: "(b \<Longrightarrow> checks v P) \<Longrightarrow> (\<not> b \<Longrightarrow> checks w P) \<Longrightarrow> checks (if b then v else w) P"
  by simp

lemma checks_ids:
  "(ddsi_is_writer_entityid wrid \<Longrightarrow> ddsi_is_reader_entityid rdid \<Longrightarrow> P x) \<Longrightarrow>
    checks (Some (validate_writer_and_reader_entityid wrid rdid x)) P"
  "(ddsi_is_writer_entityid wrid \<Longrightarrow> P x) \<Longrightarrow>
    checks (Some (validate_writer_and_reader_or_null_entityid wrid rdid x)) P"
  by (simp_all add: validate_writer_and_reader_entityid_def validate_writer_and_reader_or_null_entityid_def)

definition AckNack_ok :: "AckNack \<Rightarrow> bool" where
  "AckNack_ok a \<longleftrightarrow> 1 \<le> akn_base a \<and> akn_base a + akn_numbits a \<le> MAX_SEQ_NUMBER \<and> akn_numbits a \<le> 256 \<and>
     length (akn_bits a) = (akn_numbits a + 31) div 32"

lemma set_in_range:
  assumes "valid_sequence_number_set b n" "b < 2 ^ 64"
  shows "1 \<le> b" "b + n \<le> MAX_SEQ_NUMBER" "n \<le> 256"
proof -
  have v: "1 \<le> b" "b < 2 ^ 63" using assms by (simp_all add: valid_sequence_number_set_def valid_SN_iff)
  then show "1 \<le> b" by simp
  have "n \<le> MAX_SEQ_NUMBER - b" "n \<le> 256" using assms by (simp_all add: valid_sequence_number_set_def)
  with v show "b + n \<le> MAX_SEQ_NUMBER" "n \<le> 256" unfolding MAX_SEQ_NUMBER_def by linarith+
qed

lemma validate_AckNack_checks: "checks (validate_AckNack c rst big m) AckNack_ok"
proof (cases "length m < ACKNACK_SIZE 0")
  case False
  let ?b = "SNv big 12 m" and ?n = "fieldv big 4 20 m"
  let ?valid = "valid_sequence_number_set ?b ?n"
  let ?patch = "\<not> strict c \<and> ?b = 0 \<and> ?n = 0 \<and> (vendor_is_eprosima (rs_vendor rst) \<or> vendor_is_rti (rs_vendor rst))"
  have l: "28 \<le> length m" using False by (simp add: ACKNACK_SIZE_def BITS_SIZE_def)
  have bd: "?b < 2 ^ 64" using l by (intro SNv_bound) simp
  show ?thesis
  proof (cases "\<not> ?valid \<and> \<not> ?patch \<or> length m < ACKNACK_SIZE ?n")
    case True
    with False l show ?thesis by (auto simp: validate_AckNack_def field_defs Let_def)
  next
    case ok: False
    then have sz: "\<not> length m < ACKNACK_SIZE ?n" and v: "?valid \<or> ?patch" by blast+
    then have "24 + 4 * ((?n + 31) div 32) \<le> length m" by (simp add: ACKNACK_SIZE_def BITS_SIZE_def)
    from bitmap_at_in [OF this, of big] obtain ws
      where ws: "bitmap_at big ((?n + 31) div 32) 24 m = Some ws" "length ws = (?n + 31) div 32" by blast
    have r: "1 \<le> (if ?valid then ?b else 1)" "(if ?valid then ?b else 1) + ?n \<le> MAX_SEQ_NUMBER" "?n \<le> 256"
      using v set_in_range [OF _ bd, of ?n] by (auto simp: MAX_SEQ_NUMBER_def)
    let ?a = "\<lparr>akn_readerId = fieldv True 4 4 m, akn_writerId = fieldv True 4 8 m, akn_base = (if ?valid then ?b else 1),
      akn_numbits = ?n, akn_bits = ws, akn_count = fieldv big 4 (24 + BITS_SIZE ?n) m\<rparr>"
    have a: "AckNack_ok ?a" using r ws(2) by (simp only: AckNack_ok_def AckNack.simps simp_thms)
    have cnt: "24 + BITS_SIZE ?n + 4 \<le> length m" using sz by (simp add: ACKNACK_SIZE_def)
    have c: "validate_AckNack c rst big m =
        Some (validate_writer_and_reader_entityid (fieldv True 4 8 m) (fieldv True 4 4 m) ?a)"
    proof (cases ?valid)
      case True
      with False l sz ws(1) cnt show ?thesis by (simp add: validate_AckNack_def field_defs)
    next
      case inv: False
      with v have "?patch" by blast
      with inv False l sz ws(1) cnt show ?thesis by (auto simp add: validate_AckNack_def field_defs)
    qed
    from a show ?thesis unfolding c by (rule checks_ids(1))
  qed
qed (simp add: validate_AckNack_def)

lemma validate_Gap_checks:
  "checks (validate_Gap big m) (\<lambda>g. valid_gap (gap_start g) (gap_base g) (gap_numbits g) (gap_bits g))"
proof (cases "length m < GAP_SIZE 0")
  case False
  let ?s = "SNv big 12 m" and ?b = "SNv big 20 m" and ?n = "fieldv big 4 28 m"
  have l: "32 \<le> length m" using False by (simp add: GAP_SIZE_def BITS_SIZE_def)
  have bd: "?b < 2 ^ 64" "?s < 2 ^ 64" using l SNv_bound [of 20 m big] SNv_bound [of 12 m big] by simp_all
  show ?thesis
  proof (cases "\<not> valid_SN ?s \<or> \<not> valid_sequence_number_set ?b ?n \<or> length m < GAP_SIZE ?n")
    case True
    with False l show ?thesis by (auto simp: validate_Gap_def field_defs)
  next
    case ok: False
    then have sz: "\<not> length m < GAP_SIZE ?n" and v: "valid_SN ?s" "valid_sequence_number_set ?b ?n" by blast+
    have "32 + 4 * ((?n + 31) div 32) \<le> length m" using sz by (simp add: GAP_SIZE_def BITS_SIZE_def)
    from bitmap_at_in [OF this, of big] obtain ws
      where ws: "bitmap_at big ((?n + 31) div 32) 32 m = Some ws" "length ws = (?n + 31) div 32" by blast
    have "1 \<le> ?s" using v(1) bd(2) by (simp add: valid_SN_iff)
    with set_in_range [OF v(2) bd(1)] ws(2) words_cover [of ?n]
    have g: "valid_gap (if ?b < ?s then ?b else ?s) ?b ?n ws" by (simp add: valid_gap_def SEQ_END_def MAX_SEQ_NUMBER_def)
    have c: "validate_Gap big m = Some (validate_writer_and_reader_or_null_entityid (fieldv True 4 8 m) (fieldv True 4 4 m)
        \<lparr>gap_readerId = fieldv True 4 4 m, gap_writerId = fieldv True 4 8 m,
         gap_start = (if ?b < ?s then ?b else ?s), gap_base = ?b, gap_numbits = ?n, gap_bits = ws\<rparr>)"
      using False l sz v ws(1) by (simp add: validate_Gap_def field_defs)
    show ?thesis unfolding c by (rule checks_ids(2)) (use g in simp)
  qed
qed (simp add: validate_Gap_def)

lemma validate_InfoDST_checks: "checks (validate_InfoDST m) (\<lambda>_. True)"
  by (simp add: validate_InfoDST_def field_defs)

lemma validate_InfoSRC_checks: "checks (validate_InfoSRC m) (\<lambda>_. True)"
  by (simp add: validate_InfoSRC_def field_defs)

lemma validate_InfoTS_checks: "4 \<le> length m \<Longrightarrow> checks (validate_InfoTS big m) (\<lambda>_. True)"
  by (simp add: validate_InfoTS_def field_defs)

definition Heartbeat_ok :: "Heartbeat \<Rightarrow> bool" where
  "Heartbeat_ok hb \<longleftrightarrow> 1 \<le> hb_firstSN hb \<and> hb_firstSN hb \<le> hb_lastSN hb + 1 \<and> hb_lastSN hb < 2 ^ 64"

lemma validate_Heartbeat_checks: "checks (validate_Heartbeat big m) (\<lambda>(wrid, hb). Heartbeat_ok hb)"
proof (cases "length m < 32")
  case False
  let ?f = "SNv big 12 m" and ?l = "SNv big 20 m"
  have bd: "?l < 2 ^ 64" using False by (intro SNv_bound) simp
  show ?thesis
  proof (cases "?f = 0 \<or> ?l < ?f - 1")
    case True
    with False show ?thesis by (auto simp: validate_Heartbeat_def field_defs)
  next
    case ok: False
    then have ok': "?f \<noteq> 0" "\<not> ?l < ?f - 1" by simp_all
    let ?hb = "\<lparr>hb_firstSN = ?f, hb_lastSN = ?l, hb_count = word_of_nat (fieldv big 4 28 m),
      hb_final = flag (fieldv False 1 1 m) 1, hb_readerId = fieldv True 4 4 m\<rparr>"
    have h: "Heartbeat_ok ?hb" using ok' bd by (simp add: Heartbeat_ok_def)
    have c: "validate_Heartbeat big m = Some (validate_writer_and_reader_or_null_entityid (fieldv True 4 8 m) (fieldv True 4 4 m)
        (fieldv True 4 8 m, ?hb))"
      using False ok' by (simp add: validate_Heartbeat_def field_defs)
    show ?thesis unfolding c by (rule checks_ids(2)) (use h in simp)
  qed
qed (simp add: validate_Heartbeat_def)

definition HeartbeatFrag_ok :: "HeartbeatFrag \<Rightarrow> bool" where
  "HeartbeatFrag_ok h \<longleftrightarrow> 1 \<le> hbf_writerSN h \<and> hbf_writerSN h < 2 ^ 64 \<and> 1 \<le> hbf_lastFragmentNum h"

lemma validate_HeartbeatFrag_checks: "checks (validate_HeartbeatFrag big m) HeartbeatFrag_ok"
proof (cases "length m < 28")
  case False
  let ?f = "SNv big 12 m" and ?l = "fieldv big 4 20 m"
  have bd: "?f < 2 ^ 64" using False by (intro SNv_bound) simp
  show ?thesis
  proof (cases "?f = 0 \<or> ?l = 0")
    case True
    with False show ?thesis by (auto simp: validate_HeartbeatFrag_def field_defs)
  next
    case ok: False
    then have ok': "?f \<noteq> 0" "?l \<noteq> 0" by simp_all
    let ?h = "\<lparr>hbf_readerId = fieldv True 4 4 m, hbf_writerId = fieldv True 4 8 m, hbf_writerSN = ?f,
      hbf_lastFragmentNum = ?l, hbf_count = fieldv big 4 24 m\<rparr>"
    have h: "HeartbeatFrag_ok ?h" using ok' bd by (simp add: HeartbeatFrag_ok_def)
    have c: "validate_HeartbeatFrag big m =
        Some (validate_writer_and_reader_or_null_entityid (fieldv True 4 8 m) (fieldv True 4 4 m) ?h)"
      using False ok' by (simp add: validate_HeartbeatFrag_def field_defs)
    show ?thesis unfolding c by (rule checks_ids(2)) (use h in simp)
  qed
qed (simp add: validate_HeartbeatFrag_def)

definition NackFrag_ok :: "NackFrag \<Rightarrow> bool" where
  "NackFrag_ok n \<longleftrightarrow> 1 \<le> nkf_base n \<and> nkf_base n + nkf_numbits n \<le> UINT32_MAX \<and> nkf_numbits n \<le> 256 \<and>
     length (nkf_bits n) = (nkf_numbits n + 31) div 32"

lemma validate_NackFrag_checks: "checks (validate_NackFrag big m) NackFrag_ok"
proof (cases "length m < NACKFRAG_SIZE 0")
  case False
  let ?b = "fieldv big 4 20 m" and ?n = "fieldv big 4 24 m"
  have l: "32 \<le> length m" using False by (simp add: NACKFRAG_SIZE_def BITS_SIZE_def)
  have bd: "?b < 2 ^ 32" using l fieldv_bound [of 20 4 m big] by simp
  show ?thesis
  proof (cases "\<not> valid_fragment_number_set ?b ?n \<or> length m < NACKFRAG_SIZE ?n")
    case True
    with False l show ?thesis by (auto simp: validate_NackFrag_def field_defs)
  next
    case ok: False
    then have sz: "\<not> length m < NACKFRAG_SIZE ?n" and v: "valid_fragment_number_set ?b ?n" by blast+
    have "28 + 4 * ((?n + 31) div 32) \<le> length m" using sz by (simp add: NACKFRAG_SIZE_def BITS_SIZE_def)
    from bitmap_at_in [OF this, of big] obtain ws
      where ws: "bitmap_at big ((?n + 31) div 32) 28 m = Some ws" "length ws = (?n + 31) div 32" by blast
    have "?b \<le> UINT32_MAX" using bd by (simp add: UINT32_MAX_def)
    then have r: "1 \<le> ?b" "?b + ?n \<le> UINT32_MAX" "?n \<le> 256" using v unfolding valid_fragment_number_set_def by linarith+
    let ?x = "\<lparr>nkf_readerId = fieldv True 4 4 m, nkf_writerId = fieldv True 4 8 m, nkf_writerSN = SNv big 12 m, nkf_base = ?b,
      nkf_numbits = ?n, nkf_bits = ws, nkf_count = fieldv big 4 (28 + BITS_SIZE ?n) m\<rparr>"
    have x: "NackFrag_ok ?x" using r ws(2) by (simp only: NackFrag_ok_def NackFrag.simps simp_thms)
    have cnt: "28 + BITS_SIZE ?n + 4 \<le> length m" using sz by (simp add: NACKFRAG_SIZE_def)
    have c: "validate_NackFrag big m =
        Some (validate_writer_and_reader_entityid (fieldv True 4 8 m) (fieldv True 4 4 m) ?x)"
      using False l sz v ws(1) cnt by (simp add: validate_NackFrag_def field_defs)
    from x show ?thesis unfolding c by (rule checks_ids(1))
  qed
qed (simp add: validate_NackFrag_def)

section \<open>Data\<close>

text \<open>The payload, if there is one, lies in the submessage and has room for its header.\<close>

definition Data_ok :: "nat \<Rightarrow> Data \<Rightarrow> bool" where
  "Data_ok n d \<longleftrightarrow> ddsi_is_writer_entityid (dat_writerId d) \<and> 1 \<le> si_seq (dat_info d) \<and> si_seq (dat_info d) < SEQ_END \<and>
     (\<forall>ptr. dat_payload d = Some ptr \<longrightarrow> ptr + dat_payloadsz d = n)"

lemma seq_range: "valid_SN s \<Longrightarrow> s < 2 ^ 64 \<Longrightarrow> 1 \<le> s \<and> s < SEQ_END"
  by (simp add: valid_SN_iff SEQ_END_def)

lemma validate_Data_checks:
  "checks (validate_Data rst ts big m)
    (\<lambda>d. Data_ok (length m) d \<and> (\<forall>ptr. dat_payload d = Some ptr \<longrightarrow> ptr + 4 \<le> length m))"
proof (cases "length m < 24")
  case False
  let ?f = "fieldv False 1 1 m" and ?o = "fieldv big 2 6 m" and ?s = "SNv big 16 m"
  let ?rd = "fieldv True 4 8 m" and ?wr = "fieldv True 4 12 m"
  let ?P = "\<lambda>d. Data_ok (length m) d \<and> (\<forall>ptr. dat_payload d = Some ptr \<longrightarrow> ptr + 4 \<le> length m)"
  define accept where "accept = (\<lambda>sz (qos :: quickscan) payload. Some (validate_writer_and_reader_or_null_entityid ?wr ?rd
    \<lparr>dat_readerId = ?rd, dat_writerId = ?wr, dat_info = sample_info rst ?s sz 0 ts (qs_statusinfo qos),
     dat_complex_qos = qs_complex_qos qos, dat_keyhash = qs_keyhash qos, dat_payload = payload, dat_payloadsz = sz\<rparr>))"
  have bd: "?s < 2 ^ 64" using False by (intro SNv_bound) simp
  have acc: "checks (accept sz qos payload) ?P"
    if "valid_SN ?s" "\<forall>ptr. payload = Some ptr \<longrightarrow> ptr + sz = length m \<and> ptr + 4 \<le> length m" for sz qos payload
    unfolding accept_def by (rule checks_ids(2)) (use seq_range [OF that(1) bd] that(2) in \<open>simp add: Data_ok_def sample_info_def\<close>)
  have code: "validate_Data rst ts big m =
     (if flag ?f 2 \<and> flag ?f 3 then Some VR_MALFORMED
      else if ?o mod 4 \<noteq> 0 then Some VR_MALFORMED
      else if \<not> valid_SN ?s then Some VR_MALFORMED
      else if \<not> flag ?f 1 \<and> \<not> flag ?f 2 \<and> \<not> flag ?f 3 then accept 0 no_qos None
      else if length m < 8 + ?o + 4 then Some VR_MALFORMED
      else do {
        scan \<leftarrow> inline_qos big ?f m (8 + ?o);
        (case scan of
           None \<Rightarrow> Some VR_MALFORMED
         | Some (ptr, qos) \<Rightarrow>
             if \<not> flag ?f 2 \<and> \<not> flag ?f 3 then accept 0 qos None
             else if length m < ptr + 4 then Some VR_MALFORMED
             else accept (length m - ptr) qos (Some ptr)) })"
    using False unfolding accept_def by (simp add: validate_Data_def field_defs Let_def)
  have last: "checks (do {
        scan \<leftarrow> inline_qos big ?f m (8 + ?o);
        (case scan of
           None \<Rightarrow> Some VR_MALFORMED
         | Some (ptr, qos) \<Rightarrow>
             if \<not> flag ?f 2 \<and> \<not> flag ?f 3 then accept 0 qos None
             else if length m < ptr + 4 then Some VR_MALFORMED
             else accept (length m - ptr) qos (Some ptr)) }) ?P"
    if v: "valid_SN ?s" and l: "\<not> length m < 8 + ?o + 4"
  proof -
    obtain r where r: "inline_qos big ?f m (8 + ?o) = Some r" "\<forall>p q. r = Some (p, q) \<longrightarrow> 8 + ?o \<le> p \<and> p \<le> length m"
      using inline_qos_in [of "8 + ?o" m big ?f] l by auto
    show ?thesis
    proof (cases r)
      case None
      with r show ?thesis by simp
    next
      case (Some pq)
      obtain p q where pq: "pq = (p, q)" by (cases pq)
      have "checks (if \<not> flag ?f 2 \<and> \<not> flag ?f 3 then accept 0 q None
             else if length m < p + 4 then Some VR_MALFORMED else accept (length m - p) q (Some p)) ?P"
        by (intro checks_if acc v checks_simps(1)) auto
      with r Some pq show ?thesis by simp
    qed
  qed
  show ?thesis unfolding code by (intro checks_if checks_simps(1) acc last) auto
qed (simp add: validate_Data_def)

text \<open>What is known of a fragment.\<close>

lemma if_merge: "(if a then x else if b then x else y) = (if a \<or> b then x else y)"
  by simp

definition DataFrag_ok :: "nat \<Rightarrow> DataFrag \<Rightarrow> bool" where
  "DataFrag_ok n d \<longleftrightarrow> Data_ok n (dfr_data d) \<and> si_size (dat_info (dfr_data d)) = sampleSize d \<and>
     si_fragsize (dat_info (dfr_data d)) = fragmentSize d \<and>
     1 \<le> fragmentSize d \<and> fragmentSize d < 2 ^ 16 \<and> 1 \<le> fragmentsInSubmessage d \<and> fragmentsInSubmessage d < 2 ^ 16 \<and>
     1 \<le> fragmentStartingNum d \<and> fragmentStartingNum d + fragmentsInSubmessage d \<le> UINT32_MAX \<and>
     (fragmentStartingNum d + fragmentsInSubmessage d - 2) * fragmentSize d < sampleSize d \<and> sampleSize d < 2 ^ 32 \<and>
     payload_ok (fragmentStartingNum d) (fragmentsInSubmessage d) (fragmentSize d) (sampleSize d) (dat_payloadsz (dfr_data d)) \<and>
     (\<exists>ptr. dat_payload (dfr_data d) = Some ptr \<and> (fragmentStartingNum d = 1 \<longrightarrow> ptr + 4 \<le> n))"

lemma validate_DataFrag_checks: "checks (validate_DataFrag c rst ts big m) (DataFrag_ok (length m))"
proof (cases "length m < 36")
  case False
  let ?f = "fieldv False 1 1 m" and ?o = "fieldv big 2 6 m" and ?s = "SNv big 16 m"
  let ?rd = "fieldv True 4 8 m" and ?wr = "fieldv True 4 12 m"
  let ?start = "fieldv big 4 24 m" and ?cnt = "fieldv big 2 28 m" and ?fs = "fieldv big 2 30 m" and ?sz = "fieldv big 4 32 m"
  have bd: "?s < 2 ^ 64" "?start < 2 ^ 32" "?cnt < 2 ^ 16" "?fs < 2 ^ 16" "?sz < 2 ^ 32"
    using False SNv_bound [of 16 m big] fieldv_bound [of 24 4 m big] fieldv_bound [of 28 2 m big] fieldv_bound [of 30 2 m big]
      fieldv_bound [of 32 4 m big] by simp_all
  define bad where "bad \<longleftrightarrow> ?o mod 4 \<noteq> 0 \<or> strict c \<and> ?fs \<le> 1024 \<and> ?fs < fragment_size c \<or>
    ?fs = 0 \<or> ?start = 0 \<or> ?cnt = 0 \<or> UINT32_MAX - ?start < ?cnt \<or> strict c \<and> ?sz \<le> ?fs \<or>
    ?sz \<le> (?start + ?cnt - 2) * ?fs \<or> \<not> valid_SN ?s \<or> length m < 8 + ?o + 4"
  define dat where "dat = (\<lambda>ptr qos. \<lparr>dfr_data = \<lparr>dat_readerId = ?rd, dat_writerId = ?wr,
      dat_info = sample_info rst ?s ?sz ?fs ts (qs_statusinfo qos), dat_complex_qos = qs_complex_qos (qos :: quickscan),
      dat_keyhash = qs_keyhash qos, dat_payload = Some ptr, dat_payloadsz = length m - ptr\<rparr>,
    fragmentStartingNum = ?start, fragmentsInSubmessage = ?cnt, fragmentSize = ?fs, sampleSize = ?sz\<rparr>)"
  let ?rest = "do {
      scan \<leftarrow> inline_qos big ?f m (8 + ?o);
      (case scan of
         None \<Rightarrow> Some VR_MALFORMED
       | Some (ptr, qos) \<Rightarrow>
           Some (if \<not> payload_ok ?start ?cnt ?fs ?sz (length m - ptr) then VR_MALFORMED
             else if ?start = 1 \<and> length m < ptr + 4 then VR_MALFORMED
             else validate_writer_and_reader_or_null_entityid ?wr ?rd (dat ptr qos))) }"
  have "validate_DataFrag c rst ts big m = (if ?o mod 4 \<noteq> 0 then Some VR_MALFORMED
      else if strict c \<and> ?fs \<le> 1024 \<and> ?fs < fragment_size c then Some VR_MALFORMED
      else if ?fs = 0 \<or> ?start = 0 \<or> ?cnt = 0 then Some VR_MALFORMED
      else if UINT32_MAX - ?start < ?cnt then Some VR_MALFORMED
      else if strict c \<and> ?sz \<le> ?fs then Some VR_MALFORMED
      else if ?sz \<le> (?start + ?cnt - 2) * ?fs then Some VR_MALFORMED
      else if \<not> valid_SN ?s then Some VR_MALFORMED
      else if length m < 8 + ?o + 4 then Some VR_MALFORMED else ?rest)"
    using False unfolding dat_def validate_DataFrag_def field_defs Let_def by (simp, blast)
  also have "\<dots> = (if bad then Some VR_MALFORMED else ?rest)" unfolding bad_def by (simp only: if_merge disj_assoc)
  finally have code: "validate_DataFrag c rst ts big m = (if bad then Some VR_MALFORMED else ?rest)" .
  show ?thesis
  proof (cases bad)
    case True
    with code show ?thesis by simp
  next
    case ok: False
    then have "8 + ?o + 4 \<le> length m" unfolding bad_def by linarith
    then obtain r where r: "inline_qos big ?f m (8 + ?o) = Some r" "\<forall>p q. r = Some (p, q) \<longrightarrow> 8 + ?o \<le> p \<and> p \<le> length m"
      using inline_qos_in [of "8 + ?o" m big ?f] by auto
    show ?thesis
    proof (cases r)
      case None
      with r ok code show ?thesis by simp
    next
      case (Some pq)
      obtain ptr qos where pq: "pq = (ptr, qos)" by (cases pq)
      let ?good = "payload_ok ?start ?cnt ?fs ?sz (length m - ptr) \<and> \<not> (?start = 1 \<and> length m < ptr + 4)"
      have c: "validate_DataFrag c rst ts big m = (if ?good
          then Some (validate_writer_and_reader_or_null_entityid ?wr ?rd (dat ptr qos)) else Some VR_MALFORMED)"
        using r Some pq ok code by simp
      have le: "ptr \<le> length m" using r(2) Some pq by simp
      have v: "valid_SN ?s" "?fs \<noteq> 0" "?start \<noteq> 0" "?cnt \<noteq> 0" "\<not> UINT32_MAX - ?start < ?cnt" "\<not> ?sz \<le> (?start + ?cnt - 2) * ?fs"
        using ok unfolding bad_def by simp_all
      have "?start \<le> UINT32_MAX" using bd(2) by (simp add: UINT32_MAX_def)
      then have "?start + ?cnt \<le> UINT32_MAX" using v(5) by linarith
      then have "ddsi_is_writer_entityid ?wr \<Longrightarrow> ?good \<Longrightarrow> DataFrag_ok (length m) (dat ptr qos)"
        using v bd le seq_range [OF v(1) bd(1)]
        by (auto simp: DataFrag_ok_def Data_ok_def dat_def sample_info_def)
      then show ?thesis unfolding c by (intro checks_if checks_ids(2) checks_simps(1))
    qed
  qed
qed (simp add: validate_DataFrag_def)

text \<open>The range of a fragment, when the sample is not so large that the sums do not fit in 32 bits.\<close>

lemma frag_range_ok:
  assumes d: "DataFrag_ok n d" and sz: "sampleSize d + 2 ^ 16 \<le> 2 ^ 32"
  shows "\<exists>a b. frag_range d (dat_payloadsz (dfr_data d)) = (a, b) \<and> a < b \<and> b \<le> sampleSize d \<and>
    a = (fragmentStartingNum d - 1) * fragmentSize d"
proof -
  let ?fs = "fragmentSize d" and ?k = "fragmentStartingNum d - 1" and ?c = "fragmentsInSubmessage d - 1"
    and ?n = "dat_payloadsz (dfr_data d)"
  have f: "1 \<le> ?fs" "?fs < 2 ^ 16" "fragmentsInSubmessage d = ?c + 1" "?c < 2 ^ 16" "fragmentStartingNum d = ?k + 1"
    "fragmentStartingNum d + fragmentsInSubmessage d - 2 = ?k + ?c" "(?k + ?c) * ?fs < sampleSize d"
    and p: "payload_ok (fragmentStartingNum d) (fragmentsInSubmessage d) ?fs (sampleSize d) ?n"
  proof -
    have a: "1 \<le> fragmentSize d" "fragmentSize d < 2 ^ 16" "1 \<le> fragmentsInSubmessage d" "fragmentsInSubmessage d < 2 ^ 16"
      "1 \<le> fragmentStartingNum d" "(fragmentStartingNum d + fragmentsInSubmessage d - 2) * fragmentSize d < sampleSize d"
      using d by (simp_all add: DataFrag_ok_def)
    show "payload_ok (fragmentStartingNum d) (fragmentsInSubmessage d) ?fs (sampleSize d) ?n" using d by (simp add: DataFrag_ok_def)
    show e: "fragmentStartingNum d + fragmentsInSubmessage d - 2 = ?k + ?c" using a by linarith
    show "(?k + ?c) * ?fs < sampleSize d" using a(6) unfolding e .
    show "1 \<le> ?fs" "?fs < 2 ^ 16" "fragmentsInSubmessage d = ?c + 1" "?c < 2 ^ 16" "fragmentStartingNum d = ?k + 1"
      using a(1-5) by linarith+
  qed
  from p have p: "payload_ok (?k + 1) (?c + 1) ?fs (sampleSize d) ?n" using f(3,5) by simp
  have top: "?k * ?fs + ?c * ?fs + ?fs < 2 ^ 32" using f(2,7) sz by (simp add: add_mult_distrib)
  have len: "?fs * fragmentsInSubmessage d = ?c * ?fs + ?fs" by (subst f(3)) (simp add: algebra_simps)
  have mods: "?k * ?fs mod 2 ^ 32 = ?k * ?fs" "(?c * ?fs + ?fs) mod 2 ^ 32 = ?c * ?fs + ?fs" "?c * ?fs mod 2 ^ 32 = ?c * ?fs"
    using top by simp_all
  have pos: "0 < ?n"
    using p f(1) mods(2,3) unfolding payload_ok_def by (auto simp: algebra_simps)
  have lt: "?k * ?fs < sampleSize d" using f(7) by (simp add: add_mult_distrib)
  let ?e = "if ?n < ?c * ?fs + ?fs then ?k * ?fs + ?n else ?k * ?fs + (?c * ?fs + ?fs)"
  have e: "?e < 2 ^ 32" "?k * ?fs < ?e" using top pos f(1) by simp_all
  have "(if ?n < ?c * ?fs + ?fs then (?k * ?fs + ?n) mod 2 ^ 32 else (?k * ?fs + (?c * ?fs + ?fs)) mod 2 ^ 32) = ?e"
  proof (cases "?n < ?c * ?fs + ?fs")
    case True
    then have "?k * ?fs + ?n < 2 ^ 32" using top by linarith
    with True show ?thesis by (simp only: if_P mod_less)
  next
    case False
    have "?k * ?fs + (?c * ?fs + ?fs) < 2 ^ 32" using top by linarith
    with False show ?thesis by (simp only: if_not_P mod_less simp_thms)
  qed
  then have "frag_range d ?n = (?k * ?fs, if sampleSize d < ?e then sampleSize d else ?e)"
    unfolding frag_range_def Let_def len mods by simp
  with lt e(2) show ?thesis by simp
qed

section \<open>The calls\<close>

definition regular_ok :: "msg_config \<Rightarrow> nat \<Rightarrow> Data \<Rightarrow> rdata \<Rightarrow> bool" where
  "regular_ok c rmsg d rdata \<longleftrightarrow> ddsi_is_writer_entityid (dat_writerId d) \<and> 1 \<le> si_seq (dat_info d) \<and> si_seq (dat_info d) < SEQ_END \<and>
     si_size (dat_info d) \<le> max_sample_size c \<and> rd_rmsg rdata = rmsg \<and>
     (rd_min rdata = 0 \<and> rd_maxp1 rdata = si_size (dat_info d) \<or> valid_frag rdata (dat_info d) \<and> fields_ok (dat_info d))"

fun call_ok :: "msg_config \<Rightarrow> nat \<Rightarrow> submsg_call \<Rightarrow> bool" where
  "call_ok c rmsg (CallAckNack rst a t) \<longleftrightarrow> AckNack_ok a"
| "call_ok c rmsg (CallNackFrag rst n) \<longleftrightarrow> NackFrag_ok n"
| "call_ok c rmsg (CallHeartbeat rst wrid hb) \<longleftrightarrow> Heartbeat_ok hb"
| "call_ok c rmsg (CallHeartbeatFrag rst h) \<longleftrightarrow> HeartbeatFrag_ok h"
| "call_ok c rmsg (CallGap rst g) \<longleftrightarrow> valid_gap (gap_start g) (gap_base g) (gap_numbits g) (gap_bits g)"
| "call_ok c rmsg (Regular rst d mf rdata) \<longleftrightarrow> regular_ok c rmsg d rdata"
| "call_ok c rmsg (Oversize rst d) \<longleftrightarrow> ddsi_is_writer_entityid (dat_writerId d) \<and> 1 \<le> si_seq (dat_info d) \<and>
     si_seq (dat_info d) < SEQ_END \<and> max_sample_size c < si_size (dat_info d)"
| "call_ok c rmsg (SPDP rst d rdata) \<longleftrightarrow> regular_ok c rmsg d rdata"

text \<open>The samples that are not too large are small enough for the sums in 32 bits.\<close>

definition sample_bound :: "msg_config \<Rightarrow> bool" where
  "sample_bound c \<longleftrightarrow> max_sample_size c + 2 ^ 16 \<le> 2 ^ 32"

definition calls_ok :: "msg_config \<Rightarrow> nat \<Rightarrow> submsg_call list \<Rightarrow> bool" where
  "calls_ok c rmsg calls \<longleftrightarrow> (sample_bound c \<longrightarrow> (\<forall>call\<in>set calls. call_ok c rmsg call))"

lemma calls_ok_simps [simp]: "calls_ok c rmsg []" "calls_ok c rmsg (xs @ ys) \<longleftrightarrow> calls_ok c rmsg xs \<and> calls_ok c rmsg ys"
  by (auto simp: calls_ok_def)

lemma handle_Data_ok: "Data_ok n d \<Longrightarrow> calls_ok c rmsg (handle_Data c rst rmsg d)"
  by (simp add: calls_ok_def handle_Data_def Data_ok_def regular_ok_def Let_def)

lemma handle_DataFrag_ok:
  assumes "DataFrag_ok n d"
  shows "calls_ok c rmsg (handle_DataFrag c rst rmsg d)"
  unfolding calls_ok_def
proof
  assume b: "sample_bound c"
  let ?i = "dat_info (dfr_data d)"
  have f: "ddsi_is_writer_entityid (dat_writerId (dfr_data d))" "1 \<le> si_seq ?i" "si_seq ?i < SEQ_END" "si_size ?i = sampleSize d"
    "si_fragsize ?i = fragmentSize d" "1 \<le> fragmentSize d" "fragmentSize d < 2 ^ 16"
    using assms by (simp_all add: DataFrag_ok_def Data_ok_def)
  show "\<forall>call\<in>set (handle_DataFrag c rst rmsg d). call_ok c rmsg call"
  proof (cases "max_sample_size c < si_size ?i")
    case True
    with f show ?thesis by (simp add: handle_DataFrag_def)
  next
    case False
    with b f(4) have "sampleSize d + 2 ^ 16 \<le> 2 ^ 32" by (simp add: sample_bound_def)
    from frag_range_ok [OF assms this] obtain a e
      where r: "frag_range d (dat_payloadsz (dfr_data d)) = (a, e)" "a < e" "e \<le> sampleSize d" by blast
    have "valid_frag \<lparr>rd_rmsg = rmsg, rd_min = a, rd_maxp1 = e\<rparr> ?i" using r f by (simp add: valid_frag_def)
    moreover have "fields_ok ?i" using False b f by (simp add: fields_ok_def sample_bound_def)
    ultimately show ?thesis using False f r(1) by (simp add: handle_DataFrag_def regular_ok_def)
  qed
qed

definition runs_ok :: "msg_config \<Rightarrow> nat \<Rightarrow> (bool \<times> seq_state \<times> submsg_call list) option \<Rightarrow> bool" where
  "runs_ok c rmsg r \<longleftrightarrow> (\<exists>x. r = Some x \<and> calls_ok c rmsg (snd (snd x)))"

lemma accepted_ok:
  assumes "checks v P" and "\<And>x. P x \<Longrightarrow> \<exists>s' calls. f x = Some (s', calls) \<and> calls_ok c rmsg calls"
  shows "runs_ok c rmsg (accepted v s f)"
proof -
  obtain r where r: "v = Some r" "\<forall>x. r = VR_ACCEPT x \<longrightarrow> P x" using assms(1) by (auto simp: checks_def)
  show ?thesis
  proof (cases r)
    case (VR_ACCEPT x)
    with assms(2) r obtain s' calls where "f x = Some (s', calls)" "calls_ok c rmsg calls" by blast
    with r VR_ACCEPT show ?thesis by (simp add: accepted_def runs_ok_def)
  qed (use r in \<open>simp_all add: accepted_def runs_ok_def\<close>)
qed

lemma bswap_in: "(\<And>ptr. p = Some ptr \<Longrightarrow> ptr + 4 \<le> length m) \<Longrightarrow> \<exists>ok. set_sampleinfo_bswap m p = Some ok"
  by (cases p) (auto simp: set_sampleinfo_bswap_def)

lemma submsg_Data_ok: "runs_ok c rmsg (submsg_Data c rmsg big m s)"
proof -
  obtain r where r: "validate_Data (sq_rst s) (sq_timestamp s) big m = Some r"
    "\<forall>d. r = VR_ACCEPT d \<longrightarrow> Data_ok (length m) d \<and> (\<forall>ptr. dat_payload d = Some ptr \<longrightarrow> ptr + 4 \<le> length m)"
    using validate_Data_checks [of "sq_rst s" "sq_timestamp s" big m] by (auto simp: checks_def)
  show ?thesis
  proof (cases r)
    case (VR_ACCEPT d)
    with r(2) have d: "Data_ok (length m) d" "\<And>ptr. dat_payload d = Some ptr \<Longrightarrow> ptr + 4 \<le> length m" by blast+
    obtain ok where "set_sampleinfo_bswap m (dat_payload d) = Some ok" using bswap_in [OF d(2)] by blast
    with r(1) VR_ACCEPT handle_Data_ok [OF d(1)] show ?thesis by (simp add: submsg_Data_def runs_ok_def)
  qed (use r in \<open>simp_all add: submsg_Data_def runs_ok_def\<close>)
qed

lemma submsg_DataFrag_ok: "runs_ok c rmsg (submsg_DataFrag c rmsg big m s)"
proof -
  obtain r where r: "validate_DataFrag c (sq_rst s) (sq_timestamp s) big m = Some r" "\<forall>d. r = VR_ACCEPT d \<longrightarrow> DataFrag_ok (length m) d"
    using validate_DataFrag_checks [of c "sq_rst s" "sq_timestamp s" big m] by (auto simp: checks_def)
  show ?thesis
  proof (cases r)
    case (VR_ACCEPT d)
    with r(2) have d: "DataFrag_ok (length m) d" by blast
    have "\<exists>ok. (if fragmentStartingNum d = 1 then set_sampleinfo_bswap m (dat_payload (dfr_data d)) else Some True) = Some ok"
      using d bswap_in [of "dat_payload (dfr_data d)" m] by (auto simp: DataFrag_ok_def)
    then obtain ok where "(if fragmentStartingNum d = 1 then set_sampleinfo_bswap m (dat_payload (dfr_data d)) else Some True) = Some ok"
      by blast
    with r(1) VR_ACCEPT handle_DataFrag_ok [OF d] show ?thesis by (simp add: submsg_DataFrag_def runs_ok_def del: if_split)
  qed (use r in \<open>simp_all add: submsg_DataFrag_def runs_ok_def\<close>)
qed

lemma handle_submsg_ok:
  assumes "4 \<le> length m"
  shows "runs_ok c rmsg (handle_submsg c rmsg smid big m s)"
proof -
  have a: "runs_ok c rmsg (accepted (validate_AckNack c rst big m) s' (\<lambda>a. Some (s', [CallAckNack rst a t])))" for s' rst t
    by (rule accepted_ok [OF validate_AckNack_checks]) (simp add: calls_ok_def)
  have h: "runs_ok c rmsg (accepted (validate_Heartbeat big m) s' (\<lambda>(wrid, hb). Some (s', [CallHeartbeat rst wrid hb])))" for s' rst
    by (rule accepted_ok [OF validate_Heartbeat_checks]) (auto simp: calls_ok_def)
  have g: "runs_ok c rmsg (accepted (validate_Gap big m) s' (\<lambda>g. Some (s', [CallGap rst g])))" for s' rst
    by (rule accepted_ok [OF validate_Gap_checks]) (simp add: calls_ok_def)
  have t: "runs_ok c rmsg (accepted (validate_InfoTS big m) s (\<lambda>t. Some (f t, [])))" for f
    by (rule accepted_ok [OF validate_InfoTS_checks [OF assms]]) simp
  have i: "runs_ok c rmsg (accepted (validate_InfoSRC m) s (\<lambda>t. Some (f t, [])))" for f
    by (rule accepted_ok [OF validate_InfoSRC_checks]) simp
  have d: "runs_ok c rmsg (accepted (validate_InfoDST m) s (\<lambda>t. Some (f t, [])))" for f
    by (rule accepted_ok [OF validate_InfoDST_checks]) simp
  have n: "runs_ok c rmsg (accepted (validate_NackFrag big m) s' (\<lambda>n. Some (s', [CallNackFrag rst n])))" for s' rst
    by (rule accepted_ok [OF validate_NackFrag_checks]) (simp add: calls_ok_def)
  have hf: "runs_ok c rmsg (accepted (validate_HeartbeatFrag big m) s' (\<lambda>h. Some (s', [CallHeartbeatFrag rst h])))" for s' rst
    by (rule accepted_ok [OF validate_HeartbeatFrag_checks]) (simp add: calls_ok_def)
  have "runs_ok c rmsg (Some (b, s', []))" for b s' by (simp add: runs_ok_def)
  note cases = a h g t i d n hf submsg_Data_ok submsg_DataFrag_ok this
  show ?thesis unfolding handle_submsg_def Let_def by (auto simp only: cases split: if_split)
qed

text \<open>The whole packet: the loop returns, with calls that are in range.\<close>

lemma handle_submsg_sequence_ok: "\<exists>x. handle_submsg_sequence c rmsg m s = Some x \<and> calls_ok c rmsg (fst x)"
proof (induction c rmsg m s rule: handle_submsg_sequence.induct)
  case (1 c rmsg m s)
  show ?case
  proof (cases "length m < 4")
    case True
    then show ?thesis by (subst handle_submsg_sequence.simps) simp
  next
    case False
    then have u: "u8_at 0 m = Some (fieldv False 1 0 m)" "u8_at 1 m = Some (fieldv False 1 1 m)"
      "\<And>big. field big 2 2 m = Some (fieldv big 2 2 m)" by (simp_all add: u8_at_def)
    define smid big where "smid = fieldv False 1 0 m" and "big \<longleftrightarrow> \<not> flag (fieldv False 1 1 m) 0"
    define octets where "octets = fieldv big 2 2 m"
    note code = handle_submsg_sequence.simps [of c rmsg m s, unfolded if_not_P [OF False] u option_bind_Some Let_def,
      folded smid_def, folded big_def, unfolded u option_bind_Some, folded octets_def]
    show ?thesis
    proof (cases "submsg_size smid octets m")
      case None
      then show ?thesis unfolding code by simp
    next
      case (Some sz)
      show ?thesis
      proof (cases "length m < sz")
        case True
        with Some show ?thesis unfolding code by simp
      next
        case le: False
        have "4 \<le> sz" using Some False by (auto simp: submsg_size_def split: if_splits)
        with le have "4 \<le> length (take sz m)" by simp
        from handle_submsg_ok [OF this, of c rmsg smid big s] obtain b s' calls
          where st: "handle_submsg c rmsg smid big (take sz m) s = Some (b, s', calls)" "calls_ok c rmsg calls"
          unfolding runs_ok_def by (metis prod.collapse)
        show ?thesis
        proof (cases b)
          case True
          with Some le st show ?thesis unfolding code by simp
        next
          case nb: False
          have st': "handle_submsg c rmsg (fieldv False 1 0 m) (\<not> flag (fieldv False 1 1 m) 0) (take sz m) s = Some (b, s', calls)"
            using st(1) unfolding smid_def big_def .
          have "\<exists>x. handle_submsg_sequence c rmsg (drop sz m) s' = Some x \<and> calls_ok c rmsg (fst x)"
            using 1 [OF False u(1) u(2) refl u(3) Some [unfolded smid_def octets_def big_def] le st' refl refl nb] .
          then obtain calls' ok where "handle_submsg_sequence c rmsg (drop sz m) s' = Some (calls', ok)" "calls_ok c rmsg calls'"
            by (metis prod.collapse)
          with Some le st nb show ?thesis unfolding code by simp
        qed
      qed
    qed
  qed
qed

lemma handle_rtps_message_ok: "\<exists>x. handle_rtps_message c rmsg m = Some x \<and> calls_ok c rmsg (fst x)"
proof (cases "length m < 20")
  case False
  have "\<exists>x. Some ([], True) = Some x \<and> calls_ok c rmsg (fst x)" by auto
  with False handle_submsg_sequence_ok [of c rmsg "drop 20 m"] show ?thesis
    by (simp add: handle_rtps_message_def field_defs del: split_paired_Ex)
qed (simp add: handle_rtps_message_def)

end
