(* ===== verification/Gap_Message.thy ===== *)
theory Gap_Message
  imports Message
begin

text \<open>
  The other side: how gaps are collected and written into a message (\<open>nn_gap_info_init\<close>, \<open>nn_gap_info_update\<close>,
  \<open>nn_gap_info_create_gap\<close> and \<open>add_Gap\<close> of \<open>src/core/ddsi/src/q_receive.c\<close>), that the validation reads back what was written, and
  whether an acknowledgement asks for anything (\<open>acknack_is_nack\<close>).
\<close>

section \<open>Collecting gaps\<close>

record nn_gap_info =
  gapstart :: seqno
  gapend :: seqno
  gapnumbits :: nat
  gapbits :: "32 word list"

definition nn_gap_info_init :: nn_gap_info where
  "nn_gap_info_init = \<lparr>gapstart = 0, gapend = 0, gapnumbits = 0, gapbits = replicate 8 0\<rparr>"

definition nn_gap_info_update :: "nn_gap_info \<Rightarrow> seqno \<Rightarrow> nn_gap_info option" where
  "nn_gap_info_update gi seqnr = do {
     _ \<leftarrow> assertion (gapstart gi \<le> gapend gi);
     _ \<leftarrow> assertion (gapend gi \<le> seqnr);
     if gapstart gi = 0 then Some (gi\<lparr>gapstart := seqnr, gapend := seqnr + 1\<rparr>)
     else if seqnr = gapend gi then Some (gi\<lparr>gapend := seqnr + 1\<rparr>)
     else if seqnr - gapend gi < 256 then do {
       let idx = seqnr - gapend gi;
       bits \<leftarrow> nn_bitset_set (idx + 1) (gapbits gi) idx;
       Some (gi\<lparr>gapnumbits := idx + 1, gapbits := bits\<rparr>) }
     else Some gi }"

text \<open>The loop of a client: the numbers one after the other.\<close>

fun gap_infos :: "nn_gap_info \<Rightarrow> seqno list \<Rightarrow> nn_gap_info option" where
  "gap_infos gi [] = Some gi"
| "gap_infos gi (q # qs) = nn_gap_info_update gi q \<bind> (\<lambda>gi'. gap_infos gi' qs)"

section \<open>Writing\<close>

primrec le_bytes :: "nat \<Rightarrow> nat \<Rightarrow> bytes" where
  "le_bytes 0 x = []"
| "le_bytes (Suc n) x = word_of_nat x # le_bytes n (x div 256)"

definition nn_hton_entityid :: "nat \<Rightarrow> bytes" where
  "nn_hton_entityid e = rev (le_bytes 4 e)"

definition toSN :: "seqno \<Rightarrow> bytes" where
  "toSN n = le_bytes 4 (n div 2 ^ 32) @ le_bytes 4 n"

text \<open>The machine is little endian, the flags say so. The length is that of what follows the header, in 16 bits.\<close>

definition submsg_header :: "nat \<Rightarrow> nat \<Rightarrow> bytes" where
  "submsg_header smid sz = [word_of_nat smid, 1] @ le_bytes 2 (sz - 4)"

definition add_Gap :: "nat \<Rightarrow> nat \<Rightarrow> seqno \<Rightarrow> seqno \<Rightarrow> nat \<Rightarrow> 32 word list \<Rightarrow> bytes option" where
  "add_Gap rdid wrid start base nbits bits = do {
     let n = (nbits + 31) div 32;
     _ \<leftarrow> assertion (n \<le> length bits);
     Some (submsg_header 0x08 (GAP_SIZE nbits) @ nn_hton_entityid rdid @ nn_hton_entityid wrid @ toSN start @ toSN base @
       le_bytes 4 nbits @ concat (map (\<lambda>w. le_bytes 4 (unat w)) (take n bits))) }"

text \<open>The inner None is the NULL that is returned when no gap has been recorded.\<close>

definition nn_gap_info_create_gap :: "nat \<Rightarrow> nat \<Rightarrow> nn_gap_info \<Rightarrow> bytes option option" where
  "nn_gap_info_create_gap rdid wrid gi =
     (if gapstart gi = 0 then Some None
      else map_option Some (add_Gap rdid wrid (gapstart gi) (gapend gi) (gapnumbits gi) (gapbits gi)))"

section \<open>Does an acknowledgement ask for anything\<close>

definition acknack_is_nack :: "AckNack \<Rightarrow> bool option" where
  "acknack_is_nack a =
     (if akn_numbits a = 0 then Some False
      else do {
        let n = BITS_SIZE (akn_numbits a) div 4 - 1;
        _ \<leftarrow> assertion (n < length (akn_bits a));
        let x = foldl (OR) 0 (take n (akn_bits a));
        let mask = (if akn_numbits a mod 32 = 0 then NOT 0 else NOT (drop_bit (akn_numbits a mod 32) (NOT 0)));
        Some (x OR (akn_bits a ! n AND mask) \<noteq> 0) })"

section \<open>Reading what was written\<close>

lemma length_le_bytes [simp]: "length (le_bytes n x) = n"
  by (induction n arbitrary: x) auto

lemma le_nat_le_bytes: "le_nat (le_bytes n x) = x mod 256 ^ n"
proof (induction n arbitrary: x)
  case (Suc n)
  have "unat (word_of_nat x :: 8 word) = x mod 256" by (simp add: unat_of_nat)
  with Suc show ?case by (simp add: mod_mult2_eq)
qed simp

text \<open>A field in the middle of bytes.\<close>

lemma field_le: "length xs = off \<Longrightarrow> field False n off (xs @ le_bytes n x @ ys) = Some (x mod 256 ^ n)"
  by (simp add: field_def le_nat_le_bytes)

lemma field_be: "length xs = off \<Longrightarrow> nn_ntoh_entityid off (xs @ nn_hton_entityid e @ ys) = Some (e mod 2 ^ 32)"
  by (simp add: nn_ntoh_entityid_def nn_hton_entityid_def field_def le_nat_le_bytes)

lemma fromSN_toSN:
  assumes "length xs = off" "q < 2 ^ 64"
  shows "fromSN False off (xs @ toSN q @ ys) = Some q"
proof -
  have h: "field False 4 off (xs @ toSN q @ ys) = Some (q div 2 ^ 32)"
    using field_le [OF assms(1), of 4 "q div 2 ^ 32" "le_bytes 4 q @ ys"] assms(2) by (simp add: toSN_def)
  have l: "field False 4 (off + 4) (xs @ toSN q @ ys) = Some (q mod 2 ^ 32)"
    using field_le [of "xs @ le_bytes 4 (q div 2 ^ 32)" "off + 4" 4 q ys] assms(1) by (simp add: toSN_def)
  show ?thesis by (simp add: fromSN_def h l)
qed

lemma bitmap_at_le:
  "length xs = off \<Longrightarrow> bitmap_at False (length ws) off (xs @ concat (map (\<lambda>w. le_bytes 4 (unat w)) ws)) = Some ws"
proof (induction ws arbitrary: xs off)
  case (Cons w ws)
  have "unat w < 2 ^ 32" using unsigned_less [of w] by simp
  then have f: "field False 4 off (xs @ le_bytes 4 (unat w) @ concat (map (\<lambda>w. le_bytes 4 (unat w)) ws)) = Some (unat w)"
    using field_le [OF Cons.prems, of 4 "unat w"] by simp
  have "bitmap_at False (length ws) (off + 4) ((xs @ le_bytes 4 (unat w)) @ concat (map (\<lambda>w. le_bytes 4 (unat w)) ws)) = Some ws"
    using Cons.prems by (intro Cons.IH) simp
  with f show ?case by simp
qed simp

lemma length_words: "length (concat (map (\<lambda>w. le_bytes 4 (unat w)) ws)) = 4 * length ws"
  by (induction ws) simp_all

lemma length_submsg_header [simp]: "length (submsg_header smid sz) = 4"
  by (simp add: submsg_header_def)

lemma length_toSN [simp]: "length (toSN q) = 8"
  by (simp add: toSN_def)

lemma length_hton [simp]: "length (nn_hton_entityid e) = 4"
  by (simp add: nn_hton_entityid_def)

lemma validate_add_Gap:
  assumes ids: "ddsi_is_writer_entityid wrid" "rdid = NN_ENTITYID_UNKNOWN \<or> ddsi_is_reader_entityid rdid" "wrid < 2 ^ 32" "rdid < 2 ^ 32"
    and seqs: "1 \<le> start" "start \<le> base" "base + nbits \<le> MAX_SEQ_NUMBER" "nbits \<le> 256"
    and bits: "(nbits + 31) div 32 \<le> length bits"
  shows "\<exists>m. add_Gap rdid wrid start base nbits bits = Some m \<and> length m = GAP_SIZE nbits \<and>
    validate_Gap False m = Some (VR_ACCEPT \<lparr>gap_readerId = rdid, gap_writerId = wrid, gap_start = start, gap_base = base,
      gap_numbits = nbits, gap_bits = take ((nbits + 31) div 32) bits\<rparr>)"
proof -
  let ?n = "(nbits + 31) div 32" and ?h = "submsg_header 0x08 (GAP_SIZE nbits)"
  let ?r = "nn_hton_entityid rdid" and ?w = "nn_hton_entityid wrid"
  let ?ws = "concat (map (\<lambda>w. le_bytes 4 (unat w)) (take ?n bits))"
  let ?m = "?h @ ?r @ ?w @ toSN start @ toSN base @ le_bytes 4 nbits @ ?ws"
  have len: "length ?m = GAP_SIZE nbits" using bits by (simp add: length_words GAP_SIZE_def BITS_SIZE_def)
  have sn: "start < 2 ^ 64" "base < 2 ^ 64" using seqs by (simp_all add: MAX_SEQ_NUMBER_def)
  have f: "nn_ntoh_entityid 4 ?m = Some rdid" "nn_ntoh_entityid 8 ?m = Some wrid" "fromSN False 12 ?m = Some start"
    "fromSN False 20 ?m = Some base" "field False 4 28 ?m = Some nbits" "bitmap_at False ?n 32 ?m = Some (take ?n bits)"
    using ids(3,4) seqs(4) bits field_be [of ?h 4 rdid] field_be [of "?h @ ?r" 8 wrid] fromSN_toSN [of "?h @ ?r @ ?w" 12, OF _ sn(1)]
      fromSN_toSN [of "?h @ ?r @ ?w @ toSN start" 20, OF _ sn(2)] field_le [of "?h @ ?r @ ?w @ toSN start @ toSN base" 28 4 nbits ?ws]
      bitmap_at_le [of "?h @ ?r @ ?w @ toSN start @ toSN base @ le_bytes 4 nbits" 32 "take ?n bits"]
    by (simp_all add: min_absorb2 del: field_in fromSN_in)
  have "nbits \<le> MAX_SEQ_NUMBER - base" using seqs(3) by linarith
  then have v: "valid_SN start" "valid_sequence_number_set base nbits"
    using seqs sn by (simp_all add: valid_sequence_number_set_def valid_SN_iff MAX_SEQ_NUMBER_def)
  have ge: "\<not> length ?m < GAP_SIZE 0" "\<not> length ?m < GAP_SIZE nbits" "\<not> base < start"
    using len seqs(2) by (simp_all add: GAP_SIZE_def BITS_SIZE_def)
  have "validate_Gap False ?m = Some (VR_ACCEPT \<lparr>gap_readerId = rdid, gap_writerId = wrid, gap_start = start, gap_base = base,
      gap_numbits = nbits, gap_bits = take ?n bits\<rparr>)"
    unfolding validate_Gap_def f option_bind_Some if_not_P [OF ge(1)] if_not_P [OF ge(2)]
    using v ids(1,2) ge(3) by (simp add: validate_writer_and_reader_or_null_entityid_def)
  moreover have "add_Gap rdid wrid start base nbits bits = Some ?m" using bits by (simp add: add_Gap_def)
  ultimately show ?thesis using len by blast
qed

section \<open>What a collected gap stands for\<close>

text \<open>The numbers that a gap announces: the interval and the bits.\<close>

definition gap_seqs :: "seqno \<Rightarrow> seqno \<Rightarrow> nat \<Rightarrow> 32 word list \<Rightarrow> seqno set" where
  "gap_seqs start base nbits bits = {start..<base} \<union> {base + i |i. i < nbits \<and> isset bits i}"

text \<open>The state after the numbers in \<open>S\<close>, all of which are below \<open>p\<close>.\<close>

definition gi_ok :: "seqno set \<Rightarrow> seqno \<Rightarrow> nn_gap_info \<Rightarrow> bool" where
  "gi_ok S p gi \<longleftrightarrow> 1 \<le> gapstart gi \<and> gapstart gi < gapend gi \<and> length (gapbits gi) = 8 \<and> gapnumbits gi \<le> 256 \<and>
     gapend gi + gapnumbits gi \<le> p \<and> (\<forall>q\<in>S. q < p) \<and> \<not> isset (gapbits gi) 0 \<and>
     (\<forall>i. isset (gapbits gi) i \<longrightarrow> i < gapnumbits gi) \<and>
     {q \<in> S. q < gapend gi + 256} = gap_seqs (gapstart gi) (gapend gi) (gapnumbits gi) (gapbits gi)"

lemma isset_zeros: "\<not> isset (replicate 8 0) i"
  by (auto simp: isset_def)

lemma first_update:
  assumes "1 \<le> q"
  shows "\<exists>gi. nn_gap_info_update nn_gap_info_init q = Some gi \<and> gi_ok {q} (q + 1) gi \<and> gapstart gi = q"
proof -
  have "{x \<in> {q}. x < q + 1 + 256} = {q..<q + 1}" by auto
  with assms isset_zeros show ?thesis
    by (simp add: nn_gap_info_update_def nn_gap_info_init_def gi_ok_def gap_seqs_def)
qed

lemma next_update:
  assumes ok: "gi_ok S p gi" and q: "p \<le> q"
  shows "\<exists>gi'. nn_gap_info_update gi q = Some gi' \<and> gi_ok (insert q S) (q + 1) gi' \<and> gapstart gi' = gapstart gi"
proof -
  let ?s = "gapstart gi" and ?e = "gapend gi" and ?n = "gapnumbits gi" and ?b = "gapbits gi"
  have g: "1 \<le> ?s" "?s < ?e" "length ?b = 8" "?n \<le> 256" "?e + ?n \<le> p" "\<forall>x\<in>S. x < p" "\<not> isset ?b 0"
    "\<forall>i. isset ?b i \<longrightarrow> i < ?n" "{x \<in> S. x < ?e + 256} = gap_seqs ?s ?e ?n ?b"
    using ok by (simp_all add: gi_ok_def)
  have lt: "\<forall>x\<in>insert q S. x < q + 1" using g(6) q by auto
  consider "q = ?e" | "?e < q" "q - ?e < 256" | "?e < q" "\<not> q - ?e < 256" using g(5) q by linarith
  then show ?thesis
  proof cases
    case 1
    then have n: "?n = 0" "\<forall>x\<in>S. x < ?e" using g(5,6) q by auto
    have "{x \<in> S. x < ?e + 256} = S" using n(2) by force
    then have "S = {?s..<?e}" using g(9) n(1) by (simp add: gap_seqs_def)
    then have "{x \<in> insert q S. x < q + 1 + 256} = {?s..<q + 1}" using 1 g(2) by auto
    with 1 g n lt show ?thesis by (simp add: nn_gap_info_update_def gi_ok_def gap_seqs_def)
  next
    case 2
    let ?i = "q - ?e"
    have "?i < ?i + 1" "?i + 1 \<le> 32 * length ?b" using 2 g(3) by simp_all
    from nn_bitset_set_spec [OF this] obtain b' where b: "nn_bitset_set (?i + 1) ?b ?i = Some b'" "length b' = length ?b"
      "\<forall>i. isset b' i \<longleftrightarrow> i = ?i \<or> isset ?b i" by blast
    have n: "?n \<le> ?i" using g(5) q by linarith
    have "gap_seqs ?s ?e (?i + 1) b' = insert q (gap_seqs ?s ?e ?n ?b)"
    proof -
      have "{?e + i |i. i < ?i + 1 \<and> isset b' i} = insert q {?e + i |i. i < ?n \<and> isset ?b i}"
        using b(3) g(8) n 2 by force
      then show ?thesis by (simp add: gap_seqs_def)
    qed
    moreover have "{x \<in> insert q S. x < ?e + 256} = insert q {x \<in> S. x < ?e + 256}" using 2 by auto
    ultimately have eq: "{x \<in> insert q S. x < ?e + 256} = gap_seqs ?s ?e (?i + 1) b'" using g(9) by simp
    have bnd: "\<forall>i. isset b' i \<longrightarrow> i < ?i + 1" using b(3) g(8) n by (metis less_add_one less_le_trans less_or_eq_imp_le order_le_less_trans)
    have z: "\<not> isset b' 0" using b(3) g(7) 2 by simp
    have "nn_gap_info_update gi q = Some (gi\<lparr>gapnumbits := ?i + 1, gapbits := b'\<rparr>)"
      using 2 g(1,2) b(1) by (simp add: nn_gap_info_update_def Let_def)
    moreover have "gi_ok (insert q S) (q + 1) (gi\<lparr>gapnumbits := ?i + 1, gapbits := b'\<rparr>)"
      using g(1-3) b(2) 2 lt z bnd eq by (simp add: gi_ok_def)
    ultimately show ?thesis by simp
  next
    case 3
    have "{x \<in> insert q S. x < ?e + 256} = {x \<in> S. x < ?e + 256}" using 3 by auto
    with 3 g q lt show ?thesis by (simp add: nn_gap_info_update_def gi_ok_def)
  qed
qed

lemma updates:
  "gi_ok S p gi \<Longrightarrow> sorted_wrt (<) qs \<Longrightarrow> \<forall>q\<in>set qs. p \<le> q \<and> q < B \<Longrightarrow> p \<le> B \<Longrightarrow>
    \<exists>gi' p'. gap_infos gi qs = Some gi' \<and> gi_ok (S \<union> set qs) p' gi' \<and> p' \<le> B \<and> gapstart gi' = gapstart gi"
proof (induction qs arbitrary: S p gi)
  case (Cons q qs)
  have "p \<le> q" using Cons.prems(3) by simp
  from next_update [OF Cons.prems(1) this] obtain gi1
    where gi1: "nn_gap_info_update gi q = Some gi1" "gi_ok (insert q S) (q + 1) gi1" "gapstart gi1 = gapstart gi" by blast
  have "\<forall>x\<in>set qs. q + 1 \<le> x \<and> x < B" "q + 1 \<le> B" using Cons.prems(2,3) by auto
  from Cons.IH [OF gi1(2) _ this] Cons.prems(2) gi1 show ?case by auto
qed auto

lemma isset_take_words: "i < n \<Longrightarrow> isset (take ((n + 31) div 32) bits) i = isset bits i"
proof -
  assume "i < n"
  then have "i div 32 < (n + 31) div 32" by auto
  then show ?thesis by (simp add: isset_def)
qed

section \<open>Whether anything is asked for\<close>

lemma foldl_or: "bit (foldl (OR) (w :: 32 word) ws) k \<longleftrightarrow> bit w k \<or> (\<exists>v\<in>set ws. bit v k)"
  by (induction ws arbitrary: w) (auto simp: bit_or_iff)

lemma word_nonzero: "(w :: 32 word) \<noteq> 0 \<longleftrightarrow> (\<exists>k<32. bit w k)"
proof
  assume "w \<noteq> 0"
  then obtain k where "bit w k" using bit_eqI [of w 0] by auto
  moreover then have "k < 32" using bit_imp_le_length [of w k] by simp
  ultimately show "\<exists>k<32. bit w k" by blast
qed auto

text \<open>A bit of a word that the mask of the last word keeps.\<close>

lemma last_word_bit:
  assumes "0 < n" "k < 32"
  shows "bit ((w :: 32 word) AND (if n mod 32 = 0 then NOT 0 else NOT (drop_bit (n mod 32) (NOT 0)))) k \<longleftrightarrow>
    bit w k \<and> 32 * ((n - 1) div 32) + (31 - k) < n"
proof -
  have n: "n = 32 * ((n - 1) div 32) + (if n mod 32 = 0 then 32 else n mod 32)" 
  proof (cases n)
    case (Suc m)
    have "n = 32 * (n div 32) + n mod 32" by simp
    with Suc div_Suc [of m 32] show ?thesis by (cases "n mod 32 = 0") simp_all
  qed (use assms in simp)
  show ?thesis
  proof (cases "n mod 32 = 0")
    case True
    have "32 * ((n - 1) div 32) + (31 - k) < n" using n [unfolded if_P [OF True]] by linarith
    with True assms(2) show ?thesis by (simp only: if_P bit_and_iff bit_not_iff) simp
  next
    case False
    have e: "32 * ((n - 1) div 32) + (31 - k) < n \<longleftrightarrow> \<not> k < 32 - n mod 32"
      using n [unfolded if_not_P [OF False]] assms(2) by linarith
    have "bit (w AND NOT (drop_bit (n mod 32) (NOT 0))) k \<longleftrightarrow> bit w k \<and> \<not> k < 32 - n mod 32"
      using assms(2) by (auto simp: bit_and_iff bit_not_iff bit_mask_iff)
    then show ?thesis unfolding e if_not_P [OF False] .
  qed
qed

lemma set_take_nth: "n \<le> length xs \<Longrightarrow> (\<exists>v\<in>set (take n xs). P v) \<longleftrightarrow> (\<exists>j<n. P (xs ! j))"
  by (metis in_set_conv_nth length_take min_absorb2 nth_take)

lemma isset_word:
  assumes "b < 32"
  shows "isset ws (32 * j + (31 - b)) \<longleftrightarrow> j < length ws \<and> bit (ws ! j) b"
proof -
  have "(32 * j + i) div 32 = j" "(32 * j + i) mod 32 = i" if "i < 32" for i using that by simp_all
  from this [of "31 - b"] assms
  have "(32 * j + (31 - b)) div 32 = j" "(32 * j + (31 - b)) mod 32 = 31 - b" "31 - (31 - b) = b" by simp_all
  then show ?thesis unfolding isset_def by metis
qed

lemma acknack_is_nack_iff:
  assumes "length (akn_bits a) = (akn_numbits a + 31) div 32"
  shows "acknack_is_nack a = Some (\<exists>i<akn_numbits a. isset (akn_bits a) i)"
proof (cases "akn_numbits a = 0")
  case True
  then show ?thesis by (simp add: acknack_is_nack_def)
next
  case False
  let ?n = "akn_numbits a" and ?ws = "akn_bits a"
  let ?k = "(?n - 1) div 32"
  let ?mask = "if ?n mod 32 = 0 then NOT 0 else NOT (drop_bit (?n mod 32) (NOT 0)) :: 32 word"
  have k: "BITS_SIZE ?n div 4 - 1 = ?k" "length ?ws = ?k + 1"
    using False assms by (auto simp: BITS_SIZE_def)
  let ?x = "foldl (OR) 0 (take ?k ?ws) OR (?ws ! ?k AND ?mask)"
  have bit: "bit ?x b \<longleftrightarrow> (\<exists>j<?k. bit (?ws ! j) b) \<or> bit (?ws ! ?k) b \<and> 32 * ?k + (31 - b) < ?n" if "b < 32" for b
    using last_word_bit [of ?n b "?ws ! ?k"] that False k(2) set_take_nth [of ?k ?ws "\<lambda>v. bit v b"]
    by (simp add: bit_or_iff foldl_or)
  have "?x \<noteq> 0 \<longleftrightarrow> (\<exists>i<?n. isset ?ws i)"
  proof
    assume "?x \<noteq> 0"
    then obtain b where b: "b < 32" "bit ?x b" using word_nonzero by blast
    then consider j where "j < ?k" "bit (?ws ! j) b" | "bit (?ws ! ?k) b" "32 * ?k + (31 - b) < ?n" using bit by blast
    then show "\<exists>i<?n. isset ?ws i"
    proof cases
      case (1 j)
      have "isset ?ws (32 * j + (31 - b))" using 1 b(1) k(2) isset_word [OF b(1), of ?ws j] by simp
      moreover have "32 * j + (31 - b) < ?n" using 1(1) by linarith
      ultimately show ?thesis by blast
    next
      case 2
      have "isset ?ws (32 * ?k + (31 - b))" using 2 b(1) k(2) isset_word [OF b(1), of ?ws ?k] by simp
      with 2 show ?thesis by blast
    qed
  next
    assume "\<exists>i<?n. isset ?ws i"
    then obtain i where i: "i < ?n" "bit (?ws ! (i div 32)) (31 - i mod 32)" by (auto simp: isset_def)
    have le: "i div 32 \<le> ?k" using i(1) by (intro div_le_mono) linarith
    have "i = 32 * (i div 32) + i mod 32" "i mod 32 < 32" by simp_all
    then have e: "32 * (i div 32) + (31 - (31 - i mod 32)) = i" by linarith
    have b: "31 - i mod 32 < (32 :: nat)" by linarith
    have "bit ?x (31 - i mod 32)"
    proof (cases "i div 32 = ?k")
      case True
      then show ?thesis using bit [OF b] i e by (metis (no_types))
    next
      case False
      with le i(2) show ?thesis using bit [OF b] by (metis (no_types) nat_less_le)
    qed
    with b show "?x \<noteq> 0" using word_nonzero by blast
  qed
  with False k show ?thesis by (simp add: acknack_is_nack_def Let_def)
qed

end
