(* ===== verification/Proxy_Writer_Progress.thy ===== *)
theory Proxy_Writer_Progress
  imports Proxy_Writer_Data
begin

text \<open>
  What the handlers achieve: a heartbeat moves the proxy writer past what the writer no longer has, and the sample that is
  next goes to the readers at once, with all that has been stored behind it.
\<close>

section \<open>What does not move the reorder administration\<close>

lemma gap_moves:
  assumes ok: "reorder_ok r" "refs_cover r R" "1 \<le> next_seq r" "ro_mode r = NN_REORDER_MODE_NORMAL"
    and g: "nn_reorder_gap r R d 1 b = Some (c, sc, r', R', adj)"
  shows "b \<le> next_seq r'"
proof (cases "b \<le> next_seq r")
  case True
  with g show ?thesis by (simp add: nn_reorder_gap_def)
next
  case False
  then have "1 < b" using ok(3) by simp
  from reorder_gap_spec [OF ok(1,2) this, of d] g have "gap_outcome r R d 1 b (c, sc, r', R', adj)" by auto
  with ok(3,4) False show ?thesis
    by (auto simp: gap_outcome_def gap_ignored_def gap_passed_def gap_merged_def gap_stored_def split: if_splits)
qed

lemma group_gap_moves:
  assumes "reorder_ok (pwr_reorder (pw (rx_pwr st)))" "refs_cover (pwr_reorder (pw (rx_pwr st))) (rx_refs st)"
    and "1 \<le> next_of (rx_pwr st)" "ro_mode (pwr_reorder (pw (rx_pwr st))) = NN_REORDER_MODE_NORMAL"
    and g: "group_gap st gap 1 b = Some (res, sc, st', d)"
  shows "b \<le> next_of (rx_pwr st')"
proof -
  obtain r R where "nn_reorder_gap (pwr_reorder (pw (rx_pwr st))) (rx_refs st) gap 1 b = Some (res, sc, r, R, d)"
    "st' = upd_pw (\<lambda>w. w\<lparr>pwr_reorder := r\<rparr>) (st\<lparr>rx_refs := R\<rparr>)"
    using g by (auto simp: group_gap_def split: bind_splits)
  with gap_moves [OF assms(1,2) _ assms(4)] assms(3) show ?thesis by (simp add: nn_reorder_next_seq_def)
qed

lemma deliver_user_data_keeps:
  "deliver_user_data cfg st i fc g = Some st' \<Longrightarrow> pwr_reorder (pw (rx_pwr st')) = pwr_reorder (pw (rx_pwr st)) \<and>
    rx_events st' = rx_events st @ (if qos_valid cfg i fc then [Handled i fc g] else [])"
  by (auto simp: deliver_user_data_def Let_def split: bind_splits if_splits)

text \<open>What is handed over, and in which order.\<close>

fun handled :: "rx_config \<Rightarrow> guid option \<Rightarrow> rsample_chain_elem list \<Rightarrow> dq_event list" where
  "handled cfg g [] = []"
| "handled cfg g (e # es) = (case sce_sampleinfo e of None \<Rightarrow> []
     | Some i \<Rightarrow> if qos_valid cfg i (sce_fragchain e) then [Handled i (sce_fragchain e) g] else []) @ handled cfg g es"

lemma synchronously_keeps:
  "deliver_user_data_synchronously cfg st es g = Some st' \<Longrightarrow> pwr_reorder (pw (rx_pwr st')) = pwr_reorder (pw (rx_pwr st)) \<and>
    rx_events st' = rx_events st @ handled cfg g es"
proof (induction es arbitrary: st)
  case (Cons e es)
  obtain st1 R where s: "(case sce_sampleinfo e of Some info \<Rightarrow> deliver_user_data cfg st info (sce_fragchain e) g
      | None \<Rightarrow> Some st) = Some st1" "deliver_user_data_synchronously cfg (st1\<lparr>rx_refs := R\<rparr>) es g = Some st'"
    using Cons.prems by (auto split: bind_splits)
  from s(1) have "pwr_reorder (pw (rx_pwr st1)) = pwr_reorder (pw (rx_pwr st)) \<and>
      rx_events st1 = rx_events st @ handled cfg g [e]"
    using deliver_user_data_keeps by (cases "sce_sampleinfo e") fastforce+
  with Cons.IH [OF s(2)] show ?case by simp
qed simp

lemma queue_for_reader_keeps:
  "queue_for_reader st g sc res = Some st' \<Longrightarrow> pwr_reorder (pw (rx_pwr st')) = pwr_reorder (pw (rx_pwr st))"
  by (auto simp: queue_for_reader_def split: bind_splits)

lemma deliver_to_group_keeps:
  "deliver_to_group cfg st sc res = Some st' \<Longrightarrow> pwr_reorder (pw (rx_pwr st')) = pwr_reorder (pw (rx_pwr st))"
  using synchronously_keeps by (auto simp: deliver_to_group_def split: bind_splits if_splits)

lemma deliver_to_reader_keeps:
  "deliver_to_reader cfg st g sc res = Some st' \<Longrightarrow> pwr_reorder (pw (rx_pwr st')) = pwr_reorder (pw (rx_pwr st))"
  using synchronously_keeps queue_for_reader_keeps by (auto simp: deliver_to_reader_def split: if_splits)

lemma set_in_sync_keeps:
  "set_in_sync st wn q = Some (st', wn') \<Longrightarrow> pw (rx_pwr st') = pw (rx_pwr st)"
  by (auto simp: set_in_sync_def maybe_set_reader_in_sync_def maybe_leave_catchup_def one_in_sync_def Let_def
      split: bind_splits pwr_rd_match_syncstate.splits if_splits)

lemma heartbeat_reader_keeps:
  assumes "heartbeat_reader cfg gap f l st adj wn = Some (st', adj', wn')"
  shows "pwr_reorder (pw (rx_pwr st')) = pwr_reorder (pw (rx_pwr st))"
proof -
  define w where "w = (if end_of_tl_seq wn = MAX_SEQ_NUMBER then wn\<lparr>end_of_tl_seq := l\<rparr> else wn)"
  note e = assms [unfolded heartbeat_reader_def Let_def, folded w_def]
  show ?thesis
  proof (cases "in_sync (pm_ack w)")
    case PRMSS_SYNC
    with e show ?thesis by simp
  next
    case PRMSS_TLCATCHUP
    with e show ?thesis using set_in_sync_keeps by (fastforce split: bind_splits)
  next
    case PRMSS_OUT_OF_SYNC
    with e obtain res sc wn1 st1 d st2 where g: "reader_gap st w gap 1 f = Some (res, sc, wn1, st1, d)"
      "(if 0 < res then deliver_to_reader cfg st1 (pm_guid w) sc res else Some st1) = Some st2"
      "set_in_sync st2 wn1 (rd_next wn1 - 1) = Some (st', wn')"
      by (auto split: bind_splits)
    have "pw (rx_pwr st1) = pw (rx_pwr st)" using g(1) by (auto simp: reader_gap_def split: bind_splits)
    moreover have "pwr_reorder (pw (rx_pwr st2)) = pwr_reorder (pw (rx_pwr st1))"
      using g(2) deliver_to_reader_keeps by (auto split: if_splits)
    ultimately show ?thesis using set_in_sync_keeps [OF g(3)] by simp
  qed
qed

lemma heartbeat_readers_keeps:
  "heartbeat_readers cfg gap f l st adj wns = Some (st', adj', wns') \<Longrightarrow>
    pwr_reorder (pw (rx_pwr st')) = pwr_reorder (pw (rx_pwr st))"
proof (induction wns arbitrary: st adj adj' wns')
  case (Cons wn wns)
  obtain st1 adj1 wn1 adj2 wns2 where "heartbeat_reader cfg gap f l st adj wn = Some (st1, adj1, wn1)"
    "heartbeat_readers cfg gap f l st1 adj1 wns = Some (st', adj2, wns2)"
    using Cons.prems by (auto split: bind_splits)
  with Cons.IH heartbeat_reader_keeps show ?case by metis
qed simp

lemma adjust_refs_keeps: "adjust_refs st fc adj = Some st' \<Longrightarrow> rx_pwr st' = rx_pwr st \<and> rx_events st' = rx_events st"
  by (auto simp: adjust_refs_def)

lemma filtered_dst_cong:
  "pwr_filtered p' = pwr_filtered p \<Longrightarrow> readers p' = readers p \<Longrightarrow> filtered_dst p' dst = filtered_dst p dst"
  unfolding filtered_dst_def find_reader_def by simp

section \<open>Heartbeats\<close>

lemma heartbeat_moves:
  assumes ok: "rest F sz st" and v: "valid_heartbeat hb"
    and on: "forme rst" "n_reliable_readers (rx_pwr st) \<noteq> 0" "filtered_dst (rx_pwr st) (dst_of rst (hb_readerId hb)) = None"
    and t: "taking F st rmsg" and s: "handle_Heartbeat cfg rst st rmsg hb tnow tnow_mt = Some st'"
  shows "(if have_seen_heartbeat (rx_pwr st) then hb_firstSN hb else hb_lastSN hb + 1) \<le> next_of (rx_pwr st')"
proof -
  define b where "b = (if have_seen_heartbeat (rx_pwr st) then hb_firstSN hb else (hb_lastSN hb + 1) mod 2 ^ 64)"
  have b: "b = (if have_seen_heartbeat (rx_pwr st) then hb_firstSN hb else hb_lastSN hb + 1)"
    using v by (simp add: b_def SEQ_END_def valid_heartbeat_def)
  let ?stn = "st\<lparr>rx_pwr := heartbeat_noted hb (rx_pwr st)\<rparr>"
  have off: "\<not> (\<not> forme rst \<or> n_reliable_readers (rx_pwr st) = 0)" using on by simp
  note code = s [unfolded handle_Heartbeat_def Let_def if_not_P [OF off], folded b_def, unfolded bind_eq_Some_conv]
  obtain st0 where s0: "pwr_notegap ?stn 1 b = Some st0" using code by blast
  obtain gap st1 where s1: "new_gap st0 rmsg = Some (gap, st1)" using code s0 by auto
  obtain st2 d st3 wns where
    s2: "(case filtered_dst (rx_pwr st1) (dst_of rst (hb_readerId hb)) of Some wn \<Rightarrow> heartbeat_filtered st1 wn gap hb
      | None \<Rightarrow> heartbeat_group cfg st1 gap b hb) = Some (st2, d)"
    and s3: "adjust_refs st2 [gap] d = Some st3" "st' = set_readers wns st3"
    using code s0 s1 by (auto simp: bind_eq_Some_conv)
  have h: "here F sz (pwr_last_seq (pw (rx_pwr st)) + 1) st [] 0" using ok by (simp add: rest_def)
  obtain L where hn: "here F sz L ?stn [] 0" using heartbeat_noted_ok [OF h refl v] by blast
  have rel: "ro_mode (pwr_reorder (pw (rx_pwr st))) = NN_REORDER_MODE_NORMAL"
    using h on(2) by (auto simp: here_def reliable_ones_def)
  have st1: "rx_pwr st1 = rx_pwr st0" using s1 by (auto simp: new_gap_def bind_eq_Some_conv)
  have same1: "pwr_filtered (rx_pwr st1) = pwr_filtered (rx_pwr st)" "readers (rx_pwr st1) = readers (rx_pwr st)"
    using s0 st1 by (auto simp: pwr_notegap_def heartbeat_noted_def split: bind_splits)
  have "filtered_dst (rx_pwr st1) (dst_of rst (hb_readerId hb)) = None"
    using on(3) filtered_dst_cong [OF same1] by simp
  with s2 have g: "heartbeat_group cfg st1 gap b hb = Some (st2, d)" by simp
  obtain st0' where "pwr_notegap ?stn 1 b = Some st0'" "mid F sz L st0' (readers (rx_pwr ?stn)) [] 0 []" "fixed st0' = fixed ?stn"
    using notegap_ok [of F sz L ?stn "readers (rx_pwr ?stn)" "[]" 0 "[]" 1 b] hn unfolding here_def by blast
  with s0 have m0: "mid F sz L st0 (readers (rx_pwr ?stn)) [] 0 []" "fixed st0 = fixed ?stn" by simp_all
  have "taking F st0 rmsg" using taking_le [OF t] pwr_notegap_le [OF s0, of rmsg] by simp
  then obtain gap' st1' where "new_gap st0 rmsg = Some (gap', st1')" "mid F sz L st1' (readers (rx_pwr ?stn)) [gap'] 0 []"
    using new_gap_ok [OF m0(1)] by blast
  with s1 have m1: "mid F sz L st1 (readers (rx_pwr ?stn)) [gap] 0 []" by simp
  have r1: "pwr_reorder (pw (rx_pwr st1)) = pwr_reorder (pw (rx_pwr st))"
    using st1 notegap_reorder [OF s0] by (simp add: heartbeat_noted_def)
  have ok1: "reorder_ok (pwr_reorder (pw (rx_pwr st1)))" "refs_cover (pwr_reorder (pw (rx_pwr st1))) (rx_refs st1)"
    "1 \<le> next_of (rx_pwr st1)"
    using m1 books_held(1) [of F "pw (rx_pwr st1)" _ "rx_refs st1"] by (auto simp: mid_def main_ok_def nn_reorder_next_seq_def)
  obtain res sc st4 d4 st5 st6 wns6 where g1: "group_gap st1 gap 1 b = Some (res, sc, st4, d4)"
    "(if 0 < res then deliver_to_group cfg st4 sc res else Some st4) = Some st5"
    "heartbeat_readers cfg gap (hb_firstSN hb) (hb_lastSN hb) st5 d4 (readers (rx_pwr st5)) = Some (st6, d, wns6)"
    "st2 = set_readers wns6 st6"
    using g by (auto simp: heartbeat_group_def bind_eq_Some_conv)
  have "b \<le> next_of (rx_pwr st4)"
    by (rule group_gap_moves [OF ok1 _ g1(1)]) (use rel r1 in simp)
  moreover have "pwr_reorder (pw (rx_pwr st5)) = pwr_reorder (pw (rx_pwr st4))"
    using g1(2) deliver_to_group_keeps by (auto split: if_splits)
  moreover have "pwr_reorder (pw (rx_pwr st6)) = pwr_reorder (pw (rx_pwr st5))" by (rule heartbeat_readers_keeps [OF g1(3)])
  moreover have "pw (rx_pwr st') = pw (rx_pwr st6)"
    using g1(4) s3 adjust_refs_keeps [OF s3(1)] by (simp add: set_readers_def)
  ultimately show ?thesis using b by (simp add: nn_reorder_next_seq_def)
qed

section \<open>The next sample\<close>

text \<open>
  With what has been stored directly behind it: of the elements that were stored, those of \<open>us\<close> are handed over and the others stay;
  the numbers that are not stored any more are those from the next one on up to the one then expected, which is not stored.
\<close>

definition handed_over :: "seqno \<Rightarrow> nn_reorder \<Rightarrow> rsample_chain_elem list \<Rightarrow> nn_reorder \<Rightarrow> bool" where
  "handed_over q r us r' \<longleftrightarrow> chains (ivs_of r) = us @ chains (ivs_of r') \<and>
     cov (ivs_of r) = {q + 1..<next_seq r'} \<union> cov (ivs_of r') \<and> next_seq r' \<notin> cov (ivs_of r')"

lemma next_sample_delivered:
  assumes ok: "reorder_ok r" and s: "sample_in s" and sp: "span r" and q: "rs_min s = next_seq r"
  shows "\<exists>us r'. nn_reorder_rsample r R s False = Some (int (length (rs_sc s @ us)), rs_sc s @ us, r', R, 1) \<and>
    placed (rs_min s) (next_seq r') (rs_sc s @ us) \<and> handed_over (rs_min s) r us r' \<and> rs_min s < next_seq r'"
proof -
  have pre: "rsample_is_singleton s = Some True" "assertion True = Some ()" "assertion (reorder_asserts r) = Some ()"
    using sample_in_wf [OF s] reorder_asserts [OF ok] by simp_all
  have now: "rs_min s = next_seq r \<or> (next_seq r < rs_min s \<and> ro_mode r = NN_REORDER_MODE_MONOTONICALLY_INCREASING) \<or>
      ro_mode r = NN_REORDER_MODE_ALWAYS_DELIVER" using q by simp
  have code: "nn_reorder_rsample r R s False = deliver_sample r R s"
    unfolding nn_reorder_rsample_def pre option_bind_Some if_P [OF now] by simp
  have "\<forall>v\<in>set (ivs_of r). rs_maxp1 v - next_seq r \<le> INT32_MAX" using sp by (simp add: span_def)
  from deliver_sample_spec [OF ok s disjI1 [OF q] this, of R] obtain us vs r' where
    d: "ivs_of r = us @ vs" "us = [] \<or> (\<exists>u. us = [u] \<and> rs_min u = rs_maxp1 s)"
      "deliver_sample r R s = Some (int (length (rs_sc s @ chains us)), rs_sc s @ chains us, r', R, 1)"
      "ivs_of r' = vs" "next_seq r' = (if us = [] then rs_maxp1 s else rs_maxp1 (hd us))"
      "placed (rs_min s) (next_seq r') (rs_sc s @ chains us)" "reorder_ok r'" by blast
  have "rs_min s < next_seq r'" using placed_le [OF d(6)] s by (auto simp: sample_in_def)
  moreover have "next_seq r' \<notin> cov (ivs_of r')"
    using reorder_okD(2) [OF d(7)] by (fastforce simp: cov_def ivs_wf_def)
  moreover have "cov us = {rs_min s + 1..<next_seq r'}"
    using d(2,5) s by (auto simp: cov_def sample_in_def)
  then have "cov (ivs_of r) = {rs_min s + 1..<next_seq r'} \<union> cov (ivs_of r')" using d(1,4) by (simp add: cov_def)
  moreover have "chains (ivs_of r) = chains us @ chains (ivs_of r')" using d(1,4) by simp
  ultimately have "handed_over (rs_min s) r (chains us) r'" "rs_min s < next_seq r'" by (simp_all add: handed_over_def)
  with code d(3,6) show ?thesis by auto
qed

lemma whole_code:
  assumes "defrag_ok d R" "rd_min f = 0" "rd_maxp1 f = si_size info" "receives R h (rd_rmsg f)"
  shows "nn_defrag_rsample d R f info = Some (Some \<lparr>rs_sc = [\<lparr>sce_fragchain = [f], sce_sampleinfo = Some info\<rparr>],
    rs_min = si_seq info, rs_maxp1 = si_seq info + 1, rs_n_samples = 1\<rparr>, d, with_bias R f)"
  using assms addbias [OF assms(4)] by (simp add: nn_defrag_rsample_def nn_rdata_is_fragment_def reorder_rsample_new_def defrag_ok_def)

lemma notegap_keeps:
  "pwr_notegap st a b = Some st' \<Longrightarrow> rx_events st' = rx_events st \<and> pwr_reorder (pw (rx_pwr st')) = pwr_reorder (pw (rx_pwr st)) \<and>
    pwr_filtered (rx_pwr st') = pwr_filtered (rx_pwr st) \<and> readers (rx_pwr st') = readers (rx_pwr st) \<and>
    n_readers_out_of_sync (rx_pwr st') = n_readers_out_of_sync (rx_pwr st) \<and>
    deliver_synchronously (rx_pwr st') = deliver_synchronously (rx_pwr st)"
  by (auto simp: pwr_notegap_def split: bind_splits)

lemma synchronously_keeps_sync:
  "deliver_user_data_synchronously cfg st es g = Some st' \<Longrightarrow>
    n_readers_out_of_sync (rx_pwr st') = n_readers_out_of_sync (rx_pwr st)"
proof (induction es arbitrary: st)
  case (Cons e es)
  obtain st1 R where s: "(case sce_sampleinfo e of Some info \<Rightarrow> deliver_user_data cfg st info (sce_fragchain e) g
      | None \<Rightarrow> Some st) = Some st1" "deliver_user_data_synchronously cfg (st1\<lparr>rx_refs := R\<rparr>) es g = Some st'"
    using Cons.prems by (auto split: bind_splits)
  from s(1) have "n_readers_out_of_sync (rx_pwr st1) = n_readers_out_of_sync (rx_pwr st)"
    by (auto simp: deliver_user_data_def Let_def split: option.splits bind_splits if_splits)
  with Cons.IH [OF s(2)] show ?case by simp
qed simp

text \<open>All that the group does with the sample that is next, when every reader is in sync and delivery is synchronous.\<close>

lemma group_next:
  assumes ok: "reorder_ok (pwr_reorder (pw (rx_pwr st)))" and sp: "span (pwr_reorder (pw (rx_pwr st)))"
    and s: "sample_in rs" "rs_min rs = next_of (rx_pwr st)"
    and ds: "deliver_synchronously (rx_pwr st)" "n_readers_out_of_sync (rx_pwr st) = 0"
    and g: "group_sample cfg st rmsg rdata rs seq = Some (st', adj)"
  shows "\<exists>us. rx_events st' = rx_events st @ handled cfg None (rs_sc rs @ us) \<and>
    placed (rs_min rs) (next_of (rx_pwr st')) (rs_sc rs @ us) \<and>
    handed_over (rs_min rs) (pwr_reorder (pw (rx_pwr st))) us (pwr_reorder (pw (rx_pwr st')))"
proof -
  have "rs_min rs = next_seq (pwr_reorder (pw (rx_pwr st)))" using s(2) by (simp add: nn_reorder_next_seq_def)
  from next_sample_delivered [OF ok s(1) sp this, of "rx_refs st"] obtain us r where
    n: "nn_reorder_rsample (pwr_reorder (pw (rx_pwr st))) (rx_refs st) rs False =
        Some (int (length (rs_sc rs @ us)), rs_sc rs @ us, r, rx_refs st, 1)"
      "placed (rs_min rs) (next_seq r) (rs_sc rs @ us)" "handed_over (rs_min rs) (pwr_reorder (pw (rx_pwr st))) us r" by blast
  have pos: "0 < int (length (rs_sc rs @ us))" "int (length (rs_sc rs @ us)) \<noteq> NN_REORDER_ACCEPT"
    using s(1) by (auto simp: sample_in_def NN_REORDER_ACCEPT_def)
  let ?st = "upd_pw (\<lambda>w. w\<lparr>pwr_reorder := r\<rparr>) (st\<lparr>rx_refs := rx_refs st\<rparr>)"
  obtain st2 where s2: "deliver_user_data_synchronously cfg (trigger_deferred ?st) (rs_sc rs @ us) None = Some st2"
    using g n(1) pos ds(1) unfolding group_sample_def deliver_data_def by (auto simp: Let_def split: bind_splits)
  note k = synchronously_keeps [OF s2] synchronously_keeps_sync [OF s2]
  have "st' = st2" using g n(1) pos ds s2 k(2) unfolding group_sample_def deliver_data_def by (simp add: Let_def)
  moreover have "rx_events (trigger_deferred ?st) = rx_events st"
    by (simp add: trigger_deferred_def trigger_def split: option.split)
  ultimately show ?thesis using k(1) n(2,3) by (auto simp: nn_reorder_next_seq_def)
qed

lemma regular_next:
  assumes ok: "rest F sz st" and w: "rd_min rdata = 0" "rd_maxp1 rdata = si_size info"
    and q: "si_seq info = next_of (rx_pwr st)" and sp: "spans_ok (rx_pwr st)" and t: "taking F st (rd_rmsg rdata)"
    and ds: "deliver_synchronously (rx_pwr st)" "n_readers_out_of_sync (rx_pwr st) = 0"
    and on: "\<not> no_heartbeat_yet rst (rx_pwr st)" "readers (rx_pwr st) \<noteq> []" "\<not> local_matching_inprogress (rx_pwr st)"
    and fd: "filtered_dst (rx_pwr st) (dst_of rst rdid) = None"
    and s: "handle_regular cfg rst st rmsg rdid info mf rdata = Some st'"
  shows "\<exists>us. rx_events st' = rx_events st @ handled cfg None (\<lparr>sce_fragchain = [rdata], sce_sampleinfo = Some info\<rparr> # us) \<and>
    placed (si_seq info) (next_of (rx_pwr st')) (\<lparr>sce_fragchain = [rdata], sce_sampleinfo = Some info\<rparr> # us) \<and>
    handed_over (si_seq info) (pwr_reorder (pw (rx_pwr st))) us (pwr_reorder (pw (rx_pwr st')))"
proof -
  define s0 where "s0 = st\<lparr>rx_pwr := (if alive (rx_pwr st) then rx_pwr st
    else (rx_pwr st)\<lparr>alive := True, alive_vclock := alive_vclock (rx_pwr st) + 1\<rparr>)\<rparr>"
  define s1 where "s1 = upd_pw (note_last_seq (si_seq info) mf) s0"
  have f1: "pwr_reorder (pw (rx_pwr s1)) = pwr_reorder (pw (rx_pwr st))" "pwr_defrag (pw (rx_pwr s1)) = pwr_defrag (pw (rx_pwr st))"
    "rx_events s1 = rx_events st" "pwr_filtered (rx_pwr s1) = pwr_filtered (rx_pwr st)" "readers (rx_pwr s1) = readers (rx_pwr st)"
    "deliver_synchronously (rx_pwr s1)" "n_readers_out_of_sync (rx_pwr s1) = 0" "rx_refs s1 = rx_refs st"
    using ds by (simp_all add: s1_def s0_def note_last_seq_def)
  have off: "\<not> (no_heartbeat_yet rst (rx_pwr s0) \<or> readers (rx_pwr s0) = [] \<or> local_matching_inprogress (rx_pwr s0))"
    using on by (simp add: s0_def no_heartbeat_yet_def)
  note code = s [unfolded handle_regular_def Let_def, folded s0_def, unfolded if_not_P [OF off], folded s1_def]
  obtain s2 where s2: "clean_defrag s1 = Some s2" using code by (auto split: bind_splits)
  obtain b where "clean_defrag s1 = pwr_notegap s1 1 b" by (simp add: clean_defrag_def Let_def)
  with s2 have ng: "pwr_notegap s1 1 b = Some s2" by simp
  note f2 = notegap_keeps [OF ng]
  have core: "reorder_ok (pwr_reorder (pw (rx_pwr st)))" "defrag_ok (pwr_defrag (pw (rx_pwr st))) (rx_refs st)"
    using ok mid_defrag_ok unfolding rest_def here_def mid_def main_ok_def by blast+
  have d2: "defrag_ok (pwr_defrag (pw (rx_pwr s2))) (rx_refs s2)"
    "conserved (pwr_defrag (pw (rx_pwr st))) (rx_refs st) [] (pwr_defrag (pw (rx_pwr s2))) (rx_refs s2)"
    using ng notegap_spec [OF core(2), of 1 b] f1(2,8) by (auto simp: pwr_notegap_def split: bind_splits)
  have "receiving (pwr_defrag (pw (rx_pwr st))) (rx_refs st) 1 (rd_rmsg rdata)"
    using taking_receives(2) [OF t] ok unfolding rest_def here_def mid_def by blast
  then have "receiving (pwr_defrag (pw (rx_pwr s2))) (rx_refs s2) 1 (rd_rmsg rdata)"
    by (rule receiving_conserved [OF _ d2(2)]) (use clean_defrag_le [OF s2] f1(8) in simp)
  note rs = whole_code [OF d2(1) w receiving_receives [OF this]]
  let ?rs = "\<lparr>rs_sc = [\<lparr>sce_fragchain = [rdata], sce_sampleinfo = Some info\<rparr>], rs_min = si_seq info,
    rs_maxp1 = si_seq info + 1, rs_n_samples = 1\<rparr>"
  define s3 where "s3 = upd_pw (\<lambda>w. w\<lparr>pwr_defrag := pwr_defrag (pw (rx_pwr s2))\<rparr>) (s2\<lparr>rx_refs := with_bias (rx_refs s2) rdata\<rparr>)"
  have f3: "pwr_reorder (pw (rx_pwr s3)) = pwr_reorder (pw (rx_pwr st))" "rx_events s3 = rx_events st"
    "deliver_synchronously (rx_pwr s3)" "n_readers_out_of_sync (rx_pwr s3) = 0"
    "filtered_dst (rx_pwr s3) (dst_of rst rdid) = None"
    using f1 f2 fd filtered_dst_cong [of "rx_pwr s3" "rx_pwr st"] by (simp_all add: s3_def)
  have si: "sample_in ?rs" "rs_min ?rs = next_of (rx_pwr s3)" using q f3(1) by (auto simp: sample_in_def)
  have sp3: "reorder_ok (pwr_reorder (pw (rx_pwr s3)))" "span (pwr_reorder (pw (rx_pwr s3)))"
    using core(1) sp f3(1) by (simp_all add: spans_ok_def)
  obtain fc s4 adj where g: "group_sample cfg s3 rmsg rdata ?rs (si_seq info) = Some (s4, adj)" "adjust_refs s4 fc adj = Some st'"
    using code [unfolded s2 option_bind_Some rs prod.case option.case, folded s3_def, unfolded f3(5) option.case]
    by (auto simp: bind_eq_Some_conv)
  from group_next [OF sp3 si f3(3,4) g(1)] obtain us where
    "rx_events s4 = rx_events s3 @ handled cfg None (rs_sc ?rs @ us)"
    "placed (rs_min ?rs) (next_of (rx_pwr s4)) (rs_sc ?rs @ us)"
    "handed_over (rs_min ?rs) (pwr_reorder (pw (rx_pwr s3))) us (pwr_reorder (pw (rx_pwr s4)))" by blast
  then show ?thesis using adjust_refs_keeps [OF g(2)] f3(1,2) by (intro exI [of _ us]) simp
qed

end
