(* ===== verification/Proxy_Writer_Readers.thy ===== *)
theory Proxy_Writer_Readers
  imports Proxy_Writer_Handlers
begin

text \<open>
  The beginning of a proxy writer, and its readers that come and go.
\<close>

section \<open>Creation\<close>

definition ddsi_new :: "proxy_writer \<Rightarrow> refs \<Rightarrow> rx" where
  "ddsi_new p R = \<lparr>rx_pwr = p, rx_refs = R, rx_events = [], deferred_wakeup = None, rx_triggered = []\<rparr>"

lemma reorder_set_next_seq_ok:
  "1 \<le> q \<Longrightarrow> reorder_ok (nn_reorder_set_next_seq (nn_reorder_new mode maxs late) q)"
  by (simp add: nn_reorder_set_next_seq_def nn_reorder_new_def reorder_ok_def rivs.ok_empty max_iv_last)

lemma new_reorder_facts:
  "sampleivtree (nn_reorder_new mode maxs late) = Null" "next_seq (nn_reorder_new mode maxs late) = 1"
  "ro_mode (nn_reorder_new mode maxs late) = mode"
  "sampleivtree (nn_reorder_set_next_seq (nn_reorder_new mode maxs late) q) = Null"
  "next_seq (nn_reorder_set_next_seq (nn_reorder_new mode maxs late) q) = q"
  "ro_mode (nn_reorder_set_next_seq (nn_reorder_new mode maxs late) q) = mode"
  by (simp_all add: nn_reorder_new_def nn_reorder_set_next_seq_def)

text \<open>The queue, which other proxy writers use as well, holds references of its own.\<close>

lemma new_proxy_writer_ok:
  assumes c: "config_ok cfg" and R: "\<forall>m. held_in m (frags_of (dq_sc dq)) \<le> R m"
  shows "\<exists>p F. ddsi_new_proxy_writer cfg rel stl blt vol low ecl dq qid = Some p \<and> rest F sz (ddsi_new p R)"
proof -
  let ?new = "if rel then nn_defrag_new NN_DEFRAG_DROP_LATEST (defrag_reliable_maxsamples cfg)
       else nn_defrag_new NN_DEFRAG_DROP_OLDEST (defrag_unreliable_maxsamples cfg)"
  obtain d where d: "?new = Some d" using c by (cases rel) (simp_all add: config_ok_def nn_defrag_new_def)
  then have d': "defrag_ok d R" "samples_of d = []" using new_ok [of _ _ d] by (auto split: if_splits)
  define r0 where "r0 = nn_reorder_new (get_proxy_writer_reorder_mode stl rel) (primary_reorder_maxsamples cfg) (late_ack (rc_ack cfg))"
  define r where "r = (if vol then nn_reorder_set_next_seq r0 MAX_SEQ_NUMBER else r0)"
  have r: "reorder_ok r" "ivs_of r = []" "1 \<le> next_seq r" "next_seq r \<le> SEQ_END" "rel \<longrightarrow> ro_mode r = NN_REORDER_MODE_NORMAL"
    using reorder_set_next_seq_ok [of MAX_SEQ_NUMBER] reorder_new_ok
    by (auto simp: r_def r0_def new_reorder_facts MAX_SEQ_NUMBER_def SEQ_END_def get_proxy_writer_reorder_mode_def)
  define w where "w = \<lparr>pwr_last_seq = 0, pwr_last_fragnum = UINT32_MAX, pwr_nackfragcount = 1, next_deliv_seq_lowword = 1,
    pwr_defrag = d, pwr_reorder = r, pwr_dqueue = dq\<rparr>"
  define p where "p = \<lparr>pw = w, readers = [], n_reliable_readers = 0, n_readers_out_of_sync = 0,
    deliver_synchronously = (\<not> blt \<and> low), have_seen_heartbeat = (\<not> rel),
    local_matching_inprogress = True, alive = True, alive_vclock = 0, pwr_filtered = vol,
    fastpath_ok = True, pwr_builtin = blt, pwr_reliable = rel, pwr_vendor_eclipse = ecl, dqueue_id = qid\<rparr>"
  have new: "ddsi_new_proxy_writer cfg rel stl blt vol low ecl dq qid = Some p"
    unfolding ddsi_new_proxy_writer_def d option_bind_Some Let_def p_def w_def r_def r0_def by (rule refl)
  have "deliv_ok w" unfolding deliv_ok_def using r(3) by (intro exI [of _ 1]) (simp add: w_def)
  then have "main_ok sz 1 w"
    using r d' by (auto simp: main_ok_def w_def sized_def fields_all_ok_def infos_def SEQ_END_def)
  moreover have "books (\<lambda>m. R m - held_in m (frags_of (dq_sc dq))) w [] R [] 0 []"
    using r(2) R d'(2) by (simp add: books_def owed_def stored_frags_def w_def)
  ultimately have "rest (\<lambda>m. R m - held_in m (frags_of (dq_sc dq))) sz (ddsi_new p R)"
    using r(5) by (simp add: rest_def here_def mid_def ddsi_new_def p_def RMSG_REFCOUNT_RDATA_BIAS_def) (simp add: w_def)
  with new show ?thesis by blast
qed

section \<open>A reader that comes\<close>

text \<open>Qualities of service match only if a reliable reader is offered a reliable writer.\<close>

definition reader_matches :: "proxy_writer \<Rightarrow> ddsi_reader \<Rightarrow> bool" where
  "reader_matches p rd \<longleftrightarrow> (rd_reliable rd \<longrightarrow> pwr_reliable p)"

text \<open>The match is put into the list.\<close>

lemma insort_split: "\<exists>xs ys. wns = xs @ ys \<and> insort_key pm_guid m wns = xs @ m # ys"
proof (induction wns)
  case (Cons w wns)
  then obtain xs ys where "wns = xs @ ys" "insort_key pm_guid m wns = xs @ m # ys" by blast
  then show ?case
  proof (cases "pm_guid m \<le> pm_guid w")
    case True
    then show ?thesis by (intro exI [of _ "[]"] exI [of _ "w # wns"]) simp
  next
    case False
    with \<open>wns = xs @ ys\<close> \<open>insort_key pm_guid m wns = xs @ m # ys\<close> show ?thesis
      by (intro exI [of _ "w # xs"] exI [of _ ys]) simp
  qed
qed simp

lemma add_reader_ok:
  assumes h: "here F sz L st [] 0" and m: "match_ok (pm_ack m)" "ivs_of (rwn_reorder (pm_ack m)) = []"
    and new: "find_reader (rx_pwr st) (pm_guid m) = None" and rel: "acknack_xevent m \<noteq> None \<longrightarrow> pwr_reliable (rx_pwr st)"
    and p: "p = (rx_pwr st)\<lparr>readers := insort_key pm_guid m (readers (rx_pwr st)),
      n_readers_out_of_sync := n_readers_out_of_sync (rx_pwr st) + (if in_sync (pm_ack m) \<noteq> PRMSS_SYNC then 1 else 0),
      n_reliable_readers := n_reliable_readers (rx_pwr st) + (if acknack_xevent m \<noteq> None then 1 else 0),
      fastpath_ok := (if in_sync (pm_ack m) \<noteq> PRMSS_SYNC then False else fastpath_ok (rx_pwr st))\<rparr>"
  shows "here F sz L (st\<lparr>rx_pwr := p\<rparr>) [] 0"
proof -
  obtain xs ys where s: "readers (rx_pwr st) = xs @ ys" "insort_key pm_guid m (readers (rx_pwr st)) = xs @ m # ys"
    using insort_split by blast
  have d: "distinct (map pm_guid (xs @ ys))" "pm_guid m \<notin> pm_guid ` set (xs @ ys)"
    using h new s(1) by (simp_all add: here_def find_reader_None)
  have b: "books F (pw (rx_pwr st)) (xs @ m # ys) (rx_refs st) [] 0 []"
    using h m(2) s(1) by (simp add: here_def mid_def books_def owed_def stored_frags_def)
  have "mid F sz L (st\<lparr>rx_pwr := p\<rparr>) (xs @ m # ys) [] 0 []"
    using h b m(1) s(1) by (auto simp: here_def mid_def p)
  moreover have "distinct (map pm_guid (xs @ m # ys))" using d by auto
  ultimately show ?thesis using h rel s by (auto simp: here_def p)
qed

lemma proxy_writer_add_connection_ok:
  assumes ok: "rest F sz st" and c: "config_ok cfg" "0 \<le> tnow" and r: "reader_matches (rx_pwr st) rd"
    and n: "length (readers (rx_pwr st)) + 5 < BIAS"
  shows "\<exists>p. proxy_writer_add_connection cfg (rx_pwr st) rd tnow cnt = Some p \<and> rest F sz (st\<lparr>rx_pwr := p\<rparr>)"
proof (cases "find_reader (rx_pwr st) (rd_guid rd) = None")
  case False
  with ok show ?thesis by (simp add: proxy_writer_add_connection_def)
next
  case True
  let ?p = "rx_pwr st" and ?d = "preemptive_ack_delay cfg"
  have t: "ddsrt_mtime_add_duration tnow ?d = Some (after tnow ?d)"
    using c by (simp add: ddsrt_mtime_add_duration_def after_def config_ok_def)
  obtain sync tl where s: "initial_sync ?p rd = (sync, tl)" by (cases "initial_sync ?p rd")
  define ev where "ev = (if rd_reliable rd then Some (after tnow ?d) else None)"
  define reorder where "reorder = nn_reorder_new
    (if rd_reliable rd then NN_REORDER_MODE_NORMAL else NN_REORDER_MODE_MONOTONICALLY_INCREASING)
    (if rd_reliable rd \<and> rd_volatile_secure rd then primary_reorder_maxsamples cfg else secondary_reorder_maxsamples cfg)
    (late_ack (rc_ack cfg))"
  define m where "m = \<lparr>pm_guid = rd_guid rd, acknack_xevent = ev, prev_heartbeat = 0, t_heartbeat_accepted = 0,
    end_of_tl_seq = tl, pm_ack = \<lparr>rwn_count = cnt, hb_timestamp = 0, t_last_nack = 0, t_last_ack = 0, rwn_last_seq = 0,
      last_nack = \<lparr>seq_end_p1 = 0, seq_base = 0, frag_end_p1 = 0, frag_base = 0\<rparr>, in_sync = sync,
      ack_requested = False, heartbeat_since_ack = False, heartbeatfrag_since_ack = False, directed_heartbeat = False,
      rwn_nack_sent_on_nackdelay = False, rwn_filtered = (rd_reliable rd \<and> rd_volatile_secure rd), rwn_reorder = reorder\<rparr>\<rparr>"
  define p where "p = ?p\<lparr>readers := insort_key pm_guid m (readers ?p),
    n_readers_out_of_sync := n_readers_out_of_sync ?p + (if in_sync (pm_ack m) \<noteq> PRMSS_SYNC then 1 else 0),
    n_reliable_readers := n_reliable_readers ?p + (if acknack_xevent m \<noteq> None then 1 else 0),
    fastpath_ok := (if in_sync (pm_ack m) \<noteq> PRMSS_SYNC then False else fastpath_ok ?p)\<rparr>"
  have e: "proxy_writer_add_connection cfg ?p rd tnow cnt = Some p"
    using True t unfolding proxy_writer_add_connection_def s
    by (simp add: Let_def p_def m_def ev_def reorder_def)
  have mk: "match_ok (pm_ack m)" "ivs_of (rwn_reorder (pm_ack m)) = []" "pm_guid m = rd_guid rd"
    using reorder_new_ok by (simp_all add: m_def match_ok_def reorder_def new_reorder_facts)
  have rl: "acknack_xevent m \<noteq> None \<longrightarrow> pwr_reliable ?p" using r by (simp add: m_def ev_def reader_matches_def)
  have h: "here F sz (pwr_last_seq (pw ?p) + 1) st [] 0" using ok by (simp add: rest_def)
  have "here F sz (pwr_last_seq (pw ?p) + 1) (st\<lparr>rx_pwr := p\<rparr>) [] 0"
    by (rule add_reader_ok [OF h mk(1,2) _ rl p_def]) (use True mk(3) in simp)
  then have "rest F sz (st\<lparr>rx_pwr := p\<rparr>)" using n by (simp add: rest_def p_def)
  with e show ?thesis by blast
qed

section \<open>A reader that goes\<close>

text \<open>Dropping from the defragmenter.\<close>

lemma prune_fragments_ok:
  assumes m: "mid F sz L st wns fs adj ex"
  shows "\<exists>st'. prune_fragments st g seq = Some st' \<and> mid F sz L st' wns fs adj ex \<and> fixed st' = fixed st"
proof -
  let ?w = "pw (rx_pwr st)"
  obtain d R where n: "nn_defrag_prune (pwr_defrag ?w) (rx_refs st) (guid_prefix g) seq = Some (d, R)" "defrag_ok d R"
    "conserved (pwr_defrag ?w) (rx_refs st) [] d R"
    "samples_of d = filter (\<lambda>s. ds_seq s < seq \<or> si_dst (ds_sampleinfo s) \<noteq> guid_prefix g) (samples_of (pwr_defrag ?w))"
    using prune_spec [OF mid_defrag_ok [OF m], of "guid_prefix g" seq] by blast
  let ?st = "upd_pw (\<lambda>w. w\<lparr>pwr_defrag := d\<rparr>) (st\<lparr>rx_refs := R\<rparr>)"
  have b: "books F ?w wns (rx_refs st) fs adj ex" "main_ok sz L ?w" using m by (simp_all add: mid_def)
  moreover from b(2) have "main_ok sz L (?w\<lparr>pwr_defrag := d\<rparr>)" using n(2,4)
    by (auto simp: main_ok_def sized_def fields_all_ok_def infos_def deliv_ok_def)
  ultimately have "mid F sz L ?st wns fs adj ex" using m books_defrag [OF _ n(3)] by (simp add: mid_def)
  moreover have "fixed ?st = fixed st" by (simp add: fixed_def)
  ultimately show ?thesis using n(1) by (simp add: prune_fragments_def)
qed

lemma main_below:
  assumes "main_ok sz L w" "v \<in> set (ivs_of (pwr_reorder w))"
  shows "rs_maxp1 v \<le> L"
proof -
  have "iv_wf v" using assms reorder_okD(2) by (auto simp: main_ok_def ivs_wf_def)
  from last_in_cov [OF this assms(2)] obtain q where "rs_maxp1 v = Suc q" "q \<in> cov (ivs_of (pwr_reorder w))" by blast
  moreover from this assms(1) have "q < L" by (auto simp: main_ok_def)
  ultimately show ?thesis by simp
qed

lemma drop_upto_mode:
  assumes "reorder_ok r" "refs_cover r R" "1 \<le> next_seq r" "nn_reorder_drop_upto r R hi = Some (r', R')"
  shows "ro_mode r' = ro_mode r"
proof -
  have "1 < hi \<or> hi \<le> next_seq r" using assms(3) by linarith
  from gap_took [OF assms(1,2) this, of "\<lparr>rd_rmsg = 0, rd_min = 0, rd_maxp1 = 0\<rparr>"] assms(4) show ?thesis
    by (auto simp: nn_reorder_drop_upto_def Let_def took_def split: bind_splits)
qed

text \<open>The state in which no heartbeat has been seen.\<close>

lemma forget_heartbeat_ok:
  assumes m: "mid F sz L st wns [] 0 ex" and L: "L = pwr_last_seq (pw (rx_pwr st)) + 1"
    and md: "ro_mode (pwr_reorder (pw (rx_pwr st))) = NN_REORDER_MODE_NORMAL"
  shows "\<exists>st'. forget_heartbeat st = Some st' \<and> mid F sz L st' wns [] 0 ex \<and>
    fixed st' = fixed (st\<lparr>rx_pwr := (rx_pwr st)\<lparr>have_seen_heartbeat := False\<rparr>\<rparr>)"
proof -
  let ?st = "st\<lparr>rx_pwr := (rx_pwr st)\<lparr>have_seen_heartbeat := False\<rparr>\<rparr>"
  have m0: "mid F sz L ?st wns [] 0 ex" using m by (simp add: mid_def)
  obtain st1 where s1: "pwr_notegap ?st 1 L = Some st1" "mid F sz L st1 wns [] 0 ex" "fixed st1 = fixed ?st"
    using notegap_ok [OF m0, of 1 L] by blast
  let ?w = "pw (rx_pwr st1)"
  have w: "main_ok sz L ?w" "books F ?w wns (rx_refs st1) [] 0 ex" using s1(2) by (simp_all add: mid_def)
  have ok: "reorder_ok (pwr_reorder ?w)" "1 \<le> next_seq (pwr_reorder ?w)" "ro_mode (pwr_reorder ?w) = NN_REORDER_MODE_NORMAL"
    using w(1) fixedD(8) [OF s1(3)] md by (simp_all add: main_ok_def)
  have "\<forall>v\<in>set (ivs_of (pwr_reorder ?w)). rs_maxp1 v \<le> L" using main_below [OF w(1)] by blast
  from drop_upto_spec [OF ok(1) books_held(1) [OF w(2)] ok(3,2) this] obtain r R where
    d: "nn_reorder_drop_upto (pwr_reorder ?w) (rx_refs st1) L = Some (r, R)" "reorder_ok r"
    "next_seq r = max L (next_seq (pwr_reorder ?w))"
    "ivs_of r = (if next_seq (pwr_reorder ?w) < L then [] else ivs_of (pwr_reorder ?w))"
    "\<forall>m. R m + held_in m (chain_frags (chains (ivs_of (pwr_reorder ?w)))) =
      rx_refs st1 m + held_in m (chain_frags (chains (ivs_of r)))" by (elim exE conjE)
  have md2: "ro_mode r = NN_REORDER_MODE_NORMAL"
    using drop_upto_mode [OF ok(1) books_held(1) [OF w(2)] ok(2) d(1)] ok(3) by simp
  let ?st2 = "upd_pw (\<lambda>w. w\<lparr>pwr_reorder := r\<rparr>) (st1\<lparr>rx_refs := R\<rparr>)"
  have dl: "deliv_ok (?w\<lparr>pwr_reorder := r\<rparr>)"
    using w(1) ok(3) d(3) by (auto simp: main_ok_def deliv_ok_def)
  have sub: "set (ivs_of r) \<subseteq> set (ivs_of (pwr_reorder ?w))" using d(4) by auto
  have "cov (ivs_of r) \<subseteq> cov (ivs_of (pwr_reorder ?w))" "set (chains (ivs_of r)) \<subseteq> set (chains (ivs_of (pwr_reorder ?w)))"
    using sub by (auto simp: chains_def cov_def)
  then have "cov (ivs_of r) \<subseteq> {..<L}" "elems_ok (chains (ivs_of r))"
    using w(1) elems_ok_sub [of _ "[]" "chains (ivs_of r)"] by (auto simp: main_ok_def)
  moreover have "1 \<le> next_seq r" "next_seq r \<le> SEQ_END" using w(1) by (auto simp: d(3) main_ok_def)
  ultimately have "main_ok sz L (?w\<lparr>pwr_reorder := r\<rparr>)" using w(1) d(2) dl by (simp add: main_ok_def)
  moreover have "books F (?w\<lparr>pwr_reorder := r\<rparr>) wns R [] 0 ex"
    unfolding books_def
  proof (intro conjI allI)
    fix k
    have "rx_refs st1 k = F k + owed ?w wns k + held_in k (chain_frags ex)" using w(2) by (simp add: books_def)
    with d(5) [rule_format, of k]
    show "R k + 0 * held_in k [] = F k + owed (?w\<lparr>pwr_reorder := r\<rparr>) wns k + held_in k (chain_frags ex) + BIAS * held_in k []"
      by (simp add: owed_def stored_frags_def)
  qed simp
  ultimately have "mid F sz L ?st2 wns [] 0 ex" using s1(2) by (simp add: mid_def)
  moreover have "fixed ?st2 = fixed ?st"
    using s1(3) md2 ok(3) by (simp add: fixed_def)
  moreover have "forget_heartbeat st = Some ?st2"
    using s1(1) d(1) L by (simp add: forget_heartbeat_def Let_def)
  ultimately show ?thesis by blast
qed

text \<open>The reader leaves the list; its reorder administration is in transit until it is freed.\<close>

lemma leave_ok:
  assumes h: "here F sz L st [] 0" and r: "readers (rx_pwr st) = xs @ m # ys"
    and p: "p = (rx_pwr st)\<lparr>readers := xs @ ys,
      n_readers_out_of_sync := n_readers_out_of_sync (rx_pwr st) - (if in_sync (pm_ack m) \<noteq> PRMSS_SYNC then 1 else 0),
      n_reliable_readers := n_reliable_readers (rx_pwr st) - (if acknack_xevent m \<noteq> None then 1 else 0),
      fastpath_ok := (if in_sync (pm_ack m) \<noteq> PRMSS_SYNC \<and> n_readers_out_of_sync (rx_pwr st) - 1 = 0 then True
        else fastpath_ok (rx_pwr st))\<rparr>"
  shows "mid F sz L (st\<lparr>rx_pwr := p\<rparr>) (xs @ ys) [] 0 (chains (ivs_of (rwn_reorder (pm_ack m))))"
    "n_reliable_readers p = reliable_ones (xs @ ys)" "distinct (map pm_guid (xs @ ys))"
proof -
  have m: "mid F sz L st (xs @ m # ys) [] 0 []" using h r by (simp add: here_def)
  then have "books F (pw (rx_pwr st)) (xs @ ys) (rx_refs st) [] 0 (chains (ivs_of (rwn_reorder (pm_ack m))))"
    by (auto simp: mid_def books_def owed_def stored_frags_def)
  moreover have "elems_ok (chains (ivs_of (rwn_reorder (pm_ack m))))" using m by (auto simp: mid_def match_ok_def)
  ultimately show "mid F sz L (st\<lparr>rx_pwr := p\<rparr>) (xs @ ys) [] 0 (chains (ivs_of (rwn_reorder (pm_ack m))))"
    using m by (auto simp: mid_def p)
  show "n_reliable_readers p = reliable_ones (xs @ ys)" "distinct (map pm_guid (xs @ ys))"
    using h r by (auto simp: here_def p)
qed

lemma free_ok:
  assumes m: "mid F sz L st wns [] 0 (chains (ivs_of r))" and i: "index_ok rtree (sampleivtree r)"
  shows "\<exists>R. nn_reorder_free r (rx_refs st) = Some R \<and> mid F sz L (st\<lparr>rx_refs := R\<rparr>) wns [] 0 []"
proof -
  have b: "books F (pw (rx_pwr st)) wns (rx_refs st) [] 0 (chains (ivs_of r))" using m by (simp add: mid_def)
  obtain R where R: "nn_reorder_free r (rx_refs st) = Some R"
    "\<forall>k. R k + held_in k (chain_frags (chains (ivs_of r))) = rx_refs st k"
    using reorder_free_spec [OF i books_held(4) [OF b]] by blast
  have "R k = F k + owed (pw (rx_pwr st)) wns k" for k
    using R(2) [rule_format, of k] b by (simp add: books_def)
  with m R(1) show ?thesis by (simp add: mid_def books_def)
qed

lemma proxy_writer_drop_connection_ok:
  assumes ok: "rest F sz st"
    and rel: "\<forall>m. find_reader (rx_pwr st) g = Some m \<longrightarrow> reliable = (acknack_xevent m \<noteq> None)"
  shows "\<exists>st'. proxy_writer_drop_connection st g reliable = Some st' \<and> rest F sz st' \<and>
    length (readers (rx_pwr st')) \<le> length (readers (rx_pwr st))"
proof (cases "find_reader (rx_pwr st) g")
  case None
  with ok show ?thesis by (simp add: proxy_writer_drop_connection_def)
next
  case (Some m)
  let ?p = "rx_pwr st"
  define L where "L = pwr_last_seq (pw ?p) + 1"
  have h: "here F sz L st [] 0" using ok by (simp add: rest_def L_def)
  obtain xs ys where r: "readers ?p = xs @ m # ys" "pm_guid m = g" using find_reader_Some [OF Some] by blast
  have rm: "filter (\<lambda>x. pm_guid x \<noteq> g) (readers ?p) = xs @ ys"
  proof -
    have "distinct (map pm_guid (xs @ m # ys))" using h r(1) by (simp add: here_def)
    then have "\<forall>x\<in>set xs \<union> set ys. pm_guid x \<noteq> g" using r(2) by (auto simp: image_iff)
    then show ?thesis using r by (simp add: filter_id_conv)
  qed
  let ?out = "in_sync (pm_ack m) \<noteq> PRMSS_SYNC"
  define p3 where "p3 = ?p\<lparr>readers := xs @ ys, n_readers_out_of_sync := n_readers_out_of_sync ?p - (if ?out then 1 else 0),
    n_reliable_readers := n_reliable_readers ?p - (if acknack_xevent m \<noteq> None then 1 else 0),
    fastpath_ok := (if ?out \<and> n_readers_out_of_sync ?p - 1 = 0 then True else fastpath_ok ?p)\<rparr>"
  have p3: "(let p1 = ?p\<lparr>readers := filter (\<lambda>x. pm_guid x \<noteq> g) (readers ?p)\<rparr>;
      p2 = (if ?out then one_in_sync p1 else p1) in
      if reliable then p2\<lparr>n_reliable_readers := n_reliable_readers p2 - 1\<rparr> else p2) = p3"
    using rel Some unfolding rm by (auto simp: Let_def p3_def one_in_sync_def)
  note l = leave_ok [OF h r(1) p3_def]
  define st1 where "st1 = st\<lparr>rx_pwr := p3\<rparr>"
  let ?ex = "chains (ivs_of (rwn_reorder (pm_ack m)))"
  have m1: "mid F sz L st1 (xs @ ys) [] 0 ?ex" using l(1) by (simp add: st1_def)
  have f1: "readers (rx_pwr st1) = xs @ ys" "pwr_reliable (rx_pwr st1) = pwr_reliable ?p" "pw (rx_pwr st1) = pw ?p"
    "n_reliable_readers (rx_pwr st1) = reliable_ones (xs @ ys)"
    using l(2) by (simp_all add: st1_def p3_def)
  obtain st2 where s2: "(if n_reliable_readers p3 = 0 \<and> pwr_reliable p3 \<and> have_seen_heartbeat p3 then forget_heartbeat st1
      else Some st1) = Some st2" "mid F sz L st2 (xs @ ys) [] 0 ?ex"
    "fixed st2 = fixed st1 \<or> fixed st2 = fixed (st1\<lparr>rx_pwr := (rx_pwr st1)\<lparr>have_seen_heartbeat := False\<rparr>\<rparr>)"
  proof (cases "n_reliable_readers p3 = 0 \<and> pwr_reliable p3 \<and> have_seen_heartbeat p3")
    case True
    have "ro_mode (pwr_reorder (pw (rx_pwr st1))) = NN_REORDER_MODE_NORMAL" "L = pwr_last_seq (pw (rx_pwr st1)) + 1"
      using h True f1(3) by (simp_all add: here_def p3_def L_def)
    from forget_heartbeat_ok [OF m1 this(2,1)] True show ?thesis using that by auto
  next
    case False
    show ?thesis by (rule that [of st1]) (simp_all only: if_not_P [OF False] m1 simp_thms)
  qed
  obtain st3 where s3: "(if rwn_filtered (pm_ack m) then prune_fragments st2 g (rwn_last_seq (pm_ack m)) else Some st2) = Some st3"
    "mid F sz L st3 (xs @ ys) [] 0 ?ex" "fixed st3 = fixed st2"
    using prune_fragments_ok [OF s2(2), of g "rwn_last_seq (pm_ack m)"] s2(2) by (cases "rwn_filtered (pm_ack m)") auto
  have "index_ok rtree (sampleivtree (rwn_reorder (pm_ack m)))"
    using h r(1) by (auto simp: here_def mid_def match_ok_def reorder_ok_def)
  from free_ok [OF s3(2) this] obtain R where R: "nn_reorder_free (rwn_reorder (pm_ack m)) (rx_refs st3) = Some R"
    "mid F sz L (st3\<lparr>rx_refs := R\<rparr>) (xs @ ys) [] 0 []" by blast
  let ?st = "st3\<lparr>rx_refs := R\<rparr>"
  have f3: "readers (rx_pwr ?st) = xs @ ys" "pwr_reliable (rx_pwr ?st) = pwr_reliable ?p"
    "n_reliable_readers (rx_pwr ?st) = reliable_ones (xs @ ys)" "pwr_last_seq (pw (rx_pwr ?st)) = pwr_last_seq (pw ?p)"
    "ro_mode (pwr_reorder (pw (rx_pwr ?st))) = ro_mode (pwr_reorder (pw ?p))"
    using s2(3) s3(3) f1 by (auto simp: fixed_def)
  have "0 < reliable_ones (xs @ ys) \<longrightarrow> pwr_reliable ?p"
    using h r(1) by (auto simp: here_def reliable_ones_def split: if_splits)
  then have "here F sz L ?st [] 0" using R(2) l(3) f3 h unfolding here_def by simp
  then have "rest F sz ?st" using ok f3 r(1) by (simp add: rest_def L_def)
  moreover have "proxy_writer_drop_connection st g reliable = Some ?st"
    unfolding proxy_writer_drop_connection_def Some option.case p3 [unfolded Let_def] Let_def st1_def [symmetric]
    by (simp only: s2(1) option_bind_Some s3(1) R(1))
  ultimately show ?thesis using f3(1) r(1) by simp
qed

end
