(* ===== verification/Acknack_Properties.thy ===== *)
theory Acknack_Properties
  imports Acknack Defrag_Properties Reorder_Properties
begin

text \<open>
  What readers ask of a writer: the messages ask for what is missing and for nothing else that can
  be known, what is missing does get requested, and no request is repeated too early.
\<close>

section \<open>Sending\<close>

lemma message_sent_spec:
  assumes "times_ok cfg rwn tnow" "aanr \<noteq> AANR_SUPPRESSED_ACK"
  shows "\<exists>pwr' rwn' t. message_sent cfg pwr rwn aanr s tnow = Some (pwr', rwn', t) \<and>
    rwn_count rwn' = rwn_count rwn \<and> heartbeat_since_ack rwn' = heartbeat_since_ack rwn \<and>
    heartbeatfrag_since_ack rwn' = heartbeatfrag_since_ack rwn \<and>
    (is_nack aanr \<longrightarrow> t_last_nack rwn' = tnow \<and> last_nack rwn' = s)"
  using assms add_duration by (cases aanr) (auto simp: message_sent_def times_ok_def Let_def)

definition message_right :: "ddsi_proxy_writer \<Rightarrow> ddsi_pwr_rd_match \<Rightarrow> seqno \<Rightarrow> ack_msg \<Rightarrow> bool" where
  "message_right pwr rwn base msg \<longleftrightarrow>
     (\<forall>a. msg_acknack msg = Some a \<longrightarrow> acknack_right pwr rwn base a) \<and>
     (\<forall>f. msg_nackfrag msg = Some f \<longrightarrow> nackfrag_right pwr rwn base f) \<and>
     (msg_acknack msg \<noteq> None \<or> msg_nackfrag msg \<noteq> None)"

lemma send_spec:
  assumes tm: "times_ok cfg rwn tnow" and res: "aanr \<noteq> AANR_SUPPRESSED_ACK"
    and ok: "request_ok pwr rwn info" and base: "sn_bitmap_base (acknack_set info) = base"
    and nf: "aanr = AANR_NACKFRAG_ONLY \<longrightarrow> sn_numbits (acknack_set info) = 0 \<and> nackfrag_seq info \<noteq> 0"
  shows "\<exists>m pwr' rwn' t. send_acknack cfg pwr rwn aanr s info tnow alloc_ok encoded = Some (m, pwr', rwn', t) \<and>
    \<not> heartbeat_since_ack rwn' \<and> \<not> heartbeatfrag_since_ack rwn' \<and>
    (if alloc_ok \<and> encoded
     then (\<exists>msg. m = Some msg \<and> message_right pwr rwn base msg \<and> (\<forall>q. requests msg q \<longleftrightarrow> asks_for info q)) \<and>
       rwn_count rwn' = rwn_count rwn + 1 \<and> (is_nack aanr \<longrightarrow> t_last_nack rwn' = tnow)
     else m = None \<and> rwn_count rwn' = rwn_count rwn)"
proof -
  define rwn1 where "rwn1 = rwn\<lparr>directed_heartbeat := False, heartbeat_since_ack := False,
    heartbeatfrag_since_ack := False, rwn_nack_sent_on_nackdelay := nack_sent_on_nackdelay info\<rparr>"
  define stamp where "stamp = (meas_hb_to_ack_latency cfg \<and> hb_timestamp rwn1 \<noteq> 0)"
  define rwn2 where "rwn2 = (if stamp then rwn1\<lparr>hb_timestamp := 0\<rparr> else rwn1)"
  have r2: "\<not> heartbeat_since_ack rwn2" "\<not> heartbeatfrag_since_ack rwn2" "rwn_count rwn2 = rwn_count rwn"
    "times_ok cfg (rwn2\<lparr>rwn_count := c\<rparr>) tnow" for c
    using tm by (simp_all add: rwn2_def rwn1_def times_ok_def)
  obtain f where f: "(if 0 < nackfrag_seq info then map_option Some (add_NackFrag pwr info) else Some None) = Some f"
    "\<And>x. f = Some x \<Longrightarrow> nackfrag_right pwr rwn base x \<and> nf_seq x = nackfrag_seq info"
    "nackfrag_seq info \<noteq> 0 \<Longrightarrow> f \<noteq> None"
    using add_NackFrag_right [OF ok base] by (cases "nackfrag_seq info = 0") auto
  obtain pwr' rwn' t where m: "message_sent cfg pwr (rwn2\<lparr>rwn_count := rwn_count rwn2 + 1\<rparr>) aanr s tnow = Some (pwr', rwn', t)"
    "rwn_count rwn' = rwn_count rwn + 1" "\<not> heartbeat_since_ack rwn'" "\<not> heartbeatfrag_since_ack rwn'"
    "is_nack aanr \<longrightarrow> t_last_nack rwn' = tnow"
    using message_sent_spec [OF r2(4) [of "rwn_count rwn2 + 1"] res, of pwr s] r2(1-3) by auto
  define msg where "msg = \<lparr>msg_timestamp = (if stamp then Some (hb_timestamp rwn1) else None),
    msg_acknack = (if aanr \<noteq> AANR_NACKFRAG_ONLY then Some (add_AckNack rwn2 info) else None), msg_nackfrag = f\<rparr>"
  have "send_acknack cfg pwr rwn aanr s info tnow alloc_ok encoded =
     (if \<not> alloc_ok then Some (None, pwr, rwn1, None) else if \<not> encoded then Some (None, pwr, rwn2, None)
      else Some (Some msg, pwr', rwn', t))"
    unfolding send_acknack_def Let_def rwn1_def [symmetric] stamp_def [symmetric] rwn2_def [symmetric] f(1)
      option_bind_Some m(1) msg_def by simp
  moreover have "message_right pwr rwn base msg"
    using add_AckNack_right [OF ok base r2(3)] f nf by (auto simp: message_right_def msg_def)
  moreover have "requests msg q \<longleftrightarrow> asks_for info q" for q
  proof -
    have "(\<exists>x. f = Some x \<and> nf_seq x = q) \<longleftrightarrow> nackfrag_seq info = q \<and> q \<noteq> 0"
    proof (cases "nackfrag_seq info = 0")
      case True
      with f(1) show ?thesis by auto
    next
      case False
      with f(2,3) show ?thesis by (cases f) auto
    qed
    then show ?thesis using nf unfolding asks_for_def requests_def msg_def
      by (cases "aanr = AANR_NACKFRAG_ONLY") (auto simp: add_AckNack_def isset_take)
  qed
  moreover have "rwn_count rwn1 = rwn_count rwn" "\<not> heartbeat_since_ack rwn1" "\<not> heartbeatfrag_since_ack rwn1"
    by (simp_all add: rwn1_def)
  ultimately show ?thesis using m r2 by auto
qed

lemma make_code:
  assumes "times_ok cfg rwn tnow"
    and "get_AckNack_info cfg pwr rwn info0 (after (t_last_ack rwn) (ack_delay cfg) \<le> tnow)
      (after (t_last_nack rwn) (nack_delay cfg) \<le> tnow) = Some (aanr, s, info)"
  shows "make_and_resched_acknack cfg pwr rwn info0 tnow avoid alloc_ok encoded =
    (if aanr = AANR_SUPPRESSED_ACK then Some (None, pwr, rwn, None)
     else if avoid \<and> aanr = AANR_SUPPRESSED_NACK then Some (None, pwr, rwn, Some (after (t_last_nack rwn) (nack_delay cfg)))
     else if \<not> (heartbeat_since_ack rwn \<or> heartbeatfrag_since_ack rwn) \<and> aanr = AANR_ACK then Some (None, pwr, rwn, None)
     else if \<not> (heartbeat_since_ack rwn \<or> heartbeatfrag_since_ack rwn) \<and>
             tnow < after (t_last_nack rwn) (auto_resched_nack_delay cfg)
     then Some (None, pwr, rwn, Some (after (t_last_nack rwn) (auto_resched_nack_delay cfg)))
     else send_acknack cfg pwr rwn aanr s info tnow alloc_ok encoded)"
  using assms add_duration by (simp add: make_and_resched_acknack_def times_ok_def)

text \<open>What sending leaves as it is.\<close>

definition same_match :: "int \<Rightarrow> ddsi_pwr_rd_match \<Rightarrow> ddsi_pwr_rd_match \<Rightarrow> bool" where
  "same_match tnow rwn rwn' \<longleftrightarrow> in_sync rwn' = in_sync rwn \<and> rwn_filtered rwn' = rwn_filtered rwn \<and>
     rwn_reorder rwn' = rwn_reorder rwn \<and> rwn_last_seq rwn' = rwn_last_seq rwn \<and>
     t_last_ack rwn' \<in> {t_last_ack rwn, tnow} \<and> t_last_nack rwn' \<in> {t_last_nack rwn, tnow}"

lemma message_sent_keeps:
  "message_sent cfg pwr rwn aanr s tnow = Some (pwr', rwn', t) \<Longrightarrow> same_match tnow rwn rwn'"
  by (cases aanr) (auto simp: message_sent_def Let_def same_match_def split: bind_splits)

lemma send_keeps:
  "send_acknack cfg pwr rwn aanr s info tnow alloc_ok encoded = Some (m, pwr', rwn', t) \<Longrightarrow> same_match tnow rwn rwn'"
  unfolding send_acknack_def Let_def
  by (cases alloc_ok; cases encoded; cases "meas_hb_to_ack_latency cfg"; cases "hb_timestamp rwn = 0") (auto simp: same_match_def dest!: message_sent_keeps split: bind_splits)

lemma make_keeps:
  assumes "times_ok cfg rwn tnow"
    and "get_AckNack_info cfg pwr rwn info0 (after (t_last_ack rwn) (ack_delay cfg) \<le> tnow)
      (after (t_last_nack rwn) (nack_delay cfg) \<le> tnow) = Some (aanr, s, info)"
    and "make_and_resched_acknack cfg pwr rwn info0 tnow avoid alloc_ok encoded = Some (m, pwr', rwn', t)"
  shows "same_match tnow rwn rwn'"
  using assms(3) send_keeps unfolding make_code [OF assms(1,2)] by (auto simp: same_match_def split: if_splits)

text \<open>The state of a proxy writer and a reader, the time and the buffers, all as they should be.\<close>

abbreviation acks_ready :: "ack_config \<Rightarrow> ddsi_proxy_writer \<Rightarrow> ddsi_pwr_rd_match \<Rightarrow> seqno \<Rightarrow> add_AckNack_info \<Rightarrow> int \<Rightarrow> bool" where
  "acks_ready cfg pwr rwn nd info tnow \<equiv> ack_state cfg pwr rwn nd \<and> buffers_ok info \<and> times_ok cfg rwn tnow"

lemma make_spec:
  assumes "acks_ready cfg pwr rwn nd info0 tnow"
  obtains (silent) aanr t where
      "make_and_resched_acknack cfg pwr rwn info0 tnow avoid alloc_ok encoded = Some (None, pwr, rwn, t)"
      "is_nack aanr \<longrightarrow> \<not> (heartbeat_since_ack rwn \<or> heartbeatfrag_since_ack rwn) \<and>
        tnow < after (t_last_nack rwn) (auto_resched_nack_delay cfg)"
      "after (t_last_nack rwn) (nack_delay cfg) \<le> tnow \<and> \<not> nothing_to_request cfg pwr rwn nd \<longrightarrow> is_nack aanr"
  | (sent) aanr m pwr' rwn' t where
      "make_and_resched_acknack cfg pwr rwn info0 tnow avoid alloc_ok encoded = Some (m, pwr', rwn', t)"
      "(heartbeat_since_ack rwn \<or> heartbeatfrag_since_ack rwn) \<or> after (t_last_nack rwn) (auto_resched_nack_delay cfg) \<le> tnow"
      "\<not> heartbeat_since_ack rwn'" "\<not> heartbeatfrag_since_ack rwn'"
      "alloc_ok \<and> encoded \<longrightarrow> (\<exists>msg. m = Some msg \<and> message_right pwr rwn (ack_base cfg pwr rwn nd) msg \<and>
        (if is_nack aanr then requests msg (ack_base cfg pwr rwn nd) \<and> t_last_nack rwn' = tnow else \<forall>q. \<not> requests msg q))"
      "alloc_ok \<and> encoded \<longrightarrow> rwn_count rwn' = rwn_count rwn + 1"
      "\<not> (alloc_ok \<and> encoded) \<longrightarrow> m = None \<and> rwn_count rwn' = rwn_count rwn"
      "after (t_last_nack rwn) (nack_delay cfg) \<le> tnow \<and> \<not> nothing_to_request cfg pwr rwn nd \<longrightarrow> is_nack aanr"
proof -
  let ?base = "ack_base cfg pwr rwn nd"
  have st: "ack_state cfg pwr rwn nd" and b: "buffers_ok info0" and tm: "times_ok cfg rwn tnow" using assms by simp_all
  obtain aanr s info where g: "get_AckNack_info cfg pwr rwn info0 (after (t_last_ack rwn) (ack_delay cfg) \<le> tnow)
      (after (t_last_nack rwn) (nack_delay cfg) \<le> tnow) = Some (aanr, s, info)"
    and ok: "request_ok pwr rwn info" and base: "sn_bitmap_base (acknack_set info) = ?base"
    and asks: "if is_nack aanr then asks_for info ?base else asks_nothing info"
    and nf: "aanr = AANR_NACKFRAG_ONLY \<longrightarrow> sn_numbits (acknack_set info) = 0"
    and live: "after (t_last_nack rwn) (nack_delay cfg) \<le> tnow \<and> \<not> nothing_to_request cfg pwr rwn nd \<longrightarrow> is_nack aanr"
    using get_spec [OF st b] by metis
  note code = make_code [OF tm g, of avoid alloc_ok encoded]
  let ?hb = "heartbeat_since_ack rwn \<or> heartbeatfrag_since_ack rwn"
  let ?auto = "after (t_last_nack rwn) (auto_resched_nack_delay cfg)"
  show ?thesis
  proof (cases "aanr = AANR_SUPPRESSED_ACK \<or> avoid \<and> aanr = AANR_SUPPRESSED_NACK \<or> \<not> ?hb \<and> (aanr = AANR_ACK \<or> tnow < ?auto)")
    case True
    show ?thesis
    proof (rule silent)
      show "make_and_resched_acknack cfg pwr rwn info0 tnow avoid alloc_ok encoded = Some (None, pwr, rwn,
        if aanr = AANR_SUPPRESSED_ACK then None
        else if avoid \<and> aanr = AANR_SUPPRESSED_NACK then Some (after (t_last_nack rwn) (nack_delay cfg))
        else if \<not> ?hb \<and> aanr = AANR_ACK then None else Some ?auto)"
        unfolding code using True by auto
      show "is_nack aanr \<longrightarrow> \<not> ?hb \<and> tnow < ?auto" using True by auto
    qed (rule live)
  next
    case False
    then have snd: "make_and_resched_acknack cfg pwr rwn info0 tnow avoid alloc_ok encoded =
        send_acknack cfg pwr rwn aanr s info tnow alloc_ok encoded" unfolding code by auto
    have ns: "aanr \<noteq> AANR_SUPPRESSED_ACK" using False by blast
    have nfo: "aanr = AANR_NACKFRAG_ONLY \<longrightarrow> sn_numbits (acknack_set info) = 0 \<and> nackfrag_seq info \<noteq> 0"
      using nf asks by (auto simp: asks_for_def)
    have none: "\<not> asks_for info q" if "asks_nothing info" for q using that by (auto simp: asks_for_def)
    obtain m pwr' rwn' t where r: "send_acknack cfg pwr rwn aanr s info tnow alloc_ok encoded = Some (m, pwr', rwn', t)"
      "\<not> heartbeat_since_ack rwn'" "\<not> heartbeatfrag_since_ack rwn'"
      and y: "if alloc_ok \<and> encoded
       then (\<exists>msg. m = Some msg \<and> message_right pwr rwn ?base msg \<and> (\<forall>q. requests msg q \<longleftrightarrow> asks_for info q)) \<and>
         rwn_count rwn' = rwn_count rwn + 1 \<and> (is_nack aanr \<longrightarrow> t_last_nack rwn' = tnow)
       else m = None \<and> rwn_count rwn' = rwn_count rwn"
      using send_spec [OF tm ns ok base nfo, of s alloc_ok encoded] by metis
    show ?thesis
    proof (rule sent)
      show "make_and_resched_acknack cfg pwr rwn info0 tnow avoid alloc_ok encoded = Some (m, pwr', rwn', t)"
        using snd r(1) by simp
      show "?hb \<or> ?auto \<le> tnow" using False by auto
      show "alloc_ok \<and> encoded \<longrightarrow> (\<exists>msg. m = Some msg \<and> message_right pwr rwn ?base msg \<and>
        (if is_nack aanr then requests msg ?base \<and> t_last_nack rwn' = tnow else \<forall>q. \<not> requests msg q))"
      proof (intro impI, cases "is_nack aanr")
        assume e: "alloc_ok \<and> encoded"
        assume n: "is_nack aanr"
        show "\<exists>msg. m = Some msg \<and> message_right pwr rwn ?base msg \<and>
          (if is_nack aanr then requests msg ?base \<and> t_last_nack rwn' = tnow else \<forall>q. \<not> requests msg q)"
          using y e n asks by auto
      next
        assume e: "alloc_ok \<and> encoded" and n: "\<not> is_nack aanr"
        then have "asks_nothing info" using asks by auto
        then show "\<exists>msg. m = Some msg \<and> message_right pwr rwn ?base msg \<and>
          (if is_nack aanr then requests msg ?base \<and> t_last_nack rwn' = tnow else \<forall>q. \<not> requests msg q)"
          using y e n none by auto
      qed
    qed (use r y live in auto)
  qed
qed

section \<open>An example\<close>

text \<open>
  2 and 4 have not arrived, of 4 the middle one of three fragments has; 3, 5, 6 and 7 are stored, and
  8 is known from a heartbeat only.
\<close>

definition an_pwr :: ddsi_proxy_writer where
  "an_pwr = \<lparr>pwr_last_seq = 8, pwr_last_fragnum = UINT32_MAX, pwr_nackfragcount = 0, next_deliv_seq_lowword = 2,
     pwr_defrag = ex_mid, pwr_reorder = ro_mid,
     pwr_dqueue = \<lparr>dq_sc = [], dq_max_samples = 4, nof_samples = 0, dq_thrst = False\<rparr>\<rparr>"

definition an_rwn :: ddsi_pwr_rd_match where
  "an_rwn = \<lparr>rwn_count = 0, hb_timestamp = 0, t_last_nack = 0, t_last_ack = 0, rwn_last_seq = 0,
     last_nack = \<lparr>seq_end_p1 = 0, seq_base = 0, frag_end_p1 = 0, frag_base = 0\<rparr>, in_sync = PRMSS_SYNC,
     ack_requested = True, heartbeat_since_ack = True, heartbeatfrag_since_ack = False, directed_heartbeat = False,
     rwn_nack_sent_on_nackdelay = False, rwn_filtered = False, rwn_reorder = ro_new 4\<rparr>"

definition an_cfg :: ack_config where
  "an_cfg = \<lparr>late_ack = False, ack_delay = 10, nack_delay = 100, auto_resched_nack_delay = 1000,
     meas_hb_to_ack_latency = False\<rparr>"

definition an_info :: add_AckNack_info where
  "an_info = \<lparr>nack_sent_on_nackdelay = False, acknack_set = \<lparr>sn_bitmap_base = 0, sn_numbits = 0\<rparr>,
     acknack_bits = replicate 8 0, nackfrag_seq = 0, nackfrag_set = \<lparr>bitmap_base = 0, numbits = 0\<rparr>,
     nackfrag_bits = replicate 8 0\<rparr>"

lemma ex_mid_received: "received (hd (samples_of ex_mid)) {1}"
  by (simp add: received_def ex_mid_eq ex_info_def bytes_def ivbytes_def cell_def)

lemma an_state: "ack_state an_cfg an_pwr an_rwn 2"
proof -
  have "whole_fragments ex_mid" using ex_mid_received by (auto simp: whole_fragments_def ex_mid_eq)
  moreover have "defrag_ok ex_mid ex_refs" using defrag_run_ok [OF ex_mid_run] by simp
  ultimately show ?thesis using reorder_run_ok [OF ro_mid_run] ro_mid_facts(3)
    by (auto simp: ack_state_def an_pwr_def an_rwn_def an_cfg_def reorder_of_def highest_def)
qed

lemma an_ready: "0 \<le> t \<Longrightarrow> acks_ready an_cfg an_pwr an_rwn 2 an_info t"
  using an_state by (simp add: buffers_ok_def times_ok_def an_info_def an_cfg_def an_rwn_def)

lemma an_missing: "\<not> nothing_to_request an_cfg an_pwr an_rwn 2" "ack_base an_cfg an_pwr an_rwn 2 = 2"
  using ro_mid_facts
  by (auto simp: nothing_to_request_def all_known_def ack_base_def an_pwr_def an_rwn_def an_cfg_def reorder_of_def
      highest_def cut_tail_def ex_mid_eq)

text \<open>The message that is sent at time 200, and the state after it.\<close>

definition an_sent :: "ack_msg option \<times> ddsi_proxy_writer \<times> ddsi_pwr_rd_match \<times> int option" where
  "an_sent = the (make_and_resched_acknack an_cfg an_pwr an_rwn an_info 200 True True True)"

lemma an_sent_eq: "make_and_resched_acknack an_cfg an_pwr an_rwn an_info 200 True True True = Some an_sent"
proof -
  have "make_and_resched_acknack an_cfg an_pwr an_rwn an_info 200 True True True \<noteq> None" by code_simp
  then show ?thesis unfolding an_sent_def by auto
qed

definition an_msg :: ack_msg where
  "an_msg = \<lparr>msg_timestamp = None,
     msg_acknack = Some \<lparr>an_base = 2, an_numbits = 2, an_bits = [0xA0000000], an_count = 0\<rparr>,
     msg_nackfrag = Some \<lparr>nf_seq = 4, nf_base = 1, nf_numbits = 3, nf_bits = [0xA0000000], nf_count = 0\<rparr>\<rparr>"

lemma an_sent_msg: "fst an_sent = Some an_msg" "snd (snd (snd an_sent)) = Some 1200"
  by code_simp+

lemma an_ready_again: "acks_ready an_cfg an_pwr (fst (snd (snd an_sent))) 2 an_info 1000"
proof -
  obtain m pwr' rwn' t where e: "an_sent = (m, pwr', rwn', t)" by (cases an_sent) auto
  have rd: "buffers_ok an_info" "times_ok an_cfg an_rwn 200" using an_ready [of 200] by simp_all
  obtain aanr s info where "get_AckNack_info an_cfg an_pwr an_rwn an_info
      (after (t_last_ack an_rwn) (ack_delay an_cfg) \<le> 200) (after (t_last_nack an_rwn) (nack_delay an_cfg) \<le> 200) = Some (aanr, s, info)"
    using get_spec [OF an_state rd(1)] by blast
  from make_keeps [OF rd(2) this an_sent_eq [unfolded e]] show ?thesis using an_state unfolding e
    by (auto simp: buffers_ok_def times_ok_def an_info_def an_cfg_def ack_state_def reorder_of_def highest_def an_rwn_def
        same_match_def)
qed

section \<open>Properties\<close>

text \<open>
  C12. No assertion fails when a message is made, whether or not it can be allocated and encoded, and
  the message is right: its base is the number up to which the reader has everything, it ends at the
  highest number known, a bit is set exactly for a number that is not stored, never for a sample of
  which fragments have arrived, and a request for fragments is for a sample that is not stored and
  has exactly the missing fragments of its range. The counter goes up with each message, and only then.
\<close>

theorem acknack_asks_for_missing:
  assumes "acks_ready cfg pwr rwn nd info0 tnow"
  shows "\<exists>m pwr' rwn' t.
    make_and_resched_acknack cfg pwr rwn info0 tnow avoid alloc_ok encoded = Some (m, pwr', rwn', t) \<and>
    rwn_count rwn' = rwn_count rwn + (if m = None then 0 else 1) \<and>
    (case m of None \<Rightarrow> True | Some msg \<Rightarrow> message_right pwr rwn (ack_base cfg pwr rwn nd) msg)"
  by (rule make_spec [OF assms, of avoid alloc_ok encoded]; cases "alloc_ok \<and> encoded") auto

lemma acknack_asks_for_missing_witness:
  "\<exists>m pwr' rwn' t.
    make_and_resched_acknack an_cfg an_pwr an_rwn an_info 200 True True True = Some (m, pwr', rwn', t) \<and>
    rwn_count rwn' = rwn_count an_rwn + (if m = None then 0 else 1) \<and>
    (case m of None \<Rightarrow> True | Some msg \<Rightarrow> message_right an_pwr an_rwn (ack_base an_cfg an_pwr an_rwn 2) msg)"
  by (rule acknack_asks_for_missing [OF an_ready]) simp

text \<open>
  C13. What is missing is requested: when the last request is \<open>nack_delay\<close> ago, the writer has sent a heartbeat or the
  last request is \<open>auto_resched_nack_delay\<close> ago, and memory is available, then a message is sent that
  requests the first missing sample, as a whole or its missing fragments. Nothing is requested only
  if all up to the highest number is there, all fragments advertised of that sample are, or
  the queue of the late-acknowledging reader is full and nothing is stored.
\<close>

theorem missing_is_requested:
  assumes "acks_ready cfg pwr rwn nd info0 tnow" "\<not> nothing_to_request cfg pwr rwn nd"
    and "after (t_last_nack rwn) (nack_delay cfg) \<le> tnow"
    and "heartbeat_since_ack rwn \<or> heartbeatfrag_since_ack rwn \<or> after (t_last_nack rwn) (auto_resched_nack_delay cfg) \<le> tnow"
  shows "\<exists>msg pwr' rwn' t.
    make_and_resched_acknack cfg pwr rwn info0 tnow avoid True True = Some (Some msg, pwr', rwn', t) \<and>
    requests msg (ack_base cfg pwr rwn nd) \<and> t_last_nack rwn' = tnow"
  by (rule make_spec [OF assms(1), of avoid True True]) (use assms(2-4) in auto)

lemma missing_is_requested_witness:
  "\<exists>msg pwr' rwn' t. make_and_resched_acknack an_cfg an_pwr an_rwn an_info 200 True True True = Some (Some msg, pwr', rwn', t) \<and>
    requests msg (ack_base an_cfg an_pwr an_rwn 2) \<and> t_last_nack rwn' = 200"
  by (rule missing_is_requested [OF an_ready an_missing(1)])
    (simp_all add: an_rwn_def an_cfg_def after_def DDS_NEVER_def)

text \<open>
  C23. Requests are not repeated too early: after a message that requests anything, until \<open>auto_resched_nack_delay\<close>
  has passed or a heartbeat has come, no message is sent and nothing changes, whatever has arrived in between.
\<close>

theorem no_request_is_repeated:
  assumes "acks_ready cfg pwr rwn nd info0 tnow"
    and "make_and_resched_acknack cfg pwr rwn info0 tnow avoid alloc_ok encoded = Some (Some msg, pwr1, rwn1, t1)"
    and "requests msg q"
    and "acks_ready cfg pwr2 rwn1 nd2 info2 tnow2" "tnow2 < after tnow (auto_resched_nack_delay cfg)"
  shows "\<exists>t2. make_and_resched_acknack cfg pwr2 rwn1 info2 tnow2 avoid2 alloc_ok2 encoded2 = Some (None, pwr2, rwn1, t2)"
proof -
  have "\<not> heartbeat_since_ack rwn1 \<and> \<not> heartbeatfrag_since_ack rwn1 \<and> t_last_nack rwn1 = tnow"
    by (rule make_spec [OF assms(1), of avoid alloc_ok encoded])
      (use assms(2,3) in \<open>auto split: if_splits\<close>)
  then have quiet: "\<not> ((heartbeat_since_ack rwn1 \<or> heartbeatfrag_since_ack rwn1) \<or>
      after (t_last_nack rwn1) (auto_resched_nack_delay cfg) \<le> tnow2)" using assms(5) by simp
  show ?thesis by (rule make_spec [OF assms(4), of avoid2 alloc_ok2 encoded2]) (use quiet in blast)+
qed

lemma no_request_is_repeated_witness:
  "\<exists>t2. make_and_resched_acknack an_cfg an_pwr (fst (snd (snd an_sent))) an_info 1000 True True True =
    Some (None, an_pwr, fst (snd (snd an_sent)), t2)"
proof (rule no_request_is_repeated [OF an_ready [of 200] _ _ an_ready_again])
  show "make_and_resched_acknack an_cfg an_pwr an_rwn an_info 200 True True True =
    Some (Some an_msg, fst (snd an_sent), fst (snd (snd an_sent)), Some 1200)"
    using an_sent_eq an_sent_msg by (metis prod.collapse)
  show "requests an_msg 4" by (simp add: requests_def an_msg_def)
qed (simp_all add: after_def an_cfg_def DDS_NEVER_def)

text \<open>
  The decision to schedule the event agrees with what happens when it occurs: if it is not scheduled, or only for a
  later time, then no message would be sent now; and the event that occurs now is rescheduled for the
  same later time.
\<close>

theorem sched_acknack_agrees:
  assumes "times_ok cfg rwn tnow"
    and "sched_acknack_if_needed cfg pwr rwn info0 tnow avoid = Some t" "t \<noteq> Some tnow"
  shows "make_and_resched_acknack cfg pwr rwn info0 tnow avoid alloc_ok encoded = Some (None, pwr, rwn, t)"
proof -
  have d: "ddsrt_mtime_add_duration (t_last_ack rwn) (ack_delay cfg) = Some (after (t_last_ack rwn) (ack_delay cfg))"
    "ddsrt_mtime_add_duration (t_last_nack rwn) (nack_delay cfg) = Some (after (t_last_nack rwn) (nack_delay cfg))"
    using assms(1) by (simp_all add: times_ok_def add_duration)
  obtain aanr s info where g: "get_AckNack_info cfg pwr rwn info0 (after (t_last_ack rwn) (ack_delay cfg) \<le> tnow)
      (after (t_last_nack rwn) (nack_delay cfg) \<le> tnow) = Some (aanr, s, info)"
    using assms(2) by (auto simp: sched_acknack_if_needed_def d split: bind_splits)
  show ?thesis unfolding make_code [OF assms(1) g]
    using assms(2,3) by (auto simp: sched_acknack_if_needed_def d g split: if_splits)
qed

lemma sched_acknack_agrees_witness:
  "make_and_resched_acknack an_cfg an_pwr (an_rwn\<lparr>ack_requested := False, last_nack := \<lparr>seq_end_p1 = 4, seq_base = 2,
      frag_end_p1 = 3, frag_base = 0\<rparr>\<rparr>) an_info 50 True True True =
    Some (None, an_pwr, an_rwn\<lparr>ack_requested := False, last_nack := \<lparr>seq_end_p1 = 4, seq_base = 2,
      frag_end_p1 = 3, frag_base = 0\<rparr>\<rparr>, None)"
proof (rule sched_acknack_agrees)
  show "sched_acknack_if_needed an_cfg an_pwr (an_rwn\<lparr>ack_requested := False, last_nack := \<lparr>seq_end_p1 = 4, seq_base = 2,
      frag_end_p1 = 3, frag_base = 0\<rparr>\<rparr>) an_info 50 True = Some None"
    by code_simp
qed (simp_all add: times_ok_def an_cfg_def an_rwn_def)

text \<open>
  C37. The low word is enough: the next number to be delivered is recovered from its low 32 bits and the next number
  of the reorder administration, as long as they are less than \<open>2 ^ 32\<close> apart.
\<close>

theorem next_deliv_seq_roundtrip:
  assumes "0 < nd" "nd \<le> nseq" "nseq < nd + 2 ^ 32" "nseq < 2 ^ 63"
  shows "next_deliv_seq (word_of_nat nd) nseq = Some nd"
  by (rule next_deliv_seq_spec [OF assms])

lemma next_deliv_seq_roundtrip_witness: "next_deliv_seq (word_of_nat (2 ^ 32 - 1)) (2 ^ 33 - 2) = Some (2 ^ 32 - 1)"
  by (rule next_deliv_seq_roundtrip) simp_all

section \<open>Late acknowledgement\<close>

text \<open>
  A reader that acknowledges only what has been delivered, where 1 is still in the delivery queue: 1 has
  been received, but lies below everything stored in the reorder administration, so that its bit is set as well.
\<close>

lemma late_ack_requests_queued:
  "fst (the (make_and_resched_acknack (an_cfg\<lparr>late_ack := True\<rparr>) (an_pwr\<lparr>next_deliv_seq_lowword := 1\<rparr>) an_rwn an_info
     200 True True True)) = Some (an_msg\<lparr>msg_acknack := Some \<lparr>an_base = 1, an_numbits = 3, an_bits = [0xD0000000], an_count = 0\<rparr>\<rparr>)"
  by code_simp

end
