(* ===== verification/Proxy_Writer_Properties.thy ===== *)
theory Proxy_Writer_Properties
  imports Proxy_Writer_Progress Proxy_Writer_Readers Acknack_Properties
begin

text \<open>
  The runs of a proxy writer: messages, readers that come and go, and, between any two of them, what other threads do. The
  properties of the receive path are about the states that they reach.
\<close>

section \<open>Runs\<close>

datatype pwr_event =
  DataEv nat nat rsample_info nat rdata
| OversizeEv nat nat rsample_info
| GapEv nat nat seqno seqno nat "32 word list"
| HeartbeatEv nat Heartbeat int int
| HeartbeatFragEv guid nat seqno nat int
| MatchingDoneEv
| AddReaderEv ddsi_reader int u32
| DropReaderEv guid bool

fun pwr_step :: "rx_config \<Rightarrow> receiver_state \<Rightarrow> pwr_event \<Rightarrow> rx \<Rightarrow> rx option" where
  "pwr_step cfg rst (DataEv rmsg rdid info mf rdata) st = handle_regular cfg rst st rmsg rdid info mf rdata"
| "pwr_step cfg rst (OversizeEv rmsg rdid info) st = drop_oversize cfg rst st rmsg rdid info"
| "pwr_step cfg rst (GapEv rmsg rdid gapstart listbase n bits) st = handle_Gap cfg rst st rmsg rdid gapstart listbase n bits"
| "pwr_step cfg rst (HeartbeatEv rmsg hb tnow tnow_mt) st = handle_Heartbeat cfg rst st rmsg hb tnow tnow_mt"
| "pwr_step cfg rst (HeartbeatFragEv root rdid seq lastnum tnow_mt) st =
     handle_HeartbeatFrag cfg rst st root rdid seq lastnum tnow_mt"
| "pwr_step cfg rst MatchingDoneEv st = Some (st\<lparr>rx_pwr := local_matching_done (rx_pwr st)\<rparr>)"
| "pwr_step cfg rst (AddReaderEv rd tnow cnt) st =
     map_option (\<lambda>p. st\<lparr>rx_pwr := p\<rparr>) (proxy_writer_add_connection cfg (rx_pwr st) rd tnow cnt)"
| "pwr_step cfg rst (DropReaderEv g reliable) st = proxy_writer_drop_connection st g reliable"

text \<open>
  What is asked of an event: the validation of the messages, a heartbeat whose last number is in range, samples of one size per
  number, an oversize sample of a number that has been noted, numbers within \<open>INT32_MAX\<close> of each other in the reorder
  administrations, fewer than \<open>2 ^ 20\<close> readers, and that the message that an event comes in is being received, with room for one more
  bias in the 32 bits of its count. \<open>INT32_MAX\<close>, the last number of a heartbeat, the one size, the oversize sample and the room are
  not ensured by the code (\<open>heartbeat_packet_fails\<close>, \<open>oversize_sample_trips_drop\<close>, \<open>sizes_disagree_fails\<close>, \<open>biases_wrap\<close>).
\<close>

definition being_received :: "rx \<Rightarrow> nat \<Rightarrow> nat \<Rightarrow> bool" where
  "being_received st n m \<longleftrightarrow>
     RMSG_REFCOUNT_UNCOMMITTED_BIAS + owed (pw (rx_pwr st)) (readers (rx_pwr st)) m \<le> rx_refs st m \<and>
     rx_refs st m + n * BIAS < 2 ^ 32"

fun allowed :: "(seqno \<Rightarrow> nat) \<Rightarrow> rx \<Rightarrow> pwr_event \<Rightarrow> bool" where
  "allowed sz st (DataEv rmsg rdid info mf rdata) \<longleftrightarrow> arrives sz rmsg info rdata \<and> spans_ok (rx_pwr st) \<and>
     being_received st 1 rmsg"
| "allowed sz st (OversizeEv rmsg rdid info) \<longleftrightarrow> 1 \<le> si_seq info \<and> si_seq info \<le> pwr_last_seq (pw (rx_pwr st)) \<and>
     being_received st 1 rmsg"
| "allowed sz st (GapEv rmsg rdid gapstart listbase n bits) \<longleftrightarrow> valid_gap gapstart listbase n bits \<and>
     being_received st 1 rmsg"
| "allowed sz st (HeartbeatEv rmsg hb tnow tnow_mt) \<longleftrightarrow> valid_heartbeat hb \<and> 0 \<le> tnow_mt \<and> being_received st 1 rmsg"
| "allowed sz st (HeartbeatFragEv root rdid seq lastnum tnow_mt) \<longleftrightarrow> seq < SEQ_END \<and> 0 \<le> tnow_mt"
| "allowed sz st MatchingDoneEv \<longleftrightarrow> True"
| "allowed sz st (AddReaderEv rd tnow cnt) \<longleftrightarrow>
     reader_matches (rx_pwr st) rd \<and> 0 \<le> tnow \<and> length (readers (rx_pwr st)) + 5 < BIAS"
| "allowed sz st (DropReaderEv g reliable) \<longleftrightarrow>
     (case find_reader (rx_pwr st) g of None \<Rightarrow> True | Some m \<Rightarrow> reliable = (acknack_xevent m \<noteq> None))"

text \<open>What the proxy writer holds.\<close>

abbreviation owes :: "rx \<Rightarrow> nat \<Rightarrow> nat" where
  "owes st \<equiv> owed (pw (rx_pwr st)) (readers (rx_pwr st))"

text \<open>
  Other threads: the delivery thread and other proxy writers change the queue, the delivery thread notes the next number to
  be delivered, acknowledgements change the matches, references come and go. They do not touch what is in the
  defragmenter and in the reorder administrations, and they release only what is theirs.
\<close>

definition acked :: "pwr_match \<Rightarrow> pwr_match \<Rightarrow> bool" where
  "acked wn wn' \<longleftrightarrow> alike wn wn' \<and> rwn_reorder (pm_ack wn') = rwn_reorder (pm_ack wn) \<and>
     in_sync (pm_ack wn') = in_sync (pm_ack wn) \<and> 0 \<le> t_last_ack (pm_ack wn') \<and> 0 \<le> t_last_nack (pm_ack wn')"

definition others :: "rx \<Rightarrow> rx \<Rightarrow> bool" where
  "others st st' \<longleftrightarrow>
     (\<exists>q lw c wns. rx_pwr st' = (rx_pwr st)\<lparr>pw := (pw (rx_pwr st))\<lparr>pwr_dqueue := q, next_deliv_seq_lowword := lw,
          pwr_nackfragcount := c\<rparr>, readers := wns\<rparr> \<and> list_all2 acked (readers (rx_pwr st)) wns) \<and>
     deliv_ok (pw (rx_pwr st')) \<and> (\<forall>m. owes st' m \<le> rx_refs st' m)"

inductive rx_run :: "rx_config \<Rightarrow> (seqno \<Rightarrow> nat) \<Rightarrow> rx \<Rightarrow> bool" for cfg sz where
  start: "ddsi_new_proxy_writer cfg rel stl blt vol low ecl dq qid = Some p \<Longrightarrow>
    \<forall>m. held_in m (frags_of (dq_sc dq)) \<le> R m \<Longrightarrow> rx_run cfg sz (ddsi_new p R)"
| step: "rx_run cfg sz st \<Longrightarrow> allowed sz st ev \<Longrightarrow> pwr_step cfg rst ev st = Some st' \<Longrightarrow> rx_run cfg sz st'"
| packet: "rx_run cfg sz st \<Longrightarrow> rx_run cfg sz (packet_done st)"
| others: "rx_run cfg sz st \<Longrightarrow> others st st' \<Longrightarrow> rx_run cfg sz st'"

lemma rest_books: "rest F sz st \<Longrightarrow> rx_refs st m = F m + owes st m"
  by (simp add: rest_def here_def mid_def books_def)

lemma rest_taking: "rest F sz st \<Longrightarrow> being_received st 1 m \<Longrightarrow> taking F st m"
  using rest_books [of F sz st m] by (simp add: being_received_def taking_def)

lemma rest_step:
  assumes ok: "rest F sz st" and a: "allowed sz st ev" and c: "config_ok cfg"
  shows "\<exists>st'. pwr_step cfg rst ev st = Some st' \<and> rest F sz st'"
proof (cases ev)
  case (DataEv rmsg rdid info mf rdata)
  with handle_regular_ok [OF ok, of rmsg info rdata cfg rst rdid mf] rest_taking [OF ok] a show ?thesis by auto
next
  case (OversizeEv rmsg rdid info)
  with drop_oversize_ok [OF ok, of info rmsg cfg rst rdid] rest_taking [OF ok] a show ?thesis by auto
next
  case (GapEv rmsg rdid gapstart listbase n bits)
  with handle_Gap_ok [OF ok, of gapstart listbase n bits rmsg cfg rst rdid] rest_taking [OF ok] a show ?thesis by auto
next
  case (HeartbeatEv rmsg hb tnow tnow_mt)
  with handle_Heartbeat_ok [OF ok _ c, of hb tnow_mt rmsg rst tnow] rest_taking [OF ok] a show ?thesis by auto
next
  case (HeartbeatFragEv root rdid seq lastnum tnow_mt)
  with handle_HeartbeatFrag_ok [OF ok _ c, of seq tnow_mt rst root rdid lastnum] a show ?thesis by auto
next
  case MatchingDoneEv
  with ok show ?thesis by (simp add: local_matching_done_def rest_def here_def mid_def)
next
  case (AddReaderEv rd tnow cnt)
  with proxy_writer_add_connection_ok [OF ok c, of tnow rd cnt] a show ?thesis by auto
next
  case (DropReaderEv g reliable)
  with a have "\<forall>m. find_reader (rx_pwr st) g = Some m \<longrightarrow> reliable = (acknack_xevent m \<noteq> None)" by (auto split: option.splits)
  with proxy_writer_drop_connection_ok [OF ok, of g reliable] DropReaderEv show ?thesis by auto
qed

lemma acked_one: "acked wn wn' \<Longrightarrow> reader_ok wn \<Longrightarrow> reader_ok wn' \<and> alike wn wn' \<and> in_sync (pm_ack wn') = in_sync (pm_ack wn)"
  by (simp add: acked_def match_ok_def)

lemma acked_lists:
  "list_all2 acked wns wns' \<Longrightarrow> (\<forall>wn\<in>set wns. reader_ok wn) \<Longrightarrow>
    out_of_sync wns' = out_of_sync wns \<and> (\<forall>wn\<in>set wns'. reader_ok wn) \<and> list_all2 alike wns wns'"
proof (induction rule: list_all2_induct)
  case (Cons x xs y ys)
  then show ?case using acked_one [of x y] by simp
qed simp

lemma rest_others:
  assumes ok: "rest F sz st" and o: "others st st'"
  shows "\<exists>F'. rest F' sz st'"
proof -
  obtain q lw c wns where p: "rx_pwr st' = (rx_pwr st)\<lparr>pw := (pw (rx_pwr st))\<lparr>pwr_dqueue := q,
      next_deliv_seq_lowword := lw, pwr_nackfragcount := c\<rparr>, readers := wns\<rparr>" "list_all2 acked (readers (rx_pwr st)) wns"
    and d: "deliv_ok (pw (rx_pwr st'))" and le: "\<forall>m. owes st' m \<le> rx_refs st' m"
    using o unfolding others_def by (elim exE conjE)
  let ?L = "pwr_last_seq (pw (rx_pwr st)) + 1" and ?F = "\<lambda>m. rx_refs st' m - owes st' m"
  have h: "mid F sz ?L st (readers (rx_pwr st)) [] 0 []" "distinct (map pm_guid (readers (rx_pwr st)))"
    using ok by (simp_all add: rest_def here_def)
  have "\<forall>wn\<in>set (readers (rx_pwr st)). reader_ok wn" using h(1) by (simp add: mid_def)
  note l = acked_lists [OF p(2) this]
  have al: "map pm_guid wns = map pm_guid (readers (rx_pwr st))" "reliable_ones wns = reliable_ones (readers (rx_pwr st))"
    "length wns = length (readers (rx_pwr st))"
    using l alike_lists list_all2_lengthD [OF p(2)] by auto
  have "main_ok sz ?L (pw (rx_pwr st'))" using h(1) d p(1) by (simp add: mid_def main_ok_def)
  moreover have "books ?F (pw (rx_pwr st')) wns (rx_refs st') [] 0 []" using le p(1) by (simp add: books_def)
  ultimately have "mid ?F sz ?L st' wns [] 0 []" using h(1) l p(1) by (simp add: mid_def)
  then have "rest ?F sz st'" using ok h(2) al p(1) by (simp add: rest_def here_def)
  then show ?thesis by blast
qed

lemma packet_done_state [simp]: "rx_pwr (packet_done st) = rx_pwr st" "rx_refs (packet_done st) = rx_refs st"
  by (simp_all add: packet_done_def trigger_deferred_def trigger_def split: option.split)

lemma rest_packet: "rest F sz st \<Longrightarrow> rest F sz (packet_done st)"
  by (simp add: rest_def here_def mid_def)

lemma run_rest: "rx_run cfg sz st \<Longrightarrow> config_ok cfg \<Longrightarrow> \<exists>F. rest F sz st"
proof (induction rule: rx_run.induct)
  case (start rel stl blt vol low ecl dq qid p R)
  with new_proxy_writer_ok [of cfg dq R rel stl blt vol low ecl qid sz] show ?case by auto
next
  case (step st ev rst st')
  then obtain F where "rest F sz st" by blast
  with step rest_step [of F sz st ev cfg rst] show ?case by auto
next
  case (packet st)
  then show ?case using rest_packet by blast
next
  case (others st st')
  then show ?case using rest_others by blast
qed

text \<open>The message of an event, and how its count may grow.\<close>

fun rmsg_of :: "pwr_event \<Rightarrow> nat option" where
  "rmsg_of (DataEv rmsg rdid info mf rdata) = Some (rd_rmsg rdata)"
| "rmsg_of (OversizeEv rmsg rdid info) = Some rmsg"
| "rmsg_of (GapEv rmsg rdid gapstart listbase n bits) = Some rmsg"
| "rmsg_of (HeartbeatEv rmsg hb tnow tnow_mt) = Some rmsg"
| "rmsg_of ev = None"

lemma pwr_step_le:
  assumes "rmsg_of ev = Some rmsg \<or> (\<exists>root rdid seq lastnum t. ev = HeartbeatFragEv root rdid seq lastnum t)"
    and "pwr_step cfg rst ev st = Some st'"
  shows "rx_refs st' rmsg \<le> rx_refs st rmsg + BIAS"
proof (cases ev)
  case (DataEv m rdid info mf rdata)
  with assms handle_regular_le [of cfg rst st m rdid info mf rdata st' rmsg] show ?thesis by simp
next
  case (OversizeEv m rdid info)
  with assms drop_oversize_le [of cfg rst st m rdid info st' rmsg] show ?thesis by simp
next
  case (GapEv m rdid gapstart listbase n bits)
  with assms handle_Gap_le [of cfg rst st m rdid gapstart listbase n bits st' rmsg] show ?thesis by simp
next
  case (HeartbeatEv m hb tnow tnow_mt)
  with assms handle_Heartbeat_le [of cfg rst st m hb tnow tnow_mt st' rmsg] show ?thesis by simp
next
  case (HeartbeatFragEv root rdid seq lastnum t)
  with assms handle_HeartbeatFrag_refs [of cfg rst st root rdid seq lastnum t st'] show ?thesis by simp
qed (use assms in simp_all)

section \<open>Examples\<close>

definition px_cfg :: rx_config where
  "px_cfg = \<lparr>rc_ack = an_cfg, qos_valid = (\<lambda>_ _. True), primary_reorder_maxsamples = 4, secondary_reorder_maxsamples = 4,
     defrag_reliable_maxsamples = 4, defrag_unreliable_maxsamples = 4, preemptive_ack_delay = 10, scratch = an_info\<rparr>"

lemma px_cfg_ok: "config_ok px_cfg"
  by (simp add: config_ok_def px_cfg_def buffers_ok_def an_info_def an_cfg_def)

definition px_rst :: receiver_state where
  "px_rst = \<lparr>dst_guid_prefix = 1, vendor_eclipse = True, forme = True\<rparr>"

definition px_rd :: ddsi_reader where
  "px_rd = \<lparr>rd_guid = 2 ^ 32 + 7, rd_reliable = True, handle_as_transient_local = False, rd_builtin = False,
     rd_volatile_secure = False\<rparr>"

definition px_info :: "seqno \<Rightarrow> rsample_info" where
  "px_info q = \<lparr>si_seq = q, si_dst = 0, si_size = 20, si_fragsize = 0, si_timestamp = 0, si_statusinfo = 0\<rparr>"

definition px_data :: "nat \<Rightarrow> rdata" where
  "px_data m = \<lparr>rd_rmsg = m, rd_min = 0, rd_maxp1 = 20\<rparr>"

definition px_hb :: "seqno \<Rightarrow> seqno \<Rightarrow> Heartbeat" where
  "px_hb a b = \<lparr>hb_firstSN = a, hb_lastSN = b, hb_count = 1, hb_final = False, hb_readerId = 7\<rparr>"

text \<open>A reliable writer with a reliable reader, before and after the first heartbeat; every message is being received.\<close>

definition px_new :: rx where
  "px_new = ddsi_new (the (ddsi_new_proxy_writer px_cfg True False False False True False (nn_dqueue_new 4) 0)) (\<lambda>_. 2 ^ 31)"

definition px_reader :: rx where
  "px_reader = the (pwr_step px_cfg px_rst (AddReaderEv px_rd 5 0) px_new)"

definition px_matched :: rx where
  "px_matched = the (pwr_step px_cfg px_rst MatchingDoneEv px_reader)"

definition px_seen :: rx where
  "px_seen = the (pwr_step px_cfg px_rst (HeartbeatEv 1 (px_hb 1 0) 6 6) px_matched)"

lemma run_the:
  assumes "rx_run cfg sz st" "config_ok cfg" "allowed sz st ev"
  shows "rx_run cfg sz (the (pwr_step cfg rst ev st))"
proof -
  obtain F st' where "rest F sz st" "pwr_step cfg rst ev st = Some st'"
    using run_rest [OF assms(1,2)] rest_step [OF _ assms(3,2)] by blast
  with assms show ?thesis using rx_run.step by auto
qed

lemma px_new_run: "rx_run px_cfg sz px_new"
proof -
  have q: "\<forall>m. held_in m (frags_of (dq_sc (nn_dqueue_new 4))) \<le> 2 ^ 31" by (simp add: nn_dqueue_new_def frags_of_def)
  obtain p where p: "ddsi_new_proxy_writer px_cfg True False False False True False (nn_dqueue_new 4) 0 = Some p"
    using new_proxy_writer_ok [OF px_cfg_ok q] by blast
  from rx_run.start [OF p q] show ?thesis unfolding px_new_def p option.sel .
qed

lemma px_new_readers: "readers (rx_pwr px_new) = []" "pwr_reliable (rx_pwr px_new)"
  by (simp_all add: px_new_def ddsi_new_def ddsi_new_proxy_writer_def px_cfg_def nn_defrag_new_def)

lemma px_matched_received: "being_received px_matched 1 1"
  by code_simp

lemma px_seen_received: "being_received px_seen 1 2"
  by code_simp

lemma px_runs:
  "rx_run px_cfg sz px_reader" "rx_run px_cfg sz px_matched" "rx_run px_cfg sz px_seen"
proof -
  have "allowed sz px_new (AddReaderEv px_rd 5 0)"
    by (simp add: px_new_readers reader_matches_def RMSG_REFCOUNT_RDATA_BIAS_def)
  then show r: "rx_run px_cfg sz px_reader" unfolding px_reader_def by (rule run_the [OF px_new_run px_cfg_ok])
  have "allowed sz px_reader MatchingDoneEv" by simp
  then show m: "rx_run px_cfg sz px_matched" unfolding px_matched_def by (rule run_the [OF r px_cfg_ok])
  have "allowed sz px_matched (HeartbeatEv 1 (px_hb 1 0) 6 6)"
    using px_matched_received by (simp add: valid_heartbeat_def px_hb_def SEQ_END_def)
  then show "rx_run px_cfg sz px_seen" unfolding px_seen_def by (rule run_the [OF m px_cfg_ok])
qed

lemma px_seen_facts:
  "spans_ok (rx_pwr px_seen)" "next_of (rx_pwr px_seen) = 1" "deliver_synchronously (rx_pwr px_seen)"
  "n_readers_out_of_sync (rx_pwr px_seen) = 0" "have_seen_heartbeat (rx_pwr px_seen)" "readers (rx_pwr px_seen) \<noteq> []"
  "\<not> local_matching_inprogress (rx_pwr px_seen)" "\<not> pwr_filtered (rx_pwr px_seen)"
  unfolding spans_ok_def span_def
  by code_simp+

section \<open>Properties\<close>

text \<open>
  C1. From every state that a proxy writer reaches by events that \<open>allowed\<close> admits, in whatever order, while other threads
  interfere, the handler of one more such event returns, no assertion fails, and the references add up: what the counts of the
  messages gain or lose in a step is what the defragmenter, the reorder administrations and the delivery queue gain or lose.
  The events are data, gaps and heartbeats that the validation accepts and readers that come and go; beyond the validation \<open>allowed\<close>
  asks that the last number of a heartbeat is below \<open>2 ^ 63\<close>, that all fragments of a number announce one size, that an oversize sample
  has a number up to the last one noted, that the numbers stored lie within \<open>INT32_MAX\<close> of the next one expected, that there are fewer
  than \<open>2 ^ 20\<close> readers, and that the message is being received and has room for one more bias in its 32-bit count. Without these
  conditions assertions can fail, as C28 and C29 show for two of them.
\<close>

theorem pwr_step_safe:
  assumes "rx_run cfg sz st" "config_ok cfg" "allowed sz st ev"
  shows "\<exists>st'. pwr_step cfg rst ev st = Some st' \<and> rx_run cfg sz st' \<and>
    (\<forall>m. rx_refs st' m + owed (pw (rx_pwr st)) (readers (rx_pwr st)) m =
      rx_refs st m + owed (pw (rx_pwr st')) (readers (rx_pwr st')) m)"
proof -
  obtain F where F: "rest F sz st" using run_rest [OF assms(1,2)] by blast
  obtain st' where st': "pwr_step cfg rst ev st = Some st'" "rest F sz st'" using rest_step [OF F assms(3,2)] by blast
  have "rx_run cfg sz st'" using assms(1,3) st'(1) by (rule rx_run.step)
  with st' rest_books [OF F] rest_books [OF st'(2)] show ?thesis by simp
qed

lemma px_data_allowed: "allowed (\<lambda>_. 20) px_seen (DataEv 2 7 (px_info 1) UINT32_MAX (px_data 2))"
  using px_seen_facts(1) px_seen_received by (simp add: arrives_def px_info_def px_data_def SEQ_END_def)

lemma pwr_step_safe_witness:
  "\<exists>st'. pwr_step px_cfg px_rst (DataEv 2 7 (px_info 1) UINT32_MAX (px_data 2)) px_seen = Some st' \<and> rx_run px_cfg (\<lambda>_. 20) st' \<and>
    (\<forall>m. rx_refs st' m + owed (pw (rx_pwr px_seen)) (readers (rx_pwr px_seen)) m =
      rx_refs px_seen m + owed (pw (rx_pwr st')) (readers (rx_pwr st')) m)"
  by (rule pwr_step_safe [OF px_runs(3) px_cfg_ok px_data_allowed])

text \<open>
  C6. In every reachable state the counters of a proxy writer say what its readers are: how many are not in sync with it, and
  how many are reliable; the fast path of delivery is open exactly when all are in sync. No reader is there twice, what is
  stored has numbers up to the last one noted, and everything that is held has a reference.
\<close>

theorem pwr_counters_right:
  assumes "rx_run cfg sz st" "config_ok cfg"
  shows "n_readers_out_of_sync (rx_pwr st) = int (length (filter (\<lambda>w. in_sync (pm_ack w) \<noteq> PRMSS_SYNC) (readers (rx_pwr st)))) \<and>
    n_reliable_readers (rx_pwr st) = int (length (filter (\<lambda>w. acknack_xevent w \<noteq> None) (readers (rx_pwr st)))) \<and>
    fastpath_ok (rx_pwr st) = (n_readers_out_of_sync (rx_pwr st) = 0) \<and>
    distinct (map pm_guid (readers (rx_pwr st))) \<and>
    cov (ivs_of (pwr_reorder (pw (rx_pwr st)))) \<subseteq> {..pwr_last_seq (pw (rx_pwr st))} \<and>
    (\<forall>m. owed (pw (rx_pwr st)) (readers (rx_pwr st)) m \<le> rx_refs st m)"
proof -
  obtain F where F: "rest F sz st" using run_rest [OF assms] by blast
  have "{..<pwr_last_seq (pw (rx_pwr st)) + 1} = {..pwr_last_seq (pw (rx_pwr st))}" by auto
  with F rest_books [OF F] show ?thesis
    by (simp add: rest_def here_def mid_def main_ok_def out_of_sync_def reliable_ones_def)
qed

lemma pwr_counters_right_witness: "fastpath_ok (rx_pwr px_seen) = (n_readers_out_of_sync (rx_pwr px_seen) = 0)"
  using pwr_counters_right [OF px_runs(3) px_cfg_ok] by blast

text \<open>
  C7. A heartbeat moves the proxy writer on: after it the next number expected is at least the first one that the writer still
  has, or, when it is the first heartbeat, the one after the last; nothing waits for a sample that cannot come. The message of the
  heartbeat is being received, with room for one more bias.
\<close>

theorem heartbeat_moves_on:
  assumes "rx_run cfg sz st" "config_ok cfg" "valid_heartbeat hb" "0 \<le> tnow_mt"
    and "forme rst" "n_reliable_readers (rx_pwr st) \<noteq> 0" "filtered_dst (rx_pwr st) (dst_of rst (hb_readerId hb)) = None"
    and "being_received st 1 rmsg"
  shows "\<exists>st'. handle_Heartbeat cfg rst st rmsg hb tnow tnow_mt = Some st' \<and>
    (if have_seen_heartbeat (rx_pwr st) then hb_firstSN hb else hb_lastSN hb + 1) \<le> nn_reorder_next_seq (pwr_reorder (pw (rx_pwr st')))"
proof -
  obtain F where F: "rest F sz st" using run_rest [OF assms(1,2)] by blast
  obtain st' where "handle_Heartbeat cfg rst st rmsg hb tnow tnow_mt = Some st'"
    using handle_Heartbeat_ok [OF F assms(3,2,4) rest_taking [OF F assms(8)]] by blast
  with heartbeat_moves [OF F assms(3,5-7) rest_taking [OF F assms(8)]] show ?thesis by blast
qed

lemma px_matched_facts:
  "n_reliable_readers (rx_pwr px_matched) \<noteq> 0" "\<not> have_seen_heartbeat (rx_pwr px_matched)" "\<not> pwr_filtered (rx_pwr px_matched)"
  by code_simp+

lemma heartbeat_moves_on_witness:
  "\<exists>st'. handle_Heartbeat px_cfg px_rst px_matched 1 (px_hb 1 8) 6 6 = Some st' \<and>
    9 \<le> nn_reorder_next_seq (pwr_reorder (pw (rx_pwr st')))"
proof -
  have v: "valid_heartbeat (px_hb 1 8)" by (simp add: valid_heartbeat_def px_hb_def SEQ_END_def)
  have f: "filtered_dst (rx_pwr px_matched) (dst_of px_rst (hb_readerId (px_hb 1 8))) = None"
    using px_matched_facts(3) by (simp add: filtered_dst_def)
  have t: "0 \<le> (6::int)" and me: "forme px_rst" by (simp_all add: px_rst_def)
  from heartbeat_moves_on [OF px_runs(2) px_cfg_ok v t me px_matched_facts(1) f px_matched_received, of 6] px_matched_facts(2)
  show ?thesis by (simp add: px_hb_def)
qed

text \<open>The second sample is stored, as the first is missing.\<close>

definition px_waiting :: rx where
  "px_waiting = the (pwr_step px_cfg px_rst (DataEv 2 7 (px_info 2) UINT32_MAX (px_data 2)) px_seen)"

lemma px_waiting_run: "rx_run px_cfg (\<lambda>_. 20) px_waiting"
proof -
  have "allowed (\<lambda>_. 20) px_seen (DataEv 2 7 (px_info 2) UINT32_MAX (px_data 2))"
    using px_seen_facts(1) px_seen_received by (simp add: arrives_def px_info_def px_data_def SEQ_END_def)
  then show ?thesis unfolding px_waiting_def by (rule run_the [OF px_runs(3) px_cfg_ok])
qed

lemma px_waiting_facts:
  "spans_ok (rx_pwr px_waiting)" "being_received px_waiting 1 3" "next_of (rx_pwr px_waiting) = 1"
  "deliver_synchronously (rx_pwr px_waiting)" "n_readers_out_of_sync (rx_pwr px_waiting) = 0"
  "have_seen_heartbeat (rx_pwr px_waiting)" "readers (rx_pwr px_waiting) \<noteq> []"
  "\<not> local_matching_inprogress (rx_pwr px_waiting)" "\<not> pwr_filtered (rx_pwr px_waiting)"
  "map (map_option si_seq \<circ> sce_sampleinfo) (chains (ivs_of (pwr_reorder (pw (rx_pwr px_waiting))))) = [Some 2]"
  unfolding spans_ok_def span_def
  by code_simp+

text \<open>
  C5. With synchronous delivery and every reader in sync, a whole sample that is the next one expected is handed to the readers
  within the handler, followed by the elements \<open>us\<close> that were stored directly behind it, in increasing order of their numbers. What was
  stored in the reorder administration is \<open>us\<close> followed by what stays stored, so that no stored element is lost or handed over twice;
  the numbers that the stored intervals cover are those from the next one up to the one now expected, exclusive, together with those
  that stay covered, so that no number is passed over that was not covered; and the number now expected is not covered. An element of
  \<open>us\<close> is a sample or stands for a gap. Only elements that are samples and whose inline QoS can be parsed reach the readers (\<open>handled\<close>).
\<close>

theorem next_sample_handed_over:
  assumes "rx_run cfg sz st" "config_ok cfg" "allowed sz st (DataEv rmsg rdid info mf rdata)"
    and "rd_min rdata = 0" "rd_maxp1 rdata = si_size info" "si_seq info = nn_reorder_next_seq (pwr_reorder (pw (rx_pwr st)))"
    and "deliver_synchronously (rx_pwr st)" "n_readers_out_of_sync (rx_pwr st) = 0"
    and "\<not> no_heartbeat_yet rst (rx_pwr st)" "readers (rx_pwr st) \<noteq> []" "\<not> local_matching_inprogress (rx_pwr st)"
    and "filtered_dst (rx_pwr st) (dst_of rst rdid) = None"
  shows "\<exists>st' us. handle_regular cfg rst st rmsg rdid info mf rdata = Some st' \<and>
    rx_events st' = rx_events st @ handled cfg None (\<lparr>sce_fragchain = [rdata], sce_sampleinfo = Some info\<rparr> # us) \<and>
    placed (si_seq info) (nn_reorder_next_seq (pwr_reorder (pw (rx_pwr st'))))
      (\<lparr>sce_fragchain = [rdata], sce_sampleinfo = Some info\<rparr> # us) \<and>
    chains (ivs_of (pwr_reorder (pw (rx_pwr st)))) = us @ chains (ivs_of (pwr_reorder (pw (rx_pwr st')))) \<and>
    cov (ivs_of (pwr_reorder (pw (rx_pwr st)))) =
      {si_seq info + 1..<nn_reorder_next_seq (pwr_reorder (pw (rx_pwr st')))} \<union> cov (ivs_of (pwr_reorder (pw (rx_pwr st')))) \<and>
    nn_reorder_next_seq (pwr_reorder (pw (rx_pwr st'))) \<notin> cov (ivs_of (pwr_reorder (pw (rx_pwr st'))))"
proof -
  obtain F where F: "rest F sz st" using run_rest [OF assms(1,2)] by blast
  have a: "arrives sz rmsg info rdata" "spans_ok (rx_pwr st)" using assms(3) by simp_all
  have t: "taking F st rmsg" "taking F st (rd_rmsg rdata)"
    using rest_taking [OF F, of rmsg] assms(3) by (auto simp: arrives_def)
  obtain st' where s: "handle_regular cfg rst st rmsg rdid info mf rdata = Some st'"
    using handle_regular_ok [OF F a t(1)] by blast
  from regular_next [OF F assms(4-6) a(2) t(2) assms(7-12) s] s show ?thesis
    unfolding handed_over_def nn_reorder_next_seq_def by blast
qed

lemma next_sample_handed_over_witness:
  "\<exists>st' us. handle_regular px_cfg px_rst px_waiting 3 7 (px_info 1) UINT32_MAX (px_data 3) = Some st' \<and>
    rx_events st' = rx_events px_waiting @ handled px_cfg None (\<lparr>sce_fragchain = [px_data 3], sce_sampleinfo = Some (px_info 1)\<rparr> # us) \<and>
    chains (ivs_of (pwr_reorder (pw (rx_pwr px_waiting)))) = us @ chains (ivs_of (pwr_reorder (pw (rx_pwr st'))))"
proof -
  have a: "allowed (\<lambda>_. 20) px_waiting (DataEv 3 7 (px_info 1) UINT32_MAX (px_data 3))"
    using px_waiting_facts(1,2) by (simp add: arrives_def px_info_def px_data_def SEQ_END_def)
  have d: "rd_min (px_data 3) = 0" "rd_maxp1 (px_data 3) = si_size (px_info 1)"
    "si_seq (px_info 1) = nn_reorder_next_seq (pwr_reorder (pw (rx_pwr px_waiting)))"
    "\<not> no_heartbeat_yet px_rst (rx_pwr px_waiting)" "filtered_dst (rx_pwr px_waiting) (dst_of px_rst 7) = None"
    using px_waiting_facts by (simp_all add: px_data_def px_info_def no_heartbeat_yet_def filtered_dst_def)
  from next_sample_handed_over [OF px_waiting_run px_cfg_ok a d(1-3) px_waiting_facts(4,5) d(4) px_waiting_facts(7,8) d(5)]
  show ?thesis by blast
qed

text \<open>
  C28. A sample that is too large is replaced by a gap, but its number is not noted as the last one: when it is ahead of what is
  expected, the gap is stored beyond the last number noted, and when the last reliable reader then leaves, the assertion of
  \<open>nn_reorder_drop_upto\<close>, that nothing is stored beyond it, fails.
\<close>

theorem oversize_sample_trips_drop:
  "rx_run px_cfg sz px_seen \<and>
    (\<exists>st. pwr_step px_cfg px_rst (OversizeEv 2 7 (px_info 5)) px_seen = Some st \<and>
      pwr_step px_cfg px_rst (DropReaderEv (rd_guid px_rd) True) st = None)"
proof -
  let ?st = "the (pwr_step px_cfg px_rst (OversizeEv 2 7 (px_info 5)) px_seen)"
  have "pwr_step px_cfg px_rst (OversizeEv 2 7 (px_info 5)) px_seen \<noteq> None" by code_simp
  moreover have "Option.is_none (pwr_step px_cfg px_rst (DropReaderEv (rd_guid px_rd) True) ?st)" by code_simp
  ultimately show ?thesis using px_runs(3) by (auto simp: Option.is_none_def)
qed

end
