(* ===== verification/Message_Properties.thy ===== *)
theory Message_Properties
  imports Gap_Message Proxy_Writer_Properties
begin

text \<open>
  The properties of messages: what arrives is read within its bounds and reaches the handlers in range, a packet leads to steps of a
  proxy writer that do not fail, and what is written is read back.
\<close>

section \<open>From a packet to a proxy writer\<close>

text \<open>The receiver as the handlers of a proxy writer see it, and the guid of the writer.\<close>

definition rst_of :: "rtps_receiver \<Rightarrow> receiver_state" where
  "rst_of r = \<lparr>dst_guid_prefix = rs_dst r, vendor_eclipse = vendor_is_eclipse (rs_vendor r), forme = rs_forme r\<rparr>"

definition src_guid :: "rtps_receiver \<Rightarrow> nat \<Rightarrow> guid" where
  "src_guid r wrid = rs_src r * 2 ^ 32 + wrid"

text \<open>
  The event that a call is for the proxy writer \<open>g\<close>, if it is for it; \<open>rmsg\<close> is the message, \<open>root\<close> the reader at the root of the
  tree of readers, the times are those of the clocks.
\<close>

fun event_of :: "nat \<Rightarrow> int \<Rightarrow> int \<Rightarrow> guid \<Rightarrow> guid \<Rightarrow> submsg_call \<Rightarrow> (receiver_state \<times> pwr_event) option" where
  "event_of rmsg tnow tnow_mt root g (CallHeartbeat r wrid hb) =
     (if src_guid r wrid = g then Some (rst_of r, HeartbeatEv rmsg hb tnow tnow_mt) else None)"
| "event_of rmsg tnow tnow_mt root g (CallHeartbeatFrag r h) =
     (if src_guid r (hbf_writerId h) = g
      then Some (rst_of r, HeartbeatFragEv root (hbf_readerId h) (hbf_writerSN h) (hbf_lastFragmentNum h) tnow_mt) else None)"
| "event_of rmsg tnow tnow_mt root g (CallGap r x) =
     (if src_guid r (gap_writerId x) = g
      then Some (rst_of r, GapEv rmsg (gap_readerId x) (gap_start x) (gap_base x) (gap_numbits x) (gap_bits x)) else None)"
| "event_of rmsg tnow tnow_mt root g (Regular r d mf rdata) =
     (if src_guid r (dat_writerId d) = g then Some (rst_of r, DataEv rmsg (dat_readerId d) (dat_info d) mf rdata) else None)"
| "event_of rmsg tnow tnow_mt root g (Oversize r d) =
     (if src_guid r (dat_writerId d) = g then Some (rst_of r, OversizeEv rmsg (dat_readerId d) (dat_info d)) else None)"
| "event_of rmsg tnow tnow_mt root g (SPDP r d rdata) = None"
| "event_of rmsg tnow tnow_mt root g (CallAckNack r a t) = None"
| "event_of rmsg tnow tnow_mt root g (CallNackFrag r n) = None"

fun pwr_steps :: "rx_config \<Rightarrow> (receiver_state \<times> pwr_event) list \<Rightarrow> rx \<Rightarrow> rx option" where
  "pwr_steps cfg [] st = Some st"
| "pwr_steps cfg ((rst, ev) # evs) st = pwr_step cfg rst ev st \<bind> pwr_steps cfg evs"

text \<open>A packet, as the proxy writer \<open>g\<close> sees it.\<close>

definition receive_packet ::
  "msg_config \<Rightarrow> rx_config \<Rightarrow> nat \<Rightarrow> int \<Rightarrow> int \<Rightarrow> guid \<Rightarrow> guid \<Rightarrow> bytes \<Rightarrow> rx \<Rightarrow> rx option" where
  "receive_packet c cfg rmsg tnow tnow_mt root g m st = do {
     (calls, ok) \<leftarrow> handle_rtps_message c rmsg m;
     map_option packet_done (pwr_steps cfg (List.map_filter (event_of rmsg tnow tnow_mt root g) calls) st) }"






lemma being_received_new:
  "rx_refs st m = RMSG_REFCOUNT_UNCOMMITTED_BIAS \<Longrightarrow> owes st m = 0 \<Longrightarrow> n < 2048 \<Longrightarrow> being_received st n m"
  by (simp add: being_received_def RMSG_REFCOUNT_UNCOMMITTED_BIAS_def RMSG_REFCOUNT_RDATA_BIAS_def)


section \<open>Examples\<close>

definition mx_cfg :: msg_config where
  "mx_cfg = \<lparr>strict = False, fragment_size = 1344, max_sample_size = 2147483647, known_participant = (\<lambda>p. p = 1), dst_prefix = None\<rparr>"

text \<open>The header of a packet from the participant \<open>2\<close>, and a heartbeat from its writer with the id 3 for the reader with the id 7.\<close>

definition mx_header :: bytes where
  "mx_header = [0x52, 0x54, 0x50, 0x53, 2, 1, 1, 0x10, 0, 0, 0, 0, 0, 0, 0, 0, 0, 0, 0, 2]"

definition mx_heartbeat :: "bytes \<Rightarrow> bytes" where
  "mx_heartbeat lst = [7, 1, 28, 0, 0, 0, 0, 7, 0, 0, 0, 3, 0, 0, 0, 0, 1, 0, 0, 0] @ lst @ [1, 0, 0, 0]"

definition mx_dst :: bytes where
  "mx_dst = [14, 1, 12, 0, 0, 0, 0, 0, 0, 0, 0, 0, 0, 0, 0, 1]"

definition mx_packet :: bytes where
  "mx_packet = mx_header @ mx_dst @ mx_heartbeat [0, 0, 0, 0, 8, 0, 0, 0]"

definition mx_writer :: guid where
  "mx_writer = 2 * 2 ^ 32 + 3"

definition mx_call :: submsg_call where
  "mx_call = CallHeartbeat \<lparr>rs_src = 2, rs_dst = 1, rs_forme = True, rs_vendor = (1, 0x10), rs_version = (2, 1)\<rparr> 3 (px_hb 1 8)"

lemma mx_packet_calls: "handle_rtps_message mx_cfg 1 mx_packet = Some ([mx_call], True)"
  by code_simp

section \<open>Properties\<close>

text \<open>
  C3. Whatever bytes arrive, in whatever configuration: the validation and the scan of the inline QoS never read outside their
  submessage, the loop over the submessages ends, and the packet is either accepted or malformed.
\<close>

theorem message_within_bounds: "handle_rtps_message c rmsg m \<noteq> None"
  using handle_rtps_message_ok [of c rmsg m] by auto

text \<open>
  C4. What reaches a handler is in range, whatever bytes arrive: gaps as \<open>handle_Gap\<close> asserts them, bitmaps of at most 256 bits with
  all their words, numbers of samples from 1 to \<open>2 ^ 63 - 1\<close>, fragments that are not empty and lie in their sample. The limit on the
  size of samples leaves room for a fragment below \<open>2 ^ 32\<close>.
\<close>

theorem accepted_calls_in_range:
  assumes "max_sample_size c + 2 ^ 16 \<le> 2 ^ 32" "handle_rtps_message c rmsg m = Some (calls, ok)" "call \<in> set calls"
  shows "call_ok c rmsg call"
  using assms handle_rtps_message_ok [of c rmsg m] by (auto simp: calls_ok_def sample_bound_def)

lemma accepted_calls_in_range_witness: "call_ok mx_cfg 1 mx_call"
proof -
  have "max_sample_size mx_cfg + 2 ^ 16 \<le> 2 ^ 32" "mx_call \<in> set [mx_call]" by (simp_all add: mx_cfg_def)
  with mx_packet_calls show ?thesis by (blast intro: accepted_calls_in_range)
qed



text \<open>
  C8. Gaps survive the way to the other side: the numbers that a writer collects, in increasing order, are written into a message
  that the validation accepts, with the same ids, and what it announces is exactly those collected up to 255 behind the end of the
  first interval; no other number is announced as lost.
\<close>

theorem gap_roundtrip:
  assumes "qs \<noteq> []" "sorted_wrt (<) qs" "\<forall>q\<in>set qs. 1 \<le> q \<and> q < MAX_SEQ_NUMBER"
    and "ddsi_is_writer_entityid wrid" "rdid = NN_ENTITYID_UNKNOWN \<or> ddsi_is_reader_entityid rdid" "wrid < 2 ^ 32" "rdid < 2 ^ 32"
  shows "\<exists>gi m x. gap_infos nn_gap_info_init qs = Some gi \<and> nn_gap_info_create_gap rdid wrid gi = Some (Some m) \<and>
    validate_Gap False m = Some (VR_ACCEPT x) \<and> gap_readerId x = rdid \<and> gap_writerId x = wrid \<and> gap_start x = hd qs \<and>
    {q \<in> set qs. q < gap_base x + 256} = gap_seqs (gap_start x) (gap_base x) (gap_numbits x) (gap_bits x)"
proof -
  obtain q qs' where qs: "qs = q # qs'" using assms(1) by (cases qs) auto
  have q: "1 \<le> q" "\<forall>x\<in>set qs'. q + 1 \<le> x \<and> x < MAX_SEQ_NUMBER" "q + 1 \<le> MAX_SEQ_NUMBER" "sorted_wrt (<) qs'"
    using assms(2,3) qs by auto
  from first_update [OF q(1)] obtain gi1
    where gi1: "nn_gap_info_update nn_gap_info_init q = Some gi1" "gi_ok {q} (q + 1) gi1" "gapstart gi1 = q" by blast
  from updates [OF gi1(2) q(4,2,3)] obtain gi p where gi: "gap_infos gi1 qs' = Some gi" "gi_ok ({q} \<union> set qs') p gi"
    "p \<le> MAX_SEQ_NUMBER" "gapstart gi = gapstart gi1" by blast
  let ?b = "take ((gapnumbits gi + 31) div 32) (gapbits gi)"
  have run: "gap_infos nn_gap_info_init qs = Some gi" using qs gi1(1) gi(1) by simp
  have g: "1 \<le> gapstart gi" "gapstart gi \<le> gapend gi" "gapend gi + gapnumbits gi \<le> MAX_SEQ_NUMBER" "gapnumbits gi \<le> 256"
    "(gapnumbits gi + 31) div 32 \<le> length (gapbits gi)"
    and eq: "{x \<in> set qs. x < gapend gi + 256} = gap_seqs (gapstart gi) (gapend gi) (gapnumbits gi) (gapbits gi)"
    using gi(2,3) qs by (auto simp: gi_ok_def)
  have "gap_seqs (gapstart gi) (gapend gi) (gapnumbits gi) ?b = gap_seqs (gapstart gi) (gapend gi) (gapnumbits gi) (gapbits gi)"
    unfolding gap_seqs_def using isset_take_words by blast
  moreover have "gapstart gi \<noteq> 0" "hd qs = gapstart gi" using g(1) gi(4) gi1(3) qs by simp_all
  ultimately show ?thesis using validate_add_Gap [OF assms(4-7) g] run eq by (auto simp: nn_gap_info_create_gap_def)
qed

lemma gap_roundtrip_witness:
  "\<exists>gi m x. gap_infos nn_gap_info_init [5, 6, 9] = Some gi \<and> nn_gap_info_create_gap 7 3 gi = Some (Some m) \<and>
    validate_Gap False m = Some (VR_ACCEPT x) \<and> gap_readerId x = 7 \<and> gap_writerId x = 3 \<and> gap_start x = hd [5, 6, 9] \<and>
    {q \<in> set [5, 6, 9]. q < gap_base x + 256} = gap_seqs (gap_start x) (gap_base x) (gap_numbits x) (gap_bits x)"
  by (rule gap_roundtrip) (simp_all add: MAX_SEQ_NUMBER_def ddsi_is_writer_entityid_def ddsi_is_reader_entityid_def)

text \<open>
  C40. An acknowledgement that the validation has accepted asks for something exactly when one of the bits of its set is one; the bits
  of the last word that are behind the set are not looked at.
\<close>

theorem acknack_is_nack_correct:
  assumes "validate_AckNack c rst big m = Some (VR_ACCEPT a)"
  shows "acknack_is_nack a = Some (\<exists>i<akn_numbits a. isset (akn_bits a) i)"
  using validate_AckNack_checks [of c rst big m] assms by (intro acknack_is_nack_iff) (simp add: AckNack_ok_def)

text \<open>A request for the sample 3 of the samples 1 to 4, with a bit behind the set that is one.\<close>

definition mx_rst :: rtps_receiver where
  "mx_rst = \<lparr>rs_src = 2, rs_dst = 1, rs_forme = True, rs_vendor = (1, 0x10), rs_version = (2, 1)\<rparr>"

definition mx_acknack :: bytes where
  "mx_acknack = [6, 1, 28, 0, 0, 0, 0, 7, 0, 0, 0, 3, 0, 0, 0, 0, 1, 0, 0, 0, 4, 0, 0, 0, 0, 0, 0, 0x28, 9, 0, 0, 0]"

definition mx_ack :: AckNack where
  "mx_ack = \<lparr>akn_readerId = 7, akn_writerId = 3, akn_base = 1, akn_numbits = 4, akn_bits = [0x28000000], akn_count = 9\<rparr>"

lemma acknack_is_nack_correct_witness: "acknack_is_nack mx_ack = Some (\<exists>i<akn_numbits mx_ack. isset (akn_bits mx_ack) i)"
proof -
  have "validate_AckNack mx_cfg mx_rst False mx_acknack = Some (VR_ACCEPT mx_ack)" by code_simp
  then show ?thesis by (rule acknack_is_nack_correct)
qed

text \<open>
  C29. The last number of a heartbeat is not validated: a packet of 68 bytes whose heartbeat says that the samples up to \<open>2 ^ 64 - 1\<close> exist
  is accepted, and the assertion of \<open>handle_Heartbeat\<close> that its gap is not empty fails, as the number behind the last is 0.
\<close>

theorem heartbeat_packet_fails:
  "rx_run px_cfg sz px_matched \<and>
    receive_packet mx_cfg px_cfg 1 6 6 0 mx_writer (mx_header @ mx_dst @ mx_heartbeat (replicate 8 0xff)) px_matched = None"
proof -
  have "Option.is_none (receive_packet mx_cfg px_cfg 1 6 6 0 mx_writer (mx_header @ mx_dst @ mx_heartbeat (replicate 8 0xff)) px_matched)"
    by code_simp
  then show ?thesis using px_runs(2) by (simp add: Option.is_none_def)
qed

text \<open>A time whose fraction is all ones is taken for an invalid one, and with it the packet is malformed.\<close>

lemma timestamp_rejected:
  "\<not> ddsi_is_valid_timestamp 5 (2 ^ 32 - 1)"
  "handle_rtps_message mx_cfg 1 (mx_header @ [9, 1, 8, 0, 5, 0, 0, 0, 0xff, 0xff, 0xff, 0xff] @ mx_dst) = Some ([], False)"
  by code_simp+

end
