(* ===== verification/Spec2Isabelle.thy ===== *)
theory Spec2Isabelle
  imports Avl_Properties Inverse_Set Defrag_Properties Reorder_Properties Rbuf_Properties Dqueue_Properties Delivery
    Message_Properties
begin

text \<open>
  The core of Eclipse Cyclone DDS, the DDS implementation in \<open>src/cyclonedds-core\<close> of this repository. File names
  below are relative to \<open>src/cyclonedds-core/src\<close>. Verified is the path that received data take, from the
  bytes of a packet and the buffers they are received in to the readers: messages are validated, fragments are put together, samples are put in order,
  what is missing is requested, and the delivery thread hands the samples over.

  \<^bold>\<open>Parts and how they interact.\<close> The receive thread allocates messages in buffers (\<open>Rbuf_Model\<close>), with a reference
  count per message (\<open>Radmin_Data\<close>). A packet is taken apart into submessages, each is validated, and those accepted become calls of handlers
  (\<open>Message_Model\<close>). A fragment goes to the defragmenter of its proxy writer
  (\<open>Defrag_Model\<close>), which returns a sample once it is complete. The sample goes to the reorder
  administration (\<open>Reorder_Model\<close>), which returns chains of samples in the order of their numbers; gaps and
  heartbeats go there as well. A chain goes to the delivery queue (\<open>Dqueue_Model\<close>), whose thread calls the
  handler for each sample and gives up its references. What the reorder administration and the
  defragmenter lack is requested (\<open>Acknack_Model\<close>). Defragmenter and reorder administration index their
  data with the AVL tree of the runtime (\<open>Avl_Tree\<close>), and the requests are bit sets (\<open>Bitset\<close>). The handlers of
  the messages (\<open>Proxy_Writer_Model\<close>) tie these together: a proxy writer has one defragmenter and one reorder administration,
  and each reader that waits for historical data has a reorder administration of its own until it is in sync with the others. Entity
  ids come from an allocator (\<open>Inverse_Set\<close>).

  \<^bold>\<open>Theories.\<close>
  \<^item> \<open>Prelude\<close>: the failure monad (None is a failed \<open>assert\<close> or a NULL dereference), C integers, lists.
  \<^item> \<open>Avl_Tree\<close>: \<open>ddsrt/src/avl.c\<close>, with heights, augmentation and duplicate keys, its searches, paths and
    iterators. \<open>Avl_Balance\<close>, \<open>Avl_Order\<close>, \<open>Avl_Lookup\<close> and \<open>Avl_Augment\<close> show the balance, the in-order contents under
    every operation, the searches, the iterator and the summaries; \<open>Avl_Index\<close> states the interface
    that the clients use as the locales \<open>ordered_index\<close> and \<open>avl_index\<close>, interpreted by each client on its own tree; \<open>Avl_Properties\<close>.
  \<^item> \<open>Inverse_Set\<close>: \<open>core/ddsi/src/q_inverse_uint32_set.c\<close>, the free ids as a tree of intervals with a cursor.
  \<^item> \<open>Radmin_Data\<close>, \<open>Defrag_Model\<close>, \<open>Reorder_Model\<close>, \<open>Dqueue_Model\<close>, \<open>Rbuf_Model\<close>: the parts of
    \<open>core/ddsi/src/q_radmin.c\<close>. A C structure is a record, an intrusive list the list of its elements, a
    sample that changes its state (\<open>convert_defrag_to_reorder\<close>) a value of another record; a pointer into a tree is the key of the node.
  \<^item> \<open>Defrag_Sample\<close>, \<open>Defrag\<close>, \<open>Defrag_Nackmap\<close>, \<open>Defrag_Properties\<close>: the invariant of the interval tree of a
    sample and of the tree of samples, the bytes received, the NACK map; seen from outside a map from
    numbers to sets of bytes.
  \<^item> \<open>Reorder\<close>, \<open>Reorder_Gap\<close>, \<open>Reorder_Queries\<close>, \<open>Reorder_Runs\<close>, \<open>Reorder_Complete\<close>, \<open>Reorder_Properties\<close>: the
    intervals of stored samples and gaps under every branch of the operations, runs from the
    empty administration, order, completeness, references.
  \<^item> \<open>Dqueue\<close>, \<open>Dqueue_Properties\<close>: the queue and its thread as a step relation, its invariant, order and wake-ups.
    \<open>Delivery\<close> composes it with the reorder administration.
  \<^item> \<open>Rbuf\<close>, \<open>Rbuf_Runs\<close>, \<open>Rbuf_Properties\<close>: where messages lie in the buffers, and the runs of the receive thread and
    of those that release references.
  \<^item> \<open>Bitset\<close>: \<open>core/ddsi/include/dds/ddsi/q_bitset.h\<close>.
  \<^item> \<open>Acknack_Model\<close>, \<open>Acknack\<close>, \<open>Acknack_Properties\<close>: \<open>core/ddsi/src/ddsi_acknack.c\<close>, what is requested and when.

  \<^item> \<open>Reorder_Contract\<close>, \<open>Acknack_Safe\<close>: what the proxy writer relies on of those two, as one statement per operation.
  \<^item> \<open>Proxy_Writer_Model\<close>: the handlers of data, gaps, heartbeats and heartbeats for fragments of \<open>core/ddsi/src/q_receive.c\<close>
    behind the parsing, \<open>proxy_writer_add_connection\<close> and \<open>proxy_writer_drop_connection\<close> of \<open>ddsi_entity_match.c\<close>, and
    \<open>ddsi_new_proxy_writer\<close>. \<open>Proxy_Writer\<close> holds the invariant of a proxy writer between two steps of a handler (\<open>mid\<close>) and its account
    of references, \<open>Proxy_Writer_Steps\<close> the pieces that handlers share, \<open>Proxy_Writer_Handlers\<close>, \<open>Proxy_Writer_Data\<close> and
    \<open>Proxy_Writer_Readers\<close> the handlers themselves, \<open>Proxy_Writer_Progress\<close> what a heartbeat and the next sample bring about.
    \<open>Proxy_Writer_Properties\<close> has the runs: messages in any order, readers that come and go and, in between, other threads
    that change the queue, the times of acknowledgements and the references that are theirs (\<open>others\<close>). What is asked of an event
    (\<open>allowed\<close>) is what the validation of its message ensures and, beyond that, a bound on the last number of a heartbeat, one size for
    each sample, an oversize sample up to the last number noted, stored numbers within \<open>INT32_MAX\<close> of the next, fewer than \<open>2 ^ 20\<close>
    readers, and a message that is being received and whose count has room for one more bias (\<open>being_received\<close>).
    \<open>Proxy_Writer_Counts\<close> shows that a handler adds at most one bias to the count of its message.

  \<^item> \<open>Message_Model\<close>: bytes; \<open>handle_rtps_message\<close>, \<open>handle_submsg_sequence\<close> and the \<open>validate_\<close> functions of \<open>core/ddsi/src/q_receive.c\<close>,
    \<open>ddsi_plist_quickscan\<close> of \<open>ddsi_plist.c\<close>. \<open>Message\<close> shows that every read is within its submessage and what is known of a call
    (\<open>call_ok\<close>). \<open>Gap_Message\<close>: \<open>nn_gap_info_update\<close>, \<open>add_Gap\<close> and \<open>acknack_is_nack\<close>, the writer's side of gaps and requests.
    \<open>Message_Properties\<close> composes the packet with the proxy writer (\<open>receive_packet\<close>): what the validation ensures is no longer asked of the
    messages, and what is left is \<open>beyond_checks\<close>, with room in the count of the packet for as many biases as it has submessages.

  \<^bold>\<open>Reading the model.\<close> An operation returns None exactly when an assertion of the code fails, NULL would be
  dereferenced or a loop would not end, so \<open>f x = Some y\<close> says that the code returns, in a debug build, with the result \<open>y\<close>; of the assertions on messages two
  are left out, that of the thread (\<open>ASSERT_RBUFPOOL_OWNER\<close>) and that on \<open>refcount_bias_added\<close>, a field of debug builds. Reference counts of
  messages are a function \<open>refs\<close>, passed along; a count has 32 bits: a bias is added modulo \<open>2 ^ 32\<close>, under the assertion that the message is
  not committed yet, and every subtraction is behind the assertion that it does not go below zero. Sequence numbers are natural numbers (the code has 64 bits, of which
  messages use 63); sizes and offsets of samples are natural numbers with the wrap-around of the 32-bit computations written out
  where a value can reach it; counters and bit sets are words. Loops are recursive functions with
  termination proofs, or partial functions; there is no fuel.

  \<^bold>\<open>Bounds.\<close> The NACK maps have at most 256 bits, as in the protocol. The path arrays of the AVL tree have
  \<open>max_treeheight\<close> entries, enough for any tree in memory. The reorder theorems assume numbers less than
  \<open>INT32_MAX\<close> apart, which the code asserts. Samples, fragments and packets are less than \<open>2 ^ 32\<close> bytes,
  and the limit on samples (\<open>max_sample_size\<close>) leaves room for one fragment below that. The count of a message being received has room for
  2047 biases, of \<open>2 ^ 20\<close> each, above the uncommitted bias \<open>2 ^ 31\<close>; what takes in fragments and gaps assumes room for one more (\<open>receives\<close>,
  \<open>receiving\<close>, \<open>being_received\<close>, the rule \<open>addbias\<close> of \<open>pool_run\<close>), and \<open>biases_wrap\<close> and \<open>wrapped_count_refused\<close> show what 2048 of
  them do. The machine is little endian.

  \<^bold>\<open>Not modelled.\<close> Tracing, statistics of discarded bytes beyond the counters, locks (every operation is one step; the
  queue and its thread interleave), allocation failure except where the code handles it (an
  argument then), the contents of the payload, and of the handlers the leases, the listeners, the security checks and the direct
  callbacks of built-in readers. Of the rest of the program: the handlers of acknowledgements, the
  encoding of messages other than gaps, the decoding of protected messages (the model is that of a build without \<open>DDS_HAS_SECURITY\<close>),
  discovery, the writer and reader history caches, security, transports, configuration
  and the tools. The ROS nodes, the robot's message types and the examples around the core are glue.
\<close>

end
